(* ===== verification/Prelude.thy ===== *)
theory Prelude
  imports Complex_Main "HOL-Library.Word" "HOL-Library.Monad_Syntax"
begin

text \<open>
  Shared vocabulary of the development: the machine integers and byte strings of the Rust
  code, big- and little-endian conversions, checked reads from a byte slice, results with an
  error side, and the generic list lemmas that several components use.

  Conventions.  A Rust \<open>u8\<close>, \<open>u16\<close>, \<open>u32\<close> or \<open>u64\<close> is a word of that width; a
  \<open>usize\<close> (an offset into or the length of a buffer in memory) is a \<open>nat\<close>.  A
  \<open>Vec<u8>\<close>, \<open>&[u8]\<close>, \<open>String\<close> or \<open>&str\<close> is its list of bytes (UTF-8 for the text
  types), so \<open>as_bytes\<close> is the identity.  \<open>Result<T, E>\<close> is \<open>E + T\<close> and \<open>Option<T>\<close>
  is \<open>option\<close>.
\<close>

unbundle bit_operations_syntax

type_synonym u8 = "8 word"
type_synonym u16 = "16 word"
type_synonym u32 = "32 word"
type_synonym u64 = "64 word"
type_synonym bytes = "u8 list"
type_synonym str = "u8 list"

text \<open>The bound of a \<open>usize\<close>, and its saturating product.\<close>

definition usize_max :: nat where "usize_max = 18446744073709551615"

definition saturating_mul :: "nat \<Rightarrow> nat \<Rightarrow> nat" where
  "saturating_mul a b = min (a * b) usize_max"

lemma saturating_mul_le: "saturating_mul a b \<le> a * b"
  by (simp add: saturating_mul_def)

named_theorems wire_simps \<open>equations of the byte-level encoders and decoders\<close>
named_theorems len_simps \<open>lengths of encoded fields\<close>

subsection \<open>Text literals\<close>

text \<open>The bytes of an ASCII literal: Rust's \<open>b"..."\<close> and \<open>"..."\<close>.\<close>

definition lit :: "string \<Rightarrow> bytes" where
  "lit s = map of_char s"

lemma lit_Nil [simp]: "lit [] = []"
  by (simp add: lit_def)

lemma lit_Cons [simp]: "lit (c # s) = of_char c # lit s"
  by (simp add: lit_def)

lemma length_lit [simp]: "length (lit s) = length s"
  by (simp add: lit_def)

subsection \<open>Results\<close>

definition bindE :: "'e + 'a \<Rightarrow> ('a \<Rightarrow> 'e + 'b) \<Rightarrow> 'e + 'b" where
  "bindE r f = (case r of Inl e \<Rightarrow> Inl e | Inr v \<Rightarrow> f v)"

lemma bindE_Inl [simp]: "bindE (Inl e) f = Inl e"
  by (simp add: bindE_def)

lemma bindE_Inr [simp]: "bindE (Inr v) f = f v"
  by (simp add: bindE_def)

lemma bindE_eq_Inr: "bindE r f = Inr w \<longleftrightarrow> (\<exists>v. r = Inr v \<and> f v = Inr w)"
  by (cases r) simp_all

text \<open>\<open>Result::ok\<close> and \<open>Option::ok_or\<close>.\<close>

definition ok_of :: "'e + 'a \<Rightarrow> 'a option" where
  "ok_of r = (case r of Inl _ \<Rightarrow> None | Inr v \<Rightarrow> Some v)"

lemma ok_of_simps [simp]: "ok_of (Inl e) = None" "ok_of (Inr v) = Some v"
  by (simp_all add: ok_of_def)

lemma ok_of_eq_Some: "ok_of r = Some v \<longleftrightarrow> r = Inr v"
  by (cases r) simp_all

definition ok_or :: "'a option \<Rightarrow> 'e \<Rightarrow> 'e + 'a" where
  "ok_or x e = (case x of None \<Rightarrow> Inl e | Some v \<Rightarrow> Inr v)"

lemma ok_or_simps [simp]: "ok_or None e = Inl e" "ok_or (Some v) e = Inr v"
  by (simp_all add: ok_or_def)

subsection \<open>Endianness\<close>

lemma unat_less_exp: "unat (w :: 'a::len word) < 2 ^ LENGTH('a)"
  by (rule unsigned_less)

lemma unat_word_of_nat_u8: "unat (word_of_nat n :: u8) = n mod 256"
  by (simp add: unat_of_nat)

lemma unat_ucast_u8: "unat (ucast (w :: 'a::len word) :: u8) = unat w mod 256"
  by (simp add: unsigned_ucast_eq take_bit_eq_mod)

lemma unat_ucast_u16: "unat (ucast (w :: 'a::len word) :: u16) = unat w mod 65536"
  by (simp add: unsigned_ucast_eq take_bit_eq_mod)

lemma unat_ucast_u32: "unat (ucast (w :: 'a::len word) :: u32) = unat w mod 4294967296"
  by (simp add: unsigned_ucast_eq take_bit_eq_mod)

text \<open>The \<open>n\<close> low bytes of a number, least significant first, and back.\<close>

fun le_enc :: "nat \<Rightarrow> nat \<Rightarrow> bytes" where
  "le_enc 0 x = []"
| "le_enc (Suc n) x = word_of_nat x # le_enc n (x div 256)"

fun le_val :: "bytes \<Rightarrow> nat" where
  "le_val [] = 0"
| "le_val (b # bs) = unat b + 256 * le_val bs"

lemma length_le_enc [simp]: "length (le_enc n x) = n"
  by (induction n x rule: le_enc.induct) simp_all

lemma le_val_bound: "le_val bs < 256 ^ length bs"
proof (induction bs)
  case Nil
  show ?case by simp
next
  case (Cons b bs)
  have "unat b < 256" using unat_less_exp [of b] by simp
  then show ?case using Cons.IH by simp
qed

lemma le_val_enc: "le_val (le_enc n x) = x mod 256 ^ n"
proof (induction n x rule: le_enc.induct)
  case (1 x)
  show ?case by simp
next
  case (2 n x)
  have "unat (word_of_nat x :: u8) = x mod 256"
    by (simp add: unat_of_nat)
  then show ?case
    using 2 by (simp add: mod_mult2_eq add.commute)
qed

lemma le_enc_val: "length bs = n \<Longrightarrow> le_enc n (le_val bs) = bs"
proof (induction bs arbitrary: n)
  case Nil
  then show ?case by simp
next
  case (Cons b bs)
  have b: "unat b < 256" using unat_less_exp [of b] by simp
  have "word_of_nat (unat b + 256 * le_val bs) = b"
  proof -
    have "unat (word_of_nat (unat b + 256 * le_val bs) :: u8) = (unat b + 256 * le_val bs) mod 256"
      by (rule unat_word_of_nat_u8)
    also have "\<dots> = unat b" using b by simp
    finally have "unat (word_of_nat (unat b + 256 * le_val bs) :: u8) = unat b" .
    then show ?thesis by (simp only: word_unat_eq_iff)
  qed
  moreover have "(unat b + 256 * le_val bs) div 256 = le_val bs"
    using b by simp
  ultimately show ?case using Cons by (cases n) auto
qed

text \<open>\<open>to_le_bytes\<close>, \<open>to_be_bytes\<close>, \<open>from_le_bytes\<close> and \<open>from_be_bytes\<close> at each width.\<close>

definition le16 :: "u16 \<Rightarrow> bytes" where "le16 w = le_enc 2 (unat w)"
definition le32 :: "u32 \<Rightarrow> bytes" where "le32 w = le_enc 4 (unat w)"
definition le64 :: "u64 \<Rightarrow> bytes" where "le64 w = le_enc 8 (unat w)"
definition be16 :: "u16 \<Rightarrow> bytes" where "be16 w = rev (le_enc 2 (unat w))"
definition be32 :: "u32 \<Rightarrow> bytes" where "be32 w = rev (le_enc 4 (unat w))"

definition of_le :: "bytes \<Rightarrow> 'a::len word" where "of_le bs = word_of_nat (le_val bs)"
definition of_be :: "bytes \<Rightarrow> 'a::len word" where "of_be bs = word_of_nat (le_val (rev bs))"

lemma length_endian [simp, len_simps]:
  "length (le16 a) = 2" "length (le32 b) = 4" "length (le64 c) = 8"
  "length (be16 a) = 2" "length (be32 b) = 4"
  by (simp_all add: le16_def le32_def le64_def be16_def be32_def)

lemma unat_mod_self:
  fixes w :: "'a::len word"
  shows "2 ^ LENGTH('a) = m \<Longrightarrow> unat w mod m = unat w"
  using unat_less_exp [of w] by auto

lemma of_le_le [simp, wire_simps]:
  "of_le (le16 a) = a" "of_le (le32 b) = b" "of_le (le64 c) = c"
  by (simp_all add: of_le_def le16_def le32_def le64_def le_val_enc unat_mod_self)

lemma of_be_be [simp, wire_simps]: "of_be (be16 a) = a" "of_be (be32 b) = b"
  by (simp_all add: of_be_def be16_def be32_def le_val_enc unat_mod_self)

lemma be16_of_be: "length bs = 2 \<Longrightarrow> be16 (of_be bs) = bs"
proof -
  assume l: "length bs = 2"
  have "le_val (rev bs) < 65536" using le_val_bound [of "rev bs"] l by simp
  then have "unat (of_be bs :: u16) = le_val (rev bs)"
    by (simp add: of_be_def unat_of_nat)
  then show ?thesis using l le_enc_val [of "rev bs" 2] by (simp add: be16_def)
qed

lemma be32_of_be: "length bs = 4 \<Longrightarrow> be32 (of_be bs) = bs"
proof -
  assume l: "length bs = 4"
  have "le_val (rev bs) < 4294967296" using le_val_bound [of "rev bs"] l by simp
  then have "unat (of_be bs :: u32) = le_val (rev bs)"
    by (simp add: of_be_def unat_of_nat)
  then show ?thesis using l le_enc_val [of "rev bs" 4] by (simp add: be32_def)
qed

subsection \<open>Slices\<close>

text \<open>
  \<open>&data[p..p+n]\<close> where the code has checked the bounds, and the checked reads
  \<open>data.get(..)\<close> the proto crate repeats as \<open>be_u16\<close> and \<open>be_u32\<close>.
\<close>

definition slice :: "'a list \<Rightarrow> nat \<Rightarrow> nat \<Rightarrow> 'a list" where
  "slice xs p n = take n (drop p xs)"

definition be_u16 :: "bytes \<Rightarrow> nat \<Rightarrow> u16 option" where
  "be_u16 data pos = (if pos + 2 \<le> length data then Some (of_be (slice data pos 2)) else None)"

definition be_u32 :: "bytes \<Rightarrow> nat \<Rightarrow> u32 option" where
  "be_u32 data pos = (if pos + 4 \<le> length data then Some (of_be (slice data pos 4)) else None)"

lemma length_slice [simp]: "length (slice xs p n) = min n (length xs - p)"
  by (simp add: slice_def)

lemma slice_0 [simp]: "slice xs p 0 = []"
  by (simp add: slice_def)

lemma slice_append_at [simp]: "length pre = p \<Longrightarrow> length mid = n \<Longrightarrow> slice (pre @ mid @ post) p n = mid"
  by (simp add: slice_def)

lemma slice_append_end [simp]: "length pre = p \<Longrightarrow> length mid = n \<Longrightarrow> slice (pre @ mid) p n = mid"
  by (simp add: slice_def)

lemma nth_append_at: "length pre = n \<Longrightarrow> (pre @ x # post) ! n = x"
  by auto

lemma slice_prefix: "length mid = n \<Longrightarrow> slice (mid @ post) 0 n = mid"
  by (simp add: slice_def)

lemma be_u16_append: "length pre = p \<Longrightarrow> be_u16 (pre @ be16 w @ post) p = Some w"
  by (simp add: be_u16_def)

lemma be_u32_append: "length pre = p \<Longrightarrow> be_u32 (pre @ be32 w @ post) p = Some w"
  by (simp add: be_u32_def)

lemma be_u16_Some_bound: "be_u16 data pos = Some w \<Longrightarrow> pos + 2 \<le> length data"
  by (simp add: be_u16_def split: if_splits)

lemma be_u32_Some_bound: "be_u32 data pos = Some w \<Longrightarrow> pos + 4 \<le> length data"
  by (simp add: be_u32_def split: if_splits)

subsection \<open>Lists and words\<close>

lemma unat_u8_lt [simp]: "unat (b :: u8) < 256"
  using unat_less_exp [of b] by simp

lemma unat_u8_le [simp]: "unat (b :: u8) \<le> 255"
  using unat_u8_lt [of b] by linarith

lemma unat_u16_lt [simp]: "unat (b :: u16) < 65536"
  using unat_less_exp [of b] by simp

lemma unat_u32_lt [simp]: "unat (b :: u32) < 4294967296"
  using unat_less_exp [of b] by simp

lemma u8_low6: "(w :: u8) < 64 \<longleftrightarrow> take_bit 6 w = w"
proof -
  have "take_bit 6 w = w \<longleftrightarrow> unat w mod 64 = unat w"
    by (simp add: word_unat_eq_iff take_bit_eq_mod unat_mod)
  also have "\<dots> \<longleftrightarrow> unat w < 64"
    by (metis mod_less mod_less_divisor zero_less_numeral)
  finally show ?thesis by (simp add: word_less_nat_alt)
qed

text \<open>The two top bits of a label byte are clear exactly for the lengths 0 to 63.\<close>

lemma label_byte_iff: "(w :: u8) AND 0xC0 = 0 \<longleftrightarrow> w < 64"
proof
  assume a: "w AND 0xC0 = 0"
  have m: "(0x3F OR 0xC0 :: u8) = -1" by simp
  have "w = w AND (0x3F OR 0xC0)" unfolding m by simp
  also have "\<dots> = (w AND 0x3F) OR (w AND 0xC0)" by (rule bit.conj_disj_distrib)
  finally have "w = w AND mask 6" using a by (simp add: mask_eq_exp_minus_1)
  then show "w < 64" unfolding u8_low6 by (simp add: take_bit_eq_mask)
next
  assume "w < 64"
  then have "w = w AND 63" unfolding u8_low6 by (simp add: take_bit_eq_mask mask_eq_exp_minus_1)
  then have "w AND 0xC0 = w AND (63 AND 0xC0)" by (metis and.assoc)
  then show "w AND 0xC0 = 0" by simp
qed

lemma unat_of_nat_u8: "n < 256 \<Longrightarrow> unat (word_of_nat n :: u8) = n"
  by (simp add: unat_of_nat)

lemma unat_of_nat_u16: "n < 65536 \<Longrightarrow> unat (word_of_nat n :: u16) = n"
  by (simp add: unat_of_nat)

lemma unat_of_nat_u32: "n < 4294967296 \<Longrightarrow> unat (word_of_nat n :: u32) = n"
  by (simp add: unat_of_nat)

end
