(* ===== verification/Text.thy ===== *)
theory Text
  imports Prelude
begin

text \<open>
  The part of Rust's standard library for text that the code uses, on UTF-8 byte lists: ASCII
  classification and case, UTF-8 validation and the lossy decoder, \<open>chars\<close>, trimming and
  splitting, decimal and hexadecimal numbers, and the presentation forms of IPv4 and IPv6
  addresses.  None of it is code of the repository; it is what the definitions of the other
  theories call.
\<close>

subsection \<open>ASCII\<close>

definition is_ascii :: "bytes \<Rightarrow> bool" where
  "is_ascii s \<longleftrightarrow> (\<forall>b \<in> set s. b < 128)"

definition ascii_digit :: "u8 \<Rightarrow> bool" where
  "ascii_digit b \<longleftrightarrow> 48 \<le> b \<and> b \<le> 57"

definition ascii_graphic :: "u8 \<Rightarrow> bool" where
  "ascii_graphic b \<longleftrightarrow> 33 \<le> b \<and> b \<le> 126"

definition ascii_whitespace :: "u8 \<Rightarrow> bool" where
  "ascii_whitespace b \<longleftrightarrow> b = 32 \<or> b = 9 \<or> b = 10 \<or> b = 12 \<or> b = 13"

definition lower_byte :: "u8 \<Rightarrow> u8" where
  "lower_byte b = (if 65 \<le> b \<and> b \<le> 90 then b + 32 else b)"

definition upper_byte :: "u8 \<Rightarrow> u8" where
  "upper_byte b = (if 97 \<le> b \<and> b \<le> 122 then b - 32 else b)"

definition ascii_lower :: "str \<Rightarrow> str" where "ascii_lower s = map lower_byte s"
definition ascii_upper :: "str \<Rightarrow> str" where "ascii_upper s = map upper_byte s"

lemma is_ascii_simps [simp]:
  "is_ascii []" "is_ascii (b # s) \<longleftrightarrow> b < 128 \<and> is_ascii s"
  "is_ascii (s @ t) \<longleftrightarrow> is_ascii s \<and> is_ascii t"
  by (auto simp: is_ascii_def)

subsection \<open>UTF-8\<close>

text \<open>
  One step of the standard decoder at the head of a non-empty input: how many bytes it
  consumes, and whether they are a well-formed character.  \<open>get0\<close> is its out-of-range read.
\<close>

definition get0 :: "bytes \<Rightarrow> nat \<Rightarrow> u8" where
  "get0 s i = (if i < length s then s ! i else 0)"

definition cont_byte :: "u8 \<Rightarrow> bool" where
  "cont_byte b \<longleftrightarrow> 128 \<le> b \<and> b \<le> 191"

definition second_ok :: "u8 \<Rightarrow> u8 \<Rightarrow> bool" where
  "second_ok b c \<longleftrightarrow>
     (if b = 224 then 160 \<le> c \<and> c \<le> 191
      else if b = 237 then 128 \<le> c \<and> c \<le> 159
      else if b = 240 then 144 \<le> c \<and> c \<le> 191
      else if b = 244 then 128 \<le> c \<and> c \<le> 143
      else cont_byte c)"

definition utf8_step :: "bytes \<Rightarrow> nat \<times> bool" where
  "utf8_step s =
     (let b = get0 s 0; c1 = get0 s 1; c2 = get0 s 2; c3 = get0 s 3 in
      if b < 128 then (1, True)
      else if 194 \<le> b \<and> b \<le> 223 then (if cont_byte c1 then (2, True) else (1, False))
      else if 224 \<le> b \<and> b \<le> 239 then
        (if \<not> second_ok b c1 then (1, False)
         else if cont_byte c2 then (3, True) else (2, False))
      else if 240 \<le> b \<and> b \<le> 244 then
        (if \<not> second_ok b c1 then (1, False)
         else if \<not> cont_byte c2 then (2, False)
         else if cont_byte c3 then (4, True) else (3, False))
      else (1, False))"

lemma utf8_step_pos: "0 < fst (utf8_step s)"
  by (simp add: utf8_step_def Let_def)

lemma utf8_step_pos_pair: "(n, ok) = utf8_step s \<Longrightarrow> 0 < n"
  using utf8_step_pos [of s] by (metis fst_conv)

text \<open>\<open>String::from_utf8_lossy\<close>: each maximal ill-formed piece becomes U+FFFD.\<close>

function from_utf8_lossy :: "bytes \<Rightarrow> str" where
  "from_utf8_lossy s =
     (if s = [] then []
      else let (n, ok) = utf8_step s in
        (if ok then take n s else [239, 191, 189]) @ from_utf8_lossy (drop n s))"
  by pat_completeness auto
termination
proof (relation "measure length", goal_cases)
  case 1
  show ?case by simp
next
  case (2 s x n ok)
  then have "0 < n" using utf8_step_pos_pair by simp
  with 2 show ?case by (cases s) simp_all
qed

text \<open>\<open>str::from_utf8\<close> succeeds.\<close>

function valid_utf8 :: "bytes \<Rightarrow> bool" where
  "valid_utf8 s =
     (if s = [] then True
      else let (n, ok) = utf8_step s in ok \<and> valid_utf8 (drop n s))"
  by pat_completeness auto
termination
proof (relation "measure length", goal_cases)
  case 1
  show ?case by simp
next
  case (2 s x n ok)
  then have "0 < n" using utf8_step_pos_pair by simp
  with 2 show ?case by (cases s) simp_all
qed

text \<open>\<open>str::chars\<close>, each character as its bytes.\<close>

function chars :: "str \<Rightarrow> bytes list" where
  "chars s =
     (if s = [] then [] else let n = fst (utf8_step s) in take n s # chars (drop n s))"
  by pat_completeness auto
termination
proof (relation "measure length", goal_cases)
  case 1
  show ?case by simp
next
  case (2 s x)
  then show ?case using utf8_step_pos [of s] by (cases s) auto
qed

declare from_utf8_lossy.simps [simp del] valid_utf8.simps [simp del] chars.simps [simp del]

lemma from_utf8_lossy_valid: "valid_utf8 s \<Longrightarrow> from_utf8_lossy s = s"
proof (induction s rule: from_utf8_lossy.induct)
  case (1 s)
  show ?case
  proof (cases "s = []")
    case True
    then show ?thesis by (simp add: from_utf8_lossy.simps)
  next
    case False
    obtain n ok where st: "utf8_step s = (n, ok)" by (cases "utf8_step s")
    with 1(2) False have ok: "ok" "valid_utf8 (drop n s)"
      by (simp_all add: valid_utf8.simps [of s])
    with 1(1) [OF False st [symmetric] refl] st False show ?thesis
      by (simp add: from_utf8_lossy.simps [of s])
  qed
qed

lemma utf8_step_ascii: "b < 128 \<Longrightarrow> utf8_step (b # s) = (1, True)"
  by (simp add: utf8_step_def get0_def)

lemma valid_utf8_Nil [simp]: "valid_utf8 []"
  by (simp add: valid_utf8.simps)

lemma valid_utf8_ascii_Cons [simp]: "b < 128 \<Longrightarrow> valid_utf8 (b # s) = valid_utf8 s"
  by (simp add: valid_utf8.simps [of "b # s"] utf8_step_ascii)

lemma valid_utf8_ascii: "is_ascii s \<Longrightarrow> valid_utf8 s"
  by (induction s) simp_all

lemma chars_Nil [simp]: "chars [] = []"
  by (simp add: chars.simps)

lemma chars_ascii_Cons [simp]: "b < 128 \<Longrightarrow> chars (b # s) = [b] # chars s"
  by (simp add: chars.simps [of "b # s"] utf8_step_ascii)

lemma chars_ascii: "is_ascii s \<Longrightarrow> chars s = map (\<lambda>b. [b]) s"
  by (induction s) simp_all

lemma concat_chars: "concat (chars s) = s"
proof (induction s rule: chars.induct)
  case (1 s)
  show ?case
  proof (cases "s = []")
    case True
    then show ?thesis by simp
  next
    case False
    with 1 show ?thesis by (simp add: chars.simps [of s] Let_def)
  qed
qed

lemma concat_singletons [simp]: "concat (map (\<lambda>b. [b]) s) = s"
  by (induction s) simp_all

subsection \<open>Trimming and splitting\<close>

text \<open>\<open>char::is_whitespace\<close>: the Unicode \<open>White_Space\<close> characters, by their UTF-8 bytes.\<close>

definition char_whitespace :: "bytes \<Rightarrow> bool" where
  "char_whitespace c \<longleftrightarrow>
     c \<in> {[9], [10], [11], [12], [13], [32], [194, 133], [194, 160], [225, 154, 128],
          [226, 128, 168], [226, 128, 169], [226, 128, 175], [226, 129, 159], [227, 128, 128]}
     \<or> (\<exists>d \<in> {128, 129, 130, 131, 132, 133, 134, 135, 136, 137, 138}. c = [226, 128, d])"

definition trim :: "str \<Rightarrow> str" where
  "trim s = concat (rev (dropWhile char_whitespace (rev (dropWhile char_whitespace (chars s)))))"

lemma char_whitespace_graphic: "ascii_graphic b \<Longrightarrow> \<not> char_whitespace [b]"
  by (auto simp: char_whitespace_def ascii_graphic_def)

text \<open>A text whose ends are graphic ASCII is not trimmed.\<close>

lemma trim_ascii_id:
  assumes "is_ascii s" and "s \<noteq> []" and "ascii_graphic (hd s)" and "ascii_graphic (last s)"
  shows "trim s = s"
proof -
  obtain a t where s: "s = a # t" using assms(2) by (cases s) auto
  have 1: "dropWhile char_whitespace (chars s) = chars s"
    using assms s by (simp add: chars_ascii char_whitespace_graphic)
  obtain u z where z: "s = u @ [z]" using assms(2) by (cases s rule: rev_cases) auto
  have 2: "dropWhile char_whitespace (rev (chars s)) = rev (chars s)"
    using assms(1,4) z by (simp add: chars_ascii char_whitespace_graphic)
  show ?thesis by (simp add: trim_def 1 2 concat_chars)
qed

text \<open>\<open>split(c)\<close> for an ASCII separator: always at least one piece.\<close>

fun split_byte :: "u8 \<Rightarrow> str \<Rightarrow> str list" where
  "split_byte c [] = [[]]"
| "split_byte c (b # s) =
     (if b = c then [] # split_byte c s
      else case split_byte c s of [] \<Rightarrow> [[b]] | p # ps \<Rightarrow> (b # p) # ps)"

fun intercalate :: "str \<Rightarrow> str list \<Rightarrow> str" where
  "intercalate sep [] = []"
| "intercalate sep [x] = x"
| "intercalate sep (x # y # ys) = x @ sep @ intercalate sep (y # ys)"

lemma split_byte_not_Nil [simp]: "split_byte c s \<noteq> []"
  by (induction s) (auto split: list.splits)

lemma split_byte_no_sep: "c \<notin> set p \<Longrightarrow> split_byte c p = [p]"
  by (induction p) auto

lemma split_byte_append: "c \<notin> set p \<Longrightarrow> split_byte c (p @ c # s) = p # split_byte c s"
  by (induction p) auto

lemma split_byte_intercalate:
  "ps \<noteq> [] \<Longrightarrow> \<forall>p \<in> set ps. c \<notin> set p \<Longrightarrow> split_byte c (intercalate [c] ps) = ps"
  by (induction "[c]" ps rule: intercalate.induct)
    (simp_all add: split_byte_no_sep split_byte_append)

text \<open>\<open>split_once(c)\<close>, \<open>strip_prefix\<close> and \<open>strip_suffix\<close>.\<close>

definition split_once :: "u8 \<Rightarrow> str \<Rightarrow> (str \<times> str) option" where
  "split_once c s =
     (if c \<in> set s then Some (takeWhile (\<lambda>b. b \<noteq> c) s, tl (dropWhile (\<lambda>b. b \<noteq> c) s)) else None)"

lemma split_once_append: "c \<notin> set k \<Longrightarrow> split_once c (k @ c # v) = Some (k, v)"
  by (induction k) (auto simp: split_once_def)

lemma split_once_None: "c \<notin> set s \<Longrightarrow> split_once c s = None"
  by (simp add: split_once_def)

definition strip_prefix :: "str \<Rightarrow> str \<Rightarrow> str option" where
  "strip_prefix p s = (if take (length p) s = p then Some (drop (length p) s) else None)"

definition strip_suffix :: "str \<Rightarrow> str \<Rightarrow> str option" where
  "strip_suffix p s = map_option rev (strip_prefix (rev p) (rev s))"

lemma strip_prefix_append [simp]: "strip_prefix p (p @ s) = Some s"
  by (simp add: strip_prefix_def)

lemma strip_suffix_append [simp]: "strip_suffix p (s @ p) = Some s"
  by (simp add: strip_suffix_def)

text \<open>\<open>split_whitespace\<close>: the maximal runs of non-whitespace characters.\<close>

fun ws_runs :: "bytes list \<Rightarrow> bytes \<Rightarrow> str list" where
  "ws_runs [] cur = (if cur = [] then [] else [cur])"
| "ws_runs (c # cs) cur =
     (if char_whitespace c then (if cur = [] then ws_runs cs [] else cur # ws_runs cs [])
      else ws_runs cs (cur @ c))"

definition split_whitespace :: "str \<Rightarrow> str list" where
  "split_whitespace s = ws_runs (chars s) []"

text \<open>\<open>trim_end_matches('.')\<close>.\<close>

definition trim_end_dots :: "str \<Rightarrow> str" where
  "trim_end_dots s = rev (dropWhile (\<lambda>b. b = 46) (rev s))"

lemma trim_end_dots_id: "s = [] \<or> last s \<noteq> 46 \<Longrightarrow> trim_end_dots s = s"
proof -
  assume a: "s = [] \<or> last s \<noteq> 46"
  show ?thesis
  proof (cases s rule: rev_cases)
    case Nil
    then show ?thesis by (simp add: trim_end_dots_def)
  next
    case (snoc ys y)
    with a show ?thesis by (simp add: trim_end_dots_def)
  qed
qed

subsection \<open>Numbers\<close>

text \<open>Decimal display of an unsigned integer, and \<open>parse::<uN>()\<close> with the type's maximum.\<close>

fun dec :: "nat \<Rightarrow> str" where
  "dec n = (if n < 10 then [word_of_nat (48 + n)]
            else dec (n div 10) @ [word_of_nat (48 + n mod 10)])"

declare dec.simps [simp del]

definition dec_val :: "str \<Rightarrow> nat" where
  "dec_val s = foldl (\<lambda>a d. a * 10 + (unat d - 48)) 0 s"

definition parse_uint :: "nat \<Rightarrow> str \<Rightarrow> nat option" where
  "parse_uint mx s =
     (let d = (case s of b # t \<Rightarrow> (if b = 43 \<and> t \<noteq> [] then t else s) | [] \<Rightarrow> []) in
      if d = [] \<or> \<not> list_all ascii_digit d then None
      else if dec_val d \<le> mx then Some (dec_val d) else None)"

lemma dec_digit: "n < 10 \<Longrightarrow> ascii_digit (word_of_nat (48 + n))"
  by (simp add: ascii_digit_def word_le_nat_alt unat_of_nat_u8 del: of_nat_add)

lemma dec_digits: "list_all ascii_digit (dec n)"
  by (induction n rule: dec.induct) (subst dec.simps, simp add: dec_digit del: of_nat_add)

lemma dec_not_Nil [simp]: "dec n \<noteq> []"
  by (subst dec.simps) simp

lemma dec_val_dec [simp]: "dec_val (dec n) = n"
proof (induction n rule: dec.induct)
  case (1 n)
  show ?case
  proof (cases "n < 10")
    case True
    then show ?thesis
      by (subst dec.simps) (simp add: dec_val_def unat_of_nat_u8 del: of_nat_add)
  next
    case False
    have "unat (word_of_nat (48 + n mod 10) :: u8) = 48 + n mod 10"
      by (rule unat_of_nat_u8) linarith
    with 1 False show ?thesis
      by (subst dec.simps) (simp add: dec_val_def del: of_nat_add)
  qed
qed

lemma digit_not_plus: "ascii_digit b \<Longrightarrow> b \<noteq> 43"
  by (auto simp: ascii_digit_def)

lemma parse_uint_digits:
  assumes "d \<noteq> []" and "list_all ascii_digit d"
  shows "parse_uint mx d = (if dec_val d \<le> mx then Some (dec_val d) else None)"
proof -
  obtain b t where d: "d = b # t" using assms(1) by (cases d) auto
  with assms(2) have "b \<noteq> 43" using digit_not_plus by simp
  with assms d show ?thesis by (simp add: parse_uint_def)
qed

lemma parse_uint_dec [simp]: "n \<le> mx \<Longrightarrow> parse_uint mx (dec n) = Some n"
  by (simp add: parse_uint_digits dec_digits)

lemma ascii_digit_graphic: "ascii_digit b \<Longrightarrow> ascii_graphic b"
  by (auto simp: ascii_digit_def ascii_graphic_def word_le_nat_alt)

lemma ascii_graphic_ascii: "ascii_graphic b \<Longrightarrow> b < 128"
  by (auto simp: ascii_graphic_def word_le_nat_alt word_less_nat_alt)

lemma is_ascii_dec [simp]: "is_ascii (dec n)"
  using dec_digits [of n] ascii_digit_graphic ascii_graphic_ascii
  by (auto simp: is_ascii_def list_all_iff)

lemma dec_graphic: "b \<in> set (dec n) \<Longrightarrow> ascii_graphic b"
  using dec_digits [of n] ascii_digit_graphic by (auto simp: list_all_iff)

end
