(* ===== verification/Constants.thy ===== *)
theory Constants
  imports Text
begin

text \<open>
  \<open>ebpdns-proto/src/constants.rs\<close>: the type, class and flag codes, the limits and their
  clamps, and the three-way classification of a query type (answered, refused, passed
  through).  \<open>proto_error\<close> is \<open>ProtoError\<close> of \<open>error.rs\<close>.
\<close>

datatype proto_error =
    Malformed string
  | Truncated string
  | InvalidName string
  | InvalidRdata string
  | Unsupported u16

subsection \<open>Codes\<close>

abbreviation "TYPE_A \<equiv> (1 :: u16)"
abbreviation "TYPE_NS \<equiv> (2 :: u16)"
abbreviation "TYPE_CNAME \<equiv> (5 :: u16)"
abbreviation "TYPE_SOA \<equiv> (6 :: u16)"
abbreviation "TYPE_NULL \<equiv> (10 :: u16)"
abbreviation "TYPE_PTR \<equiv> (12 :: u16)"
abbreviation "TYPE_MX \<equiv> (15 :: u16)"
abbreviation "TYPE_TXT \<equiv> (16 :: u16)"
abbreviation "TYPE_AAAA \<equiv> (28 :: u16)"
abbreviation "TYPE_SRV \<equiv> (33 :: u16)"
abbreviation "TYPE_NAPTR \<equiv> (35 :: u16)"
abbreviation "TYPE_OPT \<equiv> (41 :: u16)"
abbreviation "TYPE_DS \<equiv> (43 :: u16)"
abbreviation "TYPE_SSHFP \<equiv> (44 :: u16)"
abbreviation "TYPE_RRSIG \<equiv> (46 :: u16)"
abbreviation "TYPE_NSEC \<equiv> (47 :: u16)"
abbreviation "TYPE_DNSKEY \<equiv> (48 :: u16)"
abbreviation "TYPE_NSEC3 \<equiv> (50 :: u16)"
abbreviation "TYPE_NSEC3PARAM \<equiv> (51 :: u16)"
abbreviation "TYPE_TLSA \<equiv> (52 :: u16)"
abbreviation "TYPE_CDS \<equiv> (59 :: u16)"
abbreviation "TYPE_CDNSKEY \<equiv> (60 :: u16)"
abbreviation "TYPE_SVCB \<equiv> (64 :: u16)"
abbreviation "TYPE_HTTPS \<equiv> (65 :: u16)"
abbreviation "TYPE_TKEY \<equiv> (249 :: u16)"
abbreviation "TYPE_TSIG \<equiv> (250 :: u16)"
abbreviation "TYPE_IXFR \<equiv> (251 :: u16)"
abbreviation "TYPE_AXFR \<equiv> (252 :: u16)"
abbreviation "TYPE_ANY \<equiv> (255 :: u16)"
abbreviation "TYPE_URI \<equiv> (256 :: u16)"
abbreviation "TYPE_CAA \<equiv> (257 :: u16)"

abbreviation "CLASS_IN \<equiv> (1 :: u16)"

abbreviation "FLAG_TC \<equiv> (0x0200 :: u16)"
abbreviation "FLAG_RD \<equiv> (0x0100 :: u16)"
abbreviation "FLAG_RA \<equiv> (0x0080 :: u16)"
abbreviation "FLAG_OPCODE_MASK \<equiv> (0x7800 :: u16)"
abbreviation "FLAG_RCODE_MASK \<equiv> (0x000F :: u16)"
abbreviation "FLAG_KEEP_MASK \<equiv> (0x7910 :: u16)"
abbreviation "FLAG_QR_RA \<equiv> (0x8080 :: u16)"

abbreviation "OPTION_ECS \<equiv> (8 :: u16)"
abbreviation "OPTION_PADDING \<equiv> (12 :: u16)"

abbreviation "MAX_ANSWERS \<equiv> (8 :: nat)"
abbreviation "MAX_NAME_WIRE_LEN \<equiv> (255 :: nat)"
abbreviation "MAX_LABEL_LEN \<equiv> (63 :: nat)"
abbreviation "MAX_PTR_JUMPS \<equiv> (32 :: nat)"
abbreviation "TTL_MAX \<equiv> (2147483647 :: nat)"
abbreviation "TTL_DEFAULT \<equiv> (300 :: u32)"
abbreviation "DEFAULT_EDNS_UDP_SIZE \<equiv> (1232 :: u16)"
abbreviation "MIN_EDNS_UDP_SIZE \<equiv> (512 :: u16)"
abbreviation "MAX_EDNS_UDP_SIZE \<equiv> (9000 :: u16)"
abbreviation "DEFAULT_BUF_SIZE \<equiv> (512 :: u16)"
abbreviation "PADDING_BLOCK \<equiv> (128 :: nat)"
abbreviation "PADDING_MAX \<equiv> (512 :: nat)"

subsection \<open>Clamps\<close>

definition clamp_edns_udp_size :: "u32 option \<Rightarrow> u16" where
  "clamp_edns_udp_size sz =
     (case sz of
        None \<Rightarrow> DEFAULT_EDNS_UDP_SIZE
      | Some raw \<Rightarrow>
          if raw = 0 then DEFAULT_EDNS_UDP_SIZE
          else let v = (ucast (min raw 9000) :: u16) in
            if v < MIN_EDNS_UDP_SIZE then MIN_EDNS_UDP_SIZE else v)"

definition clamp_bufsize_received :: "u16 \<Rightarrow> u16" where
  "clamp_bufsize_received raw =
     (let v = (if raw = 0 then DEFAULT_BUF_SIZE else raw) in
      if v < DEFAULT_BUF_SIZE then DEFAULT_BUF_SIZE else if v > 65535 then 65535 else v)"

definition clamp_ttl :: "u64 \<Rightarrow> u32" where
  "clamp_ttl ttl = (if ttl \<le> 2147483647 then ucast ttl else 2147483647)"

lemma clamp_edns_udp_size_bounds:
  "512 \<le> clamp_edns_udp_size s \<and> clamp_edns_udp_size s \<le> 9000"
proof (cases s)
  case (Some raw)
  have "unat (ucast (min raw 9000) :: u16) \<le> 9000"
  proof -
    have "unat (min raw 9000) \<le> 9000" by (simp add: min_def word_le_nat_alt)
    then show ?thesis by (simp add: unat_ucast_u16)
  qed
  then have "(ucast (min raw 9000) :: u16) \<le> 9000"
    by (simp add: word_le_nat_alt)
  with Some show ?thesis by (simp add: clamp_edns_udp_size_def Let_def not_less)
qed (simp add: clamp_edns_udp_size_def)

lemma clamp_bufsize_received_ge: "512 \<le> clamp_bufsize_received raw"
  by (simp add: clamp_bufsize_received_def Let_def not_less)

subsection \<open>Query types\<close>

definition supported_qtypes :: "(u16 \<times> str) list" where
  "supported_qtypes =
     [(TYPE_A, lit ''A''), (TYPE_NS, lit ''NS''), (TYPE_CNAME, lit ''CNAME''),
      (TYPE_SOA, lit ''SOA''), (TYPE_PTR, lit ''PTR''), (TYPE_MX, lit ''MX''),
      (TYPE_TXT, lit ''TXT''), (TYPE_AAAA, lit ''AAAA''), (TYPE_SRV, lit ''SRV''),
      (TYPE_NAPTR, lit ''NAPTR''), (TYPE_DS, lit ''DS''), (TYPE_SSHFP, lit ''SSHFP''),
      (TYPE_DNSKEY, lit ''DNSKEY''), (TYPE_TLSA, lit ''TLSA''), (TYPE_CDS, lit ''CDS''),
      (TYPE_CDNSKEY, lit ''CDNSKEY''), (TYPE_SVCB, lit ''SVCB''), (TYPE_HTTPS, lit ''HTTPS''),
      (TYPE_URI, lit ''URI''), (TYPE_CAA, lit ''CAA'')]"

definition qtype_must_reject :: "u16 \<Rightarrow> bool" where
  "qtype_must_reject t \<longleftrightarrow>
     t = 0 \<or> t \<in> {TYPE_NULL, TYPE_OPT, TYPE_RRSIG, TYPE_NSEC, TYPE_NSEC3, TYPE_NSEC3PARAM,
                 TYPE_TKEY, TYPE_TSIG, TYPE_IXFR, TYPE_AXFR, TYPE_ANY}"

definition qtype_name :: "u16 \<Rightarrow> str option" where
  "qtype_name t = map_option snd (find (\<lambda>(code, _). code = t) supported_qtypes)"

definition qtype_code :: "str \<Rightarrow> u16 option" where
  "qtype_code name =
     (let up = ascii_upper (trim name) in
      map_option fst (find (\<lambda>(_, n). n = up) supported_qtypes))"

definition qtype_supported :: "u16 \<Rightarrow> bool" where
  "qtype_supported t \<longleftrightarrow> qtype_name t \<noteq> None"

definition qtype_passthrough :: "u16 \<Rightarrow> bool" where
  "qtype_passthrough t \<longleftrightarrow> qtype_name t = None \<and> \<not> qtype_must_reject t"

lemma qtype_reject_not_supported: "qtype_must_reject t \<Longrightarrow> \<not> qtype_supported t"
  by (auto simp: qtype_must_reject_def qtype_supported_def qtype_name_def supported_qtypes_def)

lemma qtype_name_SomeD:
  "qtype_name t = Some n \<Longrightarrow> (t, n) \<in> set supported_qtypes"
  by (auto simp: qtype_name_def find_Some_iff in_set_conv_nth)

text \<open>Every row of the table is found again by its name, in either case.\<close>

lemma qtype_code_table:
  "list_all (\<lambda>(t, n). qtype_code n = Some t \<and> qtype_code (ascii_lower n) = Some t) supported_qtypes"
  by (simp add: supported_qtypes_def qtype_code_def trim_def char_whitespace_def ascii_upper_def
      ascii_lower_def upper_byte_def lower_byte_def)

subsection \<open>Properties\<close>

text \<open>Every query type is exactly one of answered, refused and passed through.\<close>

theorem qtype_partition:
  "of_bool (qtype_supported t) + of_bool (qtype_must_reject t) + of_bool (qtype_passthrough t) = (1 :: nat)"
  using qtype_reject_not_supported [of t]
  by (auto simp: qtype_passthrough_def qtype_supported_def)

text \<open>
  The name of a supported type is found again by \<open>qtype_code\<close>, written in upper or lower
  case.
\<close>

theorem qtype_name_code:
  assumes "qtype_name t = Some n"
  shows "qtype_code n = Some t \<and> qtype_code (ascii_lower n) = Some t"
  using qtype_name_SomeD [OF assms] qtype_code_table by (auto simp: list_all_iff)

theorem qtype_name_code_witness:
  "qtype_code (lit ''AAAA'') = Some 28 \<and> qtype_code (ascii_lower (lit ''AAAA'')) = Some 28"
  using qtype_name_code [of 28 "lit ''AAAA''"] by (simp add: qtype_name_def supported_qtypes_def)

end
