(* ===== verification/Names.thy ===== *)
theory Names
  imports Constants
begin

text \<open>
  \<open>ebpdns-proto/src/name.rs\<close>: the wire form of domain names.  \<open>encode_name\<close> writes labels,
  \<open>decode_name\<close> follows compression pointers with its three guards (backward pointers only, at
  most 32 jumps, at most 254 bytes of labels), \<open>name_normalize\<close> is the cache-key form.

  The two functions a name needs that are not code of the repository are the fields of
  \<open>unicode_lib\<close>: \<open>str::to_lowercase\<close> over the Unicode tables and \<open>idna::domain_to_ascii\<close>.
  Nothing is assumed of them; the theorems about names state what holds for ASCII names, which
  use neither, or for any such functions.
\<close>

record unicode_lib =
  uc_lower :: "str \<Rightarrow> str"
  idna_ascii :: "str \<Rightarrow> str option"

text \<open>An instance for concrete examples: ASCII lower-casing, and no IDNA.\<close>

definition ascii_unicode :: unicode_lib where
  "ascii_unicode = \<lparr>uc_lower = ascii_lower, idna_ascii = (\<lambda>_. None)\<rparr>"

subsection \<open>Encoding\<close>

definition name_normalize :: "unicode_lib \<Rightarrow> str \<Rightarrow> str" where
  "name_normalize U s = uc_lower U (trim_end_dots (trim s))"

definition text_of :: "str \<Rightarrow> string" where
  "text_of s = map (\<lambda>b. char_of (unat b)) s"

definition normalize_idna_label :: "unicode_lib \<Rightarrow> str \<Rightarrow> proto_error + str" where
  "normalize_idna_label U label =
     (let lower = uc_lower U label in
      if is_ascii lower then Inr lower
      else ok_or (idna_ascii U lower) (InvalidName (''invalid IDNA label: '' @ text_of label)))"

definition append_label :: "bytes \<Rightarrow> bytes \<Rightarrow> str \<Rightarrow> proto_error + bytes" where
  "append_label out lb orig =
     (if length lb > MAX_LABEL_LEN then Inl (InvalidName (''label too long: '' @ text_of orig))
      else Inr (out @ [word_of_nat (length lb)] @ lb))"

text \<open>The label loop; \<open>f\<close> is the identity on the ASCII path and the IDNA step otherwise.\<close>

fun enc_labels :: "(str \<Rightarrow> proto_error + str) \<Rightarrow> str list \<Rightarrow> bytes \<Rightarrow> proto_error + bytes" where
  "enc_labels f [] out = Inr out"
| "enc_labels f (label # ls) out =
     (if label = [] then enc_labels f ls out
      else bindE (f label) (\<lambda>lb. bindE (append_label out lb label) (\<lambda>out'. enc_labels f ls out')))"

definition encode_name :: "unicode_lib \<Rightarrow> str \<Rightarrow> proto_error + bytes" where
  "encode_name U s =
     (let name = trim_end_dots s in
      if name = [] then Inr [0]
      else if is_ascii name then
        bindE (enc_labels Inr (split_byte 46 name) [])
          (\<lambda>out. let out' = out @ [0] in
             if length out' > MAX_NAME_WIRE_LEN then Inl (InvalidName ''name too long'') else Inr out')
      else
        bindE (enc_labels (normalize_idna_label U) (split_byte 46 name) [])
          (\<lambda>out. let out' = out @ [0] in
             if length out' > MAX_NAME_WIRE_LEN then Inl (InvalidName ''name too long'') else Inr out'))"

subsection \<open>Decoding\<close>

text \<open>
  The loop of \<open>decode_name\<close>, one argument per local variable.  A jump lowers the number of
  jumps left; a label moves \<open>pos\<close> forward in the packet.
\<close>

function decode_loop ::
  "bytes \<Rightarrow> str \<Rightarrow> bool \<Rightarrow> bool \<Rightarrow> nat \<Rightarrow> nat \<Rightarrow> nat \<Rightarrow> nat \<Rightarrow> proto_error + (str \<times> nat)" where
  "decode_loop data name first jump_done end pos jumps name_len =
     (if pos \<ge> length data then Inl (Truncated ''truncated name'')
      else let len = data ! pos in
        if len = 0 then Inr (name, if jump_done then end else pos + 1)
        else if len AND 0xC0 \<noteq> 0 \<and> len AND 0xC0 \<noteq> 0xC0 then Inl (InvalidName ''invalid label length'')
        else if len AND 0xC0 = 0xC0 then
          (if pos + 1 \<ge> length data then Inl (Truncated ''truncated pointer'')
           else if jumps + 1 > MAX_PTR_JUMPS then Inl (InvalidName ''too many compression jumps'')
           else let ptr = unat (len AND 0x3F) * 256 + unat (data ! (pos + 1)) in
             if ptr \<ge> pos then Inl (InvalidName ''forward compression pointer'')
             else decode_loop data name first True (if jump_done then end else pos + 2) ptr
                    (jumps + 1) name_len)
        else if pos + 1 + unat len > length data then Inl (Truncated ''truncated label'')
        else let raw = slice data (pos + 1) (unat len);
                 name' = name @ (if first then [] else [46])
                         @ (if valid_utf8 raw then raw else from_utf8_lossy raw);
                 name_len' = name_len + 1 + unat len in
          if name_len' \<ge> MAX_NAME_WIRE_LEN then Inl (InvalidName ''name too long'')
          else decode_loop data name' False jump_done end (pos + 1 + unat len) jumps name_len')"
  by pat_completeness auto
termination
  by (relation "measures [\<lambda>(data, name, first, jd, e, pos, jumps, nl). 33 - jumps,
                          \<lambda>(data, name, first, jd, e, pos, jumps, nl). length data - pos]") auto

declare decode_loop.simps [simp del]

definition decode_name :: "bytes \<Rightarrow> nat \<Rightarrow> proto_error + (str \<times> nat)" where
  "decode_name data offset = decode_loop data [] True False offset offset 0 0"

subsection \<open>What a successful decode returns\<close>

text \<open>
  The next offset lies behind the start and inside the packet, and the text is bounded: a
  label byte gives at most three bytes of text (U+FFFD for an ill-formed one).
\<close>

lemma from_utf8_lossy_length: "length (from_utf8_lossy s) \<le> 3 * length s"
proof (induction s rule: from_utf8_lossy.induct)
  case (1 s)
  show ?case
  proof (cases "s = []")
    case True
    then show ?thesis by (simp add: from_utf8_lossy.simps)
  next
    case False
    obtain n ok where st: "utf8_step s = (n, ok)" by (cases "utf8_step s")
    have n: "0 < n" using utf8_step_pos_pair st by metis
    have ih: "length (from_utf8_lossy (drop n s)) \<le> 3 * length (drop n s)"
      using 1 [OF False st [symmetric] refl] .
    have "0 < length s" using False by simp
    then have d: "3 + 3 * length (drop n s) \<le> 3 * length s" using n \<open>0 < length s\<close> by (cases s) auto
    have e: "from_utf8_lossy s = (if ok then take n s else [239, 191, 189]) @ from_utf8_lossy (drop n s)"
      using False st by (simp add: from_utf8_lossy.simps [of s])
    have "length (take n s) + length (drop n s) = length s"
      using length_append [of "take n s" "drop n s"] by simp
    then show ?thesis
      unfolding e using ih d by (cases ok) (auto simp del: length_drop length_take)
  qed
qed

lemma decode_loop_bounds:
  assumes "decode_loop data name first jd end pos jumps nl = Inr (n, e)"
    and "jd \<Longrightarrow> off < end \<and> end \<le> length data" and "\<not> jd \<Longrightarrow> off \<le> pos"
  shows "off < e \<and> e \<le> length data"
  using assms
proof (induction data name first jd "end" pos jumps nl rule: decode_loop.induct)
  case (1 data name first jd en pos jumps nl)
  note r = decode_loop.simps [of data name first jd en pos jumps nl]
  let ?l = "data ! pos"
  have inb: "pos < length data" using 1(3) r by (auto split: if_splits)
  consider (root) "?l = 0" | (ptr) "?l \<noteq> 0" "?l AND 0xC0 = 0xC0"
    | (lab) "?l \<noteq> 0" "?l AND 0xC0 = 0"
    using 1(3) inb by (auto simp: r Let_def split: if_splits)
  then show ?case
  proof cases
    case root
    with 1(3,4,5) inb show ?thesis by (auto simp: r split: if_splits)
  next
    case ptr
    let ?ptr = "unat (?l AND 0x3F) * 256 + unat (data ! (pos + 1))"
    let ?en = "if jd then en else pos + 2"
    have p: "\<not> pos + 1 \<ge> length data" "\<not> jumps + 1 > MAX_PTR_JUMPS" "\<not> ?ptr \<ge> pos"
      and c: "decode_loop data name first True ?en ?ptr (jumps + 1) nl = Inr (n, e)"
      using 1(3) inb ptr by (auto simp: r Let_def split: if_splits)
    show ?thesis
    proof (rule 1(1) [OF _ refl _ _ _ _ _ refl _ c])
      show "True \<Longrightarrow> off < ?en \<and> ?en \<le> length data"
        using 1(4,5) p inb by auto
    qed (use inb ptr p in auto)
  next
    case lab
    let ?raw = "slice data (pos + 1) (unat ?l)"
    let ?nm = "name @ (if first then [] else [46]) @ (if valid_utf8 ?raw then ?raw else from_utf8_lossy ?raw)"
    have p: "\<not> pos + 1 + unat ?l > length data" "\<not> nl + 1 + unat ?l \<ge> MAX_NAME_WIRE_LEN"
      using 1(3) inb lab by (auto simp: r Let_def split: if_split_asm)
    then have c: "decode_loop data ?nm False jd en (pos + 1 + unat ?l) jumps (nl + 1 + unat ?l) = Inr (n, e)"
      using 1(3) [unfolded r] inb lab by (simp add: Let_def split del: if_split cong: if_cong)
    show ?thesis
    proof (rule 1(2) [OF _ refl _ _ _ _ refl refl refl _ c])
      show "\<not> jd \<Longrightarrow> off \<le> pos + 1 + unat ?l" using 1(5) by simp
    qed (use inb lab p 1(4) in auto)
  qed
qed

lemma decode_name_bounds:
  "decode_name data off = Inr (n, e) \<Longrightarrow> off < e \<and> e \<le> length data"
  unfolding decode_name_def by (erule decode_loop_bounds) simp_all

subsection \<open>Labels on the wire\<close>

definition wire_labels :: "str list \<Rightarrow> bytes" where
  "wire_labels ls = concat (map (\<lambda>l. word_of_nat (length l) # l) ls)"

text \<open>The non-empty labels of a dotted name, and the name they spell.\<close>

definition labels_of :: "str \<Rightarrow> str list" where
  "labels_of s = filter (\<lambda>l. l \<noteq> []) (split_byte 46 (trim_end_dots s))"

definition join_from :: "bool \<Rightarrow> str list \<Rightarrow> str" where
  "join_from first ls = (if first then intercalate [46] ls else concat (map (\<lambda>l. 46 # l) ls))"

lemma intercalate_concat: "intercalate [c] (l # ls) = l @ concat (map (\<lambda>l. c # l) ls)"
  by (induction ls arbitrary: l) simp_all

lemma join_from_simps [simp]:
  "join_from first [] = []"
  "join_from first (l # ls) = (if first then [] else [46]) @ l @ join_from False ls"
  by (simp_all add: join_from_def intercalate_concat del: intercalate.simps(3))

lemma wire_labels_simps [simp]:
  "wire_labels [] = []" "wire_labels (l # ls) = word_of_nat (length l) # l @ wire_labels ls"
  by (simp_all add: wire_labels_def)

lemma enc_labels_ascii:
  "enc_labels Inr ps out =
     (case find (\<lambda>l. length l > MAX_LABEL_LEN) ps of
        Some l \<Rightarrow> Inl (InvalidName (''label too long: '' @ text_of l))
      | None \<Rightarrow> Inr (out @ wire_labels (filter (\<lambda>l. l \<noteq> []) ps)))"
  by (induction "Inr :: str \<Rightarrow> proto_error + str" ps out rule: enc_labels.induct)
    (auto simp: append_label_def split: option.splits)

lemma trim_end_dots_ascii: "is_ascii s \<Longrightarrow> is_ascii (trim_end_dots s)"
  using set_dropWhileD by (fastforce simp: is_ascii_def trim_end_dots_def)

text \<open>What \<open>encode_name\<close> writes for an ASCII name, on every branch.\<close>

lemma encode_name_ascii:
  assumes "is_ascii s"
  shows "encode_name U s =
     (case find (\<lambda>l. length l > MAX_LABEL_LEN) (split_byte 46 (trim_end_dots s)) of
        Some l \<Rightarrow> Inl (InvalidName (''label too long: '' @ text_of l))
      | None \<Rightarrow> if length (wire_labels (labels_of s)) + 1 > MAX_NAME_WIRE_LEN
          then Inl (InvalidName ''name too long'')
          else Inr (wire_labels (labels_of s) @ [0]))"
  using trim_end_dots_ascii [OF assms]
  by (auto simp: encode_name_def labels_of_def enc_labels_ascii Let_def split: option.splits)

lemma encode_name_Inr:
  assumes "is_ascii s" and "encode_name U s = Inr w"
  shows "w = wire_labels (labels_of s) @ [0]" "length w \<le> 255"
    "\<forall>l \<in> set (labels_of s). l \<noteq> [] \<and> length l \<le> 63"
proof -
  have n: "find (\<lambda>l. length l > MAX_LABEL_LEN) (split_byte 46 (trim_end_dots s)) = None"
    using assms(2) unfolding encode_name_ascii [OF assms(1)] by (auto split: option.splits)
  show "w = wire_labels (labels_of s) @ [0]" "length w \<le> 255"
    using assms(2) unfolding encode_name_ascii [OF assms(1)] n by (auto split: if_splits)
  show "\<forall>l \<in> set (labels_of s). l \<noteq> [] \<and> length l \<le> 63"
    using n by (auto simp: labels_of_def find_None_iff)
qed

lemma split_byte_set: "p \<in> set (split_byte c s) \<Longrightarrow> set p \<subseteq> set s"
  by (induction s arbitrary: p) (fastforce split: list.splits if_splits)+

lemma labels_of_ascii: "is_ascii s \<Longrightarrow> l \<in> set (labels_of s) \<Longrightarrow> is_ascii l"
  using trim_end_dots_ascii [of s] split_byte_set [of l 46 "trim_end_dots s"]
  by (auto simp: labels_of_def is_ascii_def)

text \<open>Reading labels back, from any position and any state of the pointer variables.\<close>

lemma decode_loop_label:
  assumes "0 < length l" "length l \<le> 63" "valid_utf8 l" "nl + 1 + length l < 255" "length pre = pos"
  shows "decode_loop (pre @ word_of_nat (length l) # l @ post) name first jd en pos jumps nl =
     decode_loop (pre @ word_of_nat (length l) # l @ post) (name @ (if first then [] else [46]) @ l)
       False jd en (pos + 1 + length l) jumps (nl + 1 + length l)"
proof -
  let ?w = "word_of_nat (length l) :: u8"
  let ?d = "pre @ ?w # l @ post"
  have u: "unat ?w = length l" using assms(2) by (simp add: unat_of_nat_u8)
  have nz: "?w \<noteq> 0" using assms(1) u by (metis unat_0 less_irrefl)
  have lb: "?w AND 0xC0 = 0"
    unfolding label_byte_iff using assms(2) by (simp add: word_less_nat_alt u)
  have nth: "?d ! pos = ?w" using assms(5) by (rule nth_append_at)
  have sl: "slice ?d (pos + 1) (length l) = l"
    using slice_append_at [of "pre @ [?w]" "pos + 1" l "length l" post] assms(5) by simp
  show ?thesis
    using assms nz by (subst decode_loop.simps) (simp add: nth lb u sl [simplified])
qed

lemma decode_loop_root:
  "length pre = pos \<Longrightarrow>
   decode_loop (pre @ 0 # post) name first jd en pos jumps nl = Inr (name, if jd then en else pos + 1)"
  by (subst decode_loop.simps) (simp add: nth_append_at)

lemma decode_loop_labels:
  assumes "\<forall>l \<in> set ls. l \<noteq> [] \<and> length l \<le> 63 \<and> valid_utf8 l"
    and "nl + length (wire_labels ls) < 255" and "length pre = pos"
  shows "decode_loop (pre @ wire_labels ls @ 0 # post) name first jd en pos jumps nl =
     Inr (name @ join_from first ls, if jd then en else pos + length (wire_labels ls) + 1)"
  using assms
proof (induction ls arbitrary: pre pos name first nl)
  case Nil
  then show ?case by (simp add: decode_loop_root)
next
  case (Cons l ls)
  let ?w = "word_of_nat (length l) :: u8"
  have "decode_loop (pre @ wire_labels (l # ls) @ 0 # post) name first jd en pos jumps nl =
    decode_loop (pre @ wire_labels (l # ls) @ 0 # post) (name @ (if first then [] else [46]) @ l)
      False jd en (pos + 1 + length l) jumps (nl + 1 + length l)"
    using Cons.prems decode_loop_label [of l nl pre pos "wire_labels ls @ 0 # post"] by simp
  also have "\<dots> = decode_loop ((pre @ ?w # l) @ wire_labels ls @ 0 # post)
      (name @ (if first then [] else [46]) @ l) False jd en (pos + 1 + length l) jumps (nl + 1 + length l)"
    by simp
  also have "\<dots> = Inr ((name @ (if first then [] else [46]) @ l) @ join_from False ls,
      if jd then en else pos + 1 + length l + length (wire_labels ls) + 1)"
    by (rule Cons.IH) (use Cons.prems in auto)
  finally show ?case by simp
qed

text \<open>The text a decoder returns for an encoded ASCII name: its labels, empty ones dropped.\<close>

definition canonical_name :: "str \<Rightarrow> str" where
  "canonical_name s = intercalate [46] (labels_of s)"

lemma decode_name_encoded:
  assumes "is_ascii s" and "encode_name U s = Inr w"
  shows "decode_name (pre @ w @ post) (length pre) = Inr (canonical_name s, length pre + length w)"
proof -
  note e = encode_name_Inr [OF assms]
  have v: "\<forall>l \<in> set (labels_of s). l \<noteq> [] \<and> length l \<le> 63 \<and> valid_utf8 l"
    using e(3) labels_of_ascii [OF assms(1)] valid_utf8_ascii by blast
  have "decode_loop (pre @ wire_labels (labels_of s) @ 0 # post) [] True False (length pre) (length pre) 0 0 =
     Inr ([] @ join_from True (labels_of s), length pre + length (wire_labels (labels_of s)) + 1)"
    using e(1,2) by (subst decode_loop_labels [OF v]) simp_all
  then show ?thesis by (simp add: decode_name_def e(1) join_from_def canonical_name_def)
qed

text \<open>A compression pointer to an encoded name decodes to it, and ends behind the pointer.\<close>

lemma pointer_byte:
  assumes "n < 64"
  shows "(0xC0 OR word_of_nat n :: u8) AND 0xC0 = 0xC0" "unat ((0xC0 OR word_of_nat n :: u8) AND 0x3F) = n"
proof -
  let ?w = "word_of_nat n :: u8"
  have u: "unat ?w = n" using assms by (simp add: unat_of_nat_u8)
  have l: "?w < 64" using assms by (simp add: word_less_nat_alt u)
  then have z: "?w AND 0xC0 = 0" by (simp add: label_byte_iff)
  show "(0xC0 OR ?w) AND 0xC0 = 0xC0" by (simp add: bit.conj_disj_distrib2 z)
  have "?w AND 0x3F = ?w"
    using l unfolding u8_low6 by (simp add: take_bit_eq_mask mask_eq_exp_minus_1)
  then have "(0xC0 OR ?w) AND 0x3F = ?w" by (simp add: bit.conj_disj_distrib2)
  then show "unat ((0xC0 OR ?w) AND 0x3F) = n" by (simp add: u)
qed

lemma decode_name_pointer:
  assumes "is_ascii s" and "encode_name U s = Inr w" and "length pre < 16384"
  shows "decode_name (pre @ w @ mid @
           [0xC0 OR word_of_nat (length pre div 256), word_of_nat (length pre mod 256)] @ post)
           (length pre + length w + length mid)
         = Inr (canonical_name s, length pre + length w + length mid + 2)"
    (is "decode_name ?d ?p = _")
proof -
  note e = encode_name_Inr [OF assms(1,2)]
  let ?q = "length pre"
  let ?b = "0xC0 OR word_of_nat (?q div 256) :: u8"
  have h: "?q div 256 < 64" using assms(3) by simp
  have nth: "?d ! ?p = ?b" "?d ! (?p + 1) = word_of_nat (?q mod 256)"
    by (simp_all add: nth_append)
  have nz: "?b \<noteq> 0" 
  proof
    assume "?b = 0"
    with pointer_byte(1) [OF h] show False by simp
  qed
  have ptr: "unat (?b AND 0x3F) * 256 + unat (?d ! (?p + 1)) = ?q"
    unfolding pointer_byte(2) [OF h] nth by (simp add: unat_of_nat_u8)
  have w: "0 < length w" by (simp add: e(1))
  have step: "decode_name ?d ?p = decode_loop ?d [] True True (?p + 2) ?q 1 0"
    unfolding decode_name_def
    by (subst decode_loop.simps)
      (use nz w in \<open>simp add: nth [simplified] pointer_byte(1) [OF h, simplified] ptr [simplified nth, simplified] Let_def\<close>)
  have v: "\<forall>l \<in> set (labels_of s). l \<noteq> [] \<and> length l \<le> 63 \<and> valid_utf8 l"
    using e(3) labels_of_ascii [OF assms(1)] valid_utf8_ascii by blast
  have "decode_loop (pre @ wire_labels (labels_of s) @ 0 # (mid @ [?b, word_of_nat (?q mod 256)] @ post))
      [] True True (?p + 2) ?q 1 0 = Inr ([] @ join_from True (labels_of s), ?p + 2)"
    using e(1,2) by (subst decode_loop_labels [OF v]) simp_all
  then show ?thesis
    unfolding step by (simp add: e(1) join_from_def canonical_name_def)
qed

subsection \<open>Properties\<close>

text \<open>
  An ASCII name that encodes is decoded, wherever in a packet it stands, to its non-empty
  labels joined by dots, and the decoder ends right behind it.
\<close>

theorem name_roundtrip:
  assumes "is_ascii s" and "encode_name U s = Inr w"
  shows "decode_name (pre @ w @ post) (length pre) = Inr (canonical_name s, length pre + length w)
    \<and> length w \<le> MAX_NAME_WIRE_LEN"
  using decode_name_encoded [OF assms] encode_name_Inr(2) [OF assms] by simp

theorem name_roundtrip_witness:
  "decode_name ([7] @ [1, 97, 2, 98, 99, 0] @ [9]) 1 = Inr ([97, 46, 98, 99], 7)"
proof -
  have e: "encode_name ascii_unicode [97, 46, 98, 99] = Inr [1, 97, 2, 98, 99, 0]"
    by (simp add: encode_name_def trim_end_dots_def append_label_def)
  have c: "canonical_name [97, 46, 98, 99] = [97, 46, 98, 99]"
    by (simp add: canonical_name_def labels_of_def trim_end_dots_def)
  show ?thesis using name_roundtrip [OF _ e, of "[7]" "[9]"] by (simp add: c)
qed

text \<open>
  A compression pointer to an encoded name decodes to that name, and the decoder ends
  behind the two pointer bytes, not behind the name.
\<close>

theorem name_pointer:
  assumes "is_ascii s" and "encode_name U s = Inr w" and "length pre < 16384"
  shows "decode_name (pre @ w @ mid @
           [0xC0 OR word_of_nat (length pre div 256), word_of_nat (length pre mod 256)] @ post)
           (length pre + length w + length mid)
         = Inr (canonical_name s, length pre + length w + length mid + 2)"
  by (rule decode_name_pointer [OF assms])

theorem name_pointer_witness:
  "decode_name ([] @ [1, 97, 0] @ [5] @ [0xC0, 0] @ []) 4 = Inr ([97], 6)"
proof -
  have e: "encode_name ascii_unicode [97] = Inr [1, 97, 0]"
    by (simp add: encode_name_def trim_end_dots_def append_label_def)
  have c: "canonical_name [97] = [97]"
    by (simp add: canonical_name_def labels_of_def trim_end_dots_def)
  have p: "is_ascii [97]" "length ([] :: bytes) < 16384" by simp_all
  have l: "length ([] :: bytes) + length [1, 97, 0 :: u8] + length [5 :: u8] = 4" "4 + 2 = (6 :: nat)" by simp_all
  have b: "0xC0 OR word_of_nat (length ([] :: bytes) div 256) = (0xC0 :: u8)"
    "word_of_nat (length ([] :: bytes) mod 256) = (0 :: u8)" by simp_all
  show ?thesis using name_pointer [OF p(1) e p(2), of "[5]" "[]"] unfolding l b c .
qed

text \<open>
  What \<open>encode_name\<close> does with any ASCII name: the first label over 63 bytes is the error,
  then a wire form over 255 bytes, and otherwise the labels are written with their lengths.
\<close>

theorem encode_name_cases:
  assumes "is_ascii s"
  shows "encode_name U s =
     (case find (\<lambda>l. length l > MAX_LABEL_LEN) (split_byte 46 (trim_end_dots s)) of
        Some l \<Rightarrow> Inl (InvalidName (''label too long: '' @ text_of l))
      | None \<Rightarrow> if length (wire_labels (labels_of s)) + 1 > MAX_NAME_WIRE_LEN
          then Inl (InvalidName ''name too long'')
          else Inr (wire_labels (labels_of s) @ [0]))"
  by (rule encode_name_ascii [OF assms])

theorem encode_name_cases_witness:
  "encode_name ascii_unicode [46, 46] = Inr [0]"
  using encode_name_cases [of "[46, 46]" ascii_unicode]
  by (simp add: labels_of_def trim_end_dots_def)

text \<open>
  C4: a successful decode ends behind its start and inside the packet, so no pointer chain
  takes the caller's position backwards.
\<close>

theorem decode_progress:
  assumes "decode_name data off = Inr (n, e)"
  shows "off < e \<and> e \<le> length data"
  by (rule decode_name_bounds [OF assms])

theorem decode_progress_witness: "(0 :: nat) < 1 \<and> 1 \<le> length [0 :: u8]"
  using decode_progress [of "[0]" 0 "[]" 1] by (simp add: decode_name_def decode_loop.simps)

end
