(* ===== verification/Rdata_Text.thy ===== *)
theory Rdata_Text
  imports Names
begin

text \<open>
  The lexical layer of \<open>ebpdns-proto/src/rdata.rs\<close>: hexadecimal and base64 text, escaped and
  quoted character strings, and the tokenizer that reads them back.  The lemmas are the round
  trips on which the round trips of the record types rest: what \<open>quoted\<close>, \<open>token_display\<close>,
  \<open>hex_encode\<close> and \<open>base64_encode\<close> write is one token of \<open>split_tokens\<close>, and the decoder of
  that token gives the bytes back.
\<close>

subsection \<open>Hexadecimal\<close>

definition HEX_DIGITS :: bytes where
  "HEX_DIGITS = lit ''0123456789abcdef''"

definition get_or :: "bytes \<Rightarrow> nat \<Rightarrow> u8 \<Rightarrow> u8" where
  "get_or t i d = (if i < length t then t ! i else d)"

definition hex_encode :: "bytes \<Rightarrow> str" where
  "hex_encode bs = concat (map (\<lambda>byte.
     [get_or HEX_DIGITS (unat (drop_bit 4 byte)) 48, get_or HEX_DIGITS (unat (byte AND 0x0f)) 48]) bs)"

definition hex_nibble :: "u8 \<Rightarrow> u8 option" where
  "hex_nibble c =
     (if 48 \<le> c \<and> c \<le> 57 then Some (c - 48)
      else if 97 \<le> c \<and> c \<le> 102 then Some (c - 97 + 10)
      else if 65 \<le> c \<and> c \<le> 70 then Some (c - 65 + 10)
      else None)"

fun hex_pairs :: "str \<Rightarrow> bytes option" where
  "hex_pairs (h # l # s) = do {
     hi \<leftarrow> hex_nibble h; lo \<leftarrow> hex_nibble l; r \<leftarrow> hex_pairs s;
     Some ((push_bit 4 hi OR lo) # r) }"
| "hex_pairs _ = Some []"

definition hex_decode :: "str \<Rightarrow> bytes option" where
  "hex_decode s = (if even (length s) then hex_pairs s else None)"

subsection \<open>Escaped and quoted text\<close>

definition escape_byte :: "bool \<Rightarrow> u8 \<Rightarrow> str" where
  "escape_byte comma b =
     (if ascii_graphic b \<and> b \<noteq> 34 \<and> b \<noteq> 92 \<and> \<not> (comma \<and> b = 44) then [b]
      else if b = 32 \<and> \<not> comma then [32]
      else [92, 48 + b div 100, 48 + (b div 10) mod 10, 48 + b mod 10])"

definition push_escaped :: "str \<Rightarrow> bytes \<Rightarrow> bool \<Rightarrow> str" where
  "push_escaped out bs comma = out @ concat (map (escape_byte comma) bs)"

definition quoted :: "bytes \<Rightarrow> str" where
  "quoted bs = push_escaped [34] bs False @ [34]"

definition token_display :: "bytes \<Rightarrow> str" where
  "token_display bs =
     (if bs \<noteq> [] \<and> list_all (\<lambda>b. ascii_graphic b \<and> b \<noteq> 34 \<and> b \<noteq> 92) bs
      then from_utf8_lossy bs else quoted bs)"

definition name_display :: "str \<Rightarrow> str" where
  "name_display name = (if name = [] then [46] else name)"

subsection \<open>The tokenizer\<close>

text \<open>The inner loop: one token (escapes kept as written), and the input left.\<close>

function read_token :: "str \<Rightarrow> bool \<Rightarrow> str \<Rightarrow> (str \<times> str) option" where
  "read_token s in_quote tok =
     (case s of
        [] \<Rightarrow> if in_quote then None else Some (tok, [])
      | c # t \<Rightarrow>
          if c = 92 then
            (case t of
               [] \<Rightarrow> None
             | d # _ \<Rightarrow>
                 if ascii_digit d then
                   (if 3 \<le> length t \<and> list_all ascii_digit (take 3 t)
                    then read_token (drop 3 t) in_quote (tok @ 92 # take 3 t) else None)
                 else let n = fst (utf8_step t) in
                   read_token (drop n t) in_quote (tok @ 92 # take n t))
          else if c = 34 then read_token t (\<not> in_quote) tok
          else if \<not> in_quote \<and> ascii_whitespace c then Some (tok, s)
          else let n = fst (utf8_step s) in
            read_token (drop n s) in_quote (tok @ take n s))"
  by pat_completeness auto
termination
proof (relation "measure (\<lambda>(s, _, _). length s)", goal_cases)
  case (5 s q tok c t x)
  then show ?case using utf8_step_pos [of s] by auto
qed auto

declare read_token.simps [simp del]

lemma read_token_shorter:
  "read_token s b tok = Some (t, r) \<Longrightarrow> length r \<le> length s"
proof (induction s b tok rule: read_token.induct)
  case (1 s b tok)
  note r = 1(5) [unfolded read_token.simps [of s b tok]]
  show ?case
  proof (cases s)
    case Nil
    with r show ?thesis by (simp split: if_splits)
  next
    case c: (Cons c u)
    show ?thesis
    proof (cases "c = 92")
      case e: True
      show ?thesis
      proof (cases u)
        case Nil
        with r c e show ?thesis by simp
      next
        case d: (Cons d v)
        show ?thesis
          using r c e d 1(1) [OF c e d] 1(2) [OF c e d _ refl]
          by (fastforce simp: Let_def split: if_splits)
      qed
    next
      case e: False
      show ?thesis
        using r c e 1(3) [OF c e] 1(4) [OF c e _ _ refl]
        by (fastforce simp: Let_def split: if_splits)
    qed
  qed
qed

text \<open>The first token of an input that does not start with white space consumes something.\<close>

lemma read_token_progress:
  assumes "read_token (c # u) False tok = Some (t, r)" and "\<not> ascii_whitespace c"
  shows "length r < length (c # u)"
proof -
  note e = assms(1) [unfolded read_token.simps [of "c # u" False tok]]
  have n: "0 < fst (utf8_step s)" for s by (rule utf8_step_pos)
  show ?thesis
  proof (cases "c = 92")
    case True
    with e n [of u] show ?thesis
      by (cases u) (auto simp: Let_def dest!: read_token_shorter split: if_splits)
  next
    case False
    with e assms(2) n [of "c # u"] show ?thesis
      by (auto simp: Let_def dest!: read_token_shorter split: if_splits)
  qed
qed

function split_tokens :: "str \<Rightarrow> str list option" where
  "split_tokens s =
     (case dropWhile ascii_whitespace s of
        [] \<Rightarrow> Some []
      | c # u \<Rightarrow>
          (case read_token (c # u) False [] of
             None \<Rightarrow> None
           | Some (tok, r) \<Rightarrow> map_option (\<lambda>ts. tok # ts) (split_tokens r)))"
  by pat_completeness auto
termination
proof (relation "measure length", goal_cases)
  case (2 s c u x tok r)
  then have "\<not> ascii_whitespace c" by (metis dropWhile_eq_Cons_conv)
  with 2 have "length r < length (c # u)" by (intro read_token_progress) auto
  also have "\<dots> \<le> length s" using length_dropWhile_le [of ascii_whitespace s] 2(1) by simp
  finally show ?case by simp
qed simp

declare split_tokens.simps [simp del]

text \<open>\<open>unescape\<close>: \<open>\DDD\<close> is one byte, at most 255; any other escaped character is itself.\<close>

function unescape :: "str \<Rightarrow> bytes option" where
  "unescape s =
     (case s of
        [] \<Rightarrow> Some []
      | c # t \<Rightarrow>
          if c \<noteq> 92 then
            (let n = fst (utf8_step s) in map_option (\<lambda>r. take n s @ r) (unescape (drop n s)))
          else
            (case t of
               [] \<Rightarrow> None
             | d # _ \<Rightarrow>
                 if ascii_digit d then
                   (if 3 \<le> length t \<and> list_all ascii_digit (take 3 t) \<and> dec_val (take 3 t) \<le> 255
                    then map_option (\<lambda>r. word_of_nat (dec_val (take 3 t)) # r) (unescape (drop 3 t))
                    else None)
                 else let n = fst (utf8_step t) in
                   map_option (\<lambda>r. take n t @ r) (unescape (drop n t))))"
  by pat_completeness auto
termination
proof (relation "measure length", goal_cases)
  case (2 s c t x)
  then show ?case using utf8_step_pos [of s] by auto
qed auto

declare unescape.simps [simp del]

subsection \<open>Number tokens\<close>

definition digits_of :: "str \<Rightarrow> str option" where
  "digits_of tok = (if tok = [] \<or> \<not> list_all ascii_digit tok then None else Some tok)"

definition token_u8 :: "str \<Rightarrow> u8 option" where
  "token_u8 tok = do { d \<leftarrow> digits_of tok; n \<leftarrow> parse_uint 255 d; Some (word_of_nat n) }"

definition token_u16 :: "str \<Rightarrow> u16 option" where
  "token_u16 tok = do { d \<leftarrow> digits_of tok; n \<leftarrow> parse_uint 65535 d; Some (word_of_nat n) }"

lemma digits_of_dec [simp]: "digits_of (dec n) = Some (dec n)"
  by (simp add: digits_of_def dec_digits)

lemma token_u8_dec [simp]: "token_u8 (dec (unat (w :: u8))) = Some w"
  by (simp add: token_u8_def)

lemma token_u16_dec [simp]: "token_u16 (dec (unat (w :: u16))) = Some w"
  using unat_u16_lt [of w] by (simp add: token_u16_def del: unat_u16_lt)

subsection \<open>Base64\<close>

definition B64 :: bytes where
  "B64 = lit ''ABCDEFGHIJKLMNOPQRSTUVWXYZabcdefghijklmnopqrstuvwxyz0123456789+/''"

definition b64_char :: "u8 \<Rightarrow> u8" where
  "b64_char v = B64 ! unat v"

fun base64_encode :: "bytes \<Rightarrow> str" where
  "base64_encode [] = []"
| "base64_encode [b0] =
     [b64_char (drop_bit 2 b0), b64_char (push_bit 4 (b0 AND 0x03) OR drop_bit 4 0), 61, 61]"
| "base64_encode [b0, b1] =
     [b64_char (drop_bit 2 b0), b64_char (push_bit 4 (b0 AND 0x03) OR drop_bit 4 b1),
      b64_char (push_bit 2 (b1 AND 0x0f) OR drop_bit 6 0), 61]"
| "base64_encode (b0 # b1 # b2 # bs) =
     [b64_char (drop_bit 2 b0), b64_char (push_bit 4 (b0 AND 0x03) OR drop_bit 4 b1),
      b64_char (push_bit 2 (b1 AND 0x0f) OR drop_bit 6 b2), b64_char (b2 AND 0x3f)]
     @ base64_encode bs"

definition b64_value :: "u8 \<Rightarrow> u8 option" where
  "b64_value c =
     (if 65 \<le> c \<and> c \<le> 90 then Some (c - 65)
      else if 97 \<le> c \<and> c \<le> 122 then Some (c - 97 + 26)
      else if 48 \<le> c \<and> c \<le> 57 then Some (c - 48 + 52)
      else if c = 43 then Some 62
      else if c = 47 then Some 63
      else None)"

text \<open>The loop: \<open>acc\<close> is the \<open>u32\<close> accumulator, whose old high bits fall out on the left.\<close>

fun base64_loop :: "str \<Rightarrow> u32 \<Rightarrow> nat \<Rightarrow> bytes option" where
  "base64_loop [] acc bits = Some []"
| "base64_loop (c # cs) acc bits =
     (if c = 61 then Some []
      else if ascii_whitespace c then base64_loop cs acc bits
      else case b64_value c of
        None \<Rightarrow> None
      | Some v \<Rightarrow>
          (let acc' = push_bit 6 acc OR ucast v; bits' = bits + 6 in
           if bits' \<ge> 8 then
             map_option (\<lambda>r. ucast (drop_bit (bits' - 8) acc') # r) (base64_loop cs acc' (bits' - 8))
           else base64_loop cs acc' bits'))"

definition base64_decode :: "str \<Rightarrow> bytes option" where
  "base64_decode s = base64_loop s 0 0"

subsection \<open>Hexadecimal round trip\<close>


lemma less16_cases: "(n::nat) < 16 \<Longrightarrow> n \<in> {0,1,2,3,4,5,6,7,8,9,10,11,12,13,14,15}"
  by (simp only: insert_iff empty_iff, arith)

lemma hex_digit_back:
  "n < 16 \<Longrightarrow> hex_nibble (get_or HEX_DIGITS n 48) = Some (word_of_nat n)"
  by (drule less16_cases) (auto simp: HEX_DIGITS_def get_or_def hex_nibble_def)

lemma hex_digit_graphic:
  "n < 16 \<Longrightarrow> ascii_graphic (get_or HEX_DIGITS n 48) \<and> get_or HEX_DIGITS n 48 \<noteq> 34
     \<and> get_or HEX_DIGITS n 48 \<noteq> 92 "
  by (drule less16_cases) (auto simp: HEX_DIGITS_def get_or_def ascii_graphic_def)

lemma nibbles: 
  fixes b :: u8
  shows "unat (drop_bit 4 b) < 16" "unat (b AND 0x0f) < 16"
  "push_bit 4 (drop_bit 4 b) OR (b AND 0x0f) = b"
proof -
  show "unat (drop_bit 4 b) < 16"
    using unat_u8_lt [of b]
    by (simp add: unat_drop_bit_eq drop_bit_eq_div [of 4 "unat b"] del: unat_u8_lt drop_bit_eq_div)
  have m: "b AND 0x0f = take_bit 4 b" by (simp add: take_bit_eq_mask mask_eq_exp_minus_1)
  show "unat (b AND 0x0f) < 16"
    unfolding m by (simp add: unsigned_take_bit_eq take_bit_eq_mod [of 4 "unat b"] del: take_bit_eq_mod)
  show "push_bit 4 (drop_bit 4 b) OR (b AND 0x0f) = b"
    unfolding m by (rule bit_eqI) (auto simp: bit_simps)
qed
lemma hex_pairs_encode: "hex_pairs (hex_encode bs) = Some bs"
  by (induction bs) (simp_all add: hex_encode_def hex_digit_back nibbles)

lemma length_hex_encode [simp]: "length (hex_encode bs) = 2 * length bs"
  by (induction bs) (simp_all add: hex_encode_def)

lemma hex_decode_encode [simp]: "hex_decode (hex_encode bs) = Some bs"
  by (simp add: hex_decode_def hex_pairs_encode)

lemma less64: "(n::nat) < 64 \<Longrightarrow> n \<in> set [0..<64]"
  by auto
lemma b64_table: "list_all (\<lambda>n. b64_value (B64 ! n) = Some (word_of_nat n) \<and> ascii_graphic (B64 ! n)
   \<and> B64 ! n \<noteq> 61 \<and> \<not> ascii_whitespace (B64 ! n) \<and> B64 ! n \<noteq> 34 \<and> B64 ! n \<noteq> 92) [0..<64]"
  by (simp add: upt_rec B64_def b64_value_def ascii_graphic_def ascii_whitespace_def)
lemma b64_char:
  assumes "v < 64"
  shows "b64_value (b64_char v) = Some v" "ascii_graphic (b64_char v)"
    "b64_char v \<noteq> 61" "\<not> ascii_whitespace (b64_char v)" "b64_char v \<noteq> 34" "b64_char v \<noteq> 92"
proof -
  have "unat v \<in> set [0..<64]" using assms by (simp add: word_less_nat_alt)
  with b64_table have "b64_value (B64 ! unat v) = Some (word_of_nat (unat v)) \<and> ascii_graphic (B64 ! unat v)
   \<and> B64 ! unat v \<noteq> 61 \<and> \<not> ascii_whitespace (B64 ! unat v) \<and> B64 ! unat v \<noteq> 34 \<and> B64 ! unat v \<noteq> 92"
    unfolding list_all_iff by blast
  then show "b64_value (b64_char v) = Some v" "ascii_graphic (b64_char v)"
    "b64_char v \<noteq> 61" "\<not> ascii_whitespace (b64_char v)" "b64_char v \<noteq> 34" "b64_char v \<noteq> 92"
    by (simp_all add: b64_char_def)
qed

lemma nat_less8: "(n::nat) < 8 \<Longrightarrow> n = 0 \<or> n=1\<or>n=2\<or>n=3\<or>n=4\<or>n=5\<or>n=6\<or>n=7" by auto
lemma sextets:
  fixes a b c :: u8
  shows "drop_bit 2 a < 64" "push_bit 4 (a AND 0x03) OR drop_bit 4 b < 64"
    "push_bit 2 (b AND 0x0f) OR drop_bit 6 c < 64" "c AND 0x3f < 64"
proof -
  have m: "3 = (mask 2 :: u8)" "15 = (mask 4 :: u8)" "63 = (mask 6 :: u8)"
    by (simp_all add: mask_eq_exp_minus_1)
  show "drop_bit 2 a < 64"
    unfolding u8_low6 m
    by (rule bit_word_eqI) (auto simp: bit_simps dest!: nat_less8 dest: bit_imp_le_length)
  show "push_bit 4 (a AND 0x03) OR drop_bit 4 b < 64"
    unfolding u8_low6 m
    by (rule bit_word_eqI) (auto simp: bit_simps dest!: nat_less8 dest: bit_imp_le_length)
  show "push_bit 2 (b AND 0x0f) OR drop_bit 6 c < 64"
    unfolding u8_low6 m
    by (rule bit_word_eqI) (auto simp: bit_simps dest!: nat_less8 dest: bit_imp_le_length)
  show "c AND 0x3f < 64"
    unfolding u8_low6 m
    by (rule bit_word_eqI) (auto simp: bit_simps dest!: nat_less8 dest: bit_imp_le_length)
qed
lemma regroup:
  fixes a b c :: u8 and acc :: u32
  defines "v0 \<equiv> drop_bit 2 a" and "v1 \<equiv> push_bit 4 (a AND 0x03) OR drop_bit 4 b"
    and "v2 \<equiv> push_bit 2 (b AND 0x0f) OR drop_bit 6 c" and "v3 \<equiv> c AND 0x3f"
  defines "a1 \<equiv> push_bit 6 (push_bit 6 acc OR ucast v0) OR ucast v1"
  defines "a2 \<equiv> push_bit 6 a1 OR ucast v2"
  defines "a3 \<equiv> push_bit 6 a2 OR ucast v3"
  shows "ucast (drop_bit 4 a1) = a" "ucast (drop_bit 2 a2) = b" "ucast a3 = c"
proof -
  have m: "3 = (mask 2 :: u8)" "15 = (mask 4 :: u8)" "63 = (mask 6 :: u8)"
    by (simp_all add: mask_eq_exp_minus_1)
  show "ucast (drop_bit 4 a1) = a"
    unfolding a3_def a2_def a1_def v0_def v1_def v2_def v3_def m
    by (rule bit_word_eqI, (auto simp: bit_simps dest!: nat_less8)[1])
      (auto simp: eval_nat_numeral dest: bit_imp_le_length)
  show "ucast (drop_bit 2 a2) = b"
    unfolding a3_def a2_def a1_def v0_def v1_def v2_def v3_def m
    by (rule bit_word_eqI, (auto simp: bit_simps dest!: nat_less8)[1])
      (auto simp: eval_nat_numeral dest: bit_imp_le_length)
  show "ucast a3 = c"
    unfolding a3_def a2_def a1_def v0_def v1_def v2_def v3_def m
    by (rule bit_word_eqI) (auto simp: bit_simps dest!: nat_less8 dest: bit_imp_le_length)
qed

lemma base64_loop_char:
  "v < 64 \<Longrightarrow> base64_loop (b64_char v # cs) acc bits =
     (let acc' = push_bit 6 acc OR ucast v; bits' = bits + 6 in
      if bits' \<ge> 8 then
        map_option (\<lambda>r. ucast (drop_bit (bits' - 8) acc') # r) (base64_loop cs acc' (bits' - 8))
      else base64_loop cs acc' bits')"
  by (simp add: b64_char Let_def)

lemma base64_loop_encode: "base64_loop (base64_encode bs) acc 0 = Some bs"
proof (induction bs arbitrary: acc rule: base64_encode.induct)
  case (2 b0)
  show ?case
    using regroup(1) [of acc b0 0] sextets(1) [of b0] sextets(2) [of b0 0]
    by (simp add: base64_loop_char Let_def del: base64_loop.simps(2)) simp
next
  case (3 b0 b1)
  show ?case
    using regroup(1) [of acc b0 b1] regroup(2) [of acc b0 b1 0]
      sextets(1) [of b0] sextets(2) [of b0 b1] sextets(3) [of b1 0]
    by (simp add: base64_loop_char Let_def del: base64_loop.simps(2)) simp
next
  case (4 b0 b1 b2 bs)
  show ?case
    using regroup(1) [of acc b0 b1] regroup(2,3) [of acc b0 b1 b2] sextets(1) [of b0]
      sextets(2) [of b0 b1] sextets(3) [of b1 b2] sextets(4) [of b2] 4
    by (simp add: base64_loop_char Let_def del: base64_loop.simps(2))
qed simp

lemma base64_decode_encode [simp]: "base64_decode (base64_encode bs) = Some bs"
  by (simp add: base64_decode_def base64_loop_encode)

subsection \<open>Escapes read back\<close>

lemma escape_digits:
  fixes b :: u8
  shows "list_all ascii_digit [48 + b div 100, 48 + (b div 10) mod 10, 48 + b mod 10]"
    "dec_val [48 + b div 100, 48 + (b div 10) mod 10, 48 + b mod 10] = unat b"
proof -
  have u: "unat (48 + b div 100) = 48 + unat b div 100"
    "unat (48 + (b div 10) mod 10) = 48 + (unat b div 10) mod 10"
    "unat (48 + b mod 10) = 48 + unat b mod 10"
    using unat_u8_lt [of b] by (simp_all add: unat_word_ariths unat_div unat_mod del: unat_u8_lt)
  show "list_all ascii_digit [48 + b div 100, 48 + (b div 10) mod 10, 48 + b mod 10]"
    using unat_u8_lt [of b] by (simp add: ascii_digit_def word_le_nat_alt u del: unat_u8_lt) linarith
  have "unat b = unat b div 100 * 100 + (unat b div 10) mod 10 * 10 + unat b mod 10"
  proof -
    have "unat b div 100 = unat b div 10 div 10" by (simp flip: div_mult2_eq)
    then show ?thesis
      using div_mult_mod_eq [of "unat b" 10] div_mult_mod_eq [of "unat b div 10" 10] by linarith
  qed
  then show "dec_val [48 + b div 100, 48 + (b div 10) mod 10, 48 + b mod 10] = unat b"
    by (simp add: dec_val_def u)
qed

lemma read_token_byte:
  "c < 128 \<Longrightarrow> c \<noteq> 92 \<Longrightarrow> c \<noteq> 34 \<Longrightarrow> q \<or> \<not> ascii_whitespace c \<Longrightarrow>
   read_token (c # s) q tok = read_token s q (tok @ [c])"
  by (auto simp: read_token.simps [of "c # s"] utf8_step_ascii)

lemma read_token_quote: "read_token (34 # s) q tok = read_token s (\<not> q) tok"
  by (simp add: read_token.simps [of "34 # s"])

lemma read_token_ddd:
  "list_all ascii_digit [x, y, z] \<Longrightarrow>
   read_token (92 # x # y # z # s) q tok = read_token s q (tok @ [92, x, y, z])"
  by (simp add: read_token.simps [of "92 # x # y # z # s"])

lemma graphic_not_whitespace: "ascii_graphic c \<Longrightarrow> \<not> ascii_whitespace c"
  by (auto simp: ascii_graphic_def ascii_whitespace_def)

lemma read_token_escape:
  "q \<or> comma \<Longrightarrow>
   read_token (escape_byte comma b @ s) q tok = read_token s q (tok @ escape_byte comma b)"
  using read_token_ddd [OF escape_digits(1) [of b], of s q tok]
  by (auto simp: escape_byte_def read_token_byte graphic_not_whitespace ascii_graphic_ascii)

lemma read_token_escapes:
  "q \<or> comma \<Longrightarrow> read_token (concat (map (escape_byte comma) bs) @ s) q tok =
     read_token s q (tok @ concat (map (escape_byte comma) bs))"
  by (induction bs arbitrary: tok) (simp_all add: read_token_escape)

lemma unescape_byte:
  "c < 128 \<Longrightarrow> c \<noteq> 92 \<Longrightarrow> unescape (c # s) = map_option ((#) c) (unescape s)"
  by (simp add: unescape.simps [of "c # s"] utf8_step_ascii) (cases "unescape s"; simp)

lemma unescape_Nil [simp]: "unescape [] = Some []"
  by (simp add: unescape.simps)

lemma unescape_ddd:
  "list_all ascii_digit [x, y, z] \<Longrightarrow> dec_val [x, y, z] \<le> 255 \<Longrightarrow>
   unescape (92 # x # y # z # s) = map_option ((#) (word_of_nat (dec_val [x, y, z]))) (unescape s)"
  by (simp add: unescape.simps [of "92 # x # y # z # s"])

lemma unescape_escape:
  "unescape (escape_byte comma b @ s) = map_option ((#) b) (unescape s)"
  using unescape_ddd [OF escape_digits(1) [of b], of s]
  by (auto simp: escape_byte_def escape_digits(2) unescape_byte ascii_graphic_ascii)

lemma unescape_escapes: "unescape (concat (map (escape_byte comma) bs)) = Some bs"
  by (induction bs) (simp_all add: unescape_escape)

lemma unescape_push_escaped [simp]: "unescape (push_escaped [] bs comma) = Some bs"
  by (simp add: push_escaped_def unescape_escapes)

text \<open>Text without a backslash is read back as it stands.\<close>

lemma unescape_plain: "is_ascii s \<Longrightarrow> 92 \<notin> set s \<Longrightarrow> unescape s = Some s"
  by (induction s) (auto simp: unescape_byte)

subsection \<open>Tokens on a line\<close>

text \<open>\<open>p\<close> is written as one token, which \<open>split_tokens\<close> returns as \<open>t\<close>.\<close>

definition token_text :: "str \<Rightarrow> str \<Rightarrow> bool" where
  "token_text p t \<longleftrightarrow> p \<noteq> [] \<and> ascii_graphic (hd p)
     \<and> read_token p False [] = Some (t, [])
     \<and> (\<forall>s. read_token (p @ 32 # s) False [] = Some (t, 32 # s))"

lemma read_token_end: "read_token [] False tok = Some (tok, [])"
  by (simp add: read_token.simps)

lemma read_token_space: "read_token (32 # s) False tok = Some (tok, 32 # s)"
  by (simp add: read_token.simps [of "32 # s"] ascii_whitespace_def)

definition plain_text :: "str \<Rightarrow> bool" where
  "plain_text p \<longleftrightarrow> list_all (\<lambda>b. ascii_graphic b \<and> b \<noteq> 34 \<and> b \<noteq> 92) p"

lemma read_token_plain:
  "plain_text p \<Longrightarrow> read_token (p @ s) q tok = read_token s q (tok @ p)"
  by (induction p arbitrary: tok)
    (simp_all add: plain_text_def read_token_byte graphic_not_whitespace ascii_graphic_ascii)

lemma plain_text_ascii: "plain_text p \<Longrightarrow> is_ascii p"
  by (auto simp: plain_text_def is_ascii_def list_all_iff ascii_graphic_ascii)

lemma token_text_plain: "plain_text p \<Longrightarrow> p \<noteq> [] \<Longrightarrow> token_text p p"
  using read_token_plain [of p "[]" False "[]"]
  by (auto simp: token_text_def read_token_plain read_token_end read_token_space hd_in_set
      plain_text_def list_all_iff)

lemma token_text_quoted: "token_text (quoted bs) (concat (map (escape_byte False) bs))"
  by (simp add: token_text_def quoted_def push_escaped_def read_token_quote read_token_escapes
      read_token_end read_token_space ascii_graphic_def)

lemma token_text_token_display:
  obtains t where "token_text (token_display bs) t" and "unescape t = Some bs"
proof (cases "bs \<noteq> [] \<and> plain_text bs")
  case True
  then have "token_display bs = bs"
    using plain_text_ascii [of bs] valid_utf8_ascii from_utf8_lossy_valid
    by (simp add: token_display_def plain_text_def)
  moreover have "unescape bs = Some bs"
    using True plain_text_ascii by (auto intro!: unescape_plain simp: plain_text_def list_all_iff)
  ultimately show thesis using that True token_text_plain by metis
next
  case False
  then have "token_display bs = quoted bs"
    by (auto simp: token_display_def plain_text_def)
  then show thesis using that token_text_quoted unescape_escapes by metis
qed

lemma plain_text_dec [simp]: "plain_text (dec n)"
  using dec_digits [of n] ascii_digit_graphic
  by (auto simp: plain_text_def list_all_iff ascii_digit_def)

lemma token_text_dec [simp]: "token_text (dec n) (dec n)"
  by (simp add: token_text_plain)

lemma plain_text_hex: "plain_text (hex_encode bs)"
  using hex_digit_graphic nibbles
  by (auto simp: plain_text_def list_all_iff hex_encode_def)

lemma plain_text_base64: "plain_text (base64_encode bs)"
proof (induction bs rule: base64_encode.induct)
  case (2 b0)
  show ?case using sextets(1) [of b0] sextets(2) [of b0 0] by (simp add: plain_text_def b64_char) (simp add: ascii_graphic_def)
next
  case (3 b0 b1)
  show ?case using sextets(1) [of b0] sextets(2) [of b0 b1] sextets(3) [of b1 0] by (simp add: plain_text_def b64_char) (simp add: ascii_graphic_def)
next
  case (4 b0 b1 b2 bs)
  then show ?case
    using sextets(1) [of b0] sextets(2) [of b0 b1] sextets(3) [of b1 b2] sextets(4) [of b2]
    by (simp add: plain_text_def b64_char)
qed (simp add: plain_text_def)

text \<open>A line of such texts, separated by one blank, has exactly their tokens.\<close>

lemma split_tokens_line:
  "list_all2 token_text ps ts \<Longrightarrow> split_tokens (intercalate [32] ps) = Some ts"
proof (induction ps ts rule: list_all2_induct)
  case Nil
  show ?case by (simp add: split_tokens.simps)
next
  case (Cons p ps t ts)
  obtain c u where p: "p = c # u" "\<not> ascii_whitespace c"
    using Cons(1) graphic_not_whitespace by (cases p) (auto simp: token_text_def)
  have blank: "split_tokens (32 # s) = split_tokens s" for s
    by (simp add: split_tokens.simps [of "32 # s"] split_tokens.simps [of s] ascii_whitespace_def)
  show ?case
  proof (cases ps)
    case Nil
    with Cons p show ?thesis
      by (auto simp: split_tokens.simps [of "c # u"] split_tokens.simps [of "[]"] token_text_def)
  next
    case (Cons p' ps')
    let ?r = "intercalate [32] (p' # ps')"
    have "split_tokens (p @ 32 # ?r) = map_option (\<lambda>ts. t # ts) (split_tokens (32 # ?r))"
      using \<open>token_text p t\<close> p
      by (simp add: split_tokens.simps [of "c # u @ 32 # ?r"] token_text_def)
    then show ?thesis using Cons Cons.IH by (simp add: blank)
  qed
qed

end
