(* ===== verification/Ip_Text.thy ===== *)
theory Ip_Text
  imports Text
begin

text \<open>
  \<open>std::net::Ipv4Addr\<close> and \<open>Ipv6Addr\<close>: an address is the word of its bits, with its octets,
  its \<open>Display\<close> form and \<open>FromStr\<close> (the standard library's parser, group by group).  The
  IPv4 form is proved to parse back.
\<close>

type_synonym ipv4 = "32 word"
type_synonym ipv6 = "128 word"

subsection \<open>IPv4\<close>

definition ip4_octets :: "ipv4 \<Rightarrow> bytes" where
  "ip4_octets w = be32 w"

definition ip4_show :: "ipv4 \<Rightarrow> str" where
  "ip4_show w = intercalate [46] (map (\<lambda>b. dec (unat b)) (ip4_octets w))"

text \<open>One decimal octet: one to three digits, no leading zero, at most 255.\<close>

definition octet_ok :: "str \<Rightarrow> bool" where
  "octet_ok d \<longleftrightarrow> d \<noteq> [] \<and> length d \<le> 3 \<and> list_all ascii_digit d
     \<and> (hd d = 48 \<longrightarrow> length d = 1) \<and> dec_val d \<le> 255"

definition ip4_parse :: "str \<Rightarrow> ipv4 option" where
  "ip4_parse s =
     (let ps = split_byte 46 s in
      if length ps = 4 \<and> list_all octet_ok ps
      then Some (of_be (map (\<lambda>d. word_of_nat (dec_val d)) ps)) else None)"

lemma length_dec: "n < 1000 \<Longrightarrow> length (dec n) \<le> 3"
proof -
  assume n: "n < 1000"
  have 1: "m < 10 \<Longrightarrow> length (dec m) = 1" for m by (subst dec.simps) simp
  have 2: "length (dec m) \<le> 2" if "m < 100" for m
  proof (cases "m < 10")
    case False
    with that have "length (dec (m div 10)) = 1" by (intro 1) linarith
    then show ?thesis by (subst dec.simps) simp
  qed (simp add: 1)
  show ?thesis
  proof (cases "n < 10")
    case False
    have "length (dec (n div 10)) \<le> 2" using n by (intro 2) linarith
    then show ?thesis by (subst dec.simps) simp
  qed (simp add: 1)
qed

lemma dec_leading: "hd (dec n) = 48 \<longleftrightarrow> n = 0"
proof (induction n rule: dec.induct)
  case (1 n)
  show ?case
  proof (cases "n < 10")
    case True
    have "(word_of_nat (48 + n) :: u8) = 48 \<longleftrightarrow> unat (word_of_nat (48 + n) :: u8) = unat (48 :: u8)"
      by (simp only: word_unat_eq_iff)
    also have "\<dots> \<longleftrightarrow> n = 0"
      using True by (simp add: unat_of_nat_u8 del: of_nat_add)
    finally show ?thesis using True by (subst dec.simps) (simp del: of_nat_add)
  next
    case False
    have "hd (dec n) = hd (dec (n div 10))"
      using False by (subst dec.simps) simp
    with 1 False show ?thesis by simp
  qed
qed

lemma octet_ok_dec: "n \<le> 255 \<Longrightarrow> octet_ok (dec n)"
  using dec_digits [of n] length_dec [of n] dec_leading [of n]
  by (auto simp: octet_ok_def dec.simps [of 0])

lemma dot_notin_dec: "46 \<notin> set (dec n)"
  using dec_digits [of n] by (auto simp: list_all_iff ascii_digit_def)

lemma ip4_parse_show [simp]: "ip4_parse (ip4_show w) = Some w"
proof -
  let ?ps = "map (\<lambda>b. dec (unat b)) (ip4_octets w)"
  have ne: "?ps \<noteq> []" by (simp add: ip4_octets_def be32_def)
      (metis length_le_enc length_0_conv zero_neq_numeral)
  have sp: "split_byte 46 (ip4_show w) = ?ps"
    unfolding ip4_show_def by (rule split_byte_intercalate [OF ne]) (auto simp: dot_notin_dec)
  have "list_all octet_ok ?ps"
    by (auto simp: list_all_iff intro: octet_ok_dec)
  moreover have "length ?ps = 4"
    by (simp add: ip4_octets_def)
  moreover have "map (\<lambda>d. word_of_nat (dec_val d)) ?ps = be32 w"
    by (simp add: ip4_octets_def comp_def)
  ultimately show ?thesis
    by (simp add: ip4_parse_def sp Let_def del: length_map)
qed

subsection \<open>IPv6\<close>

definition ip6_octets :: "ipv6 \<Rightarrow> bytes" where
  "ip6_octets w = rev (le_enc 16 (unat w))"

fun pairs16 :: "bytes \<Rightarrow> nat list" where
  "pairs16 (a # b # bs) = (256 * unat a + unat b) # pairs16 bs"
| "pairs16 _ = []"

definition ip6_segments :: "ipv6 \<Rightarrow> nat list" where
  "ip6_segments w = pairs16 (ip6_octets w)"

definition ip6_of_segments :: "nat list \<Rightarrow> ipv6" where
  "ip6_of_segments gs = of_be (concat (map (\<lambda>g. rev (le_enc 2 g)) gs))"

definition hex_char :: "nat \<Rightarrow> u8" where
  "hex_char n = word_of_nat (if n < 10 then 48 + n else 87 + n)"

fun hex_nat :: "nat \<Rightarrow> str" where
  "hex_nat n = (if n < 16 then [hex_char n] else hex_nat (n div 16) @ [hex_char (n mod 16)])"

declare hex_nat.simps [simp del]

text \<open>The first of the longest runs of zero segments: its start and length.\<close>

fun zero_span :: "nat list \<Rightarrow> nat \<Rightarrow> nat \<times> nat \<Rightarrow> nat \<times> nat \<Rightarrow> nat \<times> nat" where
  "zero_span [] i cur best = best"
| "zero_span (g # gs) i cur best =
     (if g = 0 then
        (let cur' = (if snd cur = 0 then i else fst cur, snd cur + 1) in
         zero_span gs (i + 1) cur' (if snd cur' > snd best then cur' else best))
      else zero_span gs (i + 1) (0, 0) best)"

definition ip6_show :: "ipv6 \<Rightarrow> str" where
  "ip6_show w =
     (let gs = ip6_segments w in
      if take 6 gs = [0, 0, 0, 0, 0, 65535] then
        lit ''::ffff:'' @ ip4_show (of_be (drop 12 (ip6_octets w)))
      else
        (let (st, ln) = zero_span gs 0 (0, 0) (0, 0) in
         if ln > 1 then
           intercalate [58] (map hex_nat (take st gs)) @ [58, 58]
             @ intercalate [58] (map hex_nat (drop (st + ln) gs))
         else intercalate [58] (map hex_nat gs)))"

definition hex_value :: "u8 \<Rightarrow> nat option" where
  "hex_value b =
     (if ascii_digit b then Some (unat b - 48)
      else if 97 \<le> b \<and> b \<le> 102 then Some (unat b - 87)
      else if 65 \<le> b \<and> b \<le> 70 then Some (unat b - 55) else None)"

definition read_hex_group :: "str \<Rightarrow> (nat \<times> str) option" where
  "read_hex_group s =
     (let d = takeWhile (\<lambda>b. hex_value b \<noteq> None) s in
      if d = [] \<or> length d > 4 then None
      else Some (foldl (\<lambda>a b. a * 16 + the (hex_value b)) 0 d, drop (length d) s))"

definition read_octet :: "str \<Rightarrow> (nat \<times> str) option" where
  "read_octet s =
     (let d = takeWhile ascii_digit s in
      if octet_ok d then Some (dec_val d, drop (length d) s) else None)"

definition read_char :: "u8 \<Rightarrow> str \<Rightarrow> str option" where
  "read_char c s = (case s of b # t \<Rightarrow> (if b = c then Some t else None) | [] \<Rightarrow> None)"

definition read_ip4 :: "str \<Rightarrow> (nat list \<times> str) option" where
  "read_ip4 s = do {
     (a, s) \<leftarrow> read_octet s; s \<leftarrow> read_char 46 s;
     (b, s) \<leftarrow> read_octet s; s \<leftarrow> read_char 46 s;
     (c, s) \<leftarrow> read_octet s; s \<leftarrow> read_char 46 s;
     (d, s) \<leftarrow> read_octet s;
     Some ([256 * a + b, 256 * c + d], s)
   }"

definition read_sep :: "nat \<Rightarrow> str \<Rightarrow> str option" where
  "read_sep i s = (if i = 0 then Some s else read_char 58 s)"

text \<open>
  \<open>read_groups\<close> with \<open>n\<close> groups left of its limit and \<open>i\<close> read: an embedded IPv4 address is
  tried while two groups are left.
\<close>

fun read_groups :: "nat \<Rightarrow> nat \<Rightarrow> str \<Rightarrow> nat list \<times> bool \<times> str" where
  "read_groups 0 i s = ([], False, s)"
| "read_groups (Suc n) i s =
     (case (if n \<ge> 1 then Option.bind (read_sep i s) read_ip4 else None) of
        Some (gs, r) \<Rightarrow> (gs, True, r)
      | None \<Rightarrow>
          (case Option.bind (read_sep i s) read_hex_group of
             Some (g, r) \<Rightarrow> (let (gs, v4, r') = read_groups n (i + 1) r in (g # gs, v4, r'))
           | None \<Rightarrow> ([], False, s)))"

definition ip6_parse :: "str \<Rightarrow> ipv6 option" where
  "ip6_parse s =
     (let (hd8, v4, r) = read_groups 8 0 s in
      if length hd8 = 8 then (if r = [] then Some (ip6_of_segments hd8) else None)
      else if v4 then None
      else do {
        r \<leftarrow> read_char 58 r;
        r \<leftarrow> read_char 58 r;
        let (tl7, _, r) = read_groups (7 - length hd8) 0 r;
        if r = [] then
          Some (ip6_of_segments (hd8 @ replicate (8 - length hd8 - length tl7) 0 @ tl7))
        else None
      })"

end
