(* ===== verification/Rdata.thy ===== *)
theory Rdata
  imports Rdata_Text Ip_Text
begin

text \<open>
  \<open>ebpdns-proto/src/rdata.rs\<close>: record data from the wire (\<open>parse_rdata\<close>, with the whole
  packet as context for compressed names), its presentation text (\<open>as_display\<close>), and back
  (\<open>encode_rdata\<close>).  A parse that fails returns \<open>None\<close> and the caller drops the record.
\<close>

datatype rdata =
    A ipv4
  | AAAA ipv6
  | CNAME str
  | NS str
  | PTR str
  | MX (mx_preference: u16) (mx_exchange: str)
  | TXT str
  | SOA (mname: str) (rname: str) (serial: u32) (refresh: u32) (retry: u32) (expire: u32) (minimum: u32)
  | SRV (srv_priority: u16) (srv_weight: u16) (srv_port: u16) (srv_target: str)
  | SVCB (svcb_priority: u16) (svcb_target: str) (svcb_params: "(u16 \<times> bytes) list")
  | NAPTR (naptr_order: u16) (naptr_preference: u16) (naptr_flags: bytes) (naptr_services: bytes)
      (naptr_regexp: bytes) (naptr_replacement: str)
  | CAA (caa_flags: u8) (caa_tag: bytes) (caa_value: bytes)
  | DS (key_tag: u16) (ds_algorithm: u8) (digest_type: u8) (digest: bytes)
  | SSHFP (sshfp_algorithm: u8) (fp_type: u8) (fingerprint: bytes)
  | DNSKEY (dnskey_flags: u16) (dnskey_protocol: u8) (dnskey_algorithm: u8) (dnskey_key: bytes)
  | TLSA (tlsa_usage: u8) (tlsa_selector: u8) (tlsa_matching: u8) (tlsa_cert: bytes)
  | URI (uri_priority: u16) (uri_weight: u16) (uri_target: bytes)
  | Other bytes

abbreviation dec_w :: "'a::len word \<Rightarrow> str" where "dec_w w \<equiv> dec (unat w)"

subsection \<open>SvcParams as text\<close>

definition svcparam_key_name :: "u16 \<Rightarrow> str option" where
  "svcparam_key_name key =
     (if key = 0 then Some (lit ''mandatory'')
      else if key = 1 then Some (lit ''alpn'')
      else if key = 2 then Some (lit ''no-default-alpn'')
      else if key = 3 then Some (lit ''port'')
      else if key = 4 then Some (lit ''ipv4hint'')
      else if key = 5 then Some (lit ''ech'')
      else if key = 6 then Some (lit ''ipv6hint'')
      else if key = 7 then Some (lit ''dohpath'')
      else if key = 8 then Some (lit ''ohttp'')
      else None)"

definition svcparam_key_code :: "str \<Rightarrow> u16 option" where
  "svcparam_key_code name =
     (let lower = ascii_lower name in
      if lower = lit ''mandatory'' then Some 0
      else if lower = lit ''alpn'' then Some 1
      else if lower = lit ''no-default-alpn'' then Some 2
      else if lower = lit ''port'' then Some 3
      else if lower = lit ''ipv4hint'' then Some 4
      else if lower = lit ''ech'' then Some 5
      else if lower = lit ''ipv6hint'' then Some 6
      else if lower = lit ''dohpath'' then Some 7
      else if lower = lit ''ohttp'' then Some 8
      else do { r \<leftarrow> strip_prefix (lit ''key'') lower; d \<leftarrow> digits_of r;
                n \<leftarrow> parse_uint 65535 d; Some (word_of_nat n) })"

definition svcparam_key_text :: "u16 \<Rightarrow> str" where
  "svcparam_key_text key =
     (case svcparam_key_name key of Some n \<Rightarrow> n | None \<Rightarrow> lit ''key'' @ dec_w key)"

definition svcparam_raw_display :: "u16 \<Rightarrow> bytes \<Rightarrow> str" where
  "svcparam_raw_display key value = lit ''key'' @ dec_w key @ lit ''='' @ quoted value"

fun mandatory_pairs :: "bytes \<Rightarrow> str \<Rightarrow> str" where
  "mandatory_pairs (a # b # rest) out =
     mandatory_pairs rest ((if out \<noteq> [] then out @ [44] else out) @ svcparam_key_text (of_be [a, b]))"
| "mandatory_pairs _ out = out"

definition svcparam_mandatory_text :: "bytes \<Rightarrow> str option" where
  "svcparam_mandatory_text value =
     (if value = [] \<or> odd (length value) then None else Some (mandatory_pairs value []))"

function alpn_items :: "bytes \<Rightarrow> str \<Rightarrow> bool \<Rightarrow> str option" where
  "alpn_items [] out first = Some out"
| "alpn_items (n # rest) out first =
     (if n = 0 \<or> unat n > length rest then None
      else alpn_items (drop (unat n) rest)
             (push_escaped (if first then out else out @ [44]) (take (unat n) rest) True) False)"
  by pat_completeness auto
termination by (relation "measure (\<lambda>(v, _, _). length v)") auto

definition svcparam_alpn_text :: "bytes \<Rightarrow> str option" where
  "svcparam_alpn_text value = (if value = [] then None else alpn_items value [] True)"

function chunks :: "nat \<Rightarrow> bytes \<Rightarrow> bytes list" where
  "chunks n xs = (if xs = [] \<or> n = 0 then [] else take n xs # chunks n (drop n xs))"
  by pat_completeness auto
termination by (relation "measure (\<lambda>(n, xs). length xs)") auto

declare chunks.simps [simp del]

definition svcparam_hint_text :: "bytes \<Rightarrow> nat \<Rightarrow> str option" where
  "svcparam_hint_text value width =
     (if value = [] \<or> length value mod width \<noteq> 0 then None
      else if width = 4 then Some (intercalate [44] (map (\<lambda>c. ip4_show (of_be c)) (chunks 4 value)))
      else if width = 16 then Some (intercalate [44] (map (\<lambda>c. ip6_show (of_be c)) (chunks 16 value)))
      else None)"

definition svcparam_display :: "u16 \<Rightarrow> bytes \<Rightarrow> str" where
  "svcparam_display key value =
     (if key = 0 then
        (case svcparam_mandatory_text value of
           Some v \<Rightarrow> lit ''mandatory='' @ v | None \<Rightarrow> svcparam_raw_display key value)
      else if key = 1 then
        (case svcparam_alpn_text value of
           Some v \<Rightarrow> lit ''alpn='' @ v | None \<Rightarrow> svcparam_raw_display key value)
      else if key = 2 \<and> value = [] then lit ''no-default-alpn''
      else if key = 3 then
        (case value of
           [hi, lo] \<Rightarrow> lit ''port='' @ dec_w (of_be [hi, lo] :: u16)
         | _ \<Rightarrow> svcparam_raw_display key value)
      else if key = 4 then
        (case svcparam_hint_text value 4 of
           Some v \<Rightarrow> lit ''ipv4hint='' @ v | None \<Rightarrow> svcparam_raw_display key value)
      else if key = 5 then lit ''ech='' @ base64_encode value
      else if key = 6 then
        (case svcparam_hint_text value 16 of
           Some v \<Rightarrow> lit ''ipv6hint='' @ v | None \<Rightarrow> svcparam_raw_display key value)
      else if key = 7 then lit ''dohpath='' @ quoted value
      else if key = 8 \<and> value = [] then lit ''ohttp''
      else svcparam_raw_display key value)"

definition svcb_display :: "u16 \<Rightarrow> str \<Rightarrow> (u16 \<times> bytes) list \<Rightarrow> str" where
  "svcb_display priority target params =
     dec_w priority @ [32] @ name_display target
       @ concat (map (\<lambda>(k, v). 32 # svcparam_display k v) params)"

subsection \<open>Presentation\<close>

fun as_display :: "rdata \<Rightarrow> str" where
  "as_display (A ip) = ip4_show ip"
| "as_display (AAAA ip) = ip6_show ip"
| "as_display (CNAME s) = s"
| "as_display (NS s) = s"
| "as_display (PTR s) = s"
| "as_display (MX p e) = intercalate [32] [dec_w p, e]"
| "as_display (TXT s) = s"
| "as_display (SOA m r s rf rt ex mi) =
     intercalate [32] [m, r, dec_w s, dec_w rf, dec_w rt, dec_w ex, dec_w mi]"
| "as_display (SRV p w port t) = intercalate [32] [dec_w p, dec_w w, dec_w port, t]"
| "as_display (SVCB p t ps) = svcb_display p t ps"
| "as_display (NAPTR ord p f s r rep) =
     intercalate [32] [dec_w ord, dec_w p, quoted f, quoted s, quoted r, name_display rep]"
| "as_display (CAA f t v) = intercalate [32] [dec_w f, token_display t, quoted v]"
| "as_display (DS k a t d) = intercalate [32] [dec_w k, dec_w a, dec_w t, hex_encode d]"
| "as_display (SSHFP a t f) = intercalate [32] [dec_w a, dec_w t, hex_encode f]"
| "as_display (DNSKEY f p a k) = intercalate [32] [dec_w f, dec_w p, dec_w a, base64_encode k]"
| "as_display (TLSA u s m c) = intercalate [32] [dec_w u, dec_w s, dec_w m, hex_encode c]"
| "as_display (URI p w t) = intercalate [32] [dec_w p, dec_w w, quoted t]"
| "as_display (Other b) = hex_encode b"

subsection \<open>Parsing the wire form\<close>

text \<open>The parameter loop of \<open>parse_svcb\<close>, from \<open>p\<close> to the end of the rdata.\<close>

function svcb_params_loop :: "bytes \<Rightarrow> nat \<Rightarrow> nat \<Rightarrow> (u16 \<times> bytes) list \<Rightarrow> (u16 \<times> bytes) list option" where
  "svcb_params_loop data p end acc =
     (if p < end then
        (if p + 4 > end then None
         else (case (be_u16 data p, be_u16 data (p + 2)) of
            (Some key, Some len) \<Rightarrow>
              (let p' = p + 4 in
               if p' + unat len > end then None
               else svcb_params_loop data (p' + unat len) end
                      (acc @ [(key, slice data p' (unat len))]))
          | _ \<Rightarrow> None))
      else Some acc)"
  by pat_completeness auto
termination by (relation "measure (\<lambda>(d, p, e, a). e - p)") auto

declare svcb_params_loop.simps [simp del]

definition parse_svcb :: "bytes \<Rightarrow> nat \<Rightarrow> nat \<Rightarrow> rdata option" where
  "parse_svcb data pos rdlen =
     (if rdlen < 3 then None
      else let end = pos + rdlen in do {
        priority \<leftarrow> be_u16 data pos;
        (target, p) \<leftarrow> ok_of (decode_name data (pos + 2));
        if p > end then None
        else do { params \<leftarrow> svcb_params_loop data p end []; Some (SVCB priority target params) } })"

definition read_char_string :: "bytes \<Rightarrow> nat \<Rightarrow> nat \<Rightarrow> (bytes \<times> nat) option" where
  "read_char_string data p end =
     (if p \<ge> end then None
      else if p \<ge> length data then None
      else let ln = unat (data ! p); start = p + 1 in
        if start + ln > end then None else Some (slice data start ln, start + ln))"

definition parse_naptr :: "bytes \<Rightarrow> nat \<Rightarrow> nat \<Rightarrow> rdata option" where
  "parse_naptr data pos rdlen =
     (if rdlen < 8 then None
      else let end = pos + rdlen in do {
        order \<leftarrow> be_u16 data pos;
        preference \<leftarrow> be_u16 data (pos + 2);
        (flags, p) \<leftarrow> read_char_string data (pos + 4) end;
        (services, p) \<leftarrow> read_char_string data p end;
        (regexp, p) \<leftarrow> read_char_string data p end;
        (replacement, np) \<leftarrow> ok_of (decode_name data p);
        if np \<noteq> end then None
        else Some (NAPTR order preference flags services regexp replacement) })"

definition parse_caa :: "bytes \<Rightarrow> rdata option" where
  "parse_caa raw =
     (if length raw < 2 then None
      else let flags = raw ! 0; tag_len = unat (raw ! 1) in
        if tag_len = 0 \<or> 2 + tag_len > length raw then None
        else Some (CAA flags (slice raw 2 tag_len) (drop (2 + tag_len) raw)))"

definition parse_ds :: "bytes \<Rightarrow> rdata option" where
  "parse_ds raw =
     (if length raw < 4 then None
      else Some (DS (of_be [raw ! 0, raw ! 1]) (raw ! 2) (raw ! 3) (drop 4 raw)))"

definition parse_sshfp :: "bytes \<Rightarrow> rdata option" where
  "parse_sshfp raw =
     (if length raw < 2 then None else Some (SSHFP (raw ! 0) (raw ! 1) (drop 2 raw)))"

definition parse_dnskey :: "bytes \<Rightarrow> rdata option" where
  "parse_dnskey raw =
     (if length raw < 4 then None
      else Some (DNSKEY (of_be [raw ! 0, raw ! 1]) (raw ! 2) (raw ! 3) (drop 4 raw)))"

definition parse_tlsa :: "bytes \<Rightarrow> rdata option" where
  "parse_tlsa raw =
     (if length raw < 3 then None else Some (TLSA (raw ! 0) (raw ! 1) (raw ! 2) (drop 3 raw)))"

definition parse_uri :: "bytes \<Rightarrow> rdata option" where
  "parse_uri raw =
     (if length raw < 4 then None
      else Some (URI (of_be [raw ! 0, raw ! 1]) (of_be [raw ! 2, raw ! 3]) (drop 4 raw)))"

function txt_segments :: "bytes \<Rightarrow> nat \<Rightarrow> str \<Rightarrow> str" where
  "txt_segments raw p out =
     (if p < length raw then
        (let ln = unat (raw ! p) in
         if p + 1 + ln > length raw then out
         else let seg = slice raw (p + 1) ln in
           txt_segments raw (p + 1 + ln)
             (out @ (if valid_utf8 seg then seg else from_utf8_lossy seg)))
      else out)"
  by pat_completeness auto
termination by (relation "measure (\<lambda>(raw, p, out). length raw - p)") auto

declare txt_segments.simps [simp del]

definition parse_rdata :: "bytes \<Rightarrow> nat \<Rightarrow> u16 \<Rightarrow> u16 \<Rightarrow> rdata option" where
  "parse_rdata data pos rtype rdlen16 =
     (let rdlen = unat rdlen16 in
      if pos + rdlen > length data then None
      else let raw = slice data pos rdlen in
        if rtype = TYPE_A then (if rdlen = 4 then Some (A (of_be raw)) else None)
        else if rtype = TYPE_AAAA then (if rdlen = 16 then Some (AAAA (of_be raw)) else None)
        else if rtype \<in> {TYPE_CNAME, TYPE_NS, TYPE_PTR} then do {
          (name, np) \<leftarrow> ok_of (decode_name data pos);
          if np - pos > rdlen then None
          else if rtype = TYPE_CNAME then Some (CNAME name)
          else if rtype = TYPE_NS then Some (NS name)
          else Some (PTR name) }
        else if rtype = TYPE_MX then
          (if rdlen \<ge> 3 then do {
             preference \<leftarrow> be_u16 data pos;
             (exchange, np) \<leftarrow> ok_of (decode_name data (pos + 2));
             if np - pos > rdlen then None else Some (MX preference exchange) }
           else None)
        else if rtype = TYPE_TXT then Some (TXT ([34] @ txt_segments raw 0 [] @ [34]))
        else if rtype = TYPE_SOA then do {
          (m, p) \<leftarrow> ok_of (decode_name data pos);
          if p - pos > rdlen then None else do {
          (r, p) \<leftarrow> ok_of (decode_name data p);
          if p - pos > rdlen then None
          else if p + 20 \<noteq> pos + rdlen then None else do {
          s \<leftarrow> be_u32 data p;
          rf \<leftarrow> be_u32 data (p + 4);
          rt \<leftarrow> be_u32 data (p + 8);
          ex \<leftarrow> be_u32 data (p + 12);
          mi \<leftarrow> be_u32 data (p + 16);
          Some (SOA m r s rf rt ex mi) } } }
        else if rtype = TYPE_SRV then
          (if rdlen \<ge> 7 then do {
             priority \<leftarrow> be_u16 data pos;
             weight \<leftarrow> be_u16 data (pos + 2);
             port \<leftarrow> be_u16 data (pos + 4);
             (target, np) \<leftarrow> ok_of (decode_name data (pos + 6));
             if np - pos > rdlen then None else Some (SRV priority weight port target) }
           else None)
        else if rtype \<in> {TYPE_SVCB, TYPE_HTTPS} then parse_svcb data pos rdlen
        else if rtype = TYPE_NAPTR then parse_naptr data pos rdlen
        else if rtype = TYPE_CAA then parse_caa raw
        else if rtype \<in> {TYPE_DS, TYPE_CDS} then parse_ds raw
        else if rtype = TYPE_SSHFP then parse_sshfp raw
        else if rtype \<in> {TYPE_DNSKEY, TYPE_CDNSKEY} then parse_dnskey raw
        else if rtype = TYPE_TLSA then parse_tlsa raw
        else if rtype = TYPE_URI then parse_uri raw
        else Some (Other raw))"

subsection \<open>Parsing the presentation form\<close>

definition parse_mandatory :: "str \<Rightarrow> bytes option" where
  "parse_mandatory value =
     (if value = [] then None
      else foldl (\<lambda>acc item. do { out \<leftarrow> acc; k \<leftarrow> svcparam_key_code item; Some (out @ be16 k) })
             (Some []) (split_byte 44 value))"

definition parse_alpn :: "str \<Rightarrow> bytes option" where
  "parse_alpn value =
     (if value = [] then None
      else foldl (\<lambda>acc item. do { out \<leftarrow> acc; bs \<leftarrow> unescape item;
                    if bs = [] \<or> length bs > 255 then None
                    else Some (out @ word_of_nat (length bs) # bs) })
             (Some []) (split_byte 44 value))"

definition parse_hints :: "str \<Rightarrow> nat \<Rightarrow> bytes option" where
  "parse_hints value width =
     (if value = [] then None
      else foldl (\<lambda>acc item. do { out \<leftarrow> acc; bs \<leftarrow> unescape item;
                    if \<not> valid_utf8 bs then None
                    else if width = 4 then map_option (\<lambda>ip. out @ ip4_octets ip) (ip4_parse bs)
                    else if width = 16 then map_option (\<lambda>ip. out @ ip6_octets ip) (ip6_parse bs)
                    else None })
             (Some []) (split_byte 44 value))"

definition parse_svcparam :: "str \<Rightarrow> (u16 \<times> bytes) option" where
  "parse_svcparam tok =
     (let (key_text, value_text) = (case split_once 61 tok of Some kv \<Rightarrow> kv | None \<Rightarrow> (tok, [])) in do {
        key \<leftarrow> svcparam_key_code key_text;
        let numeric_form = (case strip_prefix (lit ''key'') (ascii_lower key_text) of
               Some n \<Rightarrow> n \<noteq> [] \<and> list_all ascii_digit n | None \<Rightarrow> False);
        if numeric_form then map_option (\<lambda>v. (key, v)) (unescape value_text)
        else map_option (\<lambda>v. (key, v))
          (if key = 0 then parse_mandatory value_text
           else if key = 1 then parse_alpn value_text
           else if key = 2 \<or> key = 8 then (if value_text = [] then Some [] else None)
           else if key = 3 then map_option be16 (token_u16 value_text)
           else if key = 4 then parse_hints value_text 4
           else if key = 5 then base64_decode value_text
           else if key = 6 then parse_hints value_text 16
           else unescape value_text) })"

fun encode_svcparams :: "str list \<Rightarrow> bytes \<Rightarrow> bytes option" where
  "encode_svcparams [] out = Some out"
| "encode_svcparams (tok # toks) out = do {
     (key, val) \<leftarrow> parse_svcparam tok;
     if length val > 65535 then None
     else encode_svcparams toks (out @ be16 key @ be16 (word_of_nat (length val)) @ val) }"

text \<open>\<open>String::from_utf8(..).ok()\<close>.\<close>

definition utf8_string :: "bytes \<Rightarrow> str option" where
  "utf8_string bs = (if valid_utf8 bs then Some bs else None)"

definition encode_svcb :: "unicode_lib \<Rightarrow> str \<Rightarrow> bytes option" where
  "encode_svcb U value = do {
     toks \<leftarrow> split_tokens value;
     if length toks < 2 then None else do {
       priority \<leftarrow> token_u16 (toks ! 0);
       t \<leftarrow> unescape (toks ! 1);
       target \<leftarrow> utf8_string t;
       name \<leftarrow> ok_of (encode_name U target);
       encode_svcparams (drop 2 toks) (be16 priority @ name) } }"

definition encode_hex_fields :: "str list \<Rightarrow> nat \<Rightarrow> bytes option" where
  "encode_hex_fields toks first_hex =
     (if length toks \<le> first_hex then None else hex_decode (concat (drop first_hex toks)))"

fun naptr_strings :: "str list \<Rightarrow> bytes \<Rightarrow> bytes option" where
  "naptr_strings [] out = Some out"
| "naptr_strings (tok # toks) out = do {
     bs \<leftarrow> unescape tok;
     if length bs > 255 then None
     else naptr_strings toks (out @ word_of_nat (length bs) # bs) }"

definition encode_naptr :: "unicode_lib \<Rightarrow> str \<Rightarrow> bytes option" where
  "encode_naptr U value = do {
     toks \<leftarrow> split_tokens value;
     if length toks \<noteq> 6 then None else do {
       order \<leftarrow> token_u16 (toks ! 0);
       preference \<leftarrow> token_u16 (toks ! 1);
       out \<leftarrow> naptr_strings (slice toks 2 3) (be16 order @ be16 preference);
       r \<leftarrow> unescape (toks ! 5);
       replacement \<leftarrow> utf8_string r;
       name \<leftarrow> ok_of (encode_name U replacement);
       Some (out @ name) } }"

definition encode_caa :: "str \<Rightarrow> bytes option" where
  "encode_caa value = do {
     toks \<leftarrow> split_tokens value;
     if length toks < 3 then None else do {
       flags \<leftarrow> token_u8 (toks ! 0);
       tag \<leftarrow> unescape (toks ! 1);
       if tag = [] \<or> length tag > 255 then None else do {
         val \<leftarrow> unescape (toks ! 2);
         Some ([flags, word_of_nat (length tag)] @ tag @ val) } } }"

definition encode_ds :: "str \<Rightarrow> bytes option" where
  "encode_ds value = do {
     toks \<leftarrow> split_tokens value;
     if length toks < 4 then None else do {
       k \<leftarrow> token_u16 (toks ! 0);
       a \<leftarrow> token_u8 (toks ! 1);
       t \<leftarrow> token_u8 (toks ! 2);
       d \<leftarrow> encode_hex_fields toks 3;
       Some (be16 k @ [a, t] @ d) } }"

definition encode_sshfp :: "str \<Rightarrow> bytes option" where
  "encode_sshfp value = do {
     toks \<leftarrow> split_tokens value;
     if length toks < 3 then None else do {
       a \<leftarrow> token_u8 (toks ! 0);
       t \<leftarrow> token_u8 (toks ! 1);
       f \<leftarrow> encode_hex_fields toks 2;
       Some ([a, t] @ f) } }"

definition encode_dnskey :: "str \<Rightarrow> bytes option" where
  "encode_dnskey value = do {
     toks \<leftarrow> split_tokens value;
     if length toks < 4 then None else do {
       f \<leftarrow> token_u16 (toks ! 0);
       p \<leftarrow> token_u8 (toks ! 1);
       a \<leftarrow> token_u8 (toks ! 2);
       k \<leftarrow> base64_decode (concat (drop 3 toks));
       Some (be16 f @ [p, a] @ k) } }"

definition encode_tlsa :: "str \<Rightarrow> bytes option" where
  "encode_tlsa value = do {
     toks \<leftarrow> split_tokens value;
     if length toks < 4 then None else do {
       u \<leftarrow> token_u8 (toks ! 0);
       s \<leftarrow> token_u8 (toks ! 1);
       m \<leftarrow> token_u8 (toks ! 2);
       c \<leftarrow> encode_hex_fields toks 3;
       Some ([u, s, m] @ c) } }"

definition encode_uri :: "str \<Rightarrow> bytes option" where
  "encode_uri value = do {
     toks \<leftarrow> split_tokens value;
     if length toks < 3 then None else do {
       p \<leftarrow> token_u16 (toks ! 0);
       w \<leftarrow> token_u16 (toks ! 1);
       t \<leftarrow> unescape (intercalate [32] (drop 2 toks));
       Some (be16 p @ be16 w @ t) } }"

definition fallback_hex_or_text :: "str \<Rightarrow> bytes option" where
  "fallback_hex_or_text value =
     (case hex_decode value of Some b \<Rightarrow> Some b | None \<Rightarrow> Some value)"

text \<open>The segments of a TXT text: whole characters, at most 255 bytes each.\<close>

fun txt_chunks :: "bytes list \<Rightarrow> bytes \<Rightarrow> bytes list" where
  "txt_chunks [] cur = (if cur \<noteq> [] then [cur] else [])"
| "txt_chunks (cb # cs) cur =
     (if length cur + length cb > 255 then cur # txt_chunks cs cb else txt_chunks cs (cur @ cb))"

definition encode_txt :: "str \<Rightarrow> bytes" where
  "encode_txt value =
     (let s = (case strip_prefix [34] value of Some r \<Rightarrow> r | None \<Rightarrow> value);
          s = (case strip_suffix [34] s of Some r \<Rightarrow> r | None \<Rightarrow> s) in
      if s = [] then [0]
      else concat (map (\<lambda>seg. word_of_nat (length seg) # seg) (txt_chunks (Text.chars s) [])))"

definition encode_mx :: "unicode_lib \<Rightarrow> str \<Rightarrow> bytes option" where
  "encode_mx U value =
     (let (pref_str, exchange) = (case split_once 32 value of Some p \<Rightarrow> p | None \<Rightarrow> (value, value));
          pref = (if pref_str \<noteq> [] \<and> list_all ascii_digit pref_str then
                    (case parse_uint 4294967295 pref_str of Some n \<Rightarrow> min n 65535 | None \<Rightarrow> 0)
                  else 10) in do {
        name \<leftarrow> ok_of (encode_name U exchange);
        Some (be16 (word_of_nat pref) @ name) })"

definition encode_soa :: "unicode_lib \<Rightarrow> str \<Rightarrow> bytes option" where
  "encode_soa U value =
     (let parts = split_whitespace value in
      if length parts \<ge> 7 then do {
        m \<leftarrow> ok_of (encode_name U (parts ! 0));
        r \<leftarrow> ok_of (encode_name U (parts ! 1));
        n0 \<leftarrow> parse_uint 4294967295 (parts ! 2);
        n1 \<leftarrow> parse_uint 4294967295 (parts ! 3);
        n2 \<leftarrow> parse_uint 4294967295 (parts ! 4);
        n3 \<leftarrow> parse_uint 4294967295 (parts ! 5);
        n4 \<leftarrow> parse_uint 4294967295 (parts ! 6);
        Some (m @ r @ be32 (word_of_nat n0) @ be32 (word_of_nat n1) @ be32 (word_of_nat n2)
              @ be32 (word_of_nat n3) @ be32 (word_of_nat n4)) }
      else fallback_hex_or_text value)"

definition encode_srv :: "unicode_lib \<Rightarrow> str \<Rightarrow> bytes option" where
  "encode_srv U value =
     (let parts = split_whitespace value in
      if length parts \<ge> 4 then do {
        n0 \<leftarrow> parse_uint 4294967295 (parts ! 0);
        n1 \<leftarrow> parse_uint 4294967295 (parts ! 1);
        n2 \<leftarrow> parse_uint 4294967295 (parts ! 2);
        target \<leftarrow> ok_of (encode_name U (parts ! 3));
        Some (be16 (word_of_nat (min n0 65535)) @ be16 (word_of_nat (min n1 65535))
              @ be16 (word_of_nat (min n2 65535)) @ target) }
      else fallback_hex_or_text value)"

definition encode_rdata :: "unicode_lib \<Rightarrow> u16 \<Rightarrow> str \<Rightarrow> bytes option" where
  "encode_rdata U rtype value0 =
     (let value = trim value0 in
      if rtype = TYPE_A then map_option ip4_octets (ip4_parse value)
      else if rtype = TYPE_AAAA then map_option ip6_octets (ip6_parse value)
      else if rtype \<in> {TYPE_CNAME, TYPE_NS, TYPE_PTR} then ok_of (encode_name U value)
      else if rtype = TYPE_MX then encode_mx U value
      else if rtype = TYPE_TXT then Some (encode_txt value)
      else if rtype = TYPE_SOA then encode_soa U value
      else if rtype = TYPE_SRV then encode_srv U value
      else if rtype \<in> {TYPE_SVCB, TYPE_HTTPS} then encode_svcb U value
      else if rtype = TYPE_NAPTR then encode_naptr U value
      else if rtype = TYPE_CAA then encode_caa value
      else if rtype \<in> {TYPE_DS, TYPE_CDS} then encode_ds value
      else if rtype = TYPE_SSHFP then encode_sshfp value
      else if rtype \<in> {TYPE_DNSKEY, TYPE_CDNSKEY} then encode_dnskey value
      else if rtype = TYPE_TLSA then encode_tlsa value
      else if rtype = TYPE_URI then encode_uri value
      else fallback_hex_or_text value)"

subsection \<open>Lines that trimming leaves alone\<close>

definition edge_ok :: "str \<Rightarrow> bool" where
  "edge_ok p \<longleftrightarrow> is_ascii p \<and> p \<noteq> [] \<and> ascii_graphic (hd p) \<and> ascii_graphic (last p)"

lemma trim_edge_ok [simp]: "edge_ok p \<Longrightarrow> trim p = p"
  by (simp add: edge_ok_def trim_ascii_id)

lemma edge_ok_plain: "plain_text p \<Longrightarrow> p \<noteq> [] \<Longrightarrow> edge_ok p"
  using plain_text_ascii [of p] by (auto simp: edge_ok_def plain_text_def list_all_iff hd_in_set)

lemma is_ascii_escape: "is_ascii (escape_byte comma b)"
  using escape_digits(1) [of b]
  by (auto simp: escape_byte_def ascii_graphic_ascii ascii_digit_graphic)

lemma is_ascii_concat: "\<forall>x \<in> set xs. is_ascii (f x) \<Longrightarrow> is_ascii (concat (map f xs))"
  by (induction xs) simp_all

lemma edge_ok_quoted: "edge_ok (quoted bs)"
  by (simp add: edge_ok_def quoted_def push_escaped_def is_ascii_concat is_ascii_escape ascii_graphic_def)

lemma edge_ok_dec: "edge_ok (dec n)"
  by (simp add: edge_ok_plain)

lemma edge_ok_token_display: "edge_ok (token_display bs)"
proof (cases "bs \<noteq> [] \<and> plain_text bs")
  case True
  then have "token_display bs = bs"
    using plain_text_ascii [of bs] valid_utf8_ascii from_utf8_lossy_valid
    by (simp add: token_display_def plain_text_def)
  with True show ?thesis by (simp add: edge_ok_plain)
next
  case False
  then have "token_display bs = quoted bs" by (auto simp: token_display_def plain_text_def)
  then show ?thesis by (simp add: edge_ok_quoted)
qed

lemma edge_ok_line: "ps \<noteq> [] \<Longrightarrow> \<forall>p \<in> set ps. edge_ok p \<Longrightarrow> edge_ok (intercalate [32] ps)"
  by (induction "[32] :: str" ps rule: intercalate.induct) (auto simp: edge_ok_def)

lemma hex_encode_Nil [simp]: "hex_encode [] = []" by (simp add: hex_encode_def)

lemma hex_encode_not_Nil [simp]: "hex_encode bs = [] \<longleftrightarrow> bs = []"
  by (cases bs) (simp_all add: hex_encode_def)

lemma base64_encode_not_Nil [simp]: "base64_encode bs = [] \<longleftrightarrow> bs = []"
  by (induction bs rule: base64_encode.induct) simp_all

lemmas edge_ok_pieces = edge_ok_dec edge_ok_quoted edge_ok_token_display
  edge_ok_plain [OF plain_text_hex] edge_ok_plain [OF plain_text_base64]

lemmas token_pieces = token_text_dec token_text_quoted
  token_text_plain [OF plain_text_hex] token_text_plain [OF plain_text_base64]

lemma take_drop_parts:
  "length raw \<ge> 2 \<Longrightarrow> be16 (of_be [raw ! 0, raw ! 1]) @ drop 2 raw = raw"
  "length raw \<ge> 4 \<Longrightarrow> be16 (of_be [raw ! 0, raw ! 1]) @ raw ! 2 # raw ! 3 # drop 4 raw = raw"
  "length raw \<ge> 4 \<Longrightarrow> be16 (of_be [raw ! 0, raw ! 1]) @ be16 (of_be [raw ! 2, raw ! 3]) @ drop 4 raw = raw"
  by (auto simp: be16_of_be Suc_le_length_iff numeral_eq_Suc)

lemma edge_ok_ip4: "edge_ok (ip4_show w)"
proof -
  have "edge_ok (intercalate [46] (map (\<lambda>b. dec (unat b)) bs))" if "bs \<noteq> []" for bs :: bytes
    using that
  proof (induction bs)
    case (Cons b bs)
    have "edge_ok (dec (unat b))" by (rule edge_ok_dec)
    with Cons.IH show ?case
      by (cases bs) (auto simp: edge_ok_def)
  qed simp
  moreover have "ip4_octets w \<noteq> []"
    by (metis ip4_octets_def length_endian(4) length_endian(5) list.size(3) zero_neq_numeral)
  ultimately show ?thesis unfolding ip4_show_def by simp
qed

subsection \<open>Text round trips of the opaque types\<close>

text \<open>
  The records whose data holds no domain name.  \<open>tail_empty\<close> is the one shape the text form
  loses: a digest, fingerprint, key or certificate of no bytes is written as nothing at all,
  and the encoder wants a token there.
\<close>

definition tail_empty :: "rdata \<Rightarrow> bool" where
  "tail_empty rd \<longleftrightarrow> (case rd of
     DS _ _ _ d \<Rightarrow> d = [] | SSHFP _ _ f \<Rightarrow> f = [] | DNSKEY _ _ _ k \<Rightarrow> k = []
   | TLSA _ _ _ c \<Rightarrow> c = [] | _ \<Rightarrow> False)"

lemma line_tokens:
  "list_all2 token_text ps ts \<Longrightarrow> ps \<noteq> [] \<Longrightarrow> \<forall>p \<in> set ps. edge_ok p \<Longrightarrow>
   trim (intercalate [32] ps) = intercalate [32] ps \<and> split_tokens (intercalate [32] ps) = Some ts"
  using edge_ok_line split_tokens_line trim_edge_ok by blast

lemma caa_text:
  assumes "parse_caa raw = Some rd"
  shows "encode_caa (trim (as_display rd)) = Some raw"
proof -
  let ?n = "unat (raw ! 1)"
  have l: "length raw \<ge> 2" "?n \<noteq> 0" "2 + ?n \<le> length raw"
    and rd: "rd = CAA (raw ! 0) (slice raw 2 ?n) (drop (2 + ?n) raw)"
    using assms by (auto simp: parse_caa_def Let_def not_less split: if_splits)
  let ?tag = "slice raw 2 ?n" and ?val = "drop (2 + ?n) raw"
  have tl: "length ?tag = ?n" using l by simp
  obtain t where t: "token_text (token_display ?tag) t" "unescape t = Some ?tag"
    using token_text_token_display by blast
  let ?ps = "[dec_w (raw ! 0), token_display ?tag, quoted ?val]"
  have "list_all2 token_text ?ps [dec_w (raw ! 0), t, concat (map (escape_byte False) ?val)]"
    using t by (simp add: token_pieces)
  from line_tokens [OF this] have "trim (as_display rd) = intercalate [32] ?ps"
    and sp: "split_tokens (intercalate [32] ?ps) = Some [dec_w (raw ! 0), t, concat (map (escape_byte False) ?val)]"
    by (simp_all add: rd edge_ok_pieces del: intercalate.simps)
  moreover have "[raw ! 0, word_of_nat (length ?tag)] @ ?tag @ ?val = raw"
  proof -
    have "raw = raw ! 0 # raw ! 1 # drop 2 raw"
      using l(1) by (auto simp: Suc_le_length_iff numeral_eq_Suc)
    moreover have "drop 2 raw = ?tag @ ?val"
      by (metis append_take_drop_id drop_drop add.commute slice_def)
    moreover have "word_of_nat (length ?tag) = raw ! 1" unfolding tl by simp
    ultimately show ?thesis by simp
  qed
  moreover have "?tag \<noteq> []" "length ?tag \<le> 255" using tl l(2) by (auto simp del: length_slice)
  ultimately show ?thesis
    by (simp add: encode_caa_def t(2) unescape_escapes del: intercalate.simps length_slice)
qed

lemma ds_text:
  assumes "parse_ds raw = Some rd" "\<not> tail_empty rd"
  shows "encode_ds (trim (as_display rd)) = Some raw"
proof -
  have l: "length raw \<ge> 4" and rd: "rd = DS (of_be [raw ! 0, raw ! 1]) (raw ! 2) (raw ! 3) (drop 4 raw)"
    using assms(1) by (auto simp: parse_ds_def not_less split: if_splits)
  let ?ps = "[dec_w (of_be [raw ! 0, raw ! 1] :: u16), dec_w (raw ! 2), dec_w (raw ! 3), hex_encode (drop 4 raw)]"
  have ne: "drop 4 raw \<noteq> []" using assms(2) by (simp add: rd tail_empty_def)
  have "list_all2 token_text ?ps ?ps" using ne by (simp add: token_pieces)
  from line_tokens [OF this] ne show ?thesis
    using take_drop_parts(2) [OF l]
    by (simp add: rd edge_ok_pieces encode_ds_def encode_hex_fields_def del: intercalate.simps)
qed

lemma sshfp_text:
  assumes "parse_sshfp raw = Some rd" "\<not> tail_empty rd"
  shows "encode_sshfp (trim (as_display rd)) = Some raw"
proof -
  have l: "length raw \<ge> 2" and rd: "rd = SSHFP (raw ! 0) (raw ! 1) (drop 2 raw)"
    using assms(1) by (auto simp: parse_sshfp_def not_less split: if_splits)
  let ?ps = "[dec_w (raw ! 0), dec_w (raw ! 1), hex_encode (drop 2 raw)]"
  have ne: "drop 2 raw \<noteq> []" using assms(2) by (simp add: rd tail_empty_def)
  have "list_all2 token_text ?ps ?ps" using ne by (simp add: token_pieces)
  moreover have "raw ! 0 # raw ! 1 # drop 2 raw = raw"
    using l by (auto simp: Suc_le_length_iff numeral_eq_Suc)
  ultimately show ?thesis using line_tokens [of ?ps ?ps] ne
    by (simp add: rd edge_ok_pieces encode_sshfp_def encode_hex_fields_def del: intercalate.simps)
qed

lemma dnskey_text:
  assumes "parse_dnskey raw = Some rd" "\<not> tail_empty rd"
  shows "encode_dnskey (trim (as_display rd)) = Some raw"
proof -
  have l: "length raw \<ge> 4" and rd: "rd = DNSKEY (of_be [raw ! 0, raw ! 1]) (raw ! 2) (raw ! 3) (drop 4 raw)"
    using assms(1) by (auto simp: parse_dnskey_def not_less split: if_splits)
  let ?ps = "[dec_w (of_be [raw ! 0, raw ! 1] :: u16), dec_w (raw ! 2), dec_w (raw ! 3), base64_encode (drop 4 raw)]"
  have ne: "drop 4 raw \<noteq> []" using assms(2) by (simp add: rd tail_empty_def)
  have "list_all2 token_text ?ps ?ps" using ne by (simp add: token_pieces)
  from line_tokens [OF this] ne show ?thesis
    using take_drop_parts(2) [OF l]
    by (simp add: rd edge_ok_pieces encode_dnskey_def del: intercalate.simps)
qed

lemma tlsa_text:
  assumes "parse_tlsa raw = Some rd" "\<not> tail_empty rd"
  shows "encode_tlsa (trim (as_display rd)) = Some raw"
proof -
  have l: "length raw \<ge> 3" and rd: "rd = TLSA (raw ! 0) (raw ! 1) (raw ! 2) (drop 3 raw)"
    using assms(1) by (auto simp: parse_tlsa_def not_less split: if_splits)
  let ?ps = "[dec_w (raw ! 0), dec_w (raw ! 1), dec_w (raw ! 2), hex_encode (drop 3 raw)]"
  have ne: "drop 3 raw \<noteq> []" using assms(2) by (simp add: rd tail_empty_def)
  have "list_all2 token_text ?ps ?ps" using ne by (simp add: token_pieces)
  moreover have "raw ! 0 # raw ! 1 # raw ! 2 # drop 3 raw = raw"
    using l by (auto simp: Suc_le_length_iff numeral_eq_Suc)
  ultimately show ?thesis using line_tokens [of ?ps ?ps] ne
    by (simp add: rd edge_ok_pieces encode_tlsa_def encode_hex_fields_def del: intercalate.simps)
qed

lemma uri_text:
  assumes "parse_uri raw = Some rd"
  shows "encode_uri (trim (as_display rd)) = Some raw"
proof -
  have l: "length raw \<ge> 4"
    and rd: "rd = URI (of_be [raw ! 0, raw ! 1]) (of_be [raw ! 2, raw ! 3]) (drop 4 raw)"
    using assms(1) by (auto simp: parse_uri_def not_less split: if_splits)
  let ?p = "dec_w (of_be [raw ! 0, raw ! 1] :: u16)" and ?w = "dec_w (of_be [raw ! 2, raw ! 3] :: u16)"
  let ?ps = "[?p, ?w, quoted (drop 4 raw)]"
  have "list_all2 token_text ?ps [?p, ?w, concat (map (escape_byte False) (drop 4 raw))]"
    by (simp add: token_pieces)
  from line_tokens [OF this] show ?thesis
    using take_drop_parts(3) [OF l]
    by (simp add: rd edge_ok_pieces encode_uri_def unescape_escapes del: intercalate.simps(3))
qed

end
