(* ===== verification/Message.thy ===== *)
theory Message
  imports Rdata
begin

text \<open>
  \<open>ebpdns-proto/src/message.rs\<close>, \<open>record.rs\<close> and \<open>tcp.rs\<close>: the parsed message, the
  section parser (an OPT record is skipped, a record whose data does not parse is dropped, a
  truncated record fails the message), and the two-byte length frames of DNS over TCP.
\<close>

record question =
  q_name :: str
  qtype :: u16
  qclass :: u16

record resource_record =
  rr_name :: str
  rtype :: u16
  rclass :: u16
  ttl :: u32
  rr_rdata :: rdata

record message =
  msg_id :: u16
  flags :: u16
  qd :: u16
  an :: u16
  ns :: u16
  ar :: u16
  rcode :: u8
  opcode :: u8
  truncated :: bool
  ra :: bool
  rd :: bool
  questions :: "question list"
  answers :: "resource_record list"
  authority :: "resource_record list"
  additional :: "resource_record list"

definition answer_count :: "message \<Rightarrow> u16" where
  "answer_count m = an m"

subsection \<open>Sections\<close>

fun parse_questions :: "bytes \<Rightarrow> nat \<Rightarrow> nat \<Rightarrow> proto_error + (nat \<times> question list)" where
  "parse_questions data 0 pos = Inr (pos, [])"
| "parse_questions data (Suc n) pos =
     bindE (decode_name data pos) (\<lambda>(name, pos).
     if pos + 4 > length data then Inl (Truncated ''truncated question section'')
     else
       bindE (ok_or (be_u16 data pos) (Truncated ''truncated question'')) (\<lambda>qt.
       bindE (ok_or (be_u16 data (pos + 2)) (Truncated ''truncated question'')) (\<lambda>qc.
       bindE (parse_questions data n (pos + 4)) (\<lambda>(pos, qs).
         Inr (pos, \<lparr>q_name = name, qtype = qt, qclass = qc\<rparr> # qs)))))"

fun parse_section :: "bytes \<Rightarrow> nat \<Rightarrow> nat \<Rightarrow> proto_error + (nat \<times> resource_record list)" where
  "parse_section data 0 pos = Inr (pos, [])"
| "parse_section data (Suc n) pos =
     bindE (decode_name data pos) (\<lambda>(name, pos).
     if pos + 10 > length data then Inl (Truncated ''truncated RR header'')
     else
       bindE (ok_or (be_u16 data pos) (Truncated ''truncated RR hdr'')) (\<lambda>rt.
       bindE (ok_or (be_u16 data (pos + 2)) (Truncated ''truncated RR hdr'')) (\<lambda>rc.
       bindE (ok_or (be_u32 data (pos + 4)) (Truncated ''truncated RR hdr'')) (\<lambda>tl.
       bindE (ok_or (be_u16 data (pos + 8)) (Truncated ''truncated RR hdr'')) (\<lambda>rdlen.
       let pos = pos + 10 in
       if rt = TYPE_OPT then
         (if pos + unat rdlen > length data then Inl (Truncated ''truncated OPT rdata'')
          else parse_section data n (pos + unat rdlen))
       else if pos + unat rdlen > length data then Inl (Truncated ''truncated RR rdata'')
       else
         bindE (parse_section data n (pos + unat rdlen)) (\<lambda>(pos', rrs).
           case parse_rdata data pos rt rdlen of
             Some v \<Rightarrow> Inr (pos', \<lparr>rr_name = name, rtype = rt, rclass = rc, ttl = tl, rr_rdata = v\<rparr> # rrs)
           | None \<Rightarrow> Inr (pos', rrs)))))))"

definition parse_message :: "bytes \<Rightarrow> proto_error + message" where
  "parse_message data =
     (if length data < 12 then Inl (Truncated ''message too short'')
      else
        bindE (ok_or (be_u16 data 0) (Malformed ''bad header'')) (\<lambda>i.
        bindE (ok_or (be_u16 data 2) (Malformed ''bad header'')) (\<lambda>fl.
        bindE (ok_or (be_u16 data 4) (Malformed ''bad header'')) (\<lambda>nqd.
        bindE (ok_or (be_u16 data 6) (Malformed ''bad header'')) (\<lambda>nan.
        bindE (ok_or (be_u16 data 8) (Malformed ''bad header'')) (\<lambda>nns.
        bindE (ok_or (be_u16 data 10) (Malformed ''bad header'')) (\<lambda>nar.
        bindE (parse_questions data (unat nqd) 12) (\<lambda>(pos, qs).
        bindE (parse_section data (unat nan) pos) (\<lambda>(pos, ans).
        bindE (parse_section data (unat nns) pos) (\<lambda>(pos, auth).
        bindE (parse_section data (unat nar) pos) (\<lambda>(pos, adds).
          Inr \<lparr>msg_id = i, flags = fl, qd = nqd, an = nan, ns = nns, ar = nar,
               rcode = ucast (fl AND FLAG_RCODE_MASK),
               opcode = ucast (drop_bit 11 (fl AND FLAG_OPCODE_MASK)),
               truncated = (fl AND FLAG_TC \<noteq> 0), ra = (fl AND FLAG_RA \<noteq> 0),
               rd = (fl AND FLAG_RD \<noteq> 0),
               questions = qs, answers = ans, authority = auth, additional = adds\<rparr>)))))))))))"

subsection \<open>TCP frames\<close>

definition tcp_frame :: "bytes \<Rightarrow> proto_error + bytes" where
  "tcp_frame payload =
     (if length payload > 65535 then Inl (Truncated ''tcp frame payload exceeds 65535'')
      else Inr (be16 (word_of_nat (length payload)) @ payload))"

definition parse_tcp_frame :: "bytes \<Rightarrow> proto_error + (bytes \<times> bytes)" where
  "parse_tcp_frame data =
     (if length data < 2 then Inl (Truncated ''incomplete frame header'')
      else let n = unat (of_be [data ! 0, data ! 1] :: u16) in
        if length data < 2 + n then Inl (Truncated ''incomplete frame body'')
        else Inr (slice data 2 n, drop (2 + n) data))"

subsection \<open>Lemmas\<close>

lemma be_u16_Some: "pos + 2 \<le> length data \<Longrightarrow> be_u16 data pos = Some (of_be (slice data pos 2))"
  by (simp add: be_u16_def)

lemma be_u32_Some: "pos + 4 \<le> length data \<Longrightarrow> be_u32 data pos = Some (of_be (slice data pos 4))"
  by (simp add: be_u32_def)

text \<open>A section never holds more records than announced, none of them OPT, and ends in the packet.\<close>

lemma parse_section_sound:
  assumes "parse_section data n pos = Inr (e, rrs)" and "pos \<le> length data"
  shows "length rrs \<le> n \<and> pos \<le> e \<and> e \<le> length data \<and> (\<forall>r \<in> set rrs. rtype r \<noteq> TYPE_OPT)"
  using assms
proof (induction n arbitrary: pos e rrs)
  case (Suc n)
  obtain name p where d: "decode_name data pos = Inr (name, p)"
    using Suc.prems(1) by (cases "decode_name data pos") auto
  note b = decode_name_bounds [OF d]
  have p: "p + 10 \<le> length data" using Suc.prems(1) d by (auto split: if_splits)
  let ?rt = "of_be (slice data p 2) :: u16" and ?len = "of_be (slice data (p + 8) 2) :: u16"
  have r: "p + 10 + unat ?len \<le> length data"
    using Suc.prems(1) d p by (auto simp: be_u16_Some be_u32_Some Let_def split: if_splits)
  show ?case
  proof (cases "?rt = TYPE_OPT")
    case True
    with Suc.prems(1) d p r have "parse_section data n (p + 10 + unat ?len) = Inr (e, rrs)"
      by (auto simp: be_u16_Some be_u32_Some Let_def split: if_splits)
    from Suc.IH [OF this r] b show ?thesis by auto
  next
    case False
    with Suc.prems(1) d p r obtain rs where
      rs: "parse_section data n (p + 10 + unat ?len) = Inr (e, rs)"
      and rrs: "rrs = rs \<or> (\<exists>x. rrs = x # rs \<and> rtype x = ?rt)"
      by (auto simp: be_u16_Some be_u32_Some Let_def bindE_eq_Inr split: if_splits option.splits)
    from Suc.IH [OF rs r] b rrs False show ?thesis by auto
  qed
qed simp

lemma parse_questions_sound:
  "parse_questions data n pos = Inr (e, qs) \<Longrightarrow> pos \<le> length data \<Longrightarrow>
   length qs = n \<and> pos \<le> e \<and> e \<le> length data"
proof (induction n arbitrary: pos e qs)
  case (Suc n)
  obtain name p where d: "decode_name data pos = Inr (name, p)"
    using Suc.prems(1) by (cases "decode_name data pos") auto
  note b = decode_name_bounds [OF d]
  have p: "p + 4 \<le> length data" using Suc.prems(1) d by (auto split: if_splits)
  with Suc.prems(1) d obtain qs' q where "parse_questions data n (p + 4) = Inr (e, qs')" "qs = q # qs'"
    by (auto simp: be_u16_Some bindE_eq_Inr split: if_splits)
  with Suc.IH [OF this(1) p] b show ?case by auto
qed simp

lemma length_2_list: "length xs = 2 \<Longrightarrow> \<exists>a b. xs = [a, b]"
  by (auto simp: numeral_2_eq_2 length_Suc_conv)

lemma tcp_frame_parse:
  "tcp_frame p = Inr f \<Longrightarrow> parse_tcp_frame (f @ rest) = Inr (p, rest)"
proof -
  assume f: "tcp_frame p = Inr f"
  let ?w = "word_of_nat (length p) :: u16"
  have l: "length p \<le> 65535" and fe: "f = be16 ?w @ p"
    using f by (auto simp: tcp_frame_def split: if_splits)
  obtain a b where ab: "be16 ?w = [a, b]"
    using length_2_list [OF length_endian(4) [of ?w]] by blast
  have "unat (of_be [a, b] :: u16) = length p"
    using l by (simp flip: ab add: unat_of_nat_u16)
  then show ?thesis by (simp add: parse_tcp_frame_def fe ab slice_def)
qed

subsection \<open>Properties\<close>

text \<open>
  C6: a message that parses has as many questions as its header says, at most as many records
  per section as announced, and no OPT record among them.
\<close>

theorem parse_message_sound:
  assumes "parse_message data = Inr m"
  shows "length (questions m) = unat (qd m) \<and> length (answers m) \<le> unat (an m)
    \<and> length (authority m) \<le> unat (ns m) \<and> length (additional m) \<le> unat (ar m)
    \<and> TYPE_OPT \<notin> rtype ` set (answers m @ authority m @ additional m)"
proof -
  have l: "12 \<le> length data" using assms by (auto simp: parse_message_def split: if_splits)
  obtain nqd nan nns nar p1 p2 p3 p4 qs as us ds where
    q: "parse_questions data (unat nqd) 12 = Inr (p1, qs)"
    and s: "parse_section data (unat nan) p1 = Inr (p2, as)" "parse_section data (unat nns) p2 = Inr (p3, us)"
      "parse_section data (unat nar) p3 = Inr (p4, ds)"
    and m: "qd m = nqd" "an m = nan" "ns m = nns" "ar m = nar" "questions m = qs" "answers m = as"
      "authority m = us" "additional m = ds"
    using assms l by (auto simp: parse_message_def be_u16_Some bindE_eq_Inr)
  note a = parse_questions_sound [OF q l]
  then have p1: "p1 \<le> length data" by simp
  note b = parse_section_sound [OF s(1) p1]
  then have p2: "p2 \<le> length data" by simp
  note c = parse_section_sound [OF s(2) p2]
  then have p3: "p3 \<le> length data" by simp
  note d = parse_section_sound [OF s(3) p3]
  from a b c d show ?thesis unfolding m by auto
qed

theorem parse_message_sound_witness:
  "\<exists>m. parse_message (replicate 12 0) = Inr m \<and> length (questions m) = 0 \<and> length (answers m) \<le> 0"
proof -
  have "of_be [0, 0] = (0 :: u16)" by (simp add: of_be_def)
  then obtain m where m: "parse_message (replicate 12 0) = Inr m" "qd m = 0" "an m = 0"
    by (simp add: parse_message_def be_u16_def slice_def numeral_eq_Suc)
  with parse_message_sound [OF m(1)] show ?thesis by auto
qed

text \<open>
  A payload of at most 65535 bytes is framed, and the frame is taken off a stream again
  with whatever follows it left over; a longer payload is refused.
\<close>

theorem tcp_frame_roundtrip:
  "case tcp_frame p of
     Inl e \<Rightarrow> length p > 65535 \<and> e = Truncated ''tcp frame payload exceeds 65535''
   | Inr f \<Rightarrow> parse_tcp_frame (f @ rest) = Inr (p, rest) \<and> length f = length p + 2"
  using tcp_frame_parse [of p _ rest] by (auto simp: tcp_frame_def)

end
