(* ===== verification/Edns.thy ===== *)
theory Edns
  imports Message
begin

text \<open>
  \<open>ebpdns-proto/src/edns.rs\<close>: one walk over the question and additional sections of a query
  for its first question, its OPT record and its UDP buffer size; the client-subnet option;
  the padding option that brings a query to a multiple of 128 bytes; and the OPT record.
\<close>

record edns_info =
  qbytes :: "bytes option"
  bufsize :: u16
  opt_bytes :: "bytes option"

definition edns_fallback :: edns_info where
  "edns_fallback = \<lparr>qbytes = None, bufsize = DEFAULT_BUF_SIZE, opt_bytes = None\<rparr>"

subsection \<open>The walk\<close>

text \<open>
  The name of question \<open>qi\<close> from \<open>pos\<close>: the offset behind it, or \<open>None\<close> where the code
  returns early.
\<close>

function question_name_end :: "bytes \<Rightarrow> nat \<Rightarrow> nat \<Rightarrow> nat option" where
  "question_name_end data qi pos =
     (if pos \<ge> length data then None
      else let n = data ! pos in
        if n = 0 then Some (pos + 1)
        else if n AND 0xC0 = 0xC0 then
          (if qi = 0 then None else if pos + 1 \<ge> length data then None else Some (pos + 2))
        else if n AND 0xC0 \<noteq> 0 then None
        else question_name_end data qi (pos + 1 + unat n))"
  by pat_completeness auto
termination by (relation "measure (\<lambda>(d, qi, p). length d - p)") auto

declare question_name_end.simps [simp del]

text \<open>The question section: \<open>Inl\<close> is an early return with the question bytes found so far.\<close>

fun question_loop :: "bytes \<Rightarrow> nat \<Rightarrow> nat \<Rightarrow> nat \<Rightarrow> bytes option \<Rightarrow> edns_info + (nat \<times> bytes option)" where
  "question_loop data 0 qi pos qb = Inr (pos, qb)"
| "question_loop data (Suc n) qi pos qb =
     (let stop = \<lparr>qbytes = (if qi = 0 then None else qb), bufsize = DEFAULT_BUF_SIZE, opt_bytes = None\<rparr> in
      case question_name_end data qi pos of
        None \<Rightarrow> Inl stop
      | Some p \<Rightarrow>
          if p + 4 > length data then Inl stop
          else question_loop data n (qi + 1) (p + 4)
                 (if qi = 0 then Some (slice data pos (p + 4 - pos)) else qb))"

text \<open>
  The owner name of an additional record: the offset behind it and whether the record is
  skipped (bad pointer or label).  A label that reaches the end of the packet stops the walk.
\<close>

function rr_name_end :: "bytes \<Rightarrow> nat \<Rightarrow> nat \<times> bool" where
  "rr_name_end data pos =
     (if pos \<ge> length data then (pos, False)
      else let n = data ! pos in
        if n = 0 then (pos + 1, False)
        else if n AND 0xC0 = 0xC0 then
          (if pos + 1 \<ge> length data then (pos + 2, True)
           else let ptr = unat (n AND 0x3F) * 256 + unat (data ! (pos + 1)) in
             (pos + 2, \<not> (ptr < pos \<and> ptr < length data)))
        else if n AND 0xC0 \<noteq> 0 then (pos, True)
        else rr_name_end data (pos + 1 + unat n))"
  by pat_completeness auto
termination by (relation "measure (\<lambda>(d, p). length d - p)") auto

declare rr_name_end.simps [simp del]

fun additional_loop :: "bytes \<Rightarrow> nat \<Rightarrow> nat \<Rightarrow> u16 \<Rightarrow> bytes option \<Rightarrow> u16 \<times> bytes option" where
  "additional_loop data 0 pos buf opt = (buf, opt)"
| "additional_loop data (Suc n) pos buf opt =
     (if pos \<ge> length data then (buf, opt)
      else let (p, skip_rr) = rr_name_end data pos in
        if p + 10 > length data then (buf, opt)
        else case be_u16 data (p + 8) of
          None \<Rightarrow> (buf, opt)
        | Some rdlen \<Rightarrow>
            (let rr_end = p + 10 + unat rdlen in
             if rr_end > length data then (buf, opt)
             else if skip_rr then additional_loop data n rr_end buf opt
             else if be_u16 data p = Some TYPE_OPT then
               additional_loop data n rr_end
                 (clamp_bufsize_received (case be_u16 data (p + 2) of Some b \<Rightarrow> b | None \<Rightarrow> 0))
                 (Some (slice data pos (rr_end - pos)))
             else additional_loop data n rr_end buf opt))"

definition question_edns_info :: "bytes \<Rightarrow> edns_info" where
  "question_edns_info data =
     (if length data < 12 then edns_fallback
      else case (be_u16 data 4, be_u16 data 10) of
        (Some nqd, Some nar) \<Rightarrow>
          (case question_loop data (unat nqd) 0 12 None of
             Inl info \<Rightarrow> info
           | Inr (pos, qb) \<Rightarrow>
               (let (buf, opt) = additional_loop data (unat nar) pos DEFAULT_BUF_SIZE None in
                \<lparr>qbytes = qb, bufsize = buf, opt_bytes = opt\<rparr>))
      | _ \<Rightarrow> edns_fallback)"

subsection \<open>Options\<close>

definition build_ecs :: "u16 \<Rightarrow> u8 \<Rightarrow> bytes \<Rightarrow> bytes" where
  "build_ecs family src_prefix addr =
     be16 OPTION_ECS @ be16 (word_of_nat (4 + length addr)) @ be16 family @ [src_prefix, 0] @ addr"

definition div_ceil :: "nat \<Rightarrow> nat \<Rightarrow> nat" where
  "div_ceil a b = (a + b - 1) div b"

text \<open>\<open>IpAddr\<close> parses as IPv4 first, then as IPv6.\<close>

definition ecs_option :: "str \<Rightarrow> bytes" where
  "ecs_option subnet =
     (let (addr_part, prefix) =
            (case split_once 47 subnet of
               Some (a, p) \<Rightarrow> (a, case parse_uint 4294967295 p of Some n \<Rightarrow> n | None \<Rightarrow> 32)
             | None \<Rightarrow> (subnet, 32)) in
      case ip4_parse addr_part of
        Some v4 \<Rightarrow>
          (let prefix = min prefix 32 in
           build_ecs 1 (word_of_nat prefix) (take (div_ceil prefix 8) (ip4_octets v4)))
      | None \<Rightarrow>
          (case ip6_parse addr_part of
             Some v6 \<Rightarrow>
               (let prefix = (if 47 \<notin> set subnet then 128 else prefix);
                    prefix = min prefix 128 in
                build_ecs 2 (word_of_nat prefix) (take (div_ceil prefix 8) (ip6_octets v6)))
           | None \<Rightarrow> []))"

definition padding_need :: "nat \<Rightarrow> nat" where
  "padding_need prefix =
     (let need = (PADDING_BLOCK - prefix mod PADDING_BLOCK) mod PADDING_BLOCK;
          need = (if need < 4 then need + PADDING_BLOCK else need) in
      if need > PADDING_MAX then PADDING_MAX else need)"

definition append_padding :: "bytes \<Rightarrow> nat \<Rightarrow> bytes" where
  "append_padding options question_wire_len =
     (let pad_len = padding_need (12 + question_wire_len + 11 + length options) - 4 in
      options @ be16 OPTION_PADDING @ be16 (word_of_nat pad_len) @ replicate pad_len 0)"

definition build_opt_rr :: "u16 \<Rightarrow> bytes \<Rightarrow> bytes" where
  "build_opt_rr sz options =
     [0] @ be16 TYPE_OPT @ be16 sz @ be32 0 @ be16 (word_of_nat (length options)) @ options"

subsection \<open>Lemmas\<close>

lemma padding_need_bounds: "4 \<le> padding_need n \<and> padding_need n \<le> 131"
proof -
  have "(128 - n mod 128) mod 128 < 128" by simp
  then show ?thesis by (simp add: padding_need_def Let_def del: mod_less_divisor)
qed

lemma padding_need_block: "(n + padding_need n) mod 128 = 0"
proof -
  let ?a = "(128 - n mod 128) mod 128"
  have "(n + ?a) mod 128 = (n mod 128 + (128 - n mod 128)) mod 128"
    by (metis mod_add_left_eq mod_add_right_eq)
  also have "\<dots> = 0"
    using mod_less_divisor [of 128 n] by (metis le_add_diff_inverse less_imp_le mod_self zero_less_numeral)
  finally have z: "(n + ?a) mod 128 = 0" .
  then have "(n + (?a + 128)) mod 128 = 0" by (metis add.assoc mod_add_self2)
  moreover have "padding_need n = ?a \<or> padding_need n = ?a + 128"
    using mod_less_divisor [of 128 "128 - n mod 128"]
    by (auto simp: padding_need_def Let_def)
  ultimately show ?thesis using z by metis
qed

lemma length_append_padding:
  "length (append_padding o1 q) = length o1 + padding_need (12 + q + 11 + length o1)"
proof -
  have "4 \<le> padding_need (12 + q + 11 + length o1)" using padding_need_bounds by blast
  then show ?thesis unfolding append_padding_def Let_def by (simp del: numeral_plus_numeral)
qed

lemma length_build_opt_rr [simp]: "length (build_opt_rr s o1) = 11 + length o1"
  by (simp add: build_opt_rr_def)

lemma length_ecs_option: "length (ecs_option s) \<le> 24"
proof -
  have "length (ip6_octets v) = 16" for v by (simp add: ip6_octets_def)
  then show ?thesis
    by (auto simp: ecs_option_def build_ecs_def ip4_octets_def Let_def split: prod.splits option.splits)
qed

text \<open>The clamp: the size reported is never below 512, whatever the packet.\<close>

lemma additional_loop_ge: "512 \<le> b \<Longrightarrow> 512 \<le> fst (additional_loop data n pos b opt)"
  by (induction data n pos b opt rule: additional_loop.induct)
    (auto simp: Let_def clamp_bufsize_received_ge split: prod.splits option.splits)

lemma question_loop_stop: "question_loop data n qi pos qb = Inl i \<Longrightarrow> bufsize i = 512"
  by (induction data n qi pos qb rule: question_loop.induct)
    (auto simp: Let_def split: option.splits if_splits)

lemma edns_bufsize_ge: "512 \<le> bufsize (question_edns_info data)"
  using additional_loop_ge [of DEFAULT_BUF_SIZE data]
  by (auto simp: question_edns_info_def edns_fallback_def question_loop_stop
      split: option.splits sum.splits prod.splits) (metis fst_conv order_refl)

subsection \<open>Properties\<close>

text \<open>The buffer size read from any packet is at least 512 bytes.\<close>

theorem edns_bufsize_min: "512 \<le> bufsize (question_edns_info data)"
  by (rule edns_bufsize_ge)

end
