(* ===== verification/Query.thy ===== *)
theory Query
  imports Edns
begin

text \<open>
  \<open>ebpdns-proto/src/query.rs\<close>: building a query, the 0x20 case randomisation, the question
  name as raw bytes and the comparison that accepts or rejects an answer.  The random number
  generator is a parameter: \<open>rnd\<close> is the id \<open>rand_id\<close> draws, \<open>coins\<close> the sequence of the
  booleans \<open>random_case_name\<close> draws.
\<close>

definition build_query ::
  "unicode_lib \<Rightarrow> u16 \<Rightarrow> str \<Rightarrow> u16 \<Rightarrow> u16 option \<Rightarrow> bool \<Rightarrow> str option \<Rightarrow> u32 option \<Rightarrow> bool
   \<Rightarrow> proto_error + (bytes \<times> u16)" where
  "build_query U rnd domain qt qid0 edns ecs udp_size padding =
     (let qid = (case qid0 of Some i \<Rightarrow> i | None \<Rightarrow> rnd);
          n_ar = (if edns then 1 else 0) in
      bindE (encode_name U domain) (\<lambda>question.
        let out = be16 qid @ be16 FLAG_RD @ be16 1 @ be16 0 @ be16 0 @ be16 n_ar
                  @ question @ be16 qt @ be16 CLASS_IN in
        if edns then
          (let options = (case ecs of Some subnet \<Rightarrow> ecs_option subnet | None \<Rightarrow> []);
               options = (if padding then append_padding options (length question + 4) else options);
               sz = clamp_edns_udp_size udp_size in
           Inr (out @ build_opt_rr sz options, qid))
        else Inr (out, qid)))"

definition ascii_lowercase :: "u8 \<Rightarrow> bool" where
  "ascii_lowercase b \<longleftrightarrow> 97 \<le> b \<and> b \<le> 122"

text \<open>A coin is drawn for a lower-case ASCII letter only.\<close>

fun random_case :: "(nat \<Rightarrow> bool) \<Rightarrow> nat \<Rightarrow> bytes list \<Rightarrow> str" where
  "random_case coins i [] = []"
| "random_case coins i (ch # chs) =
     (case ch of
        [b] \<Rightarrow>
          if ascii_lowercase b then
            (if coins i then upper_byte b else b) # random_case coins (i + 1) chs
          else b # random_case coins i chs
      | _ \<Rightarrow> ch @ random_case coins i chs)"

definition random_case_name :: "(nat \<Rightarrow> bool) \<Rightarrow> str \<Rightarrow> str" where
  "random_case_name coins domain = random_case coins 0 (Text.chars domain)"

subsection \<open>The question name of a packet\<close>

function qname_loop :: "bytes \<Rightarrow> nat \<Rightarrow> nat option" where
  "qname_loop data pos =
     (if pos \<ge> length data then None
      else let n = data ! pos in
        if n = 0 then Some (pos + 1)
        else if n AND 0xC0 \<noteq> 0 \<and> n AND 0xC0 \<noteq> 0xC0 then None
        else if n AND 0xC0 = 0xC0 then None
        else qname_loop data (pos + 1 + unat n))"
  by pat_completeness auto
termination by (relation "measure (\<lambda>(d, p). length d - p)") auto

declare qname_loop.simps [simp del]

definition extract_qname :: "bytes \<Rightarrow> bytes option" where
  "extract_qname data =
     (if length data < 12 then None
      else do {
        nqd \<leftarrow> be_u16 data 4;
        if nqd < 1 then None
        else map_option (\<lambda>e. slice data 12 (e - 12)) (qname_loop data 12) })"

definition check_0x20 :: "bytes \<Rightarrow> bytes \<Rightarrow> bool" where
  "check_0x20 query response =
     (case extract_qname query of
        None \<Rightarrow> True
      | Some qn \<Rightarrow>
          (case extract_qname response of
             None \<Rightarrow> False
           | Some rn \<Rightarrow>
               if length response < 12 \<or> be_u16 response 4 \<noteq> Some 1 then False
               else if qn \<noteq> rn then False
               else let qs = 12 + length qn in
                 if length query \<ge> qs + 4 \<and> length response \<ge> qs + 4
                    \<and> slice query qs 4 \<noteq> slice response qs 4
                 then False else True))"

subsection \<open>Case randomisation changes case only\<close>

lemma lower_upper_byte: "ascii_lowercase b \<Longrightarrow> lower_byte (upper_byte b) = lower_byte b"
proof -
  assume b: "ascii_lowercase b"
  then have u: "97 \<le> unat b" "unat b \<le> 122"
    by (simp_all add: ascii_lowercase_def word_le_nat_alt)
  then have s: "unat (b - 32) = unat b - 32"
    by (simp add: unat_sub word_le_nat_alt)
  have r: "upper_byte b = b - 32" using b by (simp add: upper_byte_def ascii_lowercase_def)
  show ?thesis
    using u s by (simp add: r lower_byte_def word_le_nat_alt) linarith
qed

lemma ascii_lower_random_case: "ascii_lower (random_case coins i chs) = ascii_lower (concat chs)"
  by (induction coins i chs rule: random_case.induct)
    (auto simp: ascii_lower_def lower_upper_byte split: list.splits)

lemma random_case_name_lower: "ascii_lower (random_case_name coins d) = ascii_lower d"
  by (simp add: random_case_name_def ascii_lower_random_case concat_chars)

subsection \<open>A built query\<close>

text \<open>The parts of a successful \<open>build_query\<close>.\<close>

definition query_options :: "str option \<Rightarrow> bool \<Rightarrow> nat \<Rightarrow> bytes" where
  "query_options ecs padding qlen =
     (let o1 = (case ecs of Some subnet \<Rightarrow> ecs_option subnet | None \<Rightarrow> []) in
      if padding then append_padding o1 qlen else o1)"

definition query_additional :: "bool \<Rightarrow> str option \<Rightarrow> u32 option \<Rightarrow> bool \<Rightarrow> nat \<Rightarrow> bytes" where
  "query_additional edns ecs udp_size padding qlen =
     (if edns then build_opt_rr (clamp_edns_udp_size udp_size) (query_options ecs padding qlen) else [])"

definition query_head :: "u16 \<Rightarrow> bool \<Rightarrow> bytes" where
  "query_head qid edns =
     be16 qid @ be16 FLAG_RD @ be16 1 @ be16 0 @ be16 0 @ be16 (if edns then 1 else 0)"

lemma length_query_head [simp]: "length (query_head qid edns) = 12"
  by (simp add: query_head_def)

lemma query_head_fields:
  "be_u16 (query_head qid edns @ r) 0 = Some qid"
  "be_u16 (query_head qid edns @ r) 2 = Some FLAG_RD"
  "be_u16 (query_head qid edns @ r) 4 = Some 1"
  "be_u16 (query_head qid edns @ r) 6 = Some 0"
  "be_u16 (query_head qid edns @ r) 8 = Some 0"
  "be_u16 (query_head qid edns @ r) 10 = Some (if edns then 1 else 0)"
proof -
  have s: "length p = n \<Longrightarrow> be_u16 (p @ be16 w @ t) n = Some w" for p w t n
    by (rule be_u16_append)
  show "be_u16 (query_head qid edns @ r) 0 = Some qid" unfolding query_head_def
    using s [of "[]"] by simp
  show "be_u16 (query_head qid edns @ r) 2 = Some FLAG_RD" unfolding query_head_def
    using s [of "be16 qid"] by simp
  show "be_u16 (query_head qid edns @ r) 4 = Some 1" unfolding query_head_def
    using s [of "be16 qid @ be16 FLAG_RD"] by simp
  show "be_u16 (query_head qid edns @ r) 6 = Some 0" unfolding query_head_def
    using s [of "be16 qid @ be16 FLAG_RD @ be16 1"] by simp
  show "be_u16 (query_head qid edns @ r) 8 = Some 0" unfolding query_head_def
    using s [of "be16 qid @ be16 FLAG_RD @ be16 1 @ be16 0"] by simp
  show "be_u16 (query_head qid edns @ r) 10 = Some (if edns then 1 else 0)" unfolding query_head_def
    using s [of "be16 qid @ be16 FLAG_RD @ be16 1 @ be16 0 @ be16 0"] by simp
qed

lemma build_query_parts:
  assumes "build_query U rnd domain qt qid edns ecs udp_size padding = Inr (q, i)"
  obtains w where "encode_name U domain = Inr w"
    and "i = (case qid of Some i \<Rightarrow> i | None \<Rightarrow> rnd)"
    and "q = query_head i edns @ w @ (be16 qt @ be16 CLASS_IN)
             @ query_additional edns ecs udp_size padding (length w + 4)"
  using assms
  by (cases "encode_name U domain")
    (auto simp: build_query_def query_head_def query_additional_def query_options_def Let_def
      split: if_splits)

lemma length_query_options: "length (query_options ecs padding n) \<le> 155"
proof -
  have "length (case ecs of Some subnet \<Rightarrow> ecs_option subnet | None \<Rightarrow> []) \<le> 24"
    by (cases ecs) (simp_all add: length_ecs_option)
  moreover have "padding_need m \<le> 131" for m using padding_need_bounds by blast
  ultimately show ?thesis
    by (auto simp: query_options_def Let_def length_append_padding intro: add_mono [THEN order_trans])
qed

text \<open>An OPT record is skipped by the section parser.\<close>

lemma build_opt_rr_fields:
  assumes "length pre = p"
  shows "be_u16 (pre @ build_opt_rr sz o1 @ r) (p + 1) = Some TYPE_OPT"
    "be_u16 (pre @ build_opt_rr sz o1 @ r) (p + 3) = Some sz"
    "be_u32 (pre @ build_opt_rr sz o1 @ r) (p + 5) = Some 0"
    "be_u16 (pre @ build_opt_rr sz o1 @ r) (p + 9) = Some (word_of_nat (length o1))"
  using be_u16_append [of "pre @ [0]" "p + 1" TYPE_OPT "be16 sz @ be32 0 @ be16 (word_of_nat (length o1)) @ o1 @ r"]
    be_u16_append [of "pre @ [0] @ be16 TYPE_OPT" "p + 3" sz "be32 0 @ be16 (word_of_nat (length o1)) @ o1 @ r"]
    be_u32_append [of "pre @ [0] @ be16 TYPE_OPT @ be16 sz" "p + 5" 0 "be16 (word_of_nat (length o1)) @ o1 @ r"]
    be_u16_append [of "pre @ [0] @ be16 TYPE_OPT @ be16 sz @ be32 0" "p + 9" "word_of_nat (length o1)" "o1 @ r"]
    assms
  by (simp_all add: build_opt_rr_def)

lemma decode_root_at: "length pre = p \<Longrightarrow> decode_name (pre @ 0 # r) p = Inr ([], p + 1)"
  by (simp add: decode_name_def decode_loop_root)

lemma parse_section_opt:
  assumes "length o1 \<le> 65535" and "length pre = p"
  shows "parse_section (pre @ build_opt_rr sz o1) 1 p = Inr (p + 11 + length o1, [])"
proof -
  let ?d = "pre @ build_opt_rr sz o1"
  note f = build_opt_rr_fields [OF assms(2), of sz o1 "[]", simplified]
  have "decode_name ?d p = Inr ([], p + 1)"
    using decode_root_at [OF assms(2)] by (simp add: build_opt_rr_def)
  moreover have "unat (word_of_nat (length o1) :: u16) = length o1"
    using assms(1) by (simp add: unat_of_nat_u16)
  ultimately show ?thesis
    using assms(2) f by (simp add: numeral_eq_Suc Let_def)
qed

lemma parse_built_query:
  assumes "is_ascii domain"
    and "build_query U rnd domain qt qid edns ecs udp_size padding = Inr (q, i)"
  shows "parse_message q = Inr \<lparr>msg_id = i, flags = FLAG_RD, qd = 1, an = 0, ns = 0,
     ar = (if edns then 1 else 0), rcode = 0, opcode = 0, truncated = False, ra = False, rd = True,
     questions = [\<lparr>q_name = canonical_name domain, qtype = qt, qclass = CLASS_IN\<rparr>],
     answers = [], authority = [], additional = []\<rparr>"
proof -
  obtain w where w: "encode_name U domain = Inr w"
    and q: "q = query_head i edns @ w @ (be16 qt @ be16 CLASS_IN)
             @ query_additional edns ecs udp_size padding (length w + 4)" (is "_ = ?h @ w @ ?t @ ?a")
    using build_query_parts [OF assms(2)] by metis
  have nm: "decode_name q 12 = Inr (canonical_name domain, 12 + length w)"
    using decode_name_encoded [OF assms(1) w, of ?h "?t @ ?a"] by (simp add: q)
  have f1: "be_u16 q (12 + length w) = Some qt"
    using be_u16_append [of "?h @ w" "12 + length w" qt "be16 CLASS_IN @ ?a"] by (simp add: q)
  have f2: "be_u16 q (12 + length w + 2) = Some CLASS_IN"
    using be_u16_append [of "?h @ w @ be16 qt" "12 + length w + 2" CLASS_IN ?a] by (simp add: q)
  have l: "length q \<ge> 12 + length w + 4" by (simp add: q)
  have qs: "parse_questions q (Suc 0) 12 =
      Inr (12 + length w + 4, [\<lparr>q_name = canonical_name domain, qtype = qt, qclass = CLASS_IN\<rparr>])"
    using nm f1 f2 l by simp
  have adds: "\<exists>e. parse_section q (if edns then 1 else 0) (12 + length w + 4) = Inr (e, [])"
  proof (cases edns)
    case True
    have "length (query_options ecs padding (length w + 4)) \<le> 65535"
      using length_query_options [of ecs padding "length w + 4"] by linarith
    from parse_section_opt [OF this, of "?h @ w @ ?t" "12 + length w + 4" "clamp_edns_udp_size udp_size"] True
    show ?thesis by (simp add: q query_additional_def)
  qed simp
  have n: "unat (if edns then 1 else 0 :: u16) = (if edns then 1 else 0)" by simp
  obtain e where "parse_section q (if edns then 1 else 0) (12 + length w + 4) = Inr (e, [])"
    using adds by blast
  moreover note query_head_fields [of i edns "w @ ?t @ ?a", folded q]
  ultimately show ?thesis
    using l qs by (simp add: parse_message_def n)
qed

subsection \<open>The question name read back\<close>

lemma label_head:
  assumes "0 < length l" "length l \<le> 63"
  shows "(word_of_nat (length l) :: u8) \<noteq> 0" "(word_of_nat (length l) :: u8) AND 0xC0 = 0"
    "unat (word_of_nat (length l) :: u8) = length l"
proof -
  let ?w = "word_of_nat (length l) :: u8"
  show u: "unat ?w = length l" using assms(2) by (simp add: unat_of_nat_u8)
  show "?w \<noteq> 0" using assms(1) u by (metis unat_0 less_irrefl)
  show "?w AND 0xC0 = 0"
    unfolding label_byte_iff using assms(2) by (simp add: word_less_nat_alt u)
qed

lemma qname_loop_labels:
  assumes "\<forall>l \<in> set ls. l \<noteq> [] \<and> length l \<le> 63" and "length pre = p"
  shows "qname_loop (pre @ wire_labels ls @ 0 # post) p = Some (p + length (wire_labels ls) + 1)"
  using assms
proof (induction ls arbitrary: pre p)
  case Nil
  then show ?case by (subst qname_loop.simps) (simp add: nth_append_at)
next
  case (Cons l ls)
  let ?w = "word_of_nat (length l) :: u8"
  let ?d = "pre @ ?w # l @ wire_labels ls @ 0 # post"
  have h: "?w \<noteq> 0" "?w AND 0xC0 = 0" "unat ?w = length l"
    using Cons.prems label_head [of l] by auto
  have nth: "?d ! p = ?w" using Cons.prems(2) by (rule nth_append_at)
  have "qname_loop ?d p = qname_loop ((pre @ ?w # l) @ wire_labels ls @ 0 # post) (p + 1 + length l)"
    using h Cons.prems(2) by (subst qname_loop.simps) (simp add: nth)
  also have "\<dots> = Some (p + 1 + length l + length (wire_labels ls) + 1)"
    by (rule Cons.IH) (use Cons.prems in auto)
  finally show ?case by simp
qed

lemma question_name_end_labels:
  assumes "\<forall>l \<in> set ls. l \<noteq> [] \<and> length l \<le> 63" and "length pre = p"
  shows "question_name_end (pre @ wire_labels ls @ 0 # post) qi p = Some (p + length (wire_labels ls) + 1)"
  using assms
proof (induction ls arbitrary: pre p)
  case Nil
  then show ?case by (subst question_name_end.simps) (simp add: nth_append_at)
next
  case (Cons l ls)
  let ?w = "word_of_nat (length l) :: u8"
  let ?d = "pre @ ?w # l @ wire_labels ls @ 0 # post"
  have h: "?w \<noteq> 0" "?w AND 0xC0 = 0" "unat ?w = length l"
    using Cons.prems label_head [of l] by auto
  have nth: "?d ! p = ?w" using Cons.prems(2) by (rule nth_append_at)
  have "question_name_end ?d qi p
      = question_name_end ((pre @ ?w # l) @ wire_labels ls @ 0 # post) qi (p + 1 + length l)"
    using h Cons.prems(2) by (subst question_name_end.simps) (simp add: nth)
  also have "\<dots> = Some (p + 1 + length l + length (wire_labels ls) + 1)"
    by (rule Cons.IH) (use Cons.prems in auto)
  finally show ?case by simp
qed

lemma extract_qname_encoded:
  assumes "is_ascii d" and "encode_name U d = Inr w" and "length h = 12"
    and "be_u16 (h @ w @ r) 4 = Some n" and "1 \<le> n"
  shows "extract_qname (h @ w @ r) = Some w"
proof -
  note e = encode_name_Inr [OF assms(1,2)]
  have "qname_loop (h @ wire_labels (labels_of d) @ 0 # r) 12 = Some (12 + length w)"
    using qname_loop_labels [OF e(3) assms(3)] by (simp add: e(1))
  moreover have "n \<noteq> 0" using assms(5) by auto
  ultimately show ?thesis
    using assms(3,4) by (simp add: extract_qname_def e(1) slice_def not_less)
qed

text \<open>The decision of \<open>check_0x20\<close> on a query and a response that each hold one encoded name.\<close>

lemma check_0x20_decision:
  assumes "is_ascii d" "encode_name U d = Inr w" "length h = 12"
    "be_u16 (h @ w @ t @ r) 4 = Some n" "1 \<le> n" "length t = 4"
  assumes "is_ascii d'" "encode_name U d' = Inr w'" "length h' = 12"
    "be_u16 (h' @ w' @ t' @ r') 4 = Some n'" "1 \<le> n'" "length t' = 4"
  shows "check_0x20 (h @ w @ t @ r) (h' @ w' @ t' @ r') \<longleftrightarrow> n' = 1 \<and> w = w' \<and> t = t'"
proof -
  have q: "extract_qname (h @ w @ t @ r) = Some w"
    by (rule extract_qname_encoded [OF assms(1-5)])
  have a: "extract_qname (h' @ w' @ t' @ r') = Some w'"
    by (rule extract_qname_encoded [OF assms(7-11)])
  have s: "length x = 12 \<Longrightarrow> length z = 4 \<Longrightarrow> slice (x @ y @ z @ u) (12 + length y) 4 = z"
    for x y z u :: bytes
    using slice_append_at [of "x @ y" "12 + length y" z 4 u] by simp
  have "slice (h @ w @ t @ r) (12 + length w) 4 = t" "slice (h' @ w' @ t' @ r') (12 + length w') 4 = t'"
    using s assms(3,6,9,12) by auto
  then show ?thesis
    using assms(3,6,9,10,12) by (auto simp: check_0x20_def q a Let_def)
qed

lemma check_0x20_sound:
  assumes "check_0x20 q r" and "extract_qname q = Some n"
  shows "extract_qname r = Some n \<and> be_u16 r 4 = Some 1
    \<and> (12 + length n + 4 \<le> min (length q) (length r) \<longrightarrow>
         slice q (12 + length n) 4 = slice r (12 + length n) 4)"
  using assms by (auto simp: check_0x20_def Let_def split: option.splits if_splits)

subsection \<open>What the server reads from a built query\<close>

lemma rr_name_end_root: "length pre = p \<Longrightarrow> rr_name_end (pre @ 0 # r) p = (p + 1, False)"
  by (subst rr_name_end.simps) (simp add: nth_append_at)

lemma additional_loop_opt:
  assumes "length o1 \<le> 65535" and "length pre = p"
  shows "additional_loop (pre @ build_opt_rr sz o1) (Suc 0) p b opt
    = (clamp_bufsize_received sz, Some (build_opt_rr sz o1))"
proof -
  let ?d = "pre @ build_opt_rr sz o1"
  note f = build_opt_rr_fields [OF assms(2), of sz o1 "[]", simplified]
  have "rr_name_end ?d p = (p + 1, False)"
    using rr_name_end_root [OF assms(2)] by (simp add: build_opt_rr_def)
  moreover have "unat (word_of_nat (length o1) :: u16) = length o1"
    using assms(1) by (simp add: unat_of_nat_u16)
  moreover have "slice ?d p (11 + length o1) = build_opt_rr sz o1"
    using assms(2) by (simp add: slice_def)
  ultimately show ?thesis
    using assms(2) f by (simp add: numeral_eq_Suc Let_def)
qed

lemma edns_info_build_query:
  assumes "is_ascii domain" and "encode_name U domain = Inr w"
    and "build_query U rnd domain qt qid edns ecs udp_size padding = Inr (q, i)"
  shows "question_edns_info q = \<lparr>qbytes = Some (w @ be16 qt @ be16 CLASS_IN),
     bufsize = (if edns then clamp_edns_udp_size udp_size else 512),
     opt_bytes = (if edns then Some (query_additional True ecs udp_size padding (length w + 4)) else None)\<rparr>"
proof -
  note e = encode_name_Inr [OF assms(1,2)]
  let ?t = "be16 qt @ be16 CLASS_IN"
  have q: "q = query_head i edns @ w @ ?t @ query_additional edns ecs udp_size padding (length w + 4)"
    (is "_ = ?h @ w @ ?t @ ?a")
    using build_query_parts [OF assms(3)] assms(2) by (metis sum.inject(2))
  have "question_name_end (?h @ wire_labels (labels_of domain) @ 0 # ?t @ ?a) 0 12 = Some (12 + length w)"
    using question_name_end_labels [OF e(3) length_query_head] by (simp add: e(1))
  then have qe: "question_name_end q 0 12 = Some (12 + length w)" by (simp add: q e(1))
  have l: "12 + length w + 4 \<le> length q" by (simp add: q)
  have sl: "slice q 12 (length w + 4) = w @ ?t" by (simp add: q slice_def)
  have ql: "question_loop q (Suc 0) 0 12 None = Inr (12 + length w + 4, Some (w @ ?t))"
    using qe l sl by (simp add: Let_def add.commute [of 4])
  have size: "clamp_bufsize_received (clamp_edns_udp_size s) = clamp_edns_udp_size s" for s
  proof -
    let ?v = "clamp_edns_udp_size s"
    have a: "512 \<le> ?v" using clamp_edns_udp_size_bounds by blast
    have b: "\<not> 65535 < ?v"
      using unat_u16_lt [of ?v] by (simp add: word_less_nat_alt del: unat_u16_lt)
    have c: "\<not> ?v < 512" "?v \<noteq> 0" using a by (auto simp: not_less)
    show ?thesis using b c by (simp add: clamp_bufsize_received_def Let_def)
  qed
  have al: "additional_loop q (if edns then Suc 0 else 0) (12 + length w + 4) DEFAULT_BUF_SIZE None
     = (if edns then clamp_edns_udp_size udp_size else 512, if edns then Some ?a else None)"
  proof (cases edns)
    case True
    have "length (query_options ecs padding (length w + 4)) \<le> 65535"
      using length_query_options [of ecs padding "length w + 4"] by linarith
    from additional_loop_opt [OF this, of "?h @ w @ ?t" "12 + length w + 4"] True
    show ?thesis by (simp add: q query_additional_def size)
  qed simp
  have "unat (if edns then 1 else 0 :: u16) = (if edns then Suc 0 else 0)" by simp
  with ql al l query_head_fields [of i edns "w @ ?t @ ?a", folded q] show ?thesis
    by (simp add: question_edns_info_def)
qed

text \<open>A padded query fills whole 128-byte blocks.\<close>

lemma padded_query_length:
  assumes "build_query U rnd domain qt qid True ecs udp_size True = Inr (q, i)"
  shows "length q mod 128 = 0"
proof -
  obtain w where q: "q = query_head i True @ w @ (be16 qt @ be16 CLASS_IN)
             @ query_additional True ecs udp_size True (length w + 4)"
    using build_query_parts [OF assms] by metis
  let ?o = "case ecs of Some subnet \<Rightarrow> ecs_option subnet | None \<Rightarrow> []"
  let ?n = "12 + (length w + 4) + 11 + length ?o"
  have "length q = ?n + padding_need ?n"
    by (simp add: q query_additional_def query_options_def length_append_padding Let_def)
  then show ?thesis using padding_need_block [of ?n] by simp
qed

subsection \<open>Properties\<close>

text \<open>
  The server's parser reads a built query as exactly the query that was asked: its id, RD
  alone among the flags, one question with the name, type and class IN, and no record left
  over once the OPT record is skipped.
\<close>

theorem query_parses:
  assumes "is_ascii domain"
    and "build_query U rnd domain qt qid edns ecs udp_size padding = Inr (q, i)"
  shows "parse_message q = Inr \<lparr>msg_id = i, flags = FLAG_RD, qd = 1, an = 0, ns = 0,
     ar = (if edns then 1 else 0), rcode = 0, opcode = 0, truncated = False, ra = False, rd = True,
     questions = [\<lparr>q_name = canonical_name domain, qtype = qt, qclass = CLASS_IN\<rparr>],
     answers = [], authority = [], additional = []\<rparr>
   \<and> i = (case qid of Some x \<Rightarrow> x | None \<Rightarrow> rnd)"
  using parse_built_query [OF assms] build_query_parts [OF assms(2)] by metis

lemma example_name: "encode_name ascii_unicode [97, 46, 98] = Inr [1, 97, 1, 98, 0]"
  by (simp add: encode_name_def trim_end_dots_def append_label_def)

lemma example_query:
  "\<exists>q. build_query ascii_unicode 0 [97, 46, 98] TYPE_A (Some 7) edns None None padding = Inr (q, 7)"
  by (simp add: build_query_def example_name Let_def)

theorem query_parses_witness:
  "\<exists>q m. build_query ascii_unicode 0 [97, 46, 98] TYPE_A (Some 7) True None None True = Inr (q, 7)
     \<and> parse_message q = Inr m \<and> msg_id m = 7 \<and> q_name (hd (questions m)) = [97, 46, 98]"
proof -
  obtain q where q: "build_query ascii_unicode 0 [97, 46, 98] TYPE_A (Some 7) True None None True = Inr (q, 7)"
    using example_query by blast
  have c: "canonical_name [97, 46, 98] = [97, 46, 98]"
    by (simp add: canonical_name_def labels_of_def trim_end_dots_def)
  show ?thesis using q query_parses [OF _ q] by (simp add: c)
qed

text \<open>
  The one-pass EDNS reader finds in a built query the question bytes, the clamped UDP
  size (512 without EDNS) and the whole OPT record.
\<close>

theorem query_edns_info:
  assumes "is_ascii domain" and "encode_name U domain = Inr w"
    and "build_query U rnd domain qt qid edns ecs udp_size padding = Inr (q, i)"
  shows "question_edns_info q = \<lparr>qbytes = Some (w @ be16 qt @ be16 CLASS_IN),
     bufsize = (if edns then clamp_edns_udp_size udp_size else 512),
     opt_bytes = (if edns then Some (query_additional True ecs udp_size padding (length w + 4)) else None)\<rparr>"
  by (rule edns_info_build_query [OF assms])

theorem query_edns_info_witness:
  "\<exists>q. build_query ascii_unicode 0 [97, 46, 98] TYPE_A (Some 7) True None None False = Inr (q, 7)
     \<and> bufsize (question_edns_info q) = 1232"
proof -
  obtain q where q: "build_query ascii_unicode 0 [97, 46, 98] TYPE_A (Some 7) True None None False = Inr (q, 7)"
    using example_query by blast
  show ?thesis using q query_edns_info [OF _ example_name q] by (simp add: clamp_edns_udp_size_def)
qed

text \<open>A padded EDNS query is a whole number of 128-byte blocks.\<close>

theorem query_padding:
  assumes "build_query U rnd domain qt qid True ecs udp_size True = Inr (q, i)"
  shows "length q mod PADDING_BLOCK = 0"
  by (rule padded_query_length [OF assms])

theorem query_padding_witness:
  "\<exists>q. build_query ascii_unicode 0 [97, 46, 98] TYPE_A (Some 7) True None None True = Inr (q, 7)
     \<and> length q mod PADDING_BLOCK = 0"
proof -
  obtain q where q: "build_query ascii_unicode 0 [97, 46, 98] TYPE_A (Some 7) True None None True = Inr (q, 7)"
    using example_query by blast
  then show ?thesis by (intro exI [of _ q] conjI) (rule q, rule query_padding [OF q])
qed

text \<open>
  C5: \<open>check_0x20\<close> on a query and a response that each carry an encoded name: it accepts
  exactly when the response has one question whose name, compared byte by byte with its
  letter case, and type and class are those of the query.
\<close>

theorem case_check_exact:
  assumes "is_ascii d" "encode_name U d = Inr w" "length h = 12"
    "be_u16 (h @ w @ t @ r) 4 = Some n" "1 \<le> n" "length t = 4"
  assumes "is_ascii d'" "encode_name U d' = Inr w'" "length h' = 12"
    "be_u16 (h' @ w' @ t' @ r') 4 = Some n'" "1 \<le> n'" "length t' = 4"
  shows "check_0x20 (h @ w @ t @ r) (h' @ w' @ t' @ r') \<longleftrightarrow> n' = 1 \<and> w = w' \<and> t = t'"
  by (rule check_0x20_decision [OF assms])

theorem case_check_exact_witness:
  "\<not> check_0x20 (query_head 1 False @ [1, 97, 0] @ be16 1 @ be16 1 @ [])
      (query_head 1 False @ [1, 65, 0] @ be16 1 @ be16 1 @ [])"
proof -
  have a: "encode_name ascii_unicode [97] = Inr [1, 97, 0]" "encode_name ascii_unicode [65] = Inr [1, 65, 0]"
    by (simp_all add: encode_name_def trim_end_dots_def append_label_def)
  have "check_0x20 (query_head 1 False @ [1, 97, 0] @ (be16 1 @ be16 1) @ [])
      (query_head 1 False @ [1, 65, 0] @ (be16 1 @ be16 1) @ []) \<longleftrightarrow>
      (1 :: u16) = 1 \<and> [1, 97, 0 :: u8] = [1, 65, 0] \<and> be16 1 @ be16 1 = be16 1 @ be16 1"
    by (rule case_check_exact [OF _ a(1) _ _ _ _ _ a(2), where n = 1 and n' = 1])
      (simp_all add: query_head_fields)
  then show ?thesis by simp
qed

text \<open>
  For arbitrary packets, an accepted response repeats the query's question name and has one
  question; the type and class are compared when both packets hold them.
\<close>

theorem case_check_sound:
  assumes "check_0x20 q r" and "extract_qname q = Some n"
  shows "extract_qname r = Some n \<and> be_u16 r 4 = Some 1
    \<and> (12 + length n + 4 \<le> min (length q) (length r) \<longrightarrow>
         slice q (12 + length n) 4 = slice r (12 + length n) 4)"
  by (rule check_0x20_sound [OF assms])

theorem case_check_sound_witness:
  "be_u16 (query_head 1 False @ [0] @ be16 1 @ be16 1) 4 = Some 1"
proof -
  let ?q = "query_head 1 False @ [0] @ be16 1 @ be16 1"
  have e: "encode_name ascii_unicode [] = Inr [0]" by (simp add: encode_name_def trim_end_dots_def)
  have x: "extract_qname ?q = Some [0]"
    using extract_qname_encoded [OF _ e, of "query_head 1 False" "be16 1 @ be16 1" 1]
    by (simp add: query_head_fields)
  have "check_0x20 ?q ?q"
    using check_0x20_decision [OF _ e _ _ _ _ _ e, of "query_head 1 False" "be16 1 @ be16 1" "[]" 1
        "query_head 1 False" "be16 1 @ be16 1" "[]" 1]
    by (simp add: query_head_fields)
  then show ?thesis using case_check_sound [OF _ x] by blast
qed

text \<open>0x20 randomisation changes letter case only, whatever the coins.\<close>

theorem random_case_same_name:
  "ascii_lower (random_case_name coins d) = ascii_lower d \<and> length (random_case_name coins d) = length d"
  using random_case_name_lower [of coins d] by (metis ascii_lower_def length_map)

end
