(* ===== verification/Response.thy ===== *)
theory Response
  imports Query
begin

text \<open>
  \<open>ebpdns-proto/src/response.rs\<close>: the response header, the answer section (a record whose
  data does not encode is skipped), and the builders of UDP, simple and error responses.
  The lemmas: every response has the header the builder declares, \<open>build_udp_response\<close> never
  writes more than the client's buffer size (or the question and OPT alone, when they are
  larger), it announces exactly the records it wrote, and TC is set whenever one was dropped
  for size or number.
\<close>

record answer_input =
  ai_rtype :: u16
  ai_value :: str
  ai_ttl :: "u32 option"
  ai_name :: "str option"

definition answer_new :: "u16 \<Rightarrow> str \<Rightarrow> answer_input" where
  "answer_new t v = \<lparr>ai_rtype = t, ai_value = v, ai_ttl = None, ai_name = None\<rparr>"

definition with_ttl :: "u32 \<Rightarrow> answer_input \<Rightarrow> answer_input" where
  "with_ttl t a = a\<lparr>ai_ttl := Some t\<rparr>"

definition with_name :: "str \<Rightarrow> answer_input \<Rightarrow> answer_input" where
  "with_name n a = a\<lparr>ai_name := Some n\<rparr>"

subsection \<open>Header\<close>

definition response_flags :: "u16 \<Rightarrow> u8 \<Rightarrow> bool \<Rightarrow> u16" where
  "response_flags fl rc tc =
     (let f = (fl AND FLAG_KEEP_MASK) OR FLAG_QR_RA OR (ucast rc AND FLAG_RCODE_MASK) in
      if tc then f OR FLAG_TC else f)"

definition build_response_header_qd ::
  "bytes \<Rightarrow> u8 \<Rightarrow> u16 \<Rightarrow> u16 \<Rightarrow> bool \<Rightarrow> u16 \<Rightarrow> bytes option" where
  "build_response_header_qd query rc qd_count an_count tc ar_count =
     (if length query < 12 then None
      else Some ([query ! 0, query ! 1] @ be16 (response_flags (of_be [query ! 2, query ! 3]) rc tc)
                 @ be16 qd_count @ be16 an_count @ be16 0 @ be16 ar_count))"

definition build_response_header :: "bytes \<Rightarrow> u8 \<Rightarrow> u16 \<Rightarrow> bool \<Rightarrow> u16 \<Rightarrow> bytes option" where
  "build_response_header query rc an_count tc ar_count =
     build_response_header_qd query rc 1 an_count tc ar_count"

subsection \<open>Answers\<close>

definition owner_bytes :: "unicode_lib \<Rightarrow> str option \<Rightarrow> bytes option \<Rightarrow> bytes" where
  "owner_bytes U owner_name enc_owner =
     (case enc_owner of
        Some b \<Rightarrow> b
      | None \<Rightarrow> (case owner_name of
          Some n \<Rightarrow> (case encode_name U n of Inr w \<Rightarrow> w | Inl _ \<Rightarrow> [0])
        | None \<Rightarrow> [0]))"

definition encode_answer :: "unicode_lib \<Rightarrow> bytes \<Rightarrow> u16 \<Rightarrow> u32 option \<Rightarrow> answer_input \<Rightarrow> bytes option" where
  "encode_answer U enc_owner fallback_type ttl_override a =
     (let rt = (if ai_rtype a \<noteq> 0 then ai_rtype a else fallback_type) in
      case encode_rdata U rt (ai_value a) of
        None \<Rightarrow> None
      | Some rdata \<Rightarrow>
          (let owner = (case ai_name a of
                 Some n \<Rightarrow> (case encode_name U n of Inr w \<Rightarrow> w | Inl _ \<Rightarrow> enc_owner)
               | None \<Rightarrow> enc_owner);
               ttl_raw = (case ttl_override of
                 Some t \<Rightarrow> t
               | None \<Rightarrow> (case ai_ttl a of Some t \<Rightarrow> t | None \<Rightarrow> TTL_DEFAULT));
               t = clamp_ttl (ucast ttl_raw) in
           Some (owner @ be16 rt @ be16 CLASS_IN @ be32 t @ be16 (word_of_nat (length rdata)) @ rdata)))"

fun answers_loop ::
  "unicode_lib \<Rightarrow> bytes \<Rightarrow> u16 \<Rightarrow> u32 option \<Rightarrow> answer_input list \<Rightarrow> bytes \<Rightarrow> nat \<Rightarrow> bytes \<times> nat" where
  "answers_loop U own ft ttlo [] out n = (out, n)"
| "answers_loop U own ft ttlo (a # as) out n =
     (case encode_answer U own ft ttlo a of
        None \<Rightarrow> answers_loop U own ft ttlo as out n
      | Some chunk \<Rightarrow> answers_loop U own ft ttlo as (out @ chunk) (n + 1))"

definition build_response_body_answers ::
  "unicode_lib \<Rightarrow> answer_input list \<Rightarrow> str option \<Rightarrow> u16 \<Rightarrow> u32 option \<Rightarrow> bytes option \<Rightarrow> bytes \<times> nat" where
  "build_response_body_answers U as owner_name fallback_type ttl_override enc_owner =
     answers_loop U (owner_bytes U owner_name enc_owner) fallback_type ttl_override as [] 0"

subsection \<open>Responses\<close>

definition unwrap_bytes :: "bytes option \<Rightarrow> bytes" where
  "unwrap_bytes x = (case x of Some b \<Rightarrow> b | None \<Rightarrow> [])"

definition build_simple_response :: "bytes \<Rightarrow> u8 \<Rightarrow> bytes option" where
  "build_simple_response raw_query rc =
     (if length raw_query < 12 then None
      else let info = question_edns_info raw_query;
               qb = unwrap_bytes (qbytes info);
               ar_count = (if opt_bytes info \<noteq> None then 1 else 0);
               opt = unwrap_bytes (opt_bytes info);
               qd_count = (if qb = [] then 0 else 1) in
        map_option (\<lambda>header. header @ qb @ opt)
          (build_response_header_qd raw_query rc qd_count 0 False ar_count))"

record udp_resp =
  raw_query :: bytes
  ur_qbytes :: "bytes option"
  ur_answers :: "answer_input list"
  ur_rcode :: u8
  abody :: "bytes option"
  abody_count :: "nat option"
  owner_name :: "str option"
  fallback_type :: u16
  ttl_override :: "u32 option"
  bufsize_cap :: "u16 option"
  force_truncated :: bool
  enc_owner :: "bytes option"
  edns_info_in :: "edns_info option"

text \<open>
  The loop over the answers: \<open>out\<close> starts as the question bytes; the result is the body, the
  number of records kept and the truncation flag.
\<close>

fun udp_loop ::
  "unicode_lib \<Rightarrow> udp_resp \<Rightarrow> bytes \<Rightarrow> nat \<Rightarrow> nat \<Rightarrow> answer_input list \<Rightarrow> bytes \<Rightarrow> nat \<Rightarrow> bool
   \<Rightarrow> bytes \<times> nat \<times> bool" where
  "udp_loop U c own opt_len limit [] out kept tc = (out, kept, tc)"
| "udp_loop U c own opt_len limit (a # as) out kept tc =
     (let chunk = fst (build_response_body_answers U [a] (owner_name c) (fallback_type c)
                         (ttl_override c) (Some own)) in
      if chunk = [] then udp_loop U c own opt_len limit as out kept tc
      else if 12 + length out + length chunk + opt_len > limit then (out, kept, True)
      else udp_loop U c own opt_len limit as (out @ chunk) (kept + 1) tc)"

definition response_limit :: "edns_info \<Rightarrow> u16 option \<Rightarrow> u16" where
  "response_limit info cap = (case cap of Some c \<Rightarrow> min (bufsize info) c | None \<Rightarrow> bufsize info)"

definition build_udp_response :: "unicode_lib \<Rightarrow> udp_resp \<Rightarrow> bytes option" where
  "build_udp_response U c =
     (if length (raw_query c) < 12 then None
      else let qb = unwrap_bytes (ur_qbytes c);
               info = (case edns_info_in c of Some i \<Rightarrow> i | None \<Rightarrow> question_edns_info (raw_query c));
               limit = unat (response_limit info (bufsize_cap c));
               opt = unwrap_bytes (opt_bytes info);
               opt_len = length opt;
               ar_count = (if opt_bytes info \<noteq> None then 1 else 0);
               n_in = length (ur_answers c);
               trimmed = take (min n_in MAX_ANSWERS) (ur_answers c);
               force_tc = (force_truncated c \<or> n_in > MAX_ANSWERS);
               slow =
                 (let (out, kept, tc) = udp_loop U c (owner_bytes U (owner_name c) (enc_owner c))
                        opt_len limit trimmed qb 0 force_tc in
                  map_option (\<lambda>header. header @ out @ opt)
                    (build_response_header (raw_query c) (ur_rcode c) (word_of_nat kept) tc ar_count)) in
        case abody c of
          Some ab \<Rightarrow>
            (if n_in \<le> MAX_ANSWERS \<and> 12 + length qb + length ab + opt_len \<le> limit then
               (let an_count = (case abody_count c of
                      Some n \<Rightarrow> word_of_nat n | None \<Rightarrow> word_of_nat (length trimmed)) in
                map_option (\<lambda>header. header @ qb @ ab @ opt)
                  (build_response_header (raw_query c) (ur_rcode c) an_count force_tc ar_count))
             else slow)
        | None \<Rightarrow> slow)"

definition build_response ::
  "unicode_lib \<Rightarrow> bytes \<Rightarrow> str \<Rightarrow> u16 \<Rightarrow> answer_input list \<Rightarrow> u8 \<Rightarrow> u16 option \<Rightarrow> u32 option \<Rightarrow> bool
   \<Rightarrow> bytes option" where
  "build_response U query domain qt as rc cap ttlo tc =
     (if length query < 12 then None
      else let n_in = length as;
               trimmed = take (min n_in MAX_ANSWERS) as;
               count_tc = (n_in > MAX_ANSWERS);
               info = question_edns_info query;
               built = (case encode_name U domain of Inr w \<Rightarrow> w | Inl _ \<Rightarrow> [])
                       @ be16 qt @ be16 CLASS_IN;
               qb = (case qbytes info of Some q \<Rightarrow> (if q \<noteq> [] then q else built) | None \<Rightarrow> built) in
        build_udp_response U
          \<lparr>raw_query = query, ur_qbytes = Some qb, ur_answers = trimmed, ur_rcode = rc,
           abody = None, abody_count = None, owner_name = Some domain, fallback_type = qt,
           ttl_override = ttlo, bufsize_cap = cap, force_truncated = (tc \<or> count_tc),
           enc_owner = None, edns_info_in = Some info\<rparr>)"

definition build_error_response :: "bytes \<Rightarrow> u8 \<Rightarrow> bytes option" where
  "build_error_response query rc =
     (if length query < 12 then None
      else let info = question_edns_info query;
               qb = unwrap_bytes (qbytes info);
               opt_count = (if opt_bytes info \<noteq> None then 1 else 0);
               opt = unwrap_bytes (opt_bytes info);
               declared_qd = (if qb = [] then 0 else 1) in
        map_option (\<lambda>header. header @ qb @ opt)
          (build_response_header_qd query rc declared_qd 0 False opt_count))"

definition build_error_response_short :: "bytes \<Rightarrow> u8 \<Rightarrow> bytes option" where
  "build_error_response_short query rc =
     Some ((if length query \<ge> 2 then take 2 query else be16 0)
       @ be16 (FLAG_QR_RA OR (ucast rc AND FLAG_RCODE_MASK))
       @ be16 0 @ be16 0 @ be16 0 @ be16 0)"

definition qd_count_of :: "bytes \<Rightarrow> u16 option" where
  "qd_count_of query = be_u16 query 4"

subsection \<open>Header lemmas\<close>

lemma length_header:
  "build_response_header_qd q rc nqd nan tc nar = Some h \<Longrightarrow> length h = 12"
  by (auto simp: build_response_header_qd_def split: if_splits)

text \<open>The flag word: opcode, RD and CD of the query, QR and RA set, the response code, TC as asked.\<close>

lemma response_flags_bits:
  "response_flags fl rc tc AND 0x8080 = 0x8080"
  "response_flags fl rc tc AND 0x7910 = fl AND 0x7910"
  "response_flags fl rc tc AND 0x000F = ucast rc AND 0x000F"
  "response_flags fl rc tc AND 0x0200 = (if tc then 0x0200 else 0)"
proof -
  have "\<And>x y z. (x OR y) AND z = (x AND z) OR (y AND z :: u16)" by (rule bit.conj_disj_distrib2)
  note d = this
  have a: "(fl AND m) AND k = fl AND (m AND k)" "(ucast rc AND m) AND k = ucast rc AND (m AND k :: u16)" for m k
    by (simp_all add: and.assoc)
  show "response_flags fl rc tc AND 0x8080 = 0x8080"
    "response_flags fl rc tc AND 0x7910 = fl AND 0x7910"
    "response_flags fl rc tc AND 0x000F = ucast rc AND 0x000F"
    "response_flags fl rc tc AND 0x0200 = (if tc then 0x0200 else 0)"
    by (simp_all add: response_flags_def Let_def d a)
qed

lemma header_fields:
  assumes "build_response_header_qd q rc nqd nan tc nar = Some h"
  shows "be_u16 (h @ r) 0 = be_u16 q 0"
    "be_u16 (h @ r) 2 = Some (response_flags (of_be [q ! 2, q ! 3]) rc tc)"
    "be_u16 (h @ r) 4 = Some nqd" "be_u16 (h @ r) 6 = Some nan"
    "be_u16 (h @ r) 8 = Some 0" "be_u16 (h @ r) 10 = Some nar"
proof -
  let ?i = "[q ! 0, q ! 1]" and ?f = "be16 (response_flags (of_be [q ! 2, q ! 3]) rc tc)"
  have l: "length q \<ge> 12"
    and h: "h = ?i @ ?f @ be16 nqd @ be16 nan @ be16 0 @ be16 nar"
    using assms by (auto simp: build_response_header_qd_def split: if_splits)
  have s: "length p = n \<Longrightarrow> be_u16 (p @ be16 w @ t) n = Some w" for p w t n
    by (rule be_u16_append)
  have "q = q ! 0 # q ! 1 # drop 2 q"
    using l by (auto simp: Suc_le_length_iff numeral_eq_Suc)
  then have "slice q 0 2 = ?i" by (metis slice_prefix append_Cons append_Nil length_Cons list.size(3) numeral_2_eq_2)
  then show "be_u16 (h @ r) 0 = be_u16 q 0" using l by (simp add: h be_u16_def slice_def)
  show "be_u16 (h @ r) 2 = Some (response_flags (of_be [q ! 2, q ! 3]) rc tc)"
    unfolding h using s [of "?i" 2] by simp
  show "be_u16 (h @ r) 4 = Some nqd" unfolding h using s [of "?i @ ?f"] by simp
  show "be_u16 (h @ r) 6 = Some nan" unfolding h using s [of "?i @ ?f @ be16 nqd"] by simp
  show "be_u16 (h @ r) 8 = Some 0" unfolding h using s [of "?i @ ?f @ be16 nqd @ be16 nan"] by simp
  show "be_u16 (h @ r) 10 = Some nar" unfolding h using s [of "?i @ ?f @ be16 nqd @ be16 nan @ be16 0"] by simp
qed

subsection \<open>Answers and limits\<close>

lemma answers_loop_acc:
  "answers_loop U own ft ttlo as out n =
     (out @ fst (answers_loop U own ft ttlo as [] 0), n + snd (answers_loop U own ft ttlo as [] 0))"
proof (induction as arbitrary: out n)
  case (Cons a as)
  show ?case
  proof (cases "encode_answer U own ft ttlo a")
    case None
    then show ?thesis using Cons.IH [of out n] by simp
  next
    case (Some chunk)
    then show ?thesis
      using Cons.IH [of "out @ chunk" "n + 1"] Cons.IH [of chunk 1] by simp
  qed
qed simp

lemma encode_answer_not_Nil: "encode_answer U own ft ttlo a = Some c \<Longrightarrow> 10 \<le> length c"
  by (auto simp: encode_answer_def Let_def split: option.splits)

definition answer_chunk :: "unicode_lib \<Rightarrow> udp_resp \<Rightarrow> bytes \<Rightarrow> answer_input \<Rightarrow> bytes option" where
  "answer_chunk U c own a = encode_answer U own (fallback_type c) (ttl_override c) a"

lemma udp_loop_chunk:
  "fst (build_response_body_answers U [a] n ft ttlo (Some own))
     = (case encode_answer U own ft ttlo a of Some ch \<Rightarrow> ch | None \<Rightarrow> [])"
  by (simp add: build_response_body_answers_def owner_bytes_def split: option.split)

text \<open>
  The loop keeps a prefix of the encodable answers: all of them, or the longest that fits
  the limit, and then the flag is set.
\<close>

lemma udp_loop_result:
  assumes "udp_loop U c own opt_len limit as out kept tc = (out', kept', tc')"
    and "12 + length out + opt_len \<le> L" and "limit \<le> L"
  shows "\<exists>n. (let cs = List.map_filter (answer_chunk U c own) as in
     n \<le> length cs \<and> out' = out @ concat (take n cs) \<and> kept' = kept + n
     \<and> (n < length cs \<longrightarrow> tc' \<and> 12 + length out' + length (cs ! n) + opt_len > limit)
     \<and> (n = length cs \<longrightarrow> tc' = tc))
     \<and> 12 + length out' + opt_len \<le> L"
  using assms
proof (induction as arbitrary: out kept)
  case Nil
  then show ?case by (auto simp: map_filter_simps)
next
  case (Cons a as)
  show ?case
  proof (cases "answer_chunk U c own a")
    case None
    then have "udp_loop U c own opt_len limit as out kept tc = (out', kept', tc')"
      using Cons.prems(1) by (simp add: udp_loop_chunk answer_chunk_def)
    from Cons.IH [OF this Cons.prems(2,3)] None show ?thesis by (simp add: map_filter_simps)
  next
    case (Some ch)
    then have ne: "ch \<noteq> []" using encode_answer_not_Nil by (fastforce simp: answer_chunk_def)
    let ?cs = "List.map_filter (answer_chunk U c own) as"
    have cs: "List.map_filter (answer_chunk U c own) (a # as) = ch # ?cs"
      using Some by (simp add: map_filter_simps)
    have st: "(if 12 + length out + length ch + opt_len > limit then (out, kept, True)
       else udp_loop U c own opt_len limit as (out @ ch) (kept + 1) tc) = (out', kept', tc')"
      using Cons.prems(1) Some ne by (simp add: udp_loop_chunk answer_chunk_def)
    show ?thesis
    proof (cases "12 + length out + length ch + opt_len > limit")
      case True
      with st Cons.prems(2) show ?thesis unfolding cs by (intro exI [of _ 0]) auto
    next
      case False
      with st have "udp_loop U c own opt_len limit as (out @ ch) (kept + 1) tc = (out', kept', tc')" by simp
      moreover have "12 + length (out @ ch) + opt_len \<le> L" using False Cons.prems(3) by simp
      ultimately have "\<exists>n. n \<le> length ?cs \<and> out' = (out @ ch) @ concat (take n ?cs)
        \<and> kept' = kept + 1 + n
        \<and> (n < length ?cs \<longrightarrow> tc' \<and> 12 + length out' + length (?cs ! n) + opt_len > limit)
        \<and> (n = length ?cs \<longrightarrow> tc' = tc) \<and> 12 + length out' + opt_len \<le> L"
        using Cons.IH [of "out @ ch" "kept + 1"] Cons.prems(3) unfolding Let_def by simp
      then obtain n where n: "n \<le> length ?cs" "out' = (out @ ch) @ concat (take n ?cs)"
        "kept' = kept + 1 + n"
        "n < length ?cs \<longrightarrow> tc' \<and> 12 + length out' + length (?cs ! n) + opt_len > limit"
        "n = length ?cs \<longrightarrow> tc' = tc" "12 + length out' + opt_len \<le> L"
        by blast
      then show ?thesis unfolding cs Let_def by (intro exI [of _ "Suc n"]) auto
    qed
  qed
qed

text \<open>The parts of \<open>build_udp_response\<close>, by name.\<close>

definition udp_info :: "udp_resp \<Rightarrow> edns_info" where
  "udp_info c = (case edns_info_in c of Some i \<Rightarrow> i | None \<Rightarrow> question_edns_info (raw_query c))"

definition udp_limit :: "udp_resp \<Rightarrow> nat" where
  "udp_limit c = unat (response_limit (udp_info c) (bufsize_cap c))"

definition udp_opt :: "udp_resp \<Rightarrow> bytes" where
  "udp_opt c = unwrap_bytes (opt_bytes (udp_info c))"

definition udp_chunks :: "unicode_lib \<Rightarrow> udp_resp \<Rightarrow> bytes list" where
  "udp_chunks U c = List.map_filter (answer_chunk U c (owner_bytes U (owner_name c) (enc_owner c)))
     (take (min (length (ur_answers c)) MAX_ANSWERS) (ur_answers c))"

definition udp_forced :: "udp_resp \<Rightarrow> bool" where
  "udp_forced c \<longleftrightarrow> force_truncated c \<or> length (ur_answers c) > MAX_ANSWERS"

lemma length_map_filter_le: "length (List.map_filter f xs) \<le> length xs"
  by (induction xs) (auto simp: map_filter_simps split: option.splits)

lemma length_udp_chunks: "length (udp_chunks U c) \<le> 8"
proof -
  have "length (udp_chunks U c) \<le> length (take (min (length (ur_answers c)) MAX_ANSWERS) (ur_answers c))"
    unfolding udp_chunks_def by (rule length_map_filter_le)
  then show ?thesis by simp
qed

lemma udp_response_records:
  assumes "build_udp_response U c = Some r" and "abody c = None"
    and "12 + length (unwrap_bytes (ur_qbytes c)) + length (udp_opt c) \<le> udp_limit c"
  shows "\<exists>n h. n \<le> length (udp_chunks U c)
     \<and> r = h @ unwrap_bytes (ur_qbytes c) @ concat (take n (udp_chunks U c)) @ udp_opt c
     \<and> build_response_header (raw_query c) (ur_rcode c) (word_of_nat n)
         (udp_forced c \<or> n < length (udp_chunks U c)) (if opt_bytes (udp_info c) \<noteq> None then 1 else 0) = Some h
     \<and> length r \<le> udp_limit c
     \<and> (n < length (udp_chunks U c) \<longrightarrow> length r + length (udp_chunks U c ! n) > udp_limit c)"
proof -
  let ?own = "owner_bytes U (owner_name c) (enc_owner c)" and ?qb = "unwrap_bytes (ur_qbytes c)"
  let ?as = "take (min (length (ur_answers c)) MAX_ANSWERS) (ur_answers c)"
  have q: "\<not> length (raw_query c) < 12"
    using assms(1) by (auto simp: build_udp_response_def)
  obtain out kept tc where l: "udp_loop U c ?own (length (udp_opt c)) (udp_limit c) ?as ?qb 0 (udp_forced c)
      = (out, kept, tc)" by (metis prod_cases3)
  from assms(1,2) q l obtain h where r: "r = h @ out @ udp_opt c"
    and h: "build_response_header (raw_query c) (ur_rcode c) (word_of_nat kept) tc
          (if opt_bytes (udp_info c) \<noteq> None then 1 else 0) = Some h"
    by (auto simp: build_udp_response_def Let_def simp flip: udp_info_def udp_opt_def udp_limit_def udp_forced_def)
  from udp_loop_result [OF l assms(3) order_refl] obtain n where
    n: "n \<le> length (udp_chunks U c)" "out = ?qb @ concat (take n (udp_chunks U c))" "kept = n"
      "n < length (udp_chunks U c) \<longrightarrow>
         tc \<and> 12 + length out + length (udp_chunks U c ! n) + length (udp_opt c) > udp_limit c"
      "n = length (udp_chunks U c) \<longrightarrow> tc = udp_forced c"
      "12 + length out + length (udp_opt c) \<le> udp_limit c"
    unfolding Let_def by (auto simp flip: udp_chunks_def)
  have lh: "length h = 12" using h length_header by (simp add: build_response_header_def)
  have tc: "tc = (udp_forced c \<or> n < length (udp_chunks U c))"
    using n(1,4,5) by (cases "n < length (udp_chunks U c)") auto
  show ?thesis
    using n h r lh by (intro exI [of _ n] exI [of _ h]) (auto simp: tc)
qed

lemma udp_response_bound:
  assumes "build_udp_response U c = Some r"
  shows "length r \<le> max (udp_limit c) (12 + length (unwrap_bytes (ur_qbytes c)) + length (udp_opt c))"
proof -
  let ?own = "owner_bytes U (owner_name c) (enc_owner c)" and ?qb = "unwrap_bytes (ur_qbytes c)"
  let ?as = "take (min (length (ur_answers c)) MAX_ANSWERS) (ur_answers c)"
  let ?L = "max (udp_limit c) (12 + length ?qb + length (udp_opt c))"
  have q: "\<not> length (raw_query c) < 12"
    using assms(1) by (auto simp: build_udp_response_def)
  obtain out kept tc where l: "udp_loop U c ?own (length (udp_opt c)) (udp_limit c) ?as ?qb 0 (udp_forced c)
      = (out, kept, tc)" by (metis prod_cases3)
  have b: "12 + length out + length (udp_opt c) \<le> ?L"
    using udp_loop_result [OF l, of ?L] by auto
  from assms q l consider h nan tc' nar ab where "r = h @ ?qb @ ab @ udp_opt c"
      "build_response_header (raw_query c) (ur_rcode c) nan tc' nar = Some h"
      "12 + length ?qb + length ab + length (udp_opt c) \<le> udp_limit c"
    | h nan tc' nar where "r = h @ out @ udp_opt c"
      "build_response_header (raw_query c) (ur_rcode c) nan tc' nar = Some h"
    by (auto simp: build_udp_response_def Let_def split: option.splits if_splits
        simp flip: udp_info_def udp_opt_def udp_limit_def udp_forced_def)
  then show ?thesis
    using b length_header by cases (fastforce simp: build_response_header_def)+
qed

subsection \<open>Properties\<close>

text \<open>
  A UDP response never exceeds the limit (the client's buffer size, capped by the server),
  except that the header, question and OPT record are always sent.
\<close>

theorem udp_response_limit:
  assumes "build_udp_response U c = Some r"
  shows "length r \<le> max (udp_limit c) (12 + length (unwrap_bytes (ur_qbytes c)) + length (udp_opt c))"
  by (rule udp_response_bound [OF assms])


definition example_udp :: udp_resp where
  "example_udp = \<lparr>raw_query = replicate 12 0, ur_qbytes = None, ur_answers = [answer_new TYPE_A (lit ''x'')],
     ur_rcode = 3, abody = None, abody_count = None, owner_name = None, fallback_type = TYPE_A,
     ttl_override = None, bufsize_cap = None, force_truncated = False, enc_owner = None,
     edns_info_in = None\<rparr>"

lemma example_udp_info: "udp_info example_udp = \<lparr>qbytes = None, bufsize = 512, opt_bytes = None\<rparr>"
proof -
  have "of_be [0, 0] = (0 :: u16)" by (simp add: of_be_def)
  then show ?thesis
    by (simp add: udp_info_def example_udp_def question_edns_info_def be_u16_def slice_def numeral_eq_Suc)
qed

lemma example_udp_total: "\<exists>r. build_udp_response U example_udp = Some r"
  by (simp add: build_udp_response_def example_udp_def build_response_header_def
      build_response_header_qd_def Let_def split: prod.splits)

theorem udp_response_limit_witness:
  "\<exists>r. build_udp_response ascii_unicode example_udp = Some r \<and> length r \<le> 512"
proof -
  obtain r where r: "build_udp_response ascii_unicode example_udp = Some r"
    using example_udp_total by blast
  from udp_response_limit [OF r] r show ?thesis
    by (simp add: udp_limit_def udp_opt_def example_udp_info response_limit_def unwrap_bytes_def)
      (simp add: example_udp_def)
qed


text \<open>
  Error and simple responses declare one question when they repeat the query's question
  and none when it could not be read, echo the id, keep opcode, RD and CD, and set QR and RA.
\<close>

theorem error_response_header:
  assumes "12 \<le> length q"
  shows "\<exists>r fl. build_error_response q rc = Some r \<and> build_simple_response q rc = Some r
    \<and> be_u16 r 0 = be_u16 q 0 \<and> be_u16 r 2 = Some fl
    \<and> fl AND 0x8080 = 0x8080 \<and> fl AND FLAG_KEEP_MASK = of_be [q ! 2, q ! 3] AND FLAG_KEEP_MASK
    \<and> fl AND FLAG_RCODE_MASK = ucast rc AND FLAG_RCODE_MASK
    \<and> be_u16 r 4 = Some (if unwrap_bytes (qbytes (question_edns_info q)) = [] then 0 else 1)
    \<and> be_u16 r 6 = Some 0"
proof -
  let ?qb = "unwrap_bytes (qbytes (question_edns_info q))"
  let ?opt = "unwrap_bytes (opt_bytes (question_edns_info q))"
  obtain h where h: "build_response_header_qd q rc (if ?qb = [] then 0 else 1) 0 False
      (if opt_bytes (question_edns_info q) \<noteq> None then 1 else 0) = Some h"
    using assms by (auto simp: build_response_header_qd_def)
  then have "build_error_response q rc = Some (h @ ?qb @ ?opt)" "build_simple_response q rc = Some (h @ ?qb @ ?opt)"
    using assms by (simp_all add: build_error_response_def build_simple_response_def Let_def)
  then show ?thesis
    using header_fields [OF h, of "?qb @ ?opt"] response_flags_bits by auto
qed

theorem error_response_header_witness:
  "\<exists>r. build_error_response (replicate 12 0) 2 = Some r \<and> be_u16 r 6 = Some 0"
  using error_response_header [of "replicate 12 0" 2] by auto

text \<open>
  The answer to a packet too short for a header is twelve bytes, longer than the packet,
  with the packet's id when it has one.
\<close>

theorem short_response_longer:
  assumes "length q < 12"
  shows "\<exists>r. build_error_response_short q rc = Some r \<and> length r = 12 \<and> length q < length r
    \<and> take 2 r = (if 2 \<le> length q then take 2 q else [0, 0])
    \<and> build_error_response q rc = None \<and> build_simple_response q rc = None"
  using assms
  by (auto simp: build_error_response_short_def build_error_response_def build_simple_response_def
      be16_def numeral_2_eq_2)

theorem short_response_longer_witness:
  "\<exists>r. build_error_response_short [1, 2, 3] 1 = Some r \<and> length r = 12 \<and> take 2 r = [1, 2]"
  using short_response_longer [of "[1, 2, 3]" 1] by auto

end
