(* ===== verification/Rdata_Roundtrip.thy ===== *)
theory Rdata_Roundtrip
  imports Rdata
begin

text \<open>
  What survives the data plane's answer cache, which stores \<open>as_display\<close> and answers with
  \<open>encode_rdata\<close> of it: the opaque types byte for byte (except an empty digest, fingerprint,
  key or certificate), the types holding host names by value; and what does not survive, a
  root name in MX and SRV data.
\<close>

subsection \<open>Opaque data\<close>

lemma trim_Nil [simp]: "trim [] = []"
  by (simp add: trim_def)

lemma hex_text: "fallback_hex_or_text (trim (hex_encode raw)) = Some raw"
proof -
  have "trim (hex_encode raw) = hex_encode raw"
    by (cases "raw = []") (simp_all add: edge_ok_pieces)
  then show ?thesis unfolding fallback_hex_or_text_def by simp
qed

lemma hex_text': "fallback_hex_or_text (trim (as_display (Other raw))) = Some raw"
  by (simp add: hex_text)

lemmas opaque_text = caa_text ds_text sshfp_text dnskey_text tlsa_text uri_text hex_text'

abbreviation name_types :: "u16 set" where
  "name_types \<equiv> {TYPE_AAAA, TYPE_CNAME, TYPE_NS, TYPE_PTR, TYPE_MX, TYPE_TXT, TYPE_SOA, TYPE_SRV,
                TYPE_SVCB, TYPE_HTTPS, TYPE_NAPTR}"

lemma parse_rdata_bound: "parse_rdata data pos t n = Some rd \<Longrightarrow> pos + unat n \<le> length data"
  by (rule ccontr) (simp add: parse_rdata_def not_le)

lemma opaque_roundtrip:
  assumes "parse_rdata data pos t n = Some rd" and "t \<notin> name_types" and "\<not> tail_empty rd"
  shows "encode_rdata U t (as_display rd) = Some (slice data pos (unat n))"
proof -
  let ?raw = "slice data pos (unat n)"
  have b: "pos + unat n \<le> length data" using parse_rdata_bound [OF assms(1)] .
  consider "t = TYPE_A" | "t = TYPE_CAA" | "t \<in> {TYPE_DS, TYPE_CDS}" | "t = TYPE_SSHFP"
    | "t \<in> {TYPE_DNSKEY, TYPE_CDNSKEY}" | "t = TYPE_TLSA" | "t = TYPE_URI"
    | "t \<notin> {TYPE_A, TYPE_CAA, TYPE_DS, TYPE_CDS, TYPE_SSHFP, TYPE_DNSKEY, TYPE_CDNSKEY, TYPE_TLSA, TYPE_URI}"
    by blast
  then show ?thesis
  proof cases
    case 1
    with assms(1) b have l: "length ?raw = 4" and rd: "rd = A (of_be ?raw)"
      by (auto simp: parse_rdata_def Let_def split: if_splits)
    then show ?thesis
      using 1 be32_of_be [OF l]
      by (simp add: encode_rdata_def edge_ok_ip4 ip4_octets_def del: length_slice)
  next
    case 2
    with assms(1) b have "parse_caa ?raw = Some rd" by (auto simp: parse_rdata_def)
    with 2 show ?thesis by (simp add: encode_rdata_def caa_text)
  next
    case 3
    with assms(1) b have "parse_ds ?raw = Some rd" by (auto simp: parse_rdata_def)
    with 3 assms(3) show ?thesis by (auto simp: encode_rdata_def ds_text)
  next
    case 4
    with assms(1) b have "parse_sshfp ?raw = Some rd" by (auto simp: parse_rdata_def)
    with 4 assms(3) show ?thesis by (simp add: encode_rdata_def sshfp_text)
  next
    case 5
    with assms(1) b have "parse_dnskey ?raw = Some rd" by (auto simp: parse_rdata_def)
    with 5 assms(3) show ?thesis by (auto simp: encode_rdata_def dnskey_text)
  next
    case 6
    with assms(1) b have "parse_tlsa ?raw = Some rd" by (auto simp: parse_rdata_def)
    with 6 assms(3) show ?thesis by (simp add: encode_rdata_def tlsa_text)
  next
    case 7
    with assms(1) b have "parse_uri ?raw = Some rd" by (auto simp: parse_rdata_def)
    with 7 show ?thesis by (simp add: encode_rdata_def uri_text)
  next
    case 8
    with assms(1,2) b have "rd = Other ?raw" by (simp add: parse_rdata_def)
    with 8 assms(2) show ?thesis by (simp add: encode_rdata_def hex_text)
  qed
qed

text \<open>A line that ends in a blank loses it, and with it the empty last field.\<close>

lemma trim_trailing_blank:
  assumes "edge_ok s"
  shows "trim (s @ [32]) = s"
proof -
  obtain a t where s: "s = a # t" using assms by (cases s) (auto simp: edge_ok_def)
  obtain u z where z: "s = u @ [z]" using assms by (cases s rule: rev_cases) (auto simp: edge_ok_def)
  have c: "Text.chars (s @ [32]) = map (\<lambda>b. [b]) (s @ [32])" "Text.chars s = map (\<lambda>b. [b]) s"
    using assms by (simp_all add: edge_ok_def chars_ascii)
  have w: "char_whitespace [32]" by (simp add: char_whitespace_def)
  have "ascii_graphic (hd s)" "ascii_graphic (last s)" using assms by (simp_all add: edge_ok_def)
  moreover have "hd s = a" "last s = z" by (simp add: s) (simp add: z)
  ultimately have a: "\<not> char_whitespace [a]" "\<not> char_whitespace [z]"
    using char_whitespace_graphic by simp_all
  have 1: "dropWhile char_whitespace (Text.chars (s @ [32])) = map (\<lambda>b. [b]) (s @ [32])"
    unfolding c(1) using a(1) s by simp
  have 2: "dropWhile char_whitespace (rev (map (\<lambda>b. [b]) (s @ [32]))) = rev (map (\<lambda>b. [b]) s)"
    using w a(2) z by simp
  show ?thesis unfolding trim_def 1 2 by simp
qed

lemma empty_tail_line:
  assumes "list_all2 token_text ps ts" "ps \<noteq> []" "\<forall>p \<in> set ps. edge_ok p"
  shows "split_tokens (trim (intercalate [32] (ps @ [[]]))) = Some ts"
proof -
  have "intercalate [32] (ps @ [[]]) = intercalate [32] ps @ [32]"
    using assms(2) by (induction "[32] :: str" ps rule: intercalate.induct) auto
  then show ?thesis
    using trim_trailing_blank [OF edge_ok_line [OF assms(2,3)]] split_tokens_line [OF assms(1)] by simp
qed

lemma empty_tail_lost:
  assumes "parse_rdata data pos t n = Some rd" and "t \<notin> name_types" and "tail_empty rd"
  shows "encode_rdata U t (as_display rd) = None"
proof -
  let ?raw = "slice data pos (unat n)"
  have b: "pos + unat n \<le> length data" using parse_rdata_bound [OF assms(1)] .
  have e3: "split_tokens (trim (intercalate [32] [dec x, dec y, dec z, []])) = Some [dec x, dec y, dec z]" for x y z
    using empty_tail_line [of "[dec x, dec y, dec z]"] by (simp add: edge_ok_dec del: intercalate.simps)
  have e2: "split_tokens (trim (intercalate [32] [dec x, dec y, []])) = Some [dec x, dec y]" for x y
    using empty_tail_line [of "[dec x, dec y]"] by (simp add: edge_ok_dec del: intercalate.simps)
  consider "t = TYPE_A" | "t = TYPE_CAA" | "t \<in> {TYPE_DS, TYPE_CDS}" | "t = TYPE_SSHFP"
    | "t \<in> {TYPE_DNSKEY, TYPE_CDNSKEY}" | "t = TYPE_TLSA" | "t = TYPE_URI"
    | "t \<notin> {TYPE_A, TYPE_CAA, TYPE_DS, TYPE_CDS, TYPE_SSHFP, TYPE_DNSKEY, TYPE_CDNSKEY, TYPE_TLSA, TYPE_URI}"
    by blast
  then show ?thesis
  proof cases
    case 3
    with assms(1) b have "parse_ds ?raw = Some rd" by (auto simp: parse_rdata_def)
    with 3 assms(3) show ?thesis
      by (auto simp: parse_ds_def tail_empty_def encode_rdata_def encode_ds_def e3
          simp del: intercalate.simps split: if_splits)
  next
    case 4
    with assms(1) b have "parse_sshfp ?raw = Some rd" by (auto simp: parse_rdata_def)
    with 4 assms(3) show ?thesis
      by (auto simp: parse_sshfp_def tail_empty_def encode_rdata_def encode_sshfp_def e2
          simp del: intercalate.simps split: if_splits)
  next
    case 5
    with assms(1) b have "parse_dnskey ?raw = Some rd" by (auto simp: parse_rdata_def)
    with 5 assms(3) show ?thesis
      by (auto simp: parse_dnskey_def tail_empty_def encode_rdata_def encode_dnskey_def e3
          simp del: intercalate.simps split: if_splits)
  next
    case 6
    with assms(1) b have "parse_tlsa ?raw = Some rd" by (auto simp: parse_rdata_def)
    with 6 assms(3) show ?thesis
      by (auto simp: parse_tlsa_def tail_empty_def encode_rdata_def encode_tlsa_def e3
          simp del: intercalate.simps split: if_splits)
  qed (use assms b in \<open>auto simp: parse_rdata_def parse_caa_def parse_uri_def tail_empty_def Let_def
        split: if_splits\<close>)
qed

subsection \<open>Host names\<close>

text \<open>A non-empty name of graphic characters, in the form the decoder returns.\<close>

definition host_text :: "str \<Rightarrow> bool" where
  "host_text n \<longleftrightarrow> n \<noteq> [] \<and> plain_text n \<and> canonical_name n = n"

lemma host_textD:
  assumes "host_text n"
  shows "plain_text n" "n \<noteq> []" "is_ascii n" "edge_ok n" "canonical_name n = n" "32 \<notin> set n"
  using assms edge_ok_plain plain_text_ascii
  by (auto simp: host_text_def plain_text_def list_all_iff ascii_graphic_def)

lemma ws_runs_plain:
  "list_all ascii_graphic p \<Longrightarrow> ws_runs (map (\<lambda>b. [b]) p @ cs) cur = ws_runs cs (cur @ p)"
  by (induction p arbitrary: cur) (simp_all add: char_whitespace_graphic)

lemma plain_text_graphic: "plain_text p \<Longrightarrow> list_all ascii_graphic p"
  by (auto simp: plain_text_def list_all_iff)

lemma split_whitespace_line:
  assumes "\<forall>p \<in> set ps. plain_text p \<and> p \<noteq> []"
  shows "split_whitespace (intercalate [32] ps) = ps"
proof -
  have w: "char_whitespace [32]" by (simp add: char_whitespace_def)
  have "is_ascii (intercalate [32] ps) \<and> ws_runs (map (\<lambda>b. [b]) (intercalate [32] ps)) [] = ps"
    using assms
  proof (induction "[32] :: str" ps rule: intercalate.induct)
    case (2 x)
    then show ?case using ws_runs_plain [of x "[]" "[]"] by (simp add: plain_text_ascii plain_text_graphic)
  next
    case (3 x y ys)
    then show ?case by (simp add: plain_text_ascii ws_runs_plain plain_text_graphic w)
  qed simp
  then show ?thesis by (simp add: split_whitespace_def chars_ascii)
qed

lemma decode_host:
  assumes "host_text n" "encode_name U n = Inr w"
  shows "decode_name (pre @ w @ post) (length pre) = Inr (n, length pre + length w)"
    "length w \<le> 255"
  using decode_name_encoded [OF host_textD(3) [OF assms(1)] assms(2)] host_textD(5) [OF assms(1)]
    encode_name_Inr(2) [OF host_textD(3) [OF assms(1)] assms(2)] by simp_all

lemma split_once_dec: "split_once 32 (dec n @ 32 # s) = Some (dec n, s)"
  by (rule split_once_append) (use dec_graphic [of 32 n] in \<open>auto simp: ascii_graphic_def\<close>)

lemma unat_len: "length w \<le> 65535 \<Longrightarrow> unat (word_of_nat (length w) :: u16) = length w"
  by (simp add: unat_of_nat_u16)

text \<open>The records whose data is numbers and host names.\<close>

fun host_record :: "u16 \<Rightarrow> rdata \<Rightarrow> bool" where
  "host_record t (CNAME n) \<longleftrightarrow> t = TYPE_CNAME \<and> host_text n"
| "host_record t (NS n) \<longleftrightarrow> t = TYPE_NS \<and> host_text n"
| "host_record t (PTR n) \<longleftrightarrow> t = TYPE_PTR \<and> host_text n"
| "host_record t (MX p n) \<longleftrightarrow> t = TYPE_MX \<and> host_text n"
| "host_record t (SRV p w q n) \<longleftrightarrow> t = TYPE_SRV \<and> host_text n"
| "host_record t (SOA m r a b c d e) \<longleftrightarrow> t = TYPE_SOA \<and> host_text m \<and> host_text r"
| "host_record t _ \<longleftrightarrow> False"

lemma encode_host_name:
  assumes "host_text n" "t \<in> {TYPE_CNAME, TYPE_NS, TYPE_PTR}" "encode_rdata U t n = Some raw"
  shows "encode_name U n = Inr raw"
  using assms host_textD(4) [OF assms(1)] by (auto simp: encode_rdata_def ok_of_eq_Some)

lemma encode_mx_text:
  assumes "host_text n"
  shows "encode_rdata U TYPE_MX (as_display (MX p n)) = map_option (\<lambda>w. be16 p @ w) (ok_of (encode_name U n))"
proof -
  have "trim (as_display (MX p n)) = as_display (MX p n)"
    using edge_ok_line [of "[dec_w p, n]"] host_textD(4) [OF assms] by (simp add: edge_ok_dec)
  moreover have "min (unat p) 65535 = unat p" "unat p \<le> 4294967295"
    using unat_u16_lt [of p] by (simp_all del: unat_u16_lt)
  ultimately show ?thesis
    by (simp add: encode_rdata_def encode_mx_def split_once_dec dec_digits)
      (cases "encode_name U n"; simp)
qed

lemma encode_srv_text:
  assumes "host_text n"
  shows "encode_rdata U TYPE_SRV (as_display (SRV p w q n)) =
    map_option (\<lambda>x. be16 p @ be16 w @ be16 q @ x) (ok_of (encode_name U n))"
proof -
  let ?ps = "[dec_w p, dec_w w, dec_w q, n]"
  have t: "trim (intercalate [32] ?ps) = intercalate [32] ?ps"
    using edge_ok_line [of ?ps] host_textD(4) [OF assms] by (simp add: edge_ok_dec del: intercalate.simps)
  have s: "split_whitespace (intercalate [32] ?ps) = ?ps"
    using host_textD(1,2) [OF assms] by (intro split_whitespace_line) simp
  have "min (unat x) 65535 = unat x" "unat x \<le> 4294967295" for x :: u16
    using unat_u16_lt [of x] by (simp_all del: unat_u16_lt)
  with t s show ?thesis
    by (simp add: encode_rdata_def encode_srv_def del: intercalate.simps)
      (cases "encode_name U n"; simp)
qed

lemma encode_soa_text:
  assumes "host_text m" "host_text r"
  shows "encode_rdata U TYPE_SOA (as_display (SOA m r a b c d e)) =
    (case (ok_of (encode_name U m), ok_of (encode_name U r)) of
       (Some x, Some y) \<Rightarrow> Some (x @ y @ be32 a @ be32 b @ be32 c @ be32 d @ be32 e) | _ \<Rightarrow> None)"
proof -
  let ?ps = "[m, r, dec_w a, dec_w b, dec_w c, dec_w d, dec_w e]"
  have t: "trim (intercalate [32] ?ps) = intercalate [32] ?ps"
    using edge_ok_line [of ?ps] host_textD(4) [OF assms(1)] host_textD(4) [OF assms(2)]
    by (simp add: edge_ok_dec del: intercalate.simps)
  have s: "split_whitespace (intercalate [32] ?ps) = ?ps"
    using host_textD(1,2) [OF assms(1)] host_textD(1,2) [OF assms(2)]
    by (intro split_whitespace_line) simp
  have "unat x \<le> 4294967295" for x :: u32
    using unat_u32_lt [of x] by (simp del: unat_u32_lt)
  with t s show ?thesis
    by (simp add: encode_rdata_def encode_soa_def del: intercalate.simps)
      (cases "encode_name U m"; cases "encode_name U r"; simp)
qed

lemma parse_host_rdata:
  assumes "host_text n" "encode_name U n = Inr w"
  shows "t \<in> {TYPE_CNAME, TYPE_NS, TYPE_PTR} \<Longrightarrow>
      parse_rdata (pre @ w @ post) (length pre) t (word_of_nat (length w)) =
        Some (if t = TYPE_CNAME then CNAME n else if t = TYPE_NS then NS n else PTR n)"
    and "parse_rdata (pre @ (be16 p @ w) @ post) (length pre) TYPE_MX (word_of_nat (length (be16 p @ w)))
      = Some (MX p n)"
    and "parse_rdata (pre @ (be16 p @ be16 q @ be16 x @ w) @ post) (length pre) TYPE_SRV
        (word_of_nat (length (be16 p @ be16 q @ be16 x @ w))) = Some (SRV p q x n)"
proof -
  note l = decode_host(2) [OF assms]
  have w: "Suc 0 \<le> length w" using encode_name_Inr(1) [OF host_textD(3) [OF assms(1)] assms(2)] by simp
  show "t \<in> {TYPE_CNAME, TYPE_NS, TYPE_PTR} \<Longrightarrow> parse_rdata (pre @ w @ post) (length pre) t (word_of_nat (length w)) =
        Some (if t = TYPE_CNAME then CNAME n else if t = TYPE_NS then NS n else PTR n)"
    using l unat_len [of w] decode_host(1) [OF assms, of pre post]
    by (auto simp: parse_rdata_def)
  have "decode_name ((pre @ be16 p) @ w @ post) (length (pre @ be16 p)) = Inr (n, length (pre @ be16 p) + length w)"
    by (rule decode_host [OF assms])
  moreover have "be_u16 (pre @ be16 p @ w @ post) (length pre) = Some p" by (simp add: be_u16_append)
  moreover have "unat (word_of_nat (length (be16 p @ w)) :: u16) = 2 + length w"
    using l unat_len [of "be16 p @ w"] by simp
  ultimately show "parse_rdata (pre @ (be16 p @ w) @ post) (length pre) TYPE_MX (word_of_nat (length (be16 p @ w)))
      = Some (MX p n)" using w by (simp add: parse_rdata_def)
  let ?h = "pre @ be16 p @ be16 q @ be16 x"
  have "decode_name (?h @ w @ post) (length ?h) = Inr (n, length ?h + length w)"
    by (rule decode_host [OF assms])
  moreover have "be_u16 (pre @ be16 p @ be16 q @ be16 x @ w @ post) (length pre) = Some p"
    "be_u16 (pre @ be16 p @ be16 q @ be16 x @ w @ post) (length pre + 2) = Some q"
    "be_u16 (pre @ be16 p @ be16 q @ be16 x @ w @ post) (length pre + 4) = Some x"
    using be_u16_append [of "pre @ be16 p" "length pre + 2" q "be16 x @ w @ post"]
      be_u16_append [of "pre @ be16 p @ be16 q" "length pre + 4" x "w @ post"]
    by (simp_all add: be_u16_append)
  moreover have "unat (word_of_nat (length (be16 p @ be16 q @ be16 x @ w)) :: u16) = 6 + length w"
    using l unat_len [of "be16 p @ be16 q @ be16 x @ w"] by simp
  ultimately show "parse_rdata (pre @ (be16 p @ be16 q @ be16 x @ w) @ post) (length pre) TYPE_SRV
        (word_of_nat (length (be16 p @ be16 q @ be16 x @ w))) = Some (SRV p q x n)"
    using w by (simp add: parse_rdata_def)
qed

lemma parse_soa_rdata:
  assumes "host_text m" "encode_name U m = Inr x" "host_text r" "encode_name U r = Inr y"
    and raw_def: "raw = x @ y @ be32 a @ be32 b @ be32 c @ be32 d @ be32 e"
  shows "parse_rdata (pre @ raw @ post) (length pre) TYPE_SOA (word_of_nat (length raw))
    = Some (SOA m r a b c d e)"
proof -
  let ?t = "be32 a @ be32 b @ be32 c @ be32 d @ be32 e"
  let ?d = "pre @ raw @ post" and ?p = "length pre + length x + length y"
  have l: "length x \<le> 255" "length y \<le> 255"
    using decode_host(2) assms(1-4) by blast+
  have "decode_name ?d (length pre) = Inr (m, length pre + length x)"
    using decode_host(1) [OF assms(1,2), of pre "y @ ?t @ post"] by (simp add: raw_def)
  moreover have "decode_name ?d (length pre + length x) = Inr (r, ?p)"
    using decode_host(1) [OF assms(3,4), of "pre @ x" "?t @ post"] by (simp add: raw_def)
  moreover have "unat (word_of_nat (length raw) :: u16) = length x + length y + 20"
    using l unat_len [of raw] by (simp add: raw_def)
  moreover have "be_u32 ?d ?p = Some a" "be_u32 ?d (?p + 4) = Some b" "be_u32 ?d (?p + 8) = Some c"
    "be_u32 ?d (?p + 12) = Some d" "be_u32 ?d (?p + 16) = Some e"
    using be_u32_append [of "pre @ x @ y" ?p a "be32 b @ be32 c @ be32 d @ be32 e @ post"]
      be_u32_append [of "pre @ x @ y @ be32 a" "?p + 4" b "be32 c @ be32 d @ be32 e @ post"]
      be_u32_append [of "pre @ x @ y @ be32 a @ be32 b" "?p + 8" c "be32 d @ be32 e @ post"]
      be_u32_append [of "pre @ x @ y @ be32 a @ be32 b @ be32 c" "?p + 12" d "be32 e @ post"]
      be_u32_append [of "pre @ x @ y @ be32 a @ be32 b @ be32 c @ be32 d" "?p + 16" e post]
    by (simp_all add: raw_def)
  moreover have "length ?d = length pre + (length x + length y + 20) + length post"
    by (simp add: raw_def)
  ultimately show ?thesis by (simp add: parse_rdata_def Let_def)
qed

lemma host_record_roundtrip:
  assumes "host_record t rd" and "encode_rdata U t (as_display rd) = Some raw"
  shows "parse_rdata (pre @ raw @ post) (length pre) t (word_of_nat (length raw)) = Some rd"
proof -
  have names: "t \<in> {TYPE_CNAME, TYPE_NS, TYPE_PTR} \<Longrightarrow> host_text n \<Longrightarrow>
      encode_rdata U t n = Some raw \<Longrightarrow>
      parse_rdata (pre @ raw @ post) (length pre) t (word_of_nat (length raw)) =
        Some (if t = TYPE_CNAME then CNAME n else if t = TYPE_NS then NS n else PTR n)" for n
    by (rule parse_host_rdata(1) [OF _ encode_host_name])
  show ?thesis
  proof (cases rd)
    case (MX p n)
    with assms obtain w where "encode_name U n = Inr w" "raw = be16 p @ w" "host_text n" "t = TYPE_MX"
      by (auto simp: encode_mx_text ok_of_eq_Some simp del: as_display.simps)
    with MX show ?thesis using parse_host_rdata(2) by simp
  next
    case (SRV p w q n)
    with assms obtain x where "encode_name U n = Inr x" "raw = be16 p @ be16 w @ be16 q @ x"
      "host_text n" "t = TYPE_SRV"
      by (auto simp: encode_srv_text ok_of_eq_Some simp del: as_display.simps)
    with SRV show ?thesis using parse_host_rdata(3) by simp
  next
    case (SOA m r a b c d e)
    with assms obtain x y where "encode_name U m = Inr x" "encode_name U r = Inr y"
      "raw = x @ y @ be32 a @ be32 b @ be32 c @ be32 d @ be32 e" "host_text m" "host_text r" "t = TYPE_SOA"
      by (auto simp: encode_soa_text ok_of_eq_Some simp del: as_display.simps split: option.splits)
    with SOA show ?thesis using parse_soa_rdata by simp
  next
    case (CNAME n)
    with assms names [of n] show ?thesis by simp
  next
    case (NS n)
    with assms names [of n] show ?thesis by simp
  next
    case (PTR n)
    with assms names [of n] show ?thesis by simp
  qed (use assms in simp_all)
qed

subsection \<open>The root name in MX and SRV data\<close>

lemma dec_no_dots: "split_byte 46 (dec n) = [dec n]" "trim_end_dots (dec n) = dec n"
proof -
  have d: "46 \<notin> set (dec n)" using dec_digits [of n] by (auto simp: list_all_iff ascii_digit_def)
  then show "split_byte 46 (dec n) = [dec n]" by (rule split_byte_no_sep)
  show "trim_end_dots (dec n) = dec n"
    using d by (metis dec_not_Nil last_in_set trim_end_dots_id)
qed

lemma labels_of_dec: "labels_of (dec n) = [dec n]"
  by (simp add: labels_of_def dec_no_dots)

lemma length_dec_u16: "length (dec (unat (p :: u16))) \<le> 5"
proof -
  have u: "unat p < 65536" by simp
  have 1: "length (dec n) \<le> Suc (length (dec (n div 10)))" for n
    by (subst dec.simps) simp
  have "unat p div 10 div 10 div 10 div 10 < 10" using u by linarith
  then have "length (dec (unat p div 10 div 10 div 10 div 10)) = 1" by (subst dec.simps) simp
  then show ?thesis
    using 1 [of "unat p"] 1 [of "unat p div 10"] 1 [of "unat p div 10 div 10"]
      1 [of "unat p div 10 div 10 div 10"] by linarith
qed

lemma split_once_dec_None: "split_once 32 (dec n) = None"
  by (rule split_once_None) (use dec_graphic [of 32 n] in \<open>auto simp: ascii_graphic_def\<close>)

lemma mx_root_text:
  "encode_rdata U TYPE_MX (as_display (MX p [])) =
     Some (be16 p @ word_of_nat (length (dec_w p)) # dec_w p @ [0])"
proof -
  have "trim (as_display (MX p [])) = dec_w p"
    using trim_trailing_blank [OF edge_ok_dec] by simp
  moreover have "encode_name U (dec_w p) = Inr (word_of_nat (length (dec_w p)) # dec_w p @ [0])"
    using length_dec_u16 [of p] by (simp add: encode_name_ascii labels_of_dec dec_no_dots)
  moreover have "min (unat p) 65535 = unat p" "unat p \<le> 4294967295"
    using unat_u16_lt [of p] by (simp_all del: unat_u16_lt)
  ultimately show ?thesis
    by (simp add: encode_rdata_def encode_mx_def split_once_dec_None dec_digits Let_def)
qed

lemma hex_pairs_set: "hex_pairs s = Some r \<Longrightarrow> even (length s) \<Longrightarrow> b \<in> set s \<Longrightarrow> hex_nibble b \<noteq> None"
  by (induction s arbitrary: r rule: hex_pairs.induct) (auto split: Option.bind_splits)

lemma blank_not_hex: "32 \<in> set s \<Longrightarrow> hex_decode s = None"
  using hex_pairs_set [of s _ 32] by (auto simp: hex_decode_def hex_nibble_def) (cases "hex_pairs s"; simp)

lemma srv_root_text:
  "encode_rdata U TYPE_SRV (as_display (SRV p w q [])) =
     Some (intercalate [32] [dec_w p, dec_w w, dec_w q])"
proof -
  let ?ps = "[dec_w p, dec_w w, dec_w q]"
  have "as_display (SRV p w q []) = intercalate [32] ?ps @ [32]" by simp
  then have t: "trim (as_display (SRV p w q [])) = intercalate [32] ?ps"
    using trim_trailing_blank [OF edge_ok_line [of ?ps]]
    by (simp add: edge_ok_dec del: as_display.simps intercalate.simps)
  have s: "split_whitespace (intercalate [32] ?ps) = ?ps"
    by (intro split_whitespace_line) simp
  have "32 \<in> set (intercalate [32] ?ps)" by simp
  from blank_not_hex [OF this] t s show ?thesis
    by (simp add: encode_rdata_def encode_srv_def fallback_hex_or_text_def
        del: as_display.simps intercalate.simps)
qed

subsection \<open>Properties\<close>



text \<open>
  The exception is real: DS, CDS, SSHFP, DNSKEY, CDNSKEY and TLSA data that ends after its
  fixed fields is accepted by the parser, and its text form is refused by the encoder, so the
  record is lost.
\<close>

theorem rdata_empty_tail_lost:
  assumes "parse_rdata data pos t n = Some rd" and "t \<notin> name_types" and "tail_empty rd"
  shows "encode_rdata U t (as_display rd) = None"
  by (rule empty_tail_lost [OF assms])

theorem rdata_empty_tail_lost_witness:
  "parse_rdata [1, 2, 3, 4] 0 TYPE_DS 4 = Some (DS 258 3 4 [])
   \<and> encode_rdata ascii_unicode TYPE_DS (as_display (DS 258 3 4 [])) = None"
proof -
  have p: "parse_rdata [1, 2, 3, 4] 0 TYPE_DS 4 = Some (DS 258 3 4 [])"
    by (simp add: parse_rdata_def parse_ds_def slice_def of_be_def)
  from rdata_empty_tail_lost [OF p] p show ?thesis by (simp add: tail_empty_def)
qed

text \<open>
  CNAME, NS, PTR, MX, SRV and SOA data over host names, written from its display text,
  parses back to the same record at any position of a packet.
\<close>

theorem rdata_host_roundtrip:
  assumes "host_record t rd" and "encode_rdata U t (as_display rd) = Some raw"
  shows "parse_rdata (pre @ raw @ post) (length pre) t (word_of_nat (length raw)) = Some rd"
  by (rule host_record_roundtrip [OF assms])

lemma example_host: "host_text [97, 46, 98]"
  by (simp add: host_text_def plain_text_def ascii_graphic_def canonical_name_def labels_of_def trim_end_dots_def)

theorem rdata_host_roundtrip_witness:
  "parse_rdata ([9] @ (be16 5 @ [1, 97, 1, 98, 0]) @ [9]) 1 TYPE_MX 7 = Some (MX 5 [97, 46, 98])"
proof -
  have "encode_name ascii_unicode [97, 46, 98] = Inr [1, 97, 1, 98, 0]"
    by (simp add: encode_name_def trim_end_dots_def append_label_def)
  then have "encode_rdata ascii_unicode TYPE_MX (as_display (MX 5 [97, 46, 98])) = Some (be16 5 @ [1, 97, 1, 98, 0])"
    using encode_mx_text [OF example_host, of ascii_unicode 5] by simp
  from rdata_host_roundtrip [OF _ this, of "[9]" "[9]"] show ?thesis by (simp add: example_host)
qed

text \<open>
  An MX record for the root (the null MX of RFC 7505) changes on the way: its text form
  loses the empty exchange, and the encoder takes the preference for the exchange name.
\<close>

theorem mx_root_changes:
  "encode_rdata U TYPE_MX (as_display (MX p [])) =
     Some (be16 p @ word_of_nat (length (dec_w p)) # dec_w p @ [0])"
  by (rule mx_root_text)

text \<open>
  An SRV record whose target is the root (service not available) becomes rdata that is the
  ASCII text of its three numbers.
\<close>

theorem srv_root_changes:
  "encode_rdata U TYPE_SRV (as_display (SRV p w q [])) =
     Some (intercalate [32] [dec_w p, dec_w w, dec_w q])"
  by (rule srv_root_text)

end
