(* ===== verification/Response_Parse.thy ===== *)
theory Response_Parse
  imports Response Rdata_Roundtrip
begin

text \<open>
  End to end: the response \<open>build_response\<close> makes for a query of \<open>build_query\<close> is read by
  \<open>parse_message\<close> as the question asked and the records put in, in order, with the response
  code, the truncation flag and the time to live that were given.
\<close>

text \<open>A record whose data \<open>encode_rdata\<close> writes as \<open>raw\<close> and \<open>parse_rdata\<close> reads back anywhere.\<close>

definition carries :: "unicode_lib \<Rightarrow> u16 \<Rightarrow> rdata \<Rightarrow> bytes \<Rightarrow> bool" where
  "carries U t v raw \<longleftrightarrow> t \<noteq> 0 \<and> t \<noteq> TYPE_OPT \<and> length raw \<le> 65535
     \<and> encode_rdata U t (as_display v) = Some raw
     \<and> (\<forall>pre post. parse_rdata (pre @ raw @ post) (length pre) t (word_of_nat (length raw)) = Some v)"

lemma carries_A: "carries U TYPE_A (A ip) (ip4_octets ip)"
proof -
  have "length (ip4_octets ip) = 4" by (simp add: ip4_octets_def)
  moreover have "of_be (ip4_octets ip) = ip" by (simp add: ip4_octets_def)
  ultimately show ?thesis
    by (simp add: carries_def encode_rdata_def edge_ok_ip4 parse_rdata_def Let_def)
qed

lemma host_record_length:
  assumes "host_record t v" "encode_rdata U t (as_display v) = Some raw"
  shows "length raw \<le> 65535"
proof -
  have n: "host_text n \<Longrightarrow> encode_name U n = Inr w \<Longrightarrow> length w \<le> 255" for n w
    by (rule decode_host(2))
  show ?thesis
  proof (cases v)
    case (MX p n)
    with assms show ?thesis
      by (auto simp: encode_mx_text ok_of_eq_Some simp del: as_display.simps dest!: n)
  next
    case (SRV p w q n)
    with assms show ?thesis
      by (auto simp: encode_srv_text ok_of_eq_Some simp del: as_display.simps dest!: n)
  next
    case (SOA m r a b c d e)
    with assms obtain x y where "encode_name U m = Inr x" "encode_name U r = Inr y" "host_text m" "host_text r"
      "raw = x @ y @ be32 a @ be32 b @ be32 c @ be32 d @ be32 e"
      by (auto simp: encode_soa_text ok_of_eq_Some simp del: as_display.simps split: option.splits)
    with n [of m x] n [of r y] show ?thesis by simp
  next
    case (CNAME s)
    with assms encode_host_name [of s t U raw] n [of s raw] show ?thesis by auto
  next
    case (NS s)
    with assms encode_host_name [of s t U raw] n [of s raw] show ?thesis by auto
  next
    case (PTR s)
    with assms encode_host_name [of s t U raw] n [of s raw] show ?thesis by auto
  qed (use assms in simp_all)
qed

lemma carries_host:
  assumes "host_record t v" "encode_rdata U t (as_display v) = Some raw"
  shows "carries U t v raw"
proof -
  have "t \<noteq> 0 \<and> t \<noteq> TYPE_OPT" using assms(1) by (cases v) auto
  with assms show ?thesis
    by (simp add: carries_def host_record_length host_record_roundtrip)
qed

subsection \<open>Sections\<close>

lemma parse_section_one:
  assumes "decode_name data pos = Inr (name, p)"
    and "be_u16 data p = Some t" "be_u16 data (p + 2) = Some cl" "be_u32 data (p + 4) = Some tv"
      "be_u16 data (p + 8) = Some n"
    and "p + 10 + unat n \<le> length data" "t \<noteq> TYPE_OPT" "parse_rdata data (p + 10) t n = Some v"
    and "parse_section data k (p + 10 + unat n) = Inr (e, rrs)"
  shows "parse_section data (Suc k) pos =
     Inr (e, \<lparr>rr_name = name, rtype = t, rclass = cl, ttl = tv, rr_rdata = v\<rparr> # rrs)"
  using assms by (simp add: Let_def)

definition wire_record :: "bytes \<Rightarrow> u16 \<Rightarrow> u32 \<Rightarrow> bytes \<Rightarrow> bytes" where
  "wire_record own t tv raw =
     own @ be16 t @ be16 CLASS_IN @ be32 tv @ be16 (word_of_nat (length raw)) @ raw"

lemma parse_wire_records:
  assumes "is_ascii d" "encode_name U d = Inr own"
    and "\<forall>(t, v, raw) \<in> set rs. carries U t v raw"
  shows "parse_section (pre @ concat (map (\<lambda>(t, v, raw). wire_record own t tv raw) rs) @ post)
      (length rs) (length pre)
    = Inr (length pre + length (concat (map (\<lambda>(t, v, raw). wire_record own t tv raw) rs)),
        map (\<lambda>(t, v, raw). \<lparr>rr_name = canonical_name d, rtype = t, rclass = CLASS_IN, ttl = tv,
           rr_rdata = v\<rparr>) rs)"
  using assms(3)
proof (induction rs arbitrary: pre)
  case (Cons a rs)
  obtain t v raw where a: "a = (t, v, raw)" by (cases a)
  have c: "carries U t v raw" using Cons.prems a by simp
  then have u: "unat (word_of_nat (length raw) :: u16) = length raw"
    by (simp add: carries_def unat_of_nat_u16)
  let ?n = "word_of_nat (length raw) :: u16"
  let ?rest = "concat (map (\<lambda>(t, v, raw). wire_record own t tv raw) rs) @ post"
  let ?d = "pre @ own @ be16 t @ be16 CLASS_IN @ be32 tv @ be16 ?n @ raw @ ?rest"
  let ?p = "length pre + length own"
  have d: "decode_name ?d (length pre) = Inr (canonical_name d, ?p)"
    by (rule decode_name_encoded [OF assms(1,2)])
  have f: "be_u16 ?d ?p = Some t" "be_u16 ?d (?p + 2) = Some CLASS_IN" "be_u32 ?d (?p + 4) = Some tv"
    "be_u16 ?d (?p + 8) = Some ?n"
    using be_u16_append [of "pre @ own" ?p t "be16 CLASS_IN @ be32 tv @ be16 ?n @ raw @ ?rest"]
      be_u16_append [of "pre @ own @ be16 t" "?p + 2" CLASS_IN "be32 tv @ be16 ?n @ raw @ ?rest"]
      be_u32_append [of "pre @ own @ be16 t @ be16 CLASS_IN" "?p + 4" tv "be16 ?n @ raw @ ?rest"]
      be_u16_append [of "pre @ own @ be16 t @ be16 CLASS_IN @ be32 tv" "?p + 8" ?n "raw @ ?rest"]
    by simp_all
  have r: "parse_rdata ?d (?p + 10) t ?n = Some v"
  proof -
    have "parse_rdata ((pre @ own @ be16 t @ be16 CLASS_IN @ be32 tv @ be16 ?n) @ raw @ ?rest)
        (length (pre @ own @ be16 t @ be16 CLASS_IN @ be32 tv @ be16 ?n)) t ?n = Some v"
      using c unfolding carries_def by blast
    then show ?thesis by (simp add: add.assoc)
  qed
  have k: "parse_section ?d (length rs) (?p + 10 + unat ?n) =
      Inr (?p + 10 + length raw + length (concat (map (\<lambda>(t, v, raw). wire_record own t tv raw) rs)),
        map (\<lambda>(t, v, raw). \<lparr>rr_name = canonical_name d, rtype = t, rclass = CLASS_IN, ttl = tv,
           rr_rdata = v\<rparr>) rs)"
    using Cons.IH [of "pre @ own @ be16 t @ be16 CLASS_IN @ be32 tv @ be16 ?n @ raw"] Cons.prems u
    by (simp add: add.assoc)
  have "?p + 10 + unat ?n \<le> length ?d" using u by simp
  from parse_section_one [OF d f this _ r k] c show ?case
    by (simp add: a wire_record_def carries_def add.assoc)
qed simp

subsection \<open>The whole response\<close>

definition response_ttl :: "u32 option \<Rightarrow> u32" where
  "response_ttl ttlo = clamp_ttl (ucast (case ttlo of Some t \<Rightarrow> t | None \<Rightarrow> TTL_DEFAULT))"

lemma map_filter_Some_map:
  "\<forall>x \<in> set xs. f (g x) = Some (h x) \<Longrightarrow> List.map_filter f (map g xs) = map h xs"
  by (induction xs) (simp_all add: map_filter_simps)

lemma encode_answer_carries:
  "carries U t v raw \<Longrightarrow>
   encode_answer U own ft ttlo (answer_new t (as_display v)) = Some (wire_record own t (response_ttl ttlo) raw)"
  by (simp add: carries_def encode_answer_def answer_new_def wire_record_def response_ttl_def Let_def
      split: option.split)

lemma rcode_of_flags: "ucast (response_flags fl rc tc AND 0x000F) = rc AND 0x0F"
proof -
  have m: "15 = (mask 4 :: u16)" "15 = (mask 4 :: u8)" by (simp_all add: mask_eq_exp_minus_1)
  have "response_flags fl rc tc AND 0x000F = ucast rc AND 0x000F" by (rule response_flags_bits(3))
  also have "(ucast rc AND 0x000F :: u16) = ucast (rc AND 0x0F)"
    unfolding m by (rule bit_word_eqI) (auto simp: bit_simps)
  finally have e: "response_flags fl rc tc AND 0x000F = ucast (rc AND 0x0F)" .
  show ?thesis unfolding e by (rule bit_word_eqI) (auto simp: bit_simps)
qed

lemma response_parses:
  assumes d: "is_ascii domain" and w: "encode_name U domain = Inr w"
    and q: "build_query U rnd domain qt qid edns ecs udp_size padding = Inr (q, i)"
    and rs: "\<forall>(t, v, raw) \<in> set rs. carries U t v raw" and n: "length rs \<le> 8"
    and body: "body = concat (map (\<lambda>(t, v, raw). wire_record w t (response_ttl ttlo) raw) rs)"
    and opt: "opt = query_additional edns ecs udp_size padding (length w + 4)"
    and fits: "12 + (length w + 4) + length body + length opt
        \<le> unat (if edns then clamp_edns_udp_size udp_size else 512)"
    and r: "build_response U q domain qt (map (\<lambda>(t, v, raw). answer_new t (as_display v)) rs) rc None ttlo tc
       = Some r"
  shows "\<exists>m. parse_message r = Inr m \<and> msg_id m = i \<and> rcode m = rc AND 0x0F \<and> truncated m = tc
     \<and> questions m = [\<lparr>q_name = canonical_name domain, qtype = qt, qclass = CLASS_IN\<rparr>]
     \<and> answers m = map (\<lambda>(t, v, raw). \<lparr>rr_name = canonical_name domain, rtype = t, rclass = CLASS_IN,
          ttl = response_ttl ttlo, rr_rdata = v\<rparr>) rs
     \<and> authority m = [] \<and> additional m = []"
proof -
  let ?qb = "w @ be16 qt @ be16 CLASS_IN"
  have info: "question_edns_info q = \<lparr>qbytes = Some ?qb,
     bufsize = (if edns then clamp_edns_udp_size udp_size else 512),
     opt_bytes = (if edns then Some opt else None)\<rparr>"
    using edns_info_build_query [OF d w q] by (simp add: opt query_additional_def)
  have lq: "\<not> length q < 12" using r by (auto simp: build_response_def)
  have "\<exists>w'. q = query_head i edns @ w' @ (be16 qt @ be16 CLASS_IN)
             @ query_additional edns ecs udp_size padding (length w' + 4)"
    using build_query_parts [OF q] by metis
  then obtain q' where q': "q = query_head i edns @ q'" by blast
  define c where "c = \<lparr>raw_query = q, ur_qbytes = Some ?qb,
      ur_answers = map (\<lambda>(t, v, raw). answer_new t (as_display v)) rs, ur_rcode = rc,
           abody = None, abody_count = None, owner_name = Some domain, fallback_type = qt,
           ttl_override = ttlo, bufsize_cap = None, force_truncated = tc,
           enc_owner = None, edns_info_in = Some (question_edns_info q)\<rparr>"
  have r': "build_udp_response U c = Some r"
  proof -
    have "?qb \<noteq> []" using encode_name_Inr(1) [OF d w] by simp
    then show ?thesis
      using r n lq by (simp add: build_response_def info c_def Let_def split del: if_split)
  qed
  have own: "owner_bytes U (owner_name c) (enc_owner c) = w" by (simp add: c_def owner_bytes_def w)
  have chunks: "udp_chunks U c = map (\<lambda>(t, v, raw). wire_record w t (response_ttl ttlo) raw) rs"
  proof -
    have "udp_chunks U c = List.map_filter (answer_chunk U c w) (map (\<lambda>(t, v, raw). answer_new t (as_display v)) rs)"
      using n by (simp add: udp_chunks_def own) (simp add: c_def)
    also have "\<dots> = map (\<lambda>(t, v, raw). wire_record w t (response_ttl ttlo) raw) rs"
      using rs encode_answer_carries
      by (intro map_filter_Some_map) (auto simp: answer_chunk_def c_def)
    finally show ?thesis .
  qed
  have parts: "udp_opt c = opt" "udp_limit c = unat (if edns then clamp_edns_udp_size udp_size else 512)"
    "udp_forced c = tc" "unwrap_bytes (ur_qbytes c) = ?qb"
    using n by (simp_all add: udp_opt_def udp_limit_def udp_info_def c_def info unwrap_bytes_def
        response_limit_def udp_forced_def opt query_additional_def)
  have ab: "abody c = None" "raw_query c = q" "ur_rcode c = rc" by (simp_all add: c_def)
  have nb: "length (udp_chunks U c) = length rs" by (simp add: chunks)
  have "12 + length (unwrap_bytes (ur_qbytes c)) + length (udp_opt c) \<le> udp_limit c"
    using fits by (simp add: parts)
  from udp_response_records [OF r' ab(1) this, unfolded parts(1,3,4) ab nb]
  obtain k h where k: "k \<le> length rs" "r = h @ ?qb @ concat (take k (udp_chunks U c)) @ opt"
    and h: "build_response_header q rc (word_of_nat k) (tc \<or> k < length rs)
         (if opt_bytes (udp_info c) \<noteq> None then 1 else 0) = Some h"
    and max: "k < length rs \<longrightarrow> length r + length (udp_chunks U c ! k) > udp_limit c"
    by blast
  have lh: "length h = 12" using h length_header by (simp add: build_response_header_def)
  have "k = length rs"
  proof (rule ccontr)
    assume "k \<noteq> length rs"
    with k(1) have lt: "k < length rs" by simp
    let ?cs = "udp_chunks U c"
    have "concat ?cs = concat (take k ?cs) @ ?cs ! k @ concat (drop (Suc k) ?cs)"
      using lt by (metis chunks concat.simps(2) concat_append id_take_nth_drop length_map)
    then have "length (concat (take k ?cs)) + length (?cs ! k) \<le> length body"
      by (simp add: body chunks [symmetric])
    with max lt fits k(2) lh show False by (simp add: parts)
  qed
  with k(2) chunks have re: "r = h @ ?qb @ body @ opt" by (simp add: body)
  have h': "build_response_header_qd q rc 1 (word_of_nat (length rs)) tc (if edns then 1 else 0) = Some h"
    using h \<open>k = length rs\<close> by (simp add: build_response_header_def udp_info_def c_def info split: if_splits)
  note hf = header_fields [OF h', of "?qb @ body @ opt", folded re]
  have qid: "be_u16 q 0 = Some i" unfolding q' by (rule query_head_fields)
  have qs: "parse_questions r (Suc 0) 12 =
      Inr (12 + length w + 4, [\<lparr>q_name = canonical_name domain, qtype = qt, qclass = CLASS_IN\<rparr>])"
  proof -
    have "decode_name r 12 = Inr (canonical_name domain, 12 + length w)"
      using decode_name_encoded [OF d w, of h "be16 qt @ be16 CLASS_IN @ body @ opt"] lh by (simp add: re)
    moreover have "be_u16 r (12 + length w) = Some qt" "be_u16 r (12 + length w + 2) = Some CLASS_IN"
      using be_u16_append [of "h @ w" "12 + length w" qt "be16 CLASS_IN @ body @ opt"]
        be_u16_append [of "h @ w @ be16 qt" "12 + length w + 2" CLASS_IN "body @ opt"] lh
      by (simp_all add: re)
    moreover have "12 + length w + 4 \<le> length r" using lh by (simp add: re)
    ultimately show ?thesis by simp
  qed
  have as: "parse_section r (length rs) (12 + length w + 4) = Inr (12 + length w + 4 + length body,
       map (\<lambda>(t, v, raw). \<lparr>rr_name = canonical_name domain, rtype = t, rclass = CLASS_IN,
          ttl = response_ttl ttlo, rr_rdata = v\<rparr>) rs)"
    using parse_wire_records [OF d w rs, of "h @ ?qb" "response_ttl ttlo" opt] lh
    by (simp add: re body)
  have adds: "\<exists>e. parse_section r (if edns then Suc 0 else 0) (12 + length w + 4 + length body) = Inr (e, [])"
  proof (cases edns)
    case True
    have "length (query_options ecs padding (length w + 4)) \<le> 65535"
      using length_query_options [of ecs padding "length w + 4"] by linarith
    from parse_section_opt [OF this, of "h @ ?qb @ body" "12 + length w + 4 + length body"
        "clamp_edns_udp_size udp_size"] True lh
    show ?thesis by (simp add: re opt query_additional_def)
  qed simp
  then obtain e where "parse_section r (if edns then Suc 0 else 0) (12 + length w + 4 + length body) = Inr (e, [])"
    by blast
  moreover have "unat (word_of_nat (length rs) :: u16) = length rs" using n by (simp add: unat_of_nat_u16)
  moreover have "unat (if edns then 1 else 0 :: u16) = (if edns then Suc 0 else 0)" by simp
  moreover have "\<not> length r < 12" using lh by (simp add: re)
  moreover have "(response_flags (of_be [q ! 2, q ! 3]) rc tc AND FLAG_TC \<noteq> 0) = tc"
    unfolding response_flags_bits(4) by simp
  ultimately show ?thesis
    using qs as hf qid rcode_of_flags by (simp add: parse_message_def)
qed

subsection \<open>Properties\<close>

lemma build_response_total:
  assumes "12 \<le> length q"
  shows "\<exists>r. build_response U q domain qt as rc cap ttlo tc = Some r"
  using assms
  by (simp add: build_response_def build_udp_response_def build_response_header_def
      build_response_header_qd_def Let_def split: prod.splits)

lemma build_query_length: "build_query U rnd domain qt qid edns ecs udp_size padding = Inr (q, i) \<Longrightarrow> 12 \<le> length q"
  by (erule build_query_parts) simp



end
