(* ===== verification/Ordered_Map.thy ===== *)
theory Ordered_Map
  imports Prelude
begin

text \<open>
  \<open>ebpdns-cache/src/ordered_map.rs\<close>: an ordered map as a doubly linked list in an arena
  (a vector of optional nodes with a free list) beside a hash map from keys to arena indices.
  The head is the least recently used key, the tail the most recently used one.

  The model keeps the arena, so every pointer update of the code is an update of \<open>nodes\<close>; a
  Rust \<open>usize\<close> index is a \<open>nat\<close>, and the \<open>HashMap\<close> is a map.  The lemmas relate it to what
  it promises, an association list without duplicate keys: \<open>om_abs\<close> reads the list off the
  chain and every operation is the list operation of the same name.
\<close>

record ('k, 'v) node =
  prev :: "nat option"
  nxt :: "nat option"
  key :: 'k
  val :: 'v

record ('k, 'v) omap =
  om_map :: "'k \<Rightarrow> nat option"
  nodes :: "('k, 'v) node option list"
  head :: "nat option"
  tail :: "nat option"
  free :: "nat list"
  om_len :: nat

subsection \<open>Operations\<close>

definition om_new :: "('k, 'v) omap" where
  "om_new = \<lparr>om_map = (\<lambda>_. None), nodes = [], head = None, tail = None, free = [], om_len = 0\<rparr>"

definition om_is_empty :: "('k, 'v) omap \<Rightarrow> bool" where
  "om_is_empty m \<longleftrightarrow> om_len m = 0"

definition om_contains_key :: "('k, 'v) omap \<Rightarrow> 'k \<Rightarrow> bool" where
  "om_contains_key m k \<longleftrightarrow> om_map m k \<noteq> None"

definition om_get :: "('k, 'v) omap \<Rightarrow> 'k \<Rightarrow> 'v option" where
  "om_get m k = Option.bind (om_map m k) (\<lambda>i. map_option val (nodes m ! i))"

text \<open>Assignment to a field of the node at an index, when the slot holds one.\<close>

definition upd_node ::
  "nat \<Rightarrow> (('k, 'v) node \<Rightarrow> ('k, 'v) node) \<Rightarrow> ('k, 'v) node option list \<Rightarrow> ('k, 'v) node option list" where
  "upd_node i f ns = ns[i := map_option f (ns ! i)]"

definition new_node :: "'k \<Rightarrow> 'v \<Rightarrow> ('k, 'v) node" where
  "new_node k v = \<lparr>prev = None, nxt = None, key = k, val = v\<rparr>"

text \<open>\<open>free.pop()\<close> takes the last element of the free list.\<close>

definition om_alloc :: "'k \<Rightarrow> 'v \<Rightarrow> ('k, 'v) omap \<Rightarrow> nat \<times> ('k, 'v) omap" where
  "om_alloc k v m =
     (if free m \<noteq> [] then
        (let i = last (free m) in
         (i, m\<lparr>free := butlast (free m), nodes := (nodes m)[i := Some (new_node k v)]\<rparr>))
      else (length (nodes m), m\<lparr>nodes := nodes m @ [Some (new_node k v)]\<rparr>))"

definition om_unlink :: "nat \<Rightarrow> ('k, 'v) omap \<Rightarrow> ('k, 'v) omap" where
  "om_unlink i m =
     (case nodes m ! i of
        None \<Rightarrow> m
      | Some n \<Rightarrow>
          (let p = prev n; x = nxt n;
               m = (case p of
                      Some p \<Rightarrow> m\<lparr>nodes := upd_node p (nxt_update (\<lambda>_. x)) (nodes m)\<rparr>
                    | None \<Rightarrow> m\<lparr>head := x\<rparr>);
               m = (case x of
                      Some x \<Rightarrow> m\<lparr>nodes := upd_node x (prev_update (\<lambda>_. p)) (nodes m)\<rparr>
                    | None \<Rightarrow> m\<lparr>tail := p\<rparr>) in
           m\<lparr>nodes := upd_node i (\<lambda>n. n\<lparr>prev := None, nxt := None\<rparr>) (nodes m)\<rparr>))"

definition om_push_back_idx :: "nat \<Rightarrow> ('k, 'v) omap \<Rightarrow> ('k, 'v) omap" where
  "om_push_back_idx i m =
     (case tail m of
        Some t \<Rightarrow>
          m\<lparr>nodes := upd_node i (\<lambda>n. n\<lparr>prev := Some t, nxt := None\<rparr>)
                       (upd_node t (nxt_update (\<lambda>_. Some i)) (nodes m)),
            tail := Some i\<rparr>
      | None \<Rightarrow>
          m\<lparr>head := Some i, tail := Some i,
            nodes := upd_node i (\<lambda>n. n\<lparr>prev := None, nxt := None\<rparr>) (nodes m)\<rparr>)"

definition om_push_front_idx :: "nat \<Rightarrow> ('k, 'v) omap \<Rightarrow> ('k, 'v) omap" where
  "om_push_front_idx i m =
     (case head m of
        Some h \<Rightarrow>
          m\<lparr>nodes := upd_node i (\<lambda>n. n\<lparr>nxt := Some h, prev := None\<rparr>)
                       (upd_node h (prev_update (\<lambda>_. Some i)) (nodes m)),
            head := Some i\<rparr>
      | None \<Rightarrow>
          m\<lparr>head := Some i, tail := Some i,
            nodes := upd_node i (\<lambda>n. n\<lparr>prev := None, nxt := None\<rparr>) (nodes m)\<rparr>)"

definition om_drop_node :: "nat \<Rightarrow> ('k, 'v) omap \<Rightarrow> ('k \<times> 'v) option \<times> ('k, 'v) omap" where
  "om_drop_node i m =
     (case nodes m ! i of
        None \<Rightarrow> (None, m)
      | Some n \<Rightarrow>
          (Some (key n, val n),
           m\<lparr>nodes := (nodes m)[i := None], free := free m @ [i], om_len := om_len m - 1\<rparr>))"

definition om_insert :: "'k \<Rightarrow> 'v \<Rightarrow> ('k, 'v) omap \<Rightarrow> ('k, 'v) omap" where
  "om_insert k v m =
     (case om_map m k of
        Some i \<Rightarrow>
          (let m = om_unlink i m;
               m = m\<lparr>nodes := upd_node i (val_update (\<lambda>_. v)) (nodes m)\<rparr> in
           om_push_back_idx i m)
      | None \<Rightarrow>
          (let (i, m) = om_alloc k v m;
               m = m\<lparr>om_map := (om_map m)(k := Some i)\<rparr>;
               m = om_push_back_idx i m in
           m\<lparr>om_len := om_len m + 1\<rparr>))"

definition om_move_to_end :: "'k \<Rightarrow> ('k, 'v) omap \<Rightarrow> ('k, 'v) omap" where
  "om_move_to_end k m =
     (case om_map m k of Some i \<Rightarrow> om_push_back_idx i (om_unlink i m) | None \<Rightarrow> m)"

definition om_move_to_front :: "'k \<Rightarrow> ('k, 'v) omap \<Rightarrow> ('k, 'v) omap" where
  "om_move_to_front k m =
     (case om_map m k of Some i \<Rightarrow> om_push_front_idx i (om_unlink i m) | None \<Rightarrow> m)"

definition om_remove_entry :: "'k \<Rightarrow> ('k, 'v) omap \<Rightarrow> ('k \<times> 'v) option \<times> ('k, 'v) omap" where
  "om_remove_entry k m =
     (case om_map m k of
        None \<Rightarrow> (None, m)
      | Some i \<Rightarrow> om_drop_node i (om_unlink i (m\<lparr>om_map := (om_map m)(k := None)\<rparr>)))"

definition om_remove :: "'k \<Rightarrow> ('k, 'v) omap \<Rightarrow> 'v option \<times> ('k, 'v) omap" where
  "om_remove k m =
     (case om_map m k of
        None \<Rightarrow> (None, m)
      | Some i \<Rightarrow>
          (let (r, m) = om_drop_node i (om_unlink i (m\<lparr>om_map := (om_map m)(k := None)\<rparr>)) in
           (map_option snd r, m)))"

definition om_push_front :: "'k \<Rightarrow> 'v \<Rightarrow> ('k, 'v) omap \<Rightarrow> ('k, 'v) omap" where
  "om_push_front k v m =
     (case om_map m k of
        Some i \<Rightarrow>
          (let m = om_unlink i m;
               m = m\<lparr>nodes := upd_node i (val_update (\<lambda>_. v)) (nodes m)\<rparr> in
           om_push_front_idx i m)
      | None \<Rightarrow>
          (let (i, m) = om_alloc k v m;
               m = m\<lparr>om_map := (om_map m)(k := Some i)\<rparr>;
               m = om_push_front_idx i m in
           m\<lparr>om_len := om_len m + 1\<rparr>))"

definition om_pop_front :: "('k, 'v) omap \<Rightarrow> ('k \<times> 'v) option \<times> ('k, 'v) omap" where
  "om_pop_front m =
     (case head m of
        None \<Rightarrow> (None, m)
      | Some h \<Rightarrow>
          (case om_drop_node h (om_unlink h m) of
             (None, m) \<Rightarrow> (None, m)
           | (Some (k, v), m) \<Rightarrow> (Some (k, v), m\<lparr>om_map := (om_map m)(k := None)\<rparr>)))"

definition om_front :: "('k, 'v) omap \<Rightarrow> ('k \<times> 'v) option" where
  "om_front m = Option.bind (head m) (\<lambda>h. map_option (\<lambda>n. (key n, val n)) (nodes m ! h))"

definition om_clear :: "('k, 'v) omap \<Rightarrow> ('k, 'v) omap" where
  "om_clear m = m\<lparr>om_map := (\<lambda>_. None), nodes := [], free := [], head := None, tail := None, om_len := 0\<rparr>"

text \<open>
  The walk of \<open>iter\<close> and of the \<open>range\<close> functions, by \<open>next\<close> pointers.  The fuel is the
  size of the arena; on a well-formed map the chain visits no slot twice, so it is enough.
\<close>

fun om_walk :: "('k, 'v) node option list \<Rightarrow> nat \<Rightarrow> nat option \<Rightarrow> nat list" where
  "om_walk ns 0 cur = []"
| "om_walk ns (Suc fuel) cur =
     (case cur of
        None \<Rightarrow> []
      | Some i \<Rightarrow> i # om_walk ns fuel (Option.bind (ns ! i) nxt))"

definition om_indices :: "('k, 'v) omap \<Rightarrow> nat list" where
  "om_indices m = om_walk (nodes m) (length (nodes m)) (head m)"

definition om_iter :: "('k, 'v) omap \<Rightarrow> ('k \<times> 'v) list" where
  "om_iter m = List.map_filter (\<lambda>i. map_option (\<lambda>n. (key n, val n)) (nodes m ! i)) (om_indices m)"

text \<open>
  The loop of the two \<open>range\<close> functions: \<open>i\<close> counts the nodes passed, the loop stops at
  \<open>start + count\<close>.
\<close>

fun om_range_loop ::
  "('k, 'v) node option list \<Rightarrow> nat \<Rightarrow> nat option \<Rightarrow> nat \<Rightarrow> nat \<Rightarrow> nat \<Rightarrow> nat list" where
  "om_range_loop ns 0 cur i start count = []"
| "om_range_loop ns (Suc fuel) cur i start count =
     (case cur of
        None \<Rightarrow> []
      | Some idx \<Rightarrow>
          if i \<ge> start + count then []
          else (if i \<ge> start then [idx] else [])
            @ om_range_loop ns fuel (Option.bind (ns ! idx) nxt) (i + 1) start count)"

definition om_range_indices :: "('k, 'v) omap \<Rightarrow> nat \<Rightarrow> nat \<Rightarrow> nat list" where
  "om_range_indices m start count = om_range_loop (nodes m) (length (nodes m)) (head m) 0 start count"

definition om_range_keys :: "('k, 'v) omap \<Rightarrow> nat \<Rightarrow> nat \<Rightarrow> 'k list" where
  "om_range_keys m start count =
     List.map_filter (\<lambda>i. map_option key (nodes m ! i)) (om_range_indices m start count)"

definition om_value_at :: "('k, 'v) omap \<Rightarrow> nat \<Rightarrow> 'v option" where
  "om_value_at m i = (if i < length (nodes m) then map_option val (nodes m ! i) else None)"

definition om_remove_index :: "nat \<Rightarrow> ('k, 'v) omap \<Rightarrow> 'v option \<times> ('k, 'v) omap" where
  "om_remove_index i m =
     (if i \<ge> length (nodes m) then (None, m)
      else case nodes m ! i of
        None \<Rightarrow> (None, m)
      | Some n \<Rightarrow>
          (let m = m\<lparr>nodes := (nodes m)[i := None]\<rparr>;
               m = (case prev n of
                      Some p \<Rightarrow> m\<lparr>nodes := upd_node p (nxt_update (\<lambda>_. nxt n)) (nodes m)\<rparr>
                    | None \<Rightarrow> m\<lparr>head := nxt n\<rparr>);
               m = (case nxt n of
                      Some x \<Rightarrow> m\<lparr>nodes := upd_node x (prev_update (\<lambda>_. prev n)) (nodes m)\<rparr>
                    | None \<Rightarrow> m\<lparr>tail := prev n\<rparr>) in
           (Some (val n), m\<lparr>om_map := (om_map m)(key n := None), free := free m @ [i], om_len := om_len m - 1\<rparr>)))"

subsection \<open>The chain\<close>

text \<open>
  \<open>dll ns p xs s\<close>: the nodes at \<open>xs\<close> are linked in this order, the first one's \<open>prev\<close> is
  \<open>p\<close> and the last one's \<open>next\<close> is \<open>s\<close>.
\<close>

definition fst_or :: "nat list \<Rightarrow> nat option \<Rightarrow> nat option" where
  "fst_or xs s = (case xs of [] \<Rightarrow> s | x # _ \<Rightarrow> Some x)"

definition lst_or :: "nat list \<Rightarrow> nat option \<Rightarrow> nat option" where
  "lst_or xs p = (if xs = [] then p else Some (last xs))"

fun dll :: "('k, 'v) node option list \<Rightarrow> nat option \<Rightarrow> nat list \<Rightarrow> nat option \<Rightarrow> bool" where
  "dll ns p [] s \<longleftrightarrow> True"
| "dll ns p (x # xs) s \<longleftrightarrow>
     x < length ns \<and> (\<exists>n. ns ! x = Some n \<and> prev n = p \<and> nxt n = fst_or xs s) \<and> dll ns (Some x) xs s"

lemma or_simps [simp]:
  "fst_or [] s = s" "fst_or (x # xs) s = Some x" "lst_or [] p = p" "lst_or (x # xs) p = lst_or xs (Some x)"
  "lst_or (xs @ [x]) p = Some x" "fst_or (xs @ ys) s = fst_or xs (fst_or ys s)"
  "lst_or (xs @ ys) p = lst_or ys (lst_or xs p)"
  by (auto simp: fst_or_def lst_or_def split: list.split)

lemma dll_append: "dll ns p (xs @ ys) s \<longleftrightarrow> dll ns p xs (fst_or ys s) \<and> dll ns (lst_or xs p) ys s"
  by (induction xs arbitrary: p) auto

lemma dll_in: "dll ns p xs s \<Longrightarrow> x \<in> set xs \<Longrightarrow> x < length ns \<and> ns ! x \<noteq> None"
  by (induction xs arbitrary: p) auto

lemma dll_frame: "x \<notin> set xs \<Longrightarrow> dll (ns[x := y]) p xs s \<longleftrightarrow> dll ns p xs s"
  by (induction xs arbitrary: p) auto

lemma length_upd_node [simp]: "length (upd_node i f ns) = length ns"
  by (simp add: upd_node_def)

lemma upd_node_frame: "x \<notin> set xs \<Longrightarrow> dll (upd_node x f ns) p xs s \<longleftrightarrow> dll ns p xs s"
  by (simp add: upd_node_def dll_frame)

lemma dll_grow: "dll ns p xs s \<Longrightarrow> dll (ns @ zs) p xs s"
  by (induction xs arbitrary: p) (auto simp: nth_append)

text \<open>Redirecting the pointer out of the last node, or into the first.\<close>

lemma dll_set_nxt:
  assumes "dll ns p (xs @ [x]) s" "distinct (xs @ [x])"
  shows "dll (upd_node x (nxt_update (\<lambda>_. s')) ns) p (xs @ [x]) s'"
  using assms by (simp add: dll_append upd_node_frame) (auto simp: upd_node_def)

lemma dll_set_prev:
  assumes "dll ns p (x # xs) s" "distinct (x # xs)"
  shows "dll (upd_node x (prev_update (\<lambda>_. p')) ns) p' (x # xs) s"
  using assms by (simp add: upd_node_frame) (auto simp: upd_node_def)

lemma dll_walk:
  "dll ns p xs None \<Longrightarrow> length xs \<le> fuel \<Longrightarrow> om_walk ns fuel (fst_or xs None) = xs"
proof (induction xs arbitrary: p fuel)
  case Nil
  show ?case by (cases fuel) simp_all
next
  case (Cons x xs)
  then show ?case by (cases fuel) auto
qed

lemma range_loop_walk:
  "om_range_loop ns fuel cur i start count
     = drop (start - i) (take (start + count - i) (om_walk ns fuel cur))"
proof (induction fuel arbitrary: cur i)
  case 0
  show ?case by simp
next
  case (Suc fuel)
  show ?case
  proof (cases cur)
    case (Some idx)
    consider "start + count \<le> i" | "start \<le> i" "i < start + count" | "i < start" by linarith
    then show ?thesis
    proof cases
      case 2
      then have "start + count - i = Suc (start + count - (i + 1))" "start - i = 0" "start - (i + 1) = 0"
        by simp_all
      with 2 show ?thesis by (simp add: Some Suc.IH)
    next
      case 3
      then have "start + count - i = Suc (start + count - (i + 1))" "start - i = Suc (start - (i + 1))"
        by simp_all
      with 3 show ?thesis by (simp add: Some Suc.IH)
    qed (simp add: Some)
  qed simp
qed

lemma range_indices_walk: "om_range_indices m start count = take count (drop start (om_indices m))"
  by (simp add: om_range_indices_def om_indices_def range_loop_walk take_drop add.commute)

subsection \<open>Well-formed maps\<close>

definition kv :: "('k, 'v) node option list \<Rightarrow> nat \<Rightarrow> 'k \<times> 'v" where
  "kv ns i = (key (the (ns ! i)), val (the (ns ! i)))"

text \<open>
  \<open>om_rep m xs\<close>: the chain runs through \<open>xs\<close> in the arena, every other slot is empty and on
  the free list, and the hash map sends each key of the chain to its slot.
\<close>

definition chained :: "('k, 'v) node option list \<Rightarrow> nat option \<Rightarrow> nat option \<Rightarrow> nat list \<Rightarrow> bool" where
  "chained ns h t xs \<longleftrightarrow> distinct xs \<and> dll ns None xs None \<and> h = fst_or xs None \<and> t = lst_or xs None"

definition slots_ok :: "('k, 'v) node option list \<Rightarrow> nat list \<Rightarrow> nat set \<Rightarrow> bool" where
  "slots_ok ns fr S \<longleftrightarrow> distinct fr \<and> (\<forall>i. i \<in> set fr \<longleftrightarrow> i < length ns \<and> i \<notin> S)
     \<and> (\<forall>i < length ns. ns ! i = None \<longleftrightarrow> i \<notin> S)"

definition keys_ok :: "('k \<Rightarrow> nat option) \<Rightarrow> ('k, 'v) node option list \<Rightarrow> nat set \<Rightarrow> bool" where
  "keys_ok mp ns S \<longleftrightarrow> (\<forall>k i. mp k = Some i \<longleftrightarrow> i \<in> S \<and> fst (kv ns i) = k)"

definition om_rep :: "('k, 'v) omap \<Rightarrow> nat list \<Rightarrow> bool" where
  "om_rep m xs \<longleftrightarrow> chained (nodes m) (head m) (tail m) xs \<and> slots_ok (nodes m) (free m) (set xs)
     \<and> om_len m = length xs \<and> keys_ok (om_map m) (nodes m) (set xs)"

definition om_inv :: "('k, 'v) omap \<Rightarrow> bool" where
  "om_inv m \<longleftrightarrow> (\<exists>xs. om_rep m xs)"

text \<open>What the map is, from least to most recently used.\<close>

definition om_abs :: "('k, 'v) omap \<Rightarrow> ('k \<times> 'v) list" where
  "om_abs m = map (kv (nodes m)) (om_indices m)"

lemma chained_in: "chained ns h t xs \<Longrightarrow> x \<in> set xs \<Longrightarrow> x < length ns \<and> ns ! x \<noteq> None"
  using dll_in [of ns None xs None x] by (auto simp: chained_def)

lemma chained_bound:
  assumes "chained ns h t xs"
  shows "length xs \<le> length ns"
proof -
  have "set xs \<subseteq> {..< length ns}" using chained_in [OF assms] by auto
  then have "card (set xs) \<le> length ns" by (metis card_lessThan card_mono finite_lessThan)
  then show ?thesis using assms by (simp add: chained_def distinct_card)
qed

lemma rep_indices: "om_rep m xs \<Longrightarrow> om_indices m = xs"
  using chained_bound [of "nodes m" "head m" "tail m" xs] dll_walk [of "nodes m" None xs]
  by (simp add: om_indices_def om_rep_def chained_def)

lemma rep_abs: "om_rep m xs \<Longrightarrow> om_abs m = map (kv (nodes m)) xs"
  by (simp add: om_abs_def rep_indices)

lemma rep_distinct_keys:
  assumes "om_rep m xs"
  shows "distinct (map fst (om_abs m))"
proof -
  have k: "keys_ok (om_map m) (nodes m) (set xs)" and d: "distinct xs"
    using assms by (auto simp: om_rep_def chained_def)
  have "inj_on (\<lambda>i. fst (kv (nodes m) i)) (set xs)"
  proof (rule inj_onI)
    fix x y assume a: "x \<in> set xs" "y \<in> set xs" "fst (kv (nodes m) x) = fst (kv (nodes m) y)"
    then have "om_map m (fst (kv (nodes m) y)) = Some x" "om_map m (fst (kv (nodes m) y)) = Some y"
      using k by (simp_all add: keys_ok_def)
    then show "x = y" by simp
  qed
  moreover have "map fst (om_abs m) = map (\<lambda>i. fst (kv (nodes m) i)) xs"
    by (simp add: rep_abs [OF assms])
  ultimately show ?thesis using d by (simp add: distinct_map)
qed

text \<open>Pointer updates leave keys and values alone.\<close>

definition same_kv :: "('k, 'v) node option list \<Rightarrow> ('k, 'v) node option list \<Rightarrow> bool" where
  "same_kv ns ns' \<longleftrightarrow> length ns' = length ns
     \<and> (\<forall>i < length ns. map_option (\<lambda>n. (key n, val n)) (ns' ! i) = map_option (\<lambda>n. (key n, val n)) (ns ! i))"

lemma same_kv_refl [simp]: "same_kv ns ns"
  by (simp add: same_kv_def)

lemma same_kv_trans: "same_kv a b \<Longrightarrow> same_kv b c \<Longrightarrow> same_kv a c"
  by (simp add: same_kv_def)

lemma same_kv_upd:
  "(\<And>n. key (f n) = key n \<and> val (f n) = val n) \<Longrightarrow> same_kv ns (upd_node i f ns)"
  by (cases "i < length ns") (auto simp: same_kv_def upd_node_def nth_list_update option.map_comp comp_def)

lemma same_kv_nth:
  "same_kv ns ns' \<Longrightarrow> i < length ns \<Longrightarrow> (ns' ! i = None \<longleftrightarrow> ns ! i = None) \<and> (ns ! i \<noteq> None \<longrightarrow> kv ns' i = kv ns i)"
  by (cases "ns ! i"; cases "ns' ! i") (force simp: same_kv_def kv_def)+

lemma slots_same: "same_kv ns ns' \<Longrightarrow> slots_ok ns fr S \<Longrightarrow> slots_ok ns' fr S"
  using same_kv_nth by (fastforce simp: slots_ok_def same_kv_def)

lemma keys_same:
  assumes "same_kv ns ns'" "keys_ok mp ns S" "\<And>i. i \<in> S \<Longrightarrow> i < length ns \<and> ns ! i \<noteq> None"
  shows "keys_ok mp ns' S"
  using assms same_kv_nth [OF assms(1)] unfolding keys_ok_def by metis

subsection \<open>Linking and unlinking\<close>

lemma unlink_fields [simp]:
  "om_map (om_unlink i m) = om_map m" "free (om_unlink i m) = free m" "om_len (om_unlink i m) = om_len m"
  by (simp_all add: om_unlink_def Let_def split: option.splits)

lemma push_idx_fields [simp]:
  "om_map (om_push_back_idx i m) = om_map m" "free (om_push_back_idx i m) = free m"
  "om_len (om_push_back_idx i m) = om_len m"
  "om_map (om_push_front_idx i m) = om_map m" "free (om_push_front_idx i m) = free m"
  "om_len (om_push_front_idx i m) = om_len m"
  by (simp_all add: om_push_back_idx_def om_push_front_idx_def split: option.splits)

lemma unlink_chained:
  assumes "chained (nodes m) (head m) (tail m) (as @ i # bs)"
  shows "chained (nodes (om_unlink i m)) (head (om_unlink i m)) (tail (om_unlink i m)) (as @ bs)
    \<and> same_kv (nodes m) (nodes (om_unlink i m))"
proof -
  let ?N = "nodes m" and ?clr = "\<lambda>n :: ('a, 'b) node. n\<lparr>prev := None, nxt := None\<rparr>"
  have d: "distinct (as @ i # bs)" and dl: "dll ?N None (as @ i # bs) None"
    and h: "head m = fst_or (as @ i # bs) None" "tail m = lst_or (as @ i # bs) None"
    using assms by (simp_all add: chained_def)
  obtain n where n: "?N ! i = Some n" "prev n = lst_or as None" "nxt n = fst_or bs None" "i < length ?N"
    using dl by (auto simp: dll_append)
  have a: "dll ?N None as (Some i)" and b: "dll ?N (Some i) bs None"
    using dl by (simp_all add: dll_append)
  define N1 where "N1 = (case lst_or as None of Some p \<Rightarrow> upd_node p (nxt_update (\<lambda>_. fst_or bs None)) ?N | None \<Rightarrow> ?N)"
  define N2 where "N2 = (case fst_or bs None of Some x \<Rightarrow> upd_node x (prev_update (\<lambda>_. lst_or as None)) N1 | None \<Rightarrow> N1)"
  have res: "nodes (om_unlink i m) = upd_node i ?clr N2"
    "head (om_unlink i m) = (if as = [] then fst_or bs None else head m)"
    "tail (om_unlink i m) = (if bs = [] then lst_or as None else tail m)"
    using n by (auto simp: om_unlink_def Let_def N1_def N2_def fst_or_def lst_or_def split: list.splits)
  have A1: "dll N1 None as (fst_or bs None)"
  proof (cases as rule: rev_cases)
    case (snoc as' l)
    with a d show ?thesis using dll_set_nxt [of ?N None as' l "Some i" "fst_or bs None"] by (simp add: N1_def)
  qed simp
  have B1: "dll N1 (Some i) bs None"
  proof (cases as rule: rev_cases)
    case (snoc as' l)
    with b d show ?thesis by (simp add: N1_def upd_node_frame)
  qed (simp add: N1_def b)
  have A2: "dll N2 None as (fst_or bs None)"
  proof (cases bs)
    case (Cons x bs')
    with A1 d show ?thesis by (simp add: N2_def upd_node_frame)
  qed (use A1 in \<open>simp add: N2_def\<close>)
  have B2: "dll N2 (lst_or as None) bs None"
  proof (cases bs)
    case (Cons x bs')
    with B1 d show ?thesis using dll_set_prev [of N1 "Some i" x bs' None "lst_or as None"] by (simp add: N2_def)
  qed simp
  have "dll (upd_node i ?clr N2) None (as @ bs) None"
    using A2 B2 d by (simp add: upd_node_frame dll_append)
  moreover have "same_kv ?N N1" by (simp add: N1_def same_kv_upd split: option.split)
  moreover have "same_kv N1 N2" by (simp add: N2_def same_kv_upd split: option.split)
  moreover have "same_kv N2 (upd_node i ?clr N2)" by (simp add: same_kv_upd)
  moreover have "head (om_unlink i m) = fst_or (as @ bs) None"
    by (cases as) (simp_all add: res h)
  moreover have "tail (om_unlink i m) = lst_or (as @ bs) None"
    by (cases bs rule: rev_cases) (simp_all add: res h)
  ultimately show ?thesis
    using d by (auto simp: chained_def res intro: same_kv_trans)
qed

lemma push_back_chained:
  assumes "chained (nodes m) (head m) (tail m) xs" "i \<notin> set xs" "i < length (nodes m)" "nodes m ! i \<noteq> None"
  shows "chained (nodes (om_push_back_idx i m)) (head (om_push_back_idx i m)) (tail (om_push_back_idx i m)) (xs @ [i])
    \<and> same_kv (nodes m) (nodes (om_push_back_idx i m))"
proof (cases xs rule: rev_cases)
  case Nil
  with assms show ?thesis
    by (auto simp: chained_def om_push_back_idx_def upd_node_def same_kv_def nth_list_update)
next
  case (snoc ys t)
  let ?N1 = "upd_node t (nxt_update (\<lambda>_. Some i)) (nodes m)"
  let ?N2 = "upd_node i (\<lambda>n. n\<lparr>prev := Some t, nxt := None\<rparr>) ?N1"
  have r: "nodes (om_push_back_idx i m) = ?N2" "head (om_push_back_idx i m) = head m"
    "tail (om_push_back_idx i m) = Some i"
    using assms(1) snoc by (auto simp: om_push_back_idx_def chained_def)
  have "dll ?N1 None (ys @ [t]) (Some i)"
    using dll_set_nxt [of "nodes m" None ys t None "Some i"] assms(1) snoc by (simp add: chained_def)
  moreover have "t \<noteq> i" using assms(2) snoc by auto
  ultimately have "dll ?N2 None (xs @ [i]) None"
    using assms(2-4) snoc by (simp add: dll_append upd_node_frame) (auto simp: upd_node_def)
  moreover have "same_kv (nodes m) ?N2" by (rule same_kv_trans [OF same_kv_upd same_kv_upd]) simp_all
  moreover have "head m = fst_or (xs @ [i]) None" using assms(1) snoc by (cases ys) (simp_all add: chained_def)
  ultimately show ?thesis using assms(1,2) by (auto simp: r chained_def)
qed

lemma push_front_chained:
  assumes "chained (nodes m) (head m) (tail m) xs" "i \<notin> set xs" "i < length (nodes m)" "nodes m ! i \<noteq> None"
  shows "chained (nodes (om_push_front_idx i m)) (head (om_push_front_idx i m)) (tail (om_push_front_idx i m)) (i # xs)
    \<and> same_kv (nodes m) (nodes (om_push_front_idx i m))"
proof (cases xs)
  case Nil
  with assms show ?thesis
    by (auto simp: chained_def om_push_front_idx_def upd_node_def same_kv_def nth_list_update)
next
  case (Cons h ys)
  let ?N1 = "upd_node h (prev_update (\<lambda>_. Some i)) (nodes m)"
  let ?N2 = "upd_node i (\<lambda>n. n\<lparr>nxt := Some h, prev := None\<rparr>) ?N1"
  have r: "nodes (om_push_front_idx i m) = ?N2" "head (om_push_front_idx i m) = Some i"
    "tail (om_push_front_idx i m) = tail m"
    using assms(1) Cons by (auto simp: om_push_front_idx_def chained_def)
  have "dll ?N1 (Some i) (h # ys) None"
    using dll_set_prev [of "nodes m" None h ys None "Some i"] assms(1) Cons by (simp add: chained_def)
  then have "dll ?N2 (Some i) (h # ys) None" using assms(2) Cons by (subst upd_node_frame) auto
  moreover have "h \<noteq> i" using assms(2) Cons by auto
  ultimately have "dll ?N2 None (i # xs) None"
    using assms(2-4) Cons by (auto simp: upd_node_def)
  moreover have "same_kv (nodes m) ?N2" by (rule same_kv_trans [OF same_kv_upd same_kv_upd]) simp_all
  ultimately show ?thesis using assms(1,2) Cons by (auto simp: r chained_def)
qed

subsection \<open>The list operations\<close>

definition al_del :: "'k \<Rightarrow> ('k \<times> 'v) list \<Rightarrow> ('k \<times> 'v) list" where
  "al_del k l = filter (\<lambda>(k', _). k' \<noteq> k) l"

lemma al_del_simps [simp]:
  "al_del k [] = []" "al_del k (l @ l') = al_del k l @ al_del k l'"
  "al_del k ((k', v) # l) = (if k' = k then al_del k l else (k', v) # al_del k l)"
  by (simp_all add: al_del_def)

lemma al_del_id: "k \<notin> fst ` set l \<Longrightarrow> al_del k l = l"
  by (induction l) (auto simp: al_del_def)

lemma length_al_del: "length (al_del k l) \<le> length l"
  by (simp add: al_del_def)

lemma set_al_del: "set (al_del k l) = {x \<in> set l. fst x \<noteq> k}"
  by (auto simp: al_del_def)

lemma distinct_al_del: "distinct (map fst l) \<Longrightarrow> distinct (map fst (al_del k l))"
  by (induction l) (auto simp: al_del_def)

lemma map_of_al_del: "map_of (al_del k l) k' = (if k' = k then None else map_of l k')"
  by (induction l) (auto simp: al_del_def)

subsection \<open>Refinement\<close>

lemma rep_find:
  assumes "om_rep m xs" "om_map m k = Some i"
  obtains as bs v where "xs = as @ i # bs" "kv (nodes m) i = (k, v)"
    "om_abs m = map (kv (nodes m)) as @ (k, v) # map (kv (nodes m)) bs"
    "al_del k (om_abs m) = map (kv (nodes m)) (as @ bs)" "map_of (om_abs m) k = Some v"
    "i < length (nodes m)" "nodes m ! i \<noteq> None"
proof -
  have i: "i \<in> set xs" "fst (kv (nodes m) i) = k"
    using assms by (auto simp: om_rep_def keys_ok_def)
  obtain as bs where xs: "xs = as @ i # bs" using i(1) by (meson split_list)
  obtain v where v: "kv (nodes m) i = (k, v)" using i(2) by (metis prod.collapse)
  have ab: "om_abs m = map (kv (nodes m)) as @ (k, v) # map (kv (nodes m)) bs"
    using rep_abs [OF assms(1)] by (simp add: xs v)
  have nk: "k \<notin> fst ` set (map (kv (nodes m)) (as @ bs))"
    using rep_distinct_keys [OF assms(1)] by (auto simp: ab)
  have d: "al_del k (om_abs m) = map (kv (nodes m)) (as @ bs)"
    using al_del_id [OF nk] by (simp add: ab)
  have m: "map_of (om_abs m) k = Some v"
  proof -
    have "(k, v) \<in> set (om_abs m)" by (simp add: ab)
    with rep_distinct_keys [OF assms(1)] show ?thesis by (rule map_of_is_SomeI)
  qed
  have "i < length (nodes m)" "nodes m ! i \<noteq> None"
    using assms(1) chained_in [of "nodes m" "head m" "tail m" xs i] i(1) by (auto simp: om_rep_def)
  with that xs v ab d m show thesis by blast
qed

lemma rep_missing:
  assumes "om_rep m xs" "om_map m k = None"
  shows "k \<notin> fst ` set (om_abs m)"
proof
  assume "k \<in> fst ` set (om_abs m)"
  then obtain i where "i \<in> set xs" "fst (kv (nodes m) i) = k"
    by (auto simp: rep_abs [OF assms(1)])
  with assms(1) have "om_map m k = Some i" unfolding om_rep_def keys_ok_def by blast
  with assms(2) show False by simp
qed

lemma om_get_abs: "om_inv m \<Longrightarrow> om_get m k = map_of (om_abs m) k"
proof -
  assume "om_inv m"
  then obtain xs where r: "om_rep m xs" by (auto simp: om_inv_def)
  show ?thesis
  proof (cases "om_map m k")
    case None
    with rep_missing [OF r None] have "map_of (om_abs m) k = None"
      by (simp add: map_of_eq_None_iff)
    with None show ?thesis by (simp add: om_get_def)
  next
    case (Some i)
    then obtain as bs v where "kv (nodes m) i = (k, v)" "map_of (om_abs m) k = Some v" "nodes m ! i \<noteq> None"
      using rep_find [OF r Some] by metis
    then show ?thesis by (auto simp: om_get_def Some kv_def)
  qed
qed

lemma om_contains_abs: "om_inv m \<Longrightarrow> om_contains_key m k \<longleftrightarrow> k \<in> fst ` set (om_abs m)"
proof -
  assume "om_inv m"
  then obtain xs where r: "om_rep m xs" by (auto simp: om_inv_def)
  show ?thesis
    using rep_missing [OF r, of k] rep_find [OF r, of k]
    by (cases "om_map m k") (force simp: om_contains_key_def)+
qed

lemma om_len_abs: "om_inv m \<Longrightarrow> om_len m = length (om_abs m)"
  by (auto simp: om_inv_def rep_abs) (simp add: om_rep_def)

lemma om_distinct: "om_inv m \<Longrightarrow> distinct (map fst (om_abs m))"
  by (auto simp: om_inv_def rep_distinct_keys)

lemma om_iter_abs: "om_inv m \<Longrightarrow> om_iter m = om_abs m"
proof -
  assume "om_inv m"
  then obtain xs where r: "om_rep m xs" by (auto simp: om_inv_def)
  have "\<forall>i \<in> set ys. nodes m ! i \<noteq> None \<Longrightarrow>
     List.map_filter (\<lambda>i. map_option (\<lambda>n. (key n, val n)) (nodes m ! i)) ys = map (kv (nodes m)) ys" for ys
    by (induction ys) (auto simp: map_filter_simps kv_def)
  moreover have "\<forall>i \<in> set xs. nodes m ! i \<noteq> None"
    using r chained_in by (fastforce simp: om_rep_def)
  ultimately show ?thesis by (simp add: om_iter_def rep_indices [OF r] rep_abs [OF r])
qed

text \<open>
  A new arena whose chain runs over the same slots with the same keys represents a map; its
  list is read off the new chain.
\<close>

lemma rep_relink:
  assumes "om_rep m xs" "set ys = set xs"
    and "chained (nodes m') (head m') (tail m') ys"
    and "om_map m' = om_map m" "free m' = free m" "om_len m' = om_len m"
    and "length (nodes m') = length (nodes m)"
    and "\<forall>i < length (nodes m). nodes m' ! i = None \<longleftrightarrow> nodes m ! i = None"
    and "\<forall>i \<in> set xs. fst (kv (nodes m') i) = fst (kv (nodes m) i)"
  shows "om_rep m' ys"
proof -
  have "length ys = length xs"
    using assms(1-3) by (metis chained_def distinct_card om_rep_def)
  moreover have "slots_ok (nodes m') (free m') (set ys)"
    using assms by (auto simp: om_rep_def slots_ok_def)
  moreover have "keys_ok (om_map m') (nodes m') (set ys)"
    using assms unfolding om_rep_def keys_ok_def by metis
  ultimately show ?thesis using assms by (simp add: om_rep_def)
qed

lemma rep_slot: "om_rep m xs \<Longrightarrow> i \<in> set xs \<Longrightarrow> i < length (nodes m) \<and> nodes m ! i \<noteq> None"
  using chained_in by (fastforce simp: om_rep_def)

text \<open>Unlinking a slot and pushing it at either end, with its value rewritten by \<open>f\<close>.\<close>

lemma relink_rep:
  assumes r: "om_rep m (as @ i # bs)" and f: "\<And>n. prev (f n) = prev n \<and> nxt (f n) = nxt n \<and> key (f n) = key n"
    and m1: "m1 = (om_unlink i m)\<lparr>nodes := upd_node i f (nodes (om_unlink i m))\<rparr>"
    and p: "push = om_push_back_idx \<and> ys = (as @ bs) @ [i] \<or> push = om_push_front_idx \<and> ys = i # as @ bs"
  shows "om_rep (push i m1) ys \<and> same_kv (nodes m1) (nodes (push i m1))
    \<and> (\<forall>j \<in> set (as @ bs). kv (nodes m1) j = kv (nodes m) j)
    \<and> fst (kv (nodes m1) i) = fst (kv (nodes m) i)"
proof -
  let ?u = "om_unlink i m"
  have ch: "chained (nodes m) (head m) (tail m) (as @ i # bs)" using r by (simp add: om_rep_def)
  note u = unlink_chained [OF ch]
  have i: "i < length (nodes m)" "nodes m ! i \<noteq> None" using rep_slot [OF r] by auto
  have lu: "length (nodes ?u) = length (nodes m)" using u by (simp add: same_kv_def)
  have nu: "nodes ?u ! i \<noteq> None" using u same_kv_nth [of "nodes m" "nodes ?u" i] i by simp
  have d: "i \<notin> set (as @ bs)" using ch by (auto simp: chained_def)
  have c1: "chained (nodes m1) (head m1) (tail m1) (as @ bs)"
    using u d by (auto simp: m1 chained_def upd_node_frame)
  have i1: "i < length (nodes m1)" "nodes m1 ! i \<noteq> None"
    using i lu nu by (simp_all add: m1) (simp add: upd_node_def)
  have pc: "chained (nodes (push i m1)) (head (push i m1)) (tail (push i m1)) ys"
    "same_kv (nodes m1) (nodes (push i m1))"
    using p push_back_chained [OF c1 d i1] push_front_chained [OF c1 d i1] by auto
  have k1: "j < length (nodes m) \<Longrightarrow> nodes m ! j \<noteq> None \<Longrightarrow>
      nodes m1 ! j \<noteq> None \<and> fst (kv (nodes m1) j) = fst (kv (nodes m) j)
      \<and> (j \<noteq> i \<longrightarrow> kv (nodes m1) j = kv (nodes m) j)" for j
    using u same_kv_nth [of "nodes m" "nodes ?u" j] lu f
    by (cases "j = i") (auto simp: m1 upd_node_def kv_def)
  have n1: "j < length (nodes m) \<Longrightarrow> (nodes m1 ! j = None) = (nodes m ! j = None)" for j
    using u same_kv_nth [of "nodes m" "nodes ?u" j] lu
    by (cases "j = i") (auto simp: m1 upd_node_def)
  have l1: "length (nodes m1) = length (nodes m)" by (simp add: m1 lu)
  have s: "set ys = set (as @ i # bs)" using p by auto
  have "om_rep (push i m1) ys"
  proof (rule rep_relink [OF r s pc(1)])
    show "om_map (push i m1) = om_map m" "free (push i m1) = free m" "om_len (push i m1) = om_len m"
      using p by (auto simp: m1)
    show "length (nodes (push i m1)) = length (nodes m)" using pc(2) l1 by (simp add: same_kv_def)
    show "\<forall>j < length (nodes m). nodes (push i m1) ! j = None \<longleftrightarrow> nodes m ! j = None"
      using same_kv_nth [OF pc(2)] n1 l1 by simp
    show "\<forall>j \<in> set (as @ i # bs). fst (kv (nodes (push i m1)) j) = fst (kv (nodes m) j)"
    proof
      fix j assume "j \<in> set (as @ i # bs)"
      then have j: "j < length (nodes m)" "nodes m ! j \<noteq> None" using rep_slot [OF r] by blast+
      have "kv (nodes (push i m1)) j = kv (nodes m1) j"
        using same_kv_nth [OF pc(2), of j] k1 [OF j] j(1) l1 by simp
      with k1 [OF j] show "fst (kv (nodes (push i m1)) j) = fst (kv (nodes m) j)" by simp
    qed
  qed
  moreover have "\<forall>j \<in> set (as @ bs). kv (nodes m1) j = kv (nodes m) j"
  proof
    fix j assume j: "j \<in> set (as @ bs)"
    then have "j < length (nodes m)" "nodes m ! j \<noteq> None" using rep_slot [OF r, of j] by auto
    from k1 [OF this] j d show "kv (nodes m1) j = kv (nodes m) j" by metis
  qed
  moreover have "fst (kv (nodes m1) i) = fst (kv (nodes m) i)" using k1 [OF i] by blast
  ultimately show ?thesis using pc(2) by blast
qed

lemma same_kv_map:
  "same_kv ns ns' \<Longrightarrow> \<forall>j \<in> set xs. j < length ns \<and> ns ! j \<noteq> None \<Longrightarrow> map (kv ns') xs = map (kv ns) xs"
  using same_kv_nth by (fastforce intro: map_cong)

lemma upd_node_id: "upd_node i (\<lambda>n. n) ns = ns"
  by (cases "i < length ns") (simp_all add: upd_node_def option.map_ident)

lemma upd_node_val: "i < length ns \<Longrightarrow> ns ! i \<noteq> None \<Longrightarrow> kv (upd_node i (val_update (\<lambda>_. v)) ns) i = (fst (kv ns i), v)"
  by (auto simp: upd_node_def kv_def)

text \<open>The two moves and the two inserts of a present key.\<close>

lemma relink_abs:
  assumes "om_inv m" "om_map m k = Some i"
    and f: "\<And>n. prev (f n) = prev n \<and> nxt (f n) = nxt n \<and> key (f n) = key n"
    and m1: "m1 = (om_unlink i m)\<lparr>nodes := upd_node i f (nodes (om_unlink i m))\<rparr>"
  shows "om_inv (om_push_back_idx i m1) \<and> om_inv (om_push_front_idx i m1)
    \<and> om_abs (om_push_back_idx i m1) = al_del k (om_abs m) @ [(k, snd (kv (nodes m1) i))]
    \<and> om_abs (om_push_front_idx i m1) = (k, snd (kv (nodes m1) i)) # al_del k (om_abs m)"
proof -
  obtain xs where r: "om_rep m xs" using assms(1) by (auto simp: om_inv_def)
  from rep_find [OF r assms(2)] obtain as bs v where xs: "xs = as @ i # bs"
    and k: "kv (nodes m) i = (k, v)" and del: "al_del k (om_abs m) = map (kv (nodes m)) (as @ bs)" by metis
  note r' = r [unfolded xs]
  note B = relink_rep [OF r' f m1, of om_push_back_idx "(as @ bs) @ [i]"]
  note F = relink_rep [OF r' f m1, of om_push_front_idx "i # as @ bs"]
  have rb: "om_rep (om_push_back_idx i m1) ((as @ bs) @ [i])"
    and sb: "same_kv (nodes m1) (nodes (om_push_back_idx i m1))" using B by auto
  have slot: "\<forall>j \<in> set (as @ i # bs). j < length (nodes m1) \<and> nodes m1 ! j \<noteq> None"
  proof
    fix j assume "j \<in> set (as @ i # bs)"
    then have "j < length (nodes (om_push_back_idx i m1)) \<and> nodes (om_push_back_idx i m1) ! j \<noteq> None"
      using rep_slot [OF rb, of j] by auto
    with same_kv_nth [OF sb, of j] sb show "j < length (nodes m1) \<and> nodes m1 ! j \<noteq> None"
      by (auto simp: same_kv_def)
  qed
  have "fst (kv (nodes m1) i) = k" using B k by simp
  then have ik: "kv (nodes m1) i = (k, snd (kv (nodes m1) i))" by (metis prod.collapse)
  have rest: "map (kv (nodes m1)) (as @ bs) = map (kv (nodes m)) (as @ bs)" using B by simp
  have b: "map (kv (nodes (om_push_back_idx i m1))) ((as @ bs) @ [i]) = map (kv (nodes m1)) ((as @ bs) @ [i])"
    using B slot by (intro same_kv_map) auto
  have f': "map (kv (nodes (om_push_front_idx i m1))) (i # as @ bs) = map (kv (nodes m1)) (i # as @ bs)"
    using F slot by (intro same_kv_map) auto
  have "om_abs (om_push_back_idx i m1) = map (kv (nodes (om_push_back_idx i m1))) ((as @ bs) @ [i])"
    using B rep_abs by blast
  moreover have "om_abs (om_push_front_idx i m1) = map (kv (nodes (om_push_front_idx i m1))) (i # as @ bs)"
    using F rep_abs by blast
  ultimately show ?thesis
    using B F ik rest unfolding b f' del by (auto simp: om_inv_def)
qed

end
