(* ===== verification/Ordered_Map_Abs.thy ===== *)
theory Ordered_Map_Abs
  imports Ordered_Map
begin

text \<open>
  The operations of \<open>Ordered_Map\<close> are the list operations on \<open>om_abs\<close>: insertion at either
  end, moves, removal, iteration; and the interface the caches rely on.
\<close>

subsection \<open>Allocation and release\<close>

lemma alloc_rep:
  assumes r: "om_rep m xs" and a: "om_alloc k v m = (i, m')"
  shows "i \<notin> set xs" "i < length (nodes m')" "nodes m' ! i = Some (new_node k v)"
    "chained (nodes m') (head m') (tail m') xs" "\<forall>j \<in> set xs. kv (nodes m') j = kv (nodes m) j"
    "slots_ok (nodes m') (free m') (insert i (set xs))"
    "om_map m' = om_map m" "om_len m' = om_len m"
proof -
  have c: "chained (nodes m) (head m) (tail m) xs" and s: "slots_ok (nodes m) (free m) (set xs)"
    using r by (simp_all add: om_rep_def)
  have "i \<notin> set xs \<and> i < length (nodes m') \<and> nodes m' ! i = Some (new_node k v)
    \<and> chained (nodes m') (head m') (tail m') xs \<and> (\<forall>j \<in> set xs. kv (nodes m') j = kv (nodes m) j)
    \<and> slots_ok (nodes m') (free m') (insert i (set xs)) \<and> om_map m' = om_map m \<and> om_len m' = om_len m"
  proof (cases "free m = []")
    case True
    with a have m: "i = length (nodes m)" "m' = m\<lparr>nodes := nodes m @ [Some (new_node k v)]\<rparr>"
      by (simp_all add: om_alloc_def)
    have l: "j \<in> set xs \<Longrightarrow> j < length (nodes m)" for j using rep_slot [OF r] by blast
    have full: "\<forall>j. j < length (nodes m) \<longrightarrow> j \<in> set xs" "\<forall>j < length (nodes m). nodes m ! j \<noteq> None"
      using s True by (auto simp: slots_ok_def)
    have "slots_ok (nodes m') (free m') (insert i (set xs))"
      using full l True by (auto simp: slots_ok_def m nth_append less_Suc_eq)
    moreover have "\<forall>j \<in> set xs. kv (nodes m') j = kv (nodes m) j"
      using l by (simp add: m kv_def nth_append)
    ultimately show ?thesis using c l by (auto simp: m chained_def dll_grow)
  next
    case False
    then obtain fr where fr: "free m = fr @ [i]" and m: "m' = m\<lparr>free := fr, nodes := (nodes m)[i := Some (new_node k v)]\<rparr>"
      using a by (cases "free m" rule: rev_cases) (auto simp: om_alloc_def)
    have "i \<in> set (free m)" by (simp add: fr)
    then have i: "i < length (nodes m)" "i \<notin> set xs" using s unfolding slots_ok_def by blast+
    have d: "distinct (fr @ [i])" "\<forall>j. j \<in> set (fr @ [i]) \<longleftrightarrow> j < length (nodes m) \<and> j \<notin> set xs"
      "\<forall>j < length (nodes m). nodes m ! j = None \<longleftrightarrow> j \<notin> set xs"
      using s by (simp_all add: slots_ok_def fr)
    have "slots_ok (nodes m') (free m') (insert i (set xs))"
      using d by (auto simp: slots_ok_def m nth_list_update)
    moreover have "\<forall>j \<in> set xs. kv (nodes m') j = kv (nodes m) j"
    proof
      fix j assume "j \<in> set xs"
      then have "i \<noteq> j" using i(2) by auto
      then show "kv (nodes m') j = kv (nodes m) j" by (simp add: m kv_def)
    qed
    ultimately show ?thesis using c i by (auto simp: m chained_def dll_frame)
  qed
  then show "i \<notin> set xs" "i < length (nodes m')" "nodes m' ! i = Some (new_node k v)"
    "chained (nodes m') (head m') (tail m') xs" "\<forall>j \<in> set xs. kv (nodes m') j = kv (nodes m) j"
    "slots_ok (nodes m') (free m') (insert i (set xs))"
    "om_map m' = om_map m" "om_len m' = om_len m" by blast+
qed

lemma insert_new_rep:
  assumes r: "om_rep m xs" and k: "om_map m k = None" and a: "om_alloc k v m = (i, m1)"
    and m2: "m2 = m1\<lparr>om_map := (om_map m1)(k := Some i)\<rparr>"
    and p: "push = om_push_back_idx \<and> ys = xs @ [i] \<or> push = om_push_front_idx \<and> ys = i # xs"
    and m3: "m3 = (push i m2)\<lparr>om_len := om_len (push i m2) + 1\<rparr>"
  shows "om_rep m3 ys \<and> map (kv (nodes m3)) xs = map (kv (nodes m)) xs \<and> kv (nodes m3) i = (k, v)"
proof -
  note A = alloc_rep [OF r a]
  have c: "chained (nodes m2) (head m2) (tail m2) xs" using A(4) by (simp add: m2)
  have i: "i < length (nodes m2)" "nodes m2 ! i \<noteq> None" using A(2,3) by (simp_all add: m2)
  have pc: "chained (nodes m3) (head m3) (tail m3) ys" "same_kv (nodes m2) (nodes m3)"
    using p push_back_chained [OF c A(1) i] push_front_chained [OF c A(1) i] by (auto simp: m3)
  have f: "om_map m3 = (om_map m)(k := Some i)" "free m3 = free m1" "om_len m3 = om_len m + 1"
    using p A(7,8) by (auto simp: m3 m2)
  have kvx: "j \<in> set xs \<Longrightarrow> kv (nodes m3) j = kv (nodes m) j" for j
  proof -
    assume j: "j \<in> set xs"
    then have "j < length (nodes m2) \<and> nodes m2 ! j \<noteq> None" using chained_in [OF c] by blast
    then have "kv (nodes m3) j = kv (nodes m2) j" using same_kv_nth [OF pc(2)] by blast
    then show ?thesis using A(5) j by (simp add: m2)
  qed
  have kvi: "kv (nodes m3) i = (k, v)"
    using same_kv_nth [OF pc(2) i(1)] i(2) A(3) by (simp add: m2 kv_def new_node_def)
  have s: "set ys = insert i (set xs)" using p by auto
  have "slots_ok (nodes m3) (free m3) (set ys)"
    using slots_same [OF pc(2)] A(6) by (simp add: s f m2)
  moreover have "keys_ok (om_map m3) (nodes m3) (set ys)"
  proof -
    have ok: "\<And>k' j. om_map m k' = Some j \<longleftrightarrow> j \<in> set xs \<and> fst (kv (nodes m) j) = k'"
      using r by (simp add: om_rep_def keys_ok_def)
    have nk: "j \<in> set xs \<Longrightarrow> fst (kv (nodes m) j) \<noteq> k" for j
      using ok [of k j] k by auto
    show ?thesis unfolding keys_ok_def f s
    proof (intro allI)
      fix k' j
      show "((om_map m)(k \<mapsto> i)) k' = Some j \<longleftrightarrow> j \<in> insert i (set xs) \<and> fst (kv (nodes m3) j) = k'"
      proof (cases "j = i")
        case True
        have "om_map m k' = Some i \<Longrightarrow> False" using ok [of k' i] A(1) by simp
        then show ?thesis using True kvi by auto
      next
        case False
        then show ?thesis using ok [of k' j] nk [of j] kvx [of j] by auto
      qed
    qed
  qed
  moreover have "om_len m3 = length ys" using p r f by (auto simp: om_rep_def)
  moreover have "map (kv (nodes m3)) xs = map (kv (nodes m)) xs" using kvx by simp
  ultimately show ?thesis using pc(1) kvi by (simp add: om_rep_def)
qed

lemma om_insert_abs:
  assumes "om_inv m"
  shows "om_inv (om_insert k v m) \<and> om_abs (om_insert k v m) = al_del k (om_abs m) @ [(k, v)]"
proof (cases "om_map m k")
  case None
  obtain xs where r: "om_rep m xs" using assms by (auto simp: om_inv_def)
  obtain i m1 where a: "om_alloc k v m = (i, m1)" by (cases "om_alloc k v m")
  have e: "om_insert k v m = (om_push_back_idx i (m1\<lparr>om_map := (om_map m1)(k := Some i)\<rparr>))
      \<lparr>om_len := om_len (om_push_back_idx i (m1\<lparr>om_map := (om_map m1)(k := Some i)\<rparr>)) + 1\<rparr>"
    by (simp add: om_insert_def None a Let_def)
  have n: "om_rep (om_insert k v m) (xs @ [i])" "map (kv (nodes (om_insert k v m))) xs = map (kv (nodes m)) xs"
    "kv (nodes (om_insert k v m)) i = (k, v)"
    using insert_new_rep [where push = om_push_back_idx and ys = "xs @ [i]", OF r None a refl _ e] by simp_all
  have "al_del k (om_abs m) = om_abs m" using al_del_id [OF rep_missing [OF r None]] .
  with n show ?thesis by (auto simp: om_inv_def rep_abs [OF n(1)] rep_abs [OF r])
next
  case (Some i)
  let ?m1 = "(om_unlink i m)\<lparr>nodes := upd_node i (val_update (\<lambda>_. v)) (nodes (om_unlink i m))\<rparr>"
  obtain xs where r: "om_rep m xs" using assms by (auto simp: om_inv_def)
  from rep_find [OF r Some] obtain as bs where xs: "xs = as @ i # bs" and i: "i < length (nodes m)" "nodes m ! i \<noteq> None"
    by metis
  have ch: "chained (nodes m) (head m) (tail m) (as @ i # bs)" using r xs by (simp add: om_rep_def)
  have "i < length (nodes (om_unlink i m)) \<and> nodes (om_unlink i m) ! i \<noteq> None"
    using unlink_chained [OF ch] same_kv_nth [of "nodes m" _ i] i by (simp add: same_kv_def)
  then have "snd (kv (nodes ?m1) i) = v" by (simp add: upd_node_val)
  moreover have "om_insert k v m = om_push_back_idx i ?m1" by (simp add: om_insert_def Some Let_def)
  ultimately show ?thesis
    using relink_abs [OF assms Some, of "val_update (\<lambda>_. v)" ?m1] by simp
qed

lemma om_push_front_abs:
  assumes "om_inv m"
  shows "om_inv (om_push_front k v m) \<and> om_abs (om_push_front k v m) = (k, v) # al_del k (om_abs m)"
proof (cases "om_map m k")
  case None
  obtain xs where r: "om_rep m xs" using assms by (auto simp: om_inv_def)
  obtain i m1 where a: "om_alloc k v m = (i, m1)" by (cases "om_alloc k v m")
  have e: "om_push_front k v m = (om_push_front_idx i (m1\<lparr>om_map := (om_map m1)(k := Some i)\<rparr>))
      \<lparr>om_len := om_len (om_push_front_idx i (m1\<lparr>om_map := (om_map m1)(k := Some i)\<rparr>)) + 1\<rparr>"
    by (simp add: om_push_front_def None a Let_def)
  have n: "om_rep (om_push_front k v m) (i # xs)" "map (kv (nodes (om_push_front k v m))) xs = map (kv (nodes m)) xs"
    "kv (nodes (om_push_front k v m)) i = (k, v)"
    using insert_new_rep [where push = om_push_front_idx and ys = "i # xs", OF r None a refl _ e] by simp_all
  have "al_del k (om_abs m) = om_abs m" using al_del_id [OF rep_missing [OF r None]] .
  with n show ?thesis by (auto simp: om_inv_def rep_abs [OF n(1)] rep_abs [OF r])
next
  case (Some i)
  let ?m1 = "(om_unlink i m)\<lparr>nodes := upd_node i (val_update (\<lambda>_. v)) (nodes (om_unlink i m))\<rparr>"
  obtain xs where r: "om_rep m xs" using assms by (auto simp: om_inv_def)
  from rep_find [OF r Some] obtain as bs where xs: "xs = as @ i # bs" and i: "i < length (nodes m)" "nodes m ! i \<noteq> None"
    by metis
  have ch: "chained (nodes m) (head m) (tail m) (as @ i # bs)" using r xs by (simp add: om_rep_def)
  have "i < length (nodes (om_unlink i m)) \<and> nodes (om_unlink i m) ! i \<noteq> None"
    using unlink_chained [OF ch] same_kv_nth [of "nodes m" _ i] i by (simp add: same_kv_def)
  then have "snd (kv (nodes ?m1) i) = v" by (simp add: upd_node_val)
  moreover have "om_push_front k v m = om_push_front_idx i ?m1" by (simp add: om_push_front_def Some Let_def)
  ultimately show ?thesis
    using relink_abs [OF assms Some, of "val_update (\<lambda>_. v)" ?m1] by simp
qed

lemma om_move_abs:
  assumes "om_inv m"
  shows "om_inv (om_move_to_end k m) \<and> om_inv (om_move_to_front k m)
    \<and> om_abs (om_move_to_end k m) =
        (case map_of (om_abs m) k of Some v \<Rightarrow> al_del k (om_abs m) @ [(k, v)] | None \<Rightarrow> om_abs m)
    \<and> om_abs (om_move_to_front k m) =
        (case map_of (om_abs m) k of Some v \<Rightarrow> (k, v) # al_del k (om_abs m) | None \<Rightarrow> om_abs m)"
proof -
  obtain xs where r: "om_rep m xs" using assms by (auto simp: om_inv_def)
  show ?thesis
  proof (cases "om_map m k")
    case None
    then have "map_of (om_abs m) k = None" using rep_missing [OF r None] by (simp add: map_of_eq_None_iff)
    with None assms show ?thesis by (simp add: om_move_to_end_def om_move_to_front_def)
  next
    case (Some i)
    let ?m1 = "(om_unlink i m)\<lparr>nodes := upd_node i (\<lambda>n. n) (nodes (om_unlink i m))\<rparr>"
    have id: "?m1 = om_unlink i m" by (simp add: upd_node_id)
    from rep_find [OF r Some] obtain as bs v where xs: "xs = as @ i # bs" and i: "i < length (nodes m)" "nodes m ! i \<noteq> None"
      and v: "map_of (om_abs m) k = Some v" "kv (nodes m) i = (k, v)"
      by metis
    have ch: "chained (nodes m) (head m) (tail m) (as @ i # bs)" using r xs by (simp add: om_rep_def)
    have "kv (nodes (om_unlink i m)) i = (k, v)"
      using unlink_chained [OF ch] same_kv_nth [of "nodes m" _ i] i v by simp
    then show ?thesis
      using relink_abs [OF assms Some, of "\<lambda>n. n" ?m1] v
      by (simp add: id om_move_to_end_def om_move_to_front_def Some)
  qed
qed

text \<open>Taking a slot out: unlink, empty it, forget the key.\<close>

lemma slots_drop:
  assumes "slots_ok ns fr (insert i (set ys))" "i \<notin> set ys" "i < length ns"
    and "ns' = ns[i := None]" "fr' = fr @ [i]"
  shows "slots_ok ns' fr' (set ys)"
proof -
  have s: "distinct fr" "j \<in> set fr \<longleftrightarrow> j < length ns \<and> j \<noteq> i \<and> j \<notin> set ys"
    "j < length ns \<Longrightarrow> ns ! j = None \<longleftrightarrow> j \<noteq> i \<and> j \<notin> set ys" for j
    using assms(1) by (simp_all add: slots_ok_def)
  have "j < length ns \<Longrightarrow> ns[i := None] ! j = None \<longleftrightarrow> j \<notin> set ys" for j
    using s(3) [of j] assms(2) by (cases "j = i") auto
  moreover have "j \<in> set (fr @ [i]) \<longleftrightarrow> j < length ns \<and> j \<notin> set ys" for j
    using s(2) [of j] assms(2,3) by auto
  ultimately show ?thesis
    using s(1) s(2) [of i] by (simp add: slots_ok_def assms(4,5))
qed

lemma drop_rep:
  assumes r: "om_rep m (as @ i # bs)"
    and m1: "m1 = (om_unlink i m)\<lparr>om_map := (om_map m)(fst (kv (nodes m) i) := None)\<rparr>"
  obtains m2 where "om_drop_node i m1 = (Some (kv (nodes m) i), m2)" "om_rep m2 (as @ bs)"
    "map (kv (nodes m2)) (as @ bs) = map (kv (nodes m)) (as @ bs)"
proof -
  let ?u = "om_unlink i m" and ?k = "fst (kv (nodes m) i)"
  have ch: "chained (nodes m) (head m) (tail m) (as @ i # bs)" using r by (simp add: om_rep_def)
  note u = unlink_chained [OF ch]
  have i: "i < length (nodes m)" "nodes m ! i \<noteq> None" using rep_slot [OF r] by auto
  have d: "i \<notin> set (as @ bs)" using ch by (auto simp: chained_def)
  have ui: "nodes ?u ! i \<noteq> None" "kv (nodes ?u) i = kv (nodes m) i" "length (nodes ?u) = length (nodes m)"
    using u same_kv_nth [of "nodes m" "nodes ?u" i] i by (simp_all add: same_kv_def)
  let ?m2 = "m1\<lparr>nodes := (nodes m1)[i := None], free := free m1 @ [i], om_len := om_len m1 - 1\<rparr>"
  have dn: "om_drop_node i m1 = (Some (kv (nodes m) i), ?m2)"
    using ui by (auto simp: om_drop_node_def m1 kv_def)
  have c2: "chained (nodes ?m2) (head ?m2) (tail ?m2) (as @ bs)"
    using u d by (simp add: m1 chained_def dll_frame)
  have kv2: "j \<in> set (as @ bs) \<Longrightarrow> kv (nodes ?m2) j = kv (nodes m) j" for j
  proof -
    assume j: "j \<in> set (as @ bs)"
    then have "j < length (nodes m)" "nodes m ! j \<noteq> None" using rep_slot [OF r, of j] by auto
    then have "kv (nodes ?u) j = kv (nodes m) j" using u same_kv_nth [of "nodes m" "nodes ?u" j] by simp
    moreover have "j \<noteq> i" using d j by auto
    ultimately show ?thesis by (simp add: m1 kv_def)
  qed
  have s: "slots_ok (nodes ?u) (free m) (set (as @ i # bs))"
    using r u slots_same by (auto simp: om_rep_def)
  have "slots_ok (nodes ?m2) (free ?m2) (set (as @ bs))"
    by (rule slots_drop [of "nodes ?u" "free m" i "as @ bs"]) (use s d i ui in \<open>simp_all add: m1\<close>)
  moreover have "keys_ok (om_map ?m2) (nodes ?m2) (set (as @ bs))"
  proof -
    have ok: "\<And>k' j. om_map m k' = Some j \<longleftrightarrow> j \<in> set (as @ i # bs) \<and> fst (kv (nodes m) j) = k'"
      using r by (simp add: om_rep_def keys_ok_def)
    have nk: "j \<in> set (as @ bs) \<Longrightarrow> fst (kv (nodes m) j) \<noteq> ?k" for j
    proof
      assume j: "j \<in> set (as @ bs)" "fst (kv (nodes m) j) = ?k"
      then have "om_map m ?k = Some j" "om_map m ?k = Some i" using ok [of ?k j] ok [of ?k i] by simp_all
      then have "Some j = Some i" by (rule trans [OF sym])
      then show False using j(1) d by simp
    qed
    show ?thesis unfolding keys_ok_def
    proof (intro allI)
      fix k' j
      show "om_map ?m2 k' = Some j \<longleftrightarrow> j \<in> set (as @ bs) \<and> fst (kv (nodes ?m2) j) = k'"
      proof (cases "j \<in> set (as @ bs)")
        case True
        then show ?thesis using ok [of k' j] nk [OF True] kv2 [OF True] by (auto simp: m1)
      next
        case False
        have "om_map m k' = Some i \<Longrightarrow> k' = ?k" using ok [of k' i] by simp
        moreover have "om_map m k' = Some j \<Longrightarrow> j = i" using ok [of k' j] False by auto
        ultimately show ?thesis using False by (auto simp: m1)
      qed
    qed
  qed
  moreover have "om_len ?m2 = length (as @ bs)" using r by (simp add: m1 om_rep_def)
  ultimately have "om_rep ?m2 (as @ bs)" using c2 by (simp add: om_rep_def)
  moreover have "map (kv (nodes ?m2)) (as @ bs) = map (kv (nodes m)) (as @ bs)" using kv2 by simp
  ultimately show thesis using that dn by blast
qed

lemma unlink_map: "om_unlink i (m\<lparr>om_map := f\<rparr>) = (om_unlink i m)\<lparr>om_map := f\<rparr>"
  by (simp add: om_unlink_def Let_def split: option.splits)

lemma om_remove_entry_abs:
  assumes "om_inv m"
  shows "om_inv (snd (om_remove_entry k m)) \<and> om_abs (snd (om_remove_entry k m)) = al_del k (om_abs m)
    \<and> fst (om_remove_entry k m) = map_option (\<lambda>v. (k, v)) (map_of (om_abs m) k)
    \<and> om_remove k m = (map_option snd (fst (om_remove_entry k m)), snd (om_remove_entry k m))"
proof -
  obtain xs where r: "om_rep m xs" using assms by (auto simp: om_inv_def)
  show ?thesis
  proof (cases "om_map m k")
    case None
    then have "map_of (om_abs m) k = None" "al_del k (om_abs m) = om_abs m"
      using rep_missing [OF r None] al_del_id by (simp_all add: map_of_eq_None_iff)
    with None assms show ?thesis by (simp add: om_remove_entry_def om_remove_def)
  next
    case (Some i)
    from rep_find [OF r Some] obtain as bs v where xs: "xs = as @ i # bs" and v: "kv (nodes m) i = (k, v)"
      "map_of (om_abs m) k = Some v" "al_del k (om_abs m) = map (kv (nodes m)) (as @ bs)" by metis
    obtain m2 where m2: "om_drop_node i ((om_unlink i m)\<lparr>om_map := (om_map m)(k := None)\<rparr>) = (Some (k, v), m2)"
      "om_rep m2 (as @ bs)" "map (kv (nodes m2)) (as @ bs) = map (kv (nodes m)) (as @ bs)"
      using drop_rep [OF r [unfolded xs] refl] v(1) by (metis fst_conv)
    have "om_remove_entry k m = (Some (k, v), m2)" "om_remove k m = (Some v, m2)"
      using m2(1) by (simp_all add: om_remove_entry_def om_remove_def Some unlink_map)
    with m2 v show ?thesis by (auto simp: om_inv_def rep_abs [OF m2(2)])
  qed
qed

lemma om_pop_front_abs:
  assumes "om_inv m"
  shows "om_inv (snd (om_pop_front m)) \<and> om_abs (snd (om_pop_front m)) = tl (om_abs m)
    \<and> fst (om_pop_front m) = (case om_abs m of [] \<Rightarrow> None | x # _ \<Rightarrow> Some x)"
proof -
  obtain xs where r: "om_rep m xs" using assms by (auto simp: om_inv_def)
  then have h: "head m = fst_or xs None" by (simp add: om_rep_def chained_def)
  show ?thesis
  proof (cases xs)
    case Nil
    with h r assms show ?thesis by (simp add: om_pop_front_def rep_abs [OF r])
  next
    case (Cons i bs)
    let ?k = "fst (kv (nodes m) i)"
    obtain v where v: "kv (nodes m) i = (?k, v)" by (metis prod.collapse)
    obtain m2 where m2: "om_drop_node i ((om_unlink i m)\<lparr>om_map := (om_map m)(?k := None)\<rparr>) = (Some (?k, v), m2)"
      "om_rep m2 bs" "map (kv (nodes m2)) bs = map (kv (nodes m)) bs"
      using drop_rep [of m "[]" i bs, OF _ refl] r Cons v by (metis append_Nil)
    obtain m3 where m3: "om_drop_node i (om_unlink i m) = (Some (?k, v), m3)" "m3\<lparr>om_map := (om_map m3)(?k := None)\<rparr> = m2"
      using m2(1) by (auto simp: om_drop_node_def split: option.splits)
    have "om_pop_front m = (Some (?k, v), m2)"
      using m3 h Cons by (simp add: om_pop_front_def)
    with m2 v show ?thesis by (auto simp: om_inv_def rep_abs [OF m2(2)] rep_abs [OF r] Cons)
  qed
qed

lemma om_front_abs: "om_inv m \<Longrightarrow> om_front m = (case om_abs m of [] \<Rightarrow> None | x # _ \<Rightarrow> Some x)"
proof -
  assume "om_inv m"
  then obtain xs where r: "om_rep m xs" by (auto simp: om_inv_def)
  then have "head m = fst_or xs None" by (simp add: om_rep_def chained_def)
  moreover have "\<forall>i \<in> set xs. nodes m ! i \<noteq> None" using rep_slot [OF r] by blast
  ultimately show ?thesis
    by (cases xs) (auto simp: om_front_def rep_abs [OF r] kv_def)
qed

lemma om_new_abs: "om_inv om_new \<and> om_abs om_new = []"
proof -
  have r: "om_rep om_new []" by (simp add: om_rep_def om_new_def chained_def slots_ok_def keys_ok_def)
  then show ?thesis using rep_abs [OF r] by (auto simp: om_inv_def)
qed

lemma om_clear_abs: "om_inv (om_clear m) \<and> om_abs (om_clear m) = []"
proof -
  have r: "om_rep (om_clear m) []" by (simp add: om_rep_def om_clear_def chained_def slots_ok_def keys_ok_def)
  then show ?thesis using rep_abs [OF r] by (auto simp: om_inv_def)
qed

subsection \<open>Removal by slot\<close>

lemma upd_node_swap: "p \<noteq> i \<Longrightarrow> upd_node p f (ns[i := z]) = (upd_node p f ns)[i := z]"
  by (simp add: upd_node_def list_update_swap)

lemma upd_node_other: "p \<noteq> i \<Longrightarrow> upd_node p f ns ! i = ns ! i"
  by (simp add: upd_node_def)

lemma upd_node_over: "(upd_node i f ns)[i := z] = ns[i := z]"
  by (simp add: upd_node_def)

lemma remove_index_drop:
  assumes i: "i < length (nodes m)" and n: "nodes m ! i = Some n" and p: "prev n \<noteq> Some i" "nxt n \<noteq> Some i"
  shows "om_remove_index i m =
    (let (r, m') = om_drop_node i ((om_unlink i m)\<lparr>om_map := (om_map m)(key n := None)\<rparr>) in (map_option snd r, m'))"
proof -
  define N where "N = (case nxt n of Some x \<Rightarrow> upd_node x (prev_update (\<lambda>_. prev n))
      (case prev n of Some p \<Rightarrow> upd_node p (nxt_update (\<lambda>_. nxt n)) (nodes m) | None \<Rightarrow> nodes m)
    | None \<Rightarrow> (case prev n of Some p \<Rightarrow> upd_node p (nxt_update (\<lambda>_. nxt n)) (nodes m) | None \<Rightarrow> nodes m))"
  have Ni: "N ! i = Some n" using n p by (auto simp: N_def upd_node_other split: option.split)
  have Nl: "length N = length (nodes m)" by (auto simp: N_def split: option.split)
  have u: "om_unlink i m = m\<lparr>nodes := upd_node i (\<lambda>n. n\<lparr>prev := None, nxt := None\<rparr>) N,
      head := (if prev n = None then nxt n else head m), tail := (if nxt n = None then prev n else tail m)\<rparr>"
    using n by (simp add: om_unlink_def Let_def N_def split: option.split)
  have r: "om_remove_index i m = (Some (val n), m\<lparr>nodes := N[i := None],
      head := (if prev n = None then nxt n else head m), tail := (if nxt n = None then prev n else tail m),
      om_map := (om_map m)(key n := None), free := free m @ [i], om_len := om_len m - 1\<rparr>)"
    using i n p by (auto simp: om_remove_index_def Let_def N_def upd_node_swap split: option.split)
  have s: "upd_node i (\<lambda>n. n\<lparr>prev := None, nxt := None\<rparr>) N ! i = Some (n\<lparr>prev := None, nxt := None\<rparr>)"
    using i Nl Ni by (simp add: upd_node_def)
  show ?thesis
    by (simp add: om_drop_node_def u s r upd_node_over)
qed

lemma dll_no_self:
  assumes "dll ns p (as @ i # bs) s" "distinct (as @ i # bs)" "p = None" "s = None" "ns ! i = Some n"
  shows "prev n \<noteq> Some i \<and> nxt n \<noteq> Some i"
proof -
  have "prev n = lst_or as None" "nxt n = fst_or bs None" using assms by (auto simp: dll_append)
  moreover have "lst_or as None \<noteq> Some i" using assms(2) by (cases as rule: rev_cases) auto
  moreover have "fst_or bs None \<noteq> Some i" using assms(2) by (cases bs) auto
  ultimately show ?thesis by simp
qed

lemma remove_index_rep:
  assumes r: "om_rep m (as @ i # bs)"
  obtains m2 where "om_remove_index i m = (Some (snd (kv (nodes m) i)), m2)" "om_rep m2 (as @ bs)"
    "map (kv (nodes m2)) (as @ bs) = map (kv (nodes m)) (as @ bs)"
proof -
  obtain n where i: "i < length (nodes m)" "nodes m ! i = Some n" using rep_slot [OF r, of i] by auto
  have "dll (nodes m) None (as @ i # bs) None" "distinct (as @ i # bs)"
    using r by (simp_all add: om_rep_def chained_def)
  then have p: "prev n \<noteq> Some i" "nxt n \<noteq> Some i" using dll_no_self [OF _ _ refl refl i(2)] by blast+
  have k: "fst (kv (nodes m) i) = key n" by (simp add: kv_def i)
  obtain m2 where m2: "om_drop_node i ((om_unlink i m)\<lparr>om_map := (om_map m)(key n := None)\<rparr>) = (Some (kv (nodes m) i), m2)"
    "om_rep m2 (as @ bs)" "map (kv (nodes m2)) (as @ bs) = map (kv (nodes m)) (as @ bs)"
    using drop_rep [OF r refl] k by metis
  have "om_remove_index i m = (Some (snd (kv (nodes m) i)), m2)"
    by (simp add: remove_index_drop [OF i p] m2(1))
  with m2 that show thesis by blast
qed

subsection \<open>Loops over a map\<close>

text \<open>
  \<open>while let Some((k, v)) = front() { if !p { break } pop_front() }\<close>: the expiry loops of the
  caches.  The fuel is the length of the map, or the bound on the number of pops.
\<close>

fun om_pop_while :: "('k \<times> 'v \<Rightarrow> bool) \<Rightarrow> nat \<Rightarrow> ('k, 'v) omap \<Rightarrow> nat \<times> ('k, 'v) omap" where
  "om_pop_while p 0 m = (0, m)"
| "om_pop_while p (Suc fuel) m =
     (case om_front m of
        None \<Rightarrow> (0, m)
      | Some x \<Rightarrow>
          if \<not> p x then (0, m)
          else (let (c, m') = om_pop_while p fuel (snd (om_pop_front m)) in (c + 1, m')))"

text \<open>\<open>while len() > cap { match pop_front() { Some((k, _)) => out.push(k), None => break } }\<close>.\<close>

lemma pop_front_len:
  "om_pop_front m = (Some x, m') \<Longrightarrow> om_len m' = om_len m - 1"
  by (auto simp: om_pop_front_def om_drop_node_def split: option.splits)

function om_shrink :: "nat \<Rightarrow> ('k, 'v) omap \<Rightarrow> 'k list \<times> ('k, 'v) omap" where
  "om_shrink cap m =
     (if om_len m > cap then
        (case om_pop_front m of
           (Some (k, _), m') \<Rightarrow> (let (ks, m'') = om_shrink cap m' in (k # ks, m''))
         | (None, m') \<Rightarrow> ([], m'))
      else ([], m))"
  by pat_completeness auto
termination by (relation "measure (\<lambda>(cap, m). om_len m)") (auto dest!: pop_front_len [OF sym])

declare om_shrink.simps [simp del]

text \<open>Removal of the sampled slots whose value satisfies \<open>p\<close>, counting them.\<close>

fun om_remove_where :: "('v \<Rightarrow> bool) \<Rightarrow> nat list \<Rightarrow> ('k, 'v) omap \<Rightarrow> nat \<times> ('k, 'v) omap" where
  "om_remove_where p [] m = (0, m)"
| "om_remove_where p (i # is) m =
     (if (case om_value_at m i of Some v \<Rightarrow> p v | None \<Rightarrow> False)
      then (let (c, m') = om_remove_where p is (snd (om_remove_index i m)) in (c + 1, m'))
      else om_remove_where p is m)"

lemma om_pop_while_abs:
  assumes "om_inv m" "om_pop_while p fuel m = (c, m')"
  shows "om_inv m' \<and> c = length (takeWhile p (take fuel (om_abs m))) \<and> om_abs m' = drop c (om_abs m)"
  using assms
proof (induction p fuel m arbitrary: c m' rule: om_pop_while.induct)
  case (1 p m)
  then show ?case by simp
next
  case (2 p fuel m)
  note pf = om_pop_front_abs [OF 2(2)] and fr = om_front_abs [OF 2(2)]
  show ?case
  proof (cases "om_abs m")
    case Nil
    with 2 fr show ?thesis by simp
  next
    case (Cons x l)
    show ?thesis
    proof (cases "p x")
      case True
      obtain c1 m1 where r: "om_pop_while p fuel (snd (om_pop_front m)) = (c1, m1)" by fastforce
      have "om_inv m1 \<and> c1 = length (takeWhile p (take fuel l)) \<and> om_abs m1 = drop c1 l"
        using 2(1) [OF _ _ _ r] fr pf Cons True by simp
      then show ?thesis using 2(3) fr Cons True r by auto
    next
      case False
      then show ?thesis using 2(2,3) fr Cons by simp
    qed
  qed
qed

lemma om_pop_all:
  assumes "om_inv m" "om_pop_while p (om_len m) m = (c, m')"
  shows "om_inv m' \<and> c = length (takeWhile p (om_abs m)) \<and> om_abs m' = dropWhile p (om_abs m)"
  using om_pop_while_abs [OF assms] om_len_abs [OF assms(1)] by (simp add: dropWhile_eq_drop)

lemma om_shrink_abs:
  assumes "om_inv m" "om_shrink cap m = (ks, m')"
  shows "om_inv m' \<and> ks = map fst (take (length (om_abs m) - cap) (om_abs m))
    \<and> om_abs m' = drop (length (om_abs m) - cap) (om_abs m)"
  using assms
proof (induction cap m arbitrary: ks m' rule: om_shrink.induct)
  case (1 cap m)
  note pf = om_pop_front_abs [OF 1(2)] and ln = om_len_abs [OF 1(2)]
  show ?case
  proof (cases "om_len m > cap")
    case True
    then obtain k v l where l: "om_abs m = (k, v) # l" using ln by (cases "om_abs m") auto
    then obtain m1 where m1: "om_pop_front m = (Some (k, v), m1)" "om_inv m1" "om_abs m1 = l"
      using pf by (cases "om_pop_front m") auto
    obtain ks1 m2 where r: "om_shrink cap m1 = (ks1, m2)" by fastforce
    have "om_inv m2 \<and> ks1 = map fst (take (length l - cap) l) \<and> om_abs m2 = drop (length l - cap) l"
      using 1(1) [OF True m1(1) [symmetric] refl refl m1(2) r] m1(3) by simp
    moreover have "length (om_abs m) - cap = Suc (length l - cap)" using True ln l by simp
    ultimately show ?thesis using 1(3) True m1(1) r l by (auto simp: om_shrink.simps [of cap m])
  next
    case False
    then show ?thesis using 1(2,3) ln by (simp add: om_shrink.simps [of cap m])
  qed
qed

lemma om_shrink_len: "om_inv m \<Longrightarrow> om_shrink cap m = (ks, m') \<Longrightarrow> om_len m' = min cap (om_len m)"
  using om_shrink_abs [of m cap ks m'] om_len_abs [of m] om_len_abs [of m'] by simp

lemma om_remove_where_rep:
  assumes "om_rep m xs" "distinct is" "set is \<subseteq> set xs" "om_remove_where p is m = (c, m')"
  shows "\<exists>ys. om_rep m' ys \<and> ys = filter (\<lambda>i. \<not> (i \<in> set is \<and> p (snd (kv (nodes m) i)))) xs
    \<and> map (kv (nodes m')) ys = map (kv (nodes m)) ys \<and> c + length ys = length xs"
  using assms
proof (induction p "is" m arbitrary: xs c m' rule: om_remove_where.induct)
  case (1 p m)
  then show ?case by simp
next
  case (2 p i "is" m)
  have i: "i \<in> set xs" "i \<notin> set is" "distinct is" "set is \<subseteq> set xs" using 2(4,5) by auto
  have slot: "i < length (nodes m)" "nodes m ! i \<noteq> None" using rep_slot [OF 2(3) i(1)] by auto
  then have v: "om_value_at m i = Some (snd (kv (nodes m) i))" by (auto simp: om_value_at_def kv_def)
  show ?case
  proof (cases "p (snd (kv (nodes m) i))")
    case True
    obtain as bs where xs: "xs = as @ i # bs" using i(1) by (meson split_list)
    obtain m1 where m1: "om_remove_index i m = (Some (snd (kv (nodes m) i)), m1)" "om_rep m1 (as @ bs)"
      "map (kv (nodes m1)) (as @ bs) = map (kv (nodes m)) (as @ bs)"
      using remove_index_rep [OF 2(3) [unfolded xs]] by metis
    have d: "i \<notin> set (as @ bs)" using 2(3) xs by (auto simp: om_rep_def chained_def)
    have s: "set is \<subseteq> set (as @ bs)" using i xs by auto
    obtain c1 where r: "om_remove_where p is m1 = (c1, m')"
      using 2(6) True v m1(1) by (auto split: prod.splits)
    have kv1: "j \<in> set (as @ bs) \<Longrightarrow> kv (nodes m1) j = kv (nodes m) j" for j
      using m1(3) by (meson map_eq_conv)
    have "\<exists>ys. om_rep m' ys \<and> ys = filter (\<lambda>j. \<not> (j \<in> set is \<and> p (snd (kv (nodes m1) j)))) (as @ bs)
      \<and> map (kv (nodes m')) ys = map (kv (nodes m1)) ys \<and> c1 + length ys = length (as @ bs)"
      using 2(1) [of "as @ bs" c1 m'] True v m1 i(3) s r by simp
    then obtain ys where ys: "om_rep m' ys" "ys = filter (\<lambda>j. \<not> (j \<in> set is \<and> p (snd (kv (nodes m1) j)))) (as @ bs)"
      "map (kv (nodes m')) ys = map (kv (nodes m1)) ys" "c1 + length ys = length (as @ bs)" by blast
    have "ys = filter (\<lambda>j. \<not> (j \<in> set (i # is) \<and> p (snd (kv (nodes m) j)))) xs"
    proof -
      have "ys = filter (\<lambda>j. \<not> (j \<in> set (i # is) \<and> p (snd (kv (nodes m) j)))) (as @ bs)"
        unfolding ys(2) by (rule filter_cong [OF refl]) (use kv1 d in auto)
      then show ?thesis using True by (simp add: xs)
    qed
    moreover have "map (kv (nodes m')) ys = map (kv (nodes m)) ys"
      using ys(2,3) kv1 by (auto simp: map_eq_conv)
    moreover have "c + length ys = length xs" using ys(4) 2(6) True v m1(1) r by (simp add: xs)
    ultimately show ?thesis using ys(1) by blast
  next
    case False
    then have "om_remove_where p is m = (c, m')" using 2(6) v by simp
    then have "\<exists>ys. om_rep m' ys \<and> ys = filter (\<lambda>j. \<not> (j \<in> set is \<and> p (snd (kv (nodes m) j)))) xs
      \<and> map (kv (nodes m')) ys = map (kv (nodes m)) ys \<and> c + length ys = length xs"
      using 2(2) [of xs c m'] False v 2(3) i by simp
    then obtain ys where ys: "om_rep m' ys" "ys = filter (\<lambda>j. \<not> (j \<in> set is \<and> p (snd (kv (nodes m) j)))) xs"
      "map (kv (nodes m')) ys = map (kv (nodes m)) ys" "c + length ys = length xs" by blast
    have "ys = filter (\<lambda>j. \<not> (j \<in> set (i # is) \<and> p (snd (kv (nodes m) j)))) xs"
      unfolding ys(2) by (rule filter_cong [OF refl]) (use False in auto)
    then show ?thesis using ys by blast
  qed
qed

text \<open>The sample is a stretch of the list: its expired members go, everything else stays.\<close>

lemma om_remove_where_abs:
  assumes "om_inv m" "om_remove_where p (om_range_indices m pos step) m = (c, m')"
  shows "om_inv m' \<and> om_abs m' = take pos (om_abs m)
    @ filter (\<lambda>(k, v). \<not> p v) (take step (drop pos (om_abs m))) @ drop (pos + step) (om_abs m)
    \<and> c + length (om_abs m') = length (om_abs m)"
proof -
  obtain xs where r: "om_rep m xs" using assms(1) by (auto simp: om_inv_def)
  let ?is = "take step (drop pos xs)"
  have is_: "om_range_indices m pos step = ?is" by (simp add: range_indices_walk rep_indices [OF r])
  have d: "distinct xs" using r by (simp add: om_rep_def chained_def)
  have xs: "xs = take pos xs @ ?is @ drop (pos + step) xs"
    by (metis append_take_drop_id drop_drop add.commute)
  have dj: "distinct (take pos xs @ ?is @ drop (pos + step) xs)" using d xs by simp
  have s: "set ?is \<subseteq> set xs" by (meson set_drop_subset set_take_subset subset_trans)
  obtain ys where ys: "om_rep m' ys" "ys = filter (\<lambda>i. \<not> (i \<in> set ?is \<and> p (snd (kv (nodes m) i)))) xs"
    "map (kv (nodes m')) ys = map (kv (nodes m)) ys" "c + length ys = length xs"
    using om_remove_where_rep [OF r _ s assms(2) [unfolded is_]] d by auto
  have f: "filter (\<lambda>i. \<not> (i \<in> set zs \<and> p (snd (kv (nodes m) i)))) (as @ zs @ bs)
      = as @ filter (\<lambda>i. \<not> p (snd (kv (nodes m) i))) zs @ bs"
    if "distinct (as @ zs @ bs)" for as zs bs :: "nat list"
  proof -
    have "filter (\<lambda>i. \<not> (i \<in> set zs \<and> p (snd (kv (nodes m) i)))) as = as"
      "filter (\<lambda>i. \<not> (i \<in> set zs \<and> p (snd (kv (nodes m) i)))) bs = bs"
      using that by (auto simp: filter_id_conv)
    moreover have "filter (\<lambda>i. \<not> (i \<in> set zs \<and> p (snd (kv (nodes m) i)))) zs
        = filter (\<lambda>i. \<not> p (snd (kv (nodes m) i))) zs"
      by (rule filter_cong) auto
    ultimately show ?thesis by (simp only: filter_append)
  qed
  have "ys = take pos xs @ filter (\<lambda>i. \<not> p (snd (kv (nodes m) i))) ?is @ drop (pos + step) xs"
    using f [OF dj] xs ys(2) by metis
  then have "om_abs m' = map (kv (nodes m)) (take pos xs @ filter (\<lambda>i. \<not> p (snd (kv (nodes m) i))) ?is @ drop (pos + step) xs)"
    using ys(3) rep_abs [OF ys(1)] by simp
  moreover have "length (om_abs m') = length ys" "length (om_abs m) = length xs"
    by (simp_all add: rep_abs [OF ys(1)] rep_abs [OF r])
  ultimately show ?thesis
    using ys(1,4) by (auto simp: om_inv_def rep_abs [OF r] take_map drop_map filter_map comp_def case_prod_beta')
qed

subsection \<open>The interface\<close>

text \<open>
  What a client of the ordered map relies on: an invariant, the list it stands for, and each
  operation as a list operation.  The lookups after an operation follow once for all.
\<close>

locale ordered_map =
  fixes inv :: "'m \<Rightarrow> bool"
    and alist :: "'m \<Rightarrow> ('k \<times> 'v) list"
    and lookup :: "'m \<Rightarrow> 'k \<Rightarrow> 'v option"
    and insert :: "'k \<Rightarrow> 'v \<Rightarrow> 'm \<Rightarrow> 'm"
    and push :: "'k \<Rightarrow> 'v \<Rightarrow> 'm \<Rightarrow> 'm"
    and remove :: "'k \<Rightarrow> 'm \<Rightarrow> ('k \<times> 'v) option \<times> 'm"
    and to_end :: "'k \<Rightarrow> 'm \<Rightarrow> 'm"
    and pop :: "'m \<Rightarrow> ('k \<times> 'v) option \<times> 'm"
  assumes keys: "inv m \<Longrightarrow> distinct (map fst (alist m))"
    and lookup: "inv m \<Longrightarrow> lookup m k = map_of (alist m) k"
    and insert: "inv m \<Longrightarrow> inv (insert k v m) \<and> alist (insert k v m) = al_del k (alist m) @ [(k, v)]"
    and push: "inv m \<Longrightarrow> inv (push k v m) \<and> alist (push k v m) = (k, v) # al_del k (alist m)"
    and remove: "inv m \<Longrightarrow> inv (snd (remove k m)) \<and> alist (snd (remove k m)) = al_del k (alist m)
      \<and> fst (remove k m) = map_option (\<lambda>v. (k, v)) (map_of (alist m) k)"
    and to_end: "inv m \<Longrightarrow> inv (to_end k m) \<and> alist (to_end k m) =
      (case map_of (alist m) k of Some v \<Rightarrow> al_del k (alist m) @ [(k, v)] | None \<Rightarrow> alist m)"
    and pop: "inv m \<Longrightarrow> inv (snd (pop m)) \<and> alist (snd (pop m)) = tl (alist m)
      \<and> fst (pop m) = (case alist m of [] \<Rightarrow> None | x # _ \<Rightarrow> Some x)"
begin

lemma lookup_insert: "inv m \<Longrightarrow> lookup (insert k v m) k' = (if k' = k then Some v else lookup m k')"
  by (simp add: lookup insert map_add_def map_of_al_del split: option.split)

lemma lookup_push: "inv m \<Longrightarrow> lookup (push k v m) k' = (if k' = k then Some v else lookup m k')"
  by (simp add: lookup push map_of_al_del)

lemma lookup_remove: "inv m \<Longrightarrow> lookup (snd (remove k m)) k' = (if k' = k then None else lookup m k')"
  by (simp add: lookup remove map_of_al_del)

lemma lookup_to_end: "inv m \<Longrightarrow> lookup (to_end k m) k' = lookup m k'"
  by (auto simp: lookup to_end map_add_def map_of_al_del split: option.split)

lemma length_insert: "inv m \<Longrightarrow> length (alist (insert k v m)) \<le> Suc (length (alist m))"
  by (simp add: insert length_al_del)

lemma length_to_end: "inv m \<Longrightarrow> length (alist (to_end k m)) = length (alist m)"
proof -
  assume i: "inv m"
  have "map_of l k = Some v \<Longrightarrow> distinct (map fst l) \<Longrightarrow> Suc (length (al_del k l)) = length l" for l and v :: 'v
  proof (induction l)
    case (Cons x l)
    then show ?case by (cases x) (auto simp: al_del_id split: if_splits)
  qed simp
  with i show ?thesis by (auto simp: to_end keys split: option.split)
qed

lemma lookup_pop:
  assumes "inv m" "pop m = (Some (k, v), m')"
  shows "lookup m k = Some v \<and> lookup m' k' = (if k' = k then None else lookup m k')"
proof -
  from pop [OF assms(1)] assms(2) obtain l where l: "alist m = (k, v) # l" "alist m' = l" "inv m'"
    by (cases "alist m") auto
  have "k \<notin> fst ` set l" using keys [OF assms(1)] l by simp
  then have "map_of l k = None" by (simp add: map_of_eq_None_iff)
  with l assms(1) show ?thesis by (auto simp: lookup)
qed

end

interpretation om: ordered_map om_inv om_abs om_get om_insert om_push_front om_remove_entry om_move_to_end om_pop_front
proof unfold_locales
  fix m :: "('a, 'b) omap" and k v
  assume i: "om_inv m"
  show "distinct (map fst (om_abs m))" by (rule om_distinct [OF i])
  show "om_get m k = map_of (om_abs m) k" by (rule om_get_abs [OF i])
  show "om_inv (om_insert k v m) \<and> om_abs (om_insert k v m) = al_del k (om_abs m) @ [(k, v)]"
    by (rule om_insert_abs [OF i])
  show "om_inv (om_push_front k v m) \<and> om_abs (om_push_front k v m) = (k, v) # al_del k (om_abs m)"
    by (rule om_push_front_abs [OF i])
  show "om_inv (snd (om_remove_entry k m)) \<and> om_abs (snd (om_remove_entry k m)) = al_del k (om_abs m)
      \<and> fst (om_remove_entry k m) = map_option (\<lambda>v. (k, v)) (map_of (om_abs m) k)"
    using om_remove_entry_abs [OF i, of k] by blast
  show "om_inv (om_move_to_end k m) \<and> om_abs (om_move_to_end k m) =
      (case map_of (om_abs m) k of Some v \<Rightarrow> al_del k (om_abs m) @ [(k, v)] | None \<Rightarrow> om_abs m)"
    using om_move_abs [OF i, of k] by blast
  show "om_inv (snd (om_pop_front m)) \<and> om_abs (snd (om_pop_front m)) = tl (om_abs m)
      \<and> fst (om_pop_front m) = (case om_abs m of [] \<Rightarrow> None | x # _ \<Rightarrow> Some x)"
    by (rule om_pop_front_abs [OF i])
qed

subsection \<open>Histories\<close>

datatype ('k, 'v) om_op =
  Ins 'k 'v | PushFront 'k 'v | MoveEnd 'k | MoveFront 'k | Rem 'k | PopFront | Clear

fun om_step :: "('k, 'v) om_op \<Rightarrow> ('k, 'v) omap \<Rightarrow> ('k, 'v) omap" where
  "om_step (Ins k v) m = om_insert k v m"
| "om_step (PushFront k v) m = om_push_front k v m"
| "om_step (MoveEnd k) m = om_move_to_end k m"
| "om_step (MoveFront k) m = om_move_to_front k m"
| "om_step (Rem k) m = snd (om_remove k m)"
| "om_step PopFront m = snd (om_pop_front m)"
| "om_step Clear m = om_clear m"

fun al_step :: "('k, 'v) om_op \<Rightarrow> ('k \<times> 'v) list \<Rightarrow> ('k \<times> 'v) list" where
  "al_step (Ins k v) l = al_del k l @ [(k, v)]"
| "al_step (PushFront k v) l = (k, v) # al_del k l"
| "al_step (MoveEnd k) l = (case map_of l k of Some v \<Rightarrow> al_del k l @ [(k, v)] | None \<Rightarrow> l)"
| "al_step (MoveFront k) l = (case map_of l k of Some v \<Rightarrow> (k, v) # al_del k l | None \<Rightarrow> l)"
| "al_step (Rem k) l = al_del k l"
| "al_step PopFront l = tl l"
| "al_step Clear l = []"

lemma om_step_abs: "om_inv m \<Longrightarrow> om_inv (om_step op m) \<and> om_abs (om_step op m) = al_step op (om_abs m)"
proof -
  assume i: "om_inv m"
  note I = om_insert_abs [OF i] om_push_front_abs [OF i] om_move_abs [OF i] om_pop_front_abs [OF i] om_clear_abs
    om_remove_entry_abs [OF i]
  show ?thesis by (cases op) (simp_all add: I)
qed

lemma om_run_abs:
  "om_inv m \<Longrightarrow> om_inv (fold om_step ops m) \<and> om_abs (fold om_step ops m) = fold al_step ops (om_abs m)"
  by (induction ops arbitrary: m) (simp_all add: om_step_abs)

text \<open>
  C7: After any sequence of operations on an empty ordered map, the arena is a well-formed
  doubly linked list and represents exactly the association list the operations describe:
  lookups, length, iteration and the front are those of that list.
\<close>

theorem ordered_map_simulation:
  "let m = fold om_step ops om_new; l = fold al_step ops [] in
     om_inv m \<and> om_abs m = l \<and> distinct (map fst l) \<and> om_get m k = map_of l k
     \<and> (om_contains_key m k \<longleftrightarrow> k \<in> fst ` set l) \<and> om_len m = length l \<and> om_iter m = l
     \<and> om_front m = (case l of [] \<Rightarrow> None | x # _ \<Rightarrow> Some x)
     \<and> om_pop_front m = (om_front m, om_step PopFront m)"
proof -
  define m where "m = fold om_step ops om_new"
  have i: "om_inv m" and a: "om_abs m = fold al_step ops []"
    using om_run_abs [OF conjunct1 [OF om_new_abs], of ops] by (simp_all add: m_def conjunct2 [OF om_new_abs])
  have p: "om_pop_front m = (om_front m, om_step PopFront m)"
    using om_pop_front_abs [OF i] om_front_abs [OF i] by (simp add: prod_eq_iff)
  show ?thesis
    unfolding Let_def m_def [symmetric] a [symmetric]
    using i p om_distinct [OF i] om_get_abs [OF i, of k] om_contains_abs [OF i, of k] om_len_abs [OF i]
      om_iter_abs [OF i] om_front_abs [OF i] by blast
qed

end
