(* ===== verification/Cache_Entry.thy ===== *)
theory Cache_Entry
  imports Prelude
begin

text \<open>
  \<open>ebpdns-cache/src/entry.rs\<close> and \<open>util.rs\<close>: the keys and entries of the cache, and the
  judgements every restore path shares.

  The times of an entry (\<open>f64\<close> epoch seconds) are reals: comparisons and sums are exact, and
  an entry's times are finite.  Where the code treats the non-finite values of an \<open>f64\<close>
  (\<open>safe_float\<close>, \<open>has_absolute_expiry\<close>) the argument is the type \<open>f64\<close> below.
\<close>

record cache_key =
  key_group :: "str option"
  key_domain :: str
  key_qtype :: str

definition cache_key_new :: "str \<Rightarrow> str \<Rightarrow> cache_key" where
  "cache_key_new d q = \<lparr>key_group = None, key_domain = d, key_qtype = q\<rparr>"

definition with_group :: "str \<Rightarrow> str \<Rightarrow> str \<Rightarrow> cache_key" where
  "with_group g d q = \<lparr>key_group = Some g, key_domain = d, key_qtype = q\<rparr>"

definition to_key_array :: "cache_key \<Rightarrow> str list" where
  "to_key_array k =
     (case key_group k of
        Some g \<Rightarrow> [g, key_domain k, key_qtype k]
      | None \<Rightarrow> [key_domain k, key_qtype k])"

record cache_answer =
  ca_value :: str
  ca_ttl :: real
  ca_rtype :: u16
  ca_name :: "str option"

record cache_entry =
  ce_domain :: str
  ce_qtype :: str
  ce_answers :: "cache_answer list"
  ce_chosen :: str
  ce_ttl :: real
  ce_rcode :: u8
  ce_expires_at :: real
  ce_rule_gen :: u64
  ce_seq :: u64

text \<open>\<open>PartialEq\<close> of an entry leaves the persistence counter \<open>seq\<close> out.\<close>

definition cache_entry_eq :: "cache_entry \<Rightarrow> cache_entry \<Rightarrow> bool" where
  "cache_entry_eq a b \<longleftrightarrow>
     ce_domain a = ce_domain b \<and> ce_qtype a = ce_qtype b \<and> ce_answers a = ce_answers b
     \<and> ce_chosen a = ce_chosen b \<and> ce_ttl a = ce_ttl b \<and> ce_rcode a = ce_rcode b
     \<and> ce_expires_at a = ce_expires_at b \<and> ce_rule_gen a = ce_rule_gen b"

definition cache_entry_new :: "str \<Rightarrow> str \<Rightarrow> real \<Rightarrow> real \<Rightarrow> cache_entry" where
  "cache_entry_new d q ttl now =
     \<lparr>ce_domain = d, ce_qtype = q,
      ce_answers = [\<lparr>ca_value = lit ''1.2.3.4'', ca_ttl = ttl, ca_rtype = 1, ca_name = None\<rparr>],
      ce_chosen = lit ''1.2.3.4'', ce_ttl = ttl, ce_rcode = 0, ce_expires_at = now + ttl,
      ce_rule_gen = 0, ce_seq = 0\<rparr>"

lemma cache_entry_eq_refl [simp]: "cache_entry_eq a a"
  by (simp add: cache_entry_eq_def)

lemma cache_entry_eq_trans: "cache_entry_eq a b \<Longrightarrow> cache_entry_eq b c \<Longrightarrow> cache_entry_eq a c"
  by (simp add: cache_entry_eq_def)

lemma cache_entry_eq_sym: "cache_entry_eq a b \<Longrightarrow> cache_entry_eq b a"
  by (simp add: cache_entry_eq_def)

lemma cache_entry_eq_seq [simp]: "cache_entry_eq (e\<lparr>ce_seq := n\<rparr>) e" "cache_entry_eq e (e\<lparr>ce_seq := n\<rparr>)"
  by (simp_all add: cache_entry_eq_def)

subsection \<open>JSON records\<close>

text \<open>The values of an \<open>f64\<close> the restore code distinguishes.\<close>

datatype f64 = Fin real | PosInf | NegInf | NaN

fun is_finite :: "f64 \<Rightarrow> bool" where
  "is_finite (Fin _) = True"
| "is_finite _ = False"

fun f64_pos :: "f64 \<Rightarrow> bool" where
  "f64_pos (Fin r) \<longleftrightarrow> r > 0"
| "f64_pos PosInf \<longleftrightarrow> True"
| "f64_pos _ \<longleftrightarrow> False"

definition safe_float :: "f64 \<Rightarrow> real \<Rightarrow> real" where
  "safe_float v d = (case v of Fin r \<Rightarrow> r | _ \<Rightarrow> d)"

definition clamp_capacity :: "nat option \<Rightarrow> nat" where
  "clamp_capacity n = max (case n of None \<Rightarrow> 1024 | Some v \<Rightarrow> v) 16"

text \<open>\<open>serde_json::Value\<close>; a number is an integer of at most 64 bits, or finite, as JSON has no other.\<close>

datatype json =
  JNull
| JBool bool
| JInt int
| JNum real
| JStr str
| JArr "json list"
| JObj "(str \<times> json) list"

fun json_get :: "json \<Rightarrow> str \<Rightarrow> json option" where
  "json_get (JObj m) k = map_of m k"
| "json_get _ k = None"

fun json_as_f64 :: "json \<Rightarrow> f64 option" where
  "json_as_f64 (JNum r) = Some (Fin r)"
| "json_as_f64 (JInt n) = Some (Fin (of_int n))"
| "json_as_f64 _ = None"

fun json_as_u64 :: "json \<Rightarrow> u64 option" where
  "json_as_u64 (JInt n) = (if 0 \<le> n \<and> n < 2 ^ 64 then Some (word_of_int n) else None)"
| "json_as_u64 _ = None"

fun json_as_bool :: "json \<Rightarrow> bool option" where
  "json_as_bool (JBool b) = Some b"
| "json_as_bool _ = None"

fun json_as_object :: "json \<Rightarrow> (str \<times> json) list option" where
  "json_as_object (JObj m) = Some m"
| "json_as_object _ = None"

fun json_as_str :: "json \<Rightarrow> str option" where
  "json_as_str (JStr s) = Some s"
| "json_as_str _ = None"

fun json_as_array :: "json \<Rightarrow> json list option" where
  "json_as_array (JArr l) = Some l"
| "json_as_array _ = None"

definition json_f64 :: "json option \<Rightarrow> f64 \<Rightarrow> f64" where
  "json_f64 v d =
     (case Option.bind v json_as_f64 of
        Some f \<Rightarrow> if is_finite f then f else d
      | None \<Rightarrow> d)"

definition has_absolute_expiry :: "json \<Rightarrow> bool" where
  "has_absolute_expiry e =
     (let a = json_f64 (json_get e (lit ''expires_at'')) NaN in is_finite a \<and> f64_pos a)"

definition is_legacy_format :: "json \<Rightarrow> bool" where
  "is_legacy_format e \<longleftrightarrow> \<not> has_absolute_expiry e \<and> json_get e (lit ''remaining'') \<noteq> None"

datatype structural_issue = KeyNotArray | KeyLenInvalid | DomainQtypeMissing | AnswersRcodeMissing

fun issue_idx :: "structural_issue \<Rightarrow> nat" where
  "issue_idx KeyNotArray = 0"
| "issue_idx KeyLenInvalid = 1"
| "issue_idx DomainQtypeMissing = 2"
| "issue_idx AnswersRcodeMissing = 3"

record parsed_key =
  pk_group :: "str option"
  pk_domain :: str
  pk_qtype :: str
  pk_key_len :: nat

definition structural_check :: "json \<Rightarrow> structural_issue + parsed_key" where
  "structural_check e =
     bindE (ok_or (Option.bind (json_get e (lit ''key'')) json_as_array) KeyNotArray) (\<lambda>arr.
     let key_len = length arr in
     bindE (if key_len = 3 then Inr (json_as_str (arr ! 0), 1, 2)
            else if key_len = 2 then Inr (None, 0, 1)
            else Inl KeyLenInvalid) (\<lambda>(group, di, qi).
     bindE (ok_or (json_as_str (arr ! di)) DomainQtypeMissing) (\<lambda>domain.
     bindE (ok_or (json_as_str (arr ! qi)) DomainQtypeMissing) (\<lambda>qtype.
     if json_get e (lit ''answers'') = None \<or> json_get e (lit ''rcode'') = None
     then Inl AnswersRcodeMissing
     else Inr \<lparr>pk_group = group, pk_domain = domain, pk_qtype = qtype, pk_key_len = key_len\<rparr>))))"

subsection \<open>Times\<close>

definition resolve_restored_expiry :: "f64 \<Rightarrow> real \<Rightarrow> real \<Rightarrow> real option" where
  "resolve_restored_expiry a now pt =
     (if pt > 0 then Some (now + pt)
      else case a of
        Fin r \<Rightarrow> if r > now then Some r else None
      | _ \<Rightarrow> None)"

lemma resolve_fresh: "resolve_restored_expiry a now pt = Some x \<Longrightarrow> now < x"
  by (auto simp: resolve_restored_expiry_def split: if_splits f64.splits)

lemma resolve_not_extended: "resolve_restored_expiry a now 0 = Some x \<Longrightarrow> a = Fin x"
  by (auto simp: resolve_restored_expiry_def split: if_splits f64.splits)

text \<open>
  \<open>round1\<close>: one decimal, ties to even on the exact value (Rust's \<open>{:.1}\<close>); from \<open>2 ^ 52\<close> on
  an \<open>f64\<close> is an integer already.
\<close>

definition half_even :: "real \<Rightarrow> int" where
  "half_even x =
     (let f = \<lfloor>x\<rfloor>; d = x - of_int f in
      if d < 1 / 2 then f else if d > 1 / 2 then f + 1 else if even f then f else f + 1)"

definition round1 :: "f64 \<Rightarrow> f64" where
  "round1 v =
     (case v of
        Fin r \<Rightarrow> if \<bar>r\<bar> \<ge> 4503599627370496 then v else Fin (of_int (half_even (r * 10)) / 10)
      | _ \<Rightarrow> v)"

lemma half_even_near: "\<bar>of_int (half_even x) - x\<bar> \<le> 1 / 2"
proof -
  have "of_int \<lfloor>x\<rfloor> \<le> x" "x < of_int \<lfloor>x\<rfloor> + 1" by linarith+
  then show ?thesis by (simp add: half_even_def Let_def abs_le_iff)
qed

lemma round1_near: "\<exists>q. round1 (Fin r) = Fin q \<and> \<bar>q - r\<bar> \<le> 1 / 20"
proof (cases "\<bar>r\<bar> \<ge> 4503599627370496")
  case True
  then show ?thesis by (simp add: round1_def)
next
  case False
  let ?h = "real_of_int (half_even (r * 10))"
  have "\<bar>?h / 10 - r\<bar> \<le> 1 / 20" using half_even_near [of "r * 10"] by linarith
  moreover have "round1 (Fin r) = Fin (?h / 10)" using False by (simp add: round1_def)
  ultimately show ?thesis by blast
qed

end
