(* ===== verification/Journal.thy ===== *)
theory Journal
  imports Cache_Entry
begin

text \<open>
  \<open>ebpdns-cache/src/persist/journal.rs\<close>: the bounded journal between the caches and the
  thread that writes the log.  A cache operation allocates a sequence number and tries to
  queue an event; a full or closed queue drops the event, counts it and asks for a full
  snapshot.  The \<open>sync_channel\<close> is its queue and a flag that its receiver is alive.

  The atomics are fields: every operation runs inside one critical section (\<open>order_guard\<close>).
\<close>

datatype evict_reason = Capacity | RuleGen | AdminEvict | Explicit | Resize

datatype clear_reason = GroupFlip | AdminClear | PolicySwap | Resync

fun evict_code :: "evict_reason \<Rightarrow> u8" where
  "evict_code Capacity = 1"
| "evict_code RuleGen = 2"
| "evict_code AdminEvict = 3"
| "evict_code Explicit = 4"
| "evict_code Resize = 5"

fun clear_code :: "clear_reason \<Rightarrow> u8" where
  "clear_code GroupFlip = 1"
| "clear_code AdminClear = 2"
| "clear_code PolicySwap = 3"
| "clear_code Resync = 4"

datatype event =
  EvPut u64 cache_key cache_entry
| EvEvict u64 cache_key evict_reason
| EvClear u64 clear_reason

fun event_seq :: "event \<Rightarrow> u64" where
  "event_seq (EvPut s _ _) = s"
| "event_seq (EvEvict s _ _) = s"
| "event_seq (EvClear s _) = s"

record channel =
  ring :: "event list"
  receiver_alive :: bool

record journal =
  j_tx :: "channel option"
  j_next_seq :: u64
  j_suspended :: nat
  j_enabled :: bool
  j_dropped :: u64
  j_needs_resync :: bool
  j_snapshot_req :: "str option"
  j_stats_dropped :: u64

definition JOURNAL_RING :: nat where
  "JOURNAL_RING = 8192"

definition journal_new :: journal where
  "journal_new = \<lparr>j_tx = Some \<lparr>ring = [], receiver_alive = True\<rparr>, j_next_seq = 0, j_suspended = 0,
     j_enabled = True, j_dropped = 0, j_needs_resync = False, j_snapshot_req = None, j_stats_dropped = 0\<rparr>"

definition journal_disabled :: journal where
  "journal_disabled = \<lparr>j_tx = None, j_next_seq = 0, j_suspended = 0,
     j_enabled = False, j_dropped = 0, j_needs_resync = False, j_snapshot_req = None, j_stats_dropped = 0\<rparr>"

definition journal_enable :: "bool \<Rightarrow> journal \<Rightarrow> journal" where
  "journal_enable on j = j\<lparr>j_enabled := on\<rparr>"

text \<open>\<open>fetch_add(1) + 1\<close>.\<close>

definition next_seq :: "journal \<Rightarrow> u64 \<times> journal" where
  "next_seq j = (j_next_seq j + 1, j\<lparr>j_next_seq := j_next_seq j + 1\<rparr>)"

definition set_next_seq_at_least :: "u64 \<Rightarrow> journal \<Rightarrow> journal" where
  "set_next_seq_at_least v j = (if j_next_seq j < v then j\<lparr>j_next_seq := v\<rparr> else j)"

definition journal_suspend :: "journal \<Rightarrow> journal" where
  "journal_suspend j = j\<lparr>j_suspended := j_suspended j + 1\<rparr>"

definition journal_resume :: "journal \<Rightarrow> journal" where
  "journal_resume j = (if j_suspended j > 0 then j\<lparr>j_suspended := j_suspended j - 1\<rparr> else j)"

definition is_suspended :: "journal \<Rightarrow> bool" where
  "is_suspended j \<longleftrightarrow> j_suspended j > 0"

definition journal_send :: "event \<Rightarrow> journal \<Rightarrow> journal" where
  "journal_send ev j =
     (if \<not> j_enabled j \<or> is_suspended j then j
      else case j_tx j of
        None \<Rightarrow> j
      | Some tx \<Rightarrow>
          if receiver_alive tx \<and> length (ring tx) < JOURNAL_RING
          then j\<lparr>j_tx := Some (tx\<lparr>ring := ring tx @ [ev]\<rparr>)\<rparr>
          else j\<lparr>j_dropped := j_dropped j + 1, j_stats_dropped := j_stats_dropped j + 1,
                 j_needs_resync := True\<rparr>)"

definition journal_put :: "cache_key \<Rightarrow> cache_entry \<Rightarrow> u64 \<Rightarrow> journal \<Rightarrow> journal" where
  "journal_put k e s j = journal_send (EvPut s k e) j"

definition journal_evict :: "cache_key \<Rightarrow> evict_reason \<Rightarrow> u64 \<Rightarrow> journal \<Rightarrow> journal" where
  "journal_evict k r s j = journal_send (EvEvict s k r) j"

definition journal_clear :: "clear_reason \<Rightarrow> u64 \<Rightarrow> journal \<Rightarrow> journal" where
  "journal_clear r s j = journal_send (EvClear s r) j"

definition take_needs_resync :: "journal \<Rightarrow> bool \<times> journal" where
  "take_needs_resync j = (j_needs_resync j, j\<lparr>j_needs_resync := False\<rparr>)"

definition request_snapshot :: "str \<Rightarrow> journal \<Rightarrow> journal" where
  "request_snapshot r j = j\<lparr>j_snapshot_req := Some r\<rparr>"

definition take_snapshot_request :: "journal \<Rightarrow> str option \<times> journal" where
  "take_snapshot_request j = (j_snapshot_req j, j\<lparr>j_snapshot_req := None\<rparr>)"

definition queued :: "journal \<Rightarrow> event list" where
  "queued j = (case j_tx j of None \<Rightarrow> [] | Some tx \<Rightarrow> ring tx)"

text \<open>The receiver takes the oldest event.\<close>

definition journal_recv :: "journal \<Rightarrow> event option \<times> journal" where
  "journal_recv j =
     (case j_tx j of
        None \<Rightarrow> (None, j)
      | Some tx \<Rightarrow>
          (case ring tx of
             [] \<Rightarrow> (None, j)
           | ev # evs \<Rightarrow> (Some ev, j\<lparr>j_tx := Some (tx\<lparr>ring := evs\<rparr>)\<rparr>)))"

subsection \<open>What the journal keeps\<close>

text \<open>
  An event is queued, or it is dropped and a resynchronisation is pending, or the journal
  is off; nothing is lost silently.
\<close>

definition journal_off :: "journal \<Rightarrow> bool" where
  "journal_off j \<longleftrightarrow> \<not> j_enabled j \<or> is_suspended j \<or> j_tx j = None"

lemma journal_send_cases:
  obtains (off) "journal_off j" "journal_send ev j = j"
  | (queued) "\<not> journal_off j" "queued (journal_send ev j) = queued j @ [ev]"
      "j_needs_resync (journal_send ev j) = j_needs_resync j"
  | (dropped) "\<not> journal_off j" "queued (journal_send ev j) = queued j" "j_needs_resync (journal_send ev j)"
      "j_dropped (journal_send ev j) = j_dropped j + 1"
proof (cases "journal_off j")
  case True
  then show ?thesis using off by (auto simp: journal_off_def journal_send_def split: option.split)
next
  case False
  then obtain tx where "j_tx j = Some tx" "j_enabled j" "\<not> is_suspended j" by (auto simp: journal_off_def)
  then show ?thesis
    using queued dropped False by (cases "receiver_alive tx \<and> length (ring tx) < JOURNAL_RING")
      (auto simp: journal_send_def queued_def)
qed

lemma journal_send_fields [simp]:
  "j_next_seq (journal_send ev j) = j_next_seq j" "j_enabled (journal_send ev j) = j_enabled j"
  "j_suspended (journal_send ev j) = j_suspended j" "j_tx (journal_send ev j) = None \<longleftrightarrow> j_tx j = None"
  by (auto simp: journal_send_def split: option.split)

lemma journal_off_send [simp]: "journal_off (journal_send ev j) = journal_off j"
  by (simp add: journal_off_def is_suspended_def)

end
