(* ===== verification/Dns_Cache.thy ===== *)
theory Dns_Cache
  imports Journal
begin

text \<open>
  The trait \<open>DnsCache\<close> of \<open>ebpdns-cache/src/lib.rs\<close>: the operations a cache policy offers, as
  a record of functions over the policy's state (a \<open>dyn DnsCache\<close>), and the contract every
  policy keeps, as a locale.  What follows from the contract alone is proved once here: over any
  history of calls a cache serves nothing but the latest entry stored for the key, unexpired.
\<close>

record 's dns_cache_ops =
  op_get :: "cache_key \<Rightarrow> real \<Rightarrow> 's \<Rightarrow> cache_entry option \<times> 's"
  op_get_stale :: "cache_key \<Rightarrow> real \<Rightarrow> real \<Rightarrow> 's \<Rightarrow> cache_entry option \<times> 's"
  op_peek :: "cache_key \<Rightarrow> real \<Rightarrow> 's \<Rightarrow> cache_entry option \<times> 's"
  op_put :: "cache_key \<Rightarrow> cache_entry \<Rightarrow> real \<Rightarrow> 's \<Rightarrow> 's"
  op_delete :: "cache_key \<Rightarrow> 's \<Rightarrow> 's"
  op_clear :: "'s \<Rightarrow> 's"
  op_len :: "'s \<Rightarrow> nat"
  op_keys :: "'s \<Rightarrow> cache_key list"
  op_sample_keys :: "nat \<Rightarrow> 's \<Rightarrow> cache_key list"
  op_set_capacity :: "nat \<Rightarrow> 's \<Rightarrow> 's"
  op_set_stale_window :: "u64 \<Rightarrow> 's \<Rightarrow> 's"

datatype cache_call =
  CGet cache_key real
| CGetStale cache_key real real
| CPeek cache_key real
| CPut cache_key cache_entry real
| CDelete cache_key
| CClear
| CSetCapacity nat
| CSetStale u64

fun cache_step :: "'s dns_cache_ops \<Rightarrow> cache_call \<Rightarrow> 's \<Rightarrow> 's" where
  "cache_step C (CGet k now) s = snd (op_get C k now s)"
| "cache_step C (CGetStale k now w) s = snd (op_get_stale C k now w s)"
| "cache_step C (CPeek k now) s = snd (op_peek C k now s)"
| "cache_step C (CPut k e now) s = op_put C k e now s"
| "cache_step C (CDelete k) s = op_delete C k s"
| "cache_step C CClear s = op_clear C s"
| "cache_step C (CSetCapacity n) s = op_set_capacity C n s"
| "cache_step C (CSetStale w) s = op_set_stale_window C w s"

text \<open>The default of \<open>sample_keys\<close>.\<close>

definition sample_keys_default :: "'s dns_cache_ops \<Rightarrow> nat \<Rightarrow> 's \<Rightarrow> cache_key list" where
  "sample_keys_default C limit s = take limit (op_keys C s)"

text \<open>The reference: what was last stored under each key.\<close>

type_synonym store = "cache_key \<Rightarrow> cache_entry option"

fun store_step :: "cache_call \<Rightarrow> store \<Rightarrow> store" where
  "store_step (CPut k e _) m = m(k \<mapsto> e)"
| "store_step (CDelete k) m = m(k := None)"
| "store_step CClear m = (\<lambda>_. None)"
| "store_step _ m = m"

text \<open>\<open>a\<close> holds at most what \<open>b\<close> holds, up to the sequence numbers of the journal.\<close>

definition sub_store :: "store \<Rightarrow> store \<Rightarrow> bool" where
  "sub_store a b \<longleftrightarrow> (\<forall>k e. a k = Some e \<longrightarrow> (\<exists>e'. b k = Some e' \<and> cache_entry_eq e e'))"

lemma sub_store_refl [simp]: "sub_store m m"
  by (auto simp: sub_store_def)

lemma sub_store_trans: "sub_store a b \<Longrightarrow> sub_store b c \<Longrightarrow> sub_store a c"
  unfolding sub_store_def by (meson cache_entry_eq_trans)

lemma sub_store_put: "sub_store a b \<Longrightarrow> cache_entry_eq e e' \<Longrightarrow> sub_store (a(k \<mapsto> e)) (b(k \<mapsto> e'))"
  by (auto simp: sub_store_def)

lemma sub_store_del: "sub_store a b \<Longrightarrow> sub_store (a(k := None)) (b(k := None))"
  by (auto simp: sub_store_def)

lemma sub_store_empty [simp]: "sub_store (\<lambda>_. None) b"
  by (simp add: sub_store_def)

text \<open>The answer of \<open>get\<close> and \<open>peek\<close>, and of \<open>get_stale\<close>, from the content.\<close>

definition fresh_answer :: "cache_entry option \<Rightarrow> real \<Rightarrow> cache_entry option" where
  "fresh_answer x now = (case x of Some e \<Rightarrow> if ce_expires_at e \<le> now then None else Some e | None \<Rightarrow> None)"

definition stale_answer :: "cache_entry option \<Rightarrow> real \<Rightarrow> real \<Rightarrow> cache_entry option" where
  "stale_answer x now w =
     (case x of
        Some e \<Rightarrow> if ce_expires_at e \<le> now \<and> now - ce_expires_at e \<le> w then Some e else None
      | None \<Rightarrow> None)"

lemma fresh_answer_Some: "fresh_answer x now = Some e \<longleftrightarrow> x = Some e \<and> now < ce_expires_at e"
  by (auto simp: fresh_answer_def split: option.split)

lemma stale_answer_Some:
  "stale_answer x now w = Some e \<longleftrightarrow> x = Some e \<and> ce_expires_at e \<le> now \<and> now - ce_expires_at e \<le> w"
  by (auto simp: stale_answer_def split: option.split)

subsection \<open>The contract\<close>

locale dns_cache =
  fixes C :: "'s dns_cache_ops"
    and inv :: "'s \<Rightarrow> bool"
    and content :: "'s \<Rightarrow> store"
    and capacity :: "'s \<Rightarrow> nat"
  assumes inv_step: "inv s \<Longrightarrow> inv (cache_step C c s)"
    and get: "inv s \<Longrightarrow> fst (op_get C k now s) = fresh_answer (content s k) now
      \<and> sub_store (content (snd (op_get C k now s))) (content s)"
    and get_stale: "inv s \<Longrightarrow> fst (op_get_stale C k now w s) = stale_answer (content s k) now w
      \<and> sub_store (content (snd (op_get_stale C k now w s))) (content s)"
    and peek: "inv s \<Longrightarrow> fst (op_peek C k now s) = fresh_answer (content s k) now
      \<and> sub_store (content (snd (op_peek C k now s))) (content s)"
    and put: "inv s \<Longrightarrow> sub_store (content (op_put C k e now s)) ((content s)(k \<mapsto> e))"
    and put_stored: "inv s \<Longrightarrow> now < ce_expires_at e \<Longrightarrow>
      \<exists>e'. content (op_put C k e now s) k = Some e' \<and> cache_entry_eq e' e"
    and delete: "inv s \<Longrightarrow> content (op_delete C k s) = (content s)(k := None)"
    and clear: "inv s \<Longrightarrow> content (op_clear C s) = (\<lambda>_. None)"
    and set_capacity: "inv s \<Longrightarrow> sub_store (content (op_set_capacity C n s)) (content s)"
    and set_stale: "inv s \<Longrightarrow> content (op_set_stale_window C sw s) = content s"
    and len_bound: "inv s \<Longrightarrow> op_len C s \<le> capacity s"
begin

lemma inv_run: "inv s \<Longrightarrow> inv (fold (cache_step C) cs s)"
  by (induction cs arbitrary: s) (simp_all add: inv_step)

lemma step_content:
  assumes "inv s" "sub_store (content s) m"
  shows "sub_store (content (cache_step C c s)) (store_step c m)"
proof (cases c)
  case (CGet k now)
  then show ?thesis using get [OF assms(1), of k now] assms(2) by (auto intro: sub_store_trans)
next
  case (CGetStale k now w)
  then show ?thesis using get_stale [OF assms(1), of k now w] assms(2) by (auto intro: sub_store_trans)
next
  case (CPeek k now)
  then show ?thesis using peek [OF assms(1), of k now] assms(2) by (auto intro: sub_store_trans)
next
  case (CPut k e now)
  have "sub_store ((content s)(k \<mapsto> e)) (m(k \<mapsto> e))" using assms(2) by (rule sub_store_put) simp
  then show ?thesis using put [OF assms(1), of k e now] CPut by (auto intro: sub_store_trans)
next
  case (CDelete k)
  then show ?thesis using delete [OF assms(1), of k] sub_store_del [OF assms(2)] by simp
next
  case CClear
  then show ?thesis using clear [OF assms(1)] by simp
next
  case (CSetCapacity n)
  then show ?thesis using set_capacity [OF assms(1), of n] assms(2) by (auto intro: sub_store_trans)
next
  case (CSetStale sw)
  then show ?thesis using set_stale [OF assms(1), of sw] assms(2) by simp
qed

lemma run_content:
  "inv s \<Longrightarrow> sub_store (content s) m \<Longrightarrow>
    sub_store (content (fold (cache_step C) cs s)) (fold store_step cs m)"
  by (induction cs arbitrary: s m) (simp_all add: inv_step step_content)

text \<open>A served entry is the one last stored, and it has not expired.\<close>

lemma get_sound:
  assumes "inv s" "sub_store (content s) m" "fst (op_get C k now (fold (cache_step C) cs s)) = Some e"
  shows "now < ce_expires_at e \<and> (\<exists>e'. fold store_step cs m k = Some e' \<and> cache_entry_eq e e')"
proof -
  let ?s = "fold (cache_step C) cs s"
  have "fresh_answer (content ?s k) now = Some e"
    using get [OF inv_run [OF assms(1), of cs], where k = k and now = now] assms(3) by metis
  then have "content ?s k = Some e \<and> now < ce_expires_at e" by (simp add: fresh_answer_Some)
  then show ?thesis using run_content [OF assms(1,2), of cs] by (simp add: sub_store_def)
qed

lemma get_stale_sound:
  assumes "inv s" "sub_store (content s) m" "fst (op_get_stale C k now w (fold (cache_step C) cs s)) = Some e"
  shows "ce_expires_at e \<le> now \<and> now - ce_expires_at e \<le> w
    \<and> (\<exists>e'. fold store_step cs m k = Some e' \<and> cache_entry_eq e e')"
proof -
  let ?s = "fold (cache_step C) cs s"
  have "stale_answer (content ?s k) now w = Some e"
    using get_stale [OF inv_run [OF assms(1), of cs], where k = k and now = now and w = w] assms(3) by metis
  then have "content ?s k = Some e \<and> ce_expires_at e \<le> now \<and> now - ce_expires_at e \<le> w"
    by (simp add: stale_answer_Some)
  then show ?thesis using run_content [OF assms(1,2), of cs] by (simp add: sub_store_def)
qed

text \<open>An entry is served right after it is stored, unless it expires first.\<close>

lemma put_get:
  assumes "inv s" "now < ce_expires_at e" "now' < ce_expires_at e"
  shows "\<exists>e'. fst (op_get C k now' (op_put C k e now s)) = Some e' \<and> cache_entry_eq e' e"
proof -
  obtain e' where e': "content (op_put C k e now s) k = Some e'" "cache_entry_eq e' e"
    using put_stored [OF assms(1,2)] by blast
  have i: "inv (op_put C k e now s)" using inv_step [OF assms(1), of "CPut k e now"] by simp
  have "ce_expires_at e' = ce_expires_at e" using e'(2) by (simp add: cache_entry_eq_def)
  then show ?thesis using get [OF i, of k now'] e' assms(3) by (simp add: fresh_answer_def)
qed

lemma get_after_delete: "inv s \<Longrightarrow> fst (op_get C k now (op_delete C k s)) = None"
  using get [of "op_delete C k s" k now] delete [of s k] inv_step [of s "CDelete k"]
  by (simp add: fresh_answer_def)

lemma run_len: "inv s \<Longrightarrow> op_len C (fold (cache_step C) cs s) \<le> capacity (fold (cache_step C) cs s)"
  by (rule len_bound [OF inv_run])

end

end
