(* ===== verification/Lru.thy ===== *)
theory Lru
  imports Ordered_Map_Abs Dns_Cache
begin

text \<open>
  \<open>ebpdns-cache/src/lru.rs\<close>: eight shards, each a bounded ordered map behind its own lock; a
  key's hash selects its shard.  A hit moves the entry to the recent end, an insertion over the
  bound evicts from the other end, and every 32nd insertion of a shard sweeps expired entries:
  first the expired front, then a sample of 64 slots from a rotating cursor.

  \<open>DefaultHasher\<close> is the parameter \<open>H\<close>, a function of the key.  Each operation runs under the
  lock of its shard, so it is one step on the state; a \<open>usize\<close> is a \<open>nat\<close>, bounded by
  \<open>usize_max\<close> where the code saturates.
\<close>

definition SHARDS :: nat where "SHARDS = 8"
definition PURGE_SCAN_STEP :: nat where "PURGE_SCAN_STEP = 64"

type_synonym entry_map = "(cache_key, cache_entry) omap"
type_synonym hasher = "cache_key \<Rightarrow> u64"

record shard =
  s_cap :: nat
  s_map :: entry_map
  put_count :: u64
  purge_cursor :: nat

record lru =
  l_dropped_expired :: u64
  l_dropped_legacy :: u64
  l_restore_failed :: u64
  l_total_cap :: nat
  l_shards :: "shard list"
  l_stale_window :: u64
  l_journal :: "journal option"
  l_group :: "str option"

definition shard_new :: "nat \<Rightarrow> shard" where
  "shard_new cap = \<lparr>s_cap = cap, s_map = om_new, put_count = 0, purge_cursor = 0\<rparr>"

definition shard_share :: "nat \<Rightarrow> nat \<Rightarrow> nat" where
  "shard_share cap i = cap div SHARDS + (if i < cap mod SHARDS then 1 else 0)"

definition lru_with_group :: "nat \<Rightarrow> str option \<Rightarrow> lru" where
  "lru_with_group c g =
     (let cap = clamp_capacity (Some c) in
      \<lparr>l_dropped_expired = 0, l_dropped_legacy = 0, l_restore_failed = 0, l_total_cap = cap,
       l_shards = map (\<lambda>i. shard_new (shard_share cap i)) [0..<SHARDS],
       l_stale_window = 0, l_journal = None, l_group = g\<rparr>)"

definition lru_new :: "nat \<Rightarrow> lru" where
  "lru_new c = lru_with_group c None"

definition expand_key :: "lru \<Rightarrow> cache_key \<Rightarrow> cache_key" where
  "expand_key s k = (case l_group s of Some g \<Rightarrow> k\<lparr>key_group := Some g\<rparr> | None \<Rightarrow> k)"

definition lru_journal_key :: "lru \<Rightarrow> cache_key \<Rightarrow> cache_key" where
  "lru_journal_key s k = expand_key s k"

definition shard_index :: "hasher \<Rightarrow> cache_key \<Rightarrow> nat" where
  "shard_index H k = unat (H k AND 7)"

definition stale_window_f64 :: "lru \<Rightarrow> real" where
  "stale_window_f64 s = real (unat (l_stale_window s))"

text \<open>\<open>self.shards[i]\<close> read, and written back.\<close>

definition the_shard :: "hasher \<Rightarrow> cache_key \<Rightarrow> lru \<Rightarrow> shard" where
  "the_shard H k s = l_shards s ! shard_index H k"

definition set_map :: "hasher \<Rightarrow> cache_key \<Rightarrow> entry_map \<Rightarrow> lru \<Rightarrow> lru" where
  "set_map H k m s =
     s\<lparr>l_shards := (l_shards s)[shard_index H k := (the_shard H k s)\<lparr>s_map := m\<rparr>]\<rparr>"

definition evict_locked :: "shard \<Rightarrow> cache_key list \<times> shard" where
  "evict_locked sh = (let (ks, m) = om_shrink (s_cap sh) (s_map sh) in (ks, sh\<lparr>s_map := m\<rparr>))"

text \<open>Expired, and outside the window in which a stale answer may still be served.\<close>

definition purgeable :: "real \<Rightarrow> real \<Rightarrow> cache_entry \<Rightarrow> bool" where
  "purgeable now sw e =
     (let exp = ce_expires_at e in exp \<le> now \<and> \<not> (sw > 0 \<and> now - exp \<le> sw))"

definition purge_expired_locked_with_sw :: "shard \<Rightarrow> real \<Rightarrow> real \<Rightarrow> nat \<times> shard" where
  "purge_expired_locked_with_sw sh now sw =
     (let (cnt, m) = om_pop_while (\<lambda>(_, e). purgeable now sw e) (om_len (s_map sh)) (s_map sh);
          sh = sh\<lparr>s_map := m\<rparr>;
          n = om_len m in
      if n > 0 then
        (let pos = (if purge_cursor sh \<ge> n then 0 else purge_cursor sh);
             step = min PURGE_SCAN_STEP n;
             pos = (if step \<ge> n then 0 else pos);
             (c, m) = om_remove_where (purgeable now sw) (om_range_indices m pos step) m in
         (cnt + c, sh\<lparr>s_map := m, purge_cursor := (pos + step) mod n\<rparr>))
      else (cnt, sh))"

definition lru_get :: "hasher \<Rightarrow> cache_key \<Rightarrow> real \<Rightarrow> lru \<Rightarrow> cache_entry option \<times> lru" where
  "lru_get H k now s =
     (let m = s_map (the_shard H k s) in
      case om_get m k of
        None \<Rightarrow> (None, s)
      | Some e \<Rightarrow>
          if ce_expires_at e \<le> now then
            (None, if stale_window_f64 s \<le> 0 then set_map H k (snd (om_remove k m)) s else s)
          else (Some e, set_map H k (om_move_to_end k m) s))"

definition lru_get_stale :: "hasher \<Rightarrow> cache_key \<Rightarrow> real \<Rightarrow> real \<Rightarrow> lru \<Rightarrow> cache_entry option \<times> lru" where
  "lru_get_stale H k now w s =
     (let m = s_map (the_shard H k s) in
      case om_get m k of
        None \<Rightarrow> (None, s)
      | Some e \<Rightarrow>
          if ce_expires_at e > now then (None, s)
          else if now - ce_expires_at e > w then (None, set_map H k (snd (om_remove k m)) s)
          else (Some e, set_map H k (om_move_to_end k m) s))"

definition lru_peek :: "hasher \<Rightarrow> cache_key \<Rightarrow> real \<Rightarrow> lru \<Rightarrow> cache_entry option \<times> lru" where
  "lru_peek H k now s =
     (let m = s_map (the_shard H k s) in
      case om_get m k of
        None \<Rightarrow> (None, s)
      | Some e \<Rightarrow>
          if ce_expires_at e \<le> now then (None, set_map H k (snd (om_remove k m)) s)
          else (Some e, s))"

text \<open>The journal events of an insertion: the evicted keys, then the insertion itself.\<close>

fun journal_evictions :: "evict_reason \<Rightarrow> cache_key list \<Rightarrow> journal \<Rightarrow> journal" where
  "journal_evictions r [] j = j"
| "journal_evictions r (k # ks) j =
     (let (n, j) = next_seq j in journal_evictions r ks (journal_evict k r n j))"

definition lru_put :: "hasher \<Rightarrow> cache_key \<Rightarrow> cache_entry \<Rightarrow> real \<Rightarrow> lru \<Rightarrow> lru" where
  "lru_put H k value now s =
     (let (value, j) = (case l_journal s of
                          Some jj \<Rightarrow> (let (n, jj) = next_seq jj in (value\<lparr>ce_seq := n\<rparr>, Some jj))
                        | None \<Rightarrow> (value, None));
          sh = the_shard H k s;
          sh = sh\<lparr>s_map := om_insert k value (s_map sh)\<rparr>;
          (evicted, sh) = evict_locked sh;
          sh = sh\<lparr>put_count := put_count sh + 1\<rparr>;
          sh = (if put_count sh AND 0x1F = 0
                then snd (purge_expired_locked_with_sw sh now (stale_window_f64 s)) else sh);
          j = (case j of
                 Some jj \<Rightarrow>
                   Some (journal_put (lru_journal_key s k) value (ce_seq value)
                          (journal_evictions Capacity (map (lru_journal_key s) evicted) jj))
               | None \<Rightarrow> None) in
      s\<lparr>l_shards := (l_shards s)[shard_index H k := sh], l_journal := j\<rparr>)"

definition lru_delete :: "hasher \<Rightarrow> cache_key \<Rightarrow> lru \<Rightarrow> lru" where
  "lru_delete H k s = set_map H k (snd (om_remove k (s_map (the_shard H k s)))) s"

definition lru_clear :: "lru \<Rightarrow> lru" where
  "lru_clear s = s\<lparr>l_shards := map (\<lambda>sh. sh\<lparr>s_map := om_clear (s_map sh)\<rparr>) (l_shards s)\<rparr>"

definition lru_len :: "lru \<Rightarrow> nat" where
  "lru_len s = sum_list (map (\<lambda>sh. om_len (s_map sh)) (l_shards s))"

definition lru_keys :: "lru \<Rightarrow> cache_key list" where
  "lru_keys s = concat (map (\<lambda>sh. map fst (om_iter (s_map sh))) (l_shards s))"

text \<open>The inner loop of \<open>sample_keys\<close>: true when the limit is reached.\<close>

fun sample_shard :: "nat \<Rightarrow> cache_key list \<Rightarrow> cache_key list \<Rightarrow> bool \<times> cache_key list" where
  "sample_shard limit [] out = (False, out)"
| "sample_shard limit (k # ks) out =
     (let out = out @ [k] in if length out \<ge> limit then (True, out) else sample_shard limit ks out)"

fun sample_loop :: "nat \<Rightarrow> nat \<Rightarrow> nat \<Rightarrow> nat \<Rightarrow> shard list \<Rightarrow> cache_key list \<Rightarrow> cache_key list" where
  "sample_loop limit base rem i [] out = out"
| "sample_loop limit base rem i (sh # shs) out =
     (let per = base + (if i < rem then 1 else 0) in
      if per = 0 then sample_loop limit base rem (i + 1) shs out
      else (let (full, out) = sample_shard limit (take per (map fst (om_iter (s_map sh)))) out in
            if full then out else sample_loop limit base rem (i + 1) shs out))"

definition lru_sample_keys :: "nat \<Rightarrow> lru \<Rightarrow> cache_key list" where
  "lru_sample_keys limit s =
     (if limit = 0 then []
      else (let n = max (length (l_shards s)) 1 in
            sample_loop limit (limit div n) (limit mod n) 0 (l_shards s) []))"

text \<open>\<open>set_capacity\<close>: the shards in order, each given its share and cut to it.\<close>

fun resize_shards :: "nat \<Rightarrow> nat \<Rightarrow> shard list \<Rightarrow> cache_key list \<times> shard list" where
  "resize_shards n i [] = ([], [])"
| "resize_shards n i (sh # shs) =
     (let (ks, sh) = evict_locked (sh\<lparr>s_cap := shard_share n i\<rparr>);
          (ks', shs) = resize_shards n (i + 1) shs in
      (ks @ ks', sh # shs))"

definition lru_set_capacity :: "nat \<Rightarrow> lru \<Rightarrow> lru" where
  "lru_set_capacity c s =
     (let n = clamp_capacity (Some c);
          (evicted, shs) = resize_shards n 0 (l_shards s) in
      s\<lparr>l_total_cap := n, l_shards := shs,
        l_journal := map_option (journal_evictions Resize (map (lru_journal_key s) evicted)) (l_journal s)\<rparr>)"

definition lru_set_stale_window :: "u64 \<Rightarrow> lru \<Rightarrow> lru" where
  "lru_set_stale_window v s = s\<lparr>l_stale_window := v\<rparr>"

definition lru_ops :: "hasher \<Rightarrow> lru dns_cache_ops" where
  "lru_ops H =
     \<lparr>op_get = lru_get H, op_get_stale = lru_get_stale H, op_peek = lru_peek H, op_put = lru_put H,
      op_delete = lru_delete H, op_clear = lru_clear, op_len = lru_len, op_keys = lru_keys,
      op_sample_keys = lru_sample_keys, op_set_capacity = lru_set_capacity,
      op_set_stale_window = lru_set_stale_window\<rparr>"

subsection \<open>Restoring\<close>

text \<open>
  \<open>restore\<close> reads the records of the old JSON file; the derived \<open>Deserialize\<close> of an entry is the
  parameter \<open>de\<close>.  The new maps are built first and swapped in afterwards.
\<close>

record restore_acc =
  r_maps :: "entry_map list"
  r_expired :: nat
  r_legacy :: nat
  r_parse_failed :: nat
  r_structural :: "nat list"

definition restore_cap :: "nat \<Rightarrow> nat" where
  "restore_cap cap = max (saturating_mul cap 4) 65536"

definition restore_one ::
  "hasher \<Rightarrow> (json \<Rightarrow> cache_entry option) \<Rightarrow> real \<Rightarrow> real \<Rightarrow> json \<Rightarrow> restore_acc \<Rightarrow> restore_acc" where
  "restore_one H de now pt e a =
     (case structural_check e of
        Inl iss \<Rightarrow> a\<lparr>r_structural := (r_structural a)[issue_idx iss := r_structural a ! issue_idx iss + 1]\<rparr>
      | Inr parsed \<Rightarrow>
          if is_legacy_format e then a\<lparr>r_legacy := r_legacy a + 1\<rparr>
          else if \<not> has_absolute_expiry e then a\<lparr>r_parse_failed := r_parse_failed a + 1\<rparr>
          else (case de e of
                  None \<Rightarrow> a\<lparr>r_parse_failed := r_parse_failed a + 1\<rparr>
                | Some entry \<Rightarrow>
                    (case (if pt > 0 then Some (entry\<lparr>ce_expires_at := now + pt, ce_ttl := pt\<rparr>)
                           else (case resolve_restored_expiry (Fin (ce_expires_at entry)) now pt of
                                   Some t \<Rightarrow> Some (entry\<lparr>ce_expires_at := t, ce_ttl := max (t - now) 0\<rparr>)
                                 | None \<Rightarrow> None)) of
                       None \<Rightarrow> a\<lparr>r_expired := r_expired a + 1\<rparr>
                     | Some entry \<Rightarrow>
                         (let key = \<lparr>key_group = None, key_domain = pk_domain parsed, key_qtype = pk_qtype parsed\<rparr>;
                              i = shard_index H key in
                          a\<lparr>r_maps := (r_maps a)[i := om_insert key entry (r_maps a ! i)]\<rparr>))))"

text \<open>The swap: each shard takes its new map and is cut to its bound, with no journal event.\<close>

definition swap_in :: "entry_map list \<Rightarrow> lru \<Rightarrow> lru" where
  "swap_in ms s =
     s\<lparr>l_shards := map (\<lambda>(sh, m). snd (evict_locked (sh\<lparr>s_map := m\<rparr>))) (zip (l_shards s) ms)\<rparr>"

definition lru_restore_refs ::
  "hasher \<Rightarrow> (json \<Rightarrow> cache_entry option) \<Rightarrow> json list \<Rightarrow> real \<Rightarrow> f64 \<Rightarrow> lru \<Rightarrow> lru" where
  "lru_restore_refs H de entries now persist_ttl s =
     (let pt = max (safe_float persist_ttl 0) 0;
          cap = restore_cap (l_total_cap s);
          raw = (if length entries > cap then take cap entries else entries);
          a = fold (restore_one H de now pt) raw
                \<lparr>r_maps = replicate SHARDS om_new, r_expired = 0, r_legacy = 0, r_parse_failed = 0,
                 r_structural = [0, 0, 0, 0]\<rparr>;
          s = swap_in (r_maps a) s in
      s\<lparr>l_dropped_expired := word_of_nat (r_expired a), l_dropped_legacy := word_of_nat (r_legacy a),
        l_restore_failed := word_of_nat (r_parse_failed a + sum_list (r_structural a))\<rparr>)"

text \<open>\<open>restore_records\<close>: entries whose expiry the recovery has resolved already.\<close>

definition restore_record :: "hasher \<Rightarrow> real \<Rightarrow> cache_key \<times> cache_entry \<Rightarrow> entry_map list \<Rightarrow> entry_map list" where
  "restore_record H now = (\<lambda>(k, e) ms.
     (let k = k\<lparr>key_group := None\<rparr> in
      if ce_expires_at e \<le> now then ms
      else (let i = shard_index H k in ms[i := om_insert k e (ms ! i)])))"

definition lru_restore_records :: "hasher \<Rightarrow> (cache_key \<times> cache_entry) list \<Rightarrow> real \<Rightarrow> lru \<Rightarrow> lru" where
  "lru_restore_records H entries now s =
     (let cap = restore_cap (l_total_cap s);
          entries = (if length entries > cap then take cap (sort_key (\<lambda>(_, e). ce_seq e) entries) else entries) in
      swap_in (fold (restore_record H now) entries (replicate SHARDS om_new)) s)"

definition last_restore_drops :: "lru \<Rightarrow> u64 \<times> u64 \<times> u64" where
  "last_restore_drops s = (l_dropped_expired s, l_dropped_legacy s, l_restore_failed s)"

subsection \<open>The invariant\<close>

definition shard_inv :: "hasher \<Rightarrow> nat \<Rightarrow> nat \<Rightarrow> shard \<Rightarrow> bool" where
  "shard_inv H cap i sh \<longleftrightarrow> om_inv (s_map sh) \<and> s_cap sh = shard_share cap i
     \<and> length (om_abs (s_map sh)) \<le> s_cap sh \<and> (\<forall>x \<in> set (om_abs (s_map sh)). shard_index H (fst x) = i)"

definition lru_inv :: "hasher \<Rightarrow> lru \<Rightarrow> bool" where
  "lru_inv H s \<longleftrightarrow> length (l_shards s) = SHARDS \<and> 16 \<le> l_total_cap s
     \<and> (\<forall>i < SHARDS. shard_inv H (l_total_cap s) i (l_shards s ! i))"

definition lru_content :: "hasher \<Rightarrow> lru \<Rightarrow> store" where
  "lru_content H s k = om_get (s_map (the_shard H k s)) k"

lemma shard_index_lt [simp]: "shard_index H k < SHARDS"
proof -
  have "H k AND 7 \<le> 7" by (rule word_and_le1)
  then have "unat (H k AND 7) \<le> 7" by (simp add: word_le_nat_alt)
  then show ?thesis by (simp add: shard_index_def SHARDS_def)
qed

lemma shard_share_pos: "16 \<le> cap \<Longrightarrow> 2 \<le> shard_share cap i"
  by (simp add: shard_share_def SHARDS_def)

lemma inv_shard: "lru_inv H s \<Longrightarrow> shard_inv H (l_total_cap s) (shard_index H k) (the_shard H k s)"
  by (simp add: lru_inv_def the_shard_def)

lemma inv_map: "lru_inv H s \<Longrightarrow> om_inv (s_map (the_shard H k s))"
  using inv_shard by (fastforce simp: shard_inv_def)

lemma inv_upd:
  assumes "lru_inv H s" "shard_inv H (l_total_cap s) (shard_index H k) sh"
    and "l_shards s' = (l_shards s)[shard_index H k := sh]" "l_total_cap s' = l_total_cap s"
  shows "lru_inv H s'"
  using assms by (simp add: lru_inv_def nth_list_update)

lemma content_upd:
  assumes "lru_inv H s" "l_shards s' = (l_shards s)[shard_index H k := sh]"
  shows "lru_content H s' k' =
    (if shard_index H k' = shard_index H k then om_get (s_map sh) k' else lru_content H s k')"
  using assms by (simp add: lru_content_def the_shard_def lru_inv_def nth_list_update)

text \<open>A map holding a part of another's pairs: removal, eviction and the sweeps.\<close>

lemma map_of_part:
  assumes "distinct (map fst l)" "set l' \<subseteq> set l" "map_of l' k = Some v"
  shows "map_of l k = Some v"
  using assms by (meson map_of_SomeD map_of_is_SomeI subsetD)

lemma om_get_part:
  assumes "om_inv m" "om_inv m'" "set (om_abs m') \<subseteq> set (om_abs m)" "om_get m' k = Some v"
  shows "om_get m k = Some v"
  using assms map_of_part [OF om_distinct [OF assms(1)] assms(3)] by (simp add: om.lookup)

lemma om_get_in: "om_inv m \<Longrightarrow> om_get m k = Some v \<longleftrightarrow> (k, v) \<in> set (om_abs m)"
  using om_distinct by (fastforce simp: om.lookup)

lemma om_remove_snd: "om_inv m \<Longrightarrow> snd (om_remove k m) = snd (om_remove_entry k m)"
  using om_remove_entry_abs [of m k] by simp

lemma shard_part:
  assumes "shard_inv H cap i sh" "om_inv m" "set (om_abs m) \<subseteq> set (om_abs (s_map sh))"
  shows "shard_inv H cap i (sh\<lparr>s_map := m\<rparr>)"
proof -
  have i: "om_inv (s_map sh)" using assms(1) by (simp add: shard_inv_def)
  have "length (om_abs m) = card (set (om_abs m))"
    using om_distinct [OF assms(2)] by (metis distinct_card distinct_map)
  also have "\<dots> \<le> card (set (om_abs (s_map sh)))" by (rule card_mono [OF finite_set assms(3)])
  also have "\<dots> \<le> length (om_abs (s_map sh))" by (rule card_length)
  finally show ?thesis using assms by (auto simp: shard_inv_def)
qed

lemma to_end_set: "om_inv m \<Longrightarrow> set (om_abs (om_move_to_end k m)) = set (om_abs m)"
proof -
  assume i: "om_inv m"
  have "map_of (om_abs m) k = Some v \<Longrightarrow> set (al_del k (om_abs m)) \<union> {(k, v)} = set (om_abs m)" for v
    using om_distinct [OF i] by (auto simp: set_al_del dest: map_of_SomeD)
      (metis map_of_is_SomeI option.inject)
  then show ?thesis by (auto simp: om.to_end [OF i] split: option.split)
qed

subsection \<open>Eviction and the sweep\<close>

lemma evict_spec:
  assumes "om_inv (s_map sh)" "evict_locked sh = (ks, sh')"
  shows "om_inv (s_map sh')
    \<and> om_abs (s_map sh') = drop (length (om_abs (s_map sh)) - s_cap sh) (om_abs (s_map sh))
    \<and> ks = map fst (take (length (om_abs (s_map sh)) - s_cap sh) (om_abs (s_map sh)))
    \<and> s_cap sh' = s_cap sh \<and> put_count sh' = put_count sh \<and> purge_cursor sh' = purge_cursor sh"
proof -
  obtain m where "om_shrink (s_cap sh) (s_map sh) = (ks, m)" "sh' = sh\<lparr>s_map := m\<rparr>"
    using assms(2) by (auto simp: evict_locked_def split: prod.splits)
  then show ?thesis using om_shrink_abs [OF assms(1)] by simp
qed

lemma purge_spec:
  assumes "om_inv (s_map sh)" "purge_expired_locked_with_sw sh now sw = (c, sh')"
  defines "p \<equiv> \<lambda>x. purgeable now sw (snd x)"
  defines "l \<equiv> dropWhile p (om_abs (s_map sh))"
  defines "n \<equiv> length l"
  defines "step \<equiv> min 64 n"
  defines "pos \<equiv> if step \<ge> n \<or> purge_cursor sh \<ge> n then 0 else purge_cursor sh"
  shows "om_inv (s_map sh') \<and> s_cap sh' = s_cap sh \<and> put_count sh' = put_count sh
    \<and> purge_cursor sh' = (if n = 0 then purge_cursor sh else (pos + step) mod n)
    \<and> om_abs (s_map sh') = take pos l @ filter (\<lambda>x. \<not> p x) (take step (drop pos l)) @ drop (pos + step) l
    \<and> c + length (om_abs (s_map sh')) = length (om_abs (s_map sh))"
proof -
  have pe: "(\<lambda>(_, e). purgeable now sw e) = p" by (auto simp: p_def)
  obtain c1 m1 where m1: "om_pop_while p (om_len (s_map sh)) (s_map sh) = (c1, m1)" by fastforce
  note P = om_pop_all [OF assms(1) m1]
  have tl: "c1 + n = length (om_abs (s_map sh))"
    using P by (metis length_append l_def n_def takeWhile_dropWhile_id)
  have n1: "om_len m1 = n" using P om_len_abs [of m1] by (simp add: n_def l_def)
  show ?thesis
  proof (cases "n = 0")
    case True
    then have "sh' = sh\<lparr>s_map := m1\<rparr>" "c = c1"
      using assms(2) n1 True by (auto simp: purge_expired_locked_with_sw_def pe m1)
    moreover have l0: "l = []" using True by (simp add: n_def)
    moreover have "om_abs m1 = l" using P by (simp add: l_def)
    ultimately show ?thesis using P True tl by simp
  next
    case False
    obtain c2 m2 where m2: "om_remove_where (purgeable now sw) (om_range_indices m1 pos step) m1 = (c2, m2)"
      by fastforce
    have "sh' = sh\<lparr>s_map := m2, purge_cursor := (pos + step) mod n\<rparr>" "c = c1 + c2"
      using assms(2) n1 False m2
      by (auto simp: purge_expired_locked_with_sw_def pe m1 Let_def PURGE_SCAN_STEP_def step_def pos_def
          split: if_splits)
    moreover have m1l: "om_inv m1" "om_abs m1 = l" using P by (simp_all add: l_def)
    note W = om_remove_where_abs [OF m1l(1) m2, unfolded m1l(2)]
    moreover have "(\<lambda>(k :: cache_key, v). \<not> purgeable now sw v) = (\<lambda>x. \<not> p x)"
      by (simp add: p_def case_prod_beta')
    moreover have "c1 + c2 + length (om_abs m2) = length (om_abs (s_map sh))"
      using W tl unfolding n_def by linarith
    ultimately show ?thesis using False by (simp del: length_append)
  qed
qed

text \<open>The sweep removes purgeable entries only, and every one of them when it spans the map.\<close>

lemma dropWhile_keeps: "x \<in> set l \<Longrightarrow> \<not> p x \<Longrightarrow> x \<in> set (dropWhile p l)"
  by (induction l) auto

lemma split_keeps:
  assumes "x \<in> set l" "\<not> p x"
  shows "x \<in> set (take pos l @ filter (\<lambda>x. \<not> p x) (take k (drop pos l)) @ drop (pos + k) l)"
proof -
  have "l = take pos l @ take k (drop pos l) @ drop (pos + k) l"
    by (metis append_take_drop_id drop_drop add.commute)
  then have "x \<in> set (take pos l) \<union> set (take k (drop pos l)) \<union> set (drop (pos + k) l)"
    using assms(1) by (metis UnCI UnE set_append)
  then show ?thesis using assms(2) by auto
qed

lemma split_sub: "set (take pos l @ filter q (take k (drop pos l)) @ drop (pos + k) l) \<subseteq> set l"
  by (auto dest: in_set_takeD in_set_dropD)

lemma purge_sub:
  assumes "om_inv (s_map sh)" "purge_expired_locked_with_sw sh now sw = (c, sh')"
  shows "set (om_abs (s_map sh')) \<subseteq> set (om_abs (s_map sh))
    \<and> (\<forall>x \<in> set (om_abs (s_map sh)). \<not> purgeable now sw (snd x) \<longrightarrow> x \<in> set (om_abs (s_map sh')))"
proof -
  let ?p = "\<lambda>x :: cache_key \<times> cache_entry. purgeable now sw (snd x)"
  let ?l = "dropWhile ?p (om_abs (s_map sh))"
  obtain pos step where a: "om_abs (s_map sh') = take pos ?l @ filter (\<lambda>x. \<not> ?p x) (take step (drop pos ?l)) @ drop (pos + step) ?l"
    using purge_spec [OF assms] by blast
  have "set (om_abs (s_map sh')) \<subseteq> set ?l" unfolding a by (rule split_sub)
  then have "set (om_abs (s_map sh')) \<subseteq> set (om_abs (s_map sh))" using set_dropWhileD by fastforce
  moreover have "x \<in> set (om_abs (s_map sh'))" if "x \<in> set (om_abs (s_map sh))" "\<not> ?p x" for x
    unfolding a by (rule split_keeps) (use dropWhile_keeps that in auto)
  ultimately show ?thesis by blast
qed

lemma purge_small:
  assumes "om_inv (s_map sh)" "purge_expired_locked_with_sw sh now sw = (c, sh')" "length (om_abs (s_map sh)) \<le> 64"
  shows "om_abs (s_map sh') = filter (\<lambda>x. \<not> purgeable now sw (snd x)) (om_abs (s_map sh))"
proof -
  let ?p = "\<lambda>x :: cache_key \<times> cache_entry. purgeable now sw (snd x)"
  let ?l = "dropWhile ?p (om_abs (s_map sh))"
  have "length ?l \<le> 64" using length_dropWhile_le [of ?p "om_abs (s_map sh)"] assms(3) by linarith
  then have "om_abs (s_map sh') = filter (\<lambda>x. \<not> ?p x) ?l"
    using purge_spec [OF assms(1,2)] by simp
  moreover have "filter (\<lambda>x. \<not> ?p x) (dropWhile ?p l) = filter (\<lambda>x. \<not> ?p x) l" for l
    by (induction l) auto
  ultimately show ?thesis by simp
qed

subsection \<open>The operations on the content\<close>

lemma set_map_inv:
  assumes "lru_inv H s" "om_inv m" "set (om_abs m) \<subseteq> set (om_abs (s_map (the_shard H k s)))"
  shows "lru_inv H (set_map H k m s)"
  using inv_upd [OF assms(1) shard_part [OF inv_shard [OF assms(1), of k] assms(2,3)]]
  by (simp add: set_map_def)

lemma set_map_content:
  assumes "lru_inv H s"
  shows "lru_content H (set_map H k m s) k' =
    (if shard_index H k' = shard_index H k then om_get m k' else lru_content H s k')"
  using content_upd [OF assms, of "set_map H k m s" k "(the_shard H k s)\<lparr>s_map := m\<rparr>" k']
  by (simp add: set_map_def)

lemma remove_content:
  fixes k :: cache_key
  assumes "lru_inv H s"
  defines "s' \<equiv> set_map H k (snd (om_remove k (s_map (the_shard H k s)))) s"
  shows "lru_inv H s' \<and> lru_content H s' = (lru_content H s)(k := None)"
proof -
  let ?m = "s_map (the_shard H k s)"
  have m: "om_inv ?m" by (rule inv_map [OF assms(1)])
  have r: "om_inv (snd (om_remove k ?m))" "om_abs (snd (om_remove k ?m)) = al_del k (om_abs ?m)"
    using om.remove [OF m] by (simp_all add: om_remove_snd [OF m])
  have "lru_inv H s'" unfolding s'_def
    by (rule set_map_inv [OF assms(1) r(1)]) (auto simp: r set_al_del)
  moreover have "lru_content H s' k' = ((lru_content H s)(k := None)) k'" for k'
    unfolding s'_def set_map_content [OF assms(1)] om_remove_snd [OF m] om.lookup_remove [OF m]
    by (auto simp: lru_content_def the_shard_def)
  ultimately show ?thesis by blast
qed

lemma to_end_content:
  fixes k :: cache_key
  assumes "lru_inv H s"
  defines "s' \<equiv> set_map H k (om_move_to_end k (s_map (the_shard H k s))) s"
  shows "lru_inv H s' \<and> lru_content H s' = lru_content H s"
proof -
  let ?m = "s_map (the_shard H k s)"
  have m: "om_inv ?m" by (rule inv_map [OF assms(1)])
  have r: "om_inv (om_move_to_end k ?m)" using om.to_end [OF m] by blast
  have "lru_inv H s'" unfolding s'_def
    by (rule set_map_inv [OF assms(1) r]) (simp add: to_end_set [OF m])
  moreover have "lru_content H s' k' = lru_content H s k'" for k'
    unfolding s'_def set_map_content [OF assms(1)] om.lookup_to_end [OF m]
    by (simp add: lru_content_def the_shard_def)
  ultimately show ?thesis by blast
qed

lemma sub_store_upd_None: "sub_store (m(k := None)) m"
  by (simp add: sub_store_def)

lemma lru_get_spec:
  assumes "lru_inv H s"
  shows "lru_inv H (snd (lru_get H k now s)) \<and> fst (lru_get H k now s) = fresh_answer (lru_content H s k) now
    \<and> sub_store (lru_content H (snd (lru_get H k now s))) (lru_content H s)"
proof (cases "lru_content H s k")
  case None
  then show ?thesis using assms by (simp add: lru_get_def lru_content_def fresh_answer_def)
next
  case (Some e)
  then have e: "om_get (s_map (the_shard H k s)) k = Some e" by (simp add: lru_content_def)
  show ?thesis
    using remove_content [OF assms, of k] to_end_content [OF assms, of k] Some assms
    by (auto simp: lru_get_def Let_def e fresh_answer_def sub_store_upd_None)
qed

lemma lru_get_stale_spec:
  assumes "lru_inv H s"
  shows "lru_inv H (snd (lru_get_stale H k now w s))
    \<and> fst (lru_get_stale H k now w s) = stale_answer (lru_content H s k) now w
    \<and> sub_store (lru_content H (snd (lru_get_stale H k now w s))) (lru_content H s)"
proof (cases "lru_content H s k")
  case None
  then show ?thesis using assms by (simp add: lru_get_stale_def lru_content_def stale_answer_def)
next
  case (Some e)
  then have e: "om_get (s_map (the_shard H k s)) k = Some e" by (simp add: lru_content_def)
  show ?thesis
    using remove_content [OF assms, of k] to_end_content [OF assms, of k] Some assms
    by (auto simp: lru_get_stale_def Let_def e stale_answer_def sub_store_upd_None)
qed

lemma lru_peek_spec:
  assumes "lru_inv H s"
  shows "lru_inv H (snd (lru_peek H k now s)) \<and> fst (lru_peek H k now s) = fresh_answer (lru_content H s k) now
    \<and> sub_store (lru_content H (snd (lru_peek H k now s))) (lru_content H s)"
proof (cases "lru_content H s k")
  case None
  then show ?thesis using assms by (simp add: lru_peek_def lru_content_def fresh_answer_def)
next
  case (Some e)
  then have e: "om_get (s_map (the_shard H k s)) k = Some e" by (simp add: lru_content_def)
  show ?thesis
    using remove_content [OF assms, of k] Some assms
    by (auto simp: lru_peek_def Let_def e fresh_answer_def sub_store_upd_None)
qed

text \<open>What an insertion leaves in the shard.\<close>

definition shard_put :: "cache_key \<Rightarrow> cache_entry \<Rightarrow> real \<Rightarrow> real \<Rightarrow> shard \<Rightarrow> cache_key list \<times> shard" where
  "shard_put k value now sw sh =
     (let sh = sh\<lparr>s_map := om_insert k value (s_map sh)\<rparr>;
          (evicted, sh) = evict_locked sh;
          sh = sh\<lparr>put_count := put_count sh + 1\<rparr> in
      (evicted, if put_count sh AND 0x1F = 0 then snd (purge_expired_locked_with_sw sh now sw) else sh))"

definition stamped :: "lru \<Rightarrow> cache_entry \<Rightarrow> cache_entry" where
  "stamped s e = (case l_journal s of Some j \<Rightarrow> e\<lparr>ce_seq := fst (next_seq j)\<rparr> | None \<Rightarrow> e)"

lemma stamped_eq [simp]: "cache_entry_eq (stamped s e) e" "ce_expires_at (stamped s e) = ce_expires_at e"
  by (simp_all add: stamped_def split: option.split)

lemma lru_put_shards:
  "l_shards (lru_put H k e now s) =
     (l_shards s)[shard_index H k := snd (shard_put k (stamped s e) now (stale_window_f64 s) (the_shard H k s))]"
  "l_total_cap (lru_put H k e now s) = l_total_cap s"
  by (auto simp: lru_put_def shard_put_def stamped_def Let_def split: prod.splits option.splits)

lemma shard_put_spec:
  assumes i: "shard_inv H cap j sh" and cap: "16 \<le> cap" and k: "shard_index H k = j"
    and p: "shard_put k e now sw sh = (ks, sh')"
  shows "shard_inv H cap j sh'
    \<and> set (om_abs (s_map sh')) \<subseteq> set (al_del k (om_abs (s_map sh)) @ [(k, e)])
    \<and> (\<not> purgeable now sw e \<longrightarrow> (k, e) \<in> set (om_abs (s_map sh')))
    \<and> ks = map fst (take (length (al_del k (om_abs (s_map sh))) + 1 - s_cap sh) (al_del k (om_abs (s_map sh)) @ [(k, e)]))
    \<and> (\<forall>x \<in> set (om_abs (s_map sh')). fst x \<notin> set ks)"
proof -
  let ?m1 = "om_insert k e (s_map sh)" and ?l = "al_del k (om_abs (s_map sh)) @ [(k, e)]"
  have m: "om_inv (s_map sh)" "length (om_abs (s_map sh)) \<le> s_cap sh" "s_cap sh = shard_share cap j"
    and ix: "\<And>x. x \<in> set (om_abs (s_map sh)) \<Longrightarrow> shard_index H (fst x) = j"
    using i by (auto simp: shard_inv_def)
  have c: "2 \<le> s_cap sh" using shard_share_pos [OF cap] m(3) by simp
  have m1: "om_inv ?m1" "om_abs ?m1 = ?l" using om.insert [OF m(1)] by simp_all
  obtain sh1 where ev: "evict_locked (sh\<lparr>s_map := ?m1\<rparr>) = (ks, sh1)"
    and sh': "sh' = (if put_count sh1 + 1 AND 0x1F = 0
      then snd (purge_expired_locked_with_sw (sh1\<lparr>put_count := put_count sh1 + 1\<rparr>) now sw)
      else sh1\<lparr>put_count := put_count sh1 + 1\<rparr>)"
    using p by (auto simp: shard_put_def Let_def split: prod.splits)
  let ?d = "length ?l - s_cap sh"
  have e1: "om_inv (s_map sh1)" "om_abs (s_map sh1) = drop ?d ?l" "ks = map fst (take ?d ?l)" "s_cap sh1 = s_cap sh"
    using evict_spec [OF _ ev] m1 by simp_all
  have d1: "?d \<le> 1" using m(2) length_al_del [of k "om_abs (s_map sh)"] by simp
  have last: "(k, e) \<in> set (drop ?d ?l)"
  proof -
    have "?d \<le> length (al_del k (om_abs (s_map sh)))" using d1 c by auto
    then show ?thesis by simp
  qed
  have len1: "length (drop ?d ?l) \<le> s_cap sh" by simp
  have "distinct (map fst ?l)" using om.keys [OF m1(1)] m1(2) by simp
  then have gone: "fst x \<notin> set ks" if "x \<in> set (drop ?d ?l)" for x
    using that set_take_disj_set_drop_if_distinct [of "map fst ?l" ?d ?d] unfolding e1(3) take_map drop_map by force
  have i1: "shard_inv H cap j sh1"
    using e1 m(3) k ix len1 by (auto simp: shard_inv_def set_al_del dest!: in_set_dropD)
  show ?thesis
  proof (cases "put_count sh1 + 1 AND 0x1F = 0")
    case False
    with sh' i1 e1 last gone show ?thesis by (auto simp: shard_inv_def dest: in_set_dropD)
  next
    case True
    let ?sh2 = "sh1\<lparr>put_count := put_count sh1 + 1\<rparr>"
    obtain n sh3 where pu: "purge_expired_locked_with_sw ?sh2 now sw = (n, sh3)" by fastforce
    have s3: "sh' = sh3" using sh' True pu by simp
    have om2: "om_inv (s_map ?sh2)" using e1(1) by simp
    note S = purge_sub [OF om2 pu] and P = purge_spec [OF om2 pu]
    have "shard_inv H cap j (sh1\<lparr>s_map := s_map sh3\<rparr>)"
      by (rule shard_part [OF i1]) (use S P in simp_all)
    then have "shard_inv H cap j sh3" using P by (simp add: shard_inv_def)
    moreover have "set (om_abs (s_map sh3)) \<subseteq> set ?l"
    proof -
      have "set (om_abs (s_map sh3)) \<subseteq> set (drop ?d ?l)" using S e1(2) by simp
      then show ?thesis using set_drop_subset by (rule subset_trans)
    qed
    moreover have "\<not> purgeable now sw e \<longrightarrow> (k, e) \<in> set (om_abs (s_map sh3))" using S e1(2) last by auto
    moreover have "\<forall>x \<in> set (om_abs (s_map sh3)). fst x \<notin> set ks" using S e1(2) gone by auto
    ultimately show ?thesis using e1(3) s3 by simp
  qed
qed

lemma lru_put_spec:
  assumes "lru_inv H s"
  shows "lru_inv H (lru_put H k e now s)
    \<and> sub_store (lru_content H (lru_put H k e now s)) ((lru_content H s)(k \<mapsto> e))
    \<and> (now < ce_expires_at e \<longrightarrow> lru_content H (lru_put H k e now s) k = Some (stamped s e))"
proof -
  let ?s' = "lru_put H k e now s" and ?sh = "the_shard H k s" and ?e = "stamped s e"
  obtain ks sh' where p: "shard_put k ?e now (stale_window_f64 s) ?sh = (ks, sh')" by fastforce
  have c: "16 \<le> l_total_cap s" using assms by (simp add: lru_inv_def)
  note S = shard_put_spec [OF inv_shard [OF assms] c refl p]
  have sh: "l_shards ?s' = (l_shards s)[shard_index H k := sh']" "l_total_cap ?s' = l_total_cap s"
    by (simp_all add: lru_put_shards p)
  have inv: "lru_inv H ?s'" by (rule inv_upd [OF assms _ sh]) (use S in blast)
  have m: "om_inv (s_map ?sh)" "om_inv (s_map sh')" using inv_map [OF assms] S by (simp_all add: shard_inv_def)
  have get: "om_get (s_map sh') k' = Some x \<Longrightarrow> if k' = k then x = ?e else om_get (s_map ?sh) k' = Some x" for k' x
    using S om_get_in [OF m(2), of k' x] om_get_in [OF m(1), of k' x] by (auto simp: set_al_del)
  have "sub_store (lru_content H ?s') ((lru_content H s)(k \<mapsto> e))"
    unfolding sub_store_def
  proof (intro allI impI)
    fix k' x assume a: "lru_content H ?s' k' = Some x"
    show "\<exists>e'. ((lru_content H s)(k \<mapsto> e)) k' = Some e' \<and> cache_entry_eq x e'"
    proof (cases "shard_index H k' = shard_index H k")
      case True
      then have "om_get (s_map sh') k' = Some x" using a content_upd [OF assms sh(1)] by simp
      from get [OF this] show ?thesis using True by (auto simp: lru_content_def the_shard_def)
    next
      case False
      then show ?thesis using a content_upd [OF assms sh(1)] by auto
    qed
  qed
  moreover have "now < ce_expires_at e \<Longrightarrow> lru_content H ?s' k = Some ?e"
  proof -
    assume "now < ce_expires_at e"
    then have "\<not> purgeable now (stale_window_f64 s) ?e" by (simp add: purgeable_def Let_def)
    with S have "(k, ?e) \<in> set (om_abs (s_map sh'))" by blast
    then show ?thesis using content_upd [OF assms sh(1)] om_get_in [OF m(2)] by simp
  qed
  ultimately show ?thesis using inv by blast
qed

subsection \<open>Capacity\<close>

lemma resize_shards_map:
  "resize_shards n i shs =
     (concat (map (\<lambda>(j, sh). fst (evict_locked (sh\<lparr>s_cap := shard_share n j\<rparr>))) (enumerate i shs)),
      map (\<lambda>(j, sh). snd (evict_locked (sh\<lparr>s_cap := shard_share n j\<rparr>))) (enumerate i shs))"
  by (induction n i shs rule: resize_shards.induct) (auto simp: Let_def split: prod.splits)

lemma evict_inv:
  assumes "om_inv (s_map sh)" "s_cap sh = shard_share n i" "\<forall>x \<in> set (om_abs (s_map sh)). shard_index H (fst x) = i"
  shows "shard_inv H n i (snd (evict_locked sh))
    \<and> set (om_abs (s_map (snd (evict_locked sh)))) \<subseteq> set (om_abs (s_map sh))"
proof -
  obtain ks sh' where e: "evict_locked sh = (ks, sh')" by fastforce
  note E = evict_spec [OF assms(1) e]
  have "set (om_abs (s_map sh')) \<subseteq> set (om_abs (s_map sh))"
    using E set_drop_subset by metis
  then show ?thesis using E assms(2,3) by (auto simp: e shard_inv_def)
qed

lemma set_capacity_shards:
  "length (l_shards (lru_set_capacity c s)) = length (l_shards s)"
  "i < length (l_shards s) \<Longrightarrow> l_shards (lru_set_capacity c s) ! i =
     snd (evict_locked ((l_shards s ! i)\<lparr>s_cap := shard_share (clamp_capacity (Some c)) i\<rparr>))"
  "l_total_cap (lru_set_capacity c s) = clamp_capacity (Some c)"
  by (simp_all add: lru_set_capacity_def resize_shards_map nth_enumerate_eq Let_def)

lemma clamp_capacity_min [simp]: "16 \<le> clamp_capacity n"
  by (simp add: clamp_capacity_def)

lemma lru_set_capacity_spec:
  assumes "lru_inv H s"
  shows "lru_inv H (lru_set_capacity c s)
    \<and> sub_store (lru_content H (lru_set_capacity c s)) (lru_content H s)"
proof -
  let ?s' = "lru_set_capacity c s" and ?n = "clamp_capacity (Some c)"
  have len: "length (l_shards s) = SHARDS" using assms by (simp add: lru_inv_def)
  have E: "shard_inv H ?n i (l_shards ?s' ! i) \<and> set (om_abs (s_map (l_shards ?s' ! i))) \<subseteq> set (om_abs (s_map (l_shards s ! i)))"
    if "i < SHARDS" for i
  proof -
    let ?sh = "(l_shards s ! i)\<lparr>s_cap := shard_share ?n i\<rparr>"
    have i: "shard_inv H (l_total_cap s) i (l_shards s ! i)" using assms that by (simp add: lru_inv_def)
    have "shard_inv H ?n i (snd (evict_locked ?sh))
      \<and> set (om_abs (s_map (snd (evict_locked ?sh)))) \<subseteq> set (om_abs (s_map ?sh))"
      by (rule evict_inv) (use i in \<open>simp_all add: shard_inv_def\<close>)
    then show ?thesis using that len by (simp add: set_capacity_shards)
  qed
  then have inv: "lru_inv H ?s'" by (simp add: lru_inv_def set_capacity_shards len)
  have "lru_content H s k = Some x" if "lru_content H ?s' k = Some x" for k x
  proof -
    have "om_inv (s_map (the_shard H k s))" "om_inv (s_map (the_shard H k ?s'))"
      by (rule inv_map [OF assms], rule inv_map [OF inv])
    moreover have "set (om_abs (s_map (the_shard H k ?s'))) \<subseteq> set (om_abs (s_map (the_shard H k s)))"
      using E [of "shard_index H k"] by (simp add: the_shard_def)
    ultimately show ?thesis using om_get_part that by (simp add: lru_content_def)
  qed
  then show ?thesis using inv by (auto simp: sub_store_def)
qed

lemma shares_sum: "(\<Sum>i<SHARDS. shard_share cap i) = cap"
proof -
  have "(\<Sum>i<8. if i < r then 1 else 0 :: nat) = r" if "r < 8" for r :: nat
    using that by (auto simp: numeral_nat less_Suc_eq)
  then have "(\<Sum>i<8. if i < cap mod 8 then 1 else 0 :: nat) = cap mod 8" by simp
  then have "(\<Sum>i<SHARDS. shard_share cap i) = 8 * (cap div 8) + cap mod 8"
    by (simp add: shard_share_def SHARDS_def sum.distrib)
  then show ?thesis by simp
qed

lemma lru_len_sum: "length (l_shards s) = SHARDS \<Longrightarrow> lru_len s = (\<Sum>i<SHARDS. om_len (s_map (l_shards s ! i)))"
  by (simp add: lru_len_def sum_list_sum_nth atLeast0LessThan)

lemma lru_len_bound:
  assumes "lru_inv H s"
  shows "lru_len s \<le> l_total_cap s"
proof -
  have "om_len (s_map (l_shards s ! i)) \<le> shard_share (l_total_cap s) i" if "i < SHARDS" for i
    using assms that om_len_abs by (fastforce simp: lru_inv_def shard_inv_def)
  then have "(\<Sum>i<SHARDS. om_len (s_map (l_shards s ! i))) \<le> (\<Sum>i<SHARDS. shard_share (l_total_cap s) i)"
    by (intro sum_mono) simp
  then show ?thesis using assms by (simp add: shares_sum lru_len_sum lru_inv_def)
qed

lemma lru_clear_spec:
  assumes "lru_inv H s"
  shows "lru_inv H (lru_clear s) \<and> lru_content H (lru_clear s) = (\<lambda>_. None)"
proof -
  have n: "length (l_shards s) = SHARDS" using assms by (simp add: lru_inv_def)
  have c: "om_inv (om_clear m)" "om_abs (om_clear m) = []" "om_get (om_clear m) k = None" for m :: entry_map and k
    using om_clear_abs [of m] om.lookup [of "om_clear m" k] by simp_all
  have "lru_inv H (lru_clear s)"
    using assms n c by (auto simp: lru_inv_def lru_clear_def shard_inv_def)
  then show ?thesis using n c by (auto simp: lru_content_def the_shard_def lru_clear_def)
qed

lemma lru_new_spec: "lru_inv H (lru_with_group c g) \<and> lru_content H (lru_with_group c g) = (\<lambda>_. None)"
proof -
  have m: "om_inv (om_new :: entry_map) \<and> om_abs (om_new :: entry_map) = []" by (rule om_new_abs)
  then have "om_get (om_new :: entry_map) k = None" for k using om.lookup [of "om_new :: entry_map" k] by simp
  note m = m this
  have "lru_inv H (lru_with_group c g)"
    using m by (auto simp: lru_inv_def lru_with_group_def Let_def shard_inv_def shard_new_def)
  then show ?thesis using m
    by (auto simp: lru_content_def the_shard_def lru_with_group_def Let_def shard_new_def)
qed

lemma lru_inv_stale [simp]: "lru_inv H (lru_set_stale_window w s) = lru_inv H s"
  "lru_content H (lru_set_stale_window w s) = lru_content H s"
  by (simp_all add: lru_inv_def lru_set_stale_window_def lru_content_def the_shard_def fun_eq_iff)

interpretation lru: dns_cache "lru_ops H" "lru_inv H" "lru_content H" l_total_cap
  for H :: hasher
proof unfold_locales
  fix s :: lru and c k now w e n sw
  assume i: "lru_inv H s"
  show "lru_inv H (cache_step (lru_ops H) c s)"
    using lru_get_spec [OF i] lru_get_stale_spec [OF i] lru_peek_spec [OF i] lru_put_spec [OF i]
      remove_content [OF i] lru_clear_spec [OF i] lru_set_capacity_spec [OF i] i
    by (cases c) (simp_all add: lru_ops_def lru_delete_def)
  show "fst (op_get (lru_ops H) k now s) = fresh_answer (lru_content H s k) now
      \<and> sub_store (lru_content H (snd (op_get (lru_ops H) k now s))) (lru_content H s)"
    using lru_get_spec [OF i] by (simp add: lru_ops_def)
  show "fst (op_get_stale (lru_ops H) k now w s) = stale_answer (lru_content H s k) now w
      \<and> sub_store (lru_content H (snd (op_get_stale (lru_ops H) k now w s))) (lru_content H s)"
    using lru_get_stale_spec [OF i] by (simp add: lru_ops_def)
  show "fst (op_peek (lru_ops H) k now s) = fresh_answer (lru_content H s k) now
      \<and> sub_store (lru_content H (snd (op_peek (lru_ops H) k now s))) (lru_content H s)"
    using lru_peek_spec [OF i] by (simp add: lru_ops_def)
  show "sub_store (lru_content H (op_put (lru_ops H) k e now s)) ((lru_content H s)(k \<mapsto> e))"
    using lru_put_spec [OF i] by (simp add: lru_ops_def)
  show "\<exists>e'. lru_content H (op_put (lru_ops H) k e now s) k = Some e' \<and> cache_entry_eq e' e"
    if "now < ce_expires_at e"
    using lru_put_spec [OF i, of k e now] that by (simp add: lru_ops_def)
  show "lru_content H (op_delete (lru_ops H) k s) = (lru_content H s)(k := None)"
    using remove_content [OF i] by (simp add: lru_ops_def lru_delete_def)
  show "lru_content H (op_clear (lru_ops H) s) = (\<lambda>_. None)"
    using lru_clear_spec [OF i] by (simp add: lru_ops_def)
  show "sub_store (lru_content H (op_set_capacity (lru_ops H) n s)) (lru_content H s)"
    using lru_set_capacity_spec [OF i] by (simp add: lru_ops_def)
  show "lru_content H (op_set_stale_window (lru_ops H) sw s) = lru_content H s"
    by (simp add: lru_ops_def)
  show "op_len (lru_ops H) s \<le> l_total_cap s"
    using lru_len_bound [OF i] by (simp add: lru_ops_def)
qed

end
