(* ===== verification/Lru_Props.thy ===== *)
theory Lru_Props
  imports Lru
begin

text \<open>
  What the LRU cache promises: its answers over any history, the recency order and the bound of
  each shard, the sweep, the key listings, and what \<open>restore\<close> brings back.
\<close>

definition lru_run :: "hasher \<Rightarrow> cache_call list \<Rightarrow> lru \<Rightarrow> lru" where
  "lru_run H cs s = fold (cache_step (lru_ops H)) cs s"

lemma run_inv: "lru_inv H s \<Longrightarrow> lru_inv H (lru_run H cs s)"
  unfolding lru_run_def by (rule lru.inv_run)

lemma run_new_inv: "lru_inv H (lru_run H cs (lru_with_group c g))"
  using lru_new_spec run_inv by blast

text \<open>
  C8: Over any history of calls on a fresh LRU cache, \<open>get\<close> answers only with the entry last
  stored under the key and only before its expiry; \<open>get_stale\<close> answers only with that entry,
  expired, and within the window; and the number of entries never exceeds the capacity.
\<close>

theorem lru_history:
  "let s = lru_run H cs (lru_with_group c g); stored = fold store_step cs (\<lambda>_. None) in
     lru_len s \<le> l_total_cap s
     \<and> (case fst (lru_get H k now s) of
           None \<Rightarrow> True
         | Some e \<Rightarrow> now < ce_expires_at e \<and> (\<exists>e'. stored k = Some e' \<and> cache_entry_eq e e'))
     \<and> (case fst (lru_get_stale H k now w s) of
           None \<Rightarrow> True
         | Some e \<Rightarrow> ce_expires_at e \<le> now \<and> now - ce_expires_at e \<le> w
             \<and> (\<exists>e'. stored k = Some e' \<and> cache_entry_eq e e'))"
proof -
  let ?s0 = "lru_with_group c g"
  have i: "lru_inv H ?s0" and e: "sub_store (lru_content H ?s0) (\<lambda>_. None)"
    using lru_new_spec [of H c g] by simp_all
  show ?thesis
    unfolding Let_def lru_run_def
    using lru.run_len [OF i, of cs] lru.get_sound [OF i e, where cs = cs and k = k and now = now]
      lru.get_stale_sound [OF i e, where cs = cs and k = k and now = now and w = w]
    by (simp add: lru_ops_def split: option.split)
qed

text \<open>
  An entry is served right after it is stored, from any state the cache can be in, unless it
  has expired: the insertion never evicts or sweeps the entry it inserts.
\<close>

theorem lru_put_get:
  assumes "now < ce_expires_at e" "now' < ce_expires_at e"
  shows "\<exists>e'. fst (lru_get H k now' (lru_put H k e now (lru_run H cs (lru_with_group c g)))) = Some e'
    \<and> cache_entry_eq e' e"
  using lru.put_get [OF run_new_inv assms, where k = k] by (simp add: lru_ops_def)

theorem lru_put_get_witness:
  "\<exists>e'. fst (lru_get (\<lambda>_. 5) (cache_key_new [97] [65]) 200
      (lru_put (\<lambda>_. 5) (cache_key_new [97] [65]) (cache_entry_new [97] [65] 300 100) 100
        (lru_run (\<lambda>_. 5) [] (lru_with_group 64 None)))) = Some e'
    \<and> cache_entry_eq e' (cache_entry_new [97] [65] 300 100)"
  by (rule lru_put_get) (simp_all add: cache_entry_new_def)

subsection \<open>Recency\<close>

definition shard_list :: "hasher \<Rightarrow> cache_key \<Rightarrow> lru \<Rightarrow> (cache_key \<times> cache_entry) list" where
  "shard_list H k s = om_abs (s_map (the_shard H k s))"

lemma the_shard_upd:
  "lru_inv H s \<Longrightarrow> the_shard H k (s\<lparr>l_shards := (l_shards s)[shard_index H k := sh]\<rparr>) = sh"
  by (simp add: the_shard_def lru_inv_def)

lemma the_shard_set_map: "lru_inv H s \<Longrightarrow> s_map (the_shard H k (set_map H k m s)) = m"
  by (simp add: set_map_def the_shard_upd)

lemma lru_get_list:
  assumes "lru_inv H s" "fst (lru_get H k now s) = Some e"
  shows "shard_list H k (snd (lru_get H k now s)) = al_del k (shard_list H k s) @ [(k, e)]"
proof -
  let ?m = "s_map (the_shard H k s)"
  have m: "om_inv ?m" by (rule inv_map [OF assms(1)])
  have e: "om_get ?m k = Some e" "\<not> ce_expires_at e \<le> now"
    using assms(2) by (auto simp: lru_get_def Let_def split: option.splits if_splits)
  then have "snd (lru_get H k now s) = set_map H k (om_move_to_end k ?m) s"
    by (simp add: lru_get_def Let_def)
  moreover have "map_of (om_abs ?m) k = Some e" using e(1) om.lookup [OF m] by simp
  ultimately show ?thesis
    using om.to_end [OF m, of k] by (simp add: shard_list_def the_shard_set_map [OF assms(1)])
qed

lemma lru_put_list:
  fixes e :: cache_entry and k :: cache_key
  assumes "lru_inv H s" "put_count (the_shard H k s) + 1 AND 0x1F \<noteq> 0"
  defines "l \<equiv> al_del k (shard_list H k s) @ [(k, stamped s e)]"
  shows "shard_list H k (lru_put H k e now s) = drop (length l - s_cap (the_shard H k s)) l"
proof -
  let ?sh = "the_shard H k s"
  have m: "om_inv (s_map ?sh)" by (rule inv_map [OF assms(1)])
  obtain ks sh1 where ev: "evict_locked (?sh\<lparr>s_map := om_insert k (stamped s e) (s_map ?sh)\<rparr>) = (ks, sh1)"
    by fastforce
  have E: "om_abs (s_map sh1) = drop (length l - s_cap ?sh) l" "put_count sh1 = put_count ?sh"
    using evict_spec [OF _ ev] om.insert [OF m] by (simp_all add: l_def shard_list_def)
  have "snd (shard_put k (stamped s e) now (stale_window_f64 s) ?sh) = sh1\<lparr>put_count := put_count sh1 + 1\<rparr>"
    using assms(2) E(2) by (simp add: shard_put_def ev Let_def)
  then show ?thesis
    using assms(1) E(1) by (simp add: shard_list_def the_shard_def lru_put_shards lru_inv_def)
qed

lemma shard_list_other:
  assumes "l_shards s' = (l_shards s)[shard_index H k := sh]" "shard_index H k' \<noteq> shard_index H k"
  shows "shard_list H k' s' = shard_list H k' s"
  using assms by (simp add: shard_list_def the_shard_def)

lemma lru_get_shards: "\<exists>sh. l_shards (snd (lru_get H k now s)) = (l_shards s)[shard_index H k := sh]"
proof (cases "om_get (s_map (the_shard H k s)) k")
  case None
  then show ?thesis by (auto simp: lru_get_def Let_def intro: exI [where x = "l_shards s ! shard_index H k"])
next
  case (Some e)
  then show ?thesis
    by (auto simp: lru_get_def Let_def set_map_def intro: exI [where x = "l_shards s ! shard_index H k"])
qed

text \<open>
  The list of a shard is its recency order.  In every reachable state a hit moves the entry
  to the recent end of its shard and keeps the order of the others; an insertion (when the sweep
  is not due) puts the entry at the recent end and evicts from the least recent end exactly what
  exceeds the bound, at most one entry; and neither touches another shard.
\<close>

theorem lru_recency:
  "let s = lru_run H cs (lru_with_group c g); l = shard_list H k s; sh = the_shard H k s;
       l' = al_del k l @ [(k, stamped s e)] in
     (case fst (lru_get H k now s) of
        None \<Rightarrow> True
      | Some x \<Rightarrow> shard_list H k (snd (lru_get H k now s)) = al_del k l @ [(k, x)])
     \<and> (if put_count sh + 1 AND 0x1F = 0 then True
        else shard_list H k (lru_put H k e now s) = drop (length l' - s_cap sh) l')
     \<and> length l' - s_cap sh \<le> 1
     \<and> (if shard_index H k' = shard_index H k then True
        else shard_list H k' (snd (lru_get H k now s)) = shard_list H k' s
           \<and> shard_list H k' (lru_put H k e now s) = shard_list H k' s)"
proof -
  define s where "s = lru_run H cs (lru_with_group c g)"
  have i: "lru_inv H s" unfolding s_def by (rule run_new_inv)
  obtain sh where g: "l_shards (snd (lru_get H k now s)) = (l_shards s)[shard_index H k := sh]"
    using lru_get_shards by blast
  have "length (shard_list H k s) \<le> s_cap (the_shard H k s)"
    using inv_shard [OF i, of k] by (simp add: shard_list_def shard_inv_def)
  then have b: "length (al_del k (shard_list H k s)) + 1 - s_cap (the_shard H k s) \<le> 1"
    using length_al_del [of k "shard_list H k s"] by simp
  show ?thesis
    unfolding Let_def s_def [symmetric]
    using lru_get_list [OF i, of k now] lru_put_list [OF i, of k e now] b
      shard_list_other [OF g] shard_list_other [OF lru_put_shards(1)]
    by (simp split: option.split)
qed

text \<open>
  The sweep of a shard, in every reachable state: it removes only entries that have expired
  and lie outside the stale window, it returns the number it removed, it keeps the order of the
  rest, and on a shard of at most 64 entries it leaves no such entry behind.
\<close>

theorem lru_sweep:
  "let sh = the_shard H k (lru_run H cs (lru_with_group c g)); l = om_abs (s_map sh);
       p = (\<lambda>x. ce_expires_at (snd x) \<le> now \<and> \<not> (sw > 0 \<and> now - ce_expires_at (snd x) \<le> sw)); (cnt, sh') = purge_expired_locked_with_sw sh now sw;
       l' = om_abs (s_map sh') in
     set l' \<subseteq> set l \<and> set l - set l' \<subseteq> Collect p \<and> cnt + length l' = length l
     \<and> (if length l \<le> 64 then l' = filter (\<lambda>x. \<not> p x) l else True)"
proof -
  define sh where "sh = the_shard H k (lru_run H cs (lru_with_group c g))"
  have i: "om_inv (s_map sh)" unfolding sh_def by (rule inv_map [OF run_new_inv])
  obtain n sh' where pu: "purge_expired_locked_with_sw sh now sw = (n, sh')" by fastforce
  have "n + length (om_abs (s_map sh')) = length (om_abs (s_map sh))" using purge_spec [OF i pu] by blast
  then show ?thesis
    unfolding Let_def sh_def [symmetric] pu
    using purge_sub [OF i pu] purge_small [OF i pu] by (auto simp: purgeable_def Let_def)
qed

subsection \<open>Listings\<close>

lemma distinct_concat_index:
  "\<forall>i < length xs. distinct (xs ! i) \<and> (\<forall>x \<in> set (xs ! i). f x = i + off) \<Longrightarrow> distinct (concat xs)"
proof (induction xs arbitrary: off)
  case Nil
  show ?case by simp
next
  case (Cons ys xs)
  have h: "distinct ys" "\<And>x. x \<in> set ys \<Longrightarrow> f x = off" using Cons.prems [rule_format, of 0] by auto
  have r: "\<forall>i < length xs. distinct (xs ! i) \<and> (\<forall>x \<in> set (xs ! i). f x = i + (off + 1))"
    using Cons.prems [rule_format, of "Suc i" for i] by auto
  have "f x > off" if x: "x \<in> set (concat xs)" for x
  proof -
    obtain zs where zs: "zs \<in> set xs" "x \<in> set zs" using x by auto
    then obtain i where "i < length xs" "xs ! i = zs" by (auto simp: in_set_conv_nth)
    then show ?thesis using r zs(2) by auto
  qed
  then show ?case using h Cons.IH [OF r] by fastforce
qed

lemma inv_iter: "lru_inv H s \<Longrightarrow> sh \<in> set (l_shards s) \<Longrightarrow> om_iter (s_map sh) = om_abs (s_map sh)"
  using om_iter_abs by (fastforce simp: lru_inv_def shard_inv_def in_set_conv_nth)

lemma lru_keys_abs: "lru_inv H s \<Longrightarrow> lru_keys s = concat (map (\<lambda>sh. map fst (om_abs (s_map sh))) (l_shards s))"
  by (simp add: lru_keys_def inv_iter cong: map_cong)

lemma lru_keys_distinct: "lru_inv H s \<Longrightarrow> distinct (lru_keys s)"
  unfolding lru_keys_abs
  by (rule distinct_concat_index [where f = "shard_index H" and off = 0])
    (auto simp: lru_inv_def shard_inv_def om_distinct)

lemma lru_keys_content: "lru_inv H s \<Longrightarrow> k \<in> set (lru_keys s) \<longleftrightarrow> lru_content H s k \<noteq> None"
proof -
  assume i: "lru_inv H s"
  have in_shard: "k \<in> fst ` set (om_abs (s_map (the_shard H k s)))" if "k \<in> set (lru_keys s)"
  proof -
    have "\<exists>sh \<in> set (l_shards s). k \<in> fst ` set (om_abs (s_map sh))"
      using that by (simp add: lru_keys_abs [OF i])
    then obtain sh where "sh \<in> set (l_shards s)" "k \<in> fst ` set (om_abs (s_map sh))" by blast
    then obtain j where j: "j < SHARDS" "k \<in> fst ` set (om_abs (s_map (l_shards s ! j)))"
      using i by (auto simp: in_set_conv_nth lru_inv_def)
    then have "shard_index H k = j" using i by (auto simp: lru_inv_def shard_inv_def)
    with j show ?thesis by (simp add: the_shard_def)
  qed
  have "the_shard H k s \<in> set (l_shards s)" using i by (simp add: the_shard_def lru_inv_def)
  then have "k \<in> set (lru_keys s) \<longleftrightarrow> k \<in> fst ` set (om_abs (s_map (the_shard H k s)))"
    using in_shard by (auto simp: lru_keys_abs [OF i])
  then show ?thesis
    using om.lookup [OF inv_map [OF i]] by (simp add: lru_content_def map_of_eq_None_iff)
qed

lemma sample_shard_take:
  "length out < limit \<Longrightarrow> sample_shard limit ks out = (length out + length ks \<ge> limit, take limit (out @ ks))"
proof (induction ks arbitrary: out)
  case (Cons k ks)
  show ?case
  proof (cases "Suc (length out) < limit")
    case True
    then show ?thesis using Cons.IH [of "out @ [k]"] by simp
  next
    case False
    then have "limit = Suc (length out)" using Cons.prems by simp
    then show ?thesis by simp
  qed
qed simp

definition quota :: "nat \<Rightarrow> nat \<Rightarrow> nat" where
  "quota limit i = limit div SHARDS + (if i < limit mod SHARDS then 1 else 0)"

lemma sample_loop_take:
  "length out < limit \<Longrightarrow> sample_loop limit base rem i shs out =
     take limit (out @ concat (map (\<lambda>(j, sh). take (base + (if j < rem then 1 else 0)) (map fst (om_iter (s_map sh))))
       (enumerate i shs)))"
proof (induction limit base rem i shs out rule: sample_loop.induct)
  case (1 limit base rem i out)
  then show ?case by simp
next
  case (2 limit base rem i sh shs out)
  define q where "q = take (base + (if i < rem then 1 else 0)) (map fst (om_iter (s_map sh)))"
  let ?rest = "concat (map (\<lambda>(j, sh). take (base + (if j < rem then 1 else 0)) (map fst (om_iter (s_map sh))))
       (enumerate (Suc i) shs))"
  have goal: "sample_loop limit base rem i (sh # shs) out = take limit (out @ q @ ?rest) \<Longrightarrow> ?case"
    by (simp add: q_def)
  show ?case
  proof (cases "base + (if i < rem then 1 else 0) = 0")
    case True
    then show ?thesis using 2(1) [OF refl True 2(3)] by simp
  next
    case False
    note step = sample_loop.simps(2) [of limit base rem i sh shs out, unfolded Let_def, unfolded q_def [symmetric],
      unfolded if_not_P [OF False]]
    show ?thesis
    proof (cases "length out + length q \<ge> limit")
      case True
      have s: "sample_shard limit q out = (True, take limit (out @ q))"
        using sample_shard_take [OF 2(3), of q] True by simp
      have "sample_loop limit base rem i (sh # shs) out = take limit (out @ q)"
        unfolding step s by simp
      then show ?thesis using True by (intro goal) simp
    next
      case F: False
      have s: "sample_shard limit q out = (False, out @ q)"
        using sample_shard_take [OF 2(3), of q] F by simp
      have "sample_loop limit base rem (i + 1) shs (out @ q) = take limit ((out @ q) @ ?rest)"
        using 2(2) [OF refl False, unfolded q_def [symmetric], OF s [symmetric] refl] F by simp
      then have "sample_loop limit base rem i (sh # shs) out = take limit (out @ q @ ?rest)"
        unfolding step s by simp
      then show ?thesis by (rule goal)
    qed
  qed
qed

lemma length_concat_nth: "length (concat xs) = (\<Sum>i<length xs. length (xs ! i))"
  by (simp add: length_concat sum_list_sum_nth atLeast0LessThan)

lemma lru_sample_take:
  assumes "lru_inv H s"
  shows "lru_sample_keys limit s =
    take limit (concat (map (\<lambda>(j, sh). take (quota limit j) (map fst (om_abs (s_map sh)))) (enumerate 0 (l_shards s))))"
proof (cases "limit = 0")
  case False
  have "length (l_shards s) = 8" using assms by (simp add: lru_inv_def SHARDS_def)
  then have "lru_sample_keys limit s = take limit (concat (map (\<lambda>(j, sh). take (quota limit j)
      (map fst (om_iter (s_map sh)))) (enumerate 0 (l_shards s))))"
    using False by (simp add: lru_sample_keys_def Let_def sample_loop_take quota_def SHARDS_def)
  moreover have "map (\<lambda>(j, sh). take (quota limit j) (map fst (om_iter (s_map sh)))) (enumerate 0 (l_shards s))
      = map (\<lambda>(j, sh). take (quota limit j) (map fst (om_abs (s_map sh)))) (enumerate 0 (l_shards s))"
    by (rule map_cong [OF refl]) (use inv_iter [OF assms] in \<open>auto simp: in_set_enumerate_eq\<close>)
  ultimately show ?thesis by (simp only:)
qed (simp add: lru_sample_keys_def)

lemma quota_sum: "(\<Sum>i<SHARDS. quota n i) = n"
  using shares_sum [of n] by (simp add: quota_def shard_share_def)

text \<open>
  In every reachable state \<open>keys\<close> lists each stored key once and \<open>len\<close> is its length;
  \<open>sample_keys\<close> lists at most the requested number of them, without repetition, and exactly that
  many when every shard holds its quota.
\<close>

theorem lru_listings:
  "let s = lru_run H cs (lru_with_group c g); sample = lru_sample_keys n s in
     distinct (lru_keys s) \<and> length (lru_keys s) = lru_len s
     \<and> (k \<in> set (lru_keys s) \<longleftrightarrow> lru_content H s k \<noteq> None)
     \<and> length sample \<le> n \<and> distinct sample \<and> set sample \<subseteq> set (lru_keys s)
     \<and> (if list_all (\<lambda>i. quota n i \<le> om_len (s_map (l_shards s ! i))) [0..<SHARDS] then length sample = n else True)"
proof -
  define s where "s = lru_run H cs (lru_with_group c g)"
  have i: "lru_inv H s" unfolding s_def by (rule run_new_inv)
  have n: "length (l_shards s) = SHARDS" using i by (simp add: lru_inv_def)
  let ?Q = "map (\<lambda>(j, sh). take (quota n j) (map fst (om_abs (s_map sh)))) (enumerate 0 (l_shards s))"
  note S = lru_sample_take [OF i, of n]
  have ol: "om_len (s_map sh) = length (om_abs (s_map sh))" if "sh \<in> set (l_shards s)" for sh
    using that i om_len_abs by (fastforce simp: lru_inv_def shard_inv_def in_set_conv_nth)
  have len: "length (lru_keys s) = lru_len s"
    using ol by (simp add: lru_keys_abs [OF i] lru_len_def length_concat comp_def cong: map_cong)
  have ix: "shard_index H a = j" if "j < SHARDS" "(a, b) \<in> set (om_abs (s_map (l_shards s ! j)))" for a b j
    using i that by (fastforce simp: lru_inv_def shard_inv_def)
  have dm: "distinct (map fst (om_abs (s_map (l_shards s ! j))))" if "j < SHARDS" for j
    using i that by (simp add: lru_inv_def shard_inv_def om_distinct)
  have dq: "distinct (concat ?Q)"
    by (rule distinct_concat_index [where f = "shard_index H" and off = 0])
      (use n ix dm in \<open>auto simp: nth_enumerate_eq dest!: in_set_takeD\<close>)
  have sub: "set (concat ?Q) \<subseteq> set (lru_keys s)"
  proof
    fix x assume "x \<in> set (concat ?Q)"
    then obtain j sh where j: "(j, sh) \<in> set (enumerate 0 (l_shards s))" "x \<in> set (take (quota n j) (map fst (om_abs (s_map sh))))"
      by auto
    then have "sh \<in> set (l_shards s)" "x \<in> set (map fst (om_abs (s_map sh)))"
      by (auto simp only: in_set_enumerate_eq fst_conv snd_conv dest: in_set_takeD intro: nth_mem)
    then show "x \<in> set (lru_keys s)" unfolding lru_keys_abs [OF i] by auto
  qed
  have full: "length (lru_sample_keys n s) = n"
    if q: "list_all (\<lambda>i. quota n i \<le> om_len (s_map (l_shards s ! i))) [0..<SHARDS]"
  proof -
    have "length (concat ?Q) = (\<Sum>j<SHARDS. length (?Q ! j))"
      using length_concat_nth [of ?Q] n by simp
    also have "\<dots> = (\<Sum>j<SHARDS. quota n j)"
    proof (rule sum.cong [OF refl])
      fix j assume "j \<in> {..<SHARDS}"
      then have "l_shards s ! j \<in> set (l_shards s)" "quota n j \<le> om_len (s_map (l_shards s ! j))" "j < length (l_shards s)"
        using q n by (simp_all add: list_all_iff)
      then show "length (?Q ! j) = quota n j" using ol by (simp add: nth_enumerate_eq)
    qed
    finally show ?thesis by (simp add: S quota_sum)
  qed
  define sm where "sm = lru_sample_keys n s"
  have "length sm \<le> n" "distinct sm" "set sm \<subseteq> set (concat ?Q)"
    using dq set_take_subset [of n "concat ?Q"] by (simp_all only: sm_def S length_take distinct_take)
  then show ?thesis
    unfolding Let_def s_def [symmetric] sm_def [symmetric]
    using lru_keys_distinct [OF i] lru_keys_content [OF i, of k] len full sub unfolding sm_def [symmetric]
    by (simp only: simp_thms if_True) (auto simp only: split: if_split)
qed

subsection \<open>Journal events\<close>

text \<open>A journal that is on, read, and has room for \<open>n\<close> more events.\<close>

definition has_room :: "nat \<Rightarrow> journal \<Rightarrow> bool" where
  "has_room n j \<longleftrightarrow> \<not> journal_off j
     \<and> (\<exists>tx. j_tx j = Some tx \<and> receiver_alive tx \<and> length (ring tx) + n \<le> JOURNAL_RING)"

lemma send_room:
  assumes "has_room (Suc n) j"
  shows "has_room n (journal_send ev j) \<and> queued (journal_send ev j) = queued j @ [ev]
    \<and> j_needs_resync (journal_send ev j) = j_needs_resync j"
  using assms by (auto simp: has_room_def journal_off_def journal_send_def queued_def is_suspended_def)

lemma next_seq_room [simp]: "has_room n (snd (next_seq j)) = has_room n j"
  "queued (snd (next_seq j)) = queued j"
  by (simp_all add: has_room_def next_seq_def journal_off_def is_suspended_def queued_def)

lemma evictions_queue:
  "has_room (length ks + n) j \<Longrightarrow>
     has_room n (journal_evictions r ks j)
     \<and> queued (journal_evictions r ks j) =
         queued j @ map (\<lambda>(i, k). EvEvict (j_next_seq j + 1 + of_nat i) k r) (enumerate 0 ks)"
proof (induction r ks j rule: journal_evictions.induct)
  case (1 r j)
  then show ?case by simp
next
  case (2 r k ks j)
  let ?j1 = "snd (next_seq j)" and ?n = "j_next_seq j + 1"
  have r: "has_room (Suc (length ks + n)) ?j1" using 2(2) by simp
  let ?j2 = "journal_evict k r ?n ?j1"
  have j2: "has_room (length ks + n) ?j2" "queued ?j2 = queued j @ [EvEvict ?n k r]"
    using send_room [OF r, of "EvEvict ?n k r"] by (simp_all add: journal_evict_def)
  have s2: "j_next_seq ?j2 = ?n" by (simp add: journal_evict_def next_seq_def)
  have e: "journal_evictions r (k # ks) j = journal_evictions r ks ?j2"
    by (simp add: next_seq_def)
  have IH: "has_room n (journal_evictions r ks ?j2) \<and> queued (journal_evictions r ks ?j2) =
      queued ?j2 @ map (\<lambda>(i, k). EvEvict (j_next_seq ?j2 + 1 + of_nat i) k r) (enumerate 0 ks)"
    by (rule 2(1) [of "(?n, ?j1)" ?n ?j1]) (use j2 in \<open>simp_all add: next_seq_def\<close>)
  have sh: "map (\<lambda>(i, k). EvEvict (?n + 1 + of_nat i) k r) (enumerate 0 ks)
      = map (\<lambda>(i, k). EvEvict (?n + of_nat i) k r) (enumerate 1 ks)"
    by (rule nth_equalityI) (simp_all add: nth_enumerate_eq)
  show ?case using IH j2(2) sh unfolding e s2 by simp
qed

lemma put_journal:
  assumes "l_journal s = Some j"
  shows "l_journal (lru_put H k e now s) = Some (journal_put (lru_journal_key s k) (stamped s e) (fst (next_seq j))
    (journal_evictions Capacity (map (lru_journal_key s)
        (fst (shard_put k (stamped s e) now (stale_window_f64 s) (the_shard H k s)))) (snd (next_seq j))))"
  using assms by (auto simp: lru_put_def shard_put_def stamped_def Let_def next_seq_def split: prod.splits)

text \<open>
  With a journal that is on and has room, an insertion queues exactly one \<open>EVICT\<close> per entry
  pushed out of the shard, least recently used first, and then one \<open>PUT\<close> carrying the stamped
  entry, under the keys the log uses.  The \<open>PUT\<close> has the smallest of the new sequence numbers
  although it is queued last.
\<close>

theorem lru_put_events:
  assumes "lru_inv H s" "l_journal s = Some j" "has_room 2 j"
  shows "let l = al_del k (shard_list H k s) @ [(k, stamped s e)];
             out = map fst (take (length l - s_cap (the_shard H k s)) l); n = j_next_seq j + 1 in
    \<exists>j'. l_journal (lru_put H k e now s) = Some j'
      \<and> queued j' = queued j @ map (\<lambda>(i, k). EvEvict (n + 1 + of_nat i) (lru_journal_key s k) Capacity) (enumerate 0 out)
          @ [EvPut n (lru_journal_key s k) (e\<lparr>ce_seq := n\<rparr>)]"
proof -
  let ?l = "al_del k (shard_list H k s) @ [(k, stamped s e)]" and ?sh = "the_shard H k s" and ?n = "j_next_seq j + 1"
  define out where "out = map fst (take (length ?l - s_cap ?sh) ?l)"
  obtain ks sh' where p: "shard_put k (stamped s e) now (stale_window_f64 s) ?sh = (ks, sh')" by fastforce
  have "ks = out"
    using shard_put_spec [OF inv_shard [OF assms(1)] _ refl p] assms(1)
    by (simp add: out_def shard_list_def lru_inv_def)
  have "length (shard_list H k s) \<le> s_cap ?sh"
    using inv_shard [OF assms(1), of k] by (simp add: shard_list_def shard_inv_def)
  then have one: "length out \<le> 1" using length_al_del [of k "shard_list H k s"] by (simp add: out_def)
  let ?ks = "map (lru_journal_key s) out" and ?j1 = "snd (next_seq j)"
  have hr: "has_room 2 j \<Longrightarrow> m \<le> 2 \<Longrightarrow> has_room m j" for m by (auto simp: has_room_def)
  have r: "has_room (length ?ks + 1) ?j1" using hr assms(3) one by simp
  note E = evictions_queue [OF r, of Capacity]
  have st: "stamped s e = e\<lparr>ce_seq := ?n\<rparr>" using assms(2) by (simp add: stamped_def next_seq_def)
  let ?j2 = "journal_evictions Capacity ?ks ?j1"
  let ?ev = "EvPut ?n (lru_journal_key s k) (e\<lparr>ce_seq := ?n\<rparr>)"
  have "l_journal (lru_put H k e now s) = Some (journal_send ?ev ?j2)"
    using put_journal [OF assms(2), of H k e now] \<open>ks = out\<close> p by (simp add: journal_put_def st next_seq_def)
  moreover have "queued (journal_send ?ev ?j2) = queued ?j2 @ [?ev]"
    using send_room [of 0 ?j2 ?ev] E by simp
  moreover have "map (\<lambda>(i, k). EvEvict (j_next_seq ?j1 + 1 + of_nat i) k Capacity) (enumerate 0 ?ks)
      = map (\<lambda>(i, k). EvEvict (?n + 1 + of_nat i) (lru_journal_key s k) Capacity) (enumerate 0 out)"
    by (rule nth_equalityI) (simp_all add: nth_enumerate_eq next_seq_def)
  ultimately show ?thesis using E unfolding Let_def out_def [symmetric] by simp
qed

theorem lru_put_events_witness:
  "let s = (lru_with_group 16 (Some [100]))\<lparr>l_journal := Some journal_new\<rparr>; k = cache_key_new [97] [65];
       e = cache_entry_new [97] [65] 300 100; H = (\<lambda>_. 5);
       l = al_del k (shard_list H k s) @ [(k, stamped s e)];
       out = map fst (take (length l - s_cap (the_shard H k s)) l); n = j_next_seq journal_new + 1 in
    \<exists>j'. l_journal (lru_put H k e 100 s) = Some j'
      \<and> queued j' = queued journal_new @ map (\<lambda>(i, k). EvEvict (n + 1 + of_nat i) (lru_journal_key s k) Capacity) (enumerate 0 out)
          @ [EvPut n (lru_journal_key s k) (e\<lparr>ce_seq := n\<rparr>)]"
proof -
  let ?s = "(lru_with_group 16 (Some [100]))\<lparr>l_journal := Some journal_new\<rparr>"
  have i: "lru_inv (\<lambda>_. 5) ?s"
    using lru_new_spec [of "\<lambda>_. 5" 16 "Some [100]"] by (simp add: lru_inv_def)
  have r: "has_room 2 journal_new"
    by (simp add: has_room_def journal_off_def journal_new_def is_suspended_def JOURNAL_RING_def)
  show ?thesis
    using lru_put_events [OF i _ r, of "cache_key_new [97] [65]" "cache_entry_new [97] [65] 300 100" 100]
    unfolding Let_def by simp
qed

text \<open>
  Three insertions into a shard of two: the events are queued with the sequence numbers 1, 2,
  4, 3, so the order of the queue is not the order of the numbers.
\<close>

definition three_puts :: lru where
  "three_puts = fold (\<lambda>k. lru_put (\<lambda>_. 5) k (cache_entry_new (key_domain k) [65] 300 100) 100)
     (map (\<lambda>c. cache_key_new [c] [65]) [97, 98, 99]) ((lru_with_group 16 None)\<lparr>l_journal := Some journal_new\<rparr>)"

lemma put_events_out_of_order: "map event_seq (queued (the (l_journal three_puts))) = [1, 2, 4, 3]"
  by code_simp

subsection \<open>Restore\<close>

definition maps_ok :: "hasher \<Rightarrow> (cache_key \<times> cache_entry \<Rightarrow> bool) \<Rightarrow> entry_map list \<Rightarrow> bool" where
  "maps_ok H Q ms \<longleftrightarrow> length ms = SHARDS
     \<and> (\<forall>i < SHARDS. om_inv (ms ! i) \<and> (\<forall>x \<in> set (om_abs (ms ! i)). shard_index H (fst x) = i \<and> Q x))"

lemma maps_ok_new: "maps_ok H Q (replicate SHARDS om_new)"
proof -
  have "om_inv (om_new :: entry_map) \<and> om_abs (om_new :: entry_map) = []" by (rule om_new_abs)
  then show ?thesis by (simp add: maps_ok_def)
qed

lemma maps_ok_mono: "maps_ok H Q ms \<Longrightarrow> (\<And>x. Q x \<Longrightarrow> Q' x) \<Longrightarrow> maps_ok H Q' ms"
  by (auto simp: maps_ok_def)

lemma maps_okD:
  assumes "maps_ok H Q ms" "i < SHARDS"
  shows "om_inv (ms ! i)" "(k, x) \<in> set (om_abs (ms ! i)) \<Longrightarrow> shard_index H k = i \<and> Q (k, x)"
  using assms by (fastforce simp: maps_ok_def)+

lemma maps_okI:
  assumes "length ms = SHARDS" "\<And>i. i < SHARDS \<Longrightarrow> om_inv (ms ! i)"
    and "\<And>i k x. i < SHARDS \<Longrightarrow> (k, x) \<in> set (om_abs (ms ! i)) \<Longrightarrow> shard_index H k = i \<and> Q (k, x)"
  shows "maps_ok H Q ms"
  using assms by (auto simp: maps_ok_def)

lemma maps_ok_insert:
  assumes "maps_ok H Q ms" "Q (k, e)"
  shows "maps_ok H Q (ms[shard_index H k := om_insert k e (ms ! shard_index H k)])"
proof -
  have m: "om_inv (ms ! shard_index H k)" using assms(1) by (simp add: maps_ok_def)
  have n: "length ms = SHARDS" using assms(1) by (simp add: maps_ok_def)
  show ?thesis
  proof (rule maps_okI)
    fix i k' x
    assume i: "i < SHARDS"
    show "om_inv (ms[shard_index H k := om_insert k e (ms ! shard_index H k)] ! i)"
      using om.insert [OF m, of k e] maps_okD(1) [OF assms(1) i] n i by (auto simp: nth_list_update)
    assume "(k', x) \<in> set (om_abs (ms[shard_index H k := om_insert k e (ms ! shard_index H k)] ! i))"
    then have "(k', x) = (k, e) \<and> i = shard_index H k \<or> (k', x) \<in> set (om_abs (ms ! i))"
      using om.insert [OF m, of k e] n i by (auto simp: nth_list_update set_al_del split: if_splits)
    then show "shard_index H k' = i \<and> Q (k', x)"
      using maps_okD(2) [OF assms(1) i] assms(2) by auto
  qed (use n in simp)
qed

lemma swap_in_spec:
  assumes "lru_inv H s" "maps_ok H Q ms"
  shows "lru_inv H (swap_in ms s) \<and> (\<forall>k x. lru_content H (swap_in ms s) k = Some x \<longrightarrow> Q (k, x))"
proof -
  have n: "length (l_shards s) = SHARDS" "length ms = SHARDS" using assms by (simp_all add: lru_inv_def maps_ok_def)
  have E: "shard_inv H (l_total_cap s) i (l_shards (swap_in ms s) ! i)
      \<and> set (om_abs (s_map (l_shards (swap_in ms s) ! i))) \<subseteq> set (om_abs (ms ! i))" if "i < SHARDS" for i
  proof -
    let ?sh = "(l_shards s ! i)\<lparr>s_map := ms ! i\<rparr>"
    have c: "s_cap (l_shards s ! i) = shard_share (l_total_cap s) i"
      using assms(1) that by (simp add: lru_inv_def shard_inv_def)
    have "shard_inv H (l_total_cap s) i (snd (evict_locked ?sh))
      \<and> set (om_abs (s_map (snd (evict_locked ?sh)))) \<subseteq> set (om_abs (s_map ?sh))"
      by (rule evict_inv) (use assms(2) that c in \<open>auto simp: maps_ok_def\<close>)
    then show ?thesis using that n by (simp add: swap_in_def)
  qed
  have inv: "lru_inv H (swap_in ms s)"
    using E assms(1) n by (simp add: lru_inv_def swap_in_def)
  have "Q (k, x)" if "lru_content H (swap_in ms s) k = Some x" for k x
  proof -
    let ?i = "shard_index H k"
    have "(k, x) \<in> set (om_abs (s_map (l_shards (swap_in ms s) ! ?i)))"
      using om_get_in [OF inv_map [OF inv], of k k x] that by (simp add: lru_content_def the_shard_def)
    then have "(k, x) \<in> set (om_abs (ms ! ?i))" using E [of ?i] by (meson shard_index_lt subsetD)
    from maps_okD(2) [OF assms(2) shard_index_lt this] show ?thesis by (rule conjunct2)
  qed
  then show ?thesis using inv by blast
qed

text \<open>What becomes of one record.\<close>

datatype restore_class = RStructural structural_issue | RLegacy | RParse | RExpired | RKeep cache_key cache_entry

definition classify :: "(json \<Rightarrow> cache_entry option) \<Rightarrow> real \<Rightarrow> real \<Rightarrow> json \<Rightarrow> restore_class" where
  "classify de now pt e =
     (case structural_check e of
        Inl iss \<Rightarrow> RStructural iss
      | Inr p \<Rightarrow>
          if has_absolute_expiry e then
            (case de e of
               None \<Rightarrow> RParse
             | Some en \<Rightarrow>
                 if pt > 0 then RKeep \<lparr>key_group = None, key_domain = pk_domain p, key_qtype = pk_qtype p\<rparr>
                                  (en\<lparr>ce_expires_at := now + pt, ce_ttl := pt\<rparr>)
                 else if ce_expires_at en \<le> now then RExpired
                 else RKeep \<lparr>key_group = None, key_domain = pk_domain p, key_qtype = pk_qtype p\<rparr>
                        (en\<lparr>ce_ttl := ce_expires_at en - now\<rparr>))
          else if json_get e (lit ''remaining'') = None then RParse else RLegacy)"

lemma restore_one_class:
  "restore_one H de now pt e a =
     (case classify de now pt e of
        RStructural iss \<Rightarrow> a\<lparr>r_structural := (r_structural a)[issue_idx iss := r_structural a ! issue_idx iss + 1]\<rparr>
      | RLegacy \<Rightarrow> a\<lparr>r_legacy := r_legacy a + 1\<rparr>
      | RParse \<Rightarrow> a\<lparr>r_parse_failed := r_parse_failed a + 1\<rparr>
      | RExpired \<Rightarrow> a\<lparr>r_expired := r_expired a + 1\<rparr>
      | RKeep k x \<Rightarrow> a\<lparr>r_maps := (r_maps a)[shard_index H k := om_insert k x (r_maps a ! shard_index H k)]\<rparr>)"
  by (auto simp: restore_one_def classify_def is_legacy_format_def resolve_restored_expiry_def Let_def
      split: sum.split option.split)

lemma classify_fresh: "classify de now pt e = RKeep k x \<Longrightarrow> now < ce_expires_at x"
  by (auto simp: classify_def split: sum.splits option.splits if_splits)

lemma restore_fold:
  assumes "maps_ok H (\<lambda>(k, x). \<exists>e \<in> S. classify de now pt e = RKeep k x) (r_maps a)" "length (r_structural a) = 4"
  shows "maps_ok H (\<lambda>(k, x). \<exists>e \<in> S \<union> set es. classify de now pt e = RKeep k x) (r_maps (fold (restore_one H de now pt) es a))
    \<and> r_expired (fold (restore_one H de now pt) es a) = r_expired a + length (filter (\<lambda>e. classify de now pt e = RExpired) es)
    \<and> r_legacy (fold (restore_one H de now pt) es a) = r_legacy a + length (filter (\<lambda>e. classify de now pt e = RLegacy) es)
    \<and> r_parse_failed (fold (restore_one H de now pt) es a) = r_parse_failed a + length (filter (\<lambda>e. classify de now pt e = RParse) es)
    \<and> sum_list (r_structural (fold (restore_one H de now pt) es a)) = sum_list (r_structural a)
        + length (filter (\<lambda>e. \<exists>iss. classify de now pt e = RStructural iss) es)"
  using assms
proof (induction es arbitrary: a S)
  case Nil
  then show ?case by simp
next
  case (Cons e es)
  let ?a = "restore_one H de now pt e a"
  have idx: "issue_idx iss < 4" for iss by (cases iss) simp_all
  have st: "sum_list (xs[i := xs ! i + 1]) = sum_list xs + 1" if "i < length xs" for xs :: "nat list" and i
    using that by (simp add: sum_list_update)
  have m0: "maps_ok H (\<lambda>(k, x). \<exists>e' \<in> insert e S. classify de now pt e' = RKeep k x) (r_maps a)"
    by (rule maps_ok_mono [OF Cons.prems(1)]) auto
  have m1: "maps_ok H (\<lambda>(k, x). \<exists>e' \<in> insert e S. classify de now pt e' = RKeep k x) (r_maps ?a)"
  proof (cases "classify de now pt e")
    case (RKeep k x)
    then show ?thesis using maps_ok_insert [OF m0, of k x] by (simp add: restore_one_class)
  qed (use m0 Cons.prems(1) in \<open>simp_all add: restore_one_class\<close>)
  have l1: "length (r_structural ?a) = 4"
    using Cons.prems(2) by (simp add: restore_one_class split: restore_class.split)
  let ?c = "classify de now pt e"
  have A: "r_expired ?a = r_expired a + (if ?c = RExpired then 1 else 0)"
    "r_legacy ?a = r_legacy a + (if ?c = RLegacy then 1 else 0)"
    "r_parse_failed ?a = r_parse_failed a + (if ?c = RParse then 1 else 0)"
    by (simp_all add: restore_one_class split: restore_class.split)
  have B: "sum_list (r_structural ?a) = sum_list (r_structural a) + (if \<exists>iss. ?c = RStructural iss then 1 else 0)"
  proof (cases ?c)
    case (RStructural iss)
    have "issue_idx iss < length (r_structural a)" using Cons.prems(2) idx by simp
    from st [OF this] show ?thesis by (simp add: restore_one_class RStructural)
  qed (simp_all add: restore_one_class)
  have S: "S \<union> set (e # es) = insert e S \<union> set es" by auto
  show ?case using Cons.IH [OF m1 l1] unfolding S by (auto simp: A B)
qed

text \<open>
  C9: Restoring an old cache file, in every reachable state: an entry that is served afterwards
  comes from a complete record of the file with an absolute expiry, under the record's key
  without its group; it is still fresh; with no configured \<open>persist_ttl\<close> it keeps exactly the
  expiry of the record.
\<close>

theorem lru_restore_sound:
  "let s = lru_restore_refs H de entries now pt (lru_run H cs (lru_with_group c g)) in
     case lru_content H s k of
       None \<Rightarrow> True
     | Some x \<Rightarrow> now < ce_expires_at x
         \<and> (\<exists>e \<in> set entries. \<exists>p en. structural_check e = Inr p
              \<and> k = \<lparr>key_group = None, key_domain = pk_domain p, key_qtype = pk_qtype p\<rparr>
              \<and> has_absolute_expiry e \<and> de e = Some en
              \<and> ce_expires_at x = (if max (safe_float pt 0) 0 > 0 then now + safe_float pt 0 else ce_expires_at en))"
proof -
  let ?s0 = "lru_run H cs (lru_with_group c g)" and ?pt = "max (safe_float pt 0) 0"
  let ?raw = "if length entries > restore_cap (l_total_cap ?s0) then take (restore_cap (l_total_cap ?s0)) entries else entries"
  let ?a0 = "\<lparr>r_maps = replicate SHARDS om_new, r_expired = 0, r_legacy = 0, r_parse_failed = 0, r_structural = [0, 0, 0, 0]\<rparr>"
  have m: "maps_ok H (\<lambda>(k, x). \<exists>e \<in> {} \<union> set ?raw. classify de now ?pt e = RKeep k x)
      (r_maps (fold (restore_one H de now ?pt) ?raw ?a0))"
    by (rule restore_fold [THEN conjunct1]) (simp_all add: maps_ok_new)
  have sub: "set ?raw \<subseteq> set entries" by (simp add: set_take_subset)
  have "\<exists>e \<in> set entries. classify de now ?pt e = RKeep k x"
    if "lru_content H (lru_restore_refs H de entries now pt ?s0) k = Some x" for x
  proof -
    have "lru_content H (swap_in (r_maps (fold (restore_one H de now ?pt) ?raw ?a0)) ?s0) k = Some x"
      using that by (simp add: lru_restore_refs_def Let_def lru_content_def the_shard_def)
    then show ?thesis using swap_in_spec [OF run_new_inv m] sub by fastforce
  qed
  then show ?thesis
    by (auto simp: Let_def classify_fresh split: option.split)
      (force simp: classify_def split: sum.splits option.splits if_splits)
qed

text \<open>
  Every record of the file is accounted for: it is restored or it falls in exactly one of
  the drop classes, and the three counters \<open>last_restore_drops\<close> reports are the numbers of
  expired, legacy, and broken (unreadable or structurally incomplete) records.
\<close>

theorem lru_restore_drops:
  "let s = lru_run H cs (lru_with_group c g); cls = classify de now (max (safe_float pt 0) 0);
       raw = take (restore_cap (l_total_cap s)) entries; s' = lru_restore_refs H de entries now pt s;
       count = (\<lambda>p. length (filter (\<lambda>e. p (cls e)) raw)) in
     last_restore_drops s' = (word_of_nat (count (\<lambda>c. c = RExpired)), word_of_nat (count (\<lambda>c. c = RLegacy)),
       word_of_nat (count (\<lambda>c. c = RParse) + count (\<lambda>c. \<exists>iss. c = RStructural iss)))
     \<and> length raw = count (\<lambda>c. c = RExpired) + count (\<lambda>c. c = RLegacy) + count (\<lambda>c. c = RParse)
         + count (\<lambda>c. \<exists>iss. c = RStructural iss) + count (\<lambda>c. \<exists>k x. c = RKeep k x)"
proof -
  let ?s0 = "lru_run H cs (lru_with_group c g)" and ?pt = "max (safe_float pt 0) 0"
  let ?raw = "take (restore_cap (l_total_cap ?s0)) entries"
  let ?a0 = "\<lparr>r_maps = replicate SHARDS om_new, r_expired = 0, r_legacy = 0, r_parse_failed = 0, r_structural = [0, 0, 0, 0]\<rparr>"
  have raw: "(if length entries > n then take n entries else entries) = take n entries" for n by simp
  note F = restore_fold [of H "{}" de now ?pt ?a0 ?raw]
  have split: "length es = length (filter (\<lambda>e. classify de now ?pt e = RExpired) es)
      + length (filter (\<lambda>e. classify de now ?pt e = RLegacy) es) + length (filter (\<lambda>e. classify de now ?pt e = RParse) es)
      + length (filter (\<lambda>e. \<exists>iss. classify de now ?pt e = RStructural iss) es)
      + length (filter (\<lambda>e. \<exists>k x. classify de now ?pt e = RKeep k x) es)" for es
  proof (induction es)
    case (Cons e es)
    then show ?case by (cases "classify de now ?pt e") simp_all
  qed simp
  show ?thesis
    using F maps_ok_new split [of ?raw]
    by (simp add: Let_def lru_restore_refs_def last_restore_drops_def raw)
qed

end
