(* ===== verification/Partitioned.thy ===== *)
theory Partitioned
  imports Lru "HOL-Library.List_Lexorder"
begin

text \<open>
  \<open>ebpdns-cache/src/partitioned.rs\<close>: one LRU cache per routing group.  The capacity is divided by weights; a key goes to
  the partition of its group, or to \<open>default\<close>, or to the first one, and is stored there without its group.

  The partitions are the \<open>BTreeMap\<close> as its list in key order.  All of them write to one journal, which is a field here and
  lent to a partition for the length of an operation.  Weights are real numbers once read.
\<close>

record partitioned =
  pt_total_cap :: nat
  pt_parts :: "(str \<times> real) list"
  pt_caches :: "(str \<times> lru) list"
  pt_restore_skipped :: nat
  pt_journal :: "journal option"

definition DEFAULT_PARTITIONS :: "(str \<times> f64) list" where
  "DEFAULT_PARTITIONS = [(lit ''domestic'', Fin (2 / 10)), (lit ''global'', Fin (2 / 10)), (lit ''default'', Fin (6 / 10))]"

subsection \<open>Dividing the capacity\<close>

text \<open>The weights, not negative and with sum one unless all are zero, in the order of the names.\<close>

definition normal_weights :: "(str \<times> f64) list \<Rightarrow> (str \<times> real) list" where
  "normal_weights raw =
     (let clamped = map (\<lambda>(g, w). (g, max (safe_float w 0) 0)) raw;
          total = sum_list (map snd clamped);
          denom = (if total > 0 then total else 1) in
      sort_key fst (map (\<lambda>(g, w). (g, w / denom)) clamped))"

text \<open>\<open>floored.iter_mut().find\<close>: the first slot of the name.\<close>

fun bump :: "str \<Rightarrow> (str \<times> nat) list \<Rightarrow> (str \<times> nat) list" where
  "bump g [] = []"
| "bump g ((x, c) # l) = (if x = g then (x, c + 1) # l else (x, c) # bump g l)"

fun slot_count :: "str \<Rightarrow> (str \<times> nat) list \<Rightarrow> nat" where
  "slot_count g [] = 0"
| "slot_count g ((x, c) # l) = (if x = g then c else slot_count g l)"

fun unbump :: "str \<Rightarrow> (str \<times> nat) list \<Rightarrow> (str \<times> nat) list" where
  "unbump g [] = []"
| "unbump g ((x, c) # l) = (if x = g then (x, c - 1) # l else (x, c) # unbump g l)"

text \<open>What is left over goes to the names in turn.\<close>

fun spread :: "str list \<Rightarrow> nat \<Rightarrow> nat \<Rightarrow> (str \<times> nat) list \<Rightarrow> (str \<times> nat) list" where
  "spread order 0 i l = l"
| "spread order (Suc left) i l = spread order left (i + 1) (bump (order ! (i mod length order)) l)"

text \<open>What is too much is taken back from the names in turn, as long as one has more than one: a round of the inner loop
  with \<open>tries\<close> left, and the outer loop.\<close>

fun take_one :: "str list \<Rightarrow> nat \<Rightarrow> nat \<Rightarrow> (str \<times> nat) list \<Rightarrow> (nat \<times> (str \<times> nat) list) option" where
  "take_one order 0 i l = None"
| "take_one order (Suc tries) i l =
     (let g = order ! (i mod length order) in
      if slot_count g l > 1 then Some (i, unbump g l) else take_one order tries (i + 1) l)"

fun take_back :: "str list \<Rightarrow> nat \<Rightarrow> nat \<Rightarrow> (str \<times> nat) list \<Rightarrow> (str \<times> nat) list" where
  "take_back order 0 i l = l"
| "take_back order (Suc d) i l =
     (case take_one order (length order) i l of
        None \<Rightarrow> l
      | Some (i, l) \<Rightarrow> take_back order d i l)"

definition by_fraction :: "(str \<times> real) list \<Rightarrow> str list" where
  "by_fraction raw = map fst (sort_key (\<lambda>(_, r). - (r - real_of_int \<lfloor>r\<rfloor>)) raw)"

definition allocate :: "(str \<times> real) list \<Rightarrow> nat \<Rightarrow> (str \<times> nat) list" where
  "allocate parts cap =
     (let n = length parts; floor_total = saturating_mul 16 n in
      if n = 0 then []
      else if cap \<ge> floor_total then
        let rem = cap - floor_total;
            raw = map (\<lambda>(g, w). (g, real rem * w)) parts;
            floored = map (\<lambda>(g, r). (g, nat \<lfloor>r\<rfloor>)) raw;
            used = sum_list (map snd floored) in
        map (\<lambda>(g, c). (g, 16 + c)) (spread (by_fraction raw) (rem - used) 0 floored)
      else
        let raw = map (\<lambda>(g, w). (g, real cap * w)) parts;
            floored = map (\<lambda>(g, r). (g, max (nat \<lfloor>r\<rfloor>) 1)) raw;
            used = sum_list (map snd floored) in
        take_back (by_fraction raw) (used - cap) (cap - used) (spread (by_fraction raw) (cap - used) 0 floored))"

definition rebuild_caches :: "(str \<times> real) list \<Rightarrow> nat \<Rightarrow> (str \<times> lru) list" where
  "rebuild_caches parts cap = map (\<lambda>(g, share). (g, lru_with_group share (Some g))) (allocate parts cap)"

definition partitioned_new :: "nat \<Rightarrow> (str \<times> f64) list option \<Rightarrow> partitioned" where
  "partitioned_new capacity ps =
     (let cap = clamp_capacity (Some capacity);
          parts = normal_weights (case ps of Some p \<Rightarrow> p | None \<Rightarrow> DEFAULT_PARTITIONS) in
      \<lparr>pt_total_cap = cap, pt_parts = parts, pt_caches = rebuild_caches parts cap, pt_restore_skipped = 0, pt_journal = None\<rparr>)"

subsection \<open>Routing\<close>

definition group_in :: "str list \<Rightarrow> cache_key \<Rightarrow> str option" where
  "group_in names k =
     (let want = (case key_group k of Some g \<Rightarrow> g | None \<Rightarrow> lit ''default'') in
      if want \<in> set names then Some want
      else if lit ''default'' \<in> set names then Some (lit ''default'')
      else case names of g # _ \<Rightarrow> Some g | [] \<Rightarrow> None)"

definition resolve_group :: "partitioned \<Rightarrow> cache_key \<Rightarrow> str option" where
  "resolve_group s k = group_in (map fst (pt_caches s)) k"

definition inner_key :: "cache_key \<Rightarrow> cache_key" where
  "inner_key k = (if key_group k = None then k else cache_key_new (key_domain k) (key_qtype k))"

definition pt_journal_key :: "partitioned \<Rightarrow> cache_key \<Rightarrow> cache_key" where
  "pt_journal_key s k = (case resolve_group s k of Some g \<Rightarrow> k\<lparr>key_group := Some g\<rparr> | None \<Rightarrow> k)"

text \<open>A partition with the common journal, and its return.\<close>

definition the_part :: "partitioned \<Rightarrow> str \<Rightarrow> lru option" where
  "the_part s g = map_option (\<lambda>c. c\<lparr>l_journal := pt_journal s\<rparr>) (map_of (pt_caches s) g)"

definition put_part :: "str \<Rightarrow> lru \<Rightarrow> partitioned \<Rightarrow> partitioned" where
  "put_part g c s =
     s\<lparr>pt_caches := map (\<lambda>(x, d). (x, if x = g then c else d)) (pt_caches s), pt_journal := l_journal c\<rparr>"

text \<open>An operation on the partition of a key, and one on all partitions in order.\<close>

definition on_part :: "cache_key \<Rightarrow> 'a \<Rightarrow> (lru \<Rightarrow> 'a \<times> lru) \<Rightarrow> partitioned \<Rightarrow> 'a \<times> partitioned" where
  "on_part k none f s =
     (case resolve_group s k of
        None \<Rightarrow> (none, s)
      | Some g \<Rightarrow>
          (case the_part s g of
             None \<Rightarrow> (none, s)
           | Some c \<Rightarrow> (case f c of (r, c) \<Rightarrow> (r, put_part g c s))))"

definition each_step :: "(str \<Rightarrow> lru \<Rightarrow> lru) \<Rightarrow> str \<Rightarrow> partitioned \<Rightarrow> partitioned" where
  "each_step f g s = (case the_part s g of Some c \<Rightarrow> put_part g (f g c) s | None \<Rightarrow> s)"

definition on_each :: "(str \<Rightarrow> lru \<Rightarrow> lru) \<Rightarrow> partitioned \<Rightarrow> partitioned" where
  "on_each f s = fold (each_step f) (map fst (pt_caches s)) s"

subsection \<open>Operations\<close>

definition pt_get :: "hasher \<Rightarrow> cache_key \<Rightarrow> real \<Rightarrow> partitioned \<Rightarrow> cache_entry option \<times> partitioned" where
  "pt_get H k now s = on_part k None (lru_get H (inner_key k) now) s"

definition pt_get_stale :: "hasher \<Rightarrow> cache_key \<Rightarrow> real \<Rightarrow> real \<Rightarrow> partitioned \<Rightarrow> cache_entry option \<times> partitioned" where
  "pt_get_stale H k now w s = on_part k None (lru_get_stale H (inner_key k) now w) s"

definition pt_peek :: "hasher \<Rightarrow> cache_key \<Rightarrow> real \<Rightarrow> partitioned \<Rightarrow> cache_entry option \<times> partitioned" where
  "pt_peek H k now s = on_part k None (lru_peek H (inner_key k) now) s"

definition pt_put :: "hasher \<Rightarrow> cache_key \<Rightarrow> cache_entry \<Rightarrow> real \<Rightarrow> partitioned \<Rightarrow> partitioned" where
  "pt_put H k v now s = snd (on_part k () (\<lambda>c. ((), lru_put H (k\<lparr>key_group := None\<rparr>) v now c)) s)"

definition pt_delete :: "hasher \<Rightarrow> cache_key \<Rightarrow> partitioned \<Rightarrow> partitioned" where
  "pt_delete H k s = snd (on_part k () (\<lambda>c. ((), lru_delete H (inner_key k) c)) s)"

definition pt_clear :: "partitioned \<Rightarrow> partitioned" where
  "pt_clear s = on_each (\<lambda>_. lru_clear) s"

definition pt_len :: "partitioned \<Rightarrow> nat" where
  "pt_len s = sum_list (map (\<lambda>(_, c). lru_len c) (pt_caches s))"

definition group_keys :: "str \<Rightarrow> cache_key list \<Rightarrow> cache_key list" where
  "group_keys g ks = map (\<lambda>k. \<lparr>key_group = Some g, key_domain = key_domain k, key_qtype = key_qtype k\<rparr>) ks"

definition pt_keys :: "partitioned \<Rightarrow> cache_key list" where
  "pt_keys s = concat (map (\<lambda>(g, c). group_keys g (lru_keys c)) (pt_caches s))"

definition pt_quota :: "nat \<Rightarrow> nat \<Rightarrow> nat \<Rightarrow> nat" where
  "pt_quota limit n idx = limit div n + (if idx < limit mod n then 1 else 0)"

text \<open>The two rounds of \<open>sample_keys\<close>: the quota of each partition, then what is missing behind it.\<close>

fun pt_first_round :: "nat \<Rightarrow> nat \<Rightarrow> nat \<Rightarrow> (str \<times> lru) list \<Rightarrow> cache_key list \<Rightarrow> bool \<times> cache_key list" where
  "pt_first_round limit n idx [] out = (False, out)"
| "pt_first_round limit n idx ((g, c) # cs) out =
     (case sample_shard limit (group_keys g (lru_sample_keys (pt_quota limit n idx) c)) out of
        (True, out) \<Rightarrow> (True, out)
      | (False, out) \<Rightarrow> pt_first_round limit n (idx + 1) cs out)"

fun pt_second_round :: "nat \<Rightarrow> nat \<Rightarrow> nat \<Rightarrow> (str \<times> lru) list \<Rightarrow> cache_key list \<Rightarrow> cache_key list" where
  "pt_second_round limit n idx [] out = out"
| "pt_second_round limit n idx ((g, c) # cs) out =
     (let q = pt_quota limit n idx; need = limit - length out in
      if need = 0 then out
      else case sample_shard limit (group_keys g (drop q (lru_sample_keys (q + need) c))) out of
        (True, out) \<Rightarrow> out
      | (False, out) \<Rightarrow> pt_second_round limit n (idx + 1) cs out)"

definition pt_sample_keys :: "nat \<Rightarrow> partitioned \<Rightarrow> cache_key list" where
  "pt_sample_keys limit s =
     (if limit = 0 \<or> pt_caches s = [] then []
      else let n = length (pt_caches s) in
        case pt_first_round limit n 0 (pt_caches s) [] of
          (True, out) \<Rightarrow> out
        | (False, out) \<Rightarrow> pt_second_round limit n 0 (pt_caches s) out)"

definition share_of :: "str \<Rightarrow> (str \<times> nat) list \<Rightarrow> nat" where
  "share_of g shares = (case find (\<lambda>(x, _). x = g) shares of Some (_, c) \<Rightarrow> c | None \<Rightarrow> 16)"

definition pt_set_capacity :: "nat \<Rightarrow> partitioned \<Rightarrow> partitioned" where
  "pt_set_capacity n s =
     (let n = clamp_capacity (Some n);
          s = s\<lparr>pt_total_cap := n\<rparr>;
          shares = allocate (pt_parts s) n in
      on_each (\<lambda>g. lru_set_capacity (share_of g shares)) s)"

definition pt_set_stale_window :: "u64 \<Rightarrow> partitioned \<Rightarrow> partitioned" where
  "pt_set_stale_window v s = on_each (\<lambda>_. lru_set_stale_window v) s"

definition pt_attach_journal :: "journal \<Rightarrow> partitioned \<Rightarrow> partitioned" where
  "pt_attach_journal j s = s\<lparr>pt_journal := Some j\<rparr>"

definition pt_ops :: "hasher \<Rightarrow> partitioned dns_cache_ops" where
  "pt_ops H =
     \<lparr>op_get = pt_get H, op_get_stale = pt_get_stale H, op_peek = pt_peek H, op_put = pt_put H,
      op_delete = pt_delete H, op_clear = pt_clear, op_len = pt_len, op_keys = pt_keys, op_sample_keys = pt_sample_keys,
      op_set_capacity = pt_set_capacity, op_set_stale_window = pt_set_stale_window\<rparr>"

subsection \<open>Restoring\<close>

text \<open>The partition a record is restored to: its group, or else the first one (never \<open>default\<close> on purpose).\<close>

definition restore_group :: "str list \<Rightarrow> str \<Rightarrow> str option" where
  "restore_group names g =
     (if g \<in> set names then Some g else case names of f # _ \<Rightarrow> Some f | [] \<Rightarrow> None)"

definition record_group :: "parsed_key \<Rightarrow> str" where
  "record_group parsed =
     (if pk_key_len parsed = 3 then (case pk_group parsed of Some g \<Rightarrow> g | None \<Rightarrow> lit ''default'') else lit ''default'')"

text \<open>The records of a partition, in their order, and how many belong to none.\<close>

definition group_record :: "str list \<Rightarrow> json \<Rightarrow> str option" where
  "group_record names e =
     (case structural_check e of
        Inl _ \<Rightarrow> None
      | Inr parsed \<Rightarrow> restore_group names (record_group parsed))"

definition pt_restore ::
  "hasher \<Rightarrow> (json \<Rightarrow> cache_entry option) \<Rightarrow> json list \<Rightarrow> real \<Rightarrow> f64 \<Rightarrow> partitioned \<Rightarrow> partitioned" where
  "pt_restore H de es now persist_ttl s =
     (let names = map fst (pt_caches s);
          s = on_each (\<lambda>g c. case filter (\<lambda>e. group_record names e = Some g) es of
                               [] \<Rightarrow> c
                             | rs \<Rightarrow> lru_restore_refs H de rs now persist_ttl c) s in
      s\<lparr>pt_restore_skipped := length (filter (\<lambda>e. group_record names e = None) es)\<rparr>)"

definition pt_restore_records :: "hasher \<Rightarrow> (cache_key \<times> cache_entry) list \<Rightarrow> real \<Rightarrow> partitioned \<Rightarrow> partitioned" where
  "pt_restore_records H es now s =
     (let names = map fst (pt_caches s);
          group_of = (\<lambda>k. restore_group names (case key_group k of Some g \<Rightarrow> g | None \<Rightarrow> lit ''default'')) in
      on_each (\<lambda>g c. case filter (\<lambda>(k, _). group_of k = Some g) es of
                       [] \<Rightarrow> c
                     | rs \<Rightarrow> lru_restore_records H (map (\<lambda>(k, e). (k\<lparr>key_group := None\<rparr>, e)) rs) now c) s)"

definition pt_last_restore_drops :: "partitioned \<Rightarrow> u64 \<times> u64 \<times> u64" where
  "pt_last_restore_drops s =
     (case fold (\<lambda>(_, c) (a, b, d). case last_restore_drops c of (e, l, f) \<Rightarrow> (a + e, b + l, d + f)) (pt_caches s) (0, 0, 0) of
        (e, l, f) \<Rightarrow> (e, l, f + word_of_nat (pt_restore_skipped s)))"

end
