(* ===== verification/Sketch.thy ===== *)
theory Sketch
  imports Dns_Cache
begin

text \<open>
  The frequency sketch and the capacities of \<open>ebpdns-cache/src/tinylfu.rs\<close>: a Count-Min Sketch
  of four rows of 1024 saturating bytes, one row of which is halved after every 16384 increments,
  and the split of a capacity into window, probation and protected segment.
\<close>

subsection \<open>The sketch\<close>

definition SKETCH_D :: nat where "SKETCH_D = 4"
definition SKETCH_W :: nat where "SKETCH_W = 1024"
definition AGE_INTERVAL :: u64 where "AGE_INTERVAL = 65536 div word_of_nat SKETCH_D"

definition ROW_MULTS :: "u64 list" where
  "ROW_MULTS = [0x9E3779B97F4A7C15, 0xBF58476D1CE4E5B9, 0x94D049BB133111EB, 0xC2B2AE3D27D4EB4F]"

record cm_sketch =
  sk_table :: "u8 list list"
  sk_ops :: u64
  age_row :: nat

definition sketch_new :: cm_sketch where
  "sketch_new = \<lparr>sk_table = replicate SKETCH_D (replicate SKETCH_W 0), sk_ops = 0, age_row = 0\<rparr>"

text \<open>\<open>reset\<close> fills the rows of the table in place.\<close>

definition sketch_reset :: "cm_sketch \<Rightarrow> cm_sketch" where
  "sketch_reset s = s\<lparr>sk_table := map (\<lambda>_. replicate SKETCH_W 0) (sk_table s), sk_ops := 0, age_row := 0\<rparr>"

definition col_for :: "nat \<Rightarrow> u64 \<Rightarrow> nat" where
  "col_for row h1 = unat (drop_bit 32 (h1 * ROW_MULTS ! row)) mod SKETCH_W"

definition saturating_add :: "u8 \<Rightarrow> u8 \<Rightarrow> u8" where
  "saturating_add a b = (if unat a + unat b > 255 then 255 else a + b)"

definition age_one_row :: "cm_sketch \<Rightarrow> cm_sketch" where
  "age_one_row s =
     s\<lparr>sk_table := (sk_table s)[age_row s := map (drop_bit 1) (sk_table s ! age_row s)],
       age_row := (age_row s + 1) mod SKETCH_D\<rparr>"

definition bump_cell :: "u64 \<Rightarrow> u8 \<Rightarrow> nat \<Rightarrow> u8 list list \<Rightarrow> u8 list list" where
  "bump_cell h1 add i t =
     (let c = col_for i h1 in t[i := (t ! i)[c := saturating_add (t ! i ! c) add]])"

definition sketch_inc :: "u64 \<Rightarrow> u64 \<Rightarrow> cm_sketch \<Rightarrow> cm_sketch" where
  "sketch_inc h1 n s =
     (let s = s\<lparr>sk_ops := sk_ops s + n\<rparr>;
          s = (if sk_ops s \<ge> AGE_INTERVAL then age_one_row (s\<lparr>sk_ops := 0\<rparr>) else s);
          add = ucast (min n 255) in
      s\<lparr>sk_table := fold (bump_cell h1 add) [0..<SKETCH_D] (sk_table s)\<rparr>)"

definition sketch_freq :: "u64 \<Rightarrow> cm_sketch \<Rightarrow> u8" where
  "sketch_freq h1 s =
     fold (\<lambda>i mn. let v = sk_table s ! i ! col_for i h1 in if v < mn then v else mn) [0..<SKETCH_D] 255"

subsection \<open>The capacities\<close>

record caps =
  cap_win :: nat
  cap_prob :: nat
  cap_prot :: nat
  cap_main :: nat

record lfu_policy =
  win_pct :: nat
  prob_pct :: nat
  promote_min_freq :: u8
  restrict_promotion :: bool

definition BASELINE :: lfu_policy where
  "BASELINE = \<lparr>win_pct = 1, prob_pct = 40, promote_min_freq = 0, restrict_promotion = False\<rparr>"

definition compute_ratio :: "nat \<Rightarrow> nat \<Rightarrow> nat \<Rightarrow> caps" where
  "compute_ratio cap w p =
     (if cap < 48 then
        (let win = max (saturating_mul cap w div 100) 1;
             main = cap - win;
             prob = max (saturating_mul main p div 100) 1;
             prot = max (main - prob) 1 in
         \<lparr>cap_win = win, cap_prob = prob, cap_prot = prot, cap_main = main\<rparr>)
      else
        (let win = max (saturating_mul cap w div 100) 16;
             main = cap - win;
             prob = max (saturating_mul main p div 100) 16;
             prot = main - prob in
         \<lparr>cap_win = win, cap_prob = prob, cap_prot = prot, cap_main = main\<rparr>))"

text \<open>The formula of release 2.1.8, kept beside the code as its reference.\<close>

definition legacy_1_40_60 :: "nat \<Rightarrow> nat \<times> nat \<times> nat" where
  "legacy_1_40_60 cap =
     (if cap < 48 then
        (let win = max (cap div 100) 1;
             main = cap - win;
             prob = max (saturating_mul main 2 div 5) 1;
             prot = max (main - prob) 1 in (win, prob, prot))
      else
        (let win = max (cap div 100) 16;
             main = cap - win;
             prob = max (saturating_mul main 2 div 5) 16;
             prot = main - prob in (win, prob, prot)))"

text \<open>The segments of the default policy: none is empty, and they add up to the capacity.\<close>

lemma baseline_caps:
  assumes "16 \<le> cap"
  defines "c \<equiv> compute_ratio cap 1 40"
  shows "1 \<le> cap_win c \<and> 1 \<le> cap_prob c \<and> 1 \<le> cap_prot c \<and> cap_main c = cap_prob c + cap_prot c
    \<and> cap_win c + cap_main c = cap"
proof -
  have w: "saturating_mul cap 1 div 100 \<le> cap div 100" by (simp add: div_le_mono saturating_mul_def)
  have m: "saturating_mul m 40 div 100 \<le> m * 40 div 100" for m by (rule div_le_mono [OF saturating_mul_le])
  have q: "m * 40 div 100 \<le> m div 2" for m :: nat by simp
  show ?thesis
  proof (cases "cap < 48")
    case True
    have z: "max (saturating_mul cap 1 div 100) 1 = 1" using w True by simp
    define p where p: "p = max (saturating_mul (cap - 1) 40 div 100) 1"
    have "p < cap - 1"
      using m [of "cap - 1"] q [of "cap - 1"] assms(1) unfolding p by linarith
    moreover have "1 \<le> p" by (simp add: p)
    moreover from calculation have "max (cap - 1 - p) 1 = cap - 1 - p" by simp
    ultimately show ?thesis
      unfolding c_def compute_ratio_def if_P [OF True] Let_def z p [symmetric] using assms(1) by simp
  next
    case False
    define w' where w': "w' = max (saturating_mul cap 1 div 100) 16"
    define p where p: "p = max (saturating_mul (cap - w') 40 div 100) 16"
    have "w' \<le> cap div 100 + 16" using w unfolding w' by linarith
    then have a: "16 \<le> w'" "w' \<le> cap" "cap - w' \<ge> 31" using False unfolding w' by linarith+
    have "p \<le> max ((cap - w') div 2) 16" using m [of "cap - w'"] q [of "cap - w'"] unfolding p by linarith
    then have "p < cap - w'" using a by linarith
    moreover have "1 \<le> p" by (simp add: p)
    ultimately show ?thesis
      unfolding c_def compute_ratio_def if_not_P [OF False] Let_def w' [symmetric] p [symmetric]
      using a by simp
  qed
qed

text \<open>
  The parametrised split with 1 and 40 percent is the formula of release 2.1.8, for every
  capacity whose product with 40 does not saturate.
\<close>

theorem caps_legacy:
  assumes "cap * 40 \<le> usize_max"
  shows "legacy_1_40_60 cap =
    (let c = compute_ratio cap 1 40 in (cap_win c, cap_prob c, cap_prot c))"
proof -
  have w: "saturating_mul cap 1 = cap" using assms by (simp add: saturating_mul_def)
  have m: "saturating_mul (cap - x) 40 div 100 = saturating_mul (cap - x) 2 div 5" for x
  proof -
    have "(cap - x) * 40 \<le> usize_max" using assms by simp
    then have "saturating_mul (cap - x) 40 = (cap - x) * 40" "saturating_mul (cap - x) 2 = (cap - x) * 2"
      by (simp_all add: saturating_mul_def)
    moreover have "y * 40 div 100 = y * 2 div 5" for y :: nat by simp
    ultimately show ?thesis by metis
  qed
  show ?thesis
    unfolding legacy_1_40_60_def compute_ratio_def Let_def w m by (cases "cap < 48") simp_all
qed

theorem caps_legacy_witness:
  "legacy_1_40_60 1000 = (16, 393, 591) \<and> compute_ratio 1000 1 40 = \<lparr>cap_win = 16, cap_prob = 393, cap_prot = 591, cap_main = 984\<rparr>"
  using caps_legacy [of 1000] by (simp add: usize_max_def compute_ratio_def saturating_mul_def Let_def)

subsection \<open>What the sketch counts\<close>

definition sketch_ok :: "cm_sketch \<Rightarrow> bool" where
  "sketch_ok s \<longleftrightarrow> length (sk_table s) = SKETCH_D \<and> (\<forall>r \<in> set (sk_table s). length r = SKETCH_W)
     \<and> age_row s < SKETCH_D"

definition cell :: "u64 \<Rightarrow> nat \<Rightarrow> cm_sketch \<Rightarrow> nat" where
  "cell h i s = unat (sk_table s ! i ! col_for i h)"

lemma col_for_lt [simp]: "col_for i h < SKETCH_W"
  by (simp add: col_for_def SKETCH_W_def)

lemma rows: "[0..<SKETCH_D] = [0, 1, 2, 3]"
  by (simp add: SKETCH_D_def upt_rec)

lemma freq_min: "unat (sketch_freq h s) = min (min (min (cell h 0 s) (cell h 1 s)) (cell h 2 s)) (cell h 3 s)"
proof -
  have "(255 :: u8) = - 1" by simp
  then have u: "x \<le> 255" for x :: u8 by (metis word_order.extremum)
  have m: "(if v < w then v else w) = min v w" for v w :: u8 by (auto simp: min_def)
  have n: "unat (min v w) = min (unat v) (unat w)" for v w :: u8 by (simp add: min_def word_le_nat_alt)
  show ?thesis
    using u by (simp add: sketch_freq_def rows Let_def m cell_def n min.commute min.left_commute min_absorb1)
qed

lemma unat_saturating_add: "unat (saturating_add a b) = min 255 (unat a + unat b)"
  by (simp add: saturating_add_def unat_word_ariths)

lemma bump_cell_cell:
  assumes "length t = SKETCH_D" "\<forall>r \<in> set t. length r = SKETCH_W" "i < SKETCH_D" "j < SKETCH_D"
  shows "bump_cell h add i t ! j ! c =
    (if j = i \<and> c = col_for i h then saturating_add (t ! j ! c) add else t ! j ! c)"
    "length (bump_cell h add i t) = SKETCH_D" "\<forall>r \<in> set (bump_cell h add i t). length r = SKETCH_W"
proof -
  have r: "length (t ! i) = SKETCH_W" using assms by simp
  show "bump_cell h add i t ! j ! c =
    (if j = i \<and> c = col_for i h then saturating_add (t ! j ! c) add else t ! j ! c)"
    using assms(1,4) r by (cases "j = i") (auto simp: bump_cell_def Let_def nth_list_update)
  show "length (bump_cell h add i t) = SKETCH_D" by (simp add: bump_cell_def Let_def assms(1))
  show "\<forall>r \<in> set (bump_cell h add i t). length r = SKETCH_W"
    using assms(2) r by (auto simp: bump_cell_def Let_def dest: set_update_subset_insert [THEN subsetD])
qed

lemma bump_fold:
  assumes "length t = SKETCH_D" "\<forall>r \<in> set t. length r = SKETCH_W" "j < SKETCH_D" "distinct is" "set is \<subseteq> {..<SKETCH_D}"
  shows "fold (bump_cell h add) is t ! j ! c =
    (if j \<in> set is \<and> c = col_for j h then saturating_add (t ! j ! c) add else t ! j ! c)
    \<and> length (fold (bump_cell h add) is t) = SKETCH_D \<and> (\<forall>r \<in> set (fold (bump_cell h add) is t). length r = SKETCH_W)"
  using assms
proof (induction "is" arbitrary: t)
  case Nil
  then show ?case by simp
next
  case (Cons i "is")
  then have i: "i < SKETCH_D" by simp
  note B = bump_cell_cell [OF Cons.prems(1,2) i Cons.prems(3), of h add]
  have "fold (bump_cell h add) is (bump_cell h add i t) ! j ! c =
    (if j \<in> set is \<and> c = col_for j h then saturating_add (bump_cell h add i t ! j ! c) add
     else bump_cell h add i t ! j ! c)
    \<and> length (fold (bump_cell h add) is (bump_cell h add i t)) = SKETCH_D
    \<and> (\<forall>r \<in> set (fold (bump_cell h add) is (bump_cell h add i t)). length r = SKETCH_W)"
    by (rule Cons.IH) (use B(2,3) Cons.prems in auto)
  then show ?case using B(1) Cons.prems(4) by auto
qed

lemma age_ok: "sketch_ok s \<Longrightarrow> sketch_ok (age_one_row s)"
proof -
  assume s: "sketch_ok s"
  have "r \<in> set ((sk_table s)[age_row s := map (drop_bit 1) (sk_table s ! age_row s)]) \<Longrightarrow> length r = SKETCH_W" for r
    using s by (auto simp: sketch_ok_def dest!: set_update_subset_insert [THEN subsetD])
  then show ?thesis using s by (simp add: sketch_ok_def age_one_row_def SKETCH_D_def)
qed

lemma inc_ok: "sketch_ok s \<Longrightarrow> sketch_ok (sketch_inc h n s)"
proof -
  assume s: "sketch_ok s"
  define s1 where "s1 = (let s = s\<lparr>sk_ops := sk_ops s + n\<rparr> in
    if sk_ops s \<ge> AGE_INTERVAL then age_one_row (s\<lparr>sk_ops := 0\<rparr>) else s)"
  have o: "sketch_ok (s\<lparr>sk_ops := x\<rparr>)" for x using s by (simp add: sketch_ok_def)
  have s1: "sketch_ok s1" using o age_ok [OF o] by (simp add: s1_def Let_def)
  have "sketch_inc h n s = s1\<lparr>sk_table := fold (bump_cell h (ucast (min n 255))) [0..<SKETCH_D] (sk_table s1)\<rparr>"
    by (simp add: sketch_inc_def s1_def Let_def)
  then show ?thesis
    using s1 bump_fold [of "sk_table s1" 0 "[0..<SKETCH_D]" h "ucast (min n 255)"]
    by (simp add: sketch_ok_def SKETCH_D_def atLeast0LessThan)
qed

lemma sketch_new_ok: "sketch_ok sketch_new" "sketch_ok s \<Longrightarrow> sketch_ok (sketch_reset s)"
  by (auto simp: sketch_ok_def sketch_new_def sketch_reset_def SKETCH_D_def)

lemma age_interval: "AGE_INTERVAL = 16384"
  by (simp add: AGE_INTERVAL_def SKETCH_D_def)

lemma inc_cell:
  assumes "sketch_ok s" "sk_ops s + 1 < AGE_INTERVAL" "i < SKETCH_D"
  shows "cell h' i (sketch_inc h 1 s) =
      (if col_for i h' = col_for i h then min 255 (cell h' i s + 1) else cell h' i s)"
    and "sk_ops (sketch_inc h 1 s) = sk_ops s + 1"
proof -
  have e: "sketch_inc h 1 s =
    s\<lparr>sk_ops := sk_ops s + 1, sk_table := fold (bump_cell h 1) [0..<SKETCH_D] (sk_table s)\<rparr>"
    using assms(2) by (simp add: sketch_inc_def Let_def min_def flip: not_le)
  show "sk_ops (sketch_inc h 1 s) = sk_ops s + 1" by (simp add: e)
  have "fold (bump_cell h 1) [0..<SKETCH_D] (sk_table s) ! i ! col_for i h' =
    (if col_for i h' = col_for i h then saturating_add (sk_table s ! i ! col_for i h') 1 else sk_table s ! i ! col_for i h')"
    using bump_fold [of "sk_table s" i "[0..<SKETCH_D]" h 1 "col_for i h'"] assms(1,3)
    by (simp add: sketch_ok_def atLeast0LessThan)
  then show "cell h' i (sketch_inc h 1 s) =
      (if col_for i h' = col_for i h then min 255 (cell h' i s + 1) else cell h' i s)"
    by (simp add: e cell_def unat_saturating_add)
qed

lemma sketch_run:
  assumes "length hs < 16384"
  defines "s \<equiv> fold (\<lambda>h. sketch_inc h 1) hs sketch_new"
  shows "sketch_ok s \<and> sk_ops s = word_of_nat (length hs)
    \<and> (\<forall>i < SKETCH_D. \<forall>h. cell h i s = min 255 (length (filter (\<lambda>x. col_for i x = col_for i h) hs)))"
  using assms(1) unfolding s_def
proof (induction hs rule: rev_induct)
  case Nil
  have "cell h i sketch_new = 0" if "i < SKETCH_D" for h i
    using that by (simp add: cell_def sketch_new_def)
  then show ?case by (simp add: sketch_new_ok) (simp add: sketch_new_def)
next
  case (snoc x hs)
  let ?s = "fold (\<lambda>h. sketch_inc h 1) hs sketch_new"
  have IH: "sketch_ok ?s" "sk_ops ?s = word_of_nat (length hs)"
    "\<And>i h. i < SKETCH_D \<Longrightarrow> cell h i ?s = min 255 (length (filter (\<lambda>x. col_for i x = col_for i h) hs))"
    using snoc by simp_all
  have z: "0 < SKETCH_D" by (simp add: SKETCH_D_def)
  have l: "length hs + 1 < 16384" using snoc.prems by simp
  then have "unat (word_of_nat (length hs + 1) :: u64) = length hs + 1" by (subst unat_of_nat) simp
  moreover have "sk_ops ?s + 1 = word_of_nat (length hs + 1)" by (simp add: IH(2) add.commute)
  moreover have "unat (16384 :: u64) = 16384" by simp
  ultimately have o: "sk_ops ?s + 1 < AGE_INTERVAL" using l unfolding age_interval word_less_nat_alt by presburger
  show ?case
    using inc_ok [OF IH(1)] inc_cell(1) [OF IH(1) o] inc_cell(2) [OF IH(1) o z] IH(2,3) by (auto simp: add.commute)
qed

text \<open>
  Between two ageings the estimate is exact up to collisions: it is the smallest, over the
  four rows, of the number of requests that fall into the cell of the key, capped at 255.  So it
  never falls below the (capped) number of requests for the key itself.
\<close>

theorem sketch_counts:
  "let hs = take 16383 requests; s = fold (\<lambda>h. sketch_inc h 1) hs sketch_new;
       n = (\<lambda>i. min 255 (length (filter (\<lambda>x. col_for i x = col_for i h) hs))) in
     unat (sketch_freq h s) = min (min (min (n 0) (n 1)) (n 2)) (n 3)
     \<and> min 255 (count_list hs h) \<le> unat (sketch_freq h s)"
proof -
  define hs where "hs = take 16383 requests"
  define s where "s = fold (\<lambda>h. sketch_inc h 1) hs sketch_new"
  define n where "n = (\<lambda>i. min 255 (length (filter (\<lambda>x. col_for i x = col_for i h) hs)))"
  have "count_list xs h \<le> length (filter (\<lambda>x. col_for i x = col_for i h) xs)" for xs and i
    by (induction xs) auto
  then have c: "min 255 (count_list hs h) \<le> n i" for i by (auto simp: n_def intro: min.coboundedI2)
  have l: "length hs < 16384" by (simp add: hs_def)
  have "cell h i s = n i" if "i < 4" for i
    using sketch_run [OF l] that by (simp add: s_def n_def SKETCH_D_def)
  then have "unat (sketch_freq h s) = min (min (min (n 0) (n 1)) (n 2)) (n 3)" by (simp add: freq_min)
  then have "unat (sketch_freq h s) = min (min (min (n 0) (n 1)) (n 2)) (n 3)
    \<and> min 255 (count_list hs h) \<le> unat (sketch_freq h s)"
    using c by (metis min.bounded_iff)
  then show ?thesis unfolding Let_def n_def s_def hs_def .
qed

end
