(* ===== verification/Tinylfu.thy ===== *)
theory Tinylfu
  imports Lru Sketch "HOL-Library.Multiset"
begin

text \<open>
  \<open>ebpdns-cache/src/tinylfu.rs\<close>: the W-TinyLFU policy, the default of the server.  Three
  ordered maps under one lock: new keys enter the window; a key pushed out of the window is
  admitted to probation while there is room, or if the sketch has seen it more often than the
  front of probation; a hit in probation promotes to protected.
\<close>

subsection \<open>State\<close>

record tiny_inner =
  window :: entry_map
  probation :: entry_map
  protected :: entry_map
  caps_of :: caps
  policy_of :: lfu_policy
  sketch :: cm_sketch
  puts :: u64
  misses :: u64

record tinylfu =
  t_total_cap :: nat
  t_inner :: tiny_inner
  t_stale_window :: u64
  t_dropped_expired :: u64
  t_dropped_legacy :: u64
  t_restore_failed :: u64
  t_window_unpersisted :: u64
  t_journal :: "journal option"

definition lfu_with_policy :: "nat \<Rightarrow> lfu_policy \<Rightarrow> tinylfu" where
  "lfu_with_policy c p =
     (let cap = clamp_capacity (Some c) in
      \<lparr>t_total_cap = cap,
       t_inner = \<lparr>window = om_new, probation = om_new, protected = om_new,
                  caps_of = compute_ratio cap (win_pct p) (prob_pct p), policy_of = p,
                  sketch = sketch_new, puts = 0, misses = 0\<rparr>,
       t_stale_window = 0, t_dropped_expired = 0, t_dropped_legacy = 0, t_restore_failed = 0,
       t_window_unpersisted = 0, t_journal = None\<rparr>)"

definition lfu_new :: "nat \<Rightarrow> tinylfu" where
  "lfu_new c = lfu_with_policy c BASELINE"

definition stale_f64 :: "tinylfu \<Rightarrow> real" where
  "stale_f64 s = real (unat (t_stale_window s))"

subsection \<open>Eviction\<close>

text \<open>The body of the first loop: a pair pushed out of the window is admitted, or its key evicted.\<close>

definition admit :: "hasher \<Rightarrow> cache_key \<Rightarrow> cache_entry \<Rightarrow> tiny_inner \<Rightarrow> cache_key list \<times> tiny_inner" where
  "admit H wk wv t =
     (if om_len (probation t) < cap_prob (caps_of t) then ([], t\<lparr>probation := om_insert wk wv (probation t)\<rparr>)
      else if om_len (probation t) + om_len (protected t) < cap_main (caps_of t) then
        ([], t\<lparr>protected := om_insert wk wv (protected t)\<rparr>)
      else (case om_front (probation t) of
              None \<Rightarrow> ([wk], t)
            | Some (mk, _) \<Rightarrow>
                if sketch_freq (H wk) (sketch t) > sketch_freq (H mk) (sketch t) then
                  (let (r, p) = om_pop_front (probation t) in
                   (case r of Some (victim, _) \<Rightarrow> [victim] | None \<Rightarrow> [],
                    t\<lparr>probation := om_insert wk wv p\<rparr>))
                else ([wk], t)))"

lemma admit_window [simp]:
  "window (snd (admit H k v t)) = window t" "caps_of (snd (admit H k v t)) = caps_of t"
  "policy_of (snd (admit H k v t)) = policy_of t" "sketch (snd (admit H k v t)) = sketch t"
  by (auto simp: admit_def Let_def split: option.splits prod.splits)

function window_loop :: "hasher \<Rightarrow> tiny_inner \<Rightarrow> cache_key list \<times> tiny_inner" where
  "window_loop H t =
     (if om_len (window t) > cap_win (caps_of t) then
        (case om_pop_front (window t) of
           (None, w) \<Rightarrow> ([], t\<lparr>window := w\<rparr>)
         | (Some (wk, wv), w) \<Rightarrow>
             (let (ks, t') = admit H wk wv (t\<lparr>window := w\<rparr>);
                  (ks', t'') = window_loop H t' in (ks @ ks', t'')))
      else ([], t))"
  by pat_completeness auto
termination
  by (relation "measure (\<lambda>(H, t). om_len (window t))")
    (auto dest!: pop_front_len [OF sym] dest: arg_cong [where f = "\<lambda>x. window (snd x)"])

declare window_loop.simps [simp del]

text \<open>The second loop moves the front of protected back to the front of probation.\<close>

function demote_loop :: "tiny_inner \<Rightarrow> tiny_inner" where
  "demote_loop t =
     (if om_len (protected t) > cap_prot (caps_of t) then
        (case om_pop_front (protected t) of
           (None, q) \<Rightarrow> t\<lparr>protected := q\<rparr>
         | (Some (pk, pv), q) \<Rightarrow>
             demote_loop (t\<lparr>protected := q, probation := om_push_front pk pv (probation t)\<rparr>))
      else t)"
  by pat_completeness auto
termination by (relation "measure (\<lambda>t. om_len (protected t))") (auto dest!: pop_front_len [OF sym])

declare demote_loop.simps [simp del]

definition lfu_evict_locked :: "hasher \<Rightarrow> tiny_inner \<Rightarrow> cache_key list \<times> tiny_inner" where
  "lfu_evict_locked H t =
     (let (out, t) = window_loop H t;
          t = demote_loop t;
          (ks, p) = om_shrink (cap_prob (caps_of t)) (probation t) in
      (out @ ks, t\<lparr>probation := p\<rparr>))"

definition purge_one :: "real \<Rightarrow> real \<Rightarrow> entry_map \<Rightarrow> entry_map" where
  "purge_one now sw m = snd (om_pop_while (\<lambda>(_, e). purgeable now sw e) (om_len m) m)"

definition purge_expired_locked :: "real \<Rightarrow> real \<Rightarrow> tiny_inner \<Rightarrow> tiny_inner" where
  "purge_expired_locked now sw t =
     t\<lparr>window := purge_one now sw (window t), probation := purge_one now sw (probation t),
       protected := purge_one now sw (protected t)\<rparr>"

definition sweep_front :: "real \<Rightarrow> entry_map \<Rightarrow> entry_map" where
  "sweep_front now m = snd (om_pop_while (\<lambda>(_, e). ce_expires_at e \<le> now) 4 m)"

definition promotion_allowed :: "hasher \<Rightarrow> tiny_inner \<Rightarrow> u8 \<Rightarrow> bool" where
  "promotion_allowed H t f_new =
     (let p = policy_of t in
      if promote_min_freq p > 0 \<and> f_new < promote_min_freq p then False
      else if restrict_promotion p \<and> om_len (protected t) \<ge> cap_prot (caps_of t) then
        (case om_front (protected t) of
           Some (pk, _) \<Rightarrow> \<not> sketch_freq (H pk) (sketch t) \<ge> f_new
         | None \<Rightarrow> True)
      else True)"

subsection \<open>Operations\<close>

text \<open>The segment that holds a key, written back.\<close>

definition store_map :: "nat \<Rightarrow> tiny_inner \<Rightarrow> entry_map" where
  "store_map i t = (if i = 0 then window t else if i = 1 then probation t else protected t)"

definition set_store :: "nat \<Rightarrow> entry_map \<Rightarrow> tiny_inner \<Rightarrow> tiny_inner" where
  "set_store i m t =
     (if i = 0 then t\<lparr>window := m\<rparr> else if i = 1 then t\<lparr>probation := m\<rparr> else t\<lparr>protected := m\<rparr>)"

text \<open>A hit outside of probation, and an expired hit, in the segment \<open>i\<close>.\<close>

definition hit_store :: "hasher \<Rightarrow> cache_key \<Rightarrow> nat \<Rightarrow> tiny_inner \<Rightarrow> tiny_inner" where
  "hit_store H k i t = (set_store i (om_move_to_end k (store_map i t)) t)\<lparr>sketch := sketch_inc (H k) 1 (sketch t)\<rparr>"

definition expired_store :: "real \<Rightarrow> cache_key \<Rightarrow> nat \<Rightarrow> tiny_inner \<Rightarrow> tiny_inner" where
  "expired_store sw k i t = (if sw \<le> 0 then set_store i (snd (om_remove k (store_map i t))) t else t)"

text \<open>Promotion of a probation hit; a full protected segment gives its front back to probation.\<close>

definition promote :: "hasher \<Rightarrow> cache_key \<Rightarrow> tiny_inner \<Rightarrow> cache_entry option \<times> tiny_inner" where
  "promote H k t =
     (case om_remove_entry k (probation t) of
        (None, p) \<Rightarrow> (None, t\<lparr>probation := p\<rparr>)
      | (Some (ok, e), p) \<Rightarrow>
          (let t = t\<lparr>probation := p\<rparr>;
               t = (if om_len (protected t) \<ge> cap_prot (caps_of t) \<and> \<not> om_is_empty (protected t) then
                      (case om_pop_front (protected t) of
                         (Some (pk, pv), q) \<Rightarrow> t\<lparr>protected := q, probation := om_push_front pk pv (probation t)\<rparr>
                       | (None, q) \<Rightarrow> t\<lparr>protected := q\<rparr>)
                    else t) in
           (Some e, t\<lparr>protected := om_insert ok e (protected t), sketch := sketch_inc (H k) 1 (sketch t)\<rparr>)))"

definition tiny_get :: "hasher \<Rightarrow> real \<Rightarrow> cache_key \<Rightarrow> real \<Rightarrow> tiny_inner \<Rightarrow> cache_entry option \<times> tiny_inner" where
  "tiny_get H sw k now t =
     (case om_get (window t) k of
        Some e \<Rightarrow> if ce_expires_at e \<le> now then (None, expired_store sw k 0 t) else (Some e, hit_store H k 0 t)
      | None \<Rightarrow>
     (case om_get (probation t) k of
        Some e \<Rightarrow>
          if ce_expires_at e \<le> now then (None, expired_store sw k 1 t)
          else if \<not> promotion_allowed H t (sketch_freq (H k) (sketch t)) then
            (let t' = hit_store H k 1 t in (om_get (probation t') k, t'))
          else promote H k t
      | None \<Rightarrow>
     (case om_get (protected t) k of
        Some e \<Rightarrow> if ce_expires_at e \<le> now then (None, expired_store sw k 2 t) else (Some e, hit_store H k 2 t)
      | None \<Rightarrow>
          (let t = t\<lparr>misses := misses t + 1\<rparr> in
           (None, if sw \<le> 0 \<and> misses t AND 0x1F = 0 then
                    t\<lparr>window := sweep_front now (window t), probation := sweep_front now (probation t),
                      protected := sweep_front now (protected t)\<rparr>
                  else t)))))"

definition lfu_get :: "hasher \<Rightarrow> cache_key \<Rightarrow> real \<Rightarrow> tinylfu \<Rightarrow> cache_entry option \<times> tinylfu" where
  "lfu_get H k now s =
     (let (r, t) = tiny_get H (stale_f64 s) k now (t_inner s) in (r, s\<lparr>t_inner := t\<rparr>))"

definition tiny_peek :: "cache_key \<Rightarrow> real \<Rightarrow> tiny_inner \<Rightarrow> cache_entry option \<times> tiny_inner" where
  "tiny_peek k now t =
     (let store = (if om_contains_key (window t) k then Some 0
                   else if om_contains_key (probation t) k then Some 1
                   else if om_contains_key (protected t) k then Some 2 else None) in
      case store of
        None \<Rightarrow> (None, t)
      | Some i \<Rightarrow>
          (case om_get (store_map i t) k of
             None \<Rightarrow> (None, t)
           | Some e \<Rightarrow>
               if ce_expires_at e \<le> now then (None, set_store i (snd (om_remove k (store_map i t))) t)
               else (Some e, t)))"

definition lfu_peek :: "cache_key \<Rightarrow> real \<Rightarrow> tinylfu \<Rightarrow> cache_entry option \<times> tinylfu" where
  "lfu_peek k now s = (let (r, t) = tiny_peek k now (t_inner s) in (r, s\<lparr>t_inner := t\<rparr>))"

fun stale_loop :: "cache_key \<Rightarrow> real \<Rightarrow> real \<Rightarrow> nat list \<Rightarrow> tiny_inner \<Rightarrow> cache_entry option \<times> tiny_inner" where
  "stale_loop k now w [] t = (None, t)"
| "stale_loop k now w (i # is) t =
     (case om_get (store_map i t) k of
        None \<Rightarrow> stale_loop k now w is t
      | Some e \<Rightarrow>
          if ce_expires_at e > now then (None, t)
          else if now - ce_expires_at e > w then (None, set_store i (snd (om_remove k (store_map i t))) t)
          else (Some e, set_store i (om_move_to_end k (store_map i t)) t))"

definition lfu_get_stale :: "cache_key \<Rightarrow> real \<Rightarrow> real \<Rightarrow> tinylfu \<Rightarrow> cache_entry option \<times> tinylfu" where
  "lfu_get_stale k now w s = (let (r, t) = stale_loop k now w [0, 1, 2] (t_inner s) in (r, s\<lparr>t_inner := t\<rparr>))"

text \<open>The insertion itself: into the segment that holds the key, or into the window.\<close>

definition tiny_store :: "cache_key \<Rightarrow> cache_entry \<Rightarrow> tiny_inner \<Rightarrow> tiny_inner" where
  "tiny_store k e t =
     (if om_contains_key (protected t) k then t\<lparr>protected := om_insert k e (protected t)\<rparr>
      else if om_contains_key (probation t) k then t\<lparr>probation := om_insert k e (probation t)\<rparr>
      else t\<lparr>window := om_insert k e (window t)\<rparr>)"

definition tiny_put :: "hasher \<Rightarrow> real \<Rightarrow> cache_key \<Rightarrow> cache_entry \<Rightarrow> real \<Rightarrow> tiny_inner \<Rightarrow> cache_key list \<times> tiny_inner" where
  "tiny_put H sw k e now t =
     (let t = tiny_store k e t;
          t = t\<lparr>sketch := sketch_inc (H k) 1 (sketch t)\<rparr>;
          (evicted, t) = lfu_evict_locked H t;
          t = t\<lparr>puts := puts t + 1\<rparr> in
      (evicted, if puts t AND 0x1F = 0 then purge_expired_locked now sw t else t))"

definition lfu_put :: "hasher \<Rightarrow> cache_key \<Rightarrow> cache_entry \<Rightarrow> real \<Rightarrow> tinylfu \<Rightarrow> tinylfu" where
  "lfu_put H k value now s =
     (let (value, j) = (case t_journal s of
                          Some jj \<Rightarrow> (let (n, jj) = next_seq jj in (value\<lparr>ce_seq := n\<rparr>, Some jj))
                        | None \<Rightarrow> (value, None));
          (evicted, t) = tiny_put H (stale_f64 s) k value now (t_inner s);
          j = (case j of
                 Some jj \<Rightarrow> Some (journal_put k value (ce_seq value) (journal_evictions Capacity evicted jj))
               | None \<Rightarrow> None) in
      s\<lparr>t_inner := t, t_journal := j\<rparr>)"

definition lfu_delete :: "cache_key \<Rightarrow> tinylfu \<Rightarrow> tinylfu" where
  "lfu_delete k s =
     (let t = t_inner s in
      s\<lparr>t_inner := t\<lparr>window := snd (om_remove k (window t)), probation := snd (om_remove k (probation t)),
                     protected := snd (om_remove k (protected t))\<rparr>\<rparr>)"

definition tiny_clear :: "tiny_inner \<Rightarrow> tiny_inner" where
  "tiny_clear t =
     t\<lparr>window := om_clear (window t), probation := om_clear (probation t),
       protected := om_clear (protected t), sketch := sketch_reset (sketch t)\<rparr>"

definition lfu_clear :: "tinylfu \<Rightarrow> tinylfu" where
  "lfu_clear s = s\<lparr>t_inner := tiny_clear (t_inner s)\<rparr>"

definition lfu_len :: "tinylfu \<Rightarrow> nat" where
  "lfu_len s = (let t = t_inner s in om_len (window t) + om_len (probation t) + om_len (protected t))"

definition lfu_keys :: "tinylfu \<Rightarrow> cache_key list" where
  "lfu_keys s =
     (let t = t_inner s in concat (map (\<lambda>m. map fst (om_iter m)) [window t, probation t, protected t]))"

fun sample_stores :: "nat \<Rightarrow> entry_map list \<Rightarrow> cache_key list \<Rightarrow> cache_key list" where
  "sample_stores limit [] out = out"
| "sample_stores limit (m # ms) out =
     (let (full, out) = sample_shard limit (map fst (om_iter m)) out in
      if full then out else sample_stores limit ms out)"

definition lfu_sample_keys :: "nat \<Rightarrow> tinylfu \<Rightarrow> cache_key list" where
  "lfu_sample_keys limit s =
     (if limit = 0 then []
      else (let t = t_inner s in sample_stores limit [window t, probation t, protected t] []))"

definition lfu_set_capacity :: "hasher \<Rightarrow> nat \<Rightarrow> tinylfu \<Rightarrow> tinylfu" where
  "lfu_set_capacity H c s =
     (let n = clamp_capacity (Some c); t = t_inner s; p = policy_of t;
          (evicted, t) = lfu_evict_locked H (t\<lparr>caps_of := compute_ratio n (win_pct p) (prob_pct p)\<rparr>) in
      s\<lparr>t_total_cap := n, t_inner := t, t_journal := map_option (journal_evictions Resize evicted) (t_journal s)\<rparr>)"

definition lfu_set_stale_window :: "u64 \<Rightarrow> tinylfu \<Rightarrow> tinylfu" where
  "lfu_set_stale_window v s = s\<lparr>t_stale_window := v\<rparr>"

definition lfu_ops :: "hasher \<Rightarrow> tinylfu dns_cache_ops" where
  "lfu_ops H =
     \<lparr>op_get = lfu_get H, op_get_stale = lfu_get_stale, op_peek = lfu_peek, op_put = lfu_put H,
      op_delete = lfu_delete, op_clear = lfu_clear, op_len = lfu_len, op_keys = lfu_keys,
      op_sample_keys = lfu_sample_keys, op_set_capacity = lfu_set_capacity H,
      op_set_stale_window = lfu_set_stale_window\<rparr>"

subsection \<open>Restoring\<close>

text \<open>
  \<open>restore_records\<close>: the live entries by remaining time, the last \<open>main\<close> of them into protected.
  \<open>sort_by\<close> is stable, and so is \<open>sort_key\<close>.
\<close>

definition fill_protected :: "hasher \<Rightarrow> (cache_key \<times> cache_entry \<times> real) list \<Rightarrow> tiny_inner \<Rightarrow> tiny_inner" where
  "fill_protected H valid t =
     (let valid = sort_key (\<lambda>(k, e, r). r) valid;
          start = length valid - cap_main (caps_of t);
          t = t\<lparr>protected := fold (\<lambda>(k, e, r) m. om_insert k e m) (drop start valid) (protected t)\<rparr> in
      snd (lfu_evict_locked H t))"

definition lfu_restore_records :: "hasher \<Rightarrow> (cache_key \<times> cache_entry) list \<Rightarrow> real \<Rightarrow> tinylfu \<Rightarrow> tinylfu" where
  "lfu_restore_records H entries now s =
     (let cap = restore_cap (t_total_cap s);
          cap_dropped = (if length entries > cap then length entries - cap else 0);
          entries = (if length entries > cap then take cap (sort_key (\<lambda>(_, e). ce_seq e) entries) else entries);
          t = tiny_clear (t_inner s);
          valid = List.map_filter (\<lambda>(k, e). let r = ce_expires_at e - now in
                    if r \<le> 0 then None else Some (k, e, r)) entries;
          start = length valid - cap_main (caps_of t) in
      s\<lparr>t_inner := fill_protected H valid t,
        t_window_unpersisted := word_of_nat start + word_of_nat cap_dropped\<rparr>)"

text \<open>\<open>restore\<close>: the records of the old JSON file, with the drop classes of \<open>lru.rs\<close>.\<close>

record lfu_acc =
  a_valid :: "(cache_key \<times> cache_entry \<times> real) list"
  a_expired :: nat
  a_legacy :: nat
  a_parse_failed :: nat
  a_structural :: "nat list"

definition lfu_restore_one ::
  "(json \<Rightarrow> cache_entry option) \<Rightarrow> real \<Rightarrow> real \<Rightarrow> json \<Rightarrow> lfu_acc \<Rightarrow> lfu_acc" where
  "lfu_restore_one de now pt e a =
     (case structural_check e of
        Inl iss \<Rightarrow> a\<lparr>a_structural := (a_structural a)[issue_idx iss := a_structural a ! issue_idx iss + 1]\<rparr>
      | Inr parsed \<Rightarrow>
          (let key = \<lparr>key_group = pk_group parsed, key_domain = pk_domain parsed, key_qtype = pk_qtype parsed\<rparr> in
           if is_legacy_format e then a\<lparr>a_legacy := a_legacy a + 1\<rparr>
           else if \<not> has_absolute_expiry e then a\<lparr>a_parse_failed := a_parse_failed a + 1\<rparr>
           else (case de e of
                   None \<Rightarrow> a\<lparr>a_parse_failed := a_parse_failed a + 1\<rparr>
                 | Some entry \<Rightarrow>
                     if pt > 0 then
                       a\<lparr>a_valid := a_valid a @ [(key, entry\<lparr>ce_expires_at := now + pt, ce_ttl := pt\<rparr>, pt)]\<rparr>
                     else (case resolve_restored_expiry (Fin (ce_expires_at entry)) now pt of
                             Some t \<Rightarrow>
                               a\<lparr>a_valid := a_valid a @
                                   [(key, entry\<lparr>ce_expires_at := t, ce_ttl := max (t - now) 0\<rparr>, t - now)]\<rparr>
                           | None \<Rightarrow> a\<lparr>a_expired := a_expired a + 1\<rparr>))))"

definition lfu_restore ::
  "hasher \<Rightarrow> (json \<Rightarrow> cache_entry option) \<Rightarrow> json list \<Rightarrow> real \<Rightarrow> f64 \<Rightarrow> tinylfu \<Rightarrow> tinylfu" where
  "lfu_restore H de entries now persist_ttl s =
     (let pt = max (safe_float persist_ttl 0) 0;
          cap = restore_cap (t_total_cap s);
          cap_dropped = (if length entries > cap then length entries - cap else 0);
          raw = (if length entries > cap then take cap entries else entries);
          t = tiny_clear (t_inner s);
          a = fold (lfu_restore_one de now pt) raw
                \<lparr>a_valid = [], a_expired = 0, a_legacy = 0, a_parse_failed = 0, a_structural = [0, 0, 0, 0]\<rparr>;
          start = length (a_valid a) - cap_main (caps_of t) in
      s\<lparr>t_inner := fill_protected H (a_valid a) t,
        t_dropped_expired := word_of_nat (a_expired a), t_dropped_legacy := word_of_nat (a_legacy a),
        t_restore_failed := word_of_nat (a_parse_failed a + sum_list (a_structural a)),
        t_window_unpersisted := word_of_nat start + word_of_nat cap_dropped\<rparr>)"

end
