(* ===== verification/Swap.thy ===== *)
theory Swap
  imports Partitioned Tinylfu
begin

text \<open>
  \<open>ebpdns-cache/src/swap.rs\<close>: the cache the program holds, a cache of one of the three policies that can be exchanged while
  it serves; and the exchange with its migration, from \<open>reload\<close> in \<open>ebpdns-resolver/src/lib.rs\<close>.

  A \<open>dyn DnsCache\<close> is one of the three policies.  The journal is shared by the shell and the policy: the shell has it, and
  lends it to a policy it was attached to for the length of a call.  The mutation barrier makes every call one step.
\<close>

datatype cache_impl = ImplLru lru | ImplTiny tinylfu | ImplParts partitioned

subsection \<open>The policies behind the trait\<close>

fun impl_get :: "hasher \<Rightarrow> cache_key \<Rightarrow> real \<Rightarrow> cache_impl \<Rightarrow> cache_entry option \<times> cache_impl" where
  "impl_get H k now (ImplLru c) = map_prod id ImplLru (lru_get H k now c)"
| "impl_get H k now (ImplTiny c) = map_prod id ImplTiny (lfu_get H k now c)"
| "impl_get H k now (ImplParts c) = map_prod id ImplParts (pt_get H k now c)"

fun impl_get_stale :: "hasher \<Rightarrow> cache_key \<Rightarrow> real \<Rightarrow> real \<Rightarrow> cache_impl \<Rightarrow> cache_entry option \<times> cache_impl" where
  "impl_get_stale H k now w (ImplLru c) = map_prod id ImplLru (lru_get_stale H k now w c)"
| "impl_get_stale H k now w (ImplTiny c) = map_prod id ImplTiny (lfu_get_stale k now w c)"
| "impl_get_stale H k now w (ImplParts c) = map_prod id ImplParts (pt_get_stale H k now w c)"

fun impl_peek :: "hasher \<Rightarrow> cache_key \<Rightarrow> real \<Rightarrow> cache_impl \<Rightarrow> cache_entry option \<times> cache_impl" where
  "impl_peek H k now (ImplLru c) = map_prod id ImplLru (lru_peek H k now c)"
| "impl_peek H k now (ImplTiny c) = map_prod id ImplTiny (lfu_peek k now c)"
| "impl_peek H k now (ImplParts c) = map_prod id ImplParts (pt_peek H k now c)"

fun impl_put :: "hasher \<Rightarrow> cache_key \<Rightarrow> cache_entry \<Rightarrow> real \<Rightarrow> cache_impl \<Rightarrow> cache_impl" where
  "impl_put H k e now (ImplLru c) = ImplLru (lru_put H k e now c)"
| "impl_put H k e now (ImplTiny c) = ImplTiny (lfu_put H k e now c)"
| "impl_put H k e now (ImplParts c) = ImplParts (pt_put H k e now c)"

fun impl_delete :: "hasher \<Rightarrow> cache_key \<Rightarrow> cache_impl \<Rightarrow> cache_impl" where
  "impl_delete H k (ImplLru c) = ImplLru (lru_delete H k c)"
| "impl_delete H k (ImplTiny c) = ImplTiny (lfu_delete k c)"
| "impl_delete H k (ImplParts c) = ImplParts (pt_delete H k c)"

fun impl_clear :: "cache_impl \<Rightarrow> cache_impl" where
  "impl_clear (ImplLru c) = ImplLru (lru_clear c)"
| "impl_clear (ImplTiny c) = ImplTiny (lfu_clear c)"
| "impl_clear (ImplParts c) = ImplParts (pt_clear c)"

fun impl_len :: "cache_impl \<Rightarrow> nat" where
  "impl_len (ImplLru c) = lru_len c"
| "impl_len (ImplTiny c) = lfu_len c"
| "impl_len (ImplParts c) = pt_len c"

fun impl_keys :: "cache_impl \<Rightarrow> cache_key list" where
  "impl_keys (ImplLru c) = lru_keys c"
| "impl_keys (ImplTiny c) = lfu_keys c"
| "impl_keys (ImplParts c) = pt_keys c"

fun impl_sample_keys :: "nat \<Rightarrow> cache_impl \<Rightarrow> cache_key list" where
  "impl_sample_keys n (ImplLru c) = lru_sample_keys n c"
| "impl_sample_keys n (ImplTiny c) = lfu_sample_keys n c"
| "impl_sample_keys n (ImplParts c) = pt_sample_keys n c"

fun impl_set_capacity :: "hasher \<Rightarrow> nat \<Rightarrow> cache_impl \<Rightarrow> cache_impl" where
  "impl_set_capacity H n (ImplLru c) = ImplLru (lru_set_capacity n c)"
| "impl_set_capacity H n (ImplTiny c) = ImplTiny (lfu_set_capacity H n c)"
| "impl_set_capacity H n (ImplParts c) = ImplParts (pt_set_capacity n c)"

fun impl_set_stale :: "u64 \<Rightarrow> cache_impl \<Rightarrow> cache_impl" where
  "impl_set_stale w (ImplLru c) = ImplLru (lru_set_stale_window w c)"
| "impl_set_stale w (ImplTiny c) = ImplTiny (lfu_set_stale_window w c)"
| "impl_set_stale w (ImplParts c) = ImplParts (pt_set_stale_window w c)"

fun impl_restore ::
  "hasher \<Rightarrow> (json \<Rightarrow> cache_entry option) \<Rightarrow> json list \<Rightarrow> real \<Rightarrow> f64 \<Rightarrow> cache_impl \<Rightarrow> cache_impl" where
  "impl_restore H de es now ttl (ImplLru c) = ImplLru (lru_restore_refs H de es now ttl c)"
| "impl_restore H de es now ttl (ImplTiny c) = ImplTiny (lfu_restore H de es now ttl c)"
| "impl_restore H de es now ttl (ImplParts c) = ImplParts (pt_restore H de es now ttl c)"

fun impl_restore_records :: "hasher \<Rightarrow> (cache_key \<times> cache_entry) list \<Rightarrow> real \<Rightarrow> cache_impl \<Rightarrow> cache_impl" where
  "impl_restore_records H es now (ImplLru c) = ImplLru (lru_restore_records H es now c)"
| "impl_restore_records H es now (ImplTiny c) = ImplTiny (lfu_restore_records H es now c)"
| "impl_restore_records H es now (ImplParts c) = ImplParts (pt_restore_records H es now c)"

fun impl_restore_drops :: "cache_impl \<Rightarrow> u64 \<times> u64 \<times> u64" where
  "impl_restore_drops (ImplLru c) = last_restore_drops c"
| "impl_restore_drops (ImplTiny c) = (t_dropped_expired c, t_dropped_legacy c, t_restore_failed c)"
| "impl_restore_drops (ImplParts c) = pt_last_restore_drops c"

fun impl_journal_key :: "cache_impl \<Rightarrow> cache_key \<Rightarrow> cache_key" where
  "impl_journal_key (ImplLru c) k = lru_journal_key c k"
| "impl_journal_key (ImplTiny c) k = k"
| "impl_journal_key (ImplParts c) k = pt_journal_key c k"

fun impl_journal :: "cache_impl \<Rightarrow> journal option" where
  "impl_journal (ImplLru c) = l_journal c"
| "impl_journal (ImplTiny c) = t_journal c"
| "impl_journal (ImplParts c) = pt_journal c"

fun impl_attach :: "journal \<Rightarrow> cache_impl \<Rightarrow> cache_impl" where
  "impl_attach j (ImplLru c) = ImplLru (c\<lparr>l_journal := Some j\<rparr>)"
| "impl_attach j (ImplTiny c) = ImplTiny (c\<lparr>t_journal := Some j\<rparr>)"
| "impl_attach j (ImplParts c) = ImplParts (pt_attach_journal j c)"

definition impl_ops :: "hasher \<Rightarrow> cache_impl dns_cache_ops" where
  "impl_ops H =
     \<lparr>op_get = impl_get H, op_get_stale = impl_get_stale H, op_peek = impl_peek H, op_put = impl_put H,
      op_delete = impl_delete H, op_clear = impl_clear, op_len = impl_len, op_keys = impl_keys,
      op_sample_keys = impl_sample_keys, op_set_capacity = impl_set_capacity H, op_set_stale_window = impl_set_stale\<rparr>"

subsection \<open>The shell\<close>

record swappable =
  sw_impl :: cache_impl
  sw_file_level :: "(u64 \<times> u64 \<times> u64) option"
  sw_journal :: journal
  sw_generation :: u64

definition sw_new :: "cache_impl \<Rightarrow> swappable" where
  "sw_new c = \<lparr>sw_impl = c, sw_file_level = None, sw_journal = journal_disabled, sw_generation = 1\<rparr>"

text \<open>The policy with the journal lent to it, and what comes back from a call.\<close>

definition sw_current :: "swappable \<Rightarrow> cache_impl" where
  "sw_current s = (if impl_journal (sw_impl s) = None then sw_impl s else impl_attach (sw_journal s) (sw_impl s))"

definition sw_return :: "cache_impl \<Rightarrow> swappable \<Rightarrow> swappable" where
  "sw_return c s = s\<lparr>sw_impl := c, sw_journal := (case impl_journal c of Some j \<Rightarrow> j | None \<Rightarrow> sw_journal s)\<rparr>"

definition sw_call :: "(cache_impl \<Rightarrow> 'a \<times> cache_impl) \<Rightarrow> swappable \<Rightarrow> 'a \<times> swappable" where
  "sw_call f s = (case f (sw_current s) of (r, c) \<Rightarrow> (r, sw_return c s))"

definition sw_swap :: "cache_impl \<Rightarrow> swappable \<Rightarrow> cache_impl \<times> swappable" where
  "sw_swap fresh s =
     (sw_current s,
      s\<lparr>sw_impl := impl_attach (sw_journal s) fresh, sw_generation := sw_generation s + 1, sw_file_level := None\<rparr>)"

definition sw_record_file_level_failure :: "u64 \<Rightarrow> swappable \<Rightarrow> swappable" where
  "sw_record_file_level_failure failed s = s\<lparr>sw_file_level := Some (0, 0, max failed 1)\<rparr>"

definition sw_clear_file_level :: "swappable \<Rightarrow> swappable" where
  "sw_clear_file_level s = s\<lparr>sw_file_level := None\<rparr>"

definition sw_attach_journal :: "journal \<Rightarrow> swappable \<Rightarrow> swappable" where
  "sw_attach_journal j s = s\<lparr>sw_journal := j, sw_impl := impl_attach j (sw_impl s)\<rparr>"

definition sw_enable_journal :: "swappable \<Rightarrow> swappable" where
  "sw_enable_journal s = sw_attach_journal journal_new s"

definition sw_clear_with_reason :: "clear_reason \<Rightarrow> swappable \<Rightarrow> swappable" where
  "sw_clear_with_reason r s =
     (let s = sw_return (impl_clear (sw_current s)) s;
          (n, j) = next_seq (sw_journal s) in
      s\<lparr>sw_journal := journal_clear r n j\<rparr>)"

definition sw_get :: "hasher \<Rightarrow> cache_key \<Rightarrow> real \<Rightarrow> swappable \<Rightarrow> cache_entry option \<times> swappable" where
  "sw_get H k now s = sw_call (impl_get H k now) s"

definition sw_get_stale :: "hasher \<Rightarrow> cache_key \<Rightarrow> real \<Rightarrow> real \<Rightarrow> swappable \<Rightarrow> cache_entry option \<times> swappable" where
  "sw_get_stale H k now w s = sw_call (impl_get_stale H k now w) s"

definition sw_peek :: "hasher \<Rightarrow> cache_key \<Rightarrow> real \<Rightarrow> swappable \<Rightarrow> cache_entry option \<times> swappable" where
  "sw_peek H k now s = sw_call (impl_peek H k now) s"

definition sw_put :: "hasher \<Rightarrow> cache_key \<Rightarrow> cache_entry \<Rightarrow> real \<Rightarrow> swappable \<Rightarrow> swappable" where
  "sw_put H k e now s = sw_return (impl_put H k e now (sw_current s)) s"

definition sw_delete :: "hasher \<Rightarrow> cache_key \<Rightarrow> swappable \<Rightarrow> swappable" where
  "sw_delete H k s =
     (let cur = sw_current s;
          s = sw_return (impl_delete H k cur) s;
          j = sw_journal s in
      if j_enabled j then
        (case next_seq j of (n, j) \<Rightarrow> s\<lparr>sw_journal := journal_evict (impl_journal_key cur k) Explicit n j\<rparr>)
      else s)"

definition sw_clear :: "swappable \<Rightarrow> swappable" where
  "sw_clear s = sw_clear_with_reason AdminClear s"

definition sw_len :: "swappable \<Rightarrow> nat" where
  "sw_len s = impl_len (sw_current s)"

definition sw_keys :: "swappable \<Rightarrow> cache_key list" where
  "sw_keys s = impl_keys (sw_current s)"

definition sw_sample_keys :: "nat \<Rightarrow> swappable \<Rightarrow> cache_key list" where
  "sw_sample_keys n s = impl_sample_keys n (sw_current s)"

definition sw_set_capacity :: "hasher \<Rightarrow> nat \<Rightarrow> swappable \<Rightarrow> swappable" where
  "sw_set_capacity H n s = sw_return (impl_set_capacity H n (sw_current s)) s"

definition sw_set_stale_window :: "u64 \<Rightarrow> swappable \<Rightarrow> swappable" where
  "sw_set_stale_window w s = sw_return (impl_set_stale w (sw_current s)) s"

text \<open>Restoring, with the journal suspended.\<close>

definition sw_restoring :: "(cache_impl \<Rightarrow> cache_impl) \<Rightarrow> swappable \<Rightarrow> swappable" where
  "sw_restoring f s =
     (let s = (sw_clear_file_level s)\<lparr>sw_generation := sw_generation s + 1\<rparr>;
          s = s\<lparr>sw_journal := journal_suspend (sw_journal s)\<rparr>;
          s = sw_return (f (sw_current s)) s in
      s\<lparr>sw_journal := journal_resume (sw_journal s)\<rparr>)"

definition sw_restore ::
  "hasher \<Rightarrow> (json \<Rightarrow> cache_entry option) \<Rightarrow> json list \<Rightarrow> real \<Rightarrow> f64 \<Rightarrow> swappable \<Rightarrow> swappable" where
  "sw_restore H de es now ttl s = sw_restoring (impl_restore H de es now ttl) s"

definition sw_restore_records :: "hasher \<Rightarrow> (cache_key \<times> cache_entry) list \<Rightarrow> real \<Rightarrow> swappable \<Rightarrow> swappable" where
  "sw_restore_records H es now s = sw_restoring (impl_restore_records H es now) s"

definition sw_last_restore_drops :: "swappable \<Rightarrow> u64 \<times> u64 \<times> u64" where
  "sw_last_restore_drops s = (case sw_file_level s of Some v \<Rightarrow> v | None \<Rightarrow> impl_restore_drops (sw_current s))"

definition sw_request_snapshot :: "str \<Rightarrow> swappable \<Rightarrow> swappable" where
  "sw_request_snapshot r s = s\<lparr>sw_journal := request_snapshot r (sw_journal s)\<rparr>"

definition sw_ops :: "hasher \<Rightarrow> swappable dns_cache_ops" where
  "sw_ops H =
     \<lparr>op_get = sw_get H, op_get_stale = sw_get_stale H, op_peek = sw_peek H, op_put = sw_put H,
      op_delete = sw_delete H, op_clear = sw_clear, op_len = sw_len, op_keys = sw_keys,
      op_sample_keys = sw_sample_keys, op_set_capacity = sw_set_capacity H, op_set_stale_window = sw_set_stale_window\<rparr>"

subsection \<open>Exchange of the policy\<close>

definition fresh_cache :: "str \<Rightarrow> nat \<Rightarrow> (str \<times> f64) list option \<Rightarrow> cache_impl" where
  "fresh_cache policy n parts =
     (if policy = lit ''partitioned'' then ImplParts (partitioned_new n parts)
      else if policy = lit ''tinylfu'' then ImplTiny (lfu_new n)
      else ImplLru (lru_new n))"

text \<open>The live entries, in the order of the keys of the old cache.\<close>

fun migrate :: "hasher \<Rightarrow> real \<Rightarrow> cache_key list \<Rightarrow> swappable \<times> cache_impl \<Rightarrow> swappable \<times> cache_impl" where
  "migrate H now [] (s, fresh) = (s, fresh)"
| "migrate H now (k # ks) (s, fresh) =
     (case sw_get H k now s of
        (Some e, s) \<Rightarrow> migrate H now ks (s, impl_put H k e now fresh)
      | (None, s) \<Rightarrow> migrate H now ks (s, fresh))"

text \<open>\<open>w\<close> is \<open>stale_ttl\<close> when stale answers are served, else zero.\<close>

definition switch_policy ::
  "hasher \<Rightarrow> str \<Rightarrow> nat \<Rightarrow> (str \<times> f64) list option \<Rightarrow> u64 \<Rightarrow> real \<Rightarrow> swappable \<Rightarrow> swappable" where
  "switch_policy H policy n parts w now s =
     (case migrate H now (sw_keys s) (s, fresh_cache policy n parts) of
        (s, fresh) \<Rightarrow> sw_set_stale_window w (snd (sw_swap (impl_set_capacity H n fresh) s)))"

end
