(* ===== verification/Partitioned_Props.thy ===== *)
theory Partitioned_Props
  imports Partitioned "HOL-Library.Multiset"
begin

text \<open>
  What the partitioned cache promises: its shares add up to the capacity, it never holds more (with room for sixteen
  entries per partition), and it answers only with what was last stored in the partition of the key.
\<close>

subsection \<open>The shares\<close>

abbreviation total :: "(str \<times> nat) list \<Rightarrow> nat" where "total l \<equiv> sum_list (map snd l)"

lemma bump_fst [simp]: "map fst (bump g l) = map fst l"
  by (induction g l rule: bump.induct) auto

lemma unbump_fst [simp]: "map fst (unbump g l) = map fst l"
  by (induction g l rule: unbump.induct) auto

lemma bump_total: "g \<in> fst ` set l \<Longrightarrow> total (bump g l) = total l + 1"
  by (induction g l rule: bump.induct) auto

lemma unbump_total: "1 < slot_count g l \<Longrightarrow> total (unbump g l) + 1 = total l"
  by (induction g l rule: unbump.induct) auto

lemma bump_least: "\<forall>x\<in>set l. b \<le> snd x \<Longrightarrow> \<forall>x\<in>set (bump g l). b \<le> snd x"
  by (induction g l rule: bump.induct) auto

lemma unbump_least: "1 < slot_count g l \<Longrightarrow> \<forall>x\<in>set l. 1 \<le> snd x \<Longrightarrow> \<forall>x\<in>set (unbump g l). 1 \<le> snd x"
  by (induction g l rule: unbump.induct) (auto split: if_splits)

lemma slot_of_member: "distinct (map fst l) \<Longrightarrow> (g, c) \<in> set l \<Longrightarrow> slot_count g l = c"
  by (induction l) (force split: if_splits)+

lemma spread_fst [simp]: "map fst (spread order left i l) = map fst l"
  by (induction order left i l rule: spread.induct) auto

lemma spread_total:
  "order \<noteq> [] \<Longrightarrow> set order \<subseteq> fst ` set l \<Longrightarrow> total (spread order left i l) = total l + left"
proof (induction order left i l rule: spread.induct)
  case (2 order left i l)
  let ?g = "order ! (i mod length order)"
  have "?g \<in> fst ` set l" using 2(2,3) nth_mem [of "i mod length order" order] by auto
  moreover have "fst ` set (bump ?g l) = fst ` set l" by (metis bump_fst list.set_map)
  ultimately show ?case using 2 by (simp add: bump_total)
qed simp

lemma spread_least: "\<forall>x\<in>set l. b \<le> snd x \<Longrightarrow> \<forall>x\<in>set (spread order left i l). b \<le> snd x"
  by (induction order left i l rule: spread.induct) (simp_all add: bump_least)

lemma take_one_None: "take_one order t i l = None \<Longrightarrow> j < t \<Longrightarrow> slot_count (order ! ((i + j) mod length order)) l \<le> 1"
proof (induction order t i l arbitrary: j rule: take_one.induct)
  case (2 order t i l)
  show ?case
  proof (cases j)
    case 0
    then show ?thesis using 2(2) by (auto simp: Let_def split: if_splits)
  next
    case (Suc j')
    then show ?thesis using 2(1) [OF refl _ _, of j'] 2(2,3) by (auto simp: Let_def split: if_splits)
  qed
qed simp

lemma take_one_Some:
  "take_one order t i l = Some (i', l') \<Longrightarrow> \<exists>g. 1 < slot_count g l \<and> l' = unbump g l"
  by (induction order t i l rule: take_one.induct) (auto simp: Let_def split: if_splits)

lemma take_one_finds:
  assumes "set order = fst ` set l" "distinct (map fst l)" "length l < total l" "l \<noteq> []"
  shows "take_one order (length order) i l \<noteq> None"
proof
  assume none: "take_one order (length order) i l = None"
  have n: "0 < length order" using assms(1,4) by auto
  have "slot_count g l \<le> 1" if g: "g \<in> set order" for g
  proof -
    obtain p where p: "p < length order" "order ! p = g" using g unfolding in_set_conv_nth by blast
    define j where "j = (p + length order - i mod length order) mod length order"
    have "(i + j) mod length order = (i mod length order + (p + length order - i mod length order)) mod length order"
      unfolding j_def by (metis mod_add_left_eq mod_add_right_eq)
    moreover have "i mod length order + (p + length order - i mod length order) = p + length order"
      using mod_less_divisor [OF n, of i] by linarith
    ultimately have "(i + j) mod length order = p" using p(1) by simp
    then show ?thesis using take_one_None [OF none, of j] p(2) n by (simp add: j_def)
  qed
  then have "snd x \<le> 1" if "x \<in> set l" for x
    using that assms(1) slot_of_member [OF assms(2), of "fst x" "snd x"] by force
  then have "total l \<le> sum_list (map (\<lambda>_. 1) l)" by (intro sum_list_mono) auto
  then show False using assms(3) by (simp add: sum_list_triv)
qed

lemma take_back_total:
  assumes "set order = fst ` set l" "distinct (map fst l)" "length l \<le> total l - d" "d \<le> total l" "l \<noteq> []"
  shows "map fst (take_back order d i l) = map fst l \<and> total (take_back order d i l) = total l - d"
  using assms
proof (induction order d i l rule: take_back.induct)
  case (2 order d i l)
  have "take_one order (length order) i l \<noteq> None" using 2(2-6) by (intro take_one_finds) auto
  then obtain i' l' where t: "take_one order (length order) i l = Some (i', l')" by auto
  then obtain g where g: "1 < slot_count g l" "l' = unbump g l" using take_one_Some by blast
  have f: "map fst l' = map fst l" and s: "total l' + 1 = total l" using g unbump_total by simp_all
  have "fst ` set l' = fst ` set l" by (metis f list.set_map)
  moreover have "length l' = length l" by (metis f length_map)
  moreover have "l' \<noteq> []" using f 2(6) by auto
  ultimately show ?case using 2(1) [OF t refl] 2(2-5) f s t by simp
qed simp

lemma take_back_least: "\<forall>x\<in>set l. 1 \<le> snd x \<Longrightarrow> \<forall>x\<in>set (take_back order d i l). 1 \<le> snd x"
proof (induction order d i l rule: take_back.induct)
  case (2 order d i l)
  show ?case
  proof (cases "take_one order (length order) i l")
    case None
    then show ?thesis using 2(2) by simp
  next
    case (Some y)
    obtain i' l' where y: "y = (i', l')" by fastforce
    then obtain g where "1 < slot_count g l" "l' = unbump g l" using take_one_Some Some by blast
    then show ?thesis using 2(1) [OF Some y [symmetric]] unbump_least 2(2) Some y by simp
  qed
qed simp

lemma by_fraction_set: "set (by_fraction raw) = fst ` set raw"
  by (simp add: by_fraction_def)

definition weights_ok :: "(str \<times> real) list \<Rightarrow> bool" where
  "weights_ok parts \<longleftrightarrow> distinct (map fst parts) \<and> (\<forall>x\<in>set parts. 0 \<le> snd x) \<and> sum_list (map snd parts) \<le> 1"

lemma floors_total:
  assumes "weights_ok parts"
  shows "total (map (\<lambda>(g, r). (g, nat \<lfloor>r\<rfloor>)) (map (\<lambda>(g, w). (g, real rem * w)) parts)) \<le> rem"
proof -
  have "real (\<Sum>x\<leftarrow>parts. nat \<lfloor>real rem * snd x\<rfloor>) = (\<Sum>x\<leftarrow>parts. real (nat \<lfloor>real rem * snd x\<rfloor>))"
    by (induction parts) auto
  also have "\<dots> \<le> (\<Sum>x\<leftarrow>parts. real rem * snd x)"
    using assms by (intro sum_list_mono) (auto simp: weights_ok_def)
  also have "\<dots> = real rem * sum_list (map snd parts)" by (simp add: sum_list_const_mult)
  also have "\<dots> \<le> real rem" using assms by (simp add: weights_ok_def mult_left_le)
  finally show ?thesis by (simp add: comp_def case_prod_beta)
qed

lemma allocate_big:
  assumes "weights_ok parts" "parts \<noteq> []" "16 * length parts \<le> cap" "cap \<le> usize_max"
  shows "map fst (allocate parts cap) = map fst parts \<and> total (allocate parts cap) = cap
    \<and> (\<forall>x\<in>set (allocate parts cap). 16 \<le> snd x)"
proof -
  let ?n = "length parts" and ?rem = "cap - 16 * length parts"
  let ?raw = "map (\<lambda>(g, w). (g, real ?rem * w)) parts"
  let ?fl = "map (\<lambda>(g, r). (g, nat \<lfloor>r\<rfloor>)) ?raw"
  let ?sp = "spread (by_fraction ?raw) (?rem - total ?fl) 0 ?fl"
  have m: "saturating_mul 16 ?n = 16 * ?n" using assms(3,4) by (simp add: saturating_mul_def)
  have names: "set (by_fraction ?raw) = fst ` set ?fl" by (simp add: by_fraction_set image_image case_prod_beta)
  then have ne: "by_fraction ?raw \<noteq> []" using assms(2) by (metis image_is_empty list.map_disc_iff set_empty)
  have sp: "total ?sp = total ?fl + (?rem - total ?fl)" by (rule spread_total [OF ne]) (simp add: names)
  have a: "allocate parts cap = map (\<lambda>(g, c). (g, 16 + c)) ?sp" using assms(2,3) m by (simp add: allocate_def Let_def del: map_map)
  have add: "total (map (\<lambda>(g, c). (g, 16 + c)) l) = 16 * length l + total l" for l :: "(str \<times> nat) list"
    by (induction l) auto
  have f: "map fst ?sp = map fst parts" by (simp add: comp_def case_prod_beta)
  then have "length ?sp = ?n" by (metis length_map)
  then have "total (allocate parts cap) = cap" using a sp add [of ?sp] floors_total [OF assms(1), of ?rem] assms(3) by simp
  moreover have "map fst (allocate parts cap) = map fst parts" using a f by (simp add: comp_def case_prod_beta)
  ultimately show ?thesis using a by auto
qed

lemma allocate_small:
  assumes "weights_ok parts" "length parts \<le> cap" "cap < 16 * length parts" "16 * length parts \<le> usize_max"
  shows "map fst (allocate parts cap) = map fst parts \<and> total (allocate parts cap) = cap
    \<and> (\<forall>x\<in>set (allocate parts cap). 1 \<le> snd x)"
proof -
  let ?raw = "map (\<lambda>(g, w). (g, real cap * w)) parts"
  let ?fl = "map (\<lambda>(g, r). (g, max (nat \<lfloor>r\<rfloor>) 1)) ?raw"
  let ?sp = "spread (by_fraction ?raw) (cap - total ?fl) 0 ?fl"
  have ne: "parts \<noteq> []" using assms(3) by auto
  have a: "allocate parts cap = take_back (by_fraction ?raw) (total ?fl - cap) (cap - total ?fl) ?sp"
    using ne assms(3,4) by (simp add: allocate_def Let_def saturating_mul_def del: map_map)
  have names: "set (by_fraction ?raw) = fst ` set ?fl" by (simp add: by_fraction_set image_image case_prod_beta)
  then have "by_fraction ?raw \<noteq> []" using ne by (metis image_is_empty list.map_disc_iff set_empty)
  then have sp: "total ?sp = total ?fl + (cap - total ?fl)" by (rule spread_total) (simp add: names)
  have f: "map fst ?sp = map fst ?fl" by simp
  have fl: "map fst ?fl = map fst parts" by (simp add: comp_def case_prod_beta)
  have s: "set (by_fraction ?raw) = fst ` set ?sp" using names f by (metis list.set_map)
  have "map fst ?sp = map fst parts" using f fl by (rule trans)
  then have d: "distinct (map fst ?sp)" using assms(1) unfolding weights_ok_def by metis
  have l: "length ?sp = length parts" using f fl by (metis length_map)
  have "?sp \<noteq> []" using l ne by auto
  then have t: "map fst (allocate parts cap) = map fst ?sp \<and> total (allocate parts cap) = total ?sp - (total ?fl - cap)"
    unfolding a using s d l sp assms(2) by (intro take_back_total) auto
  have "\<forall>x\<in>set ?sp. 1 \<le> snd x" by (rule spread_least) auto
  then have "\<forall>x\<in>set (allocate parts cap). 1 \<le> snd x" unfolding a by (rule take_back_least)
  moreover have "total (allocate parts cap) = cap" using t sp by simp
  moreover have "map fst (allocate parts cap) = map fst parts" using t f fl by metis
  ultimately show ?thesis by blast
qed

lemma sum_list_quotient: "(\<Sum>x\<leftarrow>l. f x / c) = (\<Sum>x\<leftarrow>l. f x) / (c :: real)"
  by (induction l) (simp_all add: add_divide_distrib)

lemma normal_weights_ok: "distinct (map fst ws) \<Longrightarrow> weights_ok (normal_weights ws)"
proof -
  assume d: "distinct (map fst ws)"
  let ?cl = "map (\<lambda>(g, w). (g, max (safe_float w 0) 0)) ws"
  let ?t = "sum_list (map snd ?cl)"
  let ?l = "map (\<lambda>(g, w). (g, w / (if ?t > 0 then ?t else 1))) ?cl"
  have nn: "\<forall>x\<in>set ?cl. 0 \<le> snd x" by auto
  then have t: "0 \<le> ?t" by (intro sum_list_nonneg) auto
  have n: "normal_weights ws = sort_key fst ?l" by (simp add: normal_weights_def Let_def)
  have "map fst ?l = map fst ws" by (simp add: comp_def case_prod_beta)
  moreover have m: "mset (map f (sort_key fst ?l)) = mset (map f ?l)" for f :: "str \<times> real \<Rightarrow> 'z" by (simp del: map_map)
  ultimately have "distinct (map fst (sort_key fst ?l))" using d by (metis mset_eq_imp_distinct_iff)
  moreover have "sum_list (map snd (sort_key fst ?l)) = sum_list (map snd ?l)"
    using m [of snd] by (metis sum_mset_sum_list)
  moreover have "sum_list (map snd ?l) = ?t / (if ?t > 0 then ?t else 1)"
    by (simp only: sum_list_quotient map_map comp_def case_prod_beta snd_conv)
  moreover have "?t / (if ?t > 0 then ?t else 1) \<le> 1" using t by simp
  moreover have "0 \<le> snd x" if "x \<in> set (sort_key fst ?l)" for x
  proof -
    have "0 \<le> (if ?t > 0 then ?t else 1)" by simp
    then show ?thesis using that by (auto intro!: divide_nonneg_nonneg)
  qed
  ultimately show ?thesis unfolding weights_ok_def n by metis
qed

lemma normal_weights_names: "set (map fst (normal_weights ws)) = set (map fst ws)"
  by (simp add: normal_weights_def Let_def image_image case_prod_beta)

lemma normal_weights_length: "length (normal_weights ws) = length ws"
  by (simp add: normal_weights_def Let_def)


subsection \<open>Content\<close>

text \<open>What a key leads to, and its name in the reference: with the group of its partition, as in the journal.\<close>

definition pt_content :: "hasher \<Rightarrow> partitioned \<Rightarrow> store" where
  "pt_content H s k =
     (case resolve_group s k of
        None \<Rightarrow> None
      | Some g \<Rightarrow> (case map_of (pt_caches s) g of Some c \<Rightarrow> lru_content H c (inner_key k) | None \<Rightarrow> None))"

definition norm_key :: "str list \<Rightarrow> cache_key \<Rightarrow> cache_key" where
  "norm_key names k = (case group_in names k of Some g \<Rightarrow> k\<lparr>key_group := Some g\<rparr> | None \<Rightarrow> k)"

fun norm_call :: "str list \<Rightarrow> cache_call \<Rightarrow> cache_call" where
  "norm_call names (CGet k now) = CGet (norm_key names k) now"
| "norm_call names (CGetStale k now w) = CGetStale (norm_key names k) now w"
| "norm_call names (CPeek k now) = CPeek (norm_key names k) now"
| "norm_call names (CPut k e now) = CPut (norm_key names k) e now"
| "norm_call names (CDelete k) = CDelete (norm_key names k)"
| "norm_call names c = c"

lemma journal_key_norm: "pt_journal_key s k = norm_key (map fst (pt_caches s)) k"
  by (simp add: pt_journal_key_def norm_key_def resolve_group_def)

definition part_ok :: "hasher \<Rightarrow> (str \<times> real) list \<Rightarrow> nat \<Rightarrow> str \<Rightarrow> lru \<Rightarrow> bool" where
  "part_ok H parts cap g c \<longleftrightarrow> lru_inv H c \<and> l_total_cap c = max (share_of g (allocate parts cap)) 16"

definition pt_inv :: "hasher \<Rightarrow> (str \<times> real) list \<Rightarrow> partitioned \<Rightarrow> bool" where
  "pt_inv H parts s \<longleftrightarrow> pt_parts s = parts \<and> map fst (pt_caches s) = map fst parts
     \<and> (\<forall>g c. map_of (pt_caches s) g = Some c \<longrightarrow> part_ok H parts (pt_total_cap s) g c)"

lemma inv_journal [simp]: "lru_inv H (c\<lparr>l_journal := j\<rparr>) = lru_inv H c" "lru_content H (c\<lparr>l_journal := j\<rparr>) = lru_content H c"
  by (auto simp: lru_inv_def lru_content_def the_shard_def fun_eq_iff)

lemma total_cap_keeps [simp]:
  "l_total_cap (snd (lru_get H k now c)) = l_total_cap c" "l_total_cap (snd (lru_get_stale H k now w c)) = l_total_cap c"
  "l_total_cap (snd (lru_peek H k now c)) = l_total_cap c" "l_total_cap (lru_put H k e now c) = l_total_cap c"
  "l_total_cap (lru_delete H k c) = l_total_cap c" "l_total_cap (lru_clear c) = l_total_cap c"
  "l_total_cap (lru_set_stale_window sw c) = l_total_cap c" "l_total_cap (lru_set_capacity n c) = clamp_capacity (Some n)"
  by (simp_all add: lru_get_def lru_get_stale_def lru_peek_def lru_put_def lru_delete_def lru_clear_def set_map_def
      lru_set_stale_window_def lru_set_capacity_def Let_def case_prod_beta split: option.split)

lemma map_of_put_part:
  "map_of (map (\<lambda>(x, d). (x, if x = g then c else d)) l) h = (if h = g then map_option (\<lambda>_. c) (map_of l h) else map_of l h)"
  by (induction l) auto

lemma put_part_fields [simp]:
  "map fst (pt_caches (put_part g c s)) = map fst (pt_caches s)" "pt_parts (put_part g c s) = pt_parts s"
  "pt_total_cap (put_part g c s) = pt_total_cap s"
  "resolve_group (put_part g c s) = resolve_group s"
  by (simp_all add: put_part_def resolve_group_def comp_def case_prod_beta fun_eq_iff)

lemma content_put_part:
  "pt_content H (put_part g c s) k =
     (if resolve_group s k = Some g then (if map_of (pt_caches s) g = None then None else lru_content H c (inner_key k))
      else pt_content H s k)"
  unfolding pt_content_def put_part_fields
  by (simp add: put_part_def map_of_put_part split: option.split)

lemma put_part_inv:
  assumes "pt_inv H parts s" "part_ok H parts (pt_total_cap s) g c"
  shows "pt_inv H parts (put_part g c s)"
  using assms unfolding pt_inv_def put_part_fields by (simp add: put_part_def map_of_put_part)

lemma inner_key_eq: "inner_key k = inner_key k' \<longleftrightarrow> key_domain k = key_domain k' \<and> key_qtype k = key_qtype k'"
  by (cases k; cases k') (auto simp: inner_key_def cache_key_new_def)

lemma inner_key_drop: "k\<lparr>key_group := None\<rparr> = inner_key k"
  by (cases k) (auto simp: inner_key_def cache_key_new_def)

lemma norm_key_eq:
  assumes "group_in names k = Some g"
  shows "norm_key names k' = norm_key names k \<and> group_in names k' \<noteq> None \<longleftrightarrow> group_in names k' = Some g \<and> inner_key k' = inner_key k"
  using assms by (cases k; cases k') (auto simp: norm_key_def inner_key_eq split: option.splits)

text \<open>The reference \<open>m\<close> has what the partitions hold.\<close>

definition covers :: "hasher \<Rightarrow> partitioned \<Rightarrow> store \<Rightarrow> bool" where
  "covers H s m \<longleftrightarrow>
     (\<forall>k e. pt_content H s k = Some e \<longrightarrow> (\<exists>e'. m (norm_key (map fst (pt_caches s)) k) = Some e' \<and> cache_entry_eq e e'))"

lemma covers_part:
  assumes "covers H s m" "resolve_group s k = Some g" "map_of (pt_caches s) g = Some c0"
    and "sub_store (lru_content H c) ((lru_content H c0)(inner_key k := x))"
    and "rel_option cache_entry_eq x y"
  shows "covers H (put_part g c s) (m(norm_key (map fst (pt_caches s)) k := y))"
  unfolding covers_def put_part_fields
proof (intro allI impI)
  fix k' e
  let ?n = "map fst (pt_caches s)"
  assume h: "pt_content H (put_part g c s) k' = Some e"
  have gk: "group_in ?n k = Some g" using assms(2) by (simp add: resolve_group_def)
  have some: "resolve_group s k' \<noteq> None" using h by (auto simp: pt_content_def split: option.splits)
  show "\<exists>e'. (m(norm_key ?n k := y)) (norm_key ?n k') = Some e' \<and> cache_entry_eq e e'"
  proof (cases "norm_key ?n k' = norm_key ?n k")
    case True
    then have k': "resolve_group s k' = Some g" "inner_key k' = inner_key k"
      using norm_key_eq [OF gk, of k'] some by (simp_all add: resolve_group_def)
    then have "lru_content H c (inner_key k) = Some e" using h assms(3) by (simp add: content_put_part)
    then obtain e' where "x = Some e'" "cache_entry_eq e e'" using assms(4) by (fastforce simp: sub_store_def)
    then show ?thesis using assms(5) True by (auto simp: option_rel_Some1 intro: cache_entry_eq_trans)
  next
    case False
    have "\<exists>e0. pt_content H s k' = Some e0 \<and> cache_entry_eq e e0"
    proof (cases "resolve_group s k' = Some g")
      case True
      then have "inner_key k' \<noteq> inner_key k" using False norm_key_eq [OF gk, of k'] by (simp add: resolve_group_def)
      moreover have "lru_content H c (inner_key k') = Some e" using h True assms(3) by (simp add: content_put_part)
      ultimately obtain e0 where "lru_content H c0 (inner_key k') = Some e0" "cache_entry_eq e e0"
        using assms(4) by (fastforce simp: sub_store_def)
      then show ?thesis using True assms(3) by (simp add: pt_content_def)
    next
      case no: False
      then show ?thesis using h by (simp add: content_put_part)
    qed
    then show ?thesis using assms(1) False unfolding covers_def by (metis cache_entry_eq_trans fun_upd_other)
  qed
qed

text \<open>An operation that leaves the store alone or makes it smaller.\<close>

lemma covers_part_keep:
  assumes "covers H s m" "map_of (pt_caches s) g = Some c0" "sub_store (lru_content H c) (lru_content H c0)"
  shows "covers H (put_part g c s) m"
  unfolding covers_def put_part_fields
proof (intro allI impI)
  fix k' e
  assume h: "pt_content H (put_part g c s) k' = Some e"
  have "\<exists>e0. pt_content H s k' = Some e0 \<and> cache_entry_eq e e0"
  proof (cases "resolve_group s k' = Some g")
    case True
    then have "lru_content H c (inner_key k') = Some e" using h assms(2) by (simp add: content_put_part)
    then show ?thesis using True assms(2,3) by (simp add: pt_content_def sub_store_def)
  next
    case False
    then show ?thesis using h by (simp add: content_put_part)
  qed
  then show "\<exists>e'. m (norm_key (map fst (pt_caches s)) k') = Some e' \<and> cache_entry_eq e e'"
    using assms(1) unfolding covers_def by (meson cache_entry_eq_trans)
qed


subsection \<open>Every operation\<close>

text \<open>An operation on all partitions does to each what it does to one, with the journal as it then is.\<close>

lemma fold_each:
  "distinct gs \<Longrightarrow> map fst (pt_caches (fold (each_step f) gs s)) = map fst (pt_caches s)
    \<and> pt_parts (fold (each_step f) gs s) = pt_parts s \<and> pt_total_cap (fold (each_step f) gs s) = pt_total_cap s
    \<and> (\<forall>g c. map_of (pt_caches s) g = Some c \<longrightarrow>
          (if g \<in> set gs then \<exists>j. map_of (pt_caches (fold (each_step f) gs s)) g = Some (f g (c\<lparr>l_journal := j\<rparr>))
           else map_of (pt_caches (fold (each_step f) gs s)) g = Some c))"
proof (induction gs arbitrary: s)
  case (Cons g gs)
  have one: "map fst (pt_caches (each_step f g s)) = map fst (pt_caches s)" "pt_parts (each_step f g s) = pt_parts s"
    "pt_total_cap (each_step f g s) = pt_total_cap s"
    by (simp_all add: each_step_def split: option.split)
  have at: "map_of (pt_caches (each_step f g s)) h =
      (if h = g then map_option (\<lambda>c. f g (c\<lparr>l_journal := pt_journal s\<rparr>)) (map_of (pt_caches s) h) else map_of (pt_caches s) h)" for h
    by (auto simp: each_step_def the_part_def put_part_def map_of_put_part split: option.splits)
  have d: "distinct gs" using Cons.prems by simp
  note IH = Cons.IH [OF d, of "each_step f g s"]
  note IHm = IH [THEN conjunct2, THEN conjunct2, THEN conjunct2, rule_format]
  have "if h \<in> set (g # gs) then \<exists>j. map_of (pt_caches (fold (each_step f) gs (each_step f g s))) h = Some (f h (c\<lparr>l_journal := j\<rparr>))
      else map_of (pt_caches (fold (each_step f) gs (each_step f g s))) h = Some c" if "map_of (pt_caches s) h = Some c" for h c
  proof (cases "h = g")
    case True
    then show ?thesis using IHm [of h "f g (c\<lparr>l_journal := pt_journal s\<rparr>)"] at [of h] that Cons.prems by auto
  next
    case False
    then show ?thesis using IHm [of h c] at [of h] that by simp
  qed
  then show ?case using IH one by simp
qed simp

lemma on_each_total [simp]: "pt_total_cap (on_each f s) = pt_total_cap s"
proof -
  have "pt_total_cap (fold (each_step f) gs s) = pt_total_cap s" for gs
    by (induction gs arbitrary: s) (simp_all add: each_step_def split: option.split)
  then show ?thesis by (simp add: on_each_def)
qed

lemma on_each_at:
  assumes "distinct (map fst (pt_caches s))" "map_of (pt_caches (on_each f s)) g = Some c'"
  shows "\<exists>c j. map_of (pt_caches s) g = Some c \<and> c' = f g (c\<lparr>l_journal := j\<rparr>)"
proof -
  let ?names = "map fst (pt_caches s)"
  note F = fold_each [of ?names f s, folded on_each_def, OF assms(1)]
  have "map fst (pt_caches (on_each f s)) = ?names" using F by simp
  then have g: "g \<in> set ?names" using assms(2) by (metis domI dom_map_of_conv_image_fst list.set_map)
  then obtain c where c: "map_of (pt_caches s) g = Some c" by (metis domD dom_map_of_conv_image_fst list.set_map)
  then obtain j where "map_of (pt_caches (on_each f s)) g = Some (f g (c\<lparr>l_journal := j\<rparr>))"
    using F [THEN conjunct2, THEN conjunct2, THEN conjunct2, rule_format, OF c] g by auto
  then show ?thesis using assms(2) c by auto
qed

lemma on_each_spec:
  assumes "map fst (pt_caches s) = map fst parts" "distinct (map fst parts)" "pt_parts s = parts"
    and "\<And>g c j. map_of (pt_caches s) g = Some c \<Longrightarrow> part_ok H parts (pt_total_cap s) g (f g (c\<lparr>l_journal := j\<rparr>))
      \<and> sub_store (lru_content H (f g (c\<lparr>l_journal := j\<rparr>))) (lru_content H c)"
  shows "pt_inv H parts (on_each f s) \<and> (covers H s m \<longrightarrow> covers H (on_each f s) m)"
proof -
  let ?s' = "on_each f s" and ?names = "map fst (pt_caches s)"
  note F = fold_each [of ?names f s, folded on_each_def]
  have d: "distinct ?names" using assms(1,2) by simp
  have names: "map fst (pt_caches ?s') = ?names" "pt_parts ?s' = pt_parts s" "pt_total_cap ?s' = pt_total_cap s"
    using F [OF d] by simp_all
  note at = on_each_at [OF d, where f = f]
  have "part_ok H parts (pt_total_cap s) g c'" if "map_of (pt_caches ?s') g = Some c'" for g c'
    using at [OF that] assms(4) by blast
  then have "pt_inv H parts ?s'" using names assms(1,3) by (simp add: pt_inv_def)
  moreover have "covers H ?s' m" if "covers H s m"
    unfolding covers_def names
  proof (intro allI impI)
    fix k e
    assume h: "pt_content H ?s' k = Some e"
    have rg: "resolve_group ?s' k = resolve_group s k" by (simp add: resolve_group_def names)
    obtain g c' where g: "resolve_group s k = Some g" "map_of (pt_caches ?s') g = Some c'" "lru_content H c' (inner_key k) = Some e"
      using h by (auto simp: pt_content_def rg split: option.splits)
    obtain c j where c: "map_of (pt_caches s) g = Some c" "c' = f g (c\<lparr>l_journal := j\<rparr>)" using at [OF g(2)] by blast
    then obtain e0 where "lru_content H c (inner_key k) = Some e0" "cache_entry_eq e e0"
      using assms(4) [OF c(1), of j] g(3) by (auto simp: sub_store_def)
    then have "pt_content H s k = Some e0" "cache_entry_eq e e0" using g(1) c(1) by (simp_all add: pt_content_def)
    then show "\<exists>e'. m (norm_key ?names k) = Some e' \<and> cache_entry_eq e e'"
      using that unfolding covers_def by (meson cache_entry_eq_trans)
  qed
  ultimately show ?thesis by blast
qed


lemma group_in_member: "group_in names k = Some g \<Longrightarrow> g \<in> set names"
  by (auto simp: group_in_def Let_def split: if_splits list.splits)

lemma on_part_cases:
  assumes "pt_inv H parts s"
  obtains (none) "resolve_group s k = None" "on_part k x f s = (x, s)"
  | (part) g c j where "resolve_group s k = Some g" "map_of (pt_caches s) g = Some c"
      "on_part k x f s = (fst (f (c\<lparr>l_journal := j\<rparr>)), put_part g (snd (f (c\<lparr>l_journal := j\<rparr>))) s)"
      "part_ok H parts (pt_total_cap s) g (c\<lparr>l_journal := j\<rparr>)"
proof (cases "resolve_group s k")
  case None
  then show ?thesis using none by (simp add: on_part_def)
next
  case (Some g)
  then have "g \<in> set (map fst (pt_caches s))" unfolding resolve_group_def by (rule group_in_member)
  then obtain c where c: "map_of (pt_caches s) g = Some c" by (metis domD dom_map_of_conv_image_fst list.set_map)
  then have "part_ok H parts (pt_total_cap s) g c" using assms by (simp add: pt_inv_def)
  then show ?thesis using part [of g c "pt_journal s"] Some c
    by (simp add: on_part_def the_part_def case_prod_beta part_ok_def)
qed

text \<open>A lookup: the state only loses entries, and the answer is the one of the partition.\<close>

lemma on_part_lookup:
  assumes "pt_inv H parts s" "covers H s m"
    and "\<And>c. lru_inv H c \<Longrightarrow> lru_inv H (snd (f c)) \<and> l_total_cap (snd (f c)) = l_total_cap c
      \<and> sub_store (lru_content H (snd (f c))) (lru_content H c) \<and> fst (f c) = answer (lru_content H c (inner_key k))"
    and "answer None = None"
  shows "pt_inv H parts (snd (on_part k None f s)) \<and> covers H (snd (on_part k None f s)) m
    \<and> fst (on_part k None f s) = answer (pt_content H s k)"
proof -
  consider (none) "resolve_group s k = None" "on_part k None f s = (None, s)"
    | (part) g c j where "resolve_group s k = Some g" "map_of (pt_caches s) g = Some c"
        "on_part k None f s = (fst (f (c\<lparr>l_journal := j\<rparr>)), put_part g (snd (f (c\<lparr>l_journal := j\<rparr>))) s)"
        "part_ok H parts (pt_total_cap s) g (c\<lparr>l_journal := j\<rparr>)"
    by (rule on_part_cases [OF assms(1), where k = k and x = None and f = f]) (blast intro: that)+
  then show ?thesis
  proof cases
  case none
  then show ?thesis using assms by (simp add: pt_content_def)
next
  case (part g c j)
  have f: "part_ok H parts (pt_total_cap s) g (snd (f (c\<lparr>l_journal := j\<rparr>)))"
      "sub_store (lru_content H (snd (f (c\<lparr>l_journal := j\<rparr>)))) (lru_content H c)"
      "fst (f (c\<lparr>l_journal := j\<rparr>)) = answer (lru_content H c (inner_key k))"
    using assms(3) [of "c\<lparr>l_journal := j\<rparr>"] part(4) by (simp_all add: part_ok_def)
  then show ?thesis using put_part_inv [OF assms(1) f(1)] covers_part_keep [OF assms(2) part(2) f(2)] part
    by (simp add: pt_content_def)
  qed
qed

text \<open>An update of the store at the key.\<close>

lemma on_part_update:
  assumes "pt_inv H parts s" "covers H s m"
    and "\<And>c. lru_inv H c \<Longrightarrow> lru_inv H (f c) \<and> l_total_cap (f c) = l_total_cap c
      \<and> sub_store (lru_content H (f c)) ((lru_content H c)(inner_key k := y))"
  shows "pt_inv H parts (snd (on_part k () (\<lambda>c. ((), f c)) s))
    \<and> covers H (snd (on_part k () (\<lambda>c. ((), f c)) s)) (m(norm_key (map fst parts) k := y))"
proof -
  consider (none) "resolve_group s k = None" "on_part k () (\<lambda>c. ((), f c)) s = ((), s)"
    | (part) g c j where "resolve_group s k = Some g" "map_of (pt_caches s) g = Some c"
        "on_part k () (\<lambda>c. ((), f c)) s = (fst ((\<lambda>c. ((), f c)) (c\<lparr>l_journal := j\<rparr>)), put_part g (snd ((\<lambda>c. ((), f c)) (c\<lparr>l_journal := j\<rparr>))) s)"
        "part_ok H parts (pt_total_cap s) g (c\<lparr>l_journal := j\<rparr>)"
    by (rule on_part_cases [OF assms(1), where k = k and x = "()" and f = "\<lambda>c. ((), f c)"]) (blast intro: that)+
  then show ?thesis
  proof cases
  case none
  have names: "map fst (pt_caches s) = map fst parts" using assms(1) by (simp add: pt_inv_def)
  have "pt_caches s = []" using none(1) by (auto simp: resolve_group_def group_in_def Let_def split: if_splits list.splits)
  then have "pt_content H s = (\<lambda>_. None)" by (auto simp: pt_content_def fun_eq_iff split: option.split)
  then show ?thesis using assms(1) none by (simp add: covers_def)
next
  case (part g c j)
  have f: "part_ok H parts (pt_total_cap s) g (f (c\<lparr>l_journal := j\<rparr>))"
      "sub_store (lru_content H (f (c\<lparr>l_journal := j\<rparr>))) ((lru_content H c)(inner_key k := y))"
    using assms(3) [of "c\<lparr>l_journal := j\<rparr>"] part(4) by (simp_all add: part_ok_def)
  have "map fst (pt_caches s) = map fst parts" using assms(1) by (simp add: pt_inv_def)
  then show ?thesis
    using put_part_inv [OF assms(1) f(1)] covers_part [OF assms(2) part(1,2) f(2), of y] part(3)
    by (simp add: option.rel_refl)
  qed
qed

lemma pt_step:
  assumes "weights_ok parts" "pt_inv H parts s" "covers H s m"
  shows "pt_inv H parts (cache_step (pt_ops H) c s)
    \<and> covers H (cache_step (pt_ops H) c s) (store_step (norm_call (map fst parts) c) m)"
proof -
  have d: "distinct (map fst parts)" "map fst (pt_caches s) = map fst parts" "pt_parts s = parts"
    using assms(1,2) by (simp_all add: weights_ok_def pt_inv_def)
  have each: "pt_inv H parts (on_each f s) \<and> covers H (on_each f s) m"
    if keeps: "\<And>g c. lru_inv H c \<Longrightarrow> lru_inv H (f g c) \<and> l_total_cap (f g c) = l_total_cap c
      \<and> sub_store (lru_content H (f g c)) (lru_content H c)" for f
  proof -
    have "part_ok H parts (pt_total_cap s) g (f g (c\<lparr>l_journal := j\<rparr>))
        \<and> sub_store (lru_content H (f g (c\<lparr>l_journal := j\<rparr>))) (lru_content H c)" if c: "map_of (pt_caches s) g = Some c" for g c j
    proof -
      have "part_ok H parts (pt_total_cap s) g c" using assms(2) c by (simp add: pt_inv_def)
      then show ?thesis using keeps [where c = "c\<lparr>l_journal := j\<rparr>" and g = g] by (simp add: part_ok_def)
    qed
    then show ?thesis using on_each_spec [OF d(2,1,3), of H f m] assms(3) by blast
  qed
  show ?thesis
  proof (cases c)
    case (CGet k now)
    then show ?thesis
      using on_part_lookup [OF assms(2,3), where f = "lru_get H (inner_key k) now" and answer = "\<lambda>x. fresh_answer x now" and k = k] lru_get_spec
      by (simp add: pt_ops_def pt_get_def fresh_answer_def)
  next
    case (CGetStale k now w)
    then show ?thesis
      using on_part_lookup [OF assms(2,3), where f = "lru_get_stale H (inner_key k) now w" and answer = "\<lambda>x. stale_answer x now w" and k = k] lru_get_stale_spec
      by (simp add: pt_ops_def pt_get_stale_def stale_answer_def)
  next
    case (CPeek k now)
    then show ?thesis
      using on_part_lookup [OF assms(2,3), where f = "lru_peek H (inner_key k) now" and answer = "\<lambda>x. fresh_answer x now" and k = k] lru_peek_spec
      by (simp add: pt_ops_def pt_peek_def fresh_answer_def)
  next
    case (CPut k e now)
    then show ?thesis
      using on_part_update [OF assms(2,3), where f = "lru_put H (inner_key k) e now" and k = k and y = "Some e"] lru_put_spec
      by (simp add: pt_ops_def pt_put_def inner_key_drop)
  next
    case (CDelete k)
    then show ?thesis
      using on_part_update [OF assms(2,3), where f = "lru_delete H (inner_key k)" and k = k and y = None] remove_content
      by (simp add: pt_ops_def pt_delete_def lru_delete_def set_map_def)
  next
    case CClear
    have "pt_inv H parts (pt_clear s) \<and> covers H (pt_clear s) m"
      unfolding pt_clear_def using lru_clear_spec by (intro each) simp
    moreover have "covers H (pt_clear s) (\<lambda>_. None)"
      unfolding covers_def
    proof (intro allI impI)
      fix k e
      assume "pt_content H (pt_clear s) k = Some e"
      then obtain g c' where c': "map_of (pt_caches (pt_clear s)) g = Some c'" "lru_content H c' (inner_key k) = Some e"
        by (auto simp: pt_content_def split: option.splits)
      obtain c0 j where c0: "map_of (pt_caches s) g = Some c0" "c' = lru_clear (c0\<lparr>l_journal := j\<rparr>)"
        using on_each_at [of s "\<lambda>_. lru_clear" g c'] c'(1) d by (auto simp: pt_clear_def)
      have "lru_inv H (c0\<lparr>l_journal := j\<rparr>)" using assms(2) c0(1) by (simp add: pt_inv_def part_ok_def)
      then have False using lru_clear_spec [of H "c0\<lparr>l_journal := j\<rparr>"] c'(2) c0(2) by simp
      then show "\<exists>e'. None = Some e' \<and> cache_entry_eq e e'" ..
    qed
    ultimately show ?thesis using CClear by (simp add: pt_ops_def)
  next
    case (CSetCapacity n)
    let ?n = "clamp_capacity (Some n)"
    let ?s = "s\<lparr>pt_total_cap := ?n\<rparr>"
    let ?f = "\<lambda>g. lru_set_capacity (share_of g (allocate (pt_parts s) ?n))"
    have "part_ok H parts ?n g (?f g (c\<lparr>l_journal := j\<rparr>))
        \<and> sub_store (lru_content H (?f g (c\<lparr>l_journal := j\<rparr>))) (lru_content H c)" if "map_of (pt_caches s) g = Some c" for g c j
    proof -
      have "lru_inv H (c\<lparr>l_journal := j\<rparr>)" using assms(2) that by (simp add: pt_inv_def part_ok_def)
      then show ?thesis using lru_set_capacity_spec [of H "c\<lparr>l_journal := j\<rparr>"] d(3)
        by (simp add: part_ok_def clamp_capacity_def)
    qed
    then have "pt_inv H parts (on_each ?f ?s) \<and> (covers H ?s m \<longrightarrow> covers H (on_each ?f ?s) m)"
      using d by (intro on_each_spec) simp_all
    moreover have "covers H ?s m" using assms(3) by (simp add: covers_def pt_content_def resolve_group_def cong: option.case_cong)
    moreover have "pt_set_capacity n s = on_each ?f ?s" by (simp add: pt_set_capacity_def Let_def)
    ultimately show ?thesis using CSetCapacity by (simp add: pt_ops_def)
  next
    case (CSetStale sw)
    then show ?thesis using each [of "\<lambda>_. lru_set_stale_window sw"]
      by (simp add: pt_ops_def pt_set_stale_window_def)
  qed
qed


subsection \<open>Any history\<close>

lemma take_back_fst [simp]: "map fst (take_back order d i l) = map fst l"
proof (induction order d i l rule: take_back.induct)
  case (2 order d i l)
  show ?case
  proof (cases "take_one order (length order) i l")
    case (Some y)
    obtain i' l' where y: "y = (i', l')" by fastforce
    then obtain g where "l' = unbump g l" using take_one_Some Some by blast
    then show ?thesis using 2 Some y by simp
  qed simp
qed simp

lemma allocate_names: "map fst (allocate parts cap) = map fst parts"
  by (simp add: allocate_def Let_def comp_def case_prod_beta)

lemma share_member: "map_of l g = Some c \<Longrightarrow> share_of g l = c"
  by (induction l) (auto simp: share_of_def split: if_splits)

lemma new_inv:
  assumes "distinct (map fst ws)"
  shows "pt_inv H (normal_weights ws) (partitioned_new c (Some ws)) \<and> covers H (partitioned_new c (Some ws)) (\<lambda>_. None)"
proof -
  let ?s = "partitioned_new c (Some ws)" and ?p = "normal_weights ws" and ?n = "clamp_capacity (Some c)"
  have s: "pt_parts ?s = ?p" "pt_total_cap ?s = ?n"
      "pt_caches ?s = map (\<lambda>(g, share). (g, lru_with_group share (Some g))) (allocate ?p ?n)"
    by (simp_all add: partitioned_new_def rebuild_caches_def Let_def)
  have at: "lru_inv H d \<and> l_total_cap d = max (share_of g (allocate ?p ?n)) 16 \<and> lru_content H d = (\<lambda>_. None)"
    if d: "map_of (pt_caches ?s) g = Some d" for g d
  proof -
    have "map_of (map (\<lambda>(g, share). (g, lru_with_group share (Some g))) l) g = map_option (\<lambda>share. lru_with_group share (Some g)) (map_of l g)"
      for l by (induction l) auto
    then obtain share where "map_of (allocate ?p ?n) g = Some share" "d = lru_with_group share (Some g)"
      using d s(3) by auto
    then show ?thesis using lru_new_spec [of H share "Some g"]
      by (simp add: share_member) (simp add: lru_with_group_def Let_def clamp_capacity_def)
  qed
  have "map fst (pt_caches ?s) = map fst ?p" using allocate_names [of ?p ?n] by (simp add: s comp_def case_prod_beta)
  then have "pt_inv H ?p ?s" using at s by (simp add: pt_inv_def part_ok_def)
  moreover have "pt_content H ?s k = None" for k using at by (auto simp: pt_content_def split: option.split)
  ultimately show ?thesis by (simp add: covers_def)
qed

lemma pt_run:
  "weights_ok parts \<Longrightarrow> pt_inv H parts s \<Longrightarrow> covers H s m \<Longrightarrow>
     pt_inv H parts (fold (cache_step (pt_ops H)) cs s)
     \<and> covers H (fold (cache_step (pt_ops H)) cs s) (fold store_step (map (norm_call (map fst parts)) cs) m)"
proof (induction cs arbitrary: s m)
  case (Cons c cs)
  have "pt_inv H parts (cache_step (pt_ops H) c s)"
    "covers H (cache_step (pt_ops H) c s) (store_step (norm_call (map fst parts) c) m)"
    using pt_step [OF Cons.prems] by blast+
  then show ?case using Cons.IH Cons.prems(1) by simp
qed simp

lemma pt_len_bound:
  assumes "weights_ok parts" "pt_inv H parts s" "parts \<noteq> []" "16 * length parts \<le> pt_total_cap s" "pt_total_cap s \<le> usize_max"
  shows "pt_len s \<le> pt_total_cap s"
proof -
  let ?a = "allocate parts (pt_total_cap s)"
  note a = allocate_big [OF assms(1,3-5)]
  have names: "map fst (pt_caches s) = map fst ?a" "distinct (map fst ?a)"
    using assms(1,2) a by (simp_all add: pt_inv_def weights_ok_def)
  then have "length (pt_caches s) = length ?a" by (metis length_map)
  then have "\<forall>i<length ?a. lru_len (snd (pt_caches s ! i)) \<le> snd (?a ! i)"
  proof (intro allI impI)
    fix i assume l: "length (pt_caches s) = length ?a" "i < length ?a"
    obtain g c where c: "pt_caches s ! i = (g, c)" by fastforce
    obtain g' n where n: "?a ! i = (g', n)" by fastforce
    have g: "g' = g" using names(1) l c n by (metis fst_conv nth_map)
    have "map_of (pt_caches s) g = Some c" using names l c by (metis map_of_is_SomeI nth_mem)
    then have p: "lru_inv H c" "l_total_cap c = max (share_of g ?a) 16" using assms(2) by (simp_all add: pt_inv_def part_ok_def)
    have "map_of ?a g = Some n" using names(2) l(2) n g by (metis map_of_is_SomeI nth_mem)
    then have "share_of g ?a = n" by (rule share_member)
    moreover have "16 \<le> n" using a l(2) n nth_mem by fastforce
    ultimately have "lru_len c \<le> n" using lru.len_bound [OF p(1)] p(2) by (simp add: lru_ops_def)
    then show "lru_len (snd (pt_caches s ! i)) \<le> snd (?a ! i)" using c n by simp
  qed
  then have "sum_list (map (\<lambda>x. lru_len (snd x)) (pt_caches s)) \<le> total ?a"
    using \<open>length (pt_caches s) = length ?a\<close> by (intro sum_list_mono2) simp_all
  then show ?thesis using a by (simp add: pt_len_def case_prod_unfold)
qed

text \<open>
  C37: Over any history of calls on a fresh partitioned cache, a lookup answers only with the entry last stored for the
  domain and the type in the partition of the key, fresh for \<open>get\<close> and within the window for \<open>get_stale\<close>; and with room for
  sixteen entries per partition it never holds more than its capacity.
\<close>

theorem partitioned_history:
  assumes "distinct (map fst ws)" "ws \<noteq> []"
    and "s = fold (cache_step (pt_ops H)) cs (partitioned_new c (Some ws))" "names = map fst (normal_weights ws)"
    and "stored = fold store_step (map (norm_call names) cs) (\<lambda>_. None)"
  shows "(16 * length ws \<le> pt_total_cap s \<and> pt_total_cap s \<le> usize_max \<longrightarrow> pt_len s \<le> pt_total_cap s)
    \<and> (case fst (pt_get H k now s) of
          None \<Rightarrow> True
        | Some e \<Rightarrow> now < ce_expires_at e \<and> (\<exists>e'. stored (norm_key names k) = Some e' \<and> cache_entry_eq e e'))
    \<and> (case fst (pt_get_stale H k now w s) of
          None \<Rightarrow> True
        | Some e \<Rightarrow> ce_expires_at e \<le> now \<and> now - ce_expires_at e \<le> w
            \<and> (\<exists>e'. stored (norm_key names k) = Some e' \<and> cache_entry_eq e e'))"
proof -
  let ?p = "normal_weights ws"
  note ok = normal_weights_ok [OF assms(1)]
  have s: "pt_inv H ?p s" "covers H s stored"
    using pt_run [OF ok, of H "partitioned_new c (Some ws)" "\<lambda>_. None" cs] new_inv [OF assms(1), of H c] assms(3-5) by simp_all
  have n: "map fst (pt_caches s) = names" using s(1) assms(4) by (simp add: pt_inv_def)
  have "length ?p = length ws" by (rule normal_weights_length)
  then have "16 * length ws \<le> pt_total_cap s \<and> pt_total_cap s \<le> usize_max \<longrightarrow> pt_len s \<le> pt_total_cap s"
    using pt_len_bound [OF ok s(1)] assms(2) by (metis length_0_conv)
  moreover have "fst (pt_get H k now s) = fresh_answer (pt_content H s k) now"
    using on_part_lookup [OF s, where f = "lru_get H (inner_key k) now" and answer = "\<lambda>x. fresh_answer x now" and k = k]
      lru_get_spec by (simp add: pt_get_def fresh_answer_def)
  moreover have "fst (pt_get_stale H k now w s) = stale_answer (pt_content H s k) now w"
    using on_part_lookup [OF s, where f = "lru_get_stale H (inner_key k) now w" and answer = "\<lambda>x. stale_answer x now w" and k = k]
      lru_get_stale_spec by (simp add: pt_get_stale_def stale_answer_def)
  ultimately show ?thesis using s(2) unfolding covers_def n
    by (auto simp: fresh_answer_Some stale_answer_Some split: option.split)
qed

theorem partitioned_history_witness:
  "pt_len (fold (cache_step (pt_ops (\<lambda>_. 0))) [CSetCapacity 64] (partitioned_new 48 (Some DEFAULT_PARTITIONS))) \<le> 64"
proof -
  let ?s = "fold (cache_step (pt_ops (\<lambda>_. 0))) [CSetCapacity 64] (partitioned_new 48 (Some DEFAULT_PARTITIONS))"
  have "distinct (map fst DEFAULT_PARTITIONS)" "DEFAULT_PARTITIONS \<noteq> []" by (simp_all add: DEFAULT_PARTITIONS_def)
  from partitioned_history [OF this refl refl refl, of "\<lambda>_. 0" "[CSetCapacity 64]" 48]
  have "16 * length DEFAULT_PARTITIONS \<le> pt_total_cap ?s \<and> pt_total_cap ?s \<le> usize_max \<longrightarrow> pt_len ?s \<le> pt_total_cap ?s" by blast
  moreover have "pt_total_cap ?s = 64"
    by (simp add: pt_ops_def pt_set_capacity_def clamp_capacity_def Let_def)
  ultimately show ?thesis by (simp add: DEFAULT_PARTITIONS_def usize_max_def)
qed




text \<open>The partitions of a cache for sixteen entries hold sixteen entries each: an inner cache is never smaller.\<close>

lemma small_capacity_exceeded:
  assumes "map_of (pt_caches (partitioned_new 16 None)) g = Some c"
  shows "l_total_cap c = 16" "pt_total_cap (partitioned_new 16 None) = 16"
proof -
  let ?s = "partitioned_new 16 (Some DEFAULT_PARTITIONS)" and ?a = "allocate (normal_weights DEFAULT_PARTITIONS) 16"
  have s: "partitioned_new 16 None = ?s" by (simp add: partitioned_new_def)
  have d: "distinct (map fst DEFAULT_PARTITIONS)" by (simp add: DEFAULT_PARTITIONS_def)
  have cap: "pt_total_cap ?s = 16" by (simp add: partitioned_new_def clamp_capacity_def Let_def)
  have "length (normal_weights DEFAULT_PARTITIONS) = 3" unfolding normal_weights_length by (simp add: DEFAULT_PARTITIONS_def)
  then have a: "total ?a = 16" using allocate_small [OF normal_weights_ok [OF d], of 16] by (simp add: usize_max_def)
  have "share_of g ?a \<le> 16"
  proof (cases "find (\<lambda>(x, _). x = g) ?a")
    case (Some y)
    then have "y \<in> set ?a" unfolding find_Some_iff by (metis nth_mem)
    then have "snd y \<le> total ?a" by (intro member_le_sum_list) auto
    then show ?thesis using a Some by (cases y) (simp add: share_of_def)
  qed (simp add: share_of_def)
  moreover have "part_ok (\<lambda>_. 0) (normal_weights DEFAULT_PARTITIONS) 16 g c"
    using new_inv [OF d, of "\<lambda>_. 0" 16] assms cap unfolding s by (simp add: pt_inv_def)
  ultimately show "l_total_cap c = 16" by (simp add: part_ok_def)
  show "pt_total_cap (partitioned_new 16 None) = 16" using cap s by simp
qed

end
