(* ===== verification/Tinylfu_Props.thy ===== *)
theory Tinylfu_Props
  imports Tinylfu
begin

text \<open>
  \<open>Tinylfu\<close> keeps the contract of the cache trait.  The three segments are taken together as
  the multiset of their pairs: every move between segments leaves it unchanged, an eviction takes
  out exactly the pairs whose keys it reports, and keys stay distinct.
\<close>

subsection \<open>The pairs of the three segments\<close>

definition pairs :: "entry_map \<Rightarrow> (cache_key \<times> cache_entry) multiset" where
  "pairs m = mset (om_abs m)"

definition tiny_pairs :: "tiny_inner \<Rightarrow> (cache_key \<times> cache_entry) multiset" where
  "tiny_pairs t = pairs (window t) + pairs (probation t) + pairs (protected t)"

definition tiny_alist :: "tiny_inner \<Rightarrow> (cache_key \<times> cache_entry) list" where
  "tiny_alist t = om_abs (window t) @ om_abs (probation t) @ om_abs (protected t)"

definition maps_inv :: "tiny_inner \<Rightarrow> bool" where
  "maps_inv t \<longleftrightarrow> om_inv (window t) \<and> om_inv (probation t) \<and> om_inv (protected t)"

text \<open>Well-formed segments, no key in two of them.\<close>

definition tiny_wf :: "tiny_inner \<Rightarrow> bool" where
  "tiny_wf t \<longleftrightarrow> maps_inv t \<and> distinct (map fst (tiny_alist t))"

definition tiny_content :: "tiny_inner \<Rightarrow> store" where
  "tiny_content t = map_of (tiny_alist t)"

lemma mset_tiny_alist: "mset (tiny_alist t) = tiny_pairs t"
  by (simp add: tiny_alist_def tiny_pairs_def pairs_def)

lemma distinct_fst_subset:
  assumes "distinct (map fst l)" "mset l' \<subseteq># mset l"
  shows "distinct (map fst l')"
proof -
  obtain d where d: "mset l = mset (l' @ d)" using assms(2) by (metis ex_mset mset_append subset_mset.le_iff_add)
  then have "mset (map fst l) = mset (map fst (l' @ d))" by (metis mset_map)
  then have "distinct (map fst (l' @ d))" using assms(1) mset_eq_imp_distinct_iff by blast
  then show ?thesis by simp
qed

lemma content_in: "tiny_wf t \<Longrightarrow> tiny_content t k = Some e \<longleftrightarrow> (k, e) \<in># tiny_pairs t"
  by (simp add: tiny_content_def tiny_wf_def flip: mset_tiny_alist)

lemma wf_subset:
  assumes "tiny_wf t" "maps_inv t'" "tiny_pairs t' \<subseteq># tiny_pairs t"
  shows "tiny_wf t'"
  using assms distinct_fst_subset [of "tiny_alist t" "tiny_alist t'"] by (simp add: tiny_wf_def mset_tiny_alist)

lemma content_subset:
  assumes "tiny_wf t" "maps_inv t'" "tiny_pairs t' \<subseteq># tiny_pairs t"
  shows "tiny_content t' k = Some e \<Longrightarrow> tiny_content t k = Some e"
  using content_in [OF wf_subset [OF assms]] content_in [OF assms(1)] mset_subset_eqD [OF assms(3)] by metis

lemma content_same:
  assumes "tiny_wf t" "maps_inv t'" "tiny_pairs t' = tiny_pairs t"
  shows "tiny_wf t' \<and> tiny_content t' = tiny_content t"
proof -
  have w: "tiny_wf t'" by (rule wf_subset [OF assms(1,2)]) (simp add: assms(3))
  have "tiny_content t' k = Some e \<longleftrightarrow> tiny_content t k = Some e" for k e
    using content_in [OF w] content_in [OF assms(1)] assms(3) by simp
  then have "tiny_content t' = tiny_content t" by (intro ext) (metis option.exhaust)
  with w show ?thesis by blast
qed

subsection \<open>The pairs after each map operation\<close>

lemma mset_al_del: "mset (al_del k l) = filter_mset (\<lambda>x. fst x \<noteq> k) (mset l)"
  by (induction l) auto

lemma pairs_insert:
  "om_inv m \<Longrightarrow> om_inv (om_insert k e m)
    \<and> pairs (om_insert k e m) = add_mset (k, e) (filter_mset (\<lambda>x. fst x \<noteq> k) (pairs m))"
  by (simp add: pairs_def om.insert mset_al_del)

lemma pairs_push:
  "om_inv m \<Longrightarrow> om_inv (om_push_front k e m)
    \<and> pairs (om_push_front k e m) = add_mset (k, e) (filter_mset (\<lambda>x. fst x \<noteq> k) (pairs m))"
  by (simp add: pairs_def om.push mset_al_del)

lemma pairs_remove:
  "om_inv m \<Longrightarrow> om_inv (snd (om_remove k m))
    \<and> pairs (snd (om_remove k m)) = filter_mset (\<lambda>x. fst x \<noteq> k) (pairs m)"
  by (simp add: pairs_def om_remove_snd om.remove mset_al_del)

lemma pairs_pop:
  assumes "om_inv m" "om_pop_front m = (r, m')"
  shows "om_inv m' \<and> (case r of Some x \<Rightarrow> pairs m = add_mset x (pairs m') \<and> om_abs m = x # om_abs m'
    | None \<Rightarrow> om_abs m = [] \<and> om_abs m' = [])"
  using om_pop_front_abs [OF assms(1)] assms(2) by (auto simp: pairs_def split: list.splits)

lemma filter_other:
  assumes "distinct (map fst l)" "map_of l k = Some v"
  shows "add_mset (k, v) (filter_mset (\<lambda>x. fst x \<noteq> k) (mset l)) = mset l"
  using assms
proof (induction l)
  case (Cons x l)
  have "k \<notin> fst ` set l \<Longrightarrow> filter_mset (\<lambda>x. fst x \<noteq> k) (mset l) = mset l"
    by (auto simp: filter_mset_eq_conv)
  with Cons show ?case by (cases x) (auto split: if_splits)
qed simp

lemma pairs_to_end: "om_inv m \<Longrightarrow> om_inv (om_move_to_end k m) \<and> pairs (om_move_to_end k m) = pairs m"
  using om.to_end [of m k] om_distinct [of m] filter_other [of "om_abs m" k]
  by (auto simp: pairs_def mset_al_del split: option.splits)

lemma pairs_drop:
  assumes "om_inv m" "om_pop_while p fuel m = (c, m')"
  shows "om_inv m' \<and> pairs m' \<subseteq># pairs m"
proof -
  have "om_inv m' \<and> om_abs m' = drop c (om_abs m)" using om_pop_while_abs [OF assms] by blast
  moreover have "mset (om_abs m) = mset (take c (om_abs m)) + mset (drop c (om_abs m))"
    by (metis append_take_drop_id mset_append)
  ultimately show ?thesis by (simp add: pairs_def)
qed

lemma purge_one_pairs: "om_inv m \<Longrightarrow> om_inv (purge_one now sw m) \<and> pairs (purge_one now sw m) \<subseteq># pairs m"
  using pairs_drop unfolding purge_one_def by (metis surjective_pairing)

lemma sweep_front_pairs: "om_inv m \<Longrightarrow> om_inv (sweep_front now m) \<and> pairs (sweep_front now m) \<subseteq># pairs m"
  using pairs_drop unfolding sweep_front_def by (metis surjective_pairing)

lemma om_len_pairs: "om_inv m \<Longrightarrow> om_len m = size (pairs m)"
  by (simp add: pairs_def om_len_abs)

subsection \<open>Eviction\<close>

text \<open>From \<open>t\<close> to \<open>t'\<close> exactly the pairs of the reported keys are gone.\<close>

definition evicts :: "tiny_inner \<Rightarrow> tiny_inner \<Rightarrow> cache_key list \<Rightarrow> bool" where
  "evicts t t' ks \<longleftrightarrow> tiny_wf t' \<and> caps_of t' = caps_of t \<and> policy_of t' = policy_of t \<and> sketch t' = sketch t
     \<and> (\<exists>R. tiny_pairs t = tiny_pairs t' + R \<and> image_mset fst R = mset ks)"

lemma evicts_refl: "tiny_wf t \<Longrightarrow> evicts t t []"
  by (simp add: evicts_def)

lemma evicts_trans:
  assumes "evicts t t' ks" "evicts t' t'' ks'"
  shows "evicts t t'' (ks @ ks')"
proof -
  obtain R S where "tiny_pairs t = tiny_pairs t' + R" "image_mset fst R = mset ks"
    "tiny_pairs t' = tiny_pairs t'' + S" "image_mset fst S = mset ks'"
    using assms unfolding evicts_def by blast
  then have "tiny_pairs t = tiny_pairs t'' + (S + R) \<and> image_mset fst (S + R) = mset (ks @ ks')" by simp
  then show ?thesis using assms unfolding evicts_def by auto
qed

lemma evictsI:
  assumes "tiny_wf t" "maps_inv t'" "tiny_pairs t = tiny_pairs t' + R" "image_mset fst R = mset ks"
    and "caps_of t' = caps_of t" "policy_of t' = policy_of t" "sketch t' = sketch t"
  shows "evicts t t' ks"
  using assms wf_subset [OF assms(1,2)] by (auto simp: evicts_def)

lemma fresh_insert:
  assumes "om_inv m" "k \<notin> fst ` set (om_abs m)"
  shows "om_inv (om_insert k e m) \<and> pairs (om_insert k e m) = add_mset (k, e) (pairs m)"
    and "om_inv (om_push_front k e m) \<and> pairs (om_push_front k e m) = add_mset (k, e) (pairs m)"
proof -
  have "filter_mset (\<lambda>x. fst x \<noteq> k) (pairs m) = pairs m"
    using assms(2) by (force simp: pairs_def filter_mset_eq_conv)
  then show "om_inv (om_insert k e m) \<and> pairs (om_insert k e m) = add_mset (k, e) (pairs m)"
    "om_inv (om_push_front k e m) \<and> pairs (om_push_front k e m) = add_mset (k, e) (pairs m)"
    using pairs_insert [OF assms(1)] pairs_push [OF assms(1)] by simp_all
qed

lemma admit_evicts:
  assumes wf: "tiny_wf t" and pop: "om_pop_front (window t) = (Some (wk, wv), w)"
    and a: "admit H wk wv (t\<lparr>window := w\<rparr>) = (ks, t')"
  shows "evicts t t' ks"
proof -
  have inv: "om_inv (window t)" "om_inv (probation t)" "om_inv (protected t)"
    using wf by (simp_all add: tiny_wf_def maps_inv_def)
  have w: "om_inv w" "om_abs (window t) = (wk, wv) # om_abs w" "pairs (window t) = add_mset (wk, wv) (pairs w)"
    using pairs_pop [OF inv(1) pop] by simp_all
  have fr: "wk \<notin> fst ` set (om_abs (probation t))" "wk \<notin> fst ` set (om_abs (protected t))"
    using wf by (auto simp: tiny_wf_def tiny_alist_def w(2) image_iff)
  note I = fresh_insert(1) [OF inv(2) fr(1), of wv] fresh_insert(1) [OF inv(3) fr(2), of wv]
  consider (room) "ks = []" "t' = t\<lparr>window := w, probation := om_insert wk wv (probation t)\<rparr>"
    | (main) "ks = []" "t' = t\<lparr>window := w, protected := om_insert wk wv (protected t)\<rparr>"
    | (drop) "ks = [wk]" "t' = t\<lparr>window := w\<rparr>"
    | (swap) x p where "om_pop_front (probation t) = (Some x, p)" "ks = [fst x]"
        "t' = t\<lparr>window := w, probation := om_insert wk wv p\<rparr>"
    using a om_front_abs [OF inv(2)] om_pop_front_abs [OF inv(2)]
    by (fastforce simp: admit_def Let_def split: if_splits option.splits prod.splits list.splits)
  then show ?thesis
  proof cases
    case room
    show ?thesis by (rule evictsI [OF wf, where R = "{#}"])
      (use I w inv in \<open>simp_all add: room maps_inv_def tiny_pairs_def\<close>)
  next
    case main
    show ?thesis by (rule evictsI [OF wf, where R = "{#}"])
      (use I w inv in \<open>simp_all add: main maps_inv_def tiny_pairs_def\<close>)
  next
    case drop
    show ?thesis by (rule evictsI [OF wf, where R = "{#(wk, wv)#}"])
      (use w inv in \<open>simp_all add: drop maps_inv_def tiny_pairs_def\<close>)
  next
    case swap
    have p: "om_inv p" "om_abs (probation t) = x # om_abs p" "pairs (probation t) = add_mset x (pairs p)"
      using pairs_pop [OF inv(2) swap(1)] by simp_all
    then have "wk \<notin> fst ` set (om_abs p)" using fr(1) by simp
    note J = fresh_insert(1) [OF p(1) this, of wv]
    show ?thesis by (rule evictsI [OF wf, where R = "{#x#}"])
      (use J p w inv in \<open>simp_all add: swap maps_inv_def tiny_pairs_def\<close>)
  qed
qed

lemma window_loop_evicts:
  assumes "tiny_wf t" "window_loop H t = (ks, t')"
  shows "evicts t t' ks
    \<and> om_abs (window t') = drop (length (om_abs (window t)) - cap_win (caps_of t)) (om_abs (window t))"
  using assms
proof (induction H t arbitrary: ks t' rule: window_loop.induct)
  case (1 H t)
  have inv: "om_inv (window t)" using 1(2) by (simp add: tiny_wf_def maps_inv_def)
  note len = om_len_abs [OF inv]
  show ?case
  proof (cases "om_len (window t) > cap_win (caps_of t)")
    case False
    then show ?thesis using 1(2,3) len by (simp add: window_loop.simps [of H t] evicts_refl)
  next
    case True
    then obtain x w where pop: "om_pop_front (window t) = (Some x, w)"
      using om_pop_front_abs [OF inv] len by (cases "om_abs (window t)"; cases "om_pop_front (window t)") auto
    obtain wk wv where x: "x = (wk, wv)" by fastforce
    obtain ks1 t1 where a: "admit H wk wv (t\<lparr>window := w\<rparr>) = (ks1, t1)" by fastforce
    obtain ks2 t2 where l: "window_loop H t1 = (ks2, t2)" by fastforce
    have r: "ks = ks1 @ ks2" "t' = t2"
      using 1(3) True by (simp_all add: window_loop.simps [of H t] pop x a l)
    have e: "evicts t t1 ks1" by (rule admit_evicts [OF 1(2) pop [unfolded x] a])
    then have wf1: "tiny_wf t1" by (simp add: evicts_def)
    have IH: "evicts t1 t2 ks2
      \<and> om_abs (window t2) = drop (length (om_abs (window t1)) - cap_win (caps_of t1)) (om_abs (window t1))"
      by (rule 1(1) [OF True pop [symmetric] refl x [symmetric] a [symmetric] refl wf1 l])
    have "window t1 = w" "caps_of t1 = caps_of t"
      using admit_window(1,2) [of H wk wv "t\<lparr>window := w\<rparr>"] a by simp_all
    moreover have "om_abs (window t) = x # om_abs w" using pairs_pop [OF inv pop] by simp
    ultimately show ?thesis using IH evicts_trans [OF e, of t2 ks2] True len
      by (simp add: r Suc_diff_le flip: drop_Suc_Cons)
  qed
qed

lemma demote_loop_evicts:
  assumes "tiny_wf t"
  shows "evicts t (demote_loop t) [] \<and> window (demote_loop t) = window t
    \<and> om_len (protected (demote_loop t)) = min (cap_prot (caps_of t)) (om_len (protected t))"
  using assms
proof (induction t rule: demote_loop.induct)
  case (1 t)
  have inv: "om_inv (window t)" "om_inv (probation t)" "om_inv (protected t)"
    using 1(2) by (simp_all add: tiny_wf_def maps_inv_def)
  note len = om_len_abs [OF inv(3)]
  show ?case
  proof (cases "om_len (protected t) > cap_prot (caps_of t)")
    case False
    then show ?thesis using 1(2) by (simp add: demote_loop.simps [of t] evicts_refl)
  next
    case True
    then obtain x q where pop: "om_pop_front (protected t) = (Some x, q)"
      using om_pop_front_abs [OF inv(3)] len by (cases "om_abs (protected t)"; cases "om_pop_front (protected t)") auto
    obtain pk pv where x: "x = (pk, pv)" by fastforce
    let ?t1 = "t\<lparr>protected := q, probation := om_push_front pk pv (probation t)\<rparr>"
    have q: "om_inv q" "om_abs (protected t) = (pk, pv) # om_abs q" "pairs (protected t) = add_mset (pk, pv) (pairs q)"
      using pairs_pop [OF inv(3) pop] by (simp_all add: x)
    have "pk \<notin> fst ` set (om_abs (probation t))"
      using 1(2) by (auto simp: tiny_wf_def tiny_alist_def q(2) image_iff)
    note P = fresh_insert(2) [OF inv(2) this, of pv]
    have e: "evicts t ?t1 []"
      by (rule evictsI [OF 1(2), where R = "{#}"]) (use P q inv in \<open>simp_all add: maps_inv_def tiny_pairs_def\<close>)
    then have "tiny_wf ?t1" by (simp add: evicts_def)
    note IH = 1(1) [OF True pop [symmetric] refl x [symmetric] this]
    have r: "demote_loop t = demote_loop ?t1"
      using True by (simp add: demote_loop.simps [of t] pop x)
    show ?thesis using IH evicts_trans [OF e, of "demote_loop ?t1" "[]"] True len om_len_abs [OF q(1)]
      by (simp add: r q(2))
  qed
qed

text \<open>An eviction reports exactly the keys it drops, and leaves every segment within its capacity.\<close>

definition fits :: "tiny_inner \<Rightarrow> bool" where
  "fits t \<longleftrightarrow> om_len (window t) \<le> cap_win (caps_of t) \<and> om_len (probation t) \<le> cap_prob (caps_of t)
     \<and> om_len (protected t) \<le> cap_prot (caps_of t)"

lemma evict_evicts:
  assumes "tiny_wf t" "lfu_evict_locked H t = (ks, t')"
  shows "evicts t t' ks \<and> fits t'
    \<and> om_abs (window t') = drop (length (om_abs (window t)) - cap_win (caps_of t)) (om_abs (window t))"
proof -
  obtain k1 t1 where w: "window_loop H t = (k1, t1)" by fastforce
  let ?t2 = "demote_loop t1"
  obtain k2 p where sh: "om_shrink (cap_prob (caps_of ?t2)) (probation ?t2) = (k2, p)" by fastforce
  have r: "ks = k1 @ k2" "t' = ?t2\<lparr>probation := p\<rparr>"
    using assms(2) by (simp_all add: lfu_evict_locked_def w sh)
  note W = window_loop_evicts [OF assms(1) w]
  then have wf1: "tiny_wf t1" by (simp add: evicts_def)
  note D = demote_loop_evicts [OF wf1]
  have e2: "evicts t ?t2 k1" using evicts_trans [of t t1 k1 ?t2 "[]"] W D by simp
  then have wf2: "tiny_wf ?t2" by (simp add: evicts_def)
  then have inv: "om_inv (window ?t2)" "om_inv (probation ?t2)" "om_inv (protected ?t2)"
    by (simp_all add: tiny_wf_def maps_inv_def)
  let ?d = "length (om_abs (probation ?t2)) - cap_prob (caps_of ?t2)"
  have P: "om_inv p" "k2 = map fst (take ?d (om_abs (probation ?t2)))" "om_abs p = drop ?d (om_abs (probation ?t2))"
    using om_shrink_abs [OF inv(2) sh] by simp_all
  have "pairs (probation ?t2) = pairs p + mset (take ?d (om_abs (probation ?t2)))"
    unfolding pairs_def P(3) by (metis append_take_drop_id mset_append add.commute)
  then have e3: "evicts ?t2 t' k2"
    using inv P by (intro evictsI [OF wf2, where R = "mset (take ?d (om_abs (probation ?t2)))"])
      (simp_all add: r maps_inv_def tiny_pairs_def)
  have e: "evicts t t' ks" using evicts_trans [OF e2 e3] by (simp add: r)
  have c: "caps_of ?t2 = caps_of t" "caps_of t1 = caps_of t" using e2 W by (simp_all add: evicts_def)
  have ab: "om_abs (window t') = drop (length (om_abs (window t)) - cap_win (caps_of t)) (om_abs (window t))"
    using W D by (simp add: r)
  have "om_len (window t') \<le> cap_win (caps_of t)"
    using om_len_abs [OF inv(1)] ab by (simp add: r)
  moreover have "om_len p \<le> cap_prob (caps_of t)" using om_len_abs [OF P(1)] P(3) c by simp
  ultimately show ?thesis using e D ab c by (simp add: fits_def r)
qed

lemma evict_fits: "fits t \<Longrightarrow> om_inv (probation t) \<Longrightarrow> lfu_evict_locked H t = ([], t)"
  by (simp add: lfu_evict_locked_def fits_def window_loop.simps [of H t] demote_loop.simps [of t] om_shrink.simps)

subsection \<open>The invariant, and lookups\<close>

definition tiny_inv :: "tiny_inner \<Rightarrow> bool" where
  "tiny_inv t \<longleftrightarrow> tiny_wf t \<and> fits t \<and> sketch_ok (sketch t) \<and> policy_of t = BASELINE
     \<and> 1 \<le> cap_win (caps_of t) \<and> 1 \<le> cap_prot (caps_of t)"

text \<open>A step that keeps the invariant and stores nothing new.\<close>

definition shrinks :: "tiny_inner \<Rightarrow> tiny_inner \<Rightarrow> bool" where
  "shrinks t t' \<longleftrightarrow> tiny_inv t' \<and> caps_of t' = caps_of t \<and> tiny_pairs t' \<subseteq># tiny_pairs t"

lemma shrinksI:
  assumes "tiny_inv t" "maps_inv t'" "tiny_pairs t' \<subseteq># tiny_pairs t"
    and "caps_of t' = caps_of t" "policy_of t' = policy_of t" "sketch_ok (sketch t')"
    and "size (pairs (window t')) \<le> cap_win (caps_of t)" "size (pairs (probation t')) \<le> cap_prob (caps_of t)"
    and "size (pairs (protected t')) \<le> cap_prot (caps_of t)"
  shows "shrinks t t'"
proof -
  have "tiny_wf t'" using assms(1-3) wf_subset by (auto simp: tiny_inv_def)
  moreover have "fits t'" using assms(2,4,7-9) by (simp add: fits_def maps_inv_def om_len_pairs)
  ultimately show ?thesis using assms by (simp add: shrinks_def tiny_inv_def)
qed

lemma tiny_invD:
  assumes "tiny_inv t"
  shows "maps_inv t" "sketch_ok (sketch t)" "size (pairs (window t)) \<le> cap_win (caps_of t)"
    "size (pairs (probation t)) \<le> cap_prob (caps_of t)" "size (pairs (protected t)) \<le> cap_prot (caps_of t)"
    "om_inv (window t)" "om_inv (probation t)" "om_inv (protected t)"
  using assms by (auto simp: tiny_inv_def tiny_wf_def maps_inv_def fits_def om_len_pairs)

lemma shrinks_refl: "tiny_inv t \<Longrightarrow> shrinks t t"
  by (simp add: shrinks_def)

lemma content_get:
  "tiny_wf t \<Longrightarrow> tiny_content t k =
     (case om_get (window t) k of Some e \<Rightarrow> Some e
      | None \<Rightarrow> (case om_get (probation t) k of Some e \<Rightarrow> Some e | None \<Rightarrow> om_get (protected t) k))"
  by (simp add: tiny_content_def tiny_alist_def tiny_wf_def maps_inv_def om.lookup map_add_def split: option.split)

lemma store_inv: "maps_inv t \<Longrightarrow> om_inv (store_map i t)"
  by (simp add: maps_inv_def store_map_def)

lemma set_store_shrinks:
  assumes "tiny_inv t" "om_inv m" "pairs m \<subseteq># pairs (store_map i t)" "sketch_ok sk"
  shows "shrinks t ((set_store i m t)\<lparr>sketch := sk\<rparr>)"
proof (rule shrinksI [OF assms(1)])
  note I = tiny_invD [OF assms(1)]
  have sz: "size (pairs m) \<le> size (pairs (store_map i t))" by (rule size_mset_mono [OF assms(3)])
  show "maps_inv ((set_store i m t)\<lparr>sketch := sk\<rparr>)"
    using I(1) assms(2) by (simp add: maps_inv_def set_store_def)
  show "tiny_pairs ((set_store i m t)\<lparr>sketch := sk\<rparr>) \<subseteq># tiny_pairs t"
    using assms(3) by (cases "i = 0"; cases "i = 1") (simp_all add: tiny_pairs_def set_store_def store_map_def)
  show "size (pairs (window ((set_store i m t)\<lparr>sketch := sk\<rparr>))) \<le> cap_win (caps_of t)"
    "size (pairs (probation ((set_store i m t)\<lparr>sketch := sk\<rparr>))) \<le> cap_prob (caps_of t)"
    "size (pairs (protected ((set_store i m t)\<lparr>sketch := sk\<rparr>))) \<le> cap_prot (caps_of t)"
    using I sz by (auto simp: set_store_def store_map_def)
qed (use assms(4) in \<open>simp_all add: set_store_def\<close>)

lemma set_store_shrinks':
  assumes "tiny_inv t" "om_inv m" "pairs m \<subseteq># pairs (store_map i t)"
  shows "shrinks t (set_store i m t)"
proof -
  have "(set_store i m t)\<lparr>sketch := sketch t\<rparr> = set_store i m t" by (simp add: set_store_def)
  then show ?thesis using set_store_shrinks [OF assms tiny_invD(2) [OF assms(1)]] by simp
qed

lemma remove_store_shrinks: "tiny_inv t \<Longrightarrow> shrinks t (set_store i (snd (om_remove k (store_map i t))) t)"
  using pairs_remove [OF store_inv [OF tiny_invD(1)], of t k i] by (simp add: set_store_shrinks')

lemma hit_store_shrinks: "tiny_inv t \<Longrightarrow> shrinks t (hit_store H k i t)"
  using pairs_to_end [OF store_inv [OF tiny_invD(1)], of t k i]
  by (simp add: hit_store_def set_store_shrinks inc_ok tiny_invD(2))

lemma move_store_shrinks: "tiny_inv t \<Longrightarrow> shrinks t (set_store i (om_move_to_end k (store_map i t)) t)"
  using pairs_to_end [OF store_inv [OF tiny_invD(1)], of t k i] by (simp add: set_store_shrinks')

lemma expired_store_shrinks: "tiny_inv t \<Longrightarrow> shrinks t (expired_store sw k i t)"
  by (simp add: expired_store_def remove_store_shrinks shrinks_refl)

lemma promote_spec:
  assumes t: "tiny_inv t" and e: "om_get (probation t) k = Some e"
  shows "fst (promote H k t) = Some e \<and> shrinks t (snd (promote H k t))
    \<and> tiny_pairs (snd (promote H k t)) = tiny_pairs t"
proof -
  note I = tiny_invD [OF t]
  have wf: "tiny_wf t" using t by (simp add: tiny_inv_def)
  have l: "map_of (om_abs (probation t)) k = Some e" using e I(7) by (simp add: om.lookup)
  obtain p where p: "om_remove_entry k (probation t) = (Some (k, e), p)" "om_inv p" "om_abs p = al_del k (om_abs (probation t))"
    using om.remove [OF I(7), of k] l by (cases "om_remove_entry k (probation t)") auto
  have pp: "pairs (probation t) = add_mset (k, e) (pairs p)"
    using filter_other [OF om_distinct [OF I(7)] l] by (simp add: pairs_def p(3) mset_al_del)
  have kp: "k \<in> fst ` set (om_abs (probation t))" using l by (force dest: map_of_SomeD)
  have kq: "k \<notin> fst ` set (om_abs (protected t))"
    using wf kp by (auto simp: tiny_wf_def tiny_alist_def)
  have lp: "size (pairs p) < cap_prob (caps_of t)" using I(4) pp by simp
  let ?full = "om_len (protected t) \<ge> cap_prot (caps_of t) \<and> \<not> om_is_empty (protected t)"
  show ?thesis
  proof (cases ?full)
    case False
    then have room: "size (pairs (protected t)) < cap_prot (caps_of t) \<or> pairs (protected t) = {#}"
      using I(8) by (auto simp: om_len_pairs om_is_empty_def)
    let ?t' = "t\<lparr>probation := p, protected := om_insert k e (protected t), sketch := sketch_inc (H k) 1 (sketch t)\<rparr>"
    have r: "promote H k t = (Some e, ?t')" using False by (auto simp: promote_def p(1) Let_def)
    note J = fresh_insert(1) [OF I(8) kq, of e]
    have prot1: "size (pairs (protected t)) + 1 \<le> cap_prot (caps_of t)"
      using room t by (auto simp: tiny_inv_def)
    have pr: "tiny_pairs ?t' = tiny_pairs t" using J pp by (simp add: tiny_pairs_def)
    have "shrinks t ?t'"
      by (rule shrinksI [OF t]) (use pr J p(2) I prot1 lp inc_ok in \<open>simp_all add: maps_inv_def\<close>)
    then show ?thesis using pr by (simp add: r)
  next
    case True
    then obtain x q where pop: "om_pop_front (protected t) = (Some x, q)"
      using om_pop_front_abs [OF I(8)] om_len_abs [OF I(8)]
      by (cases "om_abs (protected t)"; cases "om_pop_front (protected t)") (auto simp: om_is_empty_def)
    obtain pk pv where x: "x = (pk, pv)" by fastforce
    have q: "om_inv q" "om_abs (protected t) = (pk, pv) # om_abs q" "pairs (protected t) = add_mset (pk, pv) (pairs q)"
      using pairs_pop [OF I(8) pop] by (simp_all add: x)
    let ?p2 = "om_push_front pk pv p" and ?q2 = "om_insert k e q"
    let ?t' = "t\<lparr>probation := ?p2, protected := ?q2, sketch := sketch_inc (H k) 1 (sketch t)\<rparr>"
    have r: "promote H k t = (Some e, ?t')" using True by (simp add: promote_def p(1) pop x)
    have "pk \<notin> fst ` set (om_abs (probation t))"
      using wf by (auto simp: tiny_wf_def tiny_alist_def q(2) image_iff)
    then have "pk \<notin> fst ` set (om_abs p)" by (auto simp: p(3) set_al_del)
    note P = fresh_insert(2) [OF p(2) this, of pv]
    have "k \<notin> fst ` set (om_abs q)" using kq q(2) by simp
    note Q = fresh_insert(1) [OF q(1) this, of e]
    have pr: "tiny_pairs ?t' = tiny_pairs t" using P Q pp q(3) by (simp add: tiny_pairs_def)
    have "shrinks t ?t'"
      by (rule shrinksI [OF t]) (use pr P Q I q(3) lp inc_ok in \<open>simp_all add: maps_inv_def\<close>)
    then show ?thesis using pr by (simp add: r)
  qed
qed

lemma shrinks_content: "tiny_inv t \<Longrightarrow> shrinks t t' \<Longrightarrow> sub_store (tiny_content t') (tiny_content t)"
proof -
  assume t: "tiny_inv t" and s: "shrinks t t'"
  have "tiny_wf t" "maps_inv t'" "tiny_pairs t' \<subseteq># tiny_pairs t"
    using t s tiny_invD(1) by (auto simp: shrinks_def tiny_inv_def)
  from content_subset [OF this] show ?thesis by (auto simp: sub_store_def)
qed

lemma sweep_shrinks:
  assumes t: "tiny_inv t"
    and f: "\<And>m. om_inv m \<Longrightarrow> om_inv (f m) \<and> pairs (f m) \<subseteq># pairs m"
    and t': "t' = t\<lparr>window := f (window t), probation := f (probation t), protected := f (protected t),
      puts := n, misses := m\<rparr>"
  shows "shrinks t t'"
proof (rule shrinksI [OF t])
  note I = tiny_invD [OF t]
  note F = f [OF I(6)] f [OF I(7)] f [OF I(8)]
  show "tiny_pairs t' \<subseteq># tiny_pairs t" unfolding t' tiny_pairs_def
    using F by (simp add: subset_mset.add_mono)
  have "size (pairs (f x)) \<le> size (pairs x)" if "om_inv x" for x
    using f [OF that] size_mset_mono by blast
  from this [OF I(6)] this [OF I(7)] this [OF I(8)]
  show "size (pairs (window t')) \<le> cap_win (caps_of t)" "size (pairs (probation t')) \<le> cap_prob (caps_of t)"
    "size (pairs (protected t')) \<le> cap_prot (caps_of t)" using I(3-5) by (simp_all add: t')
qed (use f tiny_invD [OF t] in \<open>simp_all add: t' maps_inv_def\<close>)

lemma tiny_get_spec:
  assumes t: "tiny_inv t"
  shows "fst (tiny_get H sw k now t) = fresh_answer (tiny_content t k) now \<and> shrinks t (snd (tiny_get H sw k now t))"
proof -
  note I = tiny_invD [OF t]
  have c: "tiny_content t k = (case om_get (window t) k of Some e \<Rightarrow> Some e
      | None \<Rightarrow> (case om_get (probation t) k of Some e \<Rightarrow> Some e | None \<Rightarrow> om_get (protected t) k))"
    using content_get t by (simp add: tiny_inv_def)
  have pa: "promotion_allowed H t f" for f
    using t by (simp add: promotion_allowed_def tiny_inv_def BASELINE_def Let_def)
  have sh: "shrinks t (let u = t\<lparr>misses := misses t + 1\<rparr> in
      if sw \<le> 0 \<and> misses u AND 0x1F = 0 then
        u\<lparr>window := sweep_front now (window u), probation := sweep_front now (probation u),
          protected := sweep_front now (protected u)\<rparr> else u)" (is "shrinks t ?u")
  proof (cases "sw \<le> 0 \<and> (misses t + 1) AND 0x1F = 0")
    case True
    then show ?thesis
      by (intro sweep_shrinks [OF t, where f = "sweep_front now" and n = "puts t" and m = "misses t + 1"])
        (simp_all add: sweep_front_pairs)
  next
    case False
    then show ?thesis
      by (intro sweep_shrinks [OF t, where f = id and n = "puts t" and m = "misses t + 1"]) auto
  qed
  show ?thesis
    using hit_store_shrinks [OF t, of H k] expired_store_shrinks [OF t, of sw k] sh
      promote_spec [OF t, of k _ H]
    by (auto simp: tiny_get_def c fresh_answer_def pa Let_def split: option.split)
qed

lemma tiny_peek_spec:
  assumes t: "tiny_inv t"
  shows "fst (tiny_peek k now t) = fresh_answer (tiny_content t k) now \<and> shrinks t (snd (tiny_peek k now t))"
proof -
  have c: "tiny_content t k = (case om_get (window t) k of Some e \<Rightarrow> Some e
      | None \<Rightarrow> (case om_get (probation t) k of Some e \<Rightarrow> Some e | None \<Rightarrow> om_get (protected t) k))"
    using content_get t by (simp add: tiny_inv_def)
  have k: "om_contains_key m k \<longleftrightarrow> om_get m k \<noteq> None" if "om_inv m" for m :: entry_map
    using that om_contains_abs by (simp add: om.lookup map_of_eq_None_iff)
  show ?thesis
    using remove_store_shrinks [OF t, of 0 k] remove_store_shrinks [OF t, of 1 k]
      remove_store_shrinks [OF t, of 2 k] shrinks_refl [OF t] tiny_invD(6-8) [OF t]
    by (auto simp: tiny_peek_def c fresh_answer_def k store_map_def Let_def split: option.split)
qed

lemma stale_loop_spec:
  assumes t: "tiny_inv t"
  shows "fst (stale_loop k now w [0, 1, 2] t) = stale_answer (tiny_content t k) now w
    \<and> shrinks t (snd (stale_loop k now w [0, 1, 2] t))"
proof -
  have c: "tiny_content t k = (case om_get (window t) k of Some e \<Rightarrow> Some e
      | None \<Rightarrow> (case om_get (probation t) k of Some e \<Rightarrow> Some e | None \<Rightarrow> om_get (protected t) k))"
    using content_get t by (simp add: tiny_inv_def)
  show ?thesis
    using remove_store_shrinks [OF t, of 0 k] remove_store_shrinks [OF t, of 1 k]
      remove_store_shrinks [OF t, of 2 k] move_store_shrinks [OF t, of 0 k]
      move_store_shrinks [OF t, of 1 k] move_store_shrinks [OF t, of 2 k] shrinks_refl [OF t]
    by (auto simp: c stale_answer_def store_map_def split: option.split)
qed

subsection \<open>Insertion\<close>

lemma filter_none: "k \<notin> fst ` set (om_abs m) \<Longrightarrow> filter_mset (\<lambda>x. fst x \<noteq> k) (pairs m) = pairs m"
  by (force simp: pairs_def filter_mset_eq_conv)

lemma tiny_store_spec:
  fixes k :: cache_key and e :: cache_entry
  assumes t: "tiny_inv t"
  defines "t1 \<equiv> tiny_store k e t"
  shows "tiny_wf t1" "tiny_pairs t1 = add_mset (k, e) (filter_mset (\<lambda>x. fst x \<noteq> k) (tiny_pairs t))"
    "caps_of t1 = caps_of t" "policy_of t1 = policy_of t" "sketch t1 = sketch t"
    "fits t1 \<or> om_abs (window t1) = al_del k (om_abs (window t)) @ [(k, e)]"
proof -
  note I = tiny_invD [OF t]
  have wf: "tiny_wf t" using t by (simp add: tiny_inv_def)
  have cont: "om_contains_key m k \<longleftrightarrow> k \<in> fst ` set (om_abs m)" if "om_inv m" for m :: entry_map
    by (rule om_contains_abs [OF that])
  have sz: "size (pairs (om_insert k e m)) \<le> size (pairs m)" if "om_inv m" "k \<in> fst ` set (om_abs m)" for m
  proof -
    obtain v where "map_of (om_abs m) k = Some v" using \<open>k \<in> fst ` set (om_abs m)\<close> by (metis map_of_eq_None_iff not_None_eq)
    then have "pairs m = add_mset (k, v) (filter_mset (\<lambda>x. fst x \<noteq> k) (pairs m))"
      using filter_other [OF om_distinct [OF that(1)]] by (simp add: pairs_def)
    then show ?thesis using pairs_insert [OF that(1), of k e] by (metis order_refl size_add_mset)
  qed
  note P = pairs_insert [OF I(6), of k e] pairs_insert [OF I(7), of k e] pairs_insert [OF I(8), of k e]
  consider (prot) "k \<in> fst ` set (om_abs (protected t))" "t1 = t\<lparr>protected := om_insert k e (protected t)\<rparr>"
    | (prob) "k \<in> fst ` set (om_abs (probation t))" "t1 = t\<lparr>probation := om_insert k e (probation t)\<rparr>"
    | (win) "k \<notin> fst ` set (om_abs (protected t))" "k \<notin> fst ` set (om_abs (probation t))"
        "t1 = t\<lparr>window := om_insert k e (window t)\<rparr>"
    unfolding t1_def tiny_store_def cont [OF I(7)] cont [OF I(8)] by meson
  then have A: "maps_inv t1 \<and> tiny_pairs t1 = add_mset (k, e) (filter_mset (\<lambda>x. fst x \<noteq> k) (tiny_pairs t))
    \<and> caps_of t1 = caps_of t \<and> policy_of t1 = policy_of t \<and> sketch t1 = sketch t
    \<and> (fits t1 \<or> om_abs (window t1) = al_del k (om_abs (window t)) @ [(k, e)])"
  proof cases
    case prot
    have "k \<notin> fst ` set (om_abs (window t))" "k \<notin> fst ` set (om_abs (probation t))"
      using wf prot(1) by (auto simp: tiny_wf_def tiny_alist_def)
    moreover have "fits t1" using I P sz [OF I(8) prot(1)] by (simp add: fits_def prot om_len_pairs)
    ultimately show ?thesis using I P by (simp add: prot maps_inv_def tiny_pairs_def filter_none)
  next
    case prob
    have "k \<notin> fst ` set (om_abs (window t))" "k \<notin> fst ` set (om_abs (protected t))"
      using wf prob(1) by (auto simp: tiny_wf_def tiny_alist_def)
    moreover have "fits t1" using I P sz [OF I(7) prob(1)] by (simp add: fits_def prob om_len_pairs)
    ultimately show ?thesis using I P by (simp add: prob maps_inv_def tiny_pairs_def filter_none)
  next
    case win
    then show ?thesis using I P by (simp add: maps_inv_def tiny_pairs_def filter_none om.insert)
  qed
  then show "tiny_pairs t1 = add_mset (k, e) (filter_mset (\<lambda>x. fst x \<noteq> k) (tiny_pairs t))"
    "caps_of t1 = caps_of t" "policy_of t1 = policy_of t" "sketch t1 = sketch t"
    "fits t1 \<or> om_abs (window t1) = al_del k (om_abs (window t)) @ [(k, e)]" by blast+
  have "distinct (map fst ((k, e) # al_del k (tiny_alist t)))"
    using wf distinct_al_del [of "tiny_alist t" k] by (auto simp: tiny_wf_def set_al_del)
  moreover have "mset (tiny_alist t1) \<subseteq># mset ((k, e) # al_del k (tiny_alist t))"
    using A by (simp add: mset_tiny_alist mset_al_del)
  ultimately have "distinct (map fst (tiny_alist t1))" by (rule distinct_fst_subset)
  then show "tiny_wf t1" using A by (simp add: tiny_wf_def)
qed

lemma in_dropWhile: "x \<in> set l \<Longrightarrow> \<not> p x \<Longrightarrow> x \<in> set (dropWhile p l)"
  by (induction l) auto

lemma purge_one_keeps:
  assumes "om_inv m" "x \<in># pairs m" "\<not> purgeable now sw (snd x)"
  shows "x \<in># pairs (purge_one now sw m)"
proof -
  obtain c m' where m: "om_pop_while (\<lambda>(_, e). purgeable now sw e) (om_len m) m = (c, m')" by fastforce
  have "om_abs m' = dropWhile (\<lambda>(_, e). purgeable now sw e) (om_abs m)" using om_pop_all [OF assms(1) m] by blast
  then show ?thesis
    using assms(2,3) by (simp add: pairs_def purge_one_def m in_dropWhile split_beta)
qed

text \<open>
  An insertion: the keys it reports as evicted are exactly those of the pairs that went, the new
  key is not among them, and after that only the sweep of every 32nd insertion takes anything.
\<close>

lemma tiny_put_spec:
  assumes t: "tiny_inv t" and p: "tiny_put H sw k e now t = (ks, t')"
  shows "tiny_inv t' \<and> caps_of t' = caps_of t
    \<and> (\<exists>R P. add_mset (k, e) (filter_mset (\<lambda>x. fst x \<noteq> k) (tiny_pairs t)) = tiny_pairs t' + P + R
        \<and> image_mset fst R = mset ks \<and> (k, e) \<notin># R \<and> (\<forall>x \<in># P. purgeable now sw (snd x)))"
proof -
  let ?t1 = "tiny_store k e t"
  let ?t2 = "?t1\<lparr>sketch := sketch_inc (H k) 1 (sketch ?t1)\<rparr>"
  note S = tiny_store_spec [OF t, of k e]
  obtain t3 where ev: "lfu_evict_locked H ?t2 = (ks, t3)"
    and t': "t' = (if puts t3 + 1 AND 0x1F = 0 then purge_expired_locked now sw (t3\<lparr>puts := puts t3 + 1\<rparr>)
      else t3\<lparr>puts := puts t3 + 1\<rparr>)"
    using p by (auto simp: tiny_put_def Let_def split: prod.splits)
  have pr2: "tiny_pairs ?t2 = add_mset (k, e) (filter_mset (\<lambda>x. fst x \<noteq> k) (tiny_pairs t))"
    using S(2) by (simp add: tiny_pairs_def)
  have wf2: "tiny_wf ?t2" using S(1) by (simp add: tiny_wf_def maps_inv_def tiny_alist_def)
  note E = evict_evicts [OF wf2 ev]
  then have c3: "caps_of t3 = caps_of t" "policy_of t3 = policy_of t" "sketch t3 = sketch ?t2" "tiny_wf t3"
    using S(3,4) by (simp_all add: evicts_def)
  have inv3: "tiny_inv (t3\<lparr>puts := n\<rparr>)" for n
    using c3 E t S(5) inc_ok [of "sketch t"]
    by (simp add: tiny_inv_def fits_def tiny_wf_def maps_inv_def tiny_alist_def)
  have in3: "(k, e) \<in># tiny_pairs t3"
  proof (cases "fits ?t2")
    case True
    have "t3 = ?t2" using evict_fits [OF True] wf2 ev by (simp add: tiny_wf_def maps_inv_def)
    then show ?thesis by (simp add: pr2)
  next
    case False
    then have "om_abs (window ?t2) = al_del k (om_abs (window t)) @ [(k, e)]"
      using S(6) by (auto simp: fits_def)
    moreover have "1 \<le> cap_win (caps_of ?t2)" using t S(3) by (simp add: tiny_inv_def)
    ultimately have "(k, e) \<in> set (om_abs (window t3))" using E by auto
    then show ?thesis by (simp add: tiny_pairs_def pairs_def)
  qed
  obtain R where R: "tiny_pairs ?t2 = tiny_pairs t3 + R" "image_mset fst R = mset ks"
    using E by (auto simp: evicts_def)
  have nR: "(k, e) \<notin># R"
  proof
    assume "(k, e) \<in># R"
    then have "count (tiny_pairs ?t2) (k, e) \<ge> 2" using in3 R(1)
      by (simp add: numeral_2_eq_2 flip: count_greater_zero_iff)
    moreover have "count (filter_mset (\<lambda>x. fst x \<noteq> k) (tiny_pairs t)) (k, e) = 0" by simp
    ultimately show False by (simp add: pr2)
  qed
  have P: "\<exists>P. tiny_pairs t3 = tiny_pairs t' + P \<and> (\<forall>x \<in># P. purgeable now sw (snd x))
    \<and> tiny_inv t' \<and> caps_of t' = caps_of t"
  proof (cases "puts t3 + 1 AND 0x1F = 0")
    case False
    then show ?thesis using inv3 c3 by (auto simp: t' tiny_pairs_def)
  next
    case True
    let ?t4 = "t3\<lparr>puts := puts t3 + 1\<rparr>" and ?f = "purge_one now sw"
    have t'e: "t' = ?t4\<lparr>window := ?f (window ?t4), probation := ?f (probation ?t4), protected := ?f (protected ?t4),
        puts := puts t3 + 1, misses := misses t3\<rparr>"
      using True by (simp add: t' purge_expired_locked_def)
    have sh: "shrinks ?t4 t'" by (rule sweep_shrinks [OF inv3 _ t'e]) (rule purge_one_pairs)
    then obtain P where "tiny_pairs t3 = tiny_pairs t' + P"
      by (auto simp: shrinks_def tiny_pairs_def subset_mset.le_iff_add)
    moreover have "x \<in># P \<Longrightarrow> purgeable now sw (snd x)" for x
    proof (rule ccontr)
      assume x: "x \<in># P" "\<not> purgeable now sw (snd x)"
      then have "x \<in># tiny_pairs t3" using calculation by simp
      then have "x \<in># tiny_pairs t'"
        using x(2) tiny_invD(6-8) [OF inv3] purge_one_keeps [OF _ _ x(2)] by (auto simp: t'e tiny_pairs_def)
      then have "count (tiny_pairs t3) x \<ge> 2" using x(1) calculation
        by (simp add: numeral_2_eq_2 flip: count_greater_zero_iff)
      moreover have "count (tiny_pairs t3) x \<le> 1"
      proof -
        have "distinct (tiny_alist t3)" using c3(4) by (simp add: tiny_wf_def distinct_map)
        then show ?thesis by (cases x) (auto simp: distinct_count_atmost_1 simp flip: mset_tiny_alist)
      qed
      ultimately show False by simp
    qed
    ultimately show ?thesis using sh c3 by (auto simp: shrinks_def)
  qed
  then obtain P where "tiny_pairs t3 = tiny_pairs t' + P" "\<forall>x \<in># P. purgeable now sw (snd x)"
    "tiny_inv t'" "caps_of t' = caps_of t" by blast
  then show ?thesis using R nR pr2 by (metis (no_types, lifting))
qed

subsection \<open>The contract\<close>

definition lfu_inv :: "tinylfu \<Rightarrow> bool" where
  "lfu_inv s \<longleftrightarrow> tiny_inv (t_inner s) \<and> 16 \<le> t_total_cap s \<and> caps_of (t_inner s) = compute_ratio (t_total_cap s) 1 40"

definition lfu_content :: "tinylfu \<Rightarrow> store" where
  "lfu_content s = tiny_content (t_inner s)"

lemma lfu_step:
  assumes "lfu_inv s" "shrinks (t_inner s) (t_inner s')" "t_total_cap s' = t_total_cap s"
  shows "lfu_inv s' \<and> sub_store (lfu_content s') (lfu_content s)"
  using assms shrinks_content by (auto simp: lfu_inv_def shrinks_def lfu_content_def)

lemma lfu_get_spec:
  assumes "lfu_inv s"
  shows "lfu_inv (snd (lfu_get H k now s)) \<and> fst (lfu_get H k now s) = fresh_answer (lfu_content s k) now
    \<and> sub_store (lfu_content (snd (lfu_get H k now s))) (lfu_content s)"
  using lfu_step [OF assms, of "snd (lfu_get H k now s)"] assms tiny_get_spec [of "t_inner s" H "stale_f64 s" k now]
  by (simp add: lfu_get_def lfu_inv_def lfu_content_def split_beta)

lemma lfu_peek_spec:
  assumes "lfu_inv s"
  shows "lfu_inv (snd (lfu_peek k now s)) \<and> fst (lfu_peek k now s) = fresh_answer (lfu_content s k) now
    \<and> sub_store (lfu_content (snd (lfu_peek k now s))) (lfu_content s)"
  using lfu_step [OF assms, of "snd (lfu_peek k now s)"] assms tiny_peek_spec [of "t_inner s" k now]
  by (simp add: lfu_peek_def lfu_inv_def lfu_content_def split_beta)

lemma lfu_get_stale_spec:
  assumes "lfu_inv s"
  shows "lfu_inv (snd (lfu_get_stale k now w s)) \<and> fst (lfu_get_stale k now w s) = stale_answer (lfu_content s k) now w
    \<and> sub_store (lfu_content (snd (lfu_get_stale k now w s))) (lfu_content s)"
proof -
  obtain r t' where l: "stale_loop k now w [0, 1, 2] (t_inner s) = (r, t')" by fastforce
  then have "lfu_get_stale k now w s = (r, s\<lparr>t_inner := t'\<rparr>)" by (simp only: lfu_get_stale_def Let_def prod.case)
  moreover have "r = stale_answer (tiny_content (t_inner s) k) now w" "shrinks (t_inner s) t'"
    using stale_loop_spec [of "t_inner s" k now w] assms by (simp_all only: l lfu_inv_def fst_conv snd_conv simp_thms)
  ultimately show ?thesis
    using lfu_step [OF assms, of "s\<lparr>t_inner := t'\<rparr>"] by (simp add: lfu_content_def)
qed

definition lfu_stamped :: "tinylfu \<Rightarrow> cache_entry \<Rightarrow> cache_entry" where
  "lfu_stamped s e = (case t_journal s of Some j \<Rightarrow> e\<lparr>ce_seq := fst (next_seq j)\<rparr> | None \<Rightarrow> e)"

lemma lfu_stamped_eq [simp]: "cache_entry_eq (lfu_stamped s e) e" "ce_expires_at (lfu_stamped s e) = ce_expires_at e"
  by (simp_all add: lfu_stamped_def split: option.split)

lemma lfu_put_inner:
  "t_inner (lfu_put H k e now s) = snd (tiny_put H (stale_f64 s) k (lfu_stamped s e) now (t_inner s))"
  "t_total_cap (lfu_put H k e now s) = t_total_cap s"
  by (auto simp: lfu_put_def lfu_stamped_def Let_def split: prod.splits option.splits)

lemma lfu_put_spec:
  assumes "lfu_inv s"
  shows "lfu_inv (lfu_put H k e now s)
    \<and> sub_store (lfu_content (lfu_put H k e now s)) ((lfu_content s)(k \<mapsto> e))
    \<and> (now < ce_expires_at e \<longrightarrow> lfu_content (lfu_put H k e now s) k = Some (lfu_stamped s e))"
proof -
  let ?e = "lfu_stamped s e" and ?t = "t_inner s"
  obtain ks t' where p: "tiny_put H (stale_f64 s) k ?e now ?t = (ks, t')" by fastforce
  have t: "tiny_inv ?t" using assms by (simp add: lfu_inv_def)
  obtain R P where S: "tiny_inv t'" "caps_of t' = caps_of ?t"
    "add_mset (k, ?e) (filter_mset (\<lambda>x. fst x \<noteq> k) (tiny_pairs ?t)) = tiny_pairs t' + P + R"
    "(k, ?e) \<notin># R" "\<And>x. x \<in># P \<Longrightarrow> purgeable now (stale_f64 s) (snd x)"
    using tiny_put_spec [OF t p] by metis
  have wf: "tiny_wf ?t" "tiny_wf t'" using t S(1) by (simp_all add: tiny_inv_def)
  have sub: "x \<in># tiny_pairs t' \<Longrightarrow> x = (k, ?e) \<or> fst x \<noteq> k \<and> x \<in># tiny_pairs ?t" for x
  proof -
    assume "x \<in># tiny_pairs t'"
    then have "x \<in># tiny_pairs t' + P + R" by simp
    then have "x \<in># add_mset (k, ?e) (filter_mset (\<lambda>x. fst x \<noteq> k) (tiny_pairs ?t))" unfolding S(3) .
    then show ?thesis by auto
  qed
  have "sub_store (tiny_content t') ((tiny_content ?t)(k \<mapsto> e))"
    unfolding sub_store_def
  proof (intro allI impI)
    fix k' x assume "tiny_content t' k' = Some x"
    then have "(k', x) \<in># tiny_pairs t'" by (simp add: content_in [OF wf(2)])
    from sub [OF this] show "\<exists>e'. ((tiny_content ?t)(k \<mapsto> e)) k' = Some e' \<and> cache_entry_eq x e'"
      using content_in [OF wf(1), of k' x] by auto
  qed
  moreover have "tiny_content t' k = Some ?e" if "now < ce_expires_at e"
  proof -
    have "(k, ?e) \<notin># P" using S(5) [of "(k, ?e)"] that by (auto simp: purgeable_def Let_def)
    moreover have "(k, ?e) \<in># tiny_pairs t' + P + R" by (simp flip: S(3))
    ultimately have "(k, ?e) \<in># tiny_pairs t'" using S(4) by simp
    then show ?thesis by (simp add: content_in [OF wf(2)])
  qed
  ultimately show ?thesis using S(1,2) assms by (simp add: lfu_inv_def lfu_content_def lfu_put_inner p)
qed

lemma lfu_delete_spec:
  assumes "lfu_inv s"
  shows "lfu_inv (lfu_delete k s) \<and> lfu_content (lfu_delete k s) = (lfu_content s)(k := None)"
proof -
  let ?t = "t_inner s" and ?t' = "t_inner (lfu_delete k s)"
  have t: "tiny_inv ?t" using assms by (simp add: lfu_inv_def)
  note I = tiny_invD [OF t]
  note R = pairs_remove [OF I(6), of k] pairs_remove [OF I(7), of k] pairs_remove [OF I(8), of k]
  have pr: "tiny_pairs ?t' = filter_mset (\<lambda>x. fst x \<noteq> k) (tiny_pairs ?t)"
    using R by (simp add: lfu_delete_def Let_def tiny_pairs_def)
  have sz: "size (filter_mset p M) \<le> size M" for p and M :: "(cache_key \<times> cache_entry) multiset"
    by (rule size_mset_mono) simp
  have sh: "shrinks ?t ?t'"
    by (rule shrinksI [OF t])
      (use R I pr sz order_trans [OF sz] in \<open>simp_all add: lfu_delete_def Let_def maps_inv_def\<close>)
  have wf: "tiny_wf ?t" "tiny_wf ?t'" using t sh by (simp_all add: tiny_inv_def shrinks_def)
  have "tiny_content ?t' k' = Some e \<longleftrightarrow> ((tiny_content ?t)(k := None)) k' = Some e" for k' e
    using content_in [OF wf(1), of k' e] content_in [OF wf(2), of k' e] by (auto simp: pr)
  then have "tiny_content ?t' = (tiny_content ?t)(k := None)" by (intro ext) (metis option.exhaust)
  moreover have "t_total_cap (lfu_delete k s) = t_total_cap s" by (simp add: lfu_delete_def Let_def)
  ultimately show ?thesis using lfu_step [OF assms sh] by (simp add: lfu_content_def)
qed

lemma tiny_clear_spec:
  assumes "tiny_inv t"
  shows "tiny_inv (tiny_clear t) \<and> tiny_pairs (tiny_clear t) = {#} \<and> caps_of (tiny_clear t) = caps_of t"
proof -
  have c: "om_inv (om_clear m)" "om_abs (om_clear m) = []" "om_len (om_clear m) = 0" for m :: entry_map
    using om_clear_abs [of m] by (simp_all add: om_clear_def)
  then show ?thesis using assms
    by (simp add: tiny_inv_def tiny_clear_def tiny_wf_def maps_inv_def tiny_alist_def fits_def tiny_pairs_def
        pairs_def sketch_new_ok)
qed

lemma no_pairs_content: "tiny_pairs t = {#} \<Longrightarrow> tiny_content t = (\<lambda>_. None)"
  by (simp add: tiny_content_def flip: mset_tiny_alist)

lemma lfu_clear_spec:
  assumes "lfu_inv s"
  shows "lfu_inv (lfu_clear s) \<and> lfu_content (lfu_clear s) = (\<lambda>_. None)"
  using assms tiny_clear_spec [of "t_inner s"] no_pairs_content
  by (simp add: lfu_inv_def lfu_clear_def lfu_content_def)

lemma lfu_set_capacity_spec:
  assumes "lfu_inv s"
  shows "lfu_inv (lfu_set_capacity H c s) \<and> sub_store (lfu_content (lfu_set_capacity H c s)) (lfu_content s)"
proof -
  let ?n = "clamp_capacity (Some c)" and ?t = "t_inner s"
  let ?t1 = "?t\<lparr>caps_of := compute_ratio ?n 1 40\<rparr>"
  have t: "tiny_wf ?t" "sketch_ok (sketch ?t)" "policy_of ?t = BASELINE" using assms by (simp_all add: lfu_inv_def tiny_inv_def)
  have wf1: "tiny_wf ?t1" using t by (simp add: tiny_wf_def maps_inv_def tiny_alist_def)
  obtain ks t' where ev: "lfu_evict_locked H ?t1 = (ks, t')" by fastforce
  note E = evict_evicts [OF wf1 ev]
  have s': "t_inner (lfu_set_capacity H c s) = t'" "t_total_cap (lfu_set_capacity H c s) = ?n"
    using t(3) ev by (simp_all add: lfu_set_capacity_def BASELINE_def Let_def)
  have "tiny_inv t'" using E t baseline_caps [of ?n] by (auto simp: tiny_inv_def evicts_def)
  moreover have "sub_store (tiny_content t') (tiny_content ?t)"
  proof -
    have "tiny_pairs ?t1 = tiny_pairs ?t" by (simp add: tiny_pairs_def)
    then have "tiny_pairs t' \<subseteq># tiny_pairs ?t" using E by (auto simp: evicts_def subset_mset.le_iff_add)
    moreover have "maps_inv t'" using E by (simp add: evicts_def tiny_wf_def)
    ultimately show ?thesis using content_subset [OF t(1)] by (auto simp: sub_store_def)
  qed
  ultimately show ?thesis using E by (auto simp: lfu_inv_def lfu_content_def s' evicts_def)
qed

lemma lfu_len_size: "lfu_inv s \<Longrightarrow> lfu_len s = size (tiny_pairs (t_inner s))"
  using tiny_invD(6-8) [of "t_inner s"] by (simp add: lfu_inv_def lfu_len_def Let_def om_len_pairs tiny_pairs_def)

lemma lfu_len_bound: "lfu_inv s \<Longrightarrow> lfu_len s \<le> t_total_cap s"
  using baseline_caps [of "t_total_cap s"]
  by (auto simp: lfu_inv_def lfu_len_def Let_def tiny_inv_def fits_def)

lemma lfu_new_spec: "lfu_inv (lfu_new c) \<and> lfu_content (lfu_new c) = (\<lambda>_. None)"
proof -
  have "om_inv (om_new :: entry_map)" "om_abs (om_new :: entry_map) = []" "om_len (om_new :: entry_map) = 0"
    using om_new_abs by (auto simp: om_new_def)
  then show ?thesis using baseline_caps [of "clamp_capacity (Some c)"]
    by (simp add: lfu_inv_def lfu_new_def lfu_with_policy_def Let_def tiny_inv_def tiny_wf_def maps_inv_def
        tiny_alist_def fits_def lfu_content_def tiny_content_def sketch_new_ok BASELINE_def)
qed

lemma lfu_inv_stale [simp]: "lfu_inv (lfu_set_stale_window w s) = lfu_inv s"
  "lfu_content (lfu_set_stale_window w s) = lfu_content s"
  by (simp_all add: lfu_inv_def lfu_set_stale_window_def lfu_content_def)

interpretation lfu: dns_cache "lfu_ops H" lfu_inv lfu_content t_total_cap
  for H :: hasher
proof unfold_locales
  fix s :: tinylfu and c k now w e n sw
  assume i: "lfu_inv s"
  note D = lfu_ops_def lfu_get_spec [OF i] lfu_get_stale_spec [OF i] lfu_peek_spec [OF i] lfu_put_spec [OF i]
    lfu_delete_spec [OF i] lfu_clear_spec [OF i] lfu_set_capacity_spec [OF i] lfu_len_bound [OF i] i
  show "lfu_inv (cache_step (lfu_ops H) c s)" by (cases c) (simp_all add: D)
  show "fst (op_get (lfu_ops H) k now s) = fresh_answer (lfu_content s k) now
      \<and> sub_store (lfu_content (snd (op_get (lfu_ops H) k now s))) (lfu_content s)" by (simp add: D)
  show "fst (op_get_stale (lfu_ops H) k now w s) = stale_answer (lfu_content s k) now w
      \<and> sub_store (lfu_content (snd (op_get_stale (lfu_ops H) k now w s))) (lfu_content s)" by (simp add: D)
  show "fst (op_peek (lfu_ops H) k now s) = fresh_answer (lfu_content s k) now
      \<and> sub_store (lfu_content (snd (op_peek (lfu_ops H) k now s))) (lfu_content s)" by (simp add: D)
  show "sub_store (lfu_content (op_put (lfu_ops H) k e now s)) ((lfu_content s)(k \<mapsto> e))" by (simp add: D)
  show "\<exists>e'. lfu_content (op_put (lfu_ops H) k e now s) k = Some e' \<and> cache_entry_eq e' e"
    if "now < ce_expires_at e" using that by (simp add: D)
  show "lfu_content (op_delete (lfu_ops H) k s) = (lfu_content s)(k := None)" by (simp add: D)
  show "lfu_content (op_clear (lfu_ops H) s) = (\<lambda>_. None)" by (simp add: D)
  show "sub_store (lfu_content (op_set_capacity (lfu_ops H) n s)) (lfu_content s)" by (simp add: D)
  show "lfu_content (op_set_stale_window (lfu_ops H) sw s) = lfu_content s" by (simp add: D)
  show "op_len (lfu_ops H) s \<le> t_total_cap s" by (simp add: D)
qed

end
