(* ===== verification/Tinylfu_History.thy ===== *)
theory Tinylfu_History
  imports Tinylfu_Props
begin

text \<open>
  What the W-TinyLFU cache promises over any history of calls on a fresh cache: its answers and
  its bound, the keys an insertion reports as evicted, the admission rule, and what
  \<open>restore_records\<close> keeps.
\<close>

definition lfu_run :: "hasher \<Rightarrow> cache_call list \<Rightarrow> tinylfu \<Rightarrow> tinylfu" where
  "lfu_run H cs s = fold (cache_step (lfu_ops H)) cs s"

lemma lfu_run_inv: "lfu_inv (lfu_run H cs (lfu_new c))"
  unfolding lfu_run_def using lfu_new_spec lfu.inv_run by blast

text \<open>
  C10: Over any history of calls on a fresh W-TinyLFU cache, \<open>get\<close> answers only with the entry
  last stored under the key and only before its expiry; \<open>get_stale\<close> answers only with that entry,
  expired, within the window; the number of entries never exceeds the capacity; and an entry is
  served right after it is stored, until it expires: it is never the victim of its own insertion.
\<close>

theorem lfu_history:
  "let s = lfu_run H cs (lfu_new c); stored = fold store_step cs (\<lambda>_. None) in
     lfu_len s \<le> t_total_cap s
     \<and> (case fst (lfu_get H k now s) of
           None \<Rightarrow> True
         | Some e \<Rightarrow> now < ce_expires_at e \<and> (\<exists>e'. stored k = Some e' \<and> cache_entry_eq e e'))
     \<and> (case fst (lfu_get_stale k now w s) of
           None \<Rightarrow> True
         | Some e \<Rightarrow> ce_expires_at e \<le> now \<and> now - ce_expires_at e \<le> w
             \<and> (\<exists>e'. stored k = Some e' \<and> cache_entry_eq e e'))
     \<and> (if t0 < ce_expires_at new \<and> now < ce_expires_at new then
          \<exists>e'. fst (lfu_get H k now (lfu_put H k new t0 s)) = Some e' \<and> cache_entry_eq e' new
        else True)"
proof -
  let ?s0 = "lfu_new c"
  have i: "lfu_inv ?s0" and e: "sub_store (lfu_content ?s0) (\<lambda>_. None)"
    using lfu_new_spec [of c] by simp_all
  show ?thesis
    unfolding Let_def lfu_run_def
    using lfu.run_len [OF i, where cs = cs and H = H]
      lfu.get_sound [OF i e, where cs = cs and k = k and now = now and H = H]
      lfu.get_stale_sound [OF i e, where cs = cs and k = k and now = now and w = w and H = H]
      lfu.put_get [OF lfu.inv_run [OF i], where cs1 = cs and H = H and H1 = H and k = k and now = t0 and now' = now and e = new]
    by (simp add: lfu_ops_def split: option.split)
qed

subsection \<open>Evicted keys\<close>

lemma map_of_perm:
  assumes "distinct (map fst l)" "mset l = mset l'"
  shows "distinct (map fst l') \<and> map_of l' = map_of l"
proof -
  have d: "distinct (map fst l')" by (rule distinct_fst_subset [OF assms(1)]) (simp add: assms(2))
  have "set l' = set l" using assms(2) by (metis set_mset_mset)
  then show ?thesis using d assms(1) by (simp add: map_of_inject_set)
qed

lemma tiny_put_drops:
  assumes t: "tiny_inv t" and p: "tiny_put H sw k e now t = (ks, t')"
  shows "distinct ks \<and> k \<notin> set ks
    \<and> (\<forall>k'. if k' \<in> set ks then ((tiny_content t)(k \<mapsto> e)) k' \<noteq> None \<and> tiny_content t' k' = None
            else tiny_content t' k' = ((tiny_content t)(k \<mapsto> e)) k'
              \<or> tiny_content t' k' = None \<and> (\<exists>x. ((tiny_content t)(k \<mapsto> e)) k' = Some x \<and> purgeable now sw x))"
proof -
  obtain R P where S: "tiny_inv t'"
    "add_mset (k, e) (filter_mset (\<lambda>x. fst x \<noteq> k) (tiny_pairs t)) = tiny_pairs t' + P + R"
    "image_mset fst R = mset ks" "(k, e) \<notin># R" "\<forall>x \<in># P. purgeable now sw (snd x)"
    using tiny_put_spec [OF t p] by blast
  obtain lP lR where l: "mset lP = P" "mset lR = R" by (metis ex_mset)
  let ?l = "(k, e) # al_del k (tiny_alist t)" and ?l' = "lR @ tiny_alist t' @ lP"
  have d: "distinct (map fst ?l)"
    using t distinct_al_del [of "tiny_alist t" k] by (auto simp: tiny_inv_def tiny_wf_def set_al_del)
  have "mset ?l = mset ?l'" using S(2) l by (simp add: mset_al_del mset_tiny_alist ac_simps)
  note D = map_of_perm [OF d this]
  have m: "(tiny_content t)(k \<mapsto> e) = map_of ?l'"
    using D by (auto simp: tiny_content_def map_of_al_del fun_eq_iff)
  have ks: "mset ks = mset (map fst lR)" using S(3) l(2) by (metis mset_map)
  then have dks: "distinct ks" "set ks = fst ` set lR"
    using D mset_eq_imp_distinct_iff [OF ks] mset_eq_setD [OF ks] by simp_all
  have kR: "k \<notin> set ks"
  proof
    assume "k \<in> set ks"
    then obtain x where x: "(k, x) \<in> set lR" using dks(2) by auto
    then have "map_of ?l' k = Some x" using D by (intro map_of_is_SomeI) auto
    then have "x = e" using D by simp
    then show False using x S(4) l(2) by (metis set_mset_mset)
  qed
  have "if k' \<in> set ks then map_of ?l' k' \<noteq> None \<and> tiny_content t' k' = None
    else tiny_content t' k' = map_of ?l' k'
      \<or> tiny_content t' k' = None \<and> (\<exists>x. map_of ?l' k' = Some x \<and> purgeable now sw x)" for k'
  proof (cases "k' \<in> set ks")
    case True
    then have "k' \<notin> fst ` set (tiny_alist t')" using D dks(2) by auto
    then show ?thesis using True dks(2)
      by (simp add: tiny_content_def map_of_eq_None_iff map_add_def split: option.split)
  next
    case False
    then have n: "map_of lR k' = None" using dks(2) by (simp add: map_of_eq_None_iff)
    show ?thesis
    proof (cases "map_of lP k'")
      case None
      then show ?thesis using n False by (auto simp: tiny_content_def map_add_def split: option.split)
    next
      case (Some x)
      then have i: "(k', x) \<in> set lP" by (rule map_of_SomeD)
      then have "k' \<notin> fst ` set (tiny_alist t')" using D by force
      then have "map_of (tiny_alist t') k' = None" by (simp add: map_of_eq_None_iff)
      moreover have "purgeable now sw x" using S(5) i l(1) by fastforce
      ultimately show ?thesis using Some n False by (auto simp: map_add_def tiny_content_def)
    qed
  qed
  then show ?thesis unfolding m using dks(1) kR by blast
qed

text \<open>
  In every reachable state an insertion reports as evicted exactly the keys it drops: they are
  distinct, were stored, are gone, and are not the inserted key; every other key keeps its
  entry, except for entries the periodic sweep removes, which have expired outside the window.
\<close>

theorem lfu_put_evicted:
  "let t = t_inner (lfu_run H cs (lfu_new c)); m = (tiny_content t)(k \<mapsto> e);
       (ks, t') = tiny_put H sw k e now t in
     distinct ks \<and> k \<notin> set ks
     \<and> (\<forall>k'. if k' \<in> set ks then m k' \<noteq> None \<and> tiny_content t' k' = None
             else tiny_content t' k' = m k'
               \<or> tiny_content t' k' = None \<and> (\<exists>x. m k' = Some x \<and> ce_expires_at x \<le> now
                   \<and> \<not> (sw > 0 \<and> now - ce_expires_at x \<le> sw)))"
proof -
  define t where "t = t_inner (lfu_run H cs (lfu_new c))"
  have t: "tiny_inv t" using lfu_run_inv unfolding t_def lfu_inv_def by blast
  obtain ks t' where p: "tiny_put H sw k e now t = (ks, t')" by fastforce
  show ?thesis
    using tiny_put_drops [OF t p] unfolding Let_def t_def [symmetric] p prod.case purgeable_def [unfolded Let_def] by blast
qed

subsection \<open>Admission\<close>

text \<open>A window one over its bound gives one pair to \<open>admit\<close>; full segments stay as they are.\<close>

lemma evict_one:
  assumes i: "om_inv (window t)" "om_inv (probation t)" "om_inv (protected t)"
    and w: "om_len (window t) = cap_win (caps_of t) + 1" "om_abs (window t) = (wk, wv) # ws"
    and p: "om_len (probation t) = cap_prob (caps_of t)" "om_abs (probation t) = (mk, mv) # ps"
    and q: "om_len (protected t) = cap_prot (caps_of t)"
    and m: "cap_main (caps_of t) = cap_prob (caps_of t) + cap_prot (caps_of t)"
    and fr: "wk \<notin> fst ` set (om_abs (probation t))"
  shows "fst (lfu_evict_locked H t) =
    (if sketch_freq (H mk) (sketch t) < sketch_freq (H wk) (sketch t) then [mk] else [wk])"
proof -
  obtain w' where pw: "om_pop_front (window t) = (Some (wk, wv), w')" "om_inv w'" "om_abs w' = ws"
    using om_pop_front_abs [OF i(1)] w(2) by (cases "om_pop_front (window t)") auto
  obtain p' where pp: "om_pop_front (probation t) = (Some (mk, mv), p')" "om_inv p'" "om_abs p' = ps"
    using om_pop_front_abs [OF i(2)] p(2) by (cases "om_pop_front (probation t)") auto
  have lw: "om_len w' = cap_win (caps_of t)" using w om_len_abs [OF i(1)] om_len_abs [OF pw(2)] pw(3) by simp
  have f: "om_front (probation t) = Some (mk, mv)" using om_front_abs [OF i(2)] p(2) by simp
  let ?p = "om_insert wk wv p'" and ?t = "t\<lparr>window := w'\<rparr>"
  have "wk \<notin> fst ` set (om_abs p')" using fr p(2) pp(3) by simp
  then have J: "om_inv ?p" "length (om_abs ?p) = length ps + 1"
    using om.insert [OF pp(2), of wk wv] pp(3) al_del_id [of wk ps] by simp_all
  have lp: "om_len ?p = cap_prob (caps_of t)"
    using om_len_abs [OF J(1)] J(2) p om_len_abs [OF i(2)] by simp
  have a: "admit H wk wv ?t =
    (if sketch_freq (H mk) (sketch t) < sketch_freq (H wk) (sketch t) then ([mk], ?t\<lparr>probation := ?p\<rparr>) else ([wk], ?t))"
    using p(1) q m by (simp add: admit_def f pp(1))
  have l: "window_loop H t = (let (ks, t') = admit H wk wv ?t in (ks, t'))"
    using w(1) lw by (simp add: window_loop.simps [of H t] pw(1) a window_loop.simps [of H "?t\<lparr>probation := ?p\<rparr>"]
        window_loop.simps [of H ?t])
  show ?thesis
    using lp p(1) q by (simp add: lfu_evict_locked_def l a demote_loop.simps [of "?t\<lparr>probation := ?p\<rparr>"]
        demote_loop.simps [of ?t] om_shrink.simps)
qed

text \<open>
  C11: The admission rule, in every reachable state: when all three segments are full, a new key
  pushes the oldest key out of the window (itself counted), and that key takes the place of the
  front of probation exactly if the sketch has counted it strictly more often; otherwise it is
  the one evicted.
\<close>

theorem lfu_admission:
  "let t = t_inner (lfu_run H cs (lfu_new c)); cp = caps_of t; sk = sketch_inc (H k) 1 (sketch t);
       wk = fst (hd (om_abs (window t) @ [(k, e)])); mk = fst (hd (om_abs (probation t))) in
     if tiny_content t k = None \<and> om_len (window t) = cap_win cp
        \<and> om_len (probation t) = cap_prob cp \<and> om_len (protected t) = cap_prot cp
     then fst (tiny_put H sw k e now t) = (if sketch_freq (H mk) sk < sketch_freq (H wk) sk then [mk] else [wk])
     else True"
proof -
  define t where "t = t_inner (lfu_run H cs (lfu_new c))"
  have s: "lfu_inv (lfu_run H cs (lfu_new c))" by (rule lfu_run_inv)
  then have t: "tiny_inv t" and main: "cap_main (caps_of t) = cap_prob (caps_of t) + cap_prot (caps_of t)"
      "1 \<le> cap_prob (caps_of t)"
    using baseline_caps [of "t_total_cap (lfu_run H cs (lfu_new c))"] unfolding t_def lfu_inv_def by auto
  note I = tiny_invD [OF t]
  have wf: "tiny_wf t" using t by (simp add: tiny_inv_def)
  let ?sk = "sketch_inc (H k) 1 (sketch t)" and ?wk = "fst (hd (om_abs (window t) @ [(k, e)]))"
    and ?mk = "fst (hd (om_abs (probation t)))"
  have "fst (tiny_put H sw k e now t) = (if sketch_freq (H ?mk) ?sk < sketch_freq (H ?wk) ?sk then [?mk] else [?wk])"
    if none: "tiny_content t k = None" and full: "om_len (window t) = cap_win (caps_of t)"
      "om_len (probation t) = cap_prob (caps_of t)" "om_len (protected t) = cap_prot (caps_of t)"
  proof -
    let ?t1 = "t\<lparr>window := om_insert k e (window t)\<rparr>"
    let ?t2 = "?t1\<lparr>sketch := ?sk\<rparr>"
    have nk: "k \<notin> fst ` set (om_abs (window t))" "k \<notin> fst ` set (om_abs (probation t))"
      "k \<notin> fst ` set (om_abs (protected t))"
      using none by (auto simp: tiny_content_def tiny_alist_def map_of_eq_None_iff)
    have st: "tiny_store k e t = ?t1"
      using nk om_contains_abs [OF I(7)] om_contains_abs [OF I(8)] by (simp add: tiny_store_def)
    have win: "om_inv (om_insert k e (window t))" "om_abs (om_insert k e (window t)) = om_abs (window t) @ [(k, e)]"
      using om.insert [OF I(6), of k e] al_del_id [OF nk(1)] by simp_all
    obtain wk wv ws where w: "om_abs (window t) @ [(k, e)] = (wk, wv) # ws"
      by (metis append_is_Nil_conv list.exhaust not_Cons_self2 surj_pair)
    obtain mk mv ps where p: "om_abs (probation t) = (mk, mv) # ps"
      using full(2) main(2) om_len_abs [OF I(7)] by (cases "om_abs (probation t)") auto
    have fr: "wk \<notin> fst ` set (om_abs (probation t))"
      using wf nk w by (cases "om_abs (window t)") (auto simp: tiny_wf_def tiny_alist_def image_iff)
    have "length ws = om_len (window t)" using arg_cong [OF w, of length] om_len_abs [OF I(6)] by simp
    then have len: "om_len (om_insert k e (window t)) = cap_win (caps_of t) + 1"
      using om_len_abs [OF win(1)] win(2) w full(1) by simp
    have "fst (lfu_evict_locked H ?t2) =
      (if sketch_freq (H mk) (sketch ?t2) < sketch_freq (H wk) (sketch ?t2) then [mk] else [wk])"
      by (rule evict_one [where wv = wv and ws = ws and mv = mv and ps = ps])
        (use win w p full fr main I len in simp_all)
    then show ?thesis
      using w p by (simp add: tiny_put_def st Let_def split_beta)
  qed
  then show ?thesis unfolding Let_def t_def [symmetric] by simp
qed

subsection \<open>Restoring\<close>

lemma insert_all:
  "om_inv m \<Longrightarrow> distinct (map fst l) \<Longrightarrow> fst ` set l \<inter> fst ` set (om_abs m) = {} \<Longrightarrow>
     om_inv (fold (\<lambda>(k, e, r) m. om_insert k e m) (map (\<lambda>(k, e). (k, e, f (k, e))) l) m)
     \<and> om_abs (fold (\<lambda>(k, e, r) m. om_insert k e m) (map (\<lambda>(k, e). (k, e, f (k, e))) l) m) = om_abs m @ l"
proof (induction l arbitrary: m)
  case Nil
  then show ?case by simp
next
  case (Cons x l)
  obtain k e where x: "x = (k, e)" by fastforce
  have "k \<notin> fst ` set (om_abs m)" using Cons.prems(3) by (auto simp: x)
  then have J: "om_inv (om_insert k e m)" "om_abs (om_insert k e m) = om_abs m @ [(k, e)]"
    using om.insert [OF Cons.prems(1), of k e] al_del_id by auto
  have "k \<notin> fst ` set l" using Cons.prems(2) by (auto simp: x)
  then show ?case using Cons.IH [OF J(1)] Cons.prems(2,3) by (auto simp: x J(2))
qed

text \<open>Up to \<open>main\<close> pairs in protected alone fit after one eviction, which drops none of them.\<close>

lemma evict_main:
  assumes t: "tiny_wf t" and w: "om_abs (window t) = []" and p: "om_abs (probation t) = []"
    and q: "length (om_abs (protected t)) \<le> cap_prob (caps_of t) + cap_prot (caps_of t)"
    and e: "lfu_evict_locked H t = (ks, t')"
  shows "tiny_wf t' \<and> fits t' \<and> caps_of t' = caps_of t \<and> policy_of t' = policy_of t \<and> sketch t' = sketch t
    \<and> tiny_pairs t' = mset (om_abs (protected t))"
proof -
  have inv: "om_inv (window t)" "om_inv (probation t)" "om_inv (protected t)"
    using t by (simp_all add: tiny_wf_def maps_inv_def)
  let ?d = "demote_loop t"
  have l: "window_loop H t = ([], t)"
    using om_len_abs [OF inv(1)] w by (simp add: window_loop.simps [of H t])
  note D = demote_loop_evicts [OF t]
  have dp: "tiny_pairs ?d = tiny_pairs t" "tiny_wf ?d" "caps_of ?d = caps_of t"
    using D by (auto simp: evicts_def)
  then have dinv: "om_inv (probation ?d)" "om_inv (protected ?d)" by (simp_all add: tiny_wf_def maps_inv_def)
  have "size (tiny_pairs ?d) = length (om_abs (protected t))"
    by (simp add: dp(1)) (simp add: tiny_pairs_def pairs_def w p)
  then have "om_len (probation ?d) + om_len (protected ?d) = length (om_abs (protected t))"
    using D w om_len_abs [OF dinv(1)] om_len_abs [OF dinv(2)] by (simp add: tiny_pairs_def pairs_def)
  then have "om_len (probation ?d) \<le> cap_prob (caps_of ?d)"
    using D q om_len_abs [OF inv(3)] dp(3) by auto
  then have "t' = ?d" using e by (simp add: lfu_evict_locked_def l om_shrink.simps)
  then have "tiny_pairs t' = tiny_pairs t" using dp by simp
  also have "\<dots> = mset (om_abs (protected t))" by (simp add: tiny_pairs_def pairs_def w p)
  finally show ?thesis using evict_evicts [OF t e] by (simp add: evicts_def)
qed

lemma sort_key_image: "sort_key f (map g l) = map g (sort_key (\<lambda>x. f (g x)) l)"
proof -
  have "insort_key f (g x) (map g l) = map g (insort_key (\<lambda>x. f (g x)) x l)" for x l
    by (induction l) auto
  then show ?thesis by (induction l) auto
qed

lemma sorted_split: "sorted (map f (a @ b)) \<Longrightarrow> x \<in> set a \<Longrightarrow> y \<in> set b \<Longrightarrow> f x \<le> f y"
  by (simp add: sorted_append)

definition live :: "real \<Rightarrow> (cache_key \<times> cache_entry) list \<Rightarrow> (cache_key \<times> cache_entry) list" where
  "live now es = filter (\<lambda>(k, e). now < ce_expires_at e) es"

lemma restore_state:
  fixes H :: hasher and now :: real
  assumes s: "lfu_inv s" and d: "distinct (map fst es)" and n: "length es \<le> 65536"
  defines "s' \<equiv> lfu_restore_records H es now s" and "m \<equiv> cap_main (caps_of (t_inner s))"
  defines "by_time \<equiv> sort_key (\<lambda>x. ce_expires_at (snd x) - now) (live now es)"
  shows "lfu_inv s' \<and> tiny_pairs (t_inner s') = mset (drop (length (live now es) - m) by_time)
    \<and> t_window_unpersisted s' = of_nat (length (live now es) - m)"
proof -
  let ?t = "tiny_clear (t_inner s)" and ?f = "\<lambda>(k :: cache_key, e). (k, e, ce_expires_at e - now)"
  have t: "tiny_inv ?t" "tiny_pairs ?t = {#}" "caps_of ?t = caps_of (t_inner s)"
    using s tiny_clear_spec by (auto simp: lfu_inv_def)
  note I = tiny_invD [OF t(1)]
  have empty: "om_abs (window ?t) = []" "om_abs (probation ?t) = []" "om_abs (protected ?t) = []"
    using t(2) by (simp_all add: tiny_pairs_def pairs_def)
  have cap: "\<not> length es > restore_cap (t_total_cap s)" using n by (simp add: restore_cap_def)
  have mf: "List.map_filter (\<lambda>(k, e). let r = ce_expires_at e - now in if r \<le> 0 then None else Some (k, e, r)) es
      = map ?f (live now es)"
    by (induction es) (auto simp: live_def map_filter_simps Let_def)
  have sk: "sort_key (\<lambda>(k, e, r). r) (map ?f l) = map ?f (sort_key (\<lambda>x. ce_expires_at (snd x) - now) l)"
    for l :: "(cache_key \<times> cache_entry) list" by (simp add: sort_key_image split_beta)
  let ?k = "length (live now es) - m"
  let ?l = "drop ?k by_time"
  have len: "length by_time = length (live now es)" by (simp add: by_time_def)
  have dl: "distinct (map fst (live now es))" using d by (simp add: live_def distinct_map_filter)
  have "mset by_time = mset (live now es)" by (simp add: by_time_def)
  then have "distinct (map fst by_time)" using dl by (metis map_of_perm)
  then have dd: "distinct (map fst ?l)" by (metis distinct_drop drop_map)
  let ?q = "fold (\<lambda>(k, e, r) m. om_insert k e m) (map ?f ?l) (protected ?t)"
  have q: "om_inv ?q" "om_abs ?q = ?l"
    using insert_all [OF I(8) dd, where f = "\<lambda>x. ce_expires_at (snd x) - now"] by (simp_all add: empty)
  let ?t1 = "?t\<lparr>protected := ?q\<rparr>"
  obtain ks t' where e: "lfu_evict_locked H ?t1 = (ks, t')" by fastforce
  have wf1: "tiny_wf ?t1"
    using I q dd empty by (simp add: tiny_wf_def maps_inv_def tiny_alist_def)
  have bc: "m = cap_prob (caps_of ?t1) + cap_prot (caps_of ?t1)"
    using s baseline_caps [of "t_total_cap s"] t(3) by (simp add: lfu_inv_def m_def)
  have "length ?l \<le> m" using len by simp
  then have E: "tiny_wf t' \<and> fits t' \<and> caps_of t' = caps_of ?t1 \<and> policy_of t' = policy_of ?t1
      \<and> sketch t' = sketch ?t1 \<and> tiny_pairs t' = mset (om_abs (protected ?t1))"
    by (intro evict_main [OF wf1 _ _ _ e]) (use empty q bc in simp_all)
  have f: "fill_protected H (map ?f (live now es)) ?t = t'"
    using e len unfolding fill_protected_def Let_def sk by_time_def [symmetric] by (simp add: drop_map t(3) m_def)
  have s': "s' = s\<lparr>t_inner := t', t_window_unpersisted := of_nat ?k\<rparr>"
    using f cap mf unfolding s'_def lfu_restore_records_def
    by (simp add: Let_def t(3) m_def)
  show ?thesis using E s t(1,3) q by (simp add: s' lfu_inv_def tiny_inv_def)
qed

text \<open>
  C24: \<open>restore_records\<close> on a cache in any reachable state, for at most 65536 entries under
  distinct keys: as many live entries are kept as the main segments hold, the rest is counted as
  not persisted, nothing else is stored, and no entry left out expires later than a kept one.
\<close>

theorem lfu_restore_longest:
  assumes "distinct (map fst es)" "length es \<le> 65536"
  shows "let s = lfu_run H cs (lfu_new c); s' = lfu_restore_records H es now s; kept = lfu_content s';
             main = cap_main (caps_of (t_inner s)); alive = filter (\<lambda>(k, e). now < ce_expires_at e) es in
    lfu_len s' = min main (length alive) \<and> t_window_unpersisted s' = of_nat (length alive - main)
    \<and> {(k, e). kept k = Some e} \<subseteq> set alive
    \<and> {x \<in> set alive. kept (fst x) = None \<and> (\<exists>k e. kept k = Some e \<and> ce_expires_at e < ce_expires_at (snd x))} = {}"
proof -
  define s where "s = lfu_run H cs (lfu_new c)"
  define s' where "s' = lfu_restore_records H es now s"
  define m where "m = cap_main (caps_of (t_inner s))"
  have s: "lfu_inv s" unfolding s_def by (rule lfu_run_inv)
  let ?n = "length (live now es) - m"
  define l where "l = sort_key (\<lambda>x. ce_expires_at (snd x) - now) (live now es)"
  have S: "lfu_inv s'" "tiny_pairs (t_inner s') = mset (drop ?n l)" "t_window_unpersisted s' = of_nat ?n"
    using restore_state [OF s assms] unfolding s'_def m_def l_def by blast+
  have len: "length l = length (live now es)" "set l = set (live now es)" by (simp_all add: l_def)
  have 1: "lfu_len s' = min m (length (live now es))" using lfu_len_size [OF S(1)] S(2) len by simp
  have wf: "tiny_wf (t_inner s')" using S(1) by (simp add: lfu_inv_def tiny_inv_def)
  have kept: "lfu_content s' k = Some e \<longleftrightarrow> (k, e) \<in> set (drop ?n l)" for k e
    using content_in [OF wf] S(2) by (simp add: lfu_content_def)
  have 2: "{(k, e). lfu_content s' k = Some e} \<subseteq> set (live now es)"
    using kept len(2) set_drop_subset [of ?n l] by auto
  have sorted: "sorted (map (\<lambda>x. ce_expires_at (snd x) - now) (take ?n l @ drop ?n l))"
    by (simp only: append_take_drop_id) (simp add: l_def)
  have 3: "ce_expires_at e \<ge> ce_expires_at (snd x)"
    if x: "x \<in> set (live now es)" "lfu_content s' (fst x) = None" "lfu_content s' k = Some e" for x k e
  proof -
    have "x \<notin> set (drop ?n l)" using kept [of "fst x" "snd x"] x(2) by simp
    moreover have "x \<in> set (take ?n l) \<union> set (drop ?n l)"
      using x(1) len(2) by (metis append_take_drop_id set_append)
    ultimately have "x \<in> set (take ?n l)" by blast
    moreover have "(k, e) \<in> set (drop ?n l)" using kept x(3) by blast
    ultimately show ?thesis using sorted_split [OF sorted] by fastforce
  qed
  show ?thesis
    unfolding Let_def s_def [symmetric] s'_def [symmetric] m_def [symmetric] live_def [symmetric]
    using 1 S(3) 2 3 by (auto simp: not_less)
qed

theorem lfu_restore_longest_witness:
  "let es = [(cache_key_new [97] [65], cache_entry_new [97] [65] 300 100), (cache_key_new [98] [65], cache_entry_new [98] [65] 30 100)];
       s = lfu_run (\<lambda>_. 5) [] (lfu_new 64); s' = lfu_restore_records (\<lambda>_. 5) es 200 s; kept = lfu_content s';
       main = cap_main (caps_of (t_inner s)); alive = filter (\<lambda>(k, e). 200 < ce_expires_at e) es in
    lfu_len s' = min main (length alive) \<and> t_window_unpersisted s' = of_nat (length alive - main)
    \<and> {(k, e). kept k = Some e} \<subseteq> set alive
    \<and> {x \<in> set alive. kept (fst x) = None \<and> (\<exists>k e. kept k = Some e \<and> ce_expires_at e < ce_expires_at (snd x))} = {}"
proof -
  let ?es = "[(cache_key_new [97] [65], cache_entry_new [97] [65] 300 100), (cache_key_new [98] [65], cache_entry_new [98] [65] 30 100)]"
  have "distinct (map fst ?es)" "length ?es \<le> 65536" by (simp_all add: cache_key_new_def)
  from lfu_restore_longest [OF this, of "\<lambda>_. 5" "[]" 64 200] show ?thesis unfolding Let_def .
qed

end
