(* ===== verification/Swap_Props.thy ===== *)
theory Swap_Props
  imports Swap Partitioned_Props Tinylfu_History Lru_Props
begin

text \<open>
  What the exchangeable cache promises: over any history of calls, exchanges of the policy included, it serves what was
  last stored, and the events it has sent rebuild at least what it holds and at most what was stored.  The contract of the
  policies with the journal extends the one of \<open>Dns_Cache\<close>.
\<close>

subsection \<open>Replaying events\<close>

fun replay_event :: "event \<Rightarrow> store \<Rightarrow> store" where
  "replay_event (EvPut _ k e) m = m(k \<mapsto> e)"
| "replay_event (EvEvict _ k _) m = m(k := None)"
| "replay_event (EvClear _ _) m = (\<lambda>_. None)"

text \<open>What the events received and the events queued rebuild.\<close>

definition replayed :: "event list \<Rightarrow> journal \<Rightarrow> store" where
  "replayed evs j = fold replay_event (evs @ queued j) (\<lambda>_. None)"

definition without :: "cache_key list \<Rightarrow> store \<Rightarrow> store" where
  "without ks m = (\<lambda>k. if k \<in> set ks then None else m k)"

text \<open>A live journal with a lower and an upper bound for its replay, unless a snapshot of the whole cache is due.\<close>

definition tracks :: "event list \<Rightarrow> journal \<Rightarrow> store \<Rightarrow> store \<Rightarrow> bool" where
  "tracks evs j lower upper \<longleftrightarrow> \<not> journal_off j
     \<and> (j_needs_resync j \<or> sub_store lower (replayed evs j) \<and> sub_store (replayed evs j) upper)"

lemma tracks_send:
  assumes "tracks evs j lower upper"
    and "sub_store (replayed evs j) upper \<Longrightarrow> sub_store (replay_event ev (replayed evs j)) upper'"
    and "sub_store lower (replayed evs j) \<Longrightarrow> sub_store lower' (replay_event ev (replayed evs j))"
  shows "tracks evs (journal_send ev j) lower' upper'"
proof (cases rule: journal_send_cases [of j ev])
  case off
  then show ?thesis using assms(1) by (simp add: tracks_def)
next
  case queued
  then have "replayed evs (journal_send ev j) = replay_event ev (replayed evs j)" by (simp add: replayed_def)
  then show ?thesis using assms queued by (auto simp: tracks_def)
next
  case dropped
  then show ?thesis by (simp add: tracks_def)
qed

lemma replayed_cong: "queued j' = queued j \<Longrightarrow> replayed evs j' = replayed evs j"
  by (simp add: replayed_def)

lemma tracks_next_seq [simp]: "tracks evs (snd (next_seq j)) lower upper = tracks evs j lower upper"
  by (simp add: tracks_def next_seq_def journal_off_def is_suspended_def replayed_def queued_def)

lemma tracks_mono:
  "tracks evs j lower upper \<Longrightarrow> sub_store lower' lower \<Longrightarrow> sub_store upper upper' \<Longrightarrow> tracks evs j lower' upper'"
  by (auto simp: tracks_def intro: sub_store_trans)

lemma sub_store_without: "sub_store a b \<Longrightarrow> sub_store (without ks a) (without ks b)"
  by (auto simp: sub_store_def without_def)

lemma sub_store_less: "sub_store a b \<Longrightarrow> sub_store (a(k := None)) b"
  by (auto simp: sub_store_def)

lemma sub_store_None: "sub_store a b \<Longrightarrow> b k = None \<Longrightarrow> a k = None"
  unfolding sub_store_def by (metis not_None_eq)

lemma without_Cons: "without (k # ks) m = without ks (m(k := None))"
  by (auto simp: without_def)

lemma without_sub [simp]: "sub_store (without ks m) m"
  by (auto simp: sub_store_def without_def)

lemma tracks_evictions:
  "tracks evs j lower upper \<Longrightarrow> tracks evs (journal_evictions r ks j) (without ks lower) upper"
proof (induction r ks j arbitrary: lower rule: journal_evictions.induct)
  case (1 r j)
  then show ?case by (simp add: without_def)
next
  case (2 r k ks j)
  let ?j = "journal_evict k r (j_next_seq j + 1) (snd (next_seq j))"
  have "tracks evs ?j (lower(k := None)) upper"
    unfolding journal_evict_def
    by (rule tracks_send [where lower = lower and upper = upper])
      (use 2(2) in \<open>auto intro: sub_store_less sub_store_del\<close>)
  from 2(1) [OF _ refl this] show ?case by (simp add: next_seq_def without_Cons fun_upd_def)
qed

lemma tracks_put:
  assumes "tracks evs j lower upper" "cache_entry_eq e' e"
  shows "tracks evs (journal_put k e' n j) (lower(k \<mapsto> e)) (upper(k \<mapsto> e))"
  unfolding journal_put_def
  by (rule tracks_send [OF assms(1)])
    (use assms(2) in \<open>auto intro!: sub_store_put intro: cache_entry_eq_sym\<close>)

lemma tracks_evict:
  assumes "tracks evs j lower upper"
  shows "tracks evs (journal_evict k r n j) (lower(k := None)) (upper(k := None))"
  unfolding journal_evict_def by (rule tracks_send [OF assms]) (auto intro: sub_store_del)

lemma tracks_clear: "tracks evs j lower upper \<Longrightarrow> tracks evs (journal_clear r n j) (\<lambda>_. None) (\<lambda>_. None)"
  unfolding journal_clear_def by (rule tracks_send) auto

lemma tracks_recv:
  assumes "tracks evs j lower upper" "journal_recv j = (ev, j')"
  shows "tracks (case ev of Some v \<Rightarrow> evs @ [v] | None \<Rightarrow> evs) j' lower upper"
proof (cases "j_tx j")
  case None
  then show ?thesis using assms by (simp add: journal_recv_def)
next
  case (Some tx)
  then show ?thesis using assms
    by (cases "ring tx") (auto simp: journal_recv_def tracks_def replayed_def queued_def journal_off_def is_suspended_def)
qed

subsection \<open>The contract of the policies\<close>

locale journalled_cache = dns_cache C inv content capacity
  for C :: "'s dns_cache_ops" and inv :: "'s \<Rightarrow> bool" and content :: "'s \<Rightarrow> store" and capacity :: "'s \<Rightarrow> nat" +
  fixes jrn :: "'s \<Rightarrow> journal option"
  assumes put_journal: "inv s \<Longrightarrow> jrn s = Some j \<Longrightarrow>
      \<exists>ks e' n. jrn (op_put C k e now s) = Some (journal_put k e' n (journal_evictions Capacity ks (snd (next_seq j))))
        \<and> cache_entry_eq e' e \<and> (\<forall>k'\<in>set ks. k' \<noteq> k \<longrightarrow> content (op_put C k e now s) k' = None)"
    and resize_journal: "inv s \<Longrightarrow> jrn s = Some j \<Longrightarrow>
      \<exists>ks. jrn (op_set_capacity C m s) = Some (journal_evictions Resize ks j)
        \<and> (\<forall>k'\<in>set ks. content (op_set_capacity C m s) k' = None)"
    and get_quiet: "inv s \<Longrightarrow> jrn (snd (op_get C k now s)) = jrn s"
    and get_stale_quiet: "inv s \<Longrightarrow> jrn (snd (op_get_stale C k now w s)) = jrn s"
    and peek_quiet: "inv s \<Longrightarrow> jrn (snd (op_peek C k now s)) = jrn s"
    and delete_quiet: "inv s \<Longrightarrow> jrn (op_delete C k s) = jrn s"
    and clear_quiet: "inv s \<Longrightarrow> jrn (op_clear C s) = jrn s"
    and stale_quiet: "inv s \<Longrightarrow> jrn (op_set_stale_window C sw s) = jrn s"
begin

lemmas quiet = get_quiet get_stale_quiet peek_quiet delete_quiet clear_quiet stale_quiet

lemma put_tracks:
  assumes "inv s" "jrn s = Some j" "tracks evs j (content s) upper"
  shows "\<exists>j'. jrn (op_put C k e now s) = Some j' \<and> tracks evs j' (content (op_put C k e now s)) (upper(k \<mapsto> e))"
proof -
  let ?s = "op_put C k e now s"
  obtain ks e' n where J: "jrn ?s = Some (journal_put k e' n (journal_evictions Capacity ks (snd (next_seq j))))"
    "cache_entry_eq e' e" "\<And>k'. k' \<in> set ks \<Longrightarrow> k' \<noteq> k \<Longrightarrow> content ?s k' = None"
    using put_journal [OF assms(1,2), of k e now] by blast
  have "tracks evs (journal_put k e' n (journal_evictions Capacity ks (snd (next_seq j))))
      ((without ks (content s))(k \<mapsto> e)) (upper(k \<mapsto> e))"
    by (intro tracks_put tracks_evictions J(2)) (simp add: assms(3))
  moreover have "sub_store (content ?s) ((without ks (content s))(k \<mapsto> e))"
    using put [OF assms(1), of k e now] J(3) unfolding sub_store_def without_def
    by (auto split: if_splits)
  ultimately show ?thesis using J(1) tracks_mono sub_store_refl by blast
qed

lemma resize_tracks:
  assumes "inv s" "jrn s = Some j" "tracks evs j (content s) upper"
  shows "\<exists>j'. jrn (op_set_capacity C m s) = Some j' \<and> tracks evs j' (content (op_set_capacity C m s)) upper"
proof -
  let ?s = "op_set_capacity C m s"
  obtain ks where J: "jrn ?s = Some (journal_evictions Resize ks j)" "\<And>k'. k' \<in> set ks \<Longrightarrow> content ?s k' = None"
    using resize_journal [OF assms(1,2), of m] by blast
  have "sub_store (content ?s) (without ks (content s))"
    using set_capacity [OF assms(1), of m] J(2) unfolding sub_store_def without_def by force
  then show ?thesis using J(1) tracks_mono [OF tracks_evictions [OF assms(3)]] by (metis sub_store_refl)
qed

end

subsection \<open>LRU\<close>

lemma lru_fields [simp]:
  "l_journal (snd (lru_get H k now s)) = l_journal s" "l_group (snd (lru_get H k now s)) = l_group s"
  "l_journal (snd (lru_get_stale H k now w s)) = l_journal s" "l_group (snd (lru_get_stale H k now w s)) = l_group s"
  "l_journal (snd (lru_peek H k now s)) = l_journal s" "l_group (snd (lru_peek H k now s)) = l_group s"
  "l_journal (lru_delete H k s) = l_journal s" "l_group (lru_delete H k s) = l_group s"
  "l_journal (lru_clear s) = l_journal s" "l_group (lru_clear s) = l_group s"
  "l_journal (lru_set_stale_window sw s) = l_journal s" "l_group (lru_set_stale_window sw s) = l_group s"
  "l_group (lru_put H k e now s) = l_group s" "l_group (lru_set_capacity n s) = l_group s"
  by (auto simp: lru_get_def lru_get_stale_def lru_peek_def lru_delete_def lru_clear_def lru_set_stale_window_def
      lru_put_def lru_set_capacity_def set_map_def Let_def split: option.splits prod.splits)

lemma lru_put_evicted:
  assumes "lru_inv H s" "l_group s = None" "l_journal s = Some j"
  shows "\<exists>ks e' n. l_journal (lru_put H k e now s)
        = Some (journal_put k e' n (journal_evictions Capacity ks (snd (next_seq j))))
      \<and> cache_entry_eq e' e \<and> (\<forall>k'\<in>set ks. lru_content H (lru_put H k e now s) k' = None)"
proof -
  let ?e = "stamped s e" and ?sh = "the_shard H k s"
  obtain ks sh' where p: "shard_put k ?e now (stale_window_f64 s) ?sh = (ks, sh')" by fastforce
  have c: "16 \<le> l_total_cap s" using assms by (simp add: lru_inv_def)
  note S = shard_put_spec [OF inv_shard [OF assms(1)] c refl p]
  have m': "om_inv (s_map sh')" and gone: "\<forall>x \<in> set (om_abs (s_map sh')). fst x \<notin> set ks"
    using S by (simp add: shard_inv_def, blast)
  have key: "lru_journal_key s = id" using assms(2) by (auto simp: lru_journal_key_def expand_key_def)
  have "l_journal (lru_put H k e now s) = Some (journal_put k ?e (fst (next_seq j)) (journal_evictions Capacity ks (snd (next_seq j))))"
    using put_journal [OF assms(3), of H k e now] p by (simp add: key)
  moreover have "lru_content H (lru_put H k e now s) k' = None" if k': "k' \<in> set ks" for k'
  proof -
    have "k' \<in> fst ` set (al_del k (om_abs (s_map ?sh)) @ [(k, ?e)])"
      using k' S by (auto dest!: in_set_takeD)
    then have "shard_index H k' = shard_index H k"
      using inv_shard [OF assms(1), of k] by (auto simp: shard_inv_def set_al_del)
    moreover have "om_get (s_map sh') k' = None"
      using gone k' om_get_in [OF m', of k'] by (cases "om_get (s_map sh') k'") force+
    moreover have "l_shards (lru_put H k e now s) = (l_shards s)[shard_index H k := sh']" by (simp add: lru_put_shards p)
    ultimately show ?thesis using content_upd [OF assms(1)] by simp
  qed
  ultimately show ?thesis using stamped_eq(1) by blast
qed

lemma lru_resize_evicted:
  assumes "lru_inv H s" "l_group s = None" "l_journal s = Some j"
  shows "\<exists>ks. l_journal (lru_set_capacity c s) = Some (journal_evictions Resize ks j)
      \<and> (\<forall>k'\<in>set ks. lru_content H (lru_set_capacity c s) k' = None)"
proof -
  let ?n = "clamp_capacity (Some c)" and ?s' = "lru_set_capacity c s"
  define ks where "ks = fst (resize_shards ?n 0 (l_shards s))"
  have key: "lru_journal_key s = id" using assms(2) by (auto simp: lru_journal_key_def expand_key_def)
  have len: "length (l_shards s) = SHARDS" using assms(1) by (simp add: lru_inv_def)
  have "l_journal ?s' = Some (journal_evictions Resize ks j)"
    using assms(3) by (simp add: lru_set_capacity_def ks_def key Let_def split: prod.splits)
  moreover have "lru_content H ?s' k' = None" if k': "k' \<in> set ks" for k'
  proof -
    obtain i where i: "i < SHARDS" "k' \<in> set (fst (evict_locked ((l_shards s ! i)\<lparr>s_cap := shard_share ?n i\<rparr>)))"
      using k' len unfolding ks_def resize_shards_map by (auto simp: in_set_enumerate_eq)
    let ?sh = "(l_shards s ! i)\<lparr>s_cap := shard_share ?n i\<rparr>"
    have sh: "shard_inv H (l_total_cap s) i (l_shards s ! i)" using assms(1) i(1) by (simp add: lru_inv_def)
    obtain es sh' where e: "evict_locked ?sh = (es, sh')" by fastforce
    have m: "om_inv (s_map ?sh)" using sh by (simp add: shard_inv_def)
    note E = evict_spec [OF m e]
    have "k' \<in> fst ` set (om_abs (s_map ?sh))" using i(2) e E by (auto dest!: in_set_takeD)
    then have ix: "shard_index H k' = i" using sh by (auto simp: shard_inv_def)
    have "distinct (map fst (om_abs (s_map ?sh)))" using om.keys [OF m] .
    then have "k' \<notin> fst ` set (om_abs (s_map sh'))"
      using i(2) e E set_take_disj_set_drop_if_distinct [of "map fst (om_abs (s_map ?sh))"]
      by (auto simp: take_map drop_map)
    then have "om_get (s_map sh') k' = None" using E by (simp add: om.lookup map_of_eq_None_iff)
    then show ?thesis using i(1) e len by (simp add: lru_content_def the_shard_def ix set_capacity_shards)
  qed
  ultimately show ?thesis by blast
qed

subsection \<open>W-TinyLFU\<close>

lemma lfu_quiet [simp]:
  "t_journal (snd (lfu_get H k now s)) = t_journal s" "t_journal (snd (lfu_get_stale k now w s)) = t_journal s"
  "t_journal (snd (lfu_peek k now s)) = t_journal s" "t_journal (lfu_delete k s) = t_journal s"
  "t_journal (lfu_clear s) = t_journal s" "t_journal (lfu_set_stale_window sw s) = t_journal s"
  by (auto simp: lfu_get_def lfu_get_stale_def lfu_peek_def lfu_delete_def lfu_clear_def lfu_set_stale_window_def Let_def
      split: option.splits prod.splits)

lemma lfu_put_dropped:
  assumes "lfu_inv s" "t_journal s = Some j"
  shows "\<exists>ks e' n. t_journal (lfu_put H k e now s)
        = Some (journal_put k e' n (journal_evictions Capacity ks (snd (next_seq j))))
      \<and> cache_entry_eq e' e \<and> (\<forall>k'\<in>set ks. lfu_content (lfu_put H k e now s) k' = None)"
proof -
  let ?e = "lfu_stamped s e"
  obtain ks t' where p: "tiny_put H (stale_f64 s) k ?e now (t_inner s) = (ks, t')" by fastforce
  have "tiny_inv (t_inner s)" using assms(1) by (simp add: lfu_inv_def)
  note D = tiny_put_drops [OF this p]
  have "t_journal (lfu_put H k e now s) = Some (journal_put k ?e (ce_seq ?e) (journal_evictions Capacity ks (snd (next_seq j))))"
    using assms(2) p by (auto simp: lfu_put_def lfu_stamped_def Let_def next_seq_def split: prod.splits)
  moreover have "\<forall>k'\<in>set ks. lfu_content (lfu_put H k e now s) k' = None"
    using D by (simp add: lfu_content_def lfu_put_inner p)
  ultimately show ?thesis using lfu_stamped_eq(1) by blast
qed

lemma evicts_gone:
  assumes "tiny_wf t" "evicts t t' ks" "k \<in> set ks"
  shows "tiny_content t' k = None"
proof (rule ccontr)
  obtain R where R: "tiny_pairs t = tiny_pairs t' + R" "image_mset fst R = mset ks" and wf: "tiny_wf t'"
    using assms(2) by (auto simp: evicts_def)
  assume "tiny_content t' k \<noteq> None"
  then obtain x where "(k, x) \<in># tiny_pairs t'" using content_in [OF wf] by (metis option.exhaust)
  then have "k \<in># image_mset fst (tiny_pairs t')" by force
  moreover have "k \<in># image_mset fst R" using R(2) assms(3) by simp
  ultimately have "1 \<le> count (image_mset fst (tiny_pairs t')) k" "1 \<le> count (image_mset fst R) k"
    by (simp_all only: count_greater_eq_one_iff)
  then have "2 \<le> count (image_mset fst (tiny_pairs t)) k"
    unfolding R(1) image_mset_union count_union by linarith
  moreover have "image_mset fst (tiny_pairs t) = mset (map fst (tiny_alist t))" by (simp flip: mset_tiny_alist)
  moreover have "distinct (map fst (tiny_alist t))" using assms(1) by (simp add: tiny_wf_def)
  ultimately show False by (simp add: distinct_count_atmost_1 del: mset_map count_image_mset split: if_splits)
qed

lemma lfu_resize_dropped:
  assumes "lfu_inv s" "t_journal s = Some j"
  shows "\<exists>ks. t_journal (lfu_set_capacity H c s) = Some (journal_evictions Resize ks j)
      \<and> (\<forall>k'\<in>set ks. lfu_content (lfu_set_capacity H c s) k' = None)"
proof -
  let ?t = "t_inner s" and ?n = "clamp_capacity (Some c)"
  let ?t1 = "?t\<lparr>caps_of := compute_ratio ?n 1 40\<rparr>"
  have t: "tiny_wf ?t" "policy_of ?t = BASELINE" using assms by (simp_all add: lfu_inv_def tiny_inv_def)
  have wf1: "tiny_wf ?t1" using t by (simp add: tiny_wf_def maps_inv_def tiny_alist_def)
  obtain ks t' where ev: "lfu_evict_locked H ?t1 = (ks, t')" by fastforce
  have s': "t_inner (lfu_set_capacity H c s) = t'" "t_journal (lfu_set_capacity H c s) = Some (journal_evictions Resize ks j)"
    using t(2) ev assms(2) by (simp_all add: lfu_set_capacity_def BASELINE_def Let_def)
  have "\<forall>k'\<in>set ks. lfu_content (lfu_set_capacity H c s) k' = None"
    using evicts_gone [OF wf1 evict_evicts [OF wf1 ev, THEN conjunct1]] by (simp add: lfu_content_def s')
  then show ?thesis using s'(2) by blast
qed

subsection \<open>A policy behind the trait\<close>

text \<open>The two policies with one key space; a partitioned cache, whose keys carry a group, has its own theory.\<close>

fun impl_inv :: "hasher \<Rightarrow> cache_impl \<Rightarrow> bool" where
  "impl_inv H (ImplLru c) \<longleftrightarrow> lru_inv H c \<and> l_group c = None"
| "impl_inv H (ImplTiny c) \<longleftrightarrow> lfu_inv c"
| "impl_inv H (ImplParts c) \<longleftrightarrow> False"

fun impl_content :: "hasher \<Rightarrow> cache_impl \<Rightarrow> store" where
  "impl_content H (ImplLru c) = lru_content H c"
| "impl_content H (ImplTiny c) = lfu_content c"
| "impl_content H (ImplParts c) = pt_content H c"

fun impl_capacity :: "cache_impl \<Rightarrow> nat" where
  "impl_capacity (ImplLru c) = l_total_cap c"
| "impl_capacity (ImplTiny c) = t_total_cap c"
| "impl_capacity (ImplParts c) = pt_total_cap c"

lemmas lru_laws = lru_get_spec lru_get_stale_spec lru_peek_spec lru_put_spec lru_clear_spec lru_set_capacity_spec lru_len_bound
lemmas lfu_laws = lfu_get_spec lfu_get_stale_spec lfu_peek_spec lfu_put_spec lfu_delete_spec lfu_clear_spec
  lfu_set_capacity_spec lfu_len_bound

lemma lru_delete_spec:
  "lru_inv H s \<Longrightarrow> lru_inv H (lru_delete H k s) \<and> lru_content H (lru_delete H k s) = (lru_content H s)(k := None)"
  using remove_content [of H s k] by (simp add: lru_delete_def)

interpretation impl: journalled_cache "impl_ops H" "impl_inv H" "impl_content H" impl_capacity impl_journal
  for H :: hasher
proof unfold_locales
  fix s :: cache_impl and c k now w e n sw j
  assume i: "impl_inv H s"
  show "impl_journal (snd (op_get (impl_ops H) k now s)) = impl_journal s"
    and "impl_journal (snd (op_get_stale (impl_ops H) k now w s)) = impl_journal s"
    and "impl_journal (snd (op_peek (impl_ops H) k now s)) = impl_journal s"
    and "impl_journal (op_delete (impl_ops H) k s) = impl_journal s"
    and "impl_journal (op_clear (impl_ops H) s) = impl_journal s"
    and "impl_journal (op_set_stale_window (impl_ops H) sw s) = impl_journal s"
    using i by (cases s; simp add: impl_ops_def)+
  show "impl_inv H (cache_step (impl_ops H) c s)"
    using i lru_laws lru_delete_spec lfu_laws by (cases s; cases c) (simp_all add: impl_ops_def)
  show "fst (op_get (impl_ops H) k now s) = fresh_answer (impl_content H s k) now
      \<and> sub_store (impl_content H (snd (op_get (impl_ops H) k now s))) (impl_content H s)"
    using i lru_get_spec lfu_get_spec by (cases s) (simp_all add: impl_ops_def)
  show "fst (op_get_stale (impl_ops H) k now w s) = stale_answer (impl_content H s k) now w
      \<and> sub_store (impl_content H (snd (op_get_stale (impl_ops H) k now w s))) (impl_content H s)"
    using i lru_get_stale_spec lfu_get_stale_spec by (cases s) (simp_all add: impl_ops_def)
  show "fst (op_peek (impl_ops H) k now s) = fresh_answer (impl_content H s k) now
      \<and> sub_store (impl_content H (snd (op_peek (impl_ops H) k now s))) (impl_content H s)"
    using i lru_peek_spec lfu_peek_spec by (cases s) (simp_all add: impl_ops_def)
  show "sub_store (impl_content H (op_put (impl_ops H) k e now s)) ((impl_content H s)(k \<mapsto> e))"
    using i lru_put_spec lfu_put_spec by (cases s) (simp_all add: impl_ops_def)
  show "impl_content H (op_delete (impl_ops H) k s) = (impl_content H s)(k := None)"
    using i lru_delete_spec lfu_delete_spec by (cases s) (simp_all add: impl_ops_def)
  show "impl_content H (op_clear (impl_ops H) s) = (\<lambda>_. None)"
    using i lru_clear_spec lfu_clear_spec by (cases s) (simp_all add: impl_ops_def)
  show "sub_store (impl_content H (op_set_capacity (impl_ops H) n s)) (impl_content H s)"
    using i lru_set_capacity_spec lfu_set_capacity_spec by (cases s) (simp_all add: impl_ops_def)
  show "impl_content H (op_set_stale_window (impl_ops H) sw s) = impl_content H s"
    using i by (cases s) (simp_all add: impl_ops_def)
  show "op_len (impl_ops H) s \<le> impl_capacity s"
    using i lru_len_bound [of H] lfu_len_bound by (cases s) (simp_all add: impl_ops_def)
  show "\<exists>e'. impl_content H (op_put (impl_ops H) k e now s) k = Some e' \<and> cache_entry_eq e' e"
    if "now < ce_expires_at e"
    using i that lru_put_spec lfu_put_spec by (cases s) (simp_all add: impl_ops_def)
  assume j: "impl_journal s = Some j"
  show "\<exists>ks e' n. impl_journal (op_put (impl_ops H) k e now s)
        = Some (journal_put k e' n (journal_evictions Capacity ks (snd (next_seq j))))
      \<and> cache_entry_eq e' e \<and> (\<forall>k'\<in>set ks. k' \<noteq> k \<longrightarrow> impl_content H (op_put (impl_ops H) k e now s) k' = None)"
  proof (cases s)
    case (ImplLru x)
    then show ?thesis using i j lru_put_evicted [of H x j k e now] by (simp add: impl_ops_def) meson
  next
    case (ImplTiny x)
    then show ?thesis using i j lfu_put_dropped [of x j H k e now] by (simp add: impl_ops_def) meson
  qed (use i in simp)
  show "\<exists>ks. impl_journal (op_set_capacity (impl_ops H) n s) = Some (journal_evictions Resize ks j)
      \<and> (\<forall>k'\<in>set ks. impl_content H (op_set_capacity (impl_ops H) n s) k' = None)"
    using i j lru_resize_evicted lfu_resize_dropped by (cases s) (simp_all add: impl_ops_def)
qed

subsection \<open>The shell\<close>

lemma attach_simps [simp]:
  "impl_inv H (impl_attach j c) = impl_inv H c" "impl_journal (impl_attach j c) = Some j"
  "impl_inv H c \<Longrightarrow> impl_content H (impl_attach j c) = impl_content H c"
  by (cases c; simp add: lru_inv_def lfu_inv_def lru_content_def lfu_content_def the_shard_def pt_attach_journal_def fun_eq_iff)+

lemma attach_attach [simp]: "impl_attach j (impl_attach j' c) = impl_attach j c"
  by (cases c) (simp_all add: pt_attach_journal_def)

text \<open>The exchangeable cache with a live journal; \<open>upper\<close> is what was stored.\<close>

definition sw_ok :: "hasher \<Rightarrow> event list \<Rightarrow> swappable \<Rightarrow> store \<Rightarrow> bool" where
  "sw_ok H evs s upper \<longleftrightarrow> impl_inv H (sw_impl s) \<and> impl_journal (sw_impl s) \<noteq> None
     \<and> tracks evs (sw_journal s) (impl_content H (sw_impl s)) upper \<and> sub_store (impl_content H (sw_impl s)) upper"

lemma sw_ok_current:
  assumes "sw_ok H evs s upper"
  shows "impl_inv H (sw_current s)" "impl_journal (sw_current s) = Some (sw_journal s)"
    "impl_content H (sw_current s) = impl_content H (sw_impl s)"
    "tracks evs (sw_journal s) (impl_content H (sw_current s)) upper" "sub_store (impl_content H (sw_current s)) upper"
  using assms by (simp_all add: sw_ok_def sw_current_def)

lemma sw_ok_return:
  assumes "impl_inv H c" "impl_journal c = Some j" "tracks evs j (impl_content H c) upper" "sub_store (impl_content H c) upper"
  shows "sw_ok H evs (sw_return c s) upper" "sw_journal (sw_return c s) = j" "sw_impl (sw_return c s) = c"
  using assms by (simp_all add: sw_ok_def sw_return_def)

text \<open>A call that only loses entries and leaves the journal alone.\<close>

lemma sw_ok_shrink:
  assumes "sw_ok H evs s upper" "impl_inv H c" "impl_journal c = impl_journal (sw_current s)"
    and "sub_store (impl_content H c) (impl_content H (sw_current s))"
  shows "sw_ok H evs (sw_return c s) upper \<and> sw_journal (sw_return c s) = sw_journal s
    \<and> sub_store (impl_content H (sw_impl (sw_return c s))) (impl_content H (sw_impl s))"
proof -
  note C = sw_ok_current [OF assms(1)]
  have "sw_ok H evs (sw_return c s) upper" "sw_journal (sw_return c s) = sw_journal s" "sw_impl (sw_return c s) = c"
    using sw_ok_return [of H c "sw_journal s" evs upper s] assms(2-4) C tracks_mono [OF C(4) assms(4)]
      sub_store_trans [OF assms(4)] by simp_all
  then show ?thesis using assms(4) C(3) by simp
qed

lemmas impl_law_simps = impl_ops_def dns_cache_ops.simps cache_step.simps

lemma sw_get_ok:
  assumes "sw_ok H evs s upper"
  shows "sw_ok H evs (snd (sw_get H k now s)) upper \<and> sw_journal (snd (sw_get H k now s)) = sw_journal s
    \<and> sub_store (impl_content H (sw_impl (snd (sw_get H k now s)))) (impl_content H (sw_impl s))
    \<and> fst (sw_get H k now s) = fresh_answer (impl_content H (sw_impl s) k) now"
proof -
  note C = sw_ok_current [OF assms]
  note G = impl.get [OF C(1), of k now] and Q = impl.get_quiet [OF C(1), of k now] and I = impl.inv_step [OF C(1), of "CGet k now"]
  show ?thesis
    using sw_ok_shrink [OF assms, of "snd (impl_get H k now (sw_current s))"] G Q I C(3)
    by (simp add: impl_law_simps sw_get_def sw_call_def split_beta)
qed

lemma sw_stale_ok:
  assumes "sw_ok H evs s upper"
  shows "sw_ok H evs (sw_set_stale_window w s) upper"
proof -
  note C = sw_ok_current [OF assms]
  show ?thesis
    using sw_ok_shrink [OF assms, of "impl_set_stale w (sw_current s)"] impl.set_stale [OF C(1), of w]
      impl.stale_quiet [OF C(1), of w] impl.inv_step [OF C(1), of "CSetStale w"]
    by (simp add: impl_law_simps sw_set_stale_window_def)
qed

lemma sw_call_ok:
  assumes "sw_ok H evs s upper"
  shows "sw_ok H evs (cache_step (sw_ops H) c s) (store_step c upper)"
proof -
  note C = sw_ok_current [OF assms] and I = impl.inv_step [OF sw_ok_current(1) [OF assms], of c]
  show ?thesis
  proof (cases c)
    case (CGet k now)
    then show ?thesis using sw_get_ok [OF assms] by (simp add: sw_ops_def)
  next
    case (CGetStale k now w)
    then show ?thesis
      using sw_ok_shrink [OF assms, of "snd (impl_get_stale H k now w (sw_current s))"] impl.get_stale [OF C(1), of k now w]
        impl.get_stale_quiet [OF C(1), of k now w] I
      by (simp add: impl_law_simps sw_get_stale_def sw_ops_def sw_call_def split_beta)
  next
    case (CPeek k now)
    then show ?thesis
      using sw_ok_shrink [OF assms, of "snd (impl_peek H k now (sw_current s))"] impl.peek [OF C(1), of k now]
        impl.peek_quiet [OF C(1), of k now] I
      by (simp add: impl_law_simps sw_peek_def sw_ops_def sw_call_def split_beta)
  next
    case (CPut k e now)
    let ?c = "impl_put H k e now (sw_current s)"
    obtain j where "impl_journal ?c = Some j" "tracks evs j (impl_content H ?c) (upper(k \<mapsto> e))"
      using impl.put_tracks [OF C(1,2,4), of k e now] by (auto simp: impl_ops_def)
    moreover have "sub_store (impl_content H ?c) (upper(k \<mapsto> e))"
      using impl.put [OF C(1), of k e now] sub_store_put [OF C(5) cache_entry_eq_refl]
      by (auto simp: impl_ops_def intro: sub_store_trans)
    ultimately show ?thesis
      using sw_ok_return(1) [of H ?c] I CPut by (simp add: impl_law_simps sw_put_def sw_ops_def)
  next
    case (CDelete k)
    let ?c = "impl_delete H k (sw_current s)" and ?j = "sw_journal s"
    have d: "impl_content H ?c = (impl_content H (sw_current s))(k := None)" "impl_journal ?c = Some ?j" "impl_inv H ?c"
      using impl.delete [OF C(1), of k] impl.delete_quiet [OF C(1), of k] I C(2) CDelete by (simp_all add: impl_law_simps)
    have "impl_journal_key (sw_current s) k = k"
      using C(1) by (cases "sw_current s") (simp_all add: lru_journal_key_def expand_key_def)
    moreover have "j_enabled ?j" using C(4) by (simp add: tracks_def journal_off_def)
    moreover have "tracks evs (journal_evict k Explicit (fst (next_seq ?j)) (snd (next_seq ?j))) (impl_content H ?c) (upper(k := None))"
      unfolding d(1) by (rule tracks_evict) (simp add: C(4))
    moreover have "sub_store (impl_content H ?c) (upper(k := None))"
      unfolding d(1) by (rule sub_store_del [OF C(5)])
    ultimately show ?thesis
      using d(2,3) CDelete by (simp add: sw_delete_def sw_ops_def sw_ok_def sw_return_def Let_def split_beta)
  next
    case CClear
    let ?c = "impl_clear (sw_current s)" and ?j = "sw_journal s"
    have d: "impl_content H ?c = (\<lambda>_. None)" "impl_journal ?c = Some ?j" "impl_inv H ?c"
      using impl.clear [OF C(1)] impl.clear_quiet [OF C(1)] I C(2) CClear by (simp_all add: impl_law_simps)
    have "tracks evs (journal_clear AdminClear (fst (next_seq ?j)) (snd (next_seq ?j))) (\<lambda>_. None) (\<lambda>_. None)"
      by (rule tracks_clear [of _ _ "impl_content H (sw_current s)" upper]) (simp add: C(4))
    then show ?thesis
      using d CClear
      by (simp add: sw_clear_def sw_clear_with_reason_def sw_ops_def sw_ok_def sw_return_def Let_def split_beta)
  next
    case (CSetCapacity n)
    let ?c = "impl_set_capacity H n (sw_current s)"
    obtain j where "impl_journal ?c = Some j" "tracks evs j (impl_content H ?c) upper"
      using impl.resize_tracks [OF C(1,2,4), of n] by (auto simp: impl_ops_def)
    moreover have "sub_store (impl_content H ?c) upper"
      using impl.set_capacity [OF C(1), of n] C(5) by (auto simp: impl_ops_def intro: sub_store_trans)
    ultimately show ?thesis
      using sw_ok_return(1) [of H ?c] I CSetCapacity by (simp add: impl_law_simps sw_set_capacity_def sw_ops_def)
  next
    case (CSetStale w)
    then show ?thesis using sw_stale_ok [OF assms] by (simp add: sw_ops_def)
  qed
qed

subsection \<open>The exchange\<close>

text \<open>The names of the two policies with one key space.\<close>

definition policy_name :: "bool \<Rightarrow> str" where
  "policy_name tiny = (if tiny then lit ''tinylfu'' else lit ''lru'')"

lemma fresh_ok:
  "impl_inv H (fresh_cache (policy_name tiny) n parts) \<and> impl_content H (fresh_cache (policy_name tiny) n parts) = (\<lambda>_. None)"
  using lru_new_spec [of H n None] lfu_new_spec [of n]
  by (simp add: fresh_cache_def policy_name_def lru_new_def lru_with_group_def Let_def)

lemma migrate_ok:
  assumes "sw_ok H evs s upper" "impl_inv H fresh"
    and "sub_store (impl_content H (sw_impl s)) m" "sub_store (impl_content H fresh) m"
    and "migrate H now ks (s, fresh) = (s', fresh')"
  shows "sw_ok H evs s' upper \<and> sw_journal s' = sw_journal s \<and> impl_inv H fresh' \<and> sub_store (impl_content H fresh') m"
  using assms
proof (induction ks arbitrary: s fresh)
  case (Cons k ks)
  obtain x s1 where g: "sw_get H k now s = (x, s1)" by fastforce
  note G = sw_get_ok [OF Cons.prems(1), of k now, unfolded g fst_conv snd_conv]
  have s1: "sw_ok H evs s1 upper" "sw_journal s1 = sw_journal s" "sub_store (impl_content H (sw_impl s1)) m"
    using G Cons.prems(3) by (auto intro: sub_store_trans)
  show ?case
  proof (cases x)
    case None
    then show ?thesis using Cons.IH [OF s1(1) Cons.prems(2) s1(3) Cons.prems(4)] Cons.prems(5) s1(2) g by simp
  next
    case (Some e)
    let ?f = "impl_put H k e now fresh"
    have "impl_content H (sw_impl s) k = Some e" using G Some fresh_answer_Some by metis
    then obtain e' where e': "m k = Some e'" "cache_entry_eq e e'" using Cons.prems(3) by (auto simp: sub_store_def)
    have "sub_store ((impl_content H fresh)(k \<mapsto> e)) m"
      using Cons.prems(4) e' by (auto simp: sub_store_def)
    then have "sub_store (impl_content H ?f) m"
      using impl.put [OF Cons.prems(2), of k e now] by (auto simp: impl_ops_def intro: sub_store_trans)
    moreover have "impl_inv H ?f"
      using impl.inv_step [OF Cons.prems(2), of "CPut k e now"] by (simp add: impl_law_simps)
    ultimately show ?thesis using Cons.IH [OF s1(1) _ s1(3), of ?f] Cons.prems(5) s1(2) g Some by simp
  qed
qed simp

lemma switch_ok:
  assumes "sw_ok H evs s upper"
  shows "sw_ok H evs (switch_policy H (policy_name tiny) n parts w now s) upper"
proof -
  let ?L = "impl_content H (sw_impl s)" and ?f0 = "fresh_cache (policy_name tiny) n parts"
  obtain s1 f where m: "migrate H now (sw_keys s) (s, ?f0) = (s1, f)" by fastforce
  have M: "sw_ok H evs s1 upper" "sw_journal s1 = sw_journal s" "impl_inv H f" "sub_store (impl_content H f) ?L"
    using migrate_ok [OF assms _ sub_store_refl _ m] fresh_ok [of H tiny n parts] by simp_all
  let ?g = "impl_set_capacity H n f"
  have g: "impl_inv H ?g" "sub_store (impl_content H ?g) ?L"
    using impl.inv_step [OF M(3), of "CSetCapacity n"] impl.set_capacity [OF M(3), of n] M(4)
    by (auto simp: impl_law_simps intro: sub_store_trans)
  have "tracks evs (sw_journal s) ?L upper" "sub_store ?L upper" using assms by (simp_all add: sw_ok_def)
  then have "sw_ok H evs (snd (sw_swap ?g s1)) upper"
    using g M(2) tracks_mono [OF _ g(2) sub_store_refl] sub_store_trans [OF g(2)] by (simp add: sw_ok_def sw_swap_def)
  then show ?thesis using sw_stale_ok m by (simp add: switch_policy_def)
qed

subsection \<open>Histories\<close>

text \<open>A call, the thread of the log taking an event, and a change of the policy.\<close>

datatype sw_action = SwCall cache_call | SwReceive | SwSwitch bool nat u64 real

fun sw_step :: "hasher \<Rightarrow> sw_action \<Rightarrow> event list \<times> swappable \<Rightarrow> event list \<times> swappable" where
  "sw_step H (SwCall c) (evs, s) = (evs, cache_step (sw_ops H) c s)"
| "sw_step H SwReceive (evs, s) =
     (case journal_recv (sw_journal s) of
        (ev, j) \<Rightarrow> ((case ev of Some v \<Rightarrow> evs @ [v] | None \<Rightarrow> evs), s\<lparr>sw_journal := j\<rparr>))"
| "sw_step H (SwSwitch tiny n w now) (evs, s) = (evs, switch_policy H (policy_name tiny) n None w now s)"

fun sw_stored :: "sw_action \<Rightarrow> store \<Rightarrow> store" where
  "sw_stored (SwCall c) m = store_step c m"
| "sw_stored _ m = m"

lemma sw_step_ok:
  assumes "sw_ok H evs s upper" "sw_step H a (evs, s) = (evs', s')"
  shows "sw_ok H evs' s' (sw_stored a upper)"
proof (cases a)
  case SwReceive
  obtain ev j where r: "journal_recv (sw_journal s) = (ev, j)" by fastforce
  show ?thesis
    using assms SwReceive tracks_recv [OF _ r, of evs "impl_content H (sw_impl s)" upper] r by (auto simp: sw_ok_def)
qed (use assms sw_call_ok switch_ok in auto)

lemma sw_run_ok:
  "sw_ok H evs s upper \<Longrightarrow> fold (sw_step H) acts (evs, s) = (evs', s') \<Longrightarrow> sw_ok H evs' s' (fold sw_stored acts upper)"
proof (induction acts arbitrary: evs s upper)
  case (Cons a acts)
  obtain evs1 s1 where a: "sw_step H a (evs, s) = (evs1, s1)" by fastforce
  then show ?case using Cons.IH [OF sw_step_ok [OF Cons.prems(1) a]] Cons.prems(2) by simp
qed simp


subsection \<open>From partitions\<close>

text \<open>The keys of a partitioned cache carry the group, so no key without one is ever put into the new cache.\<close>

lemma migrate_grouped:
  assumes "\<forall>k\<in>set ks. key_group k \<noteq> None" "impl_inv H fresh" "\<forall>k. key_group k = None \<longrightarrow> impl_content H fresh k = None"
    and "migrate H now ks (s, fresh) = (s', fresh')"
  shows "impl_inv H fresh' \<and> (\<forall>k. key_group k = None \<longrightarrow> impl_content H fresh' k = None)"
  using assms
proof (induction ks arbitrary: s fresh)
  case (Cons k ks)
  obtain x s1 where g: "sw_get H k now s = (x, s1)" by fastforce
  show ?case
  proof (cases x)
    case None
    then show ?thesis using Cons g by simp
  next
    case (Some e)
    have "impl_inv H (impl_put H k e now fresh)"
      using impl.inv_step [OF Cons.prems(2), of "CPut k e now"] by (simp add: impl_law_simps)
    moreover have "impl_content H (impl_put H k e now fresh) k' = None" if "key_group k' = None" for k'
    proof -
      have "((impl_content H fresh)(k \<mapsto> e)) k' = None" using Cons.prems(1,3) that by auto
      then show ?thesis
        using sub_store_None [OF impl.put [OF Cons.prems(2), of k e now]] by (simp add: impl_ops_def)
    qed
    ultimately show ?thesis using Cons.IH [of "impl_put H k e now fresh" s1] Cons.prems(1,4) g Some by simp
  qed
qed simp

text \<open>
  C40: After a change of the policy from partitions to LRU or W-TinyLFU a lookup with a key without a group, the only keys
  the resolver has, finds none of the entries that were copied.
\<close>

theorem switch_from_partitions:
  assumes "sw_impl s = ImplParts c" "key_group k = None"
  shows "fst (sw_get H k now' (switch_policy H (policy_name tiny) n parts w now s)) = None"
proof -
  let ?f0 = "fresh_cache (policy_name tiny) n parts"
  obtain s1 f where m: "migrate H now (sw_keys s) (s, ?f0) = (s1, f)" by fastforce
  have "\<forall>k\<in>set (sw_keys s). key_group k \<noteq> None"
    using assms(1) by (auto simp: sw_keys_def sw_current_def pt_attach_journal_def pt_keys_def group_keys_def)
  from migrate_grouped [OF this _ _ m] have M: "impl_inv H f" "\<forall>k. key_group k = None \<longrightarrow> impl_content H f k = None"
    using fresh_ok [of H tiny n parts] by simp_all
  let ?g = "impl_attach (sw_journal s1) (impl_set_capacity H n f)"
  have g: "impl_inv H ?g" "impl_content H ?g k = None"
    using impl.inv_step [OF M(1), of "CSetCapacity n"] sub_store_None [OF impl.set_capacity [OF M(1), of n], of k] M(2) assms(2)
    by (simp_all add: impl_law_simps)
  let ?s2 = "sw_set_stale_window w (snd (sw_swap (impl_set_capacity H n f) s1))"
  have i: "sw_impl ?s2 = impl_set_stale w ?g"
    by (simp add: sw_set_stale_window_def sw_return_def sw_current_def sw_swap_def)
  have "impl_inv H (impl_set_stale w ?g)" "impl_content H (impl_set_stale w ?g) k = None"
    using g impl.inv_step [OF g(1), of "CSetStale w"] impl.set_stale [OF g(1), of w] by (simp_all add: impl_law_simps)
  then have "impl_inv H (sw_current ?s2) \<and> impl_content H (sw_current ?s2) k = None"
    by (simp add: sw_current_def i)
  then show ?thesis
    using impl.get [of H "sw_current ?s2" k now'] m
    by (simp add: switch_policy_def sw_get_def sw_call_def impl_law_simps fresh_answer_def split_beta)
qed

theorem switch_from_partitions_witness:
  "fst (sw_get (\<lambda>_. 0) (cache_key_new [120] (lit ''A'')) 110
      (switch_policy (\<lambda>_. 0) (policy_name False) 64 None 0 105
        (sw_put (\<lambda>_. 0) (cache_key_new [120] (lit ''A'')) (cache_entry_new [120] (lit ''A'') 300 100) 100
          (sw_new (ImplParts (partitioned_new 64 None)))))) = None"
proof -
  let ?k = "cache_key_new [120] (lit ''A'')"
  let ?s = "sw_put (\<lambda>_. 0) ?k (cache_entry_new [120] (lit ''A'') 300 100) 100 (sw_new (ImplParts (partitioned_new 64 None)))"
  have "\<exists>c. sw_impl ?s = ImplParts c" by (simp add: sw_put_def sw_return_def sw_new_def sw_current_def partitioned_new_def Let_def)
  then obtain c where "sw_impl ?s = ImplParts c" by blast
  then show ?thesis by (rule switch_from_partitions) (simp add: cache_key_new_def)
qed

end
