(* ===== verification/Crc32c.thy ===== *)
theory Crc32c
  imports Prelude
begin

text \<open>
  \<open>ebpdns-cache/src/persist/crc32c.rs\<close>: the CRC32C of the log, the snapshots and the manifest,
  by a table of 256 entries.  It equals the bit-serial definition, it can be computed in pieces,
  and it detects every change of up to four consecutive bytes.
\<close>

definition POLY :: u32 where "POLY = 0x82F63B78"

text \<open>One round of the inner loop of \<open>make_table\<close>.\<close>

definition crc_step :: "u32 \<Rightarrow> u32" where
  "crc_step c = (if c AND 1 \<noteq> 0 then drop_bit 1 c XOR POLY else drop_bit 1 c)"

definition TABLE :: "u32 list" where
  "TABLE = map (\<lambda>i. (crc_step ^^ 8) (word_of_nat i)) [0..<256]"

definition crc32c_update :: "u32 \<Rightarrow> bytes \<Rightarrow> u32" where
  "crc32c_update c data =
     fold (\<lambda>b c. TABLE ! unat ((c XOR ucast b) AND 0xFF) XOR drop_bit 8 c) data c"

definition crc32c :: "bytes \<Rightarrow> u32" where
  "crc32c data = NOT (crc32c_update (NOT 0) data)"

definition crc32c_finalize :: "u32 \<Rightarrow> u32" where
  "crc32c_finalize c = NOT c"

lemma crc32c_update_simps [simp]:
  "crc32c_update c [] = c"
  "crc32c_update c (b # bs) = crc32c_update (TABLE ! unat ((c XOR ucast b) AND 0xFF) XOR drop_bit 8 c) bs"
  by (simp_all add: crc32c_update_def)

lemma crc32c_update_append: "crc32c_update c (a @ b) = crc32c_update (crc32c_update c a) b"
  by (simp add: crc32c_update_def)

subsection \<open>The bit-serial definition\<close>

text \<open>The reference: eight rounds for every byte, without a table.\<close>

definition crc_bits :: "u32 \<Rightarrow> bytes \<Rightarrow> u32" where
  "crc_bits c data = fold (\<lambda>b c. (crc_step ^^ 8) (c XOR ucast b)) data c"

lemma crc_step_bit: "crc_step c = drop_bit 1 c XOR (if bit c 0 then POLY else 0)"
  by (simp add: crc_step_def bit_0 and_one_eq odd_iff_mod_2_eq_one)

lemma crc_step_xor: "crc_step (a XOR b) = crc_step a XOR crc_step b"
  by (simp add: crc_step_bit bit_xor_iff drop_bit_xor) (simp add: ac_simps)

lemma crc_steps_xor: "(crc_step ^^ n) (a XOR b) = (crc_step ^^ n) a XOR (crc_step ^^ n) b"
  by (induction n) (simp_all add: crc_step_xor)

lemma crc_steps_shift: "\<forall>i < n. \<not> bit c i \<Longrightarrow> (crc_step ^^ n) c = drop_bit n c"
proof (induction n)
  case (Suc n)
  then have "(crc_step ^^ Suc n) c = crc_step (drop_bit n c)" by simp
  moreover have "\<not> bit c n" using Suc.prems by simp
  ultimately show ?case using crc_step_bit [of "drop_bit n c"] by (simp add: bit_drop_bit_eq)
qed simp

lemma table_nth: "TABLE ! unat (x AND 0xFF :: u32) = (crc_step ^^ 8) (x AND 0xFF)"
proof -
  have "x AND 0xFF \<le> 0xFF" by (rule word_and_le1)
  then have "unat (x AND 0xFF) < 256" by (simp add: word_le_nat_alt)
  then show ?thesis by (simp add: TABLE_def del: funpow.simps)
qed

lemma crc_byte:
  "TABLE ! unat ((c XOR ucast b) AND 0xFF) XOR drop_bit 8 c = (crc_step ^^ 8) (c XOR ucast (b :: u8))"
proof -
  define M :: u32 where "M = 0xFF"
  let ?x = "c XOR ucast b" and ?h = "c AND NOT M"
  have "M = mask 8" by (simp add: M_def mask_eq_exp_minus_1)
  then have m: "bit M i \<longleftrightarrow> i < 8" for i by (simp only: bit_mask_iff) auto
  have b: "bit b i \<Longrightarrow> i < 8" for i using bit_imp_le_length [of b i] by simp
  have s: "?x = (?x AND M) XOR ?h"
    by (rule bit_word_eqI) (auto simp: bit_simps m dest: b)
  have "(crc_step ^^ 8) ?h = drop_bit 8 ?h"
    by (rule crc_steps_shift) (simp add: bit_simps m)
  also have "\<dots> = drop_bit 8 c"
    by (rule bit_word_eqI) (auto simp: bit_simps m dest: bit_imp_le_length)
  finally have h: "(crc_step ^^ 8) ?h = drop_bit 8 c" .
  have "(crc_step ^^ 8) ?x = (crc_step ^^ 8) (?x AND M) XOR (crc_step ^^ 8) ?h"
    by (subst s) (rule crc_steps_xor)
  then have "(crc_step ^^ 8) ?x = (crc_step ^^ 8) (?x AND M) XOR drop_bit 8 c" by (simp only: h)
  then show ?thesis by (simp only: table_nth M_def)
qed

lemma crc_update_bits: "crc32c_update c data = crc_bits c data"
  by (induction data arbitrary: c) (simp_all add: crc_bits_def crc_byte del: funpow.simps)

text \<open>
  C17: The table-driven checksum equals the bit-serial one, and feeding the data in pieces gives
  the checksum of the whole, as the writers of the log and the snapshots rely on.
\<close>

theorem crc_reference:
  "crc32c data = NOT (crc_bits (NOT 0) data)
   \<and> crc32c_finalize (crc32c_update (crc32c_update (NOT 0) a) b) = crc32c (a @ b)"
proof
  show "crc32c data = NOT (crc_bits (NOT 0) data)" by (simp only: crc32c_def crc_update_bits)
  show "crc32c_finalize (crc32c_update (crc32c_update (NOT 0) a) b) = crc32c (a @ b)"
    by (simp only: crc32c_def crc32c_finalize_def crc32c_update_append)
qed

text \<open>Evaluation: the rounds are computed from the inside, on literals.\<close>

lemma crc_rounds: "(crc_step ^^ 8) c =
   crc_step (crc_step (crc_step (crc_step (crc_step (crc_step (crc_step (crc_step c)))))))"
  by (simp add: eval_nat_numeral)

lemma crc_step_literal: "crc_step (numeral n) =
   (if numeral n AND 1 \<noteq> (0 :: u32) then drop_bit 1 (numeral n) XOR 0x82F63B78 else drop_bit 1 (numeral n))"
  by (simp only: crc_step_def POLY_def)

lemma crc_step_ones: "crc_step (- 1) = 0x7FFFFFFF XOR 0x82F63B78"
  by (simp add: crc_step_def POLY_def drop_bit_Suc mask_eq_exp_minus_1)

lemmas crc_eval = crc_step_ones crc32c_def crc_update_bits crc_bits_def crc_rounds crc_step_literal

subsection \<open>Detected changes\<close>

lemma POLY_top: "bit POLY 31"
  by (simp add: POLY_def)

lemma crc_step_inj: "crc_step a = crc_step b \<Longrightarrow> a = b"
proof -
  assume e: "crc_step a = crc_step b"
  have top: "bit (crc_step c) 31 = bit c 0" for c
    using POLY_top bit_imp_le_length [of c 32] by (auto simp: crc_step_bit bit_xor_iff bit_drop_bit_eq)
  have z: "bit a 0 = bit b 0" using e top by metis
  have d: "drop_bit 1 a = drop_bit 1 b"
  proof -
    have "crc_step c XOR (if bit c 0 then POLY else 0) = drop_bit 1 c" for c
      by (simp add: crc_step_bit xor.assoc)
    then show ?thesis using e z by metis
  qed
  show "a = b"
  proof (rule bit_word_eqI)
    fix n assume "n < LENGTH(32)"
    show "bit a n = bit b n"
    proof (cases n)
      case 0
      then show ?thesis using z by simp
    next
      case (Suc m)
      have "bit (drop_bit 1 a) m = bit (drop_bit 1 b) m" using d by simp
      then show ?thesis using Suc by (simp add: bit_drop_bit_eq)
    qed
  qed
qed

lemma crc_steps_inj: "(crc_step ^^ n) a = (crc_step ^^ n) b \<Longrightarrow> a = b"
  by (induction n) (auto dest: crc_step_inj)

lemma crc_bits_inj: "crc_bits c data = crc_bits c' data \<Longrightarrow> c = c'"
proof (induction data arbitrary: c c')
  case (Cons b bs)
  then have "(crc_step ^^ 8) (c XOR ucast b) = (crc_step ^^ 8) (c' XOR ucast b)"
    by (simp add: crc_bits_def del: funpow.simps)
  then have "c XOR ucast b = c' XOR ucast b" by (rule crc_steps_inj)
  then have "(c XOR ucast b) XOR ucast b = (c' XOR ucast b) XOR ucast b" by simp
  then show ?case by (simp add: xor.assoc)
qed (simp add: crc_bits_def)

text \<open>Up to four bytes enter the register as one word.\<close>

fun word_le :: "bytes \<Rightarrow> u32" where
  "word_le [] = 0"
| "word_le (b # bs) = ucast b XOR push_bit 8 (word_le bs)"

lemma word_le_high: "length bs \<le> 4 \<Longrightarrow> 8 * length bs \<le> i \<Longrightarrow> \<not> bit (word_le bs) i"
proof (induction bs arbitrary: i)
  case (Cons b bs)
  have "\<not> bit (ucast b :: u32) i" using Cons.prems(2) by (auto simp: bit_simps dest: bit_imp_le_length)
  moreover have "\<not> bit (push_bit 8 (word_le bs)) i" using Cons by (auto simp: bit_simps)
  ultimately show ?case by (simp add: bit_xor_iff)
qed simp

lemma word_le_inj: "length bs = length bs' \<Longrightarrow> length bs \<le> 4 \<Longrightarrow> word_le bs = word_le bs' \<Longrightarrow> bs = bs'"
proof (induction bs arbitrary: bs')
  case (Cons b bs)
  then obtain b' bs2 where bs': "bs' = b' # bs2" by (cases bs') auto
  have e: "bit (word_le (b # bs)) i = bit (word_le (b' # bs2)) i" for i using Cons.prems(3) bs' by simp
  have "b = b'"
  proof (rule bit_word_eqI)
    fix i assume "i < LENGTH(8)"
    then show "bit b i = bit b' i" using e [of i] by (simp add: bit_simps)
  qed
  moreover have "word_le bs = word_le bs2"
  proof (rule bit_word_eqI)
    fix i assume i: "i < LENGTH(32)"
    show "bit (word_le bs) i = bit (word_le bs2) i"
    proof (cases "i < 24")
      case True
      have "\<not> bit (ucast x :: u32) (i + 8)" for x :: u8 by (auto simp: bit_simps dest: bit_imp_le_length)
      then show ?thesis using e [of "i + 8"] True by (simp add: bit_simps)
    next
      case False
      then show ?thesis using word_le_high [of bs i] word_le_high [of bs2 i] Cons.prems bs' by simp
    qed
  qed
  ultimately show ?case using Cons bs' by simp
qed simp

lemma crc_bits_word: "length bs \<le> 4 \<Longrightarrow> crc_bits c bs = (crc_step ^^ (8 * length bs)) (c XOR word_le bs)"
proof (induction bs arbitrary: c)
  case (Cons b bs)
  let ?w = "push_bit 8 (word_le bs)" and ?x = "c XOR ucast b"
  have "(crc_step ^^ 8) ?w = drop_bit 8 ?w"
    by (rule crc_steps_shift) (simp add: bit_simps)
  also have "\<dots> = word_le bs"
  proof (rule bit_word_eqI)
    fix i assume "i < LENGTH(32)"
    then show "bit (drop_bit 8 ?w) i = bit (word_le bs) i"
      using word_le_high [of bs i] Cons.prems by (cases "i < 24") (auto simp: bit_simps)
  qed
  finally have w: "(crc_step ^^ 8) ?x XOR word_le bs = (crc_step ^^ 8) (?x XOR ?w)"
    by (simp only: crc_steps_xor)
  have "crc_bits c (b # bs) = crc_bits ((crc_step ^^ 8) ?x) bs" by (simp add: crc_bits_def del: funpow.simps)
  also have "\<dots> = (crc_step ^^ (8 * length bs)) ((crc_step ^^ 8) (?x XOR ?w))"
    using Cons.IH [of "(crc_step ^^ 8) ?x"] Cons.prems by (simp only: w) simp
  also have "\<dots> = (crc_step ^^ (8 * length bs + 8)) (?x XOR ?w)" by (simp only: funpow_add comp_def)
  finally show ?case by (simp add: xor.assoc add.commute del: funpow.simps)
qed (simp add: crc_bits_def)

lemma crc_burst:
  assumes "length b = length b'" "length b \<le> 4" "b \<noteq> b'"
  shows "crc32c (a @ b @ d) \<noteq> crc32c (a @ b' @ d)"
proof
  assume "crc32c (a @ b @ d) = crc32c (a @ b' @ d)"
  then have "crc_bits (crc_bits (crc_bits (NOT 0) a) b) d = crc_bits (crc_bits (crc_bits (NOT 0) a) b') d"
    by (simp add: crc32c_def crc_bits_def crc_update_bits)
  then have "crc_bits (crc_bits (NOT 0) a) b = crc_bits (crc_bits (NOT 0) a) b'" by (rule crc_bits_inj)
  moreover define x where "x = crc_bits (NOT 0) a"
  ultimately have "(crc_step ^^ (8 * length b)) (x XOR word_le b) = (crc_step ^^ (8 * length b)) (x XOR word_le b')"
    using crc_bits_word [of b x] crc_bits_word [of b' x] assms(1,2) by simp
  then have "x XOR word_le b = x XOR word_le b'" by (rule crc_steps_inj)
  then have "x XOR (x XOR word_le b) = x XOR (x XOR word_le b')" by simp
  then have "word_le b = word_le b'" by (simp flip: xor.assoc)
  then show False using word_le_inj assms by blast
qed

text \<open>
  Any change confined to at most four consecutive bytes changes the checksum: two byte
  strings of the same length that differ only there are never confused.
\<close>

theorem crc_detects_burst:
  assumes "length b = length b'" "length b \<le> 4" "b \<noteq> b'"
  shows "crc32c (a @ b @ d) \<noteq> crc32c (a @ b' @ d)"
  using assms by (rule crc_burst)

theorem crc_detects_burst_witness: "crc32c ([1, 2] @ [3, 4] @ [5]) \<noteq> crc32c ([1, 2] @ [4, 3] @ [5])"
  by (rule crc_detects_burst) simp_all

end
