(* ===== verification/Entry_Codec.thy ===== *)
theory Entry_Codec
  imports Rdata Cache_Entry Crc32c
begin

text \<open>
  \<open>ebpdns-cache/src/persist/entry_codec.rs\<close>: the byte layout of a key and of a cache entry,
  shared by the log and the snapshots, and the cursor that reads it.  Strings keep their UTF-8
  text, record data is stored in wire form when that gives the text back and as text otherwise,
  times are milliseconds.

  An \<open>i64\<close> is its 64 bits, read by \<open>sint\<close>.  The texts of the error messages are left out.
\<close>

datatype persist_error =
  Io
| BadMagic
| UnsupportedVersion u16
| Crc
| BadField
| BadLen nat nat
| BadPath
| SeqOrder

definition MAX_RECORD_BYTES :: nat where "MAX_RECORD_BYTES = 1048576"
definition MAX_DOMAIN :: nat where "MAX_DOMAIN = 255"
definition MAX_QTYPE :: nat where "MAX_QTYPE = 32"
definition MAX_GROUP :: nat where "MAX_GROUP = 255"
definition MAX_CACHED_ANSWERS :: nat where "MAX_CACHED_ANSWERS = 256"
definition MAX_CHOSEN :: nat where "MAX_CHOSEN = 1024"
definition MAX_NAME :: nat where "MAX_NAME = 255"
definition MAX_RDATA :: nat where "MAX_RDATA = 65535"

subsection \<open>Times\<close>

text \<open>\<open>f64::round\<close>: half away from zero.\<close>

definition round_half_away :: "real \<Rightarrow> int" where
  "round_half_away x = (if x \<ge> 0 then \<lfloor>x + 1 / 2\<rfloor> else \<lceil>x - 1 / 2\<rceil>)"

definition i64_max :: int where "i64_max = 9223372036854775807"
definition i64_min :: int where "i64_min = -9223372036854775808"
definition u32_max :: int where "u32_max = 4294967295"

definition secs_to_ms_saturating :: "f64 \<Rightarrow> u64" where
  "secs_to_ms_saturating v =
     (case v of
        NaN \<Rightarrow> 0
      | PosInf \<Rightarrow> word_of_int i64_max
      | NegInf \<Rightarrow> word_of_int i64_min
      | Fin x \<Rightarrow>
          (let ms = x * 1000 in
           if ms \<ge> 2 ^ 63 then word_of_int i64_max
           else if ms \<le> of_int i64_min then word_of_int i64_min
           else word_of_int (min (round_half_away ms) i64_max)))"

definition ms_to_secs :: "u64 \<Rightarrow> real" where
  "ms_to_secs ms = of_int (sint ms) / 1000"

definition secs_to_ttl_ms :: "f64 \<Rightarrow> u32" where
  "secs_to_ttl_ms v =
     (case v of
        Fin x \<Rightarrow>
          if x \<le> 0 then 0
          else (let ms = x * 1000 in
                if ms \<ge> of_int u32_max then word_of_int u32_max else word_of_int (round_half_away ms))
      | _ \<Rightarrow> 0)"

subsection \<open>The cursor\<close>

record cur =
  c_buf :: bytes
  c_pos :: nat

type_synonym 'a reader = "cur \<Rightarrow> persist_error + 'a \<times> cur"

text \<open>Sequencing of reads: the cursor is threaded, the first error ends.\<close>

definition rret :: "'a \<Rightarrow> 'a reader" where
  "rret x c = Inr (x, c)"

definition rfail :: "persist_error \<Rightarrow> 'a reader" where
  "rfail e c = Inl e"

definition rbind :: "'a reader \<Rightarrow> ('a \<Rightarrow> 'b reader) \<Rightarrow> 'b reader" where
  "rbind f g c = (case f c of Inl e \<Rightarrow> Inl e | Inr (x, c') \<Rightarrow> g x c')"

definition cur_new :: "bytes \<Rightarrow> cur" where
  "cur_new buf = \<lparr>c_buf = buf, c_pos = 0\<rparr>"

definition cur_remaining :: "cur \<Rightarrow> nat" where
  "cur_remaining c = length (c_buf c) - c_pos c"

definition cur_take :: "nat \<Rightarrow> bytes reader" where
  "cur_take n c =
     (if cur_remaining c < n then Inl BadField
      else Inr (slice (c_buf c) (c_pos c) n, c\<lparr>c_pos := c_pos c + n\<rparr>))"

definition cur_u8 :: "u8 reader" where
  "cur_u8 c =
     (if cur_remaining c < 1 then Inl BadField
      else Inr (c_buf c ! c_pos c, c\<lparr>c_pos := c_pos c + 1\<rparr>))"

definition cur_u16 :: "u16 reader" where
  "cur_u16 c =
     (if cur_remaining c < 2 then Inl BadField
      else Inr (of_le [c_buf c ! c_pos c, c_buf c ! (c_pos c + 1)], c\<lparr>c_pos := c_pos c + 2\<rparr>))"

definition cur_u32 :: "u32 reader" where
  "cur_u32 c =
     (if cur_remaining c < 4 then Inl BadField
      else Inr (of_le (slice (c_buf c) (c_pos c) 4), c\<lparr>c_pos := c_pos c + 4\<rparr>))"

definition cur_u64 :: "u64 reader" where
  "cur_u64 c =
     (if cur_remaining c < 8 then Inl BadField
      else Inr (of_le (slice (c_buf c) (c_pos c) 8), c\<lparr>c_pos := c_pos c + 8\<rparr>))"

definition cur_bytes16 :: "bytes reader" where
  "cur_bytes16 = rbind cur_u16 (\<lambda>n. cur_take (unat n))"

text \<open>\<open>std::str::from_utf8\<close> on what was read.\<close>

definition cur_utf8 :: "bytes \<Rightarrow> str reader" where
  "cur_utf8 b = (if valid_utf8 b then rret b else rfail BadField)"

definition cur_str16 :: "str reader" where
  "cur_str16 = rbind cur_bytes16 cur_utf8"

subsection \<open>Keys\<close>

definition put_bytes16 :: "bytes \<Rightarrow> bytes \<Rightarrow> persist_error + bytes" where
  "put_bytes16 v out =
     (if length v > 65535 then Inl BadField else Inr (out @ le16 (word_of_nat (length v)) @ v))"

definition encode_key :: "cache_key \<Rightarrow> bytes \<Rightarrow> persist_error + bytes" where
  "encode_key k out =
     bindE (case key_group k of
              None \<Rightarrow> Inr (out @ le16 0)
            | Some g \<Rightarrow>
                if g = [] \<or> length g > MAX_GROUP then Inl BadField
                else Inr (out @ le16 (word_of_nat (length g)) @ g)) (\<lambda>out.
     let d = key_domain k in
     if d = [] \<or> length d > MAX_DOMAIN then Inl BadField
     else (let out = out @ le16 (word_of_nat (length d)) @ d; q = key_qtype k in
           if q = [] \<or> length q > MAX_QTYPE then Inl BadField
           else Inr (out @ le16 (word_of_nat (length q)) @ q)))"

definition decode_key :: "cache_key reader" where
  "decode_key =
     rbind cur_u16 (\<lambda>glen.
     if unat glen > MAX_GROUP then rfail BadField
     else rbind (if glen = 0 then rret None
                 else rbind (cur_take (unat glen)) (\<lambda>b. rbind (cur_utf8 b) (\<lambda>g. rret (Some g)))) (\<lambda>group.
     rbind cur_u16 (\<lambda>dlen.
     if dlen = 0 \<or> unat dlen > MAX_DOMAIN then rfail BadField
     else rbind (cur_take (unat dlen)) (\<lambda>b. rbind (cur_utf8 b) (\<lambda>domain.
     rbind cur_u16 (\<lambda>qlen.
     if qlen = 0 \<or> unat qlen > MAX_QTYPE then rfail BadField
     else rbind (cur_take (unat qlen)) (\<lambda>b. rbind (cur_utf8 b) (\<lambda>qtype.
     rret \<lparr>key_group = group, key_domain = domain, key_qtype = qtype\<rparr>))))))))"

subsection \<open>Entries\<close>

record answer_body =
  ab_fmt :: u8
  ab_rtype :: u16
  ab_ttl_ms :: u32
  ab_name :: "str option"
  ab_rdata :: bytes

record entry_body =
  eb_key :: cache_key
  eb_answers :: "answer_body list"
  eb_chosen :: str
  eb_ttl_ms :: u32
  eb_rcode :: u8
  eb_rule_gen :: u64
  eb_expires_at_ms :: u64

definition encode_answer_value :: "unicode_lib \<Rightarrow> u16 \<Rightarrow> str \<Rightarrow> u8 \<times> bytes" where
  "encode_answer_value U rtype value =
     (case encode_rdata U rtype value of
        Some wire \<Rightarrow>
          (let back = map_option as_display (parse_rdata wire 0 rtype (word_of_nat (length wire))) in
           if back = Some value \<and> length wire \<le> MAX_RDATA then (0, wire) else (1, value))
      | None \<Rightarrow> (1, value))"

definition decode_answer_value :: "u8 \<Rightarrow> u16 \<Rightarrow> bytes \<Rightarrow> str option" where
  "decode_answer_value fmt rtype rdata =
     (if fmt = 0 then
        (if length rdata > 65535 then None
         else map_option as_display (parse_rdata rdata 0 rtype (word_of_nat (length rdata))))
      else if fmt = 1 then (if valid_utf8 rdata then Some rdata else None)
      else None)"

fun answer_bodies :: "unicode_lib \<Rightarrow> cache_answer list \<Rightarrow> persist_error + answer_body list" where
  "answer_bodies U [] = Inr []"
| "answer_bodies U (a # as) =
     (let (fmt, rdata) = encode_answer_value U (ca_rtype a) (ca_value a) in
      if (case ca_name a of Some n \<Rightarrow> length n > MAX_NAME | None \<Rightarrow> False) then Inl BadField
      else bindE (answer_bodies U as) (\<lambda>bs.
        Inr (\<lparr>ab_fmt = fmt, ab_rtype = ca_rtype a, ab_ttl_ms = secs_to_ttl_ms (Fin (ca_ttl a)),
              ab_name = ca_name a, ab_rdata = rdata\<rparr> # bs)))"

definition from_entry :: "unicode_lib \<Rightarrow> cache_key \<Rightarrow> cache_entry \<Rightarrow> persist_error + entry_body" where
  "from_entry U k e =
     (if length (ce_answers e) > MAX_CACHED_ANSWERS then Inl BadField
      else if length (ce_chosen e) > MAX_CHOSEN then Inl BadField
      else bindE (answer_bodies U (ce_answers e)) (\<lambda>as.
        Inr \<lparr>eb_key = k, eb_answers = as, eb_chosen = ce_chosen e,
             eb_ttl_ms = secs_to_ttl_ms (Fin (ce_ttl e)), eb_rcode = ce_rcode e,
             eb_rule_gen = ce_rule_gen e, eb_expires_at_ms = secs_to_ms_saturating (Fin (ce_expires_at e))\<rparr>))"

fun cache_answers :: "answer_body list \<Rightarrow> persist_error + cache_answer list" where
  "cache_answers [] = Inr []"
| "cache_answers (a # as) =
     bindE (ok_or (decode_answer_value (ab_fmt a) (ab_rtype a) (ab_rdata a)) BadField) (\<lambda>value.
     bindE (cache_answers as) (\<lambda>cs.
       Inr (\<lparr>ca_value = value, ca_ttl = real (unat (ab_ttl_ms a)) / 1000, ca_rtype = ab_rtype a,
             ca_name = ab_name a\<rparr> # cs)))"

definition to_entry :: "entry_body \<Rightarrow> persist_error + cache_entry" where
  "to_entry b =
     bindE (cache_answers (eb_answers b)) (\<lambda>as.
       Inr \<lparr>ce_domain = key_domain (eb_key b), ce_qtype = key_qtype (eb_key b), ce_answers = as,
            ce_chosen = eb_chosen b, ce_ttl = real (unat (eb_ttl_ms b)) / 1000, ce_rcode = eb_rcode b,
            ce_expires_at = ms_to_secs (eb_expires_at_ms b), ce_rule_gen = eb_rule_gen b, ce_seq = 0\<rparr>)"

fun encode_answer_bodies :: "answer_body list \<Rightarrow> bytes \<Rightarrow> persist_error + bytes" where
  "encode_answer_bodies [] out = Inr out"
| "encode_answer_bodies (a # as) out =
     (let out = out @ le16 (word_of_nat (min (length (ab_rdata a)) 65535)) @ [ab_fmt a]
                  @ le16 (ab_rtype a) @ le32 (ab_ttl_ms a) in
      bindE (case ab_name a of
               None \<Rightarrow> Inr (out @ [0] @ le16 0)
             | Some n \<Rightarrow> put_bytes16 n (out @ [1])) (\<lambda>out.
      encode_answer_bodies as (out @ ab_rdata a)))"

definition entry_encode :: "entry_body \<Rightarrow> bytes \<Rightarrow> persist_error + bytes" where
  "entry_encode b out =
     bindE (encode_key (eb_key b) out) (\<lambda>out.
     let out = out @ le32 (word_of_nat (length (eb_answers b))) in
     bindE (encode_answer_bodies (eb_answers b) out) (\<lambda>out.
     bindE (put_bytes16 (eb_chosen b) out) (\<lambda>out.
     let out = out @ le32 (eb_ttl_ms b) @ [eb_rcode b] @ le64 (eb_rule_gen b) @ le64 (eb_expires_at_ms b) in
     if length out > MAX_RECORD_BYTES then Inl BadField else Inr out)))"

definition decode_answer :: "answer_body reader" where
  "decode_answer =
     rbind cur_u16 (\<lambda>rlen. rbind cur_u8 (\<lambda>fmt.
     if fmt > 1 then rfail BadField
     else rbind cur_u16 (\<lambda>rtype. rbind cur_u32 (\<lambda>ttl. rbind cur_u8 (\<lambda>present. rbind cur_u16 (\<lambda>nlen.
     if present > 1 then rfail BadField
     else if present = 0 \<and> nlen \<noteq> 0 then rfail BadField
     else if unat nlen > MAX_NAME then rfail BadField
     else rbind (if present = 1 then
                   rbind (cur_take (unat nlen)) (\<lambda>b. rbind (cur_utf8 b) (\<lambda>n. rret (Some n)))
                 else rret None) (\<lambda>name.
     if unat rlen > MAX_RDATA then rfail BadField
     else rbind (cur_take (unat rlen)) (\<lambda>rdata.
     rret \<lparr>ab_fmt = fmt, ab_rtype = rtype, ab_ttl_ms = ttl, ab_name = name, ab_rdata = rdata\<rparr>))))))))"

fun decode_answers :: "nat \<Rightarrow> answer_body list reader" where
  "decode_answers 0 = rret []"
| "decode_answers (Suc n) =
     rbind decode_answer (\<lambda>a. rbind (decode_answers n) (\<lambda>as. rret (a # as)))"

definition decode_body :: "entry_body reader" where
  "decode_body =
     rbind decode_key (\<lambda>k. rbind cur_u32 (\<lambda>n.
     if unat n > MAX_CACHED_ANSWERS then rfail BadField
     else rbind (decode_answers (unat n)) (\<lambda>as. rbind cur_str16 (\<lambda>chosen.
     if length chosen > MAX_CHOSEN then rfail BadField
     else rbind cur_u32 (\<lambda>ttl. rbind cur_u8 (\<lambda>rc. rbind cur_u64 (\<lambda>gen. rbind cur_u64 (\<lambda>expires.
     rret \<lparr>eb_key = k, eb_answers = as, eb_chosen = chosen, eb_ttl_ms = ttl, eb_rcode = rc,
           eb_rule_gen = gen, eb_expires_at_ms = expires\<rparr>))))))))"

definition entry_decode :: "bytes \<Rightarrow> persist_error + entry_body" where
  "entry_decode buf =
     (if length buf > MAX_RECORD_BYTES then Inl BadField
      else bindE (decode_body (cur_new buf)) (\<lambda>(b, c).
        if cur_remaining c \<noteq> 0 then Inl BadField else Inr b))"

end
