(* ===== verification/Wal.thy ===== *)
theory Wal
  imports Entry_Codec
begin

text \<open>
  \<open>ebpdns-cache/src/persist/wal.rs\<close>: the segment log \<open>cache.wal.<base_seq>\<close>.  A segment is a header of
  32 bytes and a sequence of frames \<open>type, length, checksum, body\<close>; the checksum covers type, length
  and body.

  A file is the list of its bytes.  The writer keeps the position of its file handle; a write that
  fails part way is an argument of \<open>append_bytes\<close> (\<open>Some n\<close>: \<open>n\<close> bytes reached the file before the error).
  Reads of an existing file do not fail; \<open>fsync\<close> has no effect on the bytes.
\<close>

definition WAL_MAGIC :: bytes where "WAL_MAGIC = lit ''EBPCWAL2''"
definition WAL_VERSION :: u16 where "WAL_VERSION = 2"
definition HEADER_LEN :: nat where "HEADER_LEN = 32"
definition REC_HDR_LEN :: nat where "REC_HDR_LEN = 9"

definition T_PUT :: u8 where "T_PUT = 1"
definition T_EVICT :: u8 where "T_EVICT = 2"
definition T_CLEAR :: u8 where "T_CLEAR = 3"
definition T_COMMIT :: u8 where "T_COMMIT = 4"

subsection \<open>The segment header\<close>

datatype wal_open_err = OpenIo | BadHeader | OpenUnsupported u16

definition header_bytes :: "u64 \<Rightarrow> u64 \<Rightarrow> bytes" where
  "header_bytes base_seq created_ms =
     (let h = WAL_MAGIC @ le16 WAL_VERSION @ le16 0 @ le64 base_seq @ le64 created_ms
      in h @ le32 (crc32c h))"

definition read_header :: "bytes \<Rightarrow> wal_open_err + u64" where
  "read_header f =
     (if length f < HEADER_LEN then Inl BadHeader
      else let h = take HEADER_LEN f; version = of_le (slice h 8 2) in
        if take 8 h \<noteq> WAL_MAGIC then Inl BadHeader
        else if version \<noteq> WAL_VERSION then Inl (OpenUnsupported version)
        else if crc32c (take 28 h) \<noteq> of_le (slice h 28 4) then Inl BadHeader
        else Inr (of_le (slice h 12 8)))"

subsection \<open>Encoding of records\<close>

definition frame :: "u8 \<Rightarrow> bytes \<Rightarrow> bytes" where
  "frame typ body =
     (let len = le32 (word_of_nat (length body)) in
      typ # len @ le32 (crc32c (typ # len @ body)) @ body)"

definition encode_put :: "u64 \<Rightarrow> entry_body \<Rightarrow> persist_error + bytes" where
  "encode_put seq e =
     bindE (entry_encode e []) (\<lambda>eb.
     if length eb > MAX_RECORD_BYTES - 8 then Inl BadField
     else Inr (frame T_PUT (le64 seq @ eb)))"

definition encode_evict :: "u64 \<Rightarrow> cache_key \<Rightarrow> u8 \<Rightarrow> persist_error + bytes" where
  "encode_evict seq key reason =
     bindE (encode_key key (le64 seq @ [reason])) (\<lambda>body. Inr (frame T_EVICT body))"

definition encode_clear :: "u64 \<Rightarrow> u8 \<Rightarrow> bytes" where
  "encode_clear seq reason = frame T_CLEAR (le64 seq @ [reason])"

definition encode_commit :: "u64 \<Rightarrow> u64 \<Rightarrow> u32 \<Rightarrow> u32 \<Rightarrow> bytes" where
  "encode_commit seq committed_ms record_count bytes =
     frame T_COMMIT (le64 seq @ le64 committed_ms @ le32 record_count @ le32 bytes)"

subsection \<open>The writer\<close>

record wal_writer =
  ww_data :: bytes
  ww_at :: nat
  ww_base_seq :: u64
  ww_bytes :: nat
  ww_valid_len :: nat

text \<open>\<open>write_all\<close> at the position of the handle, and \<open>set_len\<close>.\<close>

definition write_at :: "bytes \<Rightarrow> nat \<Rightarrow> bytes \<Rightarrow> bytes" where
  "write_at f p bs = take p (f @ replicate (p - length f) 0) @ bs @ drop (p + length bs) f"

definition set_len :: "bytes \<Rightarrow> nat \<Rightarrow> bytes" where
  "set_len f n = take n f @ replicate (n - length f) 0"

definition wal_create :: "u64 \<Rightarrow> u64 \<Rightarrow> wal_writer" where
  "wal_create base_seq created_ms =
     \<lparr>ww_data = header_bytes base_seq created_ms, ww_at = HEADER_LEN, ww_base_seq = base_seq,
      ww_bytes = HEADER_LEN, ww_valid_len = HEADER_LEN\<rparr>"

definition wal_open_append :: "bytes \<Rightarrow> u64 \<Rightarrow> nat \<Rightarrow> persist_error + wal_writer" where
  "wal_open_append f base_seq valid_len =
     (case read_header f of
        Inl OpenIo \<Rightarrow> Inl Io
      | Inl (OpenUnsupported v) \<Rightarrow> Inl (UnsupportedVersion v)
      | Inl BadHeader \<Rightarrow> Inl BadField
      | Inr got \<Rightarrow>
          if got \<noteq> base_seq then Inl BadField
          else if valid_len < HEADER_LEN \<or> valid_len > length f then Inl BadField
          else Inr \<lparr>ww_data = (if valid_len \<noteq> length f then set_len f valid_len else f),
                    ww_at = valid_len, ww_base_seq = base_seq, ww_bytes = valid_len,
                    ww_valid_len = valid_len\<rparr>)"

definition append_bytes :: "nat option \<Rightarrow> bytes \<Rightarrow> wal_writer \<Rightarrow> (persist_error + unit) \<times> wal_writer" where
  "append_bytes failed bs w =
     (case failed of
        Some n \<Rightarrow>
          (let written = take n bs in
           (Inl Io, w\<lparr>ww_data := write_at (ww_data w) (ww_at w) written,
                      ww_at := ww_at w + length written\<rparr>))
      | None \<Rightarrow>
          (let bytes = ww_bytes w + length bs in
           (Inr (), w\<lparr>ww_data := write_at (ww_data w) (ww_at w) bs, ww_at := ww_at w + length bs,
                      ww_bytes := bytes, ww_valid_len := bytes\<rparr>)))"

definition truncate_to_valid :: "wal_writer \<Rightarrow> wal_writer" where
  "truncate_to_valid w =
     w\<lparr>ww_data := set_len (ww_data w) (ww_valid_len w), ww_at := ww_valid_len w,
       ww_bytes := ww_valid_len w\<rparr>"

subsection \<open>The reader\<close>

datatype wal_err =
  Tail (tail_valid_len: nat) (tail_trailing: nat)
| Corrupt (corrupt_off: nat)

datatype wal_rec =
  Put u64 entry_body
| Evict u64 cache_key u8
| Clear u64 u8
| Commit u64 u64 u32 u32

fun wal_rec_seq :: "wal_rec \<Rightarrow> u64" where
  "wal_rec_seq (Put seq _) = seq"
| "wal_rec_seq (Evict seq _ _) = seq"
| "wal_rec_seq (Clear seq _) = seq"
| "wal_rec_seq (Commit seq _ _ _) = seq"

datatype wal_item = Rec wal_rec | BadContent

record wal_reader =
  wr_data :: bytes
  wr_base_seq :: u64
  wr_file_len :: nat
  wr_pos :: nat
  wr_last_seq :: "u64 option"

definition wal_open :: "bytes \<Rightarrow> u64 \<Rightarrow> wal_open_err + wal_reader" where
  "wal_open f expected_base =
     bindE (read_header f) (\<lambda>got.
     if got \<noteq> expected_base then Inl BadHeader
     else if length f < HEADER_LEN then Inl BadHeader
     else Inr \<lparr>wr_data = f, wr_base_seq = got, wr_file_len = length f, wr_pos = HEADER_LEN,
               wr_last_seq = None\<rparr>)"

definition rest_is_all_zero :: "wal_reader \<Rightarrow> nat \<Rightarrow> nat \<Rightarrow> bool" where
  "rest_is_all_zero r off n =
     (if n > MAX_RECORD_BYTES then False else list_all (\<lambda>b. b = 0) (slice (wr_data r) off n))"

text \<open>\<open>Inl ()\<close>: the segment is corrupt; \<open>Inr None\<close>: the frame is sound, its content is not usable.\<close>

definition decode_record :: "u8 \<Rightarrow> bytes \<Rightarrow> unit + wal_rec option" where
  "decode_record typ body =
     (if typ = T_PUT then
        (if length body < 8 then Inr None
         else case entry_decode (drop 8 body) of
                Inr b \<Rightarrow> Inr (Some (Put (of_le (take 8 body)) b))
              | Inl _ \<Rightarrow> Inr None)
      else if typ = T_EVICT then
        (if length body < 9 then Inr None
         else let reason = body ! 8 in
           if \<not> (1 \<le> reason \<and> reason \<le> 5) then Inr None
           else case decode_key (cur_new (drop 9 body)) of
                  Inr (key, c) \<Rightarrow>
                    if cur_remaining c = 0 then Inr (Some (Evict (of_le (take 8 body)) key reason)) else Inr None
                | Inl _ \<Rightarrow> Inr None)
      else if typ = T_CLEAR then
        (if length body \<noteq> 9 then Inr None
         else let reason = body ! 8 in
           if \<not> (1 \<le> reason \<and> reason \<le> 4) then Inr None
           else Inr (Some (Clear (of_le (take 8 body)) reason)))
      else if typ = T_COMMIT then
        (if length body \<noteq> 24 then Inr None
         else Inr (Some (Commit (of_le (take 8 body)) (of_le (slice body 8 8)) (of_le (slice body 16 4))
                                (of_le (slice body 20 4)))))
      else Inl ())"

definition wal_next :: "wal_reader \<Rightarrow> (wal_err + wal_item option) \<times> wal_reader" where
  "wal_next r =
     (let start = wr_pos r; remaining = wr_file_len r - start in
      if remaining = 0 then (Inr None, r)
      else if remaining < REC_HDR_LEN then (Inl (Tail start remaining), r)
      else
        let hdr = slice (wr_data r) start REC_HDR_LEN;
            typ = hdr ! 0;
            blen32 = of_le (slice hdr 1 4) :: u32;
            blen = unat blen32;
            want_crc = of_le (slice hdr 5 4) in
        if blen > MAX_RECORD_BYTES then
          (if remaining < REC_HDR_LEN + blen then (Inl (Tail start remaining), r)
           else (Inl (Corrupt start), r))
        else if remaining < REC_HDR_LEN + blen then (Inl (Tail start remaining), r)
        else
          let body = slice (wr_data r) (start + REC_HDR_LEN) blen;
              next_pos = start + REC_HDR_LEN + blen in
          if crc32c (typ # le32 blen32 @ body) \<noteq> want_crc then
            (let after = wr_file_len r - next_pos in
             if after = 0 \<or> rest_is_all_zero r next_pos after then (Inl (Tail start remaining), r)
             else (Inr (Some BadContent), r\<lparr>wr_pos := next_pos\<rparr>))
          else
            case decode_record typ body of
              Inr (Some rec) \<Rightarrow> (Inr (Some (Rec rec)), r\<lparr>wr_last_seq := Some (wal_rec_seq rec), wr_pos := next_pos\<rparr>)
            | Inr None \<Rightarrow> (Inr (Some BadContent), r\<lparr>wr_pos := next_pos\<rparr>)
            | Inl _ \<Rightarrow> (Inl (Corrupt start), r))"

end
