(* ===== verification/Snapshot.thy ===== *)
theory Snapshot
  imports Entry_Codec
begin

text \<open>
  \<open>ebpdns-cache/src/persist/snapshot.rs\<close>: the binary snapshot \<open>cache.snap.<seq>\<close>.  A header of 64 bytes,
  the records (length, type, payload, checksum), a footer of 40 bytes; header and footer repeat the
  counts and have their own checksums, the footer holds the checksum of all record bytes.

  A file is the list of its bytes; \<open>read_exact\<close> past the end is \<open>Io\<close>.  The counters keep their width, so
  that \<open>left -= ...\<close> wraps around as it does in a release build.
\<close>

definition SNAP_MAGIC :: bytes where "SNAP_MAGIC = lit ''EBPCSNP2''"
definition FOOT_MAGIC :: bytes where "FOOT_MAGIC = lit ''EBPCEOF2''"
definition SNAP_VERSION :: u16 where "SNAP_VERSION = 2"
definition SNAP_HEADER_LEN :: nat where "SNAP_HEADER_LEN = 64"
definition FOOTER_LEN :: nat where "FOOTER_LEN = 40"
definition REC_OVERHEAD :: u64 where "REC_OVERHEAD = 12"
definition REC_TYPE_ENTRY :: u8 where "REC_TYPE_ENTRY = 1"

record snapshot_meta =
  sm_seq :: u64
  sm_count :: u32
  sm_file_len :: nat
  sm_crc :: u32

definition snap_header :: "u64 \<Rightarrow> u64 \<Rightarrow> u32 \<Rightarrow> u64 \<Rightarrow> bytes" where
  "snap_header seq created_ms count record_bytes =
     (let h = SNAP_MAGIC @ le16 SNAP_VERSION @ le16 0 @ le32 64 @ le64 seq @ le64 created_ms
              @ le32 count @ le32 0 @ le64 record_bytes @ le64 0;
          reserved2 = le32 0
      in h @ le32 (crc32c (h @ reserved2)) @ reserved2)"

definition snap_footer :: "u32 \<Rightarrow> u64 \<Rightarrow> u64 \<Rightarrow> u32 \<Rightarrow> bytes" where
  "snap_footer count seq record_bytes body_crc =
     (let f = FOOT_MAGIC @ le64 (ucast count) @ le64 seq @ le64 record_bytes @ le32 body_crc
      in f @ le32 (crc32c f))"

subsection \<open>Writing\<close>

record snap_writer =
  sw_data :: bytes
  sw_seq :: u64
  sw_created_ms :: u64
  sw_count :: u32
  sw_record_bytes :: u64
  sw_body_crc :: u32

definition snap_create :: "u64 \<Rightarrow> u64 \<Rightarrow> snap_writer" where
  "snap_create seq created_ms =
     \<lparr>sw_data = snap_header seq created_ms 0 0, sw_seq = seq, sw_created_ms = created_ms, sw_count = 0,
      sw_record_bytes = 0, sw_body_crc = NOT 0\<rparr>"

definition u32_sat_inc :: "u32 \<Rightarrow> u32" where
  "u32_sat_inc n = (if n = - 1 then n else n + 1)"

definition snap_push :: "u64 \<Rightarrow> entry_body \<Rightarrow> snap_writer \<Rightarrow> persist_error + snap_writer" where
  "snap_push entry_seq body w =
     bindE (entry_encode body (le64 entry_seq)) (\<lambda>payload.
     if length payload > MAX_RECORD_BYTES then Inl BadField
     else let rec = le32 (word_of_nat (length payload)) @ [REC_TYPE_ENTRY, 0] @ le16 0 @ payload;
              rec = rec @ le32 (crc32c rec) in
       Inr (w\<lparr>sw_body_crc := crc32c_update (sw_body_crc w) rec,
              sw_record_bytes := sw_record_bytes w + word_of_nat (length rec),
              sw_count := u32_sat_inc (sw_count w),
              sw_data := sw_data w @ rec\<rparr>))"

definition snap_finish :: "snap_writer \<Rightarrow> bytes \<times> snapshot_meta" where
  "snap_finish w =
     (let body_crc = crc32c_finalize (sw_body_crc w);
          data = sw_data w @ snap_footer (sw_count w) (sw_seq w) (sw_record_bytes w) body_crc;
          data = snap_header (sw_seq w) (sw_created_ms w) (sw_count w) (sw_record_bytes w) @ drop SNAP_HEADER_LEN data
      in (data, \<lparr>sm_seq = sw_seq w, sm_count = sw_count w, sm_file_len = length data, sm_crc = body_crc\<rparr>))"

subsection \<open>Reading\<close>

record snap_reader =
  sr_data :: bytes
  sr_file_len :: nat
  sr_seq :: u64
  sr_count :: u32
  sr_record_bytes :: u64
  sr_body_crc :: u32

definition snap_open :: "bytes \<Rightarrow> persist_error + snap_reader" where
  "snap_open data =
     (let file_len = length data in
      if file_len < SNAP_HEADER_LEN + FOOTER_LEN then Inl (BadLen (SNAP_HEADER_LEN + FOOTER_LEN) file_len)
      else let h = take SNAP_HEADER_LEN data; version = of_le (slice h 8 2) in
      if take 8 h \<noteq> SNAP_MAGIC then Inl BadMagic
      else if version \<noteq> SNAP_VERSION then Inl (UnsupportedVersion version)
      else if unat (of_le (slice h 12 4) :: u32) \<noteq> SNAP_HEADER_LEN then Inl BadField
      else if of_le (slice h 60 4) \<noteq> (0 :: u32) then Inl BadField
      else if crc32c (take 56 h @ slice h 60 4) \<noteq> of_le (slice h 56 4) then Inl Crc
      else let snapshot_seq = of_le (slice h 16 8);
               entry_count = of_le (slice h 32 4) :: u32;
               record_bytes = of_le (slice h 40 8) :: u64;
               expect = 64 + record_bytes + 40 in
      if word_of_nat file_len \<noteq> expect then Inl (BadLen (unat expect) file_len)
      else if unat entry_count > (file_len - 104) div 12 then Inl BadField
      else let foot = slice data (file_len - FOOTER_LEN) FOOTER_LEN in
      if take 8 foot \<noteq> FOOT_MAGIC then Inl BadMagic
      else if crc32c (take 36 foot) \<noteq> of_le (slice foot 36 4) then Inl Crc
      else if of_le (slice foot 8 8) \<noteq> (ucast entry_count :: u64) then Inl BadField
      else if of_le (slice foot 16 8) \<noteq> snapshot_seq then Inl BadField
      else if of_le (slice foot 24 8) \<noteq> record_bytes then Inl BadField
      else Inr \<lparr>sr_data = data, sr_file_len = file_len, sr_seq = snapshot_seq, sr_count = entry_count,
                sr_record_bytes = record_bytes, sr_body_crc = of_le (slice foot 32 4)\<rparr>)"

text \<open>The callback of \<open>for_each\<close> threads the state of its caller.\<close>

type_synonym 's callback = "u64 \<Rightarrow> cache_key \<Rightarrow> entry_body \<Rightarrow> 's \<Rightarrow> persist_error + 's"

function snap_loop ::
  "bytes \<Rightarrow> 's callback \<Rightarrow> nat \<Rightarrow> u64 \<Rightarrow> u32 \<Rightarrow> u32 \<Rightarrow> u32 \<Rightarrow> 's \<Rightarrow> persist_error + u32 \<times> u32 \<times> u32 \<times> 's"
where
  "snap_loop data f pos left body_crc seen failed s =
     (if left = 0 then Inr (body_crc, seen, failed, s)
      else if left < REC_OVERHEAD then Inl BadField
      else if pos + 8 > length data then Inl Io
      else let head = slice data pos 8; plen = of_le (take 4 head) :: u32 in
      if head ! 4 \<noteq> REC_TYPE_ENTRY then Inl BadField
      else if unat plen > MAX_RECORD_BYTES then Inl BadField
      else if pos + 8 + unat plen > length data then Inl Io
      else if pos + 8 + unat plen + 4 > length data then Inl Io
      else let payload = slice data (pos + 8) (unat plen);
               crcb = slice data (pos + 8 + unat plen) 4;
               rec = head @ payload;
               next = snap_loop data f (pos + 12 + unat plen) (left - (REC_OVERHEAD + ucast plen))
                 (crc32c_update (crc32c_update body_crc rec) crcb) (u32_sat_inc seen) in
      if crc32c rec \<noteq> of_le crcb then next (u32_sat_inc failed) s
      else if length payload < 8 then next (u32_sat_inc failed) s
      else case entry_decode (drop 8 payload) of
             Inl _ \<Rightarrow> next (u32_sat_inc failed) s
           | Inr body \<Rightarrow>
               (case f (of_le (take 8 payload)) (eb_key body) body s of
                  Inl e \<Rightarrow> Inl e
                | Inr s' \<Rightarrow> next failed s'))"
  by pat_completeness auto
termination
  by (relation "measure (\<lambda>(data, f, pos, _). length data - pos)") auto

declare snap_loop.simps [simp del]

record record_scan =
  rs_ok :: u32
  rs_failed :: u32

definition snap_for_each :: "'s callback \<Rightarrow> snap_reader \<Rightarrow> 's \<Rightarrow> persist_error + record_scan \<times> 's" where
  "snap_for_each f r s =
     bindE (snap_loop (sr_data r) f SNAP_HEADER_LEN (sr_record_bytes r) (NOT 0) 0 0 s)
       (\<lambda>(body_crc, seen, failed, s).
     if crc32c_finalize body_crc \<noteq> sr_body_crc r \<and> failed = 0 then Inl Crc
     else if seen \<noteq> sr_count r then Inl BadField
     else Inr (\<lparr>rs_ok = (if seen < failed then 0 else seen - failed), rs_failed = failed\<rparr>, s))"

end
