(* ===== verification/Manifest.thy ===== *)
theory Manifest
  imports Entry_Codec Text
begin

text \<open>
  \<open>ebpdns-cache/src/persist/manifest.rs\<close> and the file-name check of \<open>persist/mod.rs\<close>: the atomic pointer to
  the snapshot and the log segments.  A fixed header, the file names, the segment bases and a checksum
  over all of it; version 2 (32-bit snapshot size) is still read.
\<close>

definition MANIFEST_MAX_BYTES :: nat where "MANIFEST_MAX_BYTES = 8192"
definition MANIFEST_MAGIC :: bytes where "MANIFEST_MAGIC = lit ''EBPC''"
definition MANIFEST_VERSION :: u16 where "MANIFEST_VERSION = 3"
definition MANIFEST_VERSION_V2 :: u16 where "MANIFEST_VERSION_V2 = 2"
definition FLAG_MIGRATED_FROM_V1 :: u16 where "FLAG_MIGRATED_FROM_V1 = 1"
definition FLAG_CLEAN_SHUTDOWN :: u16 where "FLAG_CLEAN_SHUTDOWN = 2"
definition MAX_WAL_SEGMENTS :: nat where "MAX_WAL_SEGMENTS = 8"

record manifest =
  m_flags :: u16
  m_seq :: u64
  m_snapshot_seq :: u64
  m_committed_ms :: u64
  m_snap_bytes :: u64
  m_snap_crc32c :: u32
  m_snap_entries :: u32
  m_snap_path :: str
  m_wal_paths :: "str list"
  m_wal_base_seq :: "u64 list"
  m_wal_bytes :: u64

text \<open>A relative file name: not empty, no separator, no leading dot.\<close>

definition is_safe_leaf :: "str \<Rightarrow> bool" where
  "is_safe_leaf name \<longleftrightarrow>
     (if name = [] \<or> length name > 255 then False
      else if hd name = 46 then False
      else 47 \<notin> set name \<and> 92 \<notin> set name \<and> name \<noteq> lit ''..'' \<and> name \<noteq> lit ''.'')"

text \<open>A decimal \<open>u64\<close> without leading zeros.\<close>

definition parse_seq :: "str \<Rightarrow> u64 option" where
  "parse_seq s =
     (if s = [] \<or> length s > 20 then None
      else if length s > 1 \<and> hd s = 48 then None
      else if \<not> list_all ascii_digit s then None
      else map_option word_of_nat (parse_uint 18446744073709551615 s))"

subsection \<open>Encoding\<close>

definition manifest_encode :: "manifest \<Rightarrow> persist_error + bytes" where
  "manifest_encode m =
     (if length (m_wal_paths m) > MAX_WAL_SEGMENTS \<or> length (m_wal_base_seq m) \<noteq> length (m_wal_paths m)
      then Inl BadField
      else if \<not> is_safe_leaf (m_snap_path m) then Inl BadPath
      else if \<not> list_all is_safe_leaf (m_wal_paths m) then Inl BadPath
      else
        let s = m_snap_path m;
            out = MANIFEST_MAGIC @ le16 MANIFEST_VERSION @ le16 (m_flags m) @ le64 (m_seq m)
              @ le64 (m_snapshot_seq m) @ le64 (m_committed_ms m) @ le64 (m_snap_bytes m)
              @ le32 (m_snap_crc32c m) @ le32 (m_snap_entries m) in
        if s = [] \<or> length s > 255 then Inl BadField
        else
          let out = out @ le16 (word_of_nat (length s)) @ le16 (word_of_nat (length (m_wal_paths m))) @ s in
          if \<not> list_all (\<lambda>p. length p \<le> 255) (m_wal_paths m) then Inl BadField
          else
            let out = out @ concat (map (\<lambda>p. le16 (word_of_nat (length p))) (m_wal_paths m))
                      @ concat (m_wal_paths m) @ concat (map le64 (m_wal_base_seq m)) @ le64 (m_wal_bytes m);
                out = out @ le32 (crc32c out) in
            if length out > MANIFEST_MAX_BYTES then Inl BadField else Inr out)"

subsection \<open>Decoding\<close>

fun read_path_lens :: "nat \<Rightarrow> nat list reader" where
  "read_path_lens 0 = rret []"
| "read_path_lens (Suc w) =
     rbind cur_u16 (\<lambda>n. if n = 0 \<or> unat n > 255 then rfail BadField
                        else rbind (read_path_lens w) (\<lambda>ns. rret (unat n # ns)))"

fun read_paths :: "nat list \<Rightarrow> str list reader" where
  "read_paths [] = rret []"
| "read_paths (n # ns) =
     rbind (cur_take n) (\<lambda>b. rbind (cur_utf8 b) (\<lambda>p. rbind (read_paths ns) (\<lambda>ps. rret (p # ps))))"

fun read_u64s :: "nat \<Rightarrow> u64 list reader" where
  "read_u64s 0 = rret []"
| "read_u64s (Suc w) = rbind cur_u64 (\<lambda>b. rbind (read_u64s w) (\<lambda>bs. rret (b # bs)))"

text \<open>The fields, in the order of the file; \<open>body_len\<close> is the length of all but the checksum.\<close>

definition read_manifest :: "nat \<Rightarrow> manifest reader" where
  "read_manifest body_len =
     rbind (cur_take 4) (\<lambda>_. rbind cur_u16 (\<lambda>version.
     if version \<noteq> MANIFEST_VERSION \<and> version \<noteq> MANIFEST_VERSION_V2 then rfail (UnsupportedVersion version)
     else
       let legacy = (version = MANIFEST_VERSION_V2); header_len = (if legacy then 48 else 52) in
     rbind cur_u16 (\<lambda>flags. rbind cur_u64 (\<lambda>seq. rbind cur_u64 (\<lambda>snapshot_seq. rbind cur_u64 (\<lambda>committed_ms.
     rbind (if legacy then rbind cur_u32 (\<lambda>n. rret (ucast n)) else cur_u64) (\<lambda>snap_bytes.
     rbind cur_u32 (\<lambda>snap_crc. rbind cur_u32 (\<lambda>snap_entries.
     rbind cur_u16 (\<lambda>slen. rbind cur_u16 (\<lambda>w.
     if slen = 0 \<or> unat slen > 255 then rfail BadField
     else if unat w > MAX_WAL_SEGMENTS then rfail BadField
     else
       let head_need = header_len + unat slen + 2 * unat w in
     if body_len < head_need then rfail (BadLen head_need body_len)
     else
     rbind (cur_take (unat slen)) (\<lambda>b. rbind (cur_utf8 b) (\<lambda>snap_path.
     rbind (read_path_lens (unat w)) (\<lambda>lens.
       let need = header_len + unat slen + 2 * unat w + sum_list lens + 8 * unat w + 8 in
     if body_len \<noteq> need then rfail (BadLen need body_len)
     else
     rbind (read_paths lens) (\<lambda>wal_paths. rbind (read_u64s (unat w)) (\<lambda>wal_base_seq.
     rbind cur_u64 (\<lambda>wal_bytes.
     rret \<lparr>m_flags = flags, m_seq = seq, m_snapshot_seq = snapshot_seq, m_committed_ms = committed_ms,
           m_snap_bytes = snap_bytes, m_snap_crc32c = snap_crc, m_snap_entries = snap_entries,
           m_snap_path = snap_path, m_wal_paths = wal_paths, m_wal_base_seq = wal_base_seq,
           m_wal_bytes = wal_bytes\<rparr>)))))))))))))))))"

definition path_suffix_is :: "str \<Rightarrow> str \<Rightarrow> u64 \<Rightarrow> bool" where
  "path_suffix_is prefix p seq \<longleftrightarrow>
     (case strip_prefix prefix p of Some got \<Rightarrow> parse_seq got = Some seq | None \<Rightarrow> False)"

fun strictly_increasing :: "u64 list \<Rightarrow> bool" where
  "strictly_increasing (a # b # bs) \<longleftrightarrow> a < b \<and> strictly_increasing (b # bs)"
| "strictly_increasing _ \<longleftrightarrow> True"

definition manifest_decode :: "bytes \<Rightarrow> str \<Rightarrow> persist_error + manifest" where
  "manifest_decode raw base =
     (if length raw > MANIFEST_MAX_BYTES then Inl BadField
      else if length raw < 61 then Inl (BadLen 61 (length raw))
      else if take 4 raw \<noteq> MANIFEST_MAGIC then Inl BadMagic
      else
        let body = take (length raw - 4) raw in
        if crc32c body \<noteq> of_le (slice raw (length raw - 4) 4) then Inl Crc
        else bindE (read_manifest (length body) (cur_new body)) (\<lambda>(m, c).
          if cur_remaining c \<noteq> 0 then Inl BadField
          else if \<not> is_safe_leaf (m_snap_path m) then Inl BadPath
          else if \<not> path_suffix_is (base @ lit ''.snap.'') (m_snap_path m) (m_snapshot_seq m) then Inl BadPath
          else if \<not> list_all2 (\<lambda>p b. is_safe_leaf p \<and> path_suffix_is (base @ lit ''.wal.'') p b)
                    (m_wal_paths m) (m_wal_base_seq m) then Inl BadPath
          else if \<not> strictly_increasing (m_wal_base_seq m) then Inl BadField
          else Inr m))"

definition migrated_from_v1 :: "manifest \<Rightarrow> bool" where
  "migrated_from_v1 m \<longleftrightarrow> m_flags m AND FLAG_MIGRATED_FROM_V1 \<noteq> 0"

definition clean_shutdown :: "manifest \<Rightarrow> bool" where
  "clean_shutdown m \<longleftrightarrow> m_flags m AND FLAG_CLEAN_SHUTDOWN \<noteq> 0"

end
