(* ===== verification/Recover.thy ===== *)
theory Recover
  imports Wal Snapshot Manifest "HOL-Library.AList" "HOL-Library.List_Lexorder"
    "HOL-Library.Product_Lexorder" "HOL-Library.Option_ord"
begin

text \<open>
  \<open>ebpdns-cache/src/persist/recover.rs\<close>: recovery from the manifest, the snapshot it names and the log
  segments it lists.

  A directory maps file names to contents; the modification time of the snapshot is an argument.  The
  \<open>HashMap\<close> of the state is an association list with distinct keys, whose order the final sort forgets.
  \<open>i64\<close> milliseconds are compared as \<open>int\<close>; the counters of a run (failed records, tails) are \<open>nat\<close>.  The
  detail texts of the errors are left out.
\<close>

type_synonym dir = "str \<Rightarrow> bytes option"

datatype recover_error = RCorrupt | RUnsupported u16 | RIo

datatype restore_source =
  SNone | V1Json | V1Bak | Migrated | V2Snapshot | V2SnapshotWal | WalTruncated | SCorrupt | SUnsupported

type_synonym rstate = "(cache_key \<times> cache_entry \<times> u64) list"

record restore_plan =
  p_source :: restore_source
  p_snapshot_seq :: u64
  p_manifest_seq :: u64
  p_wal_bytes :: u64
  p_wal_files :: nat
  p_next_seq :: u64
  p_entries :: "(cache_key \<times> cache_entry) list"
  p_drops :: "nat \<times> nat \<times> nat"
  p_tail_records :: nat
  p_clean_shutdown :: bool
  p_last_commit_ms :: int
  p_durable_seq :: u64
  p_wal_truncate :: "(str \<times> nat) list"
  p_wal_gap :: bool
  p_wal_paths :: "str list"
  p_wal_base_seq :: "u64 list"
  p_snap_path :: str
  p_snap_bytes :: u64
  p_snap_entries :: u32
  p_snap_crc32c :: u32
  p_snap_ms :: int

definition looks_like_v1_json :: "bytes \<Rightarrow> bool" where
  "looks_like_v1_json raw \<longleftrightarrow> find (\<lambda>b. \<not> ascii_whitespace b) raw = Some 91"

definition u64_sat_inc :: "u64 \<Rightarrow> u64" where
  "u64_sat_inc n = (if n = - 1 then n else n + 1)"

subsection \<open>The snapshot\<close>

record snap_load =
  sl_state :: rstate
  sl_max_seq :: u64
  sl_failed :: nat

definition load_record :: "snap_load callback" where
  "load_record entry_seq key body s =
     (case to_entry body of
        Inr e \<Rightarrow> Inr (s\<lparr>sl_max_seq := max (sl_max_seq s) entry_seq,
                        sl_state := AList.update key (e\<lparr>ce_seq := entry_seq\<rparr>, entry_seq) (sl_state s)\<rparr>)
      | Inl _ \<Rightarrow> Inr (s\<lparr>sl_failed := sl_failed s + 1\<rparr>))"

subsection \<open>The log segments\<close>

record replay =
  rp_recs :: "(u64 \<times> wal_rec) list"
  rp_max_seq :: u64
  rp_durable_seq :: u64
  rp_last_commit :: int
  rp_failed :: nat
  rp_tail :: nat
  rp_saw_tail :: bool
  rp_truncate :: "(str \<times> nat) list"
  rp_files :: nat
  rp_gap :: bool
  rp_read_end :: nat

text \<open>One record read from a segment.\<close>

definition take_record :: "u64 \<Rightarrow> wal_rec \<Rightarrow> replay \<Rightarrow> replay" where
  "take_record snapshot_seq rec a =
     (let seq = wal_rec_seq rec; a = a\<lparr>rp_max_seq := max (rp_max_seq a) seq\<rparr> in
      if seq \<le> snapshot_seq then a
      else case rec of
             Commit seq ms _ _ \<Rightarrow>
               a\<lparr>rp_durable_seq := max (rp_durable_seq a) seq, rp_last_commit := max (rp_last_commit a) (sint ms)\<rparr>
           | _ \<Rightarrow> a\<lparr>rp_recs := rp_recs a @ [(seq, rec)]\<rparr>)"

text \<open>The segment ended before its end: cut the last one, distrust what follows any other.\<close>

definition segment_tail :: "str \<Rightarrow> nat \<Rightarrow> bool \<Rightarrow> nat \<Rightarrow> replay \<Rightarrow> replay" where
  "segment_tail wp i is_last valid_len a =
     (let a = a\<lparr>rp_tail := rp_tail a + 1, rp_saw_tail := True\<rparr> in
      if is_last then a\<lparr>rp_truncate := rp_truncate a @ [(wp, valid_len)]\<rparr>
      else a\<lparr>rp_gap := True, rp_read_end := i\<rparr>)"

definition segment_corrupt :: "str \<Rightarrow> nat \<Rightarrow> bool \<Rightarrow> nat \<Rightarrow> replay \<Rightarrow> replay" where
  "segment_corrupt wp i is_last valid_len a =
     (if is_last then
        a\<lparr>rp_tail := rp_tail a + 1, rp_saw_tail := True, rp_truncate := rp_truncate a @ [(wp, valid_len)]\<rparr>
      else a\<lparr>rp_saw_tail := True, rp_gap := True, rp_read_end := i\<rparr>)"

lemma wal_next_moves:
  "wal_next r = (Inr (Some it), r') \<Longrightarrow> wr_pos r < wr_pos r' \<and> wr_pos r' \<le> wr_file_len r \<and> wr_file_len r' = wr_file_len r"
  by (auto simp: wal_next_def Let_def REC_HDR_LEN_def split: if_splits sum.splits option.splits)

function replay_segment :: "u64 \<Rightarrow> str \<Rightarrow> nat \<Rightarrow> bool \<Rightarrow> wal_reader \<Rightarrow> replay \<Rightarrow> replay" where
  "replay_segment snapshot_seq wp i is_last r a =
     (case wal_next r of
        (Inr (Some (Rec rec)), r') \<Rightarrow> replay_segment snapshot_seq wp i is_last r' (take_record snapshot_seq rec a)
      | (Inr (Some BadContent), r') \<Rightarrow>
          replay_segment snapshot_seq wp i is_last r' (a\<lparr>rp_failed := rp_failed a + 1\<rparr>)
      | (Inr None, r') \<Rightarrow> a
      | (Inl (Tail valid_len _), r') \<Rightarrow> segment_tail wp i is_last valid_len a
      | (Inl (Corrupt _), r') \<Rightarrow> segment_corrupt wp i is_last (wr_pos r') a)"
  by pat_completeness auto
termination
  by (relation "measure (\<lambda>(_, _, _, _, r, _). wr_file_len r - wr_pos r)")
    (auto dest!: wal_next_moves [OF sym])

declare replay_segment.simps [simp del]

text \<open>A file that is not there opens with an I/O error.\<close>

definition open_segment :: "dir \<Rightarrow> str \<Rightarrow> u64 \<Rightarrow> wal_open_err + wal_reader" where
  "open_segment dir wp base = (case dir wp of None \<Rightarrow> Inl OpenIo | Some f \<Rightarrow> wal_open f base)"

fun replay_segments ::
  "dir \<Rightarrow> u64 \<Rightarrow> nat \<Rightarrow> nat \<Rightarrow> (str \<times> u64) list \<Rightarrow> replay \<Rightarrow> recover_error + replay" where
  "replay_segments dir snapshot_seq n i [] a = Inr a"
| "replay_segments dir snapshot_seq n i ((wp, base) # segs) a =
     (let is_last = (i + 1 = n) in
      case open_segment dir wp base of
        Inl (OpenUnsupported v) \<Rightarrow> Inl (RUnsupported v)
      | Inl _ \<Rightarrow>
          if is_last then
            replay_segments dir snapshot_seq n (i + 1) segs (a\<lparr>rp_tail := rp_tail a + 1, rp_saw_tail := True\<rparr>)
          else Inr (a\<lparr>rp_saw_tail := True, rp_gap := True, rp_read_end := i\<rparr>)
      | Inr r \<Rightarrow>
          (let a = replay_segment snapshot_seq wp i is_last r (a\<lparr>rp_files := rp_files a + 1\<rparr>) in
           if rp_saw_tail a \<and> \<not> is_last then Inr a
           else replay_segments dir snapshot_seq n (i + 1) segs a))"

subsection \<open>Merging in order of sequence numbers\<close>

definition apply_record :: "u64 \<Rightarrow> wal_rec \<Rightarrow> rstate \<times> nat \<Rightarrow> rstate \<times> nat" where
  "apply_record seq rec = (\<lambda>(state, failed).
     case rec of
       Put _ body \<Rightarrow>
         (case to_entry body of
            Inr e \<Rightarrow> (AList.update (eb_key body) (e\<lparr>ce_seq := seq\<rparr>, seq) state, failed)
          | Inl _ \<Rightarrow> (state, failed + 1))
     | Evict _ key _ \<Rightarrow> (AList.delete key state, failed)
     | Clear _ _ \<Rightarrow> ([], failed)
     | Commit _ _ _ _ \<Rightarrow> (state, failed))"

fun merge_records :: "u64 option \<Rightarrow> (u64 \<times> wal_rec) list \<Rightarrow> rstate \<times> nat \<Rightarrow> rstate \<times> nat" where
  "merge_records applied [] s = s"
| "merge_records applied ((seq, rec) # recs) s =
     (if applied = Some seq then merge_records applied recs s
      else merge_records (Some seq) recs (apply_record seq rec s))"

definition replay_sorted :: "(u64 \<times> wal_rec) list \<Rightarrow> rstate \<times> nat \<Rightarrow> rstate \<times> nat" where
  "replay_sorted recs s = merge_records None (sort_key fst recs) s"

subsection \<open>The time-to-live policy\<close>

definition restore_entry :: "real \<Rightarrow> real \<Rightarrow> cache_entry \<Rightarrow> cache_entry option" where
  "restore_entry now pt e =
     (if pt > 0 then Some (e\<lparr>ce_expires_at := now + pt, ce_ttl := pt\<rparr>)
      else case resolve_restored_expiry (Fin (ce_expires_at e)) now pt of
             Some t \<Rightarrow> Some (e\<lparr>ce_expires_at := t, ce_ttl := max (t - now) 0\<rparr>)
           | None \<Rightarrow> None)"

definition apply_restore_policy :: "rstate \<Rightarrow> real \<Rightarrow> real \<Rightarrow> rstate \<times> nat \<times> nat" where
  "apply_restore_policy state now pt =
     (let kept = List.map_filter (\<lambda>(k, e, seq). map_option (\<lambda>e. (k, e, seq)) (restore_entry now pt e)) state
      in (kept, length state - length kept, 0))"

subsection \<open>The plan\<close>

definition entry_order :: "cache_key \<times> cache_entry \<Rightarrow> u64 \<times> str \<times> str \<times> str option" where
  "entry_order = (\<lambda>(k, e). (ce_seq e, key_domain k, key_qtype k, key_group k))"

definition restore_entries :: "rstate \<Rightarrow> (cache_key \<times> cache_entry) list" where
  "restore_entries state = sort_key entry_order (map (\<lambda>(k, e, seq). (k, e\<lparr>ce_seq := seq\<rparr>)) state)"

definition truncate_files :: "(str \<times> nat) list \<Rightarrow> dir \<Rightarrow> dir" where
  "truncate_files cuts dir = fold (\<lambda>(wp, n) dir. dir(wp := map_option (\<lambda>f. set_len f n) (dir wp))) cuts dir"

definition plan_next_seq :: "manifest \<Rightarrow> replay \<Rightarrow> u64" where
  "plan_next_seq m a =
     (if rp_gap a then
        max (max (u64_sat_inc (rp_max_seq a)) (u64_sat_inc (fold max (m_wal_base_seq m) 0))) 1
      else max (u64_sat_inc (rp_max_seq a)) 1)"

definition read_manifest_file :: "dir \<Rightarrow> str \<Rightarrow> bytes option" where
  "read_manifest_file dir base = map_option (take (MANIFEST_MAX_BYTES + 1)) (dir base)"

definition load_snapshot :: "dir \<Rightarrow> manifest \<Rightarrow> recover_error + snap_load \<times> nat" where
  "load_snapshot dir m =
     (case dir (m_snap_path m) of
        None \<Rightarrow> Inl RCorrupt
      | Some f \<Rightarrow>
          (case snap_open f of
             Inl _ \<Rightarrow> Inl RCorrupt
           | Inr snap \<Rightarrow>
               if sr_file_len snap \<noteq> unat (m_snap_bytes m) \<or> sr_body_crc snap \<noteq> m_snap_crc32c m
                 \<or> sr_count snap \<noteq> m_snap_entries m then Inl RCorrupt
               else case snap_for_each load_record snap
                           \<lparr>sl_state = [], sl_max_seq = max (m_snapshot_seq m) (m_seq m), sl_failed = 0\<rparr> of
                      Inl _ \<Rightarrow> Inl RCorrupt
                    | Inr (stats, sl) \<Rightarrow> Inr (sl, unat (rs_failed stats) + sl_failed sl)))"

definition replay_wal :: "dir \<Rightarrow> manifest \<Rightarrow> u64 \<Rightarrow> nat \<Rightarrow> recover_error + replay" where
  "replay_wal dir m max_seq failed =
     replay_segments dir (m_snapshot_seq m) (length (m_wal_paths m)) 0 (zip (m_wal_paths m) (m_wal_base_seq m))
       \<lparr>rp_recs = [], rp_max_seq = max_seq, rp_durable_seq = m_seq m,
        rp_last_commit = max (sint (m_committed_ms m)) 0, rp_failed = failed, rp_tail = 0, rp_saw_tail = False,
        rp_truncate = [], rp_files = 0, rp_gap = False, rp_read_end = length (m_wal_paths m)\<rparr>"

definition restore_plan_of :: "manifest \<Rightarrow> replay \<Rightarrow> rstate \<Rightarrow> nat \<Rightarrow> int \<Rightarrow> bool \<Rightarrow> f64 \<Rightarrow> real \<Rightarrow> restore_plan" where
  "restore_plan_of m a state failed snap_ms writable persist_ttl now =
     (let last_commit = (if rp_last_commit a = 0 then snap_ms else rp_last_commit a);
          pt = max (safe_float persist_ttl 0) 0;
          (state, expired, legacy) = apply_restore_policy state now pt;
          keep = (if rp_gap a then min (rp_read_end a) (length (m_wal_paths m)) else length (m_wal_paths m))
      in
      \<lparr>p_source = (if m_wal_paths m = [] then V2Snapshot
                   else if rp_saw_tail a then WalTruncated else V2SnapshotWal),
       p_snapshot_seq = m_snapshot_seq m, p_manifest_seq = m_seq m, p_wal_bytes = m_wal_bytes m,
       p_wal_files = rp_files a, p_next_seq = plan_next_seq m a, p_entries = restore_entries state,
       p_drops = (expired, legacy, failed), p_tail_records = rp_tail a, p_clean_shutdown = clean_shutdown m,
       p_last_commit_ms = last_commit, p_durable_seq = rp_durable_seq a,
       p_wal_truncate = (if writable then rp_truncate a else []), p_wal_gap = rp_gap a,
       p_wal_paths = take keep (m_wal_paths m), p_wal_base_seq = take keep (m_wal_base_seq m),
       p_snap_path = m_snap_path m, p_snap_bytes = m_snap_bytes m, p_snap_entries = m_snap_entries m,
       p_snap_crc32c = m_snap_crc32c m, p_snap_ms = snap_ms\<rparr>)"

definition recover_v2 ::
  "dir \<Rightarrow> str \<Rightarrow> int \<Rightarrow> f64 \<Rightarrow> real \<Rightarrow> bool \<Rightarrow> recover_error + (restore_plan \<times> dir) option" where
  "recover_v2 dir base snap_ms persist_ttl now writable =
     (case read_manifest_file dir base of
        None \<Rightarrow> Inr None
      | Some raw \<Rightarrow>
          if raw = [] \<or> looks_like_v1_json raw then Inr None
          else case manifest_decode raw base of
                 Inl (UnsupportedVersion v) \<Rightarrow>
                   if v > MANIFEST_VERSION then Inl (RUnsupported v) else Inl RCorrupt
               | Inl _ \<Rightarrow> Inl RCorrupt
               | Inr m \<Rightarrow>
                   bindE (load_snapshot dir m) (\<lambda>(sl, failed).
                   bindE (replay_wal dir m (sl_max_seq sl) failed) (\<lambda>a.
                   let (state, failed) = replay_sorted (rp_recs a) (sl_state sl, rp_failed a);
                       plan = restore_plan_of m a state failed snap_ms writable persist_ttl now
                   in Inr (Some (plan, truncate_files (p_wal_truncate plan) dir)))))"

end
