(* ===== verification/Entry_Roundtrip.thy ===== *)
theory Entry_Roundtrip
  imports Entry_Codec Rdata_Roundtrip
begin

text \<open>
  What is written by \<open>Entry_Codec\<close> is read back: the relation \<open>decodes\<close> between a reader, the
  bytes it takes and its value is composed along the code of the decoder.
\<close>

definition decodes :: "'a reader \<Rightarrow> bytes \<Rightarrow> 'a \<Rightarrow> bool" where
  "decodes f enc v \<longleftrightarrow>
     (\<forall>pre rest. f \<lparr>c_buf = pre @ enc @ rest, c_pos = length pre\<rparr>
        = Inr (v, \<lparr>c_buf = pre @ enc @ rest, c_pos = length pre + length enc\<rparr>))"

lemma decodes_rret: "decodes (rret v) [] v"
  by (simp add: decodes_def rret_def)

lemma decodes_bind:
  assumes "decodes f e1 v1" "decodes (g v1) e2 v2"
  shows "decodes (rbind f g) (e1 @ e2) v2"
  unfolding decodes_def
proof (intro allI)
  fix pre rest
  have "f \<lparr>c_buf = pre @ e1 @ (e2 @ rest), c_pos = length pre\<rparr>
      = Inr (v1, \<lparr>c_buf = pre @ e1 @ (e2 @ rest), c_pos = length pre + length e1\<rparr>)"
    using assms(1) unfolding decodes_def by blast
  moreover have "g v1 \<lparr>c_buf = (pre @ e1) @ e2 @ rest, c_pos = length (pre @ e1)\<rparr>
      = Inr (v2, \<lparr>c_buf = (pre @ e1) @ e2 @ rest, c_pos = length (pre @ e1) + length e2\<rparr>)"
    using assms(2) unfolding decodes_def by blast
  ultimately show "rbind f g \<lparr>c_buf = pre @ (e1 @ e2) @ rest, c_pos = length pre\<rparr>
      = Inr (v2, \<lparr>c_buf = pre @ (e1 @ e2) @ rest, c_pos = length pre + length (e1 @ e2)\<rparr>)"
    by (simp add: rbind_def add.assoc)
qed

lemma decodes_take: "length e = n \<Longrightarrow> decodes (cur_take n) e e"
  by (auto simp: decodes_def cur_take_def cur_remaining_def)

lemma decodes_u8: "decodes cur_u8 [b] b"
  by (simp add: decodes_def cur_u8_def cur_remaining_def nth_append)

lemma le16_bytes: "le16 w = [word_of_nat (unat w), word_of_nat (unat w div 256)]"
  by (simp add: le16_def numeral_2_eq_2)

lemma decodes_u16: "decodes cur_u16 (le16 w) w"
proof -
  have "of_le [le16 w ! 0, le16 w ! 1] = w"
  proof -
    have "[le16 w ! 0, le16 w ! 1] = le16 w" by (simp add: le16_bytes)
    then show ?thesis by simp
  qed
  then show ?thesis by (simp add: decodes_def cur_u16_def cur_remaining_def nth_append)
qed

lemma decodes_u32: "decodes cur_u32 (le32 w) w"
  by (simp add: decodes_def cur_u32_def cur_remaining_def)

lemma decodes_u64: "decodes cur_u64 (le64 w) w"
  by (simp add: decodes_def cur_u64_def cur_remaining_def)

lemma decodes_utf8: "valid_utf8 s \<Longrightarrow> decodes (cur_utf8 s) [] s"
  by (simp add: cur_utf8_def decodes_rret)

text \<open>The same along a decoder: one rule per field.\<close>

lemma rd_u8: "decodes (g b) e v \<Longrightarrow> decodes (rbind cur_u8 g) (b # e) v"
  using decodes_bind [where ?e1.0 = "[b]"] decodes_u8 by fastforce

lemma rd_u16: "decodes (g w) e v \<Longrightarrow> decodes (rbind cur_u16 g) (le16 w @ e) v"
  by (rule decodes_bind [OF decodes_u16])

lemma rd_u32: "decodes (g w) e v \<Longrightarrow> decodes (rbind cur_u32 g) (le32 w @ e) v"
  by (rule decodes_bind [OF decodes_u32])

lemma rd_u64: "decodes (g w) e v \<Longrightarrow> decodes (rbind cur_u64 g) (le64 w @ e) v"
  by (rule decodes_bind [OF decodes_u64])

lemma rd_take: "length s = n \<Longrightarrow> decodes (g s) e v \<Longrightarrow> decodes (rbind (cur_take n) g) (s @ e) v"
  by (rule decodes_bind [OF decodes_take])

lemma rd_utf8: "valid_utf8 s \<Longrightarrow> decodes (g s) e v \<Longrightarrow> decodes (rbind (cur_utf8 s) g) e v"
  using decodes_bind [where ?e1.0 = "[]" and ?v1.0 = s] decodes_utf8 by fastforce

lemma rd_ret: "decodes (g x) e v \<Longrightarrow> decodes (rbind (rret x) g) e v"
  using decodes_bind [where ?e1.0 = "[]" and ?v1.0 = x] decodes_rret by fastforce

lemma rbind_assoc: "rbind (rbind f g) h = rbind f (\<lambda>x. rbind (g x) h)"
  by (auto simp: rbind_def fun_eq_iff split: sum.split prod.split)

lemmas rd = rd_u8 rd_u16 rd_u32 rd_u64 rd_take rd_utf8 rd_ret

text \<open>A last field has nothing behind it.\<close>

lemma decodes_end: "decodes f (e @ []) v \<Longrightarrow> decodes f e v"
  by simp

lemma rd_str16:
  assumes "valid_utf8 s" "length s < 65536" "decodes (g s) e v"
  shows "decodes (rbind cur_str16 g) (le16 (word_of_nat (length s)) @ s @ e) v"
  unfolding cur_str16_def cur_bytes16_def rbind_assoc
  by (rule rd_u16, rule rd_take, simp add: assms(2) unat_of_nat_u16, rule rd_utf8 [OF assms(1)], rule assms(3))

subsection \<open>Keys\<close>

definition utf8_key :: "cache_key \<Rightarrow> bool" where
  "utf8_key k \<longleftrightarrow> (case key_group k of Some g \<Rightarrow> valid_utf8 g | None \<Rightarrow> True)
     \<and> valid_utf8 (key_domain k) \<and> valid_utf8 (key_qtype k)"

lemma word_of_nat_nz: "n \<noteq> 0 \<Longrightarrow> n < 65536 \<Longrightarrow> word_of_nat n \<noteq> (0 :: u16)"
  by (metis unat_of_nat_u16 unat_0)

lemma key_roundtrip:
  assumes "encode_key k out = Inr out'" "utf8_key k"
  shows "\<exists>e. out' = out @ e \<and> decodes decode_key e k"
proof -
  let ?d = "key_domain k" and ?q = "key_qtype k"
  let ?e2 = "le16 (word_of_nat (length ?d)) @ ?d @ le16 (word_of_nat (length ?q)) @ ?q"
  have d: "?d \<noteq> []" "length ?d \<le> 255" and q: "?q \<noteq> []" "length ?q \<le> 32"
    using assms(1) by (auto simp: encode_key_def bindE_eq_Inr Let_def MAX_DOMAIN_def MAX_QTYPE_def split: if_splits)
  have ud: "unat (word_of_nat (length ?d) :: u16) = length ?d" "unat (word_of_nat (length ?q) :: u16) = length ?q"
    using d q by (simp_all add: unat_of_nat_u16)
  have u: "valid_utf8 ?d" "valid_utf8 ?q" using assms(2) by (simp_all add: utf8_key_def)
  have tail: "decodes (rbind cur_u16 (\<lambda>dlen.
     if dlen = 0 \<or> unat dlen > MAX_DOMAIN then rfail BadField
     else rbind (cur_take (unat dlen)) (\<lambda>b. rbind (cur_utf8 b) (\<lambda>domain.
     rbind cur_u16 (\<lambda>qlen.
     if qlen = 0 \<or> unat qlen > MAX_QTYPE then rfail BadField
     else rbind (cur_take (unat qlen)) (\<lambda>b. rbind (cur_utf8 b) (\<lambda>qtype.
     rret \<lparr>key_group = g, key_domain = domain, key_qtype = qtype\<rparr>)))))))
     ?e2 \<lparr>key_group = g, key_domain = ?d, key_qtype = ?q\<rparr>" for g
  proof -
    have nz: "word_of_nat (length ?d) \<noteq> (0 :: u16)" "word_of_nat (length ?q) \<noteq> (0 :: u16)"
      using d q word_of_nat_nz by simp_all
    have "decodes (rbind (cur_take (length ?q)) (\<lambda>b. rbind (cur_utf8 b) (\<lambda>qtype.
       rret \<lparr>key_group = g, key_domain = ?d, key_qtype = qtype\<rparr>))) ?q
       \<lparr>key_group = g, key_domain = ?d, key_qtype = ?q\<rparr>"
      by (rule decodes_end, intro rd decodes_rret refl u)
    then have "decodes (rbind cur_u16 (\<lambda>qlen.
       if qlen = 0 \<or> unat qlen > MAX_QTYPE then rfail BadField
       else rbind (cur_take (unat qlen)) (\<lambda>b. rbind (cur_utf8 b) (\<lambda>qtype.
       rret \<lparr>key_group = g, key_domain = ?d, key_qtype = qtype\<rparr>)))) (le16 (word_of_nat (length ?q)) @ ?q)
       \<lparr>key_group = g, key_domain = ?d, key_qtype = ?q\<rparr>"
      by (intro rd_u16) (use q ud nz in \<open>simp add: MAX_QTYPE_def\<close>)
    then have "decodes (rbind (cur_take (length ?d)) (\<lambda>b. rbind (cur_utf8 b) (\<lambda>domain.
       rbind cur_u16 (\<lambda>qlen.
       if qlen = 0 \<or> unat qlen > MAX_QTYPE then rfail BadField
       else rbind (cur_take (unat qlen)) (\<lambda>b. rbind (cur_utf8 b) (\<lambda>qtype.
       rret \<lparr>key_group = g, key_domain = domain, key_qtype = qtype\<rparr>))))))
       (?d @ le16 (word_of_nat (length ?q)) @ ?q) \<lparr>key_group = g, key_domain = ?d, key_qtype = ?q\<rparr>"
      by - (rule rd_take [OF refl], rule rd_utf8 [OF u(1)])
    then show ?thesis by (intro rd_u16) (use d ud nz in \<open>simp add: MAX_DOMAIN_def\<close>)
  qed
  show ?thesis
  proof (cases "key_group k")
    case None
    then have "out' = out @ le16 0 @ ?e2" and k: "\<lparr>key_group = None, key_domain = ?d, key_qtype = ?q\<rparr> = k"
      using assms(1) d q by (simp_all add: encode_key_def Let_def MAX_DOMAIN_def MAX_QTYPE_def)
    moreover have "decodes decode_key (le16 0 @ ?e2) \<lparr>key_group = None, key_domain = ?d, key_qtype = ?q\<rparr>"
      unfolding decode_key_def
      by (rule rd_u16, simp only: unat_0 not_less_zero if_False if_True simp_thms, rule rd_ret, rule tail)
    ultimately show ?thesis unfolding k by blast
  next
    case (Some g)
    let ?l = "word_of_nat (length g) :: u16"
    have g: "g \<noteq> []" "length g \<le> 255" "valid_utf8 g" "unat ?l = length g" "?l \<noteq> 0"
      using assms Some word_of_nat_nz [of "length g"]
      by (auto simp: encode_key_def bindE_eq_Inr Let_def MAX_GROUP_def utf8_key_def unat_of_nat_u16 split: if_splits)
    have "out' = out @ le16 ?l @ g @ ?e2"
      and k: "\<lparr>key_group = Some g, key_domain = ?d, key_qtype = ?q\<rparr> = k"
      using assms(1) d q g Some by (simp_all add: encode_key_def Let_def MAX_DOMAIN_def MAX_QTYPE_def MAX_GROUP_def)
    moreover have "decodes decode_key (le16 ?l @ g @ ?e2) \<lparr>key_group = Some g, key_domain = ?d, key_qtype = ?q\<rparr>"
      unfolding decode_key_def
      by (rule rd_u16, subst if_not_P, simp only: g(4) MAX_GROUP_def not_less, rule g(2),
          subst if_not_P, rule g(5), simp only: rbind_assoc g(4), rule rd_take [OF refl],
          rule rd_utf8 [OF g(3)], rule rd_ret, rule tail)
    ultimately show ?thesis unfolding k by blast
  qed
qed

subsection \<open>Answers\<close>

definition utf8_name :: "str option \<Rightarrow> bool" where
  "utf8_name n \<longleftrightarrow> (case n of Some s \<Rightarrow> valid_utf8 s | None \<Rightarrow> True)"

definition body_ok :: "answer_body \<Rightarrow> bool" where
  "body_ok a \<longleftrightarrow> ab_fmt a \<le> 1 \<and> utf8_name (ab_name a)
     \<and> (case ab_name a of Some s \<Rightarrow> length s \<le> MAX_NAME | None \<Rightarrow> True)"

definition name_bytes :: "str option \<Rightarrow> bytes" where
  "name_bytes n = (case n of None \<Rightarrow> 0 # le16 0 | Some s \<Rightarrow> 1 # le16 (word_of_nat (length s)) @ s)"

definition body_bytes :: "answer_body \<Rightarrow> bytes" where
  "body_bytes a = le16 (word_of_nat (length (ab_rdata a))) @ ab_fmt a # le16 (ab_rtype a)
     @ le32 (ab_ttl_ms a) @ name_bytes (ab_name a) @ ab_rdata a"

lemma decodes_answer:
  assumes ok: "body_ok a" and l: "length (ab_rdata a) \<le> 65535"
  shows "decodes decode_answer (body_bytes a) a"
proof -
  let ?r = "ab_rdata a" and ?f = "ab_fmt a"
  have u: "unat (word_of_nat (length ?r) :: u16) = length ?r"
    using l by (simp add: unat_of_nat_u16)
  have f: "\<not> ?f > 1" using ok by (simp add: body_ok_def not_less)
  have fin: "decodes (if unat (word_of_nat (length ?r) :: u16) > MAX_RDATA then rfail BadField
       else rbind (cur_take (unat (word_of_nat (length ?r) :: u16))) (\<lambda>rdata.
       rret \<lparr>ab_fmt = ?f, ab_rtype = ab_rtype a, ab_ttl_ms = ab_ttl_ms a, ab_name = n, ab_rdata = rdata\<rparr>))
     ?r \<lparr>ab_fmt = ?f, ab_rtype = ab_rtype a, ab_ttl_ms = ab_ttl_ms a, ab_name = n, ab_rdata = ?r\<rparr>" for n
    by (subst if_not_P, simp only: u MAX_RDATA_def not_less, rule l,
        rule decodes_end, rule rd_take, simp only: u, rule decodes_rret)
  show ?thesis
  proof (cases "ab_name a")
    case None
    then have a: "\<lparr>ab_fmt = ?f, ab_rtype = ab_rtype a, ab_ttl_ms = ab_ttl_ms a, ab_name = None, ab_rdata = ?r\<rparr> = a"
      by simp
    have "decodes decode_answer (body_bytes a)
       \<lparr>ab_fmt = ?f, ab_rtype = ab_rtype a, ab_ttl_ms = ab_ttl_ms a, ab_name = None, ab_rdata = ?r\<rparr>"
      unfolding decode_answer_def body_bytes_def name_bytes_def None option.case append_Cons
      by (rule rd_u16, rule rd_u8, subst if_not_P, rule f, rule rd_u16, rule rd_u32, rule rd_u8, rule rd_u16,
          simp only: unat_0 not_less_zero if_False simp_thms word_not_simps zero_neq_one, rule rd_ret, rule fin)
    then show ?thesis unfolding a .
  next
    case (Some s)
    then have a: "\<lparr>ab_fmt = ?f, ab_rtype = ab_rtype a, ab_ttl_ms = ab_ttl_ms a, ab_name = Some s, ab_rdata = ?r\<rparr> = a"
      by simp
    have s: "valid_utf8 s" "length s \<le> 255" "unat (word_of_nat (length s) :: u16) = length s"
      using ok Some by (auto simp: body_ok_def utf8_name_def MAX_NAME_def unat_of_nat_u16)
    have n1: "\<not> (1 :: u8) < 1" "\<not> ((1 :: u8) = 0 \<and> x)" for x by simp_all
    have "decodes decode_answer (body_bytes a)
       \<lparr>ab_fmt = ?f, ab_rtype = ab_rtype a, ab_ttl_ms = ab_ttl_ms a, ab_name = Some s, ab_rdata = ?r\<rparr>"
      unfolding decode_answer_def body_bytes_def name_bytes_def Some option.case append_Cons append_assoc
      by (rule rd_u16, rule rd_u8, subst if_not_P, rule f, rule rd_u16, rule rd_u32, rule rd_u8, rule rd_u16,
          subst if_not_P, rule n1, subst if_not_P, rule n1, subst if_not_P,
          simp only: s(3) MAX_NAME_def not_less, rule s(2), subst if_P, rule refl,
          simp only: rbind_assoc, rule rd_take, simp only: s(3), rule rd_utf8 [OF s(1)], rule rd_ret, rule fin)
    then show ?thesis unfolding a .
  qed
qed

lemma encode_answer_bodies_bytes:
  assumes "\<forall>a\<in>set as. body_ok a \<and> length (ab_rdata a) \<le> 65535"
  shows "encode_answer_bodies as out = Inr (out @ concat (map body_bytes as))"
  using assms
proof (induction as arbitrary: out)
  case (Cons a as)
  then have "length (ab_rdata a) \<le> 65535" "body_ok a" by auto
  then show ?case using Cons
    by (auto simp: Let_def body_bytes_def name_bytes_def put_bytes16_def body_ok_def MAX_NAME_def
        split: option.splits)
qed simp

lemma decodes_answers:
  assumes "\<forall>a\<in>set as. body_ok a \<and> length (ab_rdata a) \<le> 65535"
  shows "decodes (decode_answers (length as)) (concat (map body_bytes as)) as"
  using assms
proof (induction as)
  case (Cons a as)
  have "decodes (rbind decode_answer (\<lambda>a. rbind (decode_answers (length as)) (\<lambda>as. rret (a # as))))
     (body_bytes a @ concat (map body_bytes as) @ []) (a # as)"
    using Cons by (intro decodes_bind [OF decodes_answer] decodes_bind [OF Cons.IH] decodes_rret) auto
  then show ?case by simp
qed (simp add: decodes_rret)

subsection \<open>Entries\<close>

text \<open>What every body built from an entry satisfies, and what the texts of a Rust entry are.\<close>

definition utf8_entry :: "cache_entry \<Rightarrow> bool" where
  "utf8_entry e \<longleftrightarrow> valid_utf8 (ce_chosen e)
     \<and> (\<forall>a\<in>set (ce_answers e). valid_utf8 (ca_value a) \<and> utf8_name (ca_name a))"

lemma answer_bodies_ok:
  assumes "answer_bodies U as = Inr bs" "\<forall>a\<in>set as. valid_utf8 (ca_value a) \<and> utf8_name (ca_name a)"
  shows "length bs = length as \<and> (\<forall>b\<in>set bs. body_ok b)"
  using assms
proof (induction as arbitrary: bs)
  case (Cons a as)
  then show ?case
    by (fastforce simp: bindE_eq_Inr body_ok_def encode_answer_value_def Let_def split: prod.splits if_splits option.splits)
qed simp

lemma from_entry_ok:
  assumes "from_entry U k e = Inr b" "utf8_entry e"
  shows "(\<forall>a\<in>set (eb_answers b). body_ok a) \<and> length (eb_answers b) \<le> MAX_CACHED_ANSWERS
     \<and> eb_key b = k \<and> eb_chosen b = ce_chosen e \<and> length (eb_chosen b) \<le> MAX_CHOSEN"
proof -
  obtain as where as: "answer_bodies U (ce_answers e) = Inr as" "length (ce_answers e) \<le> MAX_CACHED_ANSWERS"
      "length (ce_chosen e) \<le> MAX_CHOSEN"
    and b: "b = \<lparr>eb_key = k, eb_answers = as, eb_chosen = ce_chosen e, eb_ttl_ms = secs_to_ttl_ms (Fin (ce_ttl e)),
       eb_rcode = ce_rcode e, eb_rule_gen = ce_rule_gen e,
       eb_expires_at_ms = secs_to_ms_saturating (Fin (ce_expires_at e))\<rparr>"
    using assms(1) by (auto simp: from_entry_def bindE_eq_Inr split: if_splits)
  from answer_bodies_ok [OF as(1)] as assms(2) show ?thesis by (simp add: b utf8_entry_def)
qed

lemma rbind_eq_Inr: "rbind f g c = Inr r \<longleftrightarrow> (\<exists>x c'. f c = Inr (x, c') \<and> g x c' = Inr r)"
  by (auto simp: rbind_def split: sum.splits prod.splits)

lemma decode_answer_rdata:
  assumes "decode_answer c = Inr (a, c')"
  shows "length (ab_rdata a) \<le> 65535"
proof -
  have l: "length x = n" if "cur_take n c = Inr (x, c')" for n x c c'
    using that by (auto simp: cur_take_def cur_remaining_def slice_def split: if_splits)
  have u: "unat (w :: u16) \<le> 65535" for w
    using unat_u16_lt [of w] by linarith
  from assms u show ?thesis
    by (auto simp: decode_answer_def rbind_eq_Inr rfail_def rret_def split: if_splits dest!: l)
qed

lemma decode_answers_rdata:
  "decode_answers n c = Inr (as, c') \<Longrightarrow> \<forall>a\<in>set as. length (ab_rdata a) \<le> 65535"
  by (induction n arbitrary: as c c') (auto simp: rbind_eq_Inr rret_def dest: decode_answer_rdata)

lemma entry_decode_rdata:
  "entry_decode out = Inr b \<Longrightarrow> \<forall>a\<in>set (eb_answers b). length (ab_rdata a) \<le> 65535"
  by (auto simp: entry_decode_def decode_body_def bindE_eq_Inr rbind_eq_Inr rfail_def rret_def
      split: if_splits dest!: decode_answers_rdata)

lemma decodes_body:
  assumes k: "decodes decode_key ek (eb_key b)"
    and ok: "\<forall>a\<in>set (eb_answers b). body_ok a \<and> length (ab_rdata a) \<le> 65535"
    and n: "length (eb_answers b) \<le> MAX_CACHED_ANSWERS"
    and ch: "valid_utf8 (eb_chosen b)" "length (eb_chosen b) \<le> MAX_CHOSEN"
  shows "decodes decode_body
     (ek @ le32 (word_of_nat (length (eb_answers b))) @ concat (map body_bytes (eb_answers b))
        @ le16 (word_of_nat (length (eb_chosen b))) @ eb_chosen b @ le32 (eb_ttl_ms b) @ eb_rcode b
        # le64 (eb_rule_gen b) @ le64 (eb_expires_at_ms b)) b"
proof -
  let ?n = "word_of_nat (length (eb_answers b)) :: u32"
  have un: "unat ?n = length (eb_answers b)"
    using n by (simp add: MAX_CACHED_ANSWERS_def unat_of_nat_u32)
  have b: "b = \<lparr>eb_key = eb_key b, eb_answers = eb_answers b, eb_chosen = eb_chosen b, eb_ttl_ms = eb_ttl_ms b,
     eb_rcode = eb_rcode b, eb_rule_gen = eb_rule_gen b, eb_expires_at_ms = eb_expires_at_ms b\<rparr>" by simp
  show ?thesis
    unfolding decode_body_def
    by (rule decodes_bind [OF k], rule rd_u32, subst if_not_P, simp only: un n not_less, simp only: un,
        rule decodes_bind [OF decodes_answers [OF ok]], rule rd_str16, rule ch, use ch in \<open>simp add: MAX_CHOSEN_def\<close>,
        subst if_not_P, simp only: ch not_less, rule rd_u32, rule rd_u8, rule rd_u64, rule decodes_end,
        rule rd_u64, subst (8) b, rule decodes_rret)
qed

lemma decodes_whole:
  assumes "decodes f e v"
  shows "f (cur_new e) = Inr (v, \<lparr>c_buf = e, c_pos = length e\<rparr>)"
  using assms [unfolded decodes_def, THEN spec, of "[]", THEN spec, of "[]"] by (simp add: cur_new_def)

text \<open>What the writers of records give to \<open>encode\<close>: bodies made from entries.\<close>

definition entry_body_ok :: "entry_body \<Rightarrow> bool" where
  "entry_body_ok b \<longleftrightarrow> (\<forall>a\<in>set (eb_answers b). body_ok a \<and> length (ab_rdata a) \<le> 65535)
     \<and> length (eb_answers b) \<le> MAX_CACHED_ANSWERS \<and> valid_utf8 (eb_chosen b)
     \<and> length (eb_chosen b) \<le> MAX_CHOSEN \<and> utf8_key (eb_key b)"

lemma entry_encode_decodes:
  assumes ok: "entry_body_ok b" and out: "entry_encode b pre = Inr out"
  shows "length out \<le> MAX_RECORD_BYTES \<and> (\<exists>e. out = pre @ e \<and> decodes decode_body e b)"
proof -
  have a: "\<forall>a\<in>set (eb_answers b). body_ok a \<and> length (ab_rdata a) \<le> 65535"
    and n: "length (eb_answers b) \<le> MAX_CACHED_ANSWERS"
    and ch: "valid_utf8 (eb_chosen b)" "length (eb_chosen b) \<le> MAX_CHOSEN" and k: "utf8_key (eb_key b)"
    using ok by (simp_all add: entry_body_ok_def)
  obtain okey where "encode_key (eb_key b) pre = Inr okey"
    using out by (auto simp: entry_encode_def bindE_eq_Inr)
  with key_roundtrip [OF this k] obtain ek
    where ek: "encode_key (eb_key b) pre = Inr (pre @ ek)" and dk: "decodes decode_key ek (eb_key b)" by blast
  have "length out \<le> MAX_RECORD_BYTES"
    "out = pre @ (ek @ le32 (word_of_nat (length (eb_answers b))) @ concat (map body_bytes (eb_answers b))
        @ le16 (word_of_nat (length (eb_chosen b))) @ eb_chosen b @ le32 (eb_ttl_ms b) @ eb_rcode b
        # le64 (eb_rule_gen b) @ le64 (eb_expires_at_ms b))"
    using out ek ch(2)
    by (auto simp: entry_encode_def bindE_eq_Inr Let_def encode_answer_bodies_bytes [OF a] put_bytes16_def
        split: if_splits)
  with decodes_body [OF dk a n ch] show ?thesis by blast
qed

lemma entry_encode_prefix:
  assumes "entry_body_ok b" "entry_encode b pre = Inr out"
  shows "\<exists>e. out = pre @ e \<and> entry_decode e = Inr b \<and> length (pre @ e) \<le> MAX_RECORD_BYTES"
proof -
  obtain e where e: "out = pre @ e" "decodes decode_body e b" and l: "length out \<le> MAX_RECORD_BYTES"
    using entry_encode_decodes [OF assms] by blast
  have "entry_decode e = Inr b"
    using decodes_whole [OF e(2)] l e(1) by (simp add: entry_decode_def cur_remaining_def)
  with e l show ?thesis by blast
qed

lemma entry_decode_encode:
  assumes "entry_body_ok b" "entry_encode b [] = Inr out"
  shows "entry_decode out = Inr b"
  using entry_encode_prefix [OF assms] by simp

lemma entry_decode_from_entry:
  assumes "from_entry U k e = Inr b" "entry_encode b [] = Inr out" "utf8_key k" "utf8_entry e"
    and "\<forall>a\<in>set (eb_answers b). length (ab_rdata a) \<le> 65535"
  shows "entry_decode out = Inr b"
  using from_entry_ok [OF assms(1,4)] assms(3-5)
  by (intro entry_decode_encode [OF _ assms(2)]) (auto simp: utf8_entry_def entry_body_ok_def)

subsection \<open>Times\<close>

lemma round_half_away_near: "\<bar>of_int (round_half_away x) - x\<bar> \<le> 1 / 2"
  unfolding round_half_away_def abs_le_iff
  by (cases "x \<ge> 0", simp_all only: if_True if_False) linarith+

lemma expires_ms:
  assumes "\<bar>x\<bar> \<le> 9223372036854775"
  shows "\<bar>ms_to_secs (secs_to_ms_saturating (Fin x)) - x\<bar> \<le> 1 / 2000"
proof -
  let ?r = "round_half_away (x * 1000)"
  have near: "\<bar>of_int ?r - x * 1000\<bar> \<le> 1 / 2" by (rule round_half_away_near)
  then have r: "?r \<le> 9223372036854775001" "- 9223372036854775001 \<le> ?r" using assms by linarith+
  then have "sint (word_of_int ?r :: u64) = ?r"
    by (subst sint_sbintrunc') (rule signed_take_bit_int_eq_self; simp)
  moreover have "secs_to_ms_saturating (Fin x) = word_of_int ?r"
  proof -
    have "\<not> x * 1000 \<ge> 2 ^ 63" "\<not> x * 1000 \<le> of_int i64_min" "min ?r i64_max = ?r"
      using assms r by (simp_all add: i64_min_def i64_max_def abs_le_iff)
    then show ?thesis by (simp only: secs_to_ms_saturating_def f64.case Let_def if_False)
  qed
  ultimately show ?thesis using near by (simp add: ms_to_secs_def abs_le_iff field_simps)
qed

lemma ttl_ms:
  assumes "0 \<le> x" "x \<le> 4294967"
  shows "\<bar>real (unat (secs_to_ttl_ms (Fin x))) / 1000 - x\<bar> \<le> 1 / 2000"
proof (cases "x = 0")
  case False
  let ?r = "round_half_away (x * 1000)"
  have near: "\<bar>of_int ?r - x * 1000\<bar> \<le> 1 / 2" by (rule round_half_away_near)
  then have r: "?r \<le> 4294967001" "0 \<le> ?r" using assms by linarith+
  then have "real (unat (word_of_int ?r :: u32)) = of_int ?r"
    by (simp add: unat_word_ariths unsigned_of_int take_bit_int_eq_self)
  moreover have "secs_to_ttl_ms (Fin x) = word_of_int ?r"
    using assms False by (simp add: secs_to_ttl_ms_def u32_max_def Let_def)
  ultimately show ?thesis using near by (simp add: abs_le_iff field_simps)
qed (simp add: secs_to_ttl_ms_def)

subsection \<open>An entry written is an entry restored\<close>

lemma cache_answers_values:
  assumes "answer_bodies U as = Inr bs" "\<forall>a\<in>set as. valid_utf8 (ca_value a)"
  shows "\<exists>cs. cache_answers bs = Inr cs
     \<and> map (\<lambda>a. (ca_value a, ca_rtype a, ca_name a)) cs = map (\<lambda>a. (ca_value a, ca_rtype a, ca_name a)) as"
  using assms
proof (induction as arbitrary: bs)
  case (Cons a as)
  obtain fmt r where er: "encode_answer_value U (ca_rtype a) (ca_value a) = (fmt, r)" by fastforce
  then have "decode_answer_value fmt (ca_rtype a) r = Some (ca_value a)"
    using Cons.prems(2)
    by (auto simp: encode_answer_value_def decode_answer_value_def Let_def MAX_RDATA_def
        split: option.splits if_splits)
  with er Cons show ?case by (fastforce simp: bindE_eq_Inr ok_or_def split: if_splits)
qed simp

text \<open>A small entry: one answer of an unknown type, an owner name.\<close>

definition sample_key :: cache_key where
  "sample_key = cache_key_new (lit ''a.t'') (lit ''SPF'')"

definition sample_entry :: cache_entry where
  "sample_entry =
     \<lparr>ce_domain = lit ''a.t'', ce_qtype = lit ''SPF'',
      ce_answers = [\<lparr>ca_value = lit ''0100'', ca_ttl = 60, ca_rtype = 99, ca_name = Some (lit ''b.t'')\<rparr>],
      ce_chosen = lit ''0100'', ce_ttl = 60, ce_rcode = 0, ce_expires_at = 1060, ce_rule_gen = 7, ce_seq = 0\<rparr>"

definition sample_body :: entry_body where
  "sample_body =
     \<lparr>eb_key = sample_key,
      eb_answers = [\<lparr>ab_fmt = 0, ab_rtype = 99, ab_ttl_ms = 60000, ab_name = Some (lit ''b.t''), ab_rdata = [1, 0]\<rparr>],
      eb_chosen = lit ''0100'', eb_ttl_ms = 60000, eb_rcode = 0, eb_rule_gen = 7, eb_expires_at_ms = 1060000\<rparr>"

lemma sample_value: "encode_answer_value ascii_unicode 99 (lit ''0100'') = (0, [1, 0])"
proof -
  have p: "parse_rdata [1, 0] 0 99 2 = Some (Other [1, 0])" by (simp add: parse_rdata_def slice_def)
  have d: "lit ''0100'' = as_display (Other [1, 0])" by code_simp
  have "encode_rdata ascii_unicode 99 (as_display (Other [1, 0])) = Some [1, 0]"
    using opaque_roundtrip [OF p, where U = ascii_unicode] by (simp add: slice_def tail_empty_def)
  then show ?thesis unfolding d by (simp add: encode_answer_value_def MAX_RDATA_def p)
qed

lemma sample_from_entry: "from_entry ascii_unicode sample_key sample_entry = Inr sample_body"
proof -
  have "secs_to_ttl_ms (Fin 60) = 60000"
    by (simp add: secs_to_ttl_ms_def u32_max_def round_half_away_def)
  moreover have "secs_to_ms_saturating (Fin 1060) = 1060000"
    by (simp add: secs_to_ms_saturating_def i64_max_def i64_min_def round_half_away_def)
  ultimately show ?thesis
    by (simp add: sample_value from_entry_def sample_entry_def sample_body_def MAX_CACHED_ANSWERS_def
        MAX_CHOSEN_def MAX_NAME_def del: lit_Cons lit_Nil)
qed

lemma sample_encode: "length pre \<le> 8 \<Longrightarrow> \<exists>out. entry_encode sample_body pre = Inr out"
  by (simp add: entry_encode_def sample_body_def sample_key_def encode_key_def bindE_eq_Inr Let_def
      MAX_RECORD_BYTES_def cache_key_new_def MAX_DOMAIN_def MAX_QTYPE_def put_bytes16_def)

lemma sample_utf8: "utf8_key sample_key" "utf8_entry sample_entry"
  by code_simp+

lemma sample_body_ok: "entry_body_ok sample_body"
  using from_entry_ok [OF sample_from_entry sample_utf8(2)] sample_utf8
  by (simp add: entry_body_ok_def utf8_entry_def) (simp add: sample_body_def sample_entry_def)

text \<open>C16: an entry that is encoded is decoded to the same body exactly when no answer's stored record data is
  longer than 65535 bytes: the length field is clamped to 16 bits while all of the bytes are written.\<close>

theorem entry_roundtrip:
  assumes "from_entry U k e = Inr b" "entry_encode b [] = Inr out" "utf8_key k" "utf8_entry e"
  shows "entry_decode out = Inr b \<longleftrightarrow> (\<forall>a\<in>set (eb_answers b). length (ab_rdata a) \<le> 65535)"
proof
  assume "entry_decode out = Inr b"
  then show "\<forall>a\<in>set (eb_answers b). length (ab_rdata a) \<le> 65535" by (rule entry_decode_rdata)
next
  assume "\<forall>a\<in>set (eb_answers b). length (ab_rdata a) \<le> 65535"
  then show "entry_decode out = Inr b" by (rule entry_decode_from_entry [OF assms])
qed

theorem entry_roundtrip_witness:
  "\<exists>out. entry_encode sample_body [] = Inr out \<and> entry_decode out = Inr sample_body"
proof -
  obtain out where out: "entry_encode sample_body [] = Inr out" using sample_encode [of "[]"] by auto
  have "entry_decode out = Inr sample_body"
    using entry_roundtrip [OF sample_from_entry out sample_utf8] by (simp add: sample_body_def)
  with out show ?thesis by blast
qed

text \<open>The entry restored from the bytes of an entry has its key, its values, types and owner names, its
  chosen answer, response code and rule generation, and its times to half a millisecond.\<close>

theorem entry_restored:
  assumes "from_entry U k e = Inr b" "entry_encode b [] = Inr out" "utf8_key k" "utf8_entry e"
    and "\<forall>a\<in>set (eb_answers b). length (ab_rdata a) \<le> 65535"
    and "\<bar>ce_expires_at e\<bar> \<le> 9223372036854775" "0 \<le> ce_ttl e" "ce_ttl e \<le> 4294967"
  shows "\<exists>e'. bindE (entry_decode out) to_entry = Inr e'
     \<and> ce_domain e' = key_domain k \<and> ce_qtype e' = key_qtype k
     \<and> map (\<lambda>a. (ca_value a, ca_rtype a, ca_name a)) (ce_answers e')
       = map (\<lambda>a. (ca_value a, ca_rtype a, ca_name a)) (ce_answers e)
     \<and> ce_chosen e' = ce_chosen e \<and> ce_rcode e' = ce_rcode e \<and> ce_rule_gen e' = ce_rule_gen e
     \<and> \<bar>ce_expires_at e' - ce_expires_at e\<bar> \<le> 1 / 2000 \<and> \<bar>ce_ttl e' - ce_ttl e\<bar> \<le> 1 / 2000"
proof -
  obtain as where as: "answer_bodies U (ce_answers e) = Inr as"
    and b: "b = \<lparr>eb_key = k, eb_answers = as, eb_chosen = ce_chosen e, eb_ttl_ms = secs_to_ttl_ms (Fin (ce_ttl e)),
       eb_rcode = ce_rcode e, eb_rule_gen = ce_rule_gen e,
       eb_expires_at_ms = secs_to_ms_saturating (Fin (ce_expires_at e))\<rparr>"
    using assms(1) by (auto simp: from_entry_def bindE_eq_Inr split: if_splits)
  have "entry_decode out = Inr b" by (rule entry_decode_from_entry [OF assms(1-5)])
  moreover have "\<exists>cs. cache_answers as = Inr cs \<and> map (\<lambda>a. (ca_value a, ca_rtype a, ca_name a)) cs
      = map (\<lambda>a. (ca_value a, ca_rtype a, ca_name a)) (ce_answers e)"
    using assms(4) by (intro cache_answers_values [OF as]) (simp add: utf8_entry_def)
  ultimately show ?thesis
    using expires_ms [OF assms(6)] ttl_ms [OF assms(7,8)] by (auto simp: b to_entry_def)
qed

theorem entry_restored_witness:
  "\<exists>out e'. entry_encode sample_body [] = Inr out \<and> bindE (entry_decode out) to_entry = Inr e'
     \<and> map ca_value (ce_answers e') = [lit ''0100'']"
proof -
  obtain out where out: "entry_encode sample_body [] = Inr out" using sample_encode [of "[]"] by auto
  have b: "\<forall>a\<in>set (eb_answers sample_body). length (ab_rdata a) \<le> 65535"
    "\<bar>ce_expires_at sample_entry\<bar> \<le> 9223372036854775" "0 \<le> ce_ttl sample_entry" "ce_ttl sample_entry \<le> 4294967"
    by (simp_all add: sample_body_def sample_entry_def)
  obtain e' where e': "bindE (entry_decode out) to_entry = Inr e'"
    and v: "map (\<lambda>a. (ca_value a, ca_rtype a, ca_name a)) (ce_answers e')
       = map (\<lambda>a. (ca_value a, ca_rtype a, ca_name a)) (ce_answers sample_entry)"
    using entry_restored [OF sample_from_entry out sample_utf8 b] by blast
  from arg_cong [OF v, of "map fst"] have "map ca_value (ce_answers e') = [lit ''0100'']"
    by (simp add: sample_entry_def comp_def del: lit_Cons lit_Nil)
  then show ?thesis using out e' by (intro exI conjI)
qed

end
