(* ===== verification/Wal_Props.thy ===== *)
theory Wal_Props
  imports Wal Entry_Roundtrip
begin

text \<open>
  The log: a frame written is read back, a frame cut short is a tail, a frame whose bytes changed is
  skipped or ends the segment; a whole segment read by \<open>wal_next\<close> until it stops; the bytes of the
  file along appends, failed appends and truncations.
\<close>

subsection \<open>One frame\<close>

lemma length_frame [simp]: "length (frame typ body) = 9 + length body"
  by (simp add: frame_def Let_def)

lemma unat_len32: "n \<le> MAX_RECORD_BYTES \<Longrightarrow> unat (word_of_nat n :: u32) = n"
  by (simp add: MAX_RECORD_BYTES_def unat_of_nat_u32)

definition framed :: "u8 \<Rightarrow> u32 \<Rightarrow> u32 \<Rightarrow> bytes \<Rightarrow> bytes" where
  "framed typ len crc body = typ # le32 len @ le32 crc @ body"

lemma frame_framed:
  "frame typ body = framed typ (word_of_nat (length body)) (crc32c (typ # le32 (word_of_nat (length body)) @ body)) body"
  by (simp add: frame_def framed_def Let_def)

lemma length_framed [simp]: "length (framed typ len crc body) = 9 + length body"
  by (simp add: framed_def)

lemma framed_parts:
  assumes "wr_data r = pre @ framed typ len crc body @ post" "wr_pos r = length pre" "unat len = length body"
  shows "slice (wr_data r) (wr_pos r) REC_HDR_LEN = typ # le32 len @ le32 crc"
    and "slice (wr_data r) (wr_pos r + REC_HDR_LEN) (unat len) = body"
proof -
  have d: "wr_data r = pre @ (typ # le32 len @ le32 crc) @ body @ post"
    "wr_data r = (pre @ typ # le32 len @ le32 crc) @ body @ post"
    using assms(1) by (simp_all add: framed_def)
  show "slice (wr_data r) (wr_pos r) REC_HDR_LEN = typ # le32 len @ le32 crc"
    unfolding d(1) by (rule slice_append_at) (simp_all add: assms REC_HDR_LEN_def)
  show "slice (wr_data r) (wr_pos r + REC_HDR_LEN) (unat len) = body"
    unfolding d(2) by (rule slice_append_at) (simp_all add: assms REC_HDR_LEN_def)
qed

lemma framed_hdr:
  fixes len crc :: u32
  shows "(typ # le32 len @ le32 crc) ! 0 = typ" "slice (typ # le32 len @ le32 crc) 1 4 = le32 len"
    "slice (typ # le32 len @ le32 crc) 5 4 = le32 crc"
  using slice_append_at [of "[typ]" 1 "le32 len" 4 "le32 crc"]
    slice_append_end [of "typ # le32 len" 5 "le32 crc" 4] by simp_all

definition at_pos :: "wal_reader \<Rightarrow> bytes \<Rightarrow> bytes \<Rightarrow> bool" where
  "at_pos r pre rest \<longleftrightarrow> wr_data r = pre @ rest \<and> wr_pos r = length pre \<and> wr_file_len r = length pre + length rest"

lemma wal_next_framed:
  assumes "at_pos r pre (framed typ len crc body @ post)" "unat len = length body" "length body \<le> MAX_RECORD_BYTES"
  shows "wal_next r =
     (let next_pos = length pre + 9 + length body in
      if crc32c (typ # le32 len @ body) \<noteq> crc then
        (if post = [] \<or> rest_is_all_zero r next_pos (length post)
         then (Inl (Tail (length pre) (9 + length body + length post)), r)
         else (Inr (Some BadContent), r\<lparr>wr_pos := next_pos\<rparr>))
      else case decode_record typ body of
          Inr (Some rec) \<Rightarrow> (Inr (Some (Rec rec)), r\<lparr>wr_last_seq := Some (wal_rec_seq rec), wr_pos := next_pos\<rparr>)
        | Inr None \<Rightarrow> (Inr (Some BadContent), r\<lparr>wr_pos := next_pos\<rparr>)
        | Inl _ \<Rightarrow> (Inl (Corrupt (length pre)), r))"
proof -
  have d: "wr_data r = pre @ framed typ len crc body @ post" and p: "wr_pos r = length pre"
    and l: "wr_file_len r = length pre + (9 + length body + length post)"
    using assms(1) by (simp_all add: at_pos_def add.assoc)
  note parts = framed_parts [OF d p assms(2), unfolded p]
  have nb: "(MAX_RECORD_BYTES < length body) = False" using assms(3) by simp
  have r: "length pre + (9 + length body + length post) - length pre = 9 + length body + length post"
    "length pre + (9 + length body + length post) - (length pre + 9 + length body) = length post"
    "length pre + REC_HDR_LEN + length body = length pre + 9 + length body"
    "(9 + length body + length post < REC_HDR_LEN) = False"
    "(9 + length body + length post < REC_HDR_LEN + length body) = False"
    "(9 + length body + length post = 0) = False"
    by (simp_all add: REC_HDR_LEN_def)
  show ?thesis
    unfolding wal_next_def Let_def p l parts framed_hdr of_le_le
    unfolding assms(2) nb r if_False length_0_conv by (rule refl)
qed

text \<open>A frame cut short is a tail.\<close>

lemma wal_next_cut:
  assumes "at_pos r pre (take n (frame typ body))" "0 < n" "n < 9 + length body" "length body \<le> MAX_RECORD_BYTES"
  shows "wal_next r = (Inl (Tail (length pre) n), r)"
proof (cases "n < 9")
  case True
  then show ?thesis using assms by (simp add: wal_next_def at_pos_def Let_def REC_HDR_LEN_def)
next
  case False
  let ?len = "word_of_nat (length body) :: u32"
  have u: "unat ?len = length body" using assms(4) by (rule unat_len32)
  let ?h = "typ # le32 ?len @ le32 (crc32c (typ # le32 ?len @ body))"
  have "take n (frame typ body) = ?h @ take (n - 9) body"
    using False by (simp add: frame_def Let_def take_Cons' )
  then have d: "wr_data r = pre @ ?h @ take (n - 9) body" and p: "wr_pos r = length pre"
    and l: "wr_file_len r = length pre + n"
    using assms(1-3) False by (simp_all add: at_pos_def)
  have h: "slice (wr_data r) (length pre) 9 = ?h"
    unfolding d by (rule slice_append_at) simp_all
  have "\<not> length body > MAX_RECORD_BYTES" using assms(4) by simp
  then show ?thesis using assms(2,3) False
    by (simp only: wal_next_def Let_def p l REC_HDR_LEN_def h framed_hdr of_le_le u) simp
qed

text \<open>Zero bytes behind the last frame.\<close>

lemma crc_five_zeros: "crc32c [0, 0, 0, 0, 0] \<noteq> 0"
  by (simp add: crc_eval)

lemma le32_zero: "le32 0 = [0, 0, 0, 0]"
  by code_simp

lemma wal_next_zeros:
  assumes "at_pos r pre (replicate n 0)" "0 < n"
  shows "wal_next r =
     (if n \<le> MAX_RECORD_BYTES + 9 then (Inl (Tail (length pre) n), r)
      else (Inr (Some BadContent), r\<lparr>wr_pos := length pre + 9\<rparr>))"
proof (cases "n < 9")
  case True
  then show ?thesis using assms by (simp add: wal_next_def at_pos_def Let_def REC_HDR_LEN_def)
next
  case False
  let ?post = "replicate (n - 9) (0 :: u8)"
  have "replicate n 0 = replicate 9 (0 :: u8) @ ?post"
    using False by (simp flip: replicate_add)
  then have rep: "replicate n 0 = framed 0 0 0 [] @ ?post"
    by (simp add: framed_def le32_zero numeral_eq_Suc)
  have at: "at_pos r pre (framed 0 0 0 [] @ ?post)" using assms(1) unfolding rep .
  have d: "wr_data r = (pre @ framed 0 0 0 []) @ ?post" using at by (simp add: at_pos_def)
  have "slice (wr_data r) (length pre + 9) (n - 9) = ?post"
    unfolding d by (rule slice_append_end) simp_all
  then have z: "rest_is_all_zero r (length pre + 9) (n - 9) \<longleftrightarrow> n - 9 \<le> MAX_RECORD_BYTES"
    by (simp add: rest_is_all_zero_def list_all_iff)
  show ?thesis
    using wal_next_framed [OF at] crc_five_zeros z False by (auto simp: le32_zero Let_def)
qed

subsection \<open>Records\<close>

fun encode_rec :: "wal_rec \<Rightarrow> persist_error + bytes" where
  "encode_rec (Put seq b) = encode_put seq b"
| "encode_rec (Evict seq k reason) = encode_evict seq k reason"
| "encode_rec (Clear seq reason) = Inr (encode_clear seq reason)"
| "encode_rec (Commit seq ms n bytes) = Inr (encode_commit seq ms n bytes)"

text \<open>What the writer's callers give it: bodies made from entries, the reasons of the enumerations.\<close>

fun rec_ok :: "wal_rec \<Rightarrow> bool" where
  "rec_ok (Put _ b) = entry_body_ok b"
| "rec_ok (Evict _ k reason) = (utf8_key k \<and> 1 \<le> reason \<and> reason \<le> 5)"
| "rec_ok (Clear _ reason) = (1 \<le> reason \<and> reason \<le> 4)"
| "rec_ok (Commit _ _ _ _) = True"

lemma decode_encode_put:
  assumes "encode_put seq b = Inr f" "entry_body_ok b"
  shows "\<exists>body. f = frame T_PUT body \<and> length body \<le> MAX_RECORD_BYTES
     \<and> decode_record T_PUT body = Inr (Some (Put seq b))"
proof -
  obtain eb where eb: "entry_encode b [] = Inr eb" "length eb \<le> MAX_RECORD_BYTES - 8"
    and f: "f = frame T_PUT (le64 seq @ eb)"
    using assms(1) by (auto simp: encode_put_def bindE_eq_Inr split: if_splits)
  have "entry_decode eb = Inr b"
    using assms(2) by (rule entry_decode_encode [OF _ eb(1)])
  then have "decode_record T_PUT (le64 seq @ eb) = Inr (Some (Put seq b))"
    by (simp add: decode_record_def)
  moreover have "length (le64 seq @ eb) \<le> MAX_RECORD_BYTES"
    using eb(2) by (simp add: MAX_RECORD_BYTES_def)
  ultimately show ?thesis using f by blast
qed

lemma decode_encode_evict:
  assumes "encode_evict seq k reason = Inr f" "utf8_key k" "1 \<le> reason" "reason \<le> 5"
  shows "\<exists>body. f = frame T_EVICT body \<and> length body \<le> MAX_RECORD_BYTES
     \<and> decode_record T_EVICT body = Inr (Some (Evict seq k reason))"
proof -
  let ?h = "le64 seq @ [reason]"
  obtain body where body: "encode_key k ?h = Inr body" and f: "f = frame T_EVICT body"
    using assms(1) by (auto simp: encode_evict_def bindE_eq_Inr)
  obtain e where e: "body = ?h @ e" "decodes decode_key e k" using key_roundtrip [OF body assms(2)] by blast
  have "length e \<le> 600"
    using body e(1) by (auto simp: encode_key_def bindE_eq_Inr Let_def MAX_GROUP_def MAX_DOMAIN_def MAX_QTYPE_def
        split: if_splits option.splits)
  moreover have "T_EVICT \<noteq> T_PUT" by (simp add: T_EVICT_def T_PUT_def)
  ultimately show ?thesis
    using f decodes_whole [OF e(2)] assms(3,4) e(1)
    by (auto simp: decode_record_def MAX_RECORD_BYTES_def nth_append cur_remaining_def intro!: exI [of _ body])
qed

lemma decode_encode_rec:
  assumes "encode_rec x = Inr f" "rec_ok x"
  shows "\<exists>typ body. f = frame typ body \<and> length body \<le> MAX_RECORD_BYTES
     \<and> decode_record typ body = Inr (Some x)"
proof (cases x)
  case (Put seq b)
  then show ?thesis using decode_encode_put [of seq b f] assms by auto
next
  case (Evict seq k reason)
  then show ?thesis using decode_encode_evict [of seq k reason f] assms by auto
next
  case (Clear seq reason)
  then have "f = frame T_CLEAR (le64 seq @ [reason])" using assms(1) by (simp add: encode_clear_def)
  moreover have "decode_record T_CLEAR (le64 seq @ [reason]) = Inr (Some x)"
    using Clear assms(2) by (simp add: decode_record_def T_CLEAR_def T_PUT_def T_EVICT_def nth_append)
  ultimately show ?thesis by (intro exI [of _ T_CLEAR] exI conjI) (simp_all add: MAX_RECORD_BYTES_def)
next
  case (Commit seq ms n bytes)
  let ?b = "le64 seq @ le64 ms @ le32 n @ le32 bytes"
  have "slice ?b 8 8 = le64 ms" by (rule slice_append_at) simp_all
  moreover have "slice ?b 16 4 = le32 n"
    using slice_append_at [of "le64 seq @ le64 ms" 16 "le32 n" 4 "le32 bytes"] by simp
  moreover have "slice ?b 20 4 = le32 bytes"
    using slice_append_end [of "le64 seq @ le64 ms @ le32 n" 20 "le32 bytes" 4] by simp
  ultimately have "decode_record T_COMMIT ?b = Inr (Some x)"
    using Commit by (simp add: decode_record_def T_COMMIT_def T_CLEAR_def T_PUT_def T_EVICT_def)
  moreover have "f = frame T_COMMIT ?b" using Commit assms(1) by (simp add: encode_commit_def)
  ultimately show ?thesis by (intro exI [of _ T_COMMIT] exI conjI) (simp_all add: MAX_RECORD_BYTES_def)
qed

subsection \<open>A whole segment\<close>

text \<open>Every read of an item moves on, and stays inside the file.\<close>

lemma wal_next_advances:
  "wal_next r = (Inr (Some it), r') \<Longrightarrow> wr_pos r < wr_pos r' \<and> wr_pos r' \<le> wr_file_len r
     \<and> wr_file_len r' = wr_file_len r \<and> wr_data r' = wr_data r"
  by (auto simp: wal_next_def Let_def REC_HDR_LEN_def split: if_splits sum.splits option.splits)

text \<open>Reading until \<open>next\<close> stops: the items, the error that ended it, the reader left behind.\<close>

function wal_scan :: "wal_reader \<Rightarrow> wal_item list \<times> wal_err option \<times> wal_reader" where
  "wal_scan r =
     (case wal_next r of
        (Inr None, r') \<Rightarrow> ([], None, r')
      | (Inl e, r') \<Rightarrow> ([], Some e, r')
      | (Inr (Some it), r') \<Rightarrow> (case wal_scan r' of (its, e, r'') \<Rightarrow> (it # its, e, r'')))"
  by pat_completeness auto
termination
  by (relation "measure (\<lambda>r. wr_file_len r - wr_pos r)")
    (auto dest!: wal_next_advances [OF sym])

declare wal_scan.simps [simp del]

lemma wal_scan_stop:
  "wal_next r = (Inr None, r') \<Longrightarrow> wal_scan r = ([], None, r')"
  "wal_next r = (Inl e, r') \<Longrightarrow> wal_scan r = ([], Some e, r')"
  by (simp_all add: wal_scan.simps [of r])

lemma wal_scan_item:
  "wal_next r = (Inr (Some it), r') \<Longrightarrow> wal_scan r = (it # fst (wal_scan r'), snd (wal_scan r'))"
  by (simp add: wal_scan.simps [of r] split: prod.split)

lemma at_pos_advance:
  "at_pos r pre (f @ post) \<Longrightarrow> at_pos (r\<lparr>wr_pos := length pre + length f\<rparr>) (pre @ f) post"
  "at_pos r pre (f @ post) \<Longrightarrow>
     at_pos (r\<lparr>wr_last_seq := s, wr_pos := length pre + length f\<rparr>) (pre @ f) post"
  by (simp_all add: at_pos_def)

text \<open>A record in front of anything is read, and the reader stands behind it.\<close>

lemma wal_next_record:
  assumes "at_pos r pre (f @ post)" "encode_rec x = Inr f" "rec_ok x"
  shows "\<exists>r'. wal_next r = (Inr (Some (Rec x)), r') \<and> at_pos r' (pre @ f) post
     \<and> wr_last_seq r' = Some (wal_rec_seq x)"
proof -
  obtain ty body where f: "f = frame ty body" and l: "length body \<le> MAX_RECORD_BYTES"
    and d: "decode_record ty body = Inr (Some x)"
    using decode_encode_rec [OF assms(2,3)] by blast
  let ?r = "r\<lparr>wr_last_seq := Some (wal_rec_seq x), wr_pos := length pre + length f\<rparr>"
  have "wal_next r = (Inr (Some (Rec x)), ?r)"
    using wal_next_framed [OF assms(1) [unfolded f frame_framed] unat_len32 [OF l] l] d
    by (simp add: Let_def f add.assoc)
  then show ?thesis using at_pos_advance(2) [OF assms(1)] by (intro exI [of _ ?r]) simp
qed

abbreviation records_of :: "wal_rec list \<Rightarrow> bytes list \<Rightarrow> bool" where
  "records_of xs fs \<equiv> list_all2 (\<lambda>x f. encode_rec x = Inr f \<and> rec_ok x) xs fs"

lemma wal_scan_records:
  assumes "records_of xs fs" "at_pos r pre (concat fs @ post)"
  shows "\<exists>r'. at_pos r' (pre @ concat fs) post
     \<and> wal_scan r = (map Rec xs @ fst (wal_scan r'), snd (wal_scan r'))
     \<and> (xs \<noteq> [] \<longrightarrow> wr_last_seq r' = Some (wal_rec_seq (last xs)))"
  using assms
proof (induction arbitrary: r pre rule: list_all2_induct)
  case Nil
  then show ?case by auto
next
  case (Cons x xs f fs)
  then obtain r1 where r1: "wal_next r = (Inr (Some (Rec x)), r1)" "at_pos r1 (pre @ f) (concat fs @ post)"
      "wr_last_seq r1 = Some (wal_rec_seq x)"
    using wal_next_record [of r pre f "concat fs @ post" x] by auto
  from Cons.IH [OF r1(2)] obtain r' where r': "at_pos r' ((pre @ f) @ concat fs) post"
      "wal_scan r1 = (map Rec xs @ fst (wal_scan r'), snd (wal_scan r'))"
      "xs \<noteq> [] \<longrightarrow> wr_last_seq r' = Some (wal_rec_seq (last xs))"
    by blast
  show ?case
  proof (cases "xs = []")
    case True
    then have "fs = []" using Cons.hyps by simp
    then show ?thesis using r1 True wal_scan_item [OF r1(1)] by (intro exI [of _ r1]) simp
  next
    case False
    then show ?thesis using r' wal_scan_item [OF r1(1)] by (intro exI [of _ r']) simp
  qed
qed

lemma wal_scan_end: "at_pos r pre [] \<Longrightarrow> wal_scan r = ([], None, r)"
  by (rule wal_scan_stop) (simp add: wal_next_def at_pos_def Let_def)

subsection \<open>Segments\<close>

definition segment :: "u64 \<Rightarrow> u64 \<Rightarrow> bytes \<Rightarrow> bytes" where
  "segment base_seq created_ms rest = header_bytes base_seq created_ms @ rest"

lemma length_wal_header [simp]: "length (header_bytes b m) = 32"
  by (simp add: header_bytes_def Let_def WAL_MAGIC_def)

lemma header_slices:
  fixes b m :: u64
  defines "h \<equiv> WAL_MAGIC @ le16 WAL_VERSION @ le16 0 @ le64 b @ le64 m"
  shows "take 8 (header_bytes b m) = WAL_MAGIC" "slice (header_bytes b m) 8 2 = le16 WAL_VERSION"
    "slice (header_bytes b m) 12 8 = le64 b" "take 28 (header_bytes b m) = h"
    "slice (header_bytes b m) 28 4 = le32 (crc32c h)"
proof -
  have [simp]: "length WAL_MAGIC = 8" by (simp add: WAL_MAGIC_def)
  have e: "header_bytes b m = WAL_MAGIC @ le16 WAL_VERSION @ le16 0 @ le64 b @ le64 m @ le32 (crc32c h)"
    by (simp add: header_bytes_def Let_def h_def)
  have [simp]: "length h = 28" by (simp add: h_def)
  have eh: "header_bytes b m = h @ le32 (crc32c h)" by (simp add: e h_def)
  show "take 8 (header_bytes b m) = WAL_MAGIC" by (simp add: e)
  show "slice (header_bytes b m) 8 2 = le16 WAL_VERSION" unfolding e by (rule slice_append_at) simp_all
  show "slice (header_bytes b m) 12 8 = le64 b"
    using slice_append_at [of "WAL_MAGIC @ le16 WAL_VERSION @ le16 0" 12 "le64 b" 8] by (simp add: e)
  show "take 28 (header_bytes b m) = h" "slice (header_bytes b m) 28 4 = le32 (crc32c h)"
    by (simp_all add: eh)
qed

lemma read_header_segment: "read_header (segment b m rest) = Inr b"
  using header_slices [of b m] by (simp add: read_header_def segment_def HEADER_LEN_def Let_def)

lemma wal_open_segment:
  "\<exists>r. wal_open (segment b m rest) b = Inr r \<and> at_pos r (header_bytes b m) rest \<and> wr_last_seq r = None"
  by (auto simp: wal_open_def read_header_segment at_pos_def HEADER_LEN_def) (auto simp: segment_def)

text \<open>What a reader sees of the bytes of a segment file.\<close>

definition read_segment :: "bytes \<Rightarrow> u64 \<Rightarrow> wal_open_err + wal_item list \<times> wal_err option" where
  "read_segment f base = bindE (wal_open f base) (\<lambda>r. case wal_scan r of (its, e, _) \<Rightarrow> Inr (its, e))"

lemma read_segment_prefix:
  assumes "records_of xs fs"
  shows "\<exists>r. at_pos r (header_bytes b m @ concat fs) post
     \<and> read_segment (segment b m (concat fs @ post)) b
       = Inr (map Rec xs @ fst (wal_scan r), fst (snd (wal_scan r)))"
proof -
  obtain r0 where r0: "wal_open (segment b m (concat fs @ post)) b = Inr r0"
      "at_pos r0 (header_bytes b m) (concat fs @ post)"
    using wal_open_segment by blast
  from wal_scan_records [OF assms r0(2)] r0(1) show ?thesis
    by (fastforce simp: read_segment_def split: prod.splits)
qed

lemma read_back:
  assumes "records_of xs fs"
  shows "read_segment (segment b m (concat fs)) b = Inr (map Rec xs, None)"
  using read_segment_prefix [OF assms, of b m "[]"] wal_scan_end by fastforce

lemma split_concat:
  "n < length (concat fs) \<Longrightarrow>
     \<exists>k < length fs. \<exists>j < length (fs ! k). take n (concat fs) = concat (take k fs) @ take j (fs ! k)
       \<and> n = length (concat (take k fs)) + j"
proof (induction fs arbitrary: n)
  case (Cons f fs)
  show ?case
  proof (cases "n < length f")
    case True
    then show ?thesis by (intro exI [of _ 0]) auto
  next
    case False
    with Cons obtain k j where "k < length fs" "j < length (fs ! k)"
      "take (n - length f) (concat fs) = concat (take k fs) @ take j (fs ! k)"
      "n - length f = length (concat (take k fs)) + j"
      by (metis add_diff_inverse_nat concat.simps(2) length_append nat_add_left_cancel_less)
    then show ?thesis using False by (intro exI [of _ "Suc k"]) auto
  qed
qed simp

lemma cut_inside:
  assumes "records_of xs fs" "n < length (concat fs)"
  shows "\<exists>k < length xs. \<exists>j < length (fs ! k). n = length (concat (take k fs)) + j
     \<and> read_segment (segment b m (take n (concat fs))) b
       = Inr (map Rec (take k xs), if j = 0 then None else Some (Tail (32 + (n - j)) j))"
proof -
  obtain k j where k: "k < length fs" "j < length (fs ! k)" "n = length (concat (take k fs)) + j"
    and t: "take n (concat fs) = concat (take k fs) @ take j (fs ! k)"
    using split_concat [OF assms(2)] by blast
  have kx: "k < length xs" using k(1) assms(1) by (simp add: list_all2_lengthD)
  have rec: "encode_rec (xs ! k) = Inr (fs ! k)" "rec_ok (xs ! k)"
    using assms(1) kx by (auto simp: list_all2_conv_all_nth)
  obtain r where r: "at_pos r (header_bytes b m @ concat (take k fs)) (take j (fs ! k))"
    and s: "read_segment (segment b m (take n (concat fs))) b
      = Inr (map Rec (take k xs) @ fst (wal_scan r), fst (snd (wal_scan r)))"
    using read_segment_prefix [OF list_all2_takeI [OF assms(1)]] unfolding t by blast
  have "wal_scan r = ([], if j = 0 then None else Some (Tail (32 + (n - j)) j), r)"
  proof (cases "j = 0")
    case True
    then show ?thesis using wal_scan_end r by simp
  next
    case False
    obtain ty body where f: "fs ! k = frame ty body" "length body \<le> MAX_RECORD_BYTES"
      using decode_encode_rec [OF rec] by blast
    have "wal_next r = (Inl (Tail (length (header_bytes b m @ concat (take k fs))) j), r)"
      using wal_next_cut [OF r [unfolded f(1)]] False k(2) f by simp
    then show ?thesis using False k(3) by (simp add: wal_scan_stop)
  qed
  then show ?thesis using s kx k(2,3) by (intro exI [of _ k] conjI exI [of _ j]) simp_all
qed



text \<open>Records begin with a byte that is not zero.\<close>

lemma encode_rec_head: "encode_rec x = Inr f \<Longrightarrow> \<exists>t bs. f = t # bs \<and> t \<noteq> 0"
  by (cases x) (auto simp: encode_put_def encode_evict_def encode_clear_def encode_commit_def bindE_eq_Inr
      frame_def Let_def T_PUT_def T_EVICT_def T_CLEAR_def T_COMMIT_def split: if_splits)

lemma rest_is_all_zero_pos [simp]: "rest_is_all_zero (r\<lparr>wr_pos := p\<rparr>) off n = rest_is_all_zero r off n"
  by (cases "n > MAX_RECORD_BYTES") (simp_all add: rest_is_all_zero_def)

lemma not_zero_rest:
  assumes "records_of xs fs" "xs \<noteq> []" "at_pos r pre (concat fs)" "p = length pre"
  shows "concat fs \<noteq> []" "\<not> rest_is_all_zero r p (length (concat fs))"
proof -
  obtain x xs' f fs' where "xs = x # xs'" "fs = f # fs'" "encode_rec x = Inr f"
    using assms(1,2) by (cases xs; cases fs) auto
  then obtain t bs where tb: "concat fs = t # bs" "t \<noteq> 0" using encode_rec_head by fastforce
  then show "concat fs \<noteq> []" by simp
  have "slice (wr_data r) p (length (concat fs)) = concat fs"
    using assms(3,4) by (simp add: at_pos_def)
  then show "\<not> rest_is_all_zero r p (length (concat fs))" using tb by (simp add: rest_is_all_zero_def)
qed

text \<open>
  When up to four consecutive bytes of one record's body change, the record is given up as bad
  content and every record before and after it is still read; as the last record it is a tail.
\<close>

theorem wal_changed_record:
  assumes "records_of xs fs" "records_of ys gs"
    and f: "frame ty (a @ b @ d) = f" "length (a @ b @ d) \<le> MAX_RECORD_BYTES"
    and ch: "length b = length b'" "length b \<le> 4" "b \<noteq> b'"
  defines "f' \<equiv> take 9 f @ a @ b' @ d"
  shows "read_segment (segment base ms (concat fs @ f' @ concat gs)) base =
     Inr (if ys = [] then (map Rec xs, Some (Tail (32 + length (concat fs)) (length f)))
          else (map Rec xs @ BadContent # map Rec ys, None))"
proof -
  let ?pre = "header_bytes base ms @ concat fs" and ?len = "word_of_nat (length (a @ b @ d)) :: u32"
  let ?crc = "crc32c (ty # le32 ?len @ a @ b @ d)"
  have f': "f' = framed ty ?len ?crc (a @ b' @ d)"
    using f(1) by (auto simp: f'_def frame_def framed_def Let_def)
  have len: "length f' = length f" using f(1) ch(1) by (auto simp: f'_def)
  have u: "unat ?len = length (a @ b' @ d)" "length (a @ b' @ d) \<le> MAX_RECORD_BYTES"
    using unat_len32 [OF f(2)] f(2) ch(1) by simp_all
  have bad: "crc32c (ty # le32 ?len @ a @ b' @ d) \<noteq> ?crc"
    using crc_burst [OF ch, of "ty # le32 ?len @ a" d] by simp
  obtain r where r: "at_pos r ?pre (f' @ concat gs)"
    and s: "read_segment (segment base ms (concat fs @ f' @ concat gs)) base
      = Inr (map Rec xs @ fst (wal_scan r), fst (snd (wal_scan r)))"
    using read_segment_prefix [OF assms(1)] by blast
  have lf: "length f = 9 + length (a @ b @ d)" unfolding f(1) [symmetric] by simp
  note next' = wal_next_framed [OF r [unfolded f'] u, unfolded Let_def if_P [OF bad]]
  let ?r = "r\<lparr>wr_pos := length ?pre + length f'\<rparr>"
  have at': "at_pos ?r (?pre @ f') (concat gs)" by (rule at_pos_advance(1) [OF r])
  show ?thesis
  proof (cases "ys = []")
    case True
    then have "gs = []" using assms(2) by simp
    then have "wal_next r = (Inl (Tail (length ?pre) (length f)), r)"
      using next' ch(1) by (simp add: lf)
    then show ?thesis using s True by (simp add: wal_scan_stop)
  next
    case False
    have p: "length ?pre + 9 + length (a @ b' @ d) = length (?pre @ f')"
      by (simp add: f' add.assoc)
    have z: "\<not> rest_is_all_zero r (length (?pre @ f')) (length (concat gs))"
      using not_zero_rest(2) [OF assms(2) False at' refl] by simp
    have "wal_next r = (Inr (Some BadContent), ?r)"
      using next' z not_zero_rest(1) [OF assms(2) False at' refl] unfolding p by simp
    moreover obtain r2 where "at_pos r2 ((?pre @ f') @ concat gs) []"
        "wal_scan ?r = (map Rec ys @ fst (wal_scan r2), snd (wal_scan r2))"
      using wal_scan_records [OF assms(2), of ?r "?pre @ f'" "[]"] at' by auto
    ultimately show ?thesis using s False by (simp add: wal_scan_item wal_scan_end)
  qed
qed

theorem wal_changed_record_witness:
  "read_segment (segment 5 0 (concat [encode_clear 7 1]
      @ (take 9 (frame T_CLEAR ([8, 0] @ [0] @ [0, 0, 0, 0, 0, 2])) @ [8, 0] @ [1] @ [0, 0, 0, 0, 0, 2])
      @ concat [encode_clear 9 1])) 5
     = Inr ([Rec (Clear 7 1), BadContent, Rec (Clear 9 1)], None)"
  using wal_changed_record [of "[Clear 7 1]" "[encode_clear 7 1]" "[Clear 9 1]" "[encode_clear 9 1]" T_CLEAR
      "[8, 0]" "[0]" "[0, 0, 0, 0, 0, 2]" _ "[1]" 5 0, OF _ _ refl]
  by (simp add: MAX_RECORD_BYTES_def)

text \<open>Zeros behind the last record.\<close>

lemma wal_scan_zeros:
  assumes "at_pos r pre (replicate n 0)" "0 < n"
  defines "k \<equiv> (n - MAX_RECORD_BYTES - 1) div 9"
  shows "\<exists>r'. wal_scan r = (replicate k BadContent, Some (Tail (length pre + 9 * k) (n - 9 * k)), r')"
  using assms(1,2) unfolding k_def
proof (induction n arbitrary: r pre rule: less_induct)
  case (less n)
  show ?case
  proof (cases "n \<le> MAX_RECORD_BYTES + 9")
    case True
    then have "(n - MAX_RECORD_BYTES - 1) div 9 = 0" by simp
    then show ?thesis
      using wal_next_zeros [OF less.prems] True wal_scan_stop(2) [of r] by (intro exI [of _ r]) simp
  next
    case False
    let ?r = "r\<lparr>wr_pos := length pre + 9\<rparr>" and ?p = "pre @ replicate 9 0"
    have n: "replicate n 0 = replicate 9 (0 :: u8) @ replicate (n - 9) 0"
      using False by (simp flip: replicate_add)
    have at: "at_pos ?r ?p (replicate (n - 9) 0)"
      using at_pos_advance(1) [OF less.prems(1) [unfolded n]] by simp
    have k: "(n - MAX_RECORD_BYTES - 1) div 9 = Suc ((n - 9 - MAX_RECORD_BYTES - 1) div 9)"
      using False by (simp add: le_div_geq diff_right_commute)
    obtain r' where "wal_scan ?r = (replicate ((n - 9 - MAX_RECORD_BYTES - 1) div 9) BadContent,
        Some (Tail (length ?p + 9 * ((n - 9 - MAX_RECORD_BYTES - 1) div 9))
          (n - 9 - 9 * ((n - 9 - MAX_RECORD_BYTES - 1) div 9))), r')"
      using less.IH [OF _ at] False by auto
    moreover have "wal_next r = (Inr (Some BadContent), ?r)"
      using wal_next_zeros [OF less.prems] False by simp
    ultimately show ?thesis unfolding k by (intro exI [of _ r']) (simp add: wal_scan_item)
  qed
qed

text \<open>
  Zeros behind the last record, as a file system leaves them when a file was extended and not
  written, are a tail up to a frame header and 1 MiB of them; more are given out as bad records of nine
  bytes until no more than that remain, and are not called corrupt.
\<close>

theorem wal_zero_tail:
  assumes "records_of xs fs" "0 < n"
  defines "k \<equiv> (n - MAX_RECORD_BYTES - 1) div 9"
  shows "read_segment (segment b m (concat fs @ replicate n 0)) b
     = Inr (map Rec xs @ replicate k BadContent, Some (Tail (32 + length (concat fs) + 9 * k) (n - 9 * k)))"
proof -
  obtain r where "at_pos r (header_bytes b m @ concat fs) (replicate n 0)"
    and s: "read_segment (segment b m (concat fs @ replicate n 0)) b
      = Inr (map Rec xs @ fst (wal_scan r), fst (snd (wal_scan r)))"
    using read_segment_prefix [OF assms(1)] by blast
  from wal_scan_zeros [OF this(1) assms(2)] s show ?thesis by (auto simp: k_def)
qed

theorem wal_zero_tail_witness:
  "read_segment (segment 5 0 (concat [encode_clear 7 1] @ replicate 1048586 0)) 5
     = Inr ([Rec (Clear 7 1), BadContent], Some (Tail 59 1048577))"
proof -
  have "(1048586 - MAX_RECORD_BYTES - 1) div 9 = 1" by (simp add: MAX_RECORD_BYTES_def)
  then show ?thesis
    using wal_zero_tail [of "[Clear 7 1]" "[encode_clear 7 1]" 1048586 5 0]
    by (simp add: encode_clear_def)
qed

subsection \<open>The segment header\<close>

lemma le32_of_le: "length bs = 4 \<Longrightarrow> le32 (of_le bs :: u32) = bs"
proof -
  assume l: "length bs = 4"
  then have "le_val bs < 4294967296" using le_val_bound [of bs] by simp
  then have "unat (of_le bs :: u32) = le_val bs" by (simp add: of_le_def unat_of_nat_u32)
  then show ?thesis using l le_enc_val [of bs 4] by (simp add: le32_def)
qed

lemma read_header_changed:
  assumes "i < 32" "header_bytes b m ! i \<noteq> v"
  shows "\<exists>e. read_header ((header_bytes b m)[i := v] @ rest) = Inl e"
proof -
  let ?h = "header_bytes b m" and ?c = "WAL_MAGIC @ le16 WAL_VERSION @ le16 0 @ le64 b @ le64 m"
  note s = header_slices [of b m]
  have t: "take 32 (?h[i := v] @ rest) = ?h[i := v]" by simp
  have "crc32c (take 28 (?h[i := v])) \<noteq> of_le (slice (?h[i := v]) 28 4)"
  proof (cases "i < 28")
    case True
    have "slice (?h[i := v]) 28 4 = slice ?h 28 4" using True by (simp add: slice_def)
    moreover have "take 28 (?h[i := v]) = take i (take 28 ?h) @ [v] @ drop (Suc i) (take 28 ?h)"
      by (subst take_update_swap, subst upd_conv_take_nth_drop) (use True in simp_all)
    moreover have "take 28 ?h = take i (take 28 ?h) @ [?h ! i] @ drop (Suc i) (take 28 ?h)"
      using True id_take_nth_drop [of i "take 28 ?h"] by simp
    moreover have "crc32c (take i (take 28 ?h) @ [v] @ drop (Suc i) (take 28 ?h))
        \<noteq> crc32c (take i (take 28 ?h) @ [?h ! i] @ drop (Suc i) (take 28 ?h))"
      using assms(2) by (intro crc_burst) simp_all
    ultimately show ?thesis using s(4,5) by (metis of_le_le(2))
  next
    case False
    have "take 28 (?h[i := v]) = take 28 ?h" using False by simp
    moreover have "slice (?h[i := v]) 28 4 \<noteq> slice ?h 28 4"
      using False assms by (auto simp: slice_def list_eq_iff_nth_eq nth_list_update intro!: exI [of _ "i - 28"])
    moreover have "length (slice (?h[i := v]) 28 4) = 4" by simp
    ultimately show ?thesis using s(4,5) le32_of_le by metis
  qed
  then show ?thesis unfolding read_header_def HEADER_LEN_def Let_def t by simp
qed

text \<open>A segment opens with the base it was created with, and no change of a single byte of its header
  goes unnoticed.\<close>

theorem wal_header_checked:
  "read_header (segment b m rest) = Inr b
   \<and> (i < 32 \<and> header_bytes b m ! i \<noteq> v \<longrightarrow> (\<exists>e. read_header ((header_bytes b m)[i := v] @ rest) = Inl e))"
  using read_header_segment read_header_changed by blast

theorem wal_header_checked_witness:
  "\<exists>e. read_header ((header_bytes 5 0)[11 := 1] @ []) = Inl e"
proof -
  have "header_bytes 5 0 ! 11 = 0"
    by (simp add: header_bytes_def Let_def WAL_MAGIC_def nth_append le16_def numeral_2_eq_2)
  then show ?thesis using wal_header_checked [of 5 0 "[]" 11 1] by simp
qed

subsection \<open>The writer\<close>

text \<open>
  A writer and the byte strings it has written: created, extended by an append, put back by
  \<open>truncate_to_valid\<close> after a failed one.
\<close>

inductive wal_written :: "u64 \<Rightarrow> u64 \<Rightarrow> bytes list \<Rightarrow> wal_writer \<Rightarrow> bool" for base ms where
  created: "wal_written base ms [] (wal_create base ms)"
| appended: "wal_written base ms fs w \<Longrightarrow> append_bytes None bs w = (Inr (), w') \<Longrightarrow>
    wal_written base ms (fs @ [bs]) w'"
| failed: "wal_written base ms fs w \<Longrightarrow> append_bytes (Some n) bs w = (e, w') \<Longrightarrow>
    wal_written base ms fs (truncate_to_valid w')"

definition writer_at :: "u64 \<Rightarrow> u64 \<Rightarrow> bytes \<Rightarrow> wal_writer" where
  "writer_at base ms bs = \<lparr>ww_data = segment base ms bs, ww_at = 32 + length bs, ww_base_seq = base,
     ww_bytes = 32 + length bs, ww_valid_len = 32 + length bs\<rparr>"

lemma append_failed:
  "append_bytes (Some n) bs (writer_at base ms cs) = (e, w') \<Longrightarrow>
     ww_data w' = segment base ms (cs @ take n bs) \<and> ww_valid_len w' = 32 + length cs
     \<and> ww_base_seq w' = base"
  by (auto simp: append_bytes_def writer_at_def write_at_def segment_def Let_def)

lemma wal_written_is:
  "wal_written base ms fs w \<Longrightarrow> w = writer_at base ms (concat fs)"
proof (induction rule: wal_written.induct)
  case created
  then show ?case by (simp add: wal_create_def writer_at_def HEADER_LEN_def segment_def)
next
  case (appended fs w bs w')
  then show ?case by (auto simp: append_bytes_def writer_at_def write_at_def segment_def Let_def)
next
  case (failed fs w n bs e w')
  then have "append_bytes (Some n) bs (writer_at base ms (concat fs)) = (e, w')" by simp
  from append_failed [OF this] show ?case
    by (simp add: truncate_to_valid_def writer_at_def set_len_def segment_def)
qed

text \<open>Whatever appends failed and were cut off, the file is the header followed by the byte strings whose
  append succeeded, and the writer stands at its end.\<close>

theorem wal_writer_contents:
  assumes "wal_written base ms fs w"
  shows "ww_data w = segment base ms (concat fs) \<and> ww_at w = length (ww_data w)
    \<and> ww_bytes w = length (ww_data w) \<and> ww_valid_len w = length (ww_data w)"
  using wal_written_is [OF assms] by (simp add: writer_at_def segment_def)

theorem wal_writer_contents_witness:
  "ww_data (truncate_to_valid (snd (append_bytes (Some 1) [7, 8] (wal_create 5 0)))) = segment 5 0 (concat [])"
proof -
  have "wal_written 5 0 [] (truncate_to_valid (snd (append_bytes (Some 1) [7, 8] (wal_create 5 0))))"
    by (rule wal_written.failed [OF wal_written.created surjective_pairing])
  from wal_writer_contents [OF this] show ?thesis by blast
qed

text \<open>
  A crash in the middle of an append loses that record alone: the reader finds the others and the
  tail, and the segment opened at the tail's start is the writer as it was before the append.
\<close>

theorem wal_crash_reopen:
  assumes "wal_written base ms fs w" "records_of xs fs"
    and "encode_rec x = Inr f" "rec_ok x" "append_bytes (Some n) f w = (e, w')" "n < length f"
  shows "read_segment (ww_data w') base
      = Inr (map Rec xs, if n = 0 then None else Some (Tail (ww_valid_len w) n))
    \<and> wal_open_append (ww_data w') base (ww_valid_len w) = Inr w"
proof
  have w: "w = writer_at base ms (concat fs)" using wal_written_is [OF assms(1)] .
  have d: "ww_data w' = segment base ms (concat fs @ take n f)"
    using append_failed assms(5) unfolding w by blast
  obtain ty body where f: "f = frame ty body" "length body \<le> MAX_RECORD_BYTES"
    using decode_encode_rec [OF assms(3,4)] by blast
  obtain r where r: "at_pos r (header_bytes base ms @ concat fs) (take n f)"
    and s: "read_segment (segment base ms (concat fs @ take n f)) base
      = Inr (map Rec xs @ fst (wal_scan r), fst (snd (wal_scan r)))"
    using read_segment_prefix [OF assms(2)] by blast
  show "read_segment (ww_data w') base
      = Inr (map Rec xs, if n = 0 then None else Some (Tail (ww_valid_len w) n))"
  proof (cases "n = 0")
    case True
    then show ?thesis using s r wal_scan_end d by simp
  next
    case False
    then have "wal_next r = (Inl (Tail (length (header_bytes base ms @ concat fs)) n), r)"
      using wal_next_cut [OF r [unfolded f(1)]] assms(6) f by simp
    then show ?thesis using s d w False by (simp add: wal_scan_stop writer_at_def)
  qed
  show "wal_open_append (ww_data w') base (ww_valid_len w) = Inr w"
    using assms(6) by (auto simp: wal_open_append_def d w writer_at_def read_header_segment HEADER_LEN_def)
      (auto simp: segment_def set_len_def)
qed

theorem wal_crash_reopen_witness:
  "read_segment (ww_data (snd (append_bytes (Some 3) (encode_clear 9 1) (wal_create 5 0)))) 5 = Inr ([], Some (Tail 32 3))"
proof -
  have w: "wal_written 5 0 [] (wal_create 5 0)" by (rule wal_written.created)
  have c: "encode_rec (Clear 9 1) = Inr (encode_clear 9 1)" "rec_ok (Clear 9 1)" by simp_all
  have l: "3 < length (encode_clear 9 1)" by (simp add: encode_clear_def)
  have v: "ww_valid_len (wal_create 5 0) = 32" by (simp add: wal_create_def HEADER_LEN_def)
  show ?thesis using wal_crash_reopen [OF w list_all2_Nil [THEN iffD2] c surjective_pairing l] by (simp add: v)
qed

end
