(* ===== verification/Snapshot_Props.thy ===== *)
theory Snapshot_Props
  imports Snapshot Entry_Roundtrip
begin

text \<open>
  Snapshots: what was pushed is read back, a record whose payload changed is skipped and counted, a
  record that would run past the record area is an error.
\<close>

subsection \<open>Records\<close>

definition rec_head :: "bytes \<Rightarrow> bytes" where
  "rec_head pl = le32 (word_of_nat (length pl)) @ [REC_TYPE_ENTRY, 0] @ le16 0"

definition snap_rec :: "u32 \<Rightarrow> bytes \<Rightarrow> bytes" where
  "snap_rec crc pl = rec_head pl @ pl @ le32 crc"

abbreviation good_rec :: "bytes \<Rightarrow> bytes" where
  "good_rec pl \<equiv> snap_rec (crc32c (rec_head pl @ pl)) pl"

lemma length_rec_head [simp]: "length (rec_head pl) = 8"
  by (simp add: rec_head_def)

lemma length_snap_rec [simp]: "length (snap_rec crc pl) = 12 + length pl"
  by (simp add: snap_rec_def)

lemma unat_plen: "n \<le> MAX_RECORD_BYTES \<Longrightarrow> unat (word_of_nat n :: u32) = n"
  by (simp add: MAX_RECORD_BYTES_def unat_of_nat_u32)

lemma snap_loop_rec:
  fixes left :: u64
  assumes "length pl \<le> MAX_RECORD_BYTES" "12 \<le> unat left"
  shows "snap_loop (pre @ snap_rec crc pl @ post) f (length pre) left bc seen failed s =
     (let next = snap_loop (pre @ snap_rec crc pl @ post) f (length pre + (12 + length pl))
                   (left - word_of_nat (12 + length pl)) (crc32c_update bc (snap_rec crc pl)) (u32_sat_inc seen) in
      if crc32c (rec_head pl @ pl) \<noteq> crc then next (u32_sat_inc failed) s
      else if length pl < 8 then next (u32_sat_inc failed) s
      else case entry_decode (drop 8 pl) of
             Inl _ \<Rightarrow> next (u32_sat_inc failed) s
           | Inr body \<Rightarrow>
               (case f (of_le (take 8 pl)) (eb_key body) body s of Inl e \<Rightarrow> Inl e | Inr s' \<Rightarrow> next failed s'))"
proof -
  let ?data = "pre @ snap_rec crc pl @ post" and ?len = "word_of_nat (length pl) :: u32"
  have u: "unat ?len = length pl" using assms(1) by (rule unat_plen)
  have d: "?data = pre @ rec_head pl @ pl @ le32 crc @ post"
    "?data = (pre @ rec_head pl) @ pl @ le32 crc @ post"
    "?data = (pre @ rec_head pl @ pl) @ le32 crc @ post" by (simp_all add: snap_rec_def)
  have h: "slice ?data (length pre) 8 = rec_head pl"
    unfolding d(1) by (rule slice_append_at) simp_all
  have p: "slice ?data (length pre + 8) (length pl) = pl"
    unfolding d(2) by (rule slice_append_at) simp_all
  have c: "slice ?data (length pre + 8 + length pl) 4 = le32 crc"
    unfolding d(3) by (rule slice_append_at) simp_all
  have t: "take 4 (rec_head pl) = le32 ?len" "rec_head pl ! 4 = REC_TYPE_ENTRY"
    by (simp_all add: rec_head_def nth_append)
  have nz: "left \<noteq> 0" "\<not> left < REC_OVERHEAD"
    using assms(2) by (auto simp: REC_OVERHEAD_def word_less_nat_alt)
  have "ucast ?len = (word_of_nat (length pl) :: u64)"
    using u by (metis of_nat_unat)
  then have w: "left - (REC_OVERHEAD + ucast ?len) = left - word_of_nat (12 + length pl)"
    by (simp add: REC_OVERHEAD_def)
  have upd: "crc32c_update (crc32c_update bc (rec_head pl @ pl)) (le32 crc) = crc32c_update bc (snap_rec crc pl)"
    by (simp only: snap_rec_def append_assoc flip: crc32c_update_append)
  have bounds: "\<not> length pre + 8 > length ?data" "\<not> length pre + 8 + length pl > length ?data"
    "\<not> length pre + 8 + length pl + 4 > length ?data" "\<not> length pl > MAX_RECORD_BYTES"
    using assms(1) by simp_all
  have pos: "length pre + 12 + length pl = length pre + (12 + length pl)" by simp
  show ?thesis
    by (subst snap_loop.simps)
      (simp only: Let_def nz h t of_le_le u bounds p c w upd pos if_False simp_thms)
qed

text \<open>A record that would run past the record area: the count wraps around and never comes to zero.\<close>

lemma snap_loop_next:
  fixes left :: u64
  assumes "snap_loop data f pos left bc seen failed s = Inr r" "left \<noteq> 0"
  defines "plen \<equiv> of_le (take 4 (slice data pos 8)) :: u32"
  shows "unat plen \<le> MAX_RECORD_BYTES" "pos + 12 + unat plen \<le> length data"
    and "\<exists>bc' seen' failed' s'.
      snap_loop data f (pos + 12 + unat plen) (left - (REC_OVERHEAD + ucast plen)) bc' seen' failed' s' = Inr r
      \<and> (s' = s \<or> (\<exists>es k b. f es k b s = Inr s'))"
  using assms(1,2) unfolding plen_def
  by (subst (asm) snap_loop.simps,
      fastforce simp: Let_def add.assoc add.commute add.left_commute split: if_splits sum.splits)+

lemma snap_loop_inside:
  fixes left :: u64
  assumes "snap_loop data f pos left bc seen failed s = Inr r" "pos \<le> length data" "length data < 2 ^ 63"
  shows "pos + unat left \<le> length data"
  using assms(1,2)
proof (induction "length data - pos" arbitrary: pos left bc seen failed s rule: less_induct)
  case less
  let ?plen = "of_le (take 4 (slice data pos 8)) :: u32"
  let ?left = "left - (REC_OVERHEAD + ucast ?plen)" and ?pos = "pos + 12 + unat ?plen"
  show ?case
  proof (cases "left = 0")
    case False
    note step = snap_loop_next [OF less.prems(1) False]
    obtain bc' seen' failed' s' where "snap_loop data f ?pos ?left bc' seen' failed' s' = Inr r"
      using step(3) by blast
    then have IH: "?pos + unat ?left \<le> length data" using less.hyps step(2) by simp
    have "unat (ucast ?plen :: u64) = unat ?plen"
      using step(1) by (simp add: MAX_RECORD_BYTES_def unsigned_ucast_eq take_bit_nat_eq_self)
    then have c: "unat (REC_OVERHEAD + ucast ?plen :: u64) = 12 + unat ?plen"
      using step(1) by (simp add: REC_OVERHEAD_def MAX_RECORD_BYTES_def unat_word_ariths)
    show ?thesis
    proof (cases "12 + unat ?plen \<le> unat left")
      case True
      then have "unat ?left = unat left - (12 + unat ?plen)"
        by (simp add: unat_sub word_le_nat_alt c)
      then show ?thesis using IH True by simp
    next
      case False
      then have "unat ?left = unat left + 2 ^ 64 - (12 + unat ?plen)"
        using c by (simp add: unat_sub_if' word_le_nat_alt)
      then show ?thesis using IH step(1) assms(3) by (simp add: MAX_RECORD_BYTES_def)
    qed
  qed (use less.prems in simp)
qed

subsection \<open>Sequences of records\<close>

type_synonym item = "u64 \<times> entry_body"

definition payload_of :: "item \<Rightarrow> bytes \<Rightarrow> bool" where
  "payload_of it pl \<longleftrightarrow> (\<exists>e. pl = le64 (fst it) @ e \<and> entry_decode e = Inr (snd it))
     \<and> length pl \<le> MAX_RECORD_BYTES"

abbreviation take_in :: "(u64 \<Rightarrow> cache_key \<Rightarrow> entry_body \<Rightarrow> 's \<Rightarrow> 's) \<Rightarrow> item list \<Rightarrow> 's \<Rightarrow> 's" where
  "take_in g items s \<equiv> fold (\<lambda>(es, b). g es (eb_key b) b) items s"

abbreviation total :: "(u64 \<Rightarrow> cache_key \<Rightarrow> entry_body \<Rightarrow> 's \<Rightarrow> 's) \<Rightarrow> 's callback" where
  "total g \<equiv> \<lambda>es k b s. Inr (g es k b s)"

lemma snap_loop_good:
  fixes left :: u64
  assumes "payload_of it pl" "12 + length pl \<le> unat left"
  shows "snap_loop (pre @ good_rec pl @ post) (total g) (length pre) left bc seen failed s =
     snap_loop ((pre @ good_rec pl) @ post) (total g) (length (pre @ good_rec pl))
       (left - word_of_nat (12 + length pl)) (crc32c_update bc (good_rec pl)) (u32_sat_inc seen) failed
       (take_in g [it] s)"
proof -
  obtain e where e: "pl = le64 (fst it) @ e" "entry_decode e = Inr (snd it)" "length pl \<le> MAX_RECORD_BYTES"
    using assms(1) by (auto simp: payload_of_def)
  have l: "12 \<le> unat left" using assms(2) by simp
  have "\<not> length pl < 8" "drop 8 pl = e" "of_le (take 8 pl) = fst it" using e(1) by simp_all
  then show ?thesis
    using snap_loop_rec [OF e(3) l, of pre "crc32c (rec_head pl @ pl)" post "total g" bc seen failed s] e(2)
    by (simp add: Let_def split_beta)
qed

lemma unat_left:
  fixes left :: u64
  shows "n \<le> unat left \<Longrightarrow> unat (left - word_of_nat n) = unat left - n"
proof -
  assume n: "n \<le> unat left"
  then have "unat (word_of_nat n :: u64) = n"
    using unsigned_less [of left, where 'a = nat] by (simp add: unat_of_nat)
  then show ?thesis using n by (simp add: unat_sub word_le_nat_alt)
qed

lemma left_sub: "(left :: u64) - word_of_nat (a + b) = left - word_of_nat a - word_of_nat b"
  by simp

lemma snap_loop_goods:
  fixes left :: u64
  assumes "list_all2 payload_of items pls" "length (concat (map good_rec pls)) \<le> unat left"
  shows "snap_loop (pre @ concat (map good_rec pls) @ post) (total g) (length pre) left bc seen failed s =
     snap_loop ((pre @ concat (map good_rec pls)) @ post) (total g) (length (pre @ concat (map good_rec pls)))
       (left - word_of_nat (length (concat (map good_rec pls)))) (crc32c_update bc (concat (map good_rec pls)))
       ((u32_sat_inc ^^ length items) seen) failed (take_in g items s)"
  using assms
proof (induction arbitrary: pre left bc seen s rule: list_all2_induct)
  case Nil
  then show ?case by simp
next
  case (Cons it items pl pls)
  let ?r = "good_rec pl" and ?rs = "concat (map good_rec pls)"
  let ?left = "left - word_of_nat (12 + length pl)"
  have fit: "12 + length pl \<le> unat left" "length ?rs \<le> unat ?left"
    using Cons.prems unat_left [of "12 + length pl" left] by simp_all
  have "snap_loop (pre @ ?r @ ?rs @ post) (total g) (length pre) left bc seen failed s =
     snap_loop ((pre @ ?r) @ ?rs @ post) (total g) (length (pre @ ?r)) ?left (crc32c_update bc ?r)
       (u32_sat_inc seen) failed (take_in g [it] s)"
    by (rule snap_loop_good [OF Cons.hyps(1) fit(1)])
  also have "\<dots> = snap_loop (((pre @ ?r) @ ?rs) @ post) (total g) (length ((pre @ ?r) @ ?rs))
       (?left - word_of_nat (length ?rs)) (crc32c_update (crc32c_update bc ?r) ?rs)
       ((u32_sat_inc ^^ length items) (u32_sat_inc seen)) failed (take_in g items (take_in g [it] s))"
    by (rule Cons.IH [OF fit(2)])
  finally show ?case
    by (simp add: crc32c_update_append left_sub funpow_swap1 algebra_simps del: of_nat_add)
qed

lemma snap_loop_end: "snap_loop data f pos 0 bc seen failed s = Inr (bc, seen, failed, s)"
  by (subst snap_loop.simps) simp

lemma sat_inc_count: "n < 2 ^ 32 \<Longrightarrow> (u32_sat_inc ^^ n) 0 = word_of_nat n"
proof (induction n)
  case (Suc n)
  have "(word_of_nat n :: u32) \<noteq> - 1"
  proof
    assume "(word_of_nat n :: u32) = - 1"
    then have "unat (word_of_nat n :: u32) = unat (- 1 :: u32)" by simp
    then show False using Suc.prems by (simp add: unat_of_nat unsigned_minus_1_eq_mask mask_eq_exp_minus_1)
  qed
  then show ?case using Suc by (simp add: u32_sat_inc_def)
qed simp

subsection \<open>Files\<close>

lemma length_snap_header [simp]: "length (snap_header seq ms count rb) = 64"
  by (simp add: snap_header_def Let_def SNAP_MAGIC_def)

lemma length_snap_footer [simp]: "length (snap_footer count seq rb crc) = 40"
  by (simp add: snap_footer_def Let_def FOOT_MAGIC_def)

text \<open>The fields of the header and of the footer, where the reader looks for them.\<close>

definition header_body :: "u64 \<Rightarrow> u64 \<Rightarrow> u32 \<Rightarrow> u64 \<Rightarrow> bytes" where
  "header_body seq ms count rb = SNAP_MAGIC @ le16 SNAP_VERSION @ le16 0 @ le32 64 @ le64 seq @ le64 ms
     @ le32 count @ le32 0 @ le64 rb @ le64 0"

lemma length_magics [simp]: "length SNAP_MAGIC = 8" "length FOOT_MAGIC = 8"
  by (simp_all add: SNAP_MAGIC_def FOOT_MAGIC_def)

lemma snap_header_fields:
  fixes seq ms rb :: u64 and count :: u32
  defines "h \<equiv> snap_header seq ms count rb"
  shows "take 8 h = SNAP_MAGIC" "slice h 8 2 = le16 SNAP_VERSION" "slice h 12 4 = le32 64"
    "slice h 16 8 = le64 seq" "slice h 32 4 = le32 count" "slice h 40 8 = le64 rb"
    "slice h 60 4 = le32 0" "slice h 56 4 = le32 (crc32c (header_body seq ms count rb @ le32 0))"
    "take 56 h = header_body seq ms count rb"
proof -
  let ?c = "crc32c (header_body seq ms count rb @ le32 0)"
  have e: "h = SNAP_MAGIC @ le16 SNAP_VERSION @ le16 0 @ le32 64 @ le64 seq @ le64 ms
     @ le32 count @ le32 0 @ le64 rb @ le64 0 @ le32 ?c @ le32 0"
    by (simp add: h_def snap_header_def Let_def header_body_def)
  have b: "h = header_body seq ms count rb @ le32 ?c @ le32 0" by (simp add: e header_body_def)
  have [simp]: "length (header_body seq ms count rb) = 56" by (simp add: header_body_def)
  show "take 8 h = SNAP_MAGIC" "take 56 h = header_body seq ms count rb"
    "slice h 60 4 = le32 0" "slice h 56 4 = le32 ?c"
    by (simp add: e) (simp_all add: b slice_def)
  show "slice h 8 2 = le16 SNAP_VERSION" "slice h 12 4 = le32 64" "slice h 16 8 = le64 seq"
    "slice h 32 4 = le32 count" "slice h 40 8 = le64 rb"
    by (simp_all add: e slice_def)
qed

definition footer_body :: "u32 \<Rightarrow> u64 \<Rightarrow> u64 \<Rightarrow> u32 \<Rightarrow> bytes" where
  "footer_body count seq rb crc = FOOT_MAGIC @ le64 (ucast count) @ le64 seq @ le64 rb @ le32 crc"

lemma snap_footer_fields:
  fixes seq rb :: u64 and count crc :: u32
  defines "h \<equiv> snap_footer count seq rb crc"
  shows "take 8 h = FOOT_MAGIC" "slice h 8 8 = le64 (ucast count)" "slice h 16 8 = le64 seq"
    "slice h 24 8 = le64 rb" "slice h 32 4 = le32 crc" "take 36 h = footer_body count seq rb crc"
    "slice h 36 4 = le32 (crc32c (footer_body count seq rb crc))"
  by (simp_all add: h_def snap_footer_def footer_body_def Let_def slice_def)

definition snap_file :: "u64 \<Rightarrow> u64 \<Rightarrow> u32 \<Rightarrow> u32 \<Rightarrow> bytes \<Rightarrow> bytes" where
  "snap_file seq ms count crc recs =
     snap_header seq ms count (word_of_nat (length recs)) @ recs
     @ snap_footer count seq (word_of_nat (length recs)) crc"

lemma snap_open_file:
  fixes seq ms :: u64 and count crc :: u32
  assumes "length recs < 2 ^ 63" "12 * unat count \<le> length recs"
  defines "data \<equiv> snap_file seq ms count crc recs"
  shows "snap_open data = Inr \<lparr>sr_data = data, sr_file_len = 104 + length recs, sr_seq = seq, sr_count = count,
     sr_record_bytes = word_of_nat (length recs), sr_body_crc = crc\<rparr>"
proof -
  let ?rb = "word_of_nat (length recs) :: u64"
  have l: "length data = 104 + length recs" by (simp add: data_def snap_file_def)
  have h: "take 64 data = snap_header seq ms count ?rb" by (simp add: data_def snap_file_def)
  have f: "slice data (64 + length recs) 40 = snap_footer count seq ?rb crc"
    by (simp add: data_def snap_file_def slice_def)
  have e: "word_of_nat (104 + length recs) = (64 + ?rb + 40 :: u64)" by simp
  have c: "\<not> unat count > length recs div 12" using assms(2) by (simp add: not_less less_eq_div_iff_mult_less_eq mult.commute)
  have u: "unat (64 :: u32) = 64" by simp
  show ?thesis
    unfolding snap_open_def Let_def l h SNAP_HEADER_LEN_def FOOTER_LEN_def
    by (simp add: snap_header_fields f snap_footer_fields c)
qed

lemma snap_for_each_good:
  fixes seq ms :: u64
  assumes items: "list_all2 payload_of items pls" and n: "length items < 2 ^ 32"
  defines "recs \<equiv> concat (map good_rec pls)"
  assumes l: "length recs < 2 ^ 63"
  shows "\<exists>r. snap_open (snap_file seq ms (word_of_nat (length items)) (crc32c recs) recs) = Inr r
     \<and> sr_seq r = seq \<and> sr_count r = word_of_nat (length items)
     \<and> sr_file_len r = length (snap_file seq ms (word_of_nat (length items)) (crc32c recs) recs)
     \<and> sr_body_crc r = crc32c recs
     \<and> snap_for_each (total g) r s
       = Inr (\<lparr>rs_ok = word_of_nat (length items), rs_failed = 0\<rparr>, take_in g items s)"
proof -
  let ?n = "word_of_nat (length items) :: u32" and ?rb = "word_of_nat (length recs) :: u64"
  let ?data = "snap_file seq ms ?n (crc32c recs) recs"
  have u: "unat ?rb = length recs" using l by (simp add: unat_of_nat)
  have un: "unat ?n = length items" using n by (simp add: unat_of_nat)
  have "12 * length pls \<le> length recs" unfolding recs_def by (induction pls) auto
  then have c: "12 * unat ?n \<le> length recs" using un items by (simp add: list_all2_lengthD)
  let ?r = "\<lparr>sr_data = ?data, sr_file_len = 104 + length recs, sr_seq = seq, sr_count = ?n,
     sr_record_bytes = ?rb, sr_body_crc = crc32c recs\<rparr>"
  have o: "snap_open ?data = Inr ?r" by (rule snap_open_file [OF l c])
  let ?h = "snap_header seq ms ?n ?rb" and ?f = "snap_footer ?n seq ?rb (crc32c recs)"
  have "snap_loop (?h @ recs @ ?f) (total g) (length ?h) ?rb (NOT 0) 0 0 s
      = snap_loop ((?h @ recs) @ ?f) (total g) (length (?h @ recs)) (?rb - word_of_nat (length recs))
          (crc32c_update (NOT 0) recs) ((u32_sat_inc ^^ length items) 0) 0 (take_in g items s)"
    unfolding recs_def by (rule snap_loop_goods [OF items]) (use u in \<open>simp add: recs_def\<close>)
  then have "snap_loop ?data (total g) SNAP_HEADER_LEN ?rb (NOT 0) 0 0 s
      = Inr (crc32c_update (NOT 0) recs, ?n, 0, take_in g items s)"
    by (simp add: snap_file_def SNAP_HEADER_LEN_def snap_loop_end sat_inc_count [OF n])
  then have "snap_for_each (total g) ?r s = Inr (\<lparr>rs_ok = ?n, rs_failed = 0\<rparr>, take_in g items s)"
    by (simp add: snap_for_each_def crc32c_finalize_def crc32c_def)
  then show ?thesis using o by (intro exI [of _ ?r]) (simp add: snap_file_def)
qed

subsection \<open>The writer\<close>

fun snap_pushes :: "item list \<Rightarrow> snap_writer \<Rightarrow> persist_error + snap_writer" where
  "snap_pushes [] w = Inr w"
| "snap_pushes ((es, b) # items) w = bindE (snap_push es b w) (snap_pushes items)"

lemma snap_push_good:
  assumes "snap_push es b w = Inr w'" "entry_body_ok b"
  shows "\<exists>pl. payload_of (es, b) pl \<and> w' = w\<lparr>sw_body_crc := crc32c_update (sw_body_crc w) (good_rec pl),
     sw_record_bytes := sw_record_bytes w + word_of_nat (length (good_rec pl)),
     sw_count := u32_sat_inc (sw_count w), sw_data := sw_data w @ good_rec pl\<rparr>"
proof -
  obtain pl where pl: "entry_encode b (le64 es) = Inr pl" "length pl \<le> MAX_RECORD_BYTES"
    and w': "w' = w\<lparr>sw_body_crc := crc32c_update (sw_body_crc w) (good_rec pl),
     sw_record_bytes := sw_record_bytes w + word_of_nat (length (good_rec pl)),
     sw_count := u32_sat_inc (sw_count w), sw_data := sw_data w @ good_rec pl\<rparr>"
    using assms(1) by (auto simp: snap_push_def bindE_eq_Inr Let_def snap_rec_def rec_head_def split: if_splits)
  moreover have "payload_of (es, b) pl"
    using entry_encode_prefix [OF assms(2) pl(1)] by (auto simp: payload_of_def)
  ultimately show ?thesis by blast
qed

lemma snap_pushes_good:
  assumes "snap_pushes items w = Inr w'" "\<forall>(es, b)\<in>set items. entry_body_ok b"
  shows "\<exists>pls. list_all2 payload_of items pls \<and> (let recs = concat (map good_rec pls) in
     w' = w\<lparr>sw_body_crc := crc32c_update (sw_body_crc w) recs,
        sw_record_bytes := sw_record_bytes w + word_of_nat (length recs),
        sw_count := (u32_sat_inc ^^ length items) (sw_count w), sw_data := sw_data w @ recs\<rparr>)"
  using assms
proof (induction items arbitrary: w)
  case (Cons it items)
  obtain es b where it: "it = (es, b)" by fastforce
  then obtain w1 where w1: "snap_push es b w = Inr w1" "snap_pushes items w1 = Inr w'"
    using Cons.prems(1) by (auto simp: bindE_eq_Inr)
  from snap_push_good [OF w1(1)] Cons.prems(2) it obtain pl where pl: "payload_of (es, b) pl"
    "w1 = w\<lparr>sw_body_crc := crc32c_update (sw_body_crc w) (good_rec pl),
     sw_record_bytes := sw_record_bytes w + word_of_nat (length (good_rec pl)),
     sw_count := u32_sat_inc (sw_count w), sw_data := sw_data w @ good_rec pl\<rparr>" by auto
  from Cons.IH [OF w1(2)] Cons.prems(2) obtain pls where "list_all2 payload_of items pls"
    "w' = w1\<lparr>sw_body_crc := crc32c_update (sw_body_crc w1) (concat (map good_rec pls)),
        sw_record_bytes := sw_record_bytes w1 + word_of_nat (length (concat (map good_rec pls))),
        sw_count := (u32_sat_inc ^^ length items) (sw_count w1), sw_data := sw_data w1 @ concat (map good_rec pls)\<rparr>"
    by (auto simp: Let_def)
  then show ?case using it pl
    by (intro exI [of _ "pl # pls"])
      (simp add: Let_def crc32c_update_append funpow_swap1 algebra_simps)
qed simp

lemma snap_finish_file:
  assumes "snap_pushes items (snap_create seq ms) = Inr w" "\<forall>(es, b)\<in>set items. entry_body_ok b"
    and n: "length items < 2 ^ 32"
  shows "\<exists>pls. list_all2 payload_of items pls \<and> (let recs = concat (map good_rec pls) in
     snap_finish w = (snap_file seq ms (word_of_nat (length items)) (crc32c recs) recs,
       \<lparr>sm_seq = seq, sm_count = word_of_nat (length items), sm_file_len = 104 + length recs, sm_crc = crc32c recs\<rparr>))"
proof -
  obtain pls where pls: "list_all2 payload_of items pls"
    and w: "w = (snap_create seq ms)\<lparr>sw_body_crc := crc32c_update (NOT 0) (concat (map good_rec pls)),
        sw_record_bytes := word_of_nat (length (concat (map good_rec pls))),
        sw_count := (u32_sat_inc ^^ length items) 0,
        sw_data := snap_header seq ms 0 0 @ concat (map good_rec pls)\<rparr>"
    using snap_pushes_good [OF assms(1,2)] by (auto simp: Let_def snap_create_def)
  define recs where "recs = concat (map good_rec pls)"
  have "snap_finish w = (snap_file seq ms (word_of_nat (length items)) (crc32c recs) recs,
       \<lparr>sm_seq = seq, sm_count = word_of_nat (length items), sm_file_len = 104 + length recs, sm_crc = crc32c recs\<rparr>)"
    by (simp add: snap_finish_def w [folded recs_def] snap_create_def Let_def SNAP_HEADER_LEN_def snap_file_def crc32c_def
        crc32c_finalize_def sat_inc_count [OF n])
  with pls show ?thesis by (auto simp: recs_def Let_def)
qed

lemma snap_read_back:
  assumes "snap_pushes items (snap_create seq ms) = Inr w" "\<forall>(es, b)\<in>set items. entry_body_ok b"
    and "length items < 2 ^ 32" "snap_finish w = (data, meta)" "length data < 2 ^ 63"
  shows "\<exists>r. snap_open data = Inr r \<and> sr_seq r = seq \<and> sr_seq r = sm_seq meta \<and> sr_count r = sm_count meta
     \<and> sr_file_len r = sm_file_len meta \<and> sr_body_crc r = sm_crc meta
     \<and> snap_for_each (\<lambda>es k b s. Inr (g es k b s)) r s
       = Inr (\<lparr>rs_ok = word_of_nat (length items), rs_failed = 0\<rparr>, fold (\<lambda>(es, b). g es (eb_key b) b) items s)"
proof -
  obtain pls where pls: "list_all2 payload_of items pls" and fin: "snap_finish w =
      (snap_file seq ms (word_of_nat (length items)) (crc32c (concat (map good_rec pls))) (concat (map good_rec pls)),
       \<lparr>sm_seq = seq, sm_count = word_of_nat (length items), sm_file_len = 104 + length (concat (map good_rec pls)),
        sm_crc = crc32c (concat (map good_rec pls))\<rparr>)"
    using snap_finish_file [OF assms(1-3)] by (auto simp: Let_def)
  define recs where "recs = concat (map good_rec pls)"
  have d: "data = snap_file seq ms (word_of_nat (length items)) (crc32c recs) recs"
    and m: "meta = \<lparr>sm_seq = seq, sm_count = word_of_nat (length items), sm_file_len = 104 + length recs,
        sm_crc = crc32c recs\<rparr>"
    using fin assms(4) by (simp_all add: recs_def)
  have l: "length recs < 2 ^ 63" using assms(5) by (simp add: d snap_file_def)
  show ?thesis
    using snap_for_each_good [OF pls assms(3) l [unfolded recs_def], of seq ms g s]
    by (auto simp: m d recs_def [symmetric] snap_file_def)
qed

subsection \<open>What a snapshot promises\<close>



text \<open>
  When up to four consecutive bytes of one record's payload change, the snapshot still opens, that
  record is counted as failed and all others are delivered.
\<close>

theorem snap_changed_record:
  assumes good: "list_all2 payload_of xs pls" "list_all2 payload_of ys qls"
    and pl: "length (a @ b @ d) \<le> MAX_RECORD_BYTES"
    and ch: "length b = length b'" "length b \<le> 4" "b \<noteq> b'"
    and n: "length xs + 1 + length ys < 2 ^ 32"
  defines "bad \<equiv> snap_rec (crc32c (rec_head (a @ b @ d) @ a @ b @ d)) (a @ b' @ d)"
    and "recs \<equiv> concat (map good_rec pls) @ snap_rec (crc32c (rec_head (a @ b @ d) @ a @ b @ d)) (a @ b' @ d)
                 @ concat (map good_rec qls)"
  assumes l: "length recs < 2 ^ 63"
  shows "\<exists>r. snap_open (snap_file seq ms (word_of_nat (length xs + 1 + length ys)) crc recs) = Inr r
     \<and> snap_for_each (\<lambda>es k b s. Inr (g es k b s)) r s
       = Inr (\<lparr>rs_ok = word_of_nat (length xs + length ys), rs_failed = 1\<rparr>,
              fold (\<lambda>(es, b). g es (eb_key b) b) (xs @ ys) s)"
proof -
  let ?n = "length xs + 1 + length ys" and ?rb = "word_of_nat (length recs) :: u64"
  let ?N = "word_of_nat ?n :: u32"
  let ?h = "snap_header seq ms ?N ?rb" and ?f = "snap_footer ?N seq ?rb crc"
  let ?p = "concat (map good_rec pls)" and ?q = "concat (map good_rec qls)"
  have u: "unat ?rb = length recs" using l by (simp add: unat_of_nat)
  have recs: "recs = ?p @ bad @ ?q" by (simp add: recs_def bad_def)
  have "12 * length pls \<le> length ?p" by (induction pls) auto
  moreover have "12 * length qls \<le> length ?q" by (induction qls) auto
  moreover have uN: "unat ?N = ?n" by (rule unat_of_nat_u32) (use n in simp)
  ultimately have c: "12 * unat ?N \<le> length recs"
    unfolding uN using good by (simp add: recs bad_def list_all2_lengthD)
  let ?r = "\<lparr>sr_data = snap_file seq ms ?N crc recs, sr_file_len = 104 + length recs, sr_seq = seq, sr_count = ?N,
     sr_record_bytes = ?rb, sr_body_crc = crc\<rparr>"
  have o: "snap_open (snap_file seq ms ?N crc recs) = Inr ?r" by (rule snap_open_file [OF l c])
  have len: "length (a @ b' @ d) = length (a @ b @ d)" using ch(1) by simp
  have neq: "crc32c (rec_head (a @ b' @ d) @ a @ b' @ d) \<noteq> crc32c (rec_head (a @ b @ d) @ a @ b @ d)"
    using crc_burst [OF ch, of "rec_head (a @ b @ d) @ a" d] len by (simp add: rec_head_def)
  let ?left = "?rb - word_of_nat (length ?p)"
  let ?c1 = "crc32c_update (NOT 0) ?p" and ?s1 = "(u32_sat_inc ^^ length xs) 0"
  have ul: "unat ?left = length bad + length ?q" "12 \<le> unat ?left"
    using unat_left [of "length ?p" ?rb] u by (simp_all add: recs bad_def)
  have "snap_loop (?h @ ?p @ bad @ ?q @ ?f) (total g) (length ?h) ?rb (NOT 0) 0 0 s
      = snap_loop ((?h @ ?p) @ bad @ ?q @ ?f) (total g) (length (?h @ ?p)) ?left ?c1 ?s1 0 (take_in g xs s)"
    by (rule snap_loop_goods [OF good(1)]) (use u recs in simp)
  also have "\<dots> = snap_loop (((?h @ ?p) @ bad) @ ?q @ ?f) (total g) (length ((?h @ ?p) @ bad))
      (?left - word_of_nat (length bad)) (crc32c_update ?c1 bad) (u32_sat_inc ?s1) (u32_sat_inc 0) (take_in g xs s)"
    using snap_loop_rec [OF pl [folded len] ul(2), of "?h @ ?p" "crc32c (rec_head (a @ b @ d) @ a @ b @ d)" "?q @ ?f"
        "total g" ?c1 ?s1 0 "take_in g xs s"] neq by (simp add: bad_def Let_def)
  also have "\<dots> = snap_loop ((((?h @ ?p) @ bad) @ ?q) @ ?f) (total g) (length (((?h @ ?p) @ bad) @ ?q))
      (?left - word_of_nat (length bad) - word_of_nat (length ?q)) (crc32c_update (crc32c_update ?c1 bad) ?q)
      ((u32_sat_inc ^^ length ys) (u32_sat_inc ?s1)) (u32_sat_inc 0) (take_in g ys (take_in g xs s))"
    by (rule snap_loop_goods [OF good(2)]) (use ul unat_left [of "length bad" ?left] in simp)
  also have "?left - word_of_nat (length bad) - word_of_nat (length ?q) = 0"
    by (simp add: recs)
  also have "(u32_sat_inc ^^ length ys) (u32_sat_inc ?s1) = ?N"
  proof -
    have "(u32_sat_inc ^^ length ys) (u32_sat_inc ?s1) = (u32_sat_inc ^^ (length ys + Suc (length xs))) 0"
      by (simp only: funpow_add funpow.simps comp_def)
    then show ?thesis using sat_inc_count [of "length ys + Suc (length xs)"] n by (simp add: ac_simps)
  qed
  finally have "snap_loop (snap_file seq ms ?N crc recs) (total g) SNAP_HEADER_LEN ?rb (NOT 0) 0 0 s
      = Inr (crc32c_update (crc32c_update ?c1 bad) ?q, ?N, 1, take_in g (xs @ ys) s)"
    by (simp add: snap_file_def recs SNAP_HEADER_LEN_def snap_loop_end u32_sat_inc_def)
  moreover have "\<not> ?N < 1" "?N - 1 = word_of_nat (length xs + length ys)"
    using uN by (simp add: word_less_nat_alt, simp)
  ultimately have "snap_for_each (total g) ?r s
      = Inr (\<lparr>rs_ok = word_of_nat (length xs + length ys), rs_failed = 1\<rparr>, take_in g (xs @ ys) s)"
    by (simp only: snap_for_each_def snap_reader.simps bindE_def sum.case prod.case simp_thms if_False zero_neq_one) simp
  then show ?thesis using o by blast
qed

theorem snap_changed_record_witness:
  "\<exists>r. snap_open (snap_file 9 0 1 7 (snap_rec (crc32c (rec_head ([] @ [1] @ [2]) @ [] @ [1] @ [2])) ([] @ [3] @ [2]))) = Inr r
     \<and> snap_for_each (\<lambda>es k b s. Inr (s + 1)) r (0 :: nat) = Inr (\<lparr>rs_ok = 0, rs_failed = 1\<rparr>, 0)"
  using snap_changed_record [of "[]" "[]" "[]" "[]" "[]" "[1]" "[2]" "[3]" 9 0 7 "\<lambda>es k b s. s + 1" "0 :: nat"]
  by (simp add: MAX_RECORD_BYTES_def)

text \<open>
  A record whose length field reaches past the record area is refused: in a release build the count of
  bytes left wraps around there and the scan runs into the end of the file, it never accepts what it read.
\<close>

theorem snap_overrun_refused:
  fixes left :: u64
  assumes "length pl \<le> MAX_RECORD_BYTES" "12 \<le> unat left" "unat left < 12 + length pl"
    and "length (pre @ snap_rec crc pl @ post) < 2 ^ 63"
  shows "\<exists>e. snap_loop (pre @ snap_rec crc pl @ post) f (length pre) left bc seen failed s = Inl e"
proof (rule ccontr)
  let ?data = "pre @ snap_rec crc pl @ post" and ?left = "left - word_of_nat (12 + length pl)"
  assume "\<not> ?thesis"
  then obtain r where "snap_loop ?data f (length pre) left bc seen failed s = Inr r"
    by (cases "snap_loop ?data f (length pre) left bc seen failed s") auto
  then obtain bc' seen' failed' s' where
    next': "snap_loop ?data f (length pre + (12 + length pl)) ?left bc' seen' failed' s' = Inr r"
    unfolding snap_loop_rec [OF assms(1,2)] by (auto simp: Let_def split: if_splits sum.splits)
  have "length pre + (12 + length pl) \<le> length ?data" by simp
  from snap_loop_inside [OF next' this assms(4)]
  have i: "length pre + (12 + length pl) + unat ?left \<le> length ?data" .
  have "unat (word_of_nat (12 + length pl) :: u64) = 12 + length pl"
    using assms(1) by (simp add: MAX_RECORD_BYTES_def unat_of_nat del: of_nat_add)
  then have "unat ?left = unat left + 2 ^ 64 - (12 + length pl)"
    using assms(3) by (simp add: unat_sub_if' del: of_nat_add)
  then show False using i assms(1,4) by (simp add: MAX_RECORD_BYTES_def)
qed

theorem snap_overrun_refused_witness:
  "\<exists>e. snap_loop ([] @ snap_rec 0 [1, 2, 3] @ [4]) (\<lambda>es k b s. Inr s) (length []) 13 0 0 0 () = Inl e"
  using snap_overrun_refused [of "[1, 2, 3]" 13 "[]" 0 "[4]" "\<lambda>es k b s. Inr s" 0 0 0 "()"]
  by (simp add: MAX_RECORD_BYTES_def)

end
