(* ===== verification/Manifest_Props.thy ===== *)
theory Manifest_Props
  imports Manifest Entry_Roundtrip
begin

text \<open>
  The manifest: what is written is read back, what is read names only files next to the cache file, and
  a changed byte is noticed.
\<close>

subsection \<open>Decimal suffixes\<close>

lemma dec_val_snoc: "dec_val (ds @ [x]) = dec_val ds * 10 + (unat x - 48)"
  by (simp add: dec_val_def)

lemma digit_val: "ascii_digit x \<Longrightarrow> unat x - 48 < 10 \<and> word_of_nat (48 + (unat x - 48)) = x"
  by (auto simp: ascii_digit_def word_le_nat_alt)

lemma dec_dec_val:
  assumes "d \<noteq> []" "list_all ascii_digit d" "length d > 1 \<longrightarrow> hd d \<noteq> 48"
  shows "dec (dec_val d) = d"
  using assms
proof (induction d rule: rev_induct)
  case (snoc x ds)
  then have x: "unat x - 48 < 10" "word_of_nat (48 + (unat x - 48)) = x" using digit_val by simp_all
  show ?case
  proof (cases "ds = []")
    case True
    then show ?thesis using x by (subst dec.simps) (simp add: dec_val_def del: of_nat_add)
  next
    case False
    then have IH: "dec (dec_val ds) = ds" and h: "hd ds \<noteq> 48"
      using snoc by (auto simp: hd_append)
    have "dec 0 = [48]" by (subst dec.simps) simp
    then have "dec_val ds \<noteq> 0" using IH h by (metis list.sel(1))
    then have "\<not> dec_val (ds @ [x]) < 10" by (simp add: dec_val_snoc)
    moreover have "dec_val (ds @ [x]) div 10 = dec_val ds" "dec_val (ds @ [x]) mod 10 = unat x - 48"
      using x(1) by (simp_all add: dec_val_snoc)
    ultimately show ?thesis using IH x(2) by (subst dec.simps) (simp del: of_nat_add)
  qed
qed simp

lemma length_dec_digits: "n < 10 ^ k \<Longrightarrow> 0 < k \<Longrightarrow> length (dec n) \<le> k"
proof (induction k arbitrary: n)
  case (Suc k)
  show ?case
  proof (cases "n < 10")
    case False
    then have "0 < k" using Suc.prems by (cases k) auto
    moreover have "n div 10 < 10 ^ k" using Suc.prems by (simp add: div_less_iff_less_mult mult.commute)
    ultimately show ?thesis using Suc.IH [of "n div 10"] False by (subst dec.simps) simp
  qed (subst dec.simps, simp)
qed simp

lemma hd_dec: "0 < n \<Longrightarrow> hd (dec n) \<noteq> 48"
proof (induction n rule: dec.induct)
  case (1 n)
  show ?case
  proof (cases "n < 10")
    case True
    then have "unat (word_of_nat (48 + n) :: u8) \<noteq> unat (48 :: u8)"
      using 1(2) by (simp add: unat_of_nat_u8 del: of_nat_add)
    then show ?thesis using True by (subst dec.simps) (auto simp del: of_nat_add)
  next
    case False
    then show ?thesis using 1 by (subst dec.simps) (simp add: hd_append)
  qed
qed

lemma parse_seq_dec: "parse_seq (dec (unat (n :: u64))) = Some n"
proof -
  have n: "unat n < 2 ^ 64" using unsigned_less [of n, where 'a = nat] by simp
  then have "length (dec (unat n)) \<le> 20" by (intro length_dec_digits) simp_all
  moreover have "\<not> (length (dec (unat n)) > 1 \<and> hd (dec (unat n)) = 48)"
  proof (cases "unat n = 0")
    case True
    then show ?thesis by (subst dec.simps) simp
  qed (use hd_dec in blast)
  ultimately show ?thesis using n dec_digits [of "unat n"] by (simp add: parse_seq_def)
qed

lemma parse_seq_canonical: "parse_seq s = Some n \<Longrightarrow> s = dec (unat n)"
proof -
  assume s: "parse_seq s = Some n"
  then have c: "s \<noteq> []" "list_all ascii_digit s" "length s > 1 \<longrightarrow> hd s \<noteq> 48" "dec_val s \<le> 18446744073709551615"
    "n = word_of_nat (dec_val s)"
    by (auto simp: parse_seq_def parse_uint_digits split: if_splits)
  then have "unat n = dec_val s" by (simp add: unat_of_nat)
  then show ?thesis using dec_dec_val [OF c(1-3)] by simp
qed

lemma path_suffix_is_iff: "path_suffix_is prefix p n \<longleftrightarrow> p = prefix @ dec (unat n)"
proof
  assume "path_suffix_is prefix p n"
  then have t: "take (length prefix) p = prefix" and d: "parse_seq (drop (length prefix) p) = Some n"
    by (auto simp: path_suffix_is_def strip_prefix_def split: if_splits)
  have "p = take (length prefix) p @ drop (length prefix) p" by simp
  then show "p = prefix @ dec (unat n)" using t parse_seq_canonical [OF d] by simp
qed (simp add: path_suffix_is_def parse_seq_dec)

subsection \<open>Reading what was written\<close>

lemma decodes_path_lens:
  "\<forall>p\<in>set ps. p \<noteq> [] \<and> length p \<le> 255 \<Longrightarrow>
     decodes (read_path_lens (length ps)) (concat (map (\<lambda>p. le16 (word_of_nat (length p))) ps)) (map length ps)"
proof (induction ps)
  case (Cons p ps)
  then have u: "unat (word_of_nat (length p) :: u16) = length p" "(word_of_nat (length p) :: u16) \<noteq> 0"
    using word_of_nat_nz [of "length p"] by (simp_all add: unat_of_nat_u16)
  have c: "\<not> ((word_of_nat (length p) :: u16) = 0 \<or> unat (word_of_nat (length p) :: u16) > 255)"
    using Cons.prems u by simp
  have "decodes (read_path_lens (Suc (length ps)))
      (le16 (word_of_nat (length p)) @ concat (map (\<lambda>p. le16 (word_of_nat (length p))) ps) @ [])
      (length p # map length ps)"
    unfolding read_path_lens.simps
    by (rule rd_u16, subst if_not_P, rule c, simp only: u(1), rule decodes_bind, rule Cons.IH,
        use Cons.prems in simp, rule decodes_rret)
  then show ?case by simp
qed (simp add: decodes_rret)

lemma decodes_paths: "\<forall>p\<in>set ps. valid_utf8 p \<Longrightarrow> decodes (read_paths (map length ps)) (concat ps) ps"
proof (induction ps)
  case (Cons p ps)
  have "decodes (read_paths (length p # map length ps)) (p @ concat ps @ []) (p # ps)"
    unfolding read_paths.simps
    by (rule rd_take [OF refl], rule rd_utf8, use Cons.prems in simp, rule decodes_bind, rule Cons.IH,
        use Cons.prems in simp, rule decodes_rret)
  then show ?case by simp
qed (simp add: decodes_rret)

lemma decodes_u64s: "decodes (read_u64s (length bs)) (concat (map le64 bs)) bs"
proof (induction bs)
  case (Cons b bs)
  have "decodes (read_u64s (Suc (length bs))) (le64 b @ concat (map le64 bs) @ []) (b # bs)"
    unfolding read_u64s.simps by (rule rd_u64, rule decodes_bind, rule Cons.IH, rule decodes_rret)
  then show ?case by simp
qed (simp add: decodes_rret)

definition manifest_body :: "manifest \<Rightarrow> bytes" where
  "manifest_body m = MANIFEST_MAGIC @ le16 MANIFEST_VERSION @ le16 (m_flags m) @ le64 (m_seq m)
     @ le64 (m_snapshot_seq m) @ le64 (m_committed_ms m) @ le64 (m_snap_bytes m)
     @ le32 (m_snap_crc32c m) @ le32 (m_snap_entries m) @ le16 (word_of_nat (length (m_snap_path m)))
     @ le16 (word_of_nat (length (m_wal_paths m))) @ m_snap_path m
     @ concat (map (\<lambda>p. le16 (word_of_nat (length p))) (m_wal_paths m))
     @ concat (m_wal_paths m) @ concat (map le64 (m_wal_base_seq m)) @ le64 (m_wal_bytes m)"

lemma sum_lens: "length (concat ps) = sum_list (map length ps)"
  by (induction ps) simp_all

lemma length_manifest_body:
  "length (m_wal_base_seq m) = length (m_wal_paths m) \<Longrightarrow> length (manifest_body m) =
     52 + length (m_snap_path m) + 2 * length (m_wal_paths m) + sum_list (map length (m_wal_paths m))
       + 8 * length (m_wal_paths m) + 8"
proof -
  have "length (concat (map (\<lambda>p. le16 (word_of_nat (length p))) ps)) = 2 * length ps" for ps :: "str list"
    by (induction ps) simp_all
  moreover have "length (concat (map le64 bs)) = 8 * length bs" for bs by (induction bs) simp_all
  moreover assume "length (m_wal_base_seq m) = length (m_wal_paths m)"
  ultimately show ?thesis by (simp add: manifest_body_def MANIFEST_MAGIC_def sum_lens)
qed

text \<open>A manifest as the writer builds it for the cache file \<open>base\<close>.\<close>

definition manifest_ok :: "str \<Rightarrow> manifest \<Rightarrow> bool" where
  "manifest_ok base m \<longleftrightarrow>
     m_snap_path m = base @ lit ''.snap.'' @ dec (unat (m_snapshot_seq m))
     \<and> m_wal_paths m = map (\<lambda>b. base @ lit ''.wal.'' @ dec (unat b)) (m_wal_base_seq m)
     \<and> strictly_increasing (m_wal_base_seq m) \<and> length (m_wal_paths m) \<le> MAX_WAL_SEGMENTS
     \<and> (\<forall>p\<in>set (m_snap_path m # m_wal_paths m). is_safe_leaf p)"

lemma safe_leaf_length: "is_safe_leaf p \<Longrightarrow> p \<noteq> [] \<and> length p \<le> 255"
  by (auto simp: is_safe_leaf_def split: if_splits)

lemma manifest_ok_safe: "manifest_ok base m \<Longrightarrow> p \<in> set (m_snap_path m # m_wal_paths m) \<Longrightarrow> is_safe_leaf p"
  unfolding manifest_ok_def by blast

lemma decodes_manifest:
  assumes ok: "manifest_ok base m" and utf8: "\<forall>p\<in>set (m_snap_path m # m_wal_paths m). valid_utf8 p"
  shows "decodes (read_manifest (length (manifest_body m))) (manifest_body m) m"
proof -
  let ?s = "m_snap_path m" and ?ps = "m_wal_paths m" and ?bs = "m_wal_base_seq m"
  let ?slen = "word_of_nat (length ?s) :: u16" and ?w = "word_of_nat (length ?ps) :: u16"
  have s: "?s \<noteq> []" "length ?s \<le> 255" and ps: "\<forall>p\<in>set ?ps. p \<noteq> [] \<and> length p \<le> 255"
    using manifest_ok_safe [OF ok, THEN safe_leaf_length] by simp_all
  have lb: "length ?bs = length ?ps" and w: "length ?ps \<le> 8"
    using ok by (auto simp: manifest_ok_def MAX_WAL_SEGMENTS_def)
  have us: "unat ?slen = length ?s" "?slen \<noteq> 0" "unat ?w = length ?ps"
    using s w word_of_nat_nz [of "length ?s"] by (simp_all add: unat_of_nat_u16)
  define n where "n = length (manifest_body m)"
  note len = length_manifest_body [OF lb, folded n_def]
  have c1: "\<not> (MANIFEST_VERSION \<noteq> MANIFEST_VERSION \<and> MANIFEST_VERSION \<noteq> MANIFEST_VERSION_V2)"
    "(MANIFEST_VERSION = MANIFEST_VERSION_V2) = False"
    by (simp_all add: MANIFEST_VERSION_def MANIFEST_VERSION_V2_def)
  have c2: "\<not> (?slen = 0 \<or> unat ?slen > 255)" "\<not> unat ?w > MAX_WAL_SEGMENTS"
    using us s w by (simp_all add: MAX_WAL_SEGMENTS_def)
  have c3: "\<not> n < 52 + length ?s + 2 * length ?ps" using len by simp
  have c4: "\<not> n \<noteq> 52 + length ?s + 2 * length ?ps + sum_list (map length ?ps) + 8 * length ?ps + 8" using len by simp
  have m: "m = \<lparr>m_flags = m_flags m, m_seq = m_seq m, m_snapshot_seq = m_snapshot_seq m,
     m_committed_ms = m_committed_ms m, m_snap_bytes = m_snap_bytes m, m_snap_crc32c = m_snap_crc32c m,
     m_snap_entries = m_snap_entries m, m_snap_path = ?s, m_wal_paths = ?ps, m_wal_base_seq = ?bs,
     m_wal_bytes = m_wal_bytes m\<rparr>" by simp
  have bs: "decodes (read_u64s (length ?ps)) (concat (map le64 ?bs)) ?bs" using decodes_u64s [of ?bs] lb by simp
  show ?thesis
    unfolding n_def [symmetric] unfolding read_manifest_def manifest_body_def
    apply (rule rd_take, simp add: MANIFEST_MAGIC_def, rule rd_u16, subst if_not_P, rule c1(1))
    apply (simp only: Let_def c1(2) if_False)
    apply (rule rd_u16, rule rd_u64, rule rd_u64, rule rd_u64, rule rd_u64, rule rd_u32, rule rd_u32,
        rule rd_u16, rule rd_u16, subst if_not_P, rule c2, subst if_not_P, rule c2)
    apply (simp only: us)
    apply (subst if_not_P, rule c3, rule rd_take [OF refl], rule rd_utf8, use utf8 in simp)
    apply (rule decodes_bind [OF decodes_path_lens [OF ps]])
    apply (subst if_not_P, rule c4)
    apply (rule decodes_bind [OF decodes_paths], use utf8 in simp)
    apply (rule decodes_bind [OF bs])
    apply (rule decodes_end, rule rd_u64, subst (12) m, rule decodes_rret)
    done
qed

lemma manifest_encode_bytes:
  "manifest_encode m = Inr raw \<Longrightarrow> raw = manifest_body m @ le32 (crc32c (manifest_body m))
     \<and> length raw \<le> MANIFEST_MAX_BYTES \<and> m_snap_path m \<noteq> [] \<and> length (m_wal_base_seq m) = length (m_wal_paths m)"
  by (auto simp: manifest_encode_def Let_def manifest_body_def split: if_splits)

lemma manifest_checks:
  assumes "manifest_ok base m"
  shows "is_safe_leaf (m_snap_path m)" "path_suffix_is (base @ lit ''.snap.'') (m_snap_path m) (m_snapshot_seq m)"
    "list_all2 (\<lambda>p b. is_safe_leaf p \<and> path_suffix_is (base @ lit ''.wal.'') p b) (m_wal_paths m) (m_wal_base_seq m)"
    "strictly_increasing (m_wal_base_seq m)"
  using assms by (auto simp: manifest_ok_def path_suffix_is_iff list_all2_map1 list_all2_same simp del: lit_Cons lit_Nil)

lemma manifest_decode_encode:
  assumes "manifest_encode m = Inr raw" "manifest_ok base m"
    and "\<forall>p\<in>set (m_snap_path m # m_wal_paths m). valid_utf8 p"
  shows "manifest_decode raw base = Inr m"
proof -
  note raw = manifest_encode_bytes [OF assms(1)]
  have len: "length (manifest_body m) \<ge> 57"
    using length_manifest_body [of m] raw by (cases "m_snap_path m") simp_all
  have t: "length raw - 4 = length (manifest_body m)" "take (length (manifest_body m)) raw = manifest_body m"
    "slice raw (length (manifest_body m)) 4 = le32 (crc32c (manifest_body m))" "take 4 raw = MANIFEST_MAGIC"
    using raw by (simp_all add: slice_def) (simp add: manifest_body_def MANIFEST_MAGIC_def)
  have l: "\<not> length raw > MANIFEST_MAX_BYTES" "\<not> length raw < 61" using raw len by auto
  show ?thesis
    unfolding manifest_decode_def Let_def t of_le_le decodes_whole [OF decodes_manifest [OF assms(2,3)]]
    using l manifest_checks [OF assms(2)] by (simp add: cur_remaining_def del: lit_Cons lit_Nil)
qed

text \<open>
  A manifest of the writer's form that is encoded is decoded to the same manifest.
\<close>

theorem manifest_roundtrip:
  assumes "manifest_encode m = Inr raw" "manifest_ok base m"
    and "\<forall>p\<in>set (m_snap_path m # m_wal_paths m). valid_utf8 p"
  shows "manifest_decode raw base = Inr m"
  using assms by (rule manifest_decode_encode)

definition sample_manifest :: manifest where
  "sample_manifest =
     \<lparr>m_flags = 2, m_seq = 9, m_snapshot_seq = 7, m_committed_ms = 5, m_snap_bytes = 104, m_snap_crc32c = 0,
      m_snap_entries = 0, m_snap_path = lit ''c.snap.7'', m_wal_paths = [lit ''c.wal.8''],
      m_wal_base_seq = [8], m_wal_bytes = 32\<rparr>"

lemma dec_one: "n < 10 \<Longrightarrow> dec n = [word_of_nat (48 + n)]"
  by (subst dec.simps) simp

lemma sample_manifest_ok: "manifest_ok (lit ''c'') sample_manifest"
  by (auto simp: manifest_ok_def sample_manifest_def dec_one is_safe_leaf_def MAX_WAL_SEGMENTS_def)

lemma sample_manifest_utf8: "\<forall>p\<in>set (m_snap_path sample_manifest # m_wal_paths sample_manifest). valid_utf8 p"
  by code_simp

lemma sample_manifest_encode: "\<exists>raw. manifest_encode sample_manifest = Inr raw"
  by (auto simp: manifest_encode_def sample_manifest_def is_safe_leaf_def MAX_WAL_SEGMENTS_def Let_def
      MANIFEST_MAGIC_def MANIFEST_MAX_BYTES_def)

theorem manifest_roundtrip_witness:
  "\<exists>raw. manifest_encode sample_manifest = Inr raw \<and> manifest_decode raw (lit ''c'') = Inr sample_manifest"
  using manifest_roundtrip [OF _ sample_manifest_ok sample_manifest_utf8] sample_manifest_encode by blast

text \<open>
  A manifest that is read, from whatever bytes, names as snapshot and as log segments files
  \<open>base.snap.N\<close> and \<open>base.wal.N\<close> next to the cache file, with the numbers it lists and in their order; there
  are at most eight segments.
\<close>

theorem manifest_names_own_files:
  assumes "manifest_decode raw base = Inr m"
  shows "m_snap_path m = base @ lit ''.snap.'' @ dec (unat (m_snapshot_seq m))
     \<and> m_wal_paths m = map (\<lambda>b. base @ lit ''.wal.'' @ dec (unat b)) (m_wal_base_seq m)
     \<and> sorted_wrt (<) (m_wal_base_seq m) \<and> length (m_wal_paths m) \<le> 8
     \<and> (\<forall>p\<in>set (m_snap_path m # m_wal_paths m). 47 \<notin> set p \<and> hd p \<noteq> 46)"
proof -
  obtain c where c: "read_manifest (length raw - 4) (cur_new (take (length raw - 4) raw)) = Inr (m, c)"
    and s: "is_safe_leaf (m_snap_path m)" "path_suffix_is (base @ lit ''.snap.'') (m_snap_path m) (m_snapshot_seq m)"
    and w: "list_all2 (\<lambda>p b. is_safe_leaf p \<and> path_suffix_is (base @ lit ''.wal.'') p b) (m_wal_paths m) (m_wal_base_seq m)"
    and inc: "strictly_increasing (m_wal_base_seq m)"
    using assms by (auto simp: manifest_decode_def Let_def bindE_eq_Inr split: if_splits simp del: lit_Cons lit_Nil)
  have lens: "length bs = n" if "read_u64s n c = Inr (bs, c')" for n bs c c'
    using that by (induction n arbitrary: bs c c') (auto simp: rret_def rbind_eq_Inr)
  have "length (m_wal_base_seq m) \<le> 8"
    using c by (auto simp: read_manifest_def rbind_eq_Inr rfail_def rret_def Let_def MAX_WAL_SEGMENTS_def
        split: if_splits dest!: lens)
  moreover have "ps = map (\<lambda>b. base @ lit ''.wal.'' @ dec (unat b)) bs \<and> (\<forall>p\<in>set ps. is_safe_leaf p)"
    if "list_all2 (\<lambda>p b. is_safe_leaf p \<and> path_suffix_is (base @ lit ''.wal.'') p b) ps bs" for ps bs
    using that by (induction rule: list_all2_induct) (auto simp: path_suffix_is_iff)
  note this [OF w]
  moreover have "sorted_wrt (<) bs" if "strictly_increasing bs" for bs
    using that by (induction bs rule: strictly_increasing.induct) (auto dest: order.strict_trans)
  note this [OF inc]
  moreover have "length (m_wal_paths m) = length (m_wal_base_seq m)" using w by (rule list_all2_lengthD)
  moreover have "47 \<notin> set p \<and> hd p \<noteq> 46" if "is_safe_leaf p" for p
    using that by (auto simp: is_safe_leaf_def split: if_splits)
  moreover have "m_snap_path m = base @ lit ''.snap.'' @ dec (unat (m_snapshot_seq m))"
    using s(2) by (simp only: path_suffix_is_iff append_assoc)
  ultimately show ?thesis using s(1) by (metis set_ConsD)
qed

theorem manifest_names_own_files_witness:
  "\<exists>raw m. manifest_decode raw (lit ''c'') = Inr m \<and> length (m_wal_paths m) \<le> 8"
proof -
  obtain raw where raw: "manifest_encode sample_manifest = Inr raw" using sample_manifest_encode by blast
  have "manifest_decode raw (lit ''c'') = Inr sample_manifest"
    using manifest_decode_encode [OF raw sample_manifest_ok sample_manifest_utf8] .
  from manifest_names_own_files [OF this] this show ?thesis by blast
qed

end
