(* ===== verification/Recover_Props.thy ===== *)
theory Recover_Props
  imports Recover Wal_Props Snapshot_Props Manifest_Props "HOL-Library.Multiset"
begin

text \<open>
  Recovery: the state as a map and its events, replay in order of sequence numbers whatever the order in
  the files, the entries of a plan whatever the order in the hash map, and the invariants of a run.
\<close>

subsection \<open>The state as a map\<close>

type_synonym amap = "cache_key \<rightharpoonup> cache_entry \<times> u64"

definition abs_put :: "u64 \<Rightarrow> entry_body \<Rightarrow> amap \<Rightarrow> amap" where
  "abs_put seq b m = (case to_entry b of Inr e \<Rightarrow> m(eb_key b \<mapsto> (e\<lparr>ce_seq := seq\<rparr>, seq)) | Inl _ \<Rightarrow> m)"

fun abs_apply :: "wal_rec \<Rightarrow> amap \<Rightarrow> amap" where
  "abs_apply (Put seq b) m = abs_put seq b m"
| "abs_apply (Evict _ k _) m = m(k := None)"
| "abs_apply (Clear _ _) m = Map.empty"
| "abs_apply (Commit _ _ _ _) m = m"

text \<open>Keys are distinct and an entry carries its sequence number, which satisfies \<open>P\<close>.\<close>

definition state_ok :: "(u64 \<Rightarrow> bool) \<Rightarrow> rstate \<Rightarrow> bool" where
  "state_ok P st \<longleftrightarrow> distinct (map fst st) \<and> (\<forall>k e seq. map_of st k = Some (e, seq) \<longrightarrow> ce_seq e = seq \<and> P seq)"

lemma state_ok_Nil [simp]: "state_ok P []"
  by (simp add: state_ok_def)

lemma state_ok_update: "state_ok P st \<Longrightarrow> P seq \<Longrightarrow> state_ok P (AList.update k (e\<lparr>ce_seq := seq\<rparr>, seq) st)"
  by (auto simp: state_ok_def distinct_update update_conv')

lemma state_ok_delete: "state_ok P st \<Longrightarrow> state_ok P (AList.delete k st)"
  by (auto simp: state_ok_def distinct_delete delete_conv')

lemma state_ok_mono: "state_ok P st \<Longrightarrow> (\<And>s. P s \<Longrightarrow> Q s) \<Longrightarrow> state_ok Q st"
  by (auto simp: state_ok_def)

lemma apply_record_ok: "state_ok P (fst s) \<Longrightarrow> P seq \<Longrightarrow> state_ok P (fst (apply_record seq rec s))"
  by (cases s; cases rec) (auto simp: apply_record_def state_ok_update state_ok_delete split: sum.split)

lemma map_of_apply_record:
  "wal_rec_seq rec = seq \<Longrightarrow> map_of (fst (apply_record seq rec s)) = abs_apply rec (map_of (fst s))"
  by (cases s; cases rec) (auto simp: apply_record_def abs_put_def update_conv' delete_conv' split: sum.split)

subsection \<open>Merging\<close>

lemma merge_ok:
  "state_ok P (fst s) \<Longrightarrow> \<forall>(seq, rec)\<in>set recs. P seq \<Longrightarrow> state_ok P (fst (merge_records applied recs s))"
  by (induction applied recs s rule: merge_records.induct) (auto simp: apply_record_ok)

lemma merge_distinct:
  assumes "sorted_wrt (<) (map fst recs)" "\<forall>seq\<in>set (map fst recs). applied \<noteq> Some seq"
    and "\<forall>(seq, rec)\<in>set recs. wal_rec_seq rec = seq"
  shows "map_of (fst (merge_records applied recs s)) = fold (\<lambda>(_, rec). abs_apply rec) recs (map_of (fst s))"
  using assms
proof (induction applied recs s rule: merge_records.induct)
  case (2 applied seq rec recs s)
  then show ?case by (fastforce simp: map_of_apply_record)
qed simp

lemma sorted_distinct_strict: "sorted xs \<Longrightarrow> distinct xs \<Longrightarrow> sorted_wrt (<) xs"
  by (simp add: strict_sorted_iff)

lemma replay_sorted_map:
  assumes "distinct (map fst recs)" "\<forall>(seq, rec)\<in>set recs. wal_rec_seq rec = seq"
  shows "map_of (fst (replay_sorted recs s)) = fold (\<lambda>(_, rec). abs_apply rec) (sort_key fst recs) (map_of (fst s))"
proof -
  have "distinct (map fst (sort_key fst recs))"
    using assms(1) by (simp add: distinct_map inj_on_def)
  then show ?thesis unfolding replay_sorted_def
    by (intro merge_distinct sorted_distinct_strict) (use assms(2) in simp_all)
qed

text \<open>
  Replay does not depend on the order in which records with distinct sequence numbers were written,
  nor on how they are spread over segments.
\<close>

theorem replay_order_free:
  assumes "mset recs = mset recs'" "distinct (map fst recs)"
  shows "replay_sorted recs s = replay_sorted recs' s"
proof -
  have "inj_on fst (set recs)" using assms(2) by (simp add: distinct_map)
  moreover have "mset recs = mset (sort_key fst recs')" using assms(1) by simp
  moreover have "sorted (map fst (sort_key fst recs'))" by simp
  ultimately have "sort_key fst recs = sort_key fst recs'"
    using sort_key_inj_key_eq by blast
  then show ?thesis by (simp add: replay_sorted_def)
qed

theorem replay_order_free_witness:
  "replay_sorted [(8, Clear 8 1), (7, Evict 7 sample_key 4)] ([], 0)
     = replay_sorted [(7, Evict 7 sample_key 4), (8, Clear 8 1)] ([], 0)"
  by (rule replay_order_free) simp_all

subsection \<open>The entries of a plan\<close>

lemma entry_order_inj: "entry_order x = entry_order y \<Longrightarrow> fst x = fst y"
  by (cases x; cases y) (auto simp: entry_order_def intro: cache_key.equality)

definition state_entry :: "cache_key \<times> cache_entry \<times> u64 \<Rightarrow> cache_key \<times> cache_entry" where
  "state_entry = (\<lambda>(k, e, seq). (k, e\<lparr>ce_seq := seq\<rparr>))"

lemma restore_entries_alt: "restore_entries st = sort_key entry_order (map state_entry st)"
  by (simp add: restore_entries_def state_entry_def)

lemma fst_state_entry [simp]: "fst (state_entry x) = fst x"
  by (cases x) (simp add: state_entry_def)

lemma keys_of_entries: "map fst (map state_entry st) = map fst st"
  by simp

text \<open>
  The entries of a plan depend only on the map that the state is, not on the iteration order of the
  hash map that holds it.
\<close>

theorem restore_entries_canonical:
  assumes "map_of st = map_of st'" "distinct (map fst st)" "distinct (map fst st')"
  shows "restore_entries st = restore_entries st'"
proof -
  have "set st = set st'" using assms map_of_eq_Some_iff [OF assms(2)] map_of_eq_Some_iff [OF assms(3)]
    by (metis subsetI subset_antisym surj_pair)
  then have "mset st = mset st'" using assms(2,3) by (simp add: set_eq_iff_mset_eq_distinct distinct_map)
  then have "mset (map state_entry st) = mset (sort_key entry_order (map state_entry st'))" by simp
  moreover have "inj_on entry_order (set (map state_entry st))"
  proof (rule inj_onI)
    fix x y assume "x \<in> set (map state_entry st)" "y \<in> set (map state_entry st)" "entry_order x = entry_order y"
    then show "x = y" using entry_order_inj assms(2) eq_key_imp_eq_value [of "map state_entry st"]
      by (metis keys_of_entries prod.collapse)
  qed
  ultimately show ?thesis unfolding restore_entries_alt
    using sort_key_inj_key_eq [of "map state_entry st" "sort_key entry_order (map state_entry st')" entry_order] by simp
qed

theorem restore_entries_canonical_witness:
  "restore_entries [(sample_key, sample_entry, 5), (cache_key_new [1] [2], sample_entry, 5)]
     = restore_entries [(cache_key_new [1] [2], sample_entry, 5), (sample_key, sample_entry, 5)]"
  by (rule restore_entries_canonical) (auto simp: sample_key_def cache_key_new_def)

subsection \<open>Invariants of a run\<close>

lemma snap_loop_inv:
  fixes left :: u64
  assumes step: "\<And>es k b s s'. I s \<Longrightarrow> f es k b s = Inr s' \<Longrightarrow> I s'"
  shows "snap_loop data f pos left bc seen failed s = Inr (bc', seen', failed', s') \<Longrightarrow> I s \<Longrightarrow> I s'"
proof (induction "length data - pos" arbitrary: pos left bc seen failed s rule: less_induct)
  case less
  show ?case
  proof (cases "left = 0")
    case True
    then show ?thesis using less.prems by (subst (asm) snap_loop.simps) simp
  next
    case False
    let ?plen = "of_le (take 4 (slice data pos 8)) :: u32"
    note next' = snap_loop_next [OF less.prems(1) False]
    have lt: "length data - (pos + 12 + unat ?plen) < length data - pos" using next'(2) by simp
    obtain left' bc1 seen1 failed1 s1 where
      "snap_loop data f (pos + 12 + unat ?plen) left' bc1 seen1 failed1 s1 = Inr (bc', seen', failed', s')"
      "s1 = s \<or> (\<exists>es k b. f es k b s = Inr s1)"
      using next'(3) by blast
    then show ?thesis using less.hyps [OF lt] less.prems(2) step by blast
  qed
qed

lemma snap_for_each_inv:
  assumes "snap_for_each f r s = Inr (stats, s')" "I s"
    and "\<And>es k b s s'. I s \<Longrightarrow> f es k b s = Inr s' \<Longrightarrow> I s'"
  shows "I s'"
proof -
  obtain bc seen failed where
    "snap_loop (sr_data r) f SNAP_HEADER_LEN (sr_record_bytes r) (NOT 0) 0 0 s = Inr (bc, seen, failed, s')"
    using assms(1) by (auto simp: snap_for_each_def bindE_eq_Inr split: if_splits)
  then show ?thesis by (rule snap_loop_inv [where I = I, rotated]) (rule assms(2), rule assms(3))
qed

definition load_ok :: "snap_load \<Rightarrow> bool" where
  "load_ok s \<longleftrightarrow> state_ok (\<lambda>seq. seq \<le> sl_max_seq s) (sl_state s)"

lemma load_record_ok: "load_ok s \<Longrightarrow> load_record es k b s = Inr s' \<Longrightarrow> load_ok s'"
proof -
  assume ok: "load_ok s" and l: "load_record es k b s = Inr s'"
  have "state_ok (\<lambda>seq. seq \<le> max (sl_max_seq s) es) (sl_state s)"
    using ok unfolding load_ok_def by (rule state_ok_mono) (simp add: le_max_iff_disj)
  then show ?thesis
    using l ok by (auto simp: load_record_def load_ok_def state_ok_update split: sum.splits)
qed

text \<open>The records collected from the log carry their numbers, none above the largest one seen.\<close>

definition replay_ok :: "replay \<Rightarrow> bool" where
  "replay_ok a \<longleftrightarrow> (\<forall>(seq, rec)\<in>set (rp_recs a). wal_rec_seq rec = seq \<and> seq \<le> rp_max_seq a)"

lemma replay_ok_fields [simp]:
  "replay_ok (a\<lparr>rp_failed := n\<rparr>) = replay_ok a" "replay_ok (a\<lparr>rp_files := n\<rparr>) = replay_ok a"
  "replay_ok (segment_tail wp i l v a) = replay_ok a" "replay_ok (segment_corrupt wp i l v a) = replay_ok a"
  "replay_ok (a\<lparr>rp_tail := n, rp_saw_tail := b\<rparr>) = replay_ok a"
  "replay_ok (a\<lparr>rp_saw_tail := b, rp_gap := g, rp_read_end := n\<rparr>) = replay_ok a"
  by (simp_all add: replay_ok_def segment_tail_def segment_corrupt_def Let_def)

lemma rp_max_fields [simp]:
  "rp_max_seq (segment_tail wp i l v a) = rp_max_seq a" "rp_max_seq (segment_corrupt wp i l v a) = rp_max_seq a"
  by (simp_all add: segment_tail_def segment_corrupt_def Let_def)

lemma take_record_ok: "replay_ok a \<Longrightarrow> replay_ok (take_record ss rec a) \<and> rp_max_seq a \<le> rp_max_seq (take_record ss rec a)"
  by (cases rec) (auto simp: replay_ok_def take_record_def Let_def le_max_iff_disj)

lemma replay_segment_ok:
  "replay_ok a \<Longrightarrow> replay_ok (replay_segment ss wp i l r a) \<and> rp_max_seq a \<le> rp_max_seq (replay_segment ss wp i l r a)"
proof (induction ss wp i l r a rule: replay_segment.induct)
  case (1 ss wp i l r a)
  obtain res r' where n: "wal_next r = (res, r')" by fastforce
  show ?case
  proof (cases res)
    case (Inl e)
    then show ?thesis using n 1(3) by (cases e) (simp_all add: replay_segment.simps [of ss wp i l r])
  next
    case (Inr it)
    show ?thesis
    proof (cases it)
      case None
      then show ?thesis using n Inr 1(3) by (simp add: replay_segment.simps [of ss wp i l r])
    next
      case (Some x)
      show ?thesis
      proof (cases x)
        case (Rec rec)
        note eq = n [unfolded Inr Some Rec]
        have "replay_ok (replay_segment ss wp i l r' (take_record ss rec a))
          \<and> rp_max_seq (take_record ss rec a) \<le> rp_max_seq (replay_segment ss wp i l r' (take_record ss rec a))"
          using "1.IH"(1) [OF eq [symmetric] refl refl refl] take_record_ok [OF 1(3)] by blast
        then show ?thesis using take_record_ok [OF 1(3), of ss rec]
          by (auto simp: replay_segment.simps [of ss wp i l r] eq intro: order_trans)
      next
        case BadContent
        note eq = n [unfolded Inr Some BadContent]
        show ?thesis using "1.IH"(2) [OF eq [symmetric] refl refl refl] 1(3)
          by (simp add: replay_segment.simps [of ss wp i l r] eq)
      qed
    qed
  qed
qed

lemma replay_segments_ok:
  "replay_segments dir ss n i segs a = Inr a' \<Longrightarrow> replay_ok a \<Longrightarrow> replay_ok a' \<and> rp_max_seq a \<le> rp_max_seq a'"
proof (induction segs arbitrary: i a)
  case (Cons seg segs)
  obtain wp base where seg: "seg = (wp, base)" by fastforce
  show ?case
  proof (cases "open_segment dir wp base")
    case (Inl e)
    let ?a = "a\<lparr>rp_tail := rp_tail a + 1, rp_saw_tail := True\<rparr>"
    from Inl show ?thesis using Cons.prems Cons.IH [of "i + 1" ?a] seg
      by (cases e) (auto simp: Let_def split: if_splits)
  next
    case (Inr r)
    let ?a = "replay_segment ss wp i (i + 1 = n) r (a\<lparr>rp_files := rp_files a + 1\<rparr>)"
    have "replay_ok ?a \<and> rp_max_seq a \<le> rp_max_seq ?a"
      using replay_segment_ok [of "a\<lparr>rp_files := rp_files a + 1\<rparr>"] Cons.prems(2) by simp
    then show ?thesis using Inr Cons seg by (auto simp: Let_def split: if_splits intro: order_trans)
  qed
qed simp

subsection \<open>The entries under the time-to-live policy\<close>

lemma restore_entry_fresh: "restore_entry now pt e = Some e' \<Longrightarrow> now < ce_expires_at e' \<and> ce_seq e' = ce_seq e"
  by (auto simp: restore_entry_def resolve_restored_expiry_def split: if_splits option.splits)

lemma map_filter_keys:
  "distinct (map fst st) \<Longrightarrow>
     distinct (map fst (List.map_filter (\<lambda>(k, e, seq). map_option (\<lambda>e. (k, e, seq)) (f e)) st))"
proof (induction st)
  case (Cons x st)
  have "fst ` set (List.map_filter (\<lambda>(k, e, seq). map_option (\<lambda>e. (k, e, seq)) (f e)) st) \<subseteq> fst ` set st"
    by (force simp: map_filter_def)
  then show ?case using Cons by (cases x) (auto simp: map_filter_simps split: option.split)
qed simp

lemma policy_keys: "distinct (map fst st) \<Longrightarrow> distinct (map fst (fst (apply_restore_policy st now pt)))"
  by (simp add: apply_restore_policy_def Let_def map_filter_keys)

lemma policy_set:
  "(k, e', seq) \<in> set (fst (apply_restore_policy st now pt)) \<longleftrightarrow>
     (\<exists>e. (k, e, seq) \<in> set st \<and> restore_entry now pt e = Some e')"
  by (force simp: apply_restore_policy_def Let_def map_filter_def)

lemma set_restore_entries: "set (restore_entries st) = state_entry ` set st"
  by (simp add: restore_entries_alt)

lemma distinct_restore_entries: "distinct (map fst st) \<Longrightarrow> distinct (map fst (restore_entries st))"
proof -
  assume "distinct (map fst st)"
  then have "distinct (map fst (map state_entry st))" by (simp add: comp_def)
  moreover have "mset (map fst (restore_entries st)) = mset (map fst (map state_entry st))"
    by (simp only: restore_entries_alt mset_map mset_sort)
  ultimately show ?thesis by (metis mset_eq_imp_distinct_iff)
qed

lemma sorted_restore_entries: "sorted (map (\<lambda>x. ce_seq (snd x)) (restore_entries st))"
proof -
  have "sorted_wrt (\<lambda>x y. entry_order x \<le> entry_order y) (restore_entries st)"
    unfolding restore_entries_alt using sorted_sort_key [of entry_order] by (simp add: sorted_map)
  then have "sorted_wrt (\<lambda>x y. ce_seq (snd x) \<le> ce_seq (snd y)) (restore_entries st)"
    by (rule sorted_wrt_mono_rel [rotated]) (auto simp: entry_order_def split: prod.splits)
  then show ?thesis by (simp add: sorted_map)
qed

lemma next_seq_above: "seq \<le> rp_max_seq a \<Longrightarrow> seq < plan_next_seq m a \<or> plan_next_seq m a = - 1"
proof -
  assume s: "seq \<le> rp_max_seq a"
  have inc: "n < u64_sat_inc n \<or> u64_sat_inc n = - 1" for n
    using unatSuc [of n] eq_neg_iff_add_eq_0 [of n 1]
    by (cases "n = - 1") (auto simp: u64_sat_inc_def word_less_nat_alt add.commute)
  have top: "max x (- 1 :: u64) = - 1" "max (- 1 :: u64) x = - 1" for x
    by (simp_all add: max_def word_order.extremum_unique)
  show ?thesis
    using s inc [of "rp_max_seq a"] by (auto simp: plan_next_seq_def less_max_iff_disj top)
qed

lemma plan_state_ok:
  assumes sl: "load_snapshot dir m = Inr (sl, failed)" and a: "replay_wal dir m (sl_max_seq sl) failed = Inr a"
  shows "state_ok (\<lambda>seq. seq \<le> rp_max_seq a) (fst (replay_sorted (rp_recs a) (sl_state sl, rp_failed a)))"
proof -
  obtain snap stats where "snap_for_each load_record snap
       \<lparr>sl_state = [], sl_max_seq = max (m_snapshot_seq m) (m_seq m), sl_failed = 0\<rparr> = Inr (stats, sl)"
    using sl by (auto simp: load_snapshot_def split: option.splits sum.splits if_splits)
  from snap_for_each_inv [where I = load_ok, OF this _ load_record_ok] have load: "load_ok sl"
    by (simp add: load_ok_def)
  have "replay_ok a \<and> sl_max_seq sl \<le> rp_max_seq a"
    using replay_segments_ok [OF a [unfolded replay_wal_def]] by (simp add: replay_ok_def)
  then have ra: "replay_ok a" and mx: "sl_max_seq sl \<le> rp_max_seq a" by simp_all
  have "state_ok (\<lambda>seq. seq \<le> rp_max_seq a) (sl_state sl)"
    using load unfolding load_ok_def by (rule state_ok_mono) (use mx in simp)
  then show ?thesis
    unfolding replay_sorted_def by (intro merge_ok) (use ra in \<open>auto simp: replay_ok_def\<close>)
qed

end
