(* ===== verification/Recover_Crash.thy ===== *)
theory Recover_Crash
  imports Recover_Props
begin

text \<open>
  Recovery of what the writers left: a manifest, the snapshot it names and its log segments, the last of
  which may end in the middle of a record.  The entries recovered are the abstract map that the snapshot's
  entries and the later records describe, under the time-to-live policy; a torn record is cut off the file.
\<close>

subsection \<open>The snapshot\<close>

definition load_put :: "u64 \<Rightarrow> cache_key \<Rightarrow> entry_body \<Rightarrow> snap_load \<Rightarrow> snap_load" where
  "load_put entry_seq key body s =
     (case to_entry body of
        Inr e \<Rightarrow> s\<lparr>sl_max_seq := max (sl_max_seq s) entry_seq,
                   sl_state := AList.update key (e\<lparr>ce_seq := entry_seq\<rparr>, entry_seq) (sl_state s)\<rparr>
      | Inl _ \<Rightarrow> s\<lparr>sl_failed := sl_failed s + 1\<rparr>)"

lemma load_record_total: "load_record = (\<lambda>es k b s. Inr (load_put es k b s))"
  by (intro ext) (simp add: load_record_def load_put_def split: sum.split)

definition abs_load :: "item list \<Rightarrow> amap \<Rightarrow> amap" where
  "abs_load = fold (\<lambda>(es, b). abs_put es b)"

lemma load_put_map: "map_of (sl_state (load_put es (eb_key b) b s)) = abs_put es b (map_of (sl_state s))"
  by (auto simp: load_put_def abs_put_def update_conv' split: sum.split)

lemma load_items:
  "map_of (sl_state (fold (\<lambda>(es, b). load_put es (eb_key b) b) items s)) = abs_load items (map_of (sl_state s))"
  by (induction items arbitrary: s) (auto simp: abs_load_def load_put_map)

subsection \<open>The records of a segment\<close>

fun is_commit :: "wal_rec \<Rightarrow> bool" where
  "is_commit (Commit _ _ _ _) = True"
| "is_commit _ = False"

text \<open>The records that recovery replays over a snapshot taken at \<open>ss\<close>.\<close>

definition live :: "u64 \<Rightarrow> wal_rec list \<Rightarrow> wal_rec list" where
  "live ss = filter (\<lambda>x. ss < wal_rec_seq x \<and> \<not> is_commit x)"

definition keyed :: "wal_rec list \<Rightarrow> (u64 \<times> wal_rec) list" where
  "keyed = map (\<lambda>x. (wal_rec_seq x, x))"

text \<open>\<open>a'\<close> is \<open>a\<close> with the records of \<open>xs\<close> taken in.\<close>

definition takes :: "u64 \<Rightarrow> wal_rec list \<Rightarrow> replay \<Rightarrow> replay \<Rightarrow> bool" where
  "takes ss xs a a' \<longleftrightarrow> rp_recs a' = rp_recs a @ keyed (live ss xs) \<and> rp_saw_tail a' = rp_saw_tail a
     \<and> rp_truncate a' = rp_truncate a"

lemma takes_Nil [simp]: "takes ss [] a a"
  by (simp add: takes_def live_def keyed_def)

lemma takes_trans: "takes ss xs a b \<Longrightarrow> takes ss ys b c \<Longrightarrow> takes ss (xs @ ys) a c"
  by (simp add: takes_def live_def keyed_def)

lemma takes_files [simp]: "takes ss xs (a\<lparr>rp_files := n\<rparr>) b = takes ss xs a b"
  by (simp add: takes_def)

lemma takes_record: "takes ss [x] a (take_record ss x a)"
  by (cases x) (auto simp: takes_def take_record_def live_def keyed_def Let_def)

lemma takes_fold: "takes ss xs a (fold (take_record ss) xs a)"
proof (induction xs arbitrary: a)
  case (Cons x xs)
  then show ?case using takes_trans [OF takes_record Cons.IH] by simp
qed simp

lemma replay_segment_records:
  assumes "records_of xs fs" "at_pos r pre (concat fs @ post)"
  shows "\<exists>r'. at_pos r' (pre @ concat fs) post
     \<and> replay_segment ss wp i l r a = replay_segment ss wp i l r' (fold (take_record ss) xs a)"
  using assms
proof (induction arbitrary: r pre a rule: list_all2_induct)
  case (Cons x xs f fs)
  then obtain r1 where r1: "wal_next r = (Inr (Some (Rec x)), r1)" "at_pos r1 (pre @ f) (concat fs @ post)"
    using wal_next_record [of r pre f "concat fs @ post" x] by auto
  from Cons.IH [OF r1(2), of "take_record ss x a"] show ?case
    by (auto simp: replay_segment.simps [of ss wp i l r] r1(1))
qed auto

lemma replay_segment_end: "at_pos r pre [] \<Longrightarrow> replay_segment ss wp i l r a = a"
  by (simp add: replay_segment.simps [of ss wp i l r] wal_next_def at_pos_def Let_def)

lemma replay_segment_torn:
  assumes "at_pos r pre (take n f)" "encode_rec x = Inr f" "rec_ok x" "0 < n" "n < length f"
  shows "replay_segment ss wp i True r a = segment_tail wp i True (length pre) a"
proof -
  obtain ty body where f: "f = frame ty body" "length body \<le> MAX_RECORD_BYTES"
    using decode_encode_rec [OF assms(2,3)] by blast
  have "wal_next r = (Inl (Tail (length pre) n), r)"
    using wal_next_cut [OF assms(1) [unfolded f(1)] assms(4)] assms(5) f by simp
  then show ?thesis by (simp add: replay_segment.simps [of ss wp i True r])
qed

subsection \<open>The segments of a run\<close>

text \<open>The file of a segment that holds exactly the records \<open>xs\<close>.\<close>

definition whole_segment :: "dir \<Rightarrow> str \<times> u64 \<Rightarrow> wal_rec list \<Rightarrow> bool" where
  "whole_segment dir = (\<lambda>(wp, base) xs.
     \<exists>ms fs. records_of xs fs \<and> dir wp = Some (segment base ms (concat fs)))"

text \<open>The records \<open>xs\<close>, then the first \<open>n\<close> bytes of one more; \<open>whole\<close> is the file without them.\<close>

definition torn_segment :: "dir \<Rightarrow> str \<times> u64 \<Rightarrow> wal_rec list \<Rightarrow> bytes \<Rightarrow> bool" where
  "torn_segment dir = (\<lambda>(wp, base) xs whole.
     \<exists>ms fs x f n. records_of xs fs \<and> encode_rec x = Inr f \<and> rec_ok x \<and> n < length f
       \<and> whole = segment base ms (concat fs) \<and> dir wp = Some (whole @ take n f))"

lemma replay_whole:
  assumes "whole_segment dir (wp, base) xs"
  shows "\<exists>r. open_segment dir wp base = Inr r \<and> takes ss xs a (replay_segment ss wp i l r a)"
proof -
  obtain ms fs where fs: "records_of xs fs" and d: "dir wp = Some (segment base ms (concat fs))"
    using assms by (auto simp: whole_segment_def)
  obtain r where r: "wal_open (segment base ms (concat fs)) base = Inr r" "at_pos r (header_bytes base ms) (concat fs)"
    using wal_open_segment by blast
  from replay_segment_records [OF fs, of r _ "[]"] r(2) obtain r' where
    "at_pos r' (header_bytes base ms @ concat fs) []"
    "replay_segment ss wp i l r a = replay_segment ss wp i l r' (fold (take_record ss) xs a)"
    by fastforce
  then have "replay_segment ss wp i l r a = fold (take_record ss) xs a"
    using replay_segment_end by simp
  then show ?thesis using r(1) d takes_fold by (simp add: open_segment_def)
qed

text \<open>The last segment: the records in front of the tear, and the cut that recovery asks for.\<close>

lemma replay_torn:
  assumes "torn_segment dir (wp, base) xs whole"
  shows "\<exists>r a'. open_segment dir wp base = Inr r \<and> takes ss xs a a'
     \<and> (replay_segment ss wp i True r a = a' \<and> dir wp = Some whole
        \<or> replay_segment ss wp i True r a = segment_tail wp i True (length whole) a')"
proof -
  obtain ms fs x f n where fs: "records_of xs fs" and x: "encode_rec x = Inr f" "rec_ok x" "n < length f"
    and w: "whole = segment base ms (concat fs)" and d: "dir wp = Some (whole @ take n f)"
    using assms by (auto simp: torn_segment_def)
  obtain r where r: "wal_open (segment base ms (concat fs @ take n f)) base = Inr r"
    "at_pos r (header_bytes base ms) (concat fs @ take n f)"
    using wal_open_segment by blast
  from replay_segment_records [OF fs r(2)] obtain r' where
    r': "at_pos r' (header_bytes base ms @ concat fs) (take n f)"
    "replay_segment ss wp i True r a = replay_segment ss wp i True r' (fold (take_record ss) xs a)"
    by blast
  have o: "open_segment dir wp base = Inr r"
    using r(1) d w by (simp add: open_segment_def segment_def)
  show ?thesis
  proof (cases "n = 0")
    case True
    then show ?thesis using o r' replay_segment_end d takes_fold by (intro exI [of _ r] exI conjI disjI1) auto
  next
    case False
    have "length (header_bytes base ms @ concat fs) = length whole" by (simp add: w segment_def)
    then show ?thesis using o r' replay_segment_torn [OF r'(1) x(1,2) _ x(3)] False takes_fold
      by (intro exI [of _ r] exI conjI disjI2) auto
  qed
qed

text \<open>All segments but the last are whole.\<close>

lemma replay_wholes:
  assumes "list_all2 (whole_segment dir) segs xss" "i + length segs < n" "\<not> rp_saw_tail a"
  shows "\<exists>a'. takes ss (concat xss) a a' \<and> replay_segments dir ss n i (segs @ rest) a
     = replay_segments dir ss n (i + length segs) rest a'"
  using assms
proof (induction arbitrary: i a rule: list_all2_induct)
  case Nil
  then show ?case by (intro exI [of _ a]) simp
next
  case (Cons seg segs xs xss)
  obtain wp base where seg: "seg = (wp, base)" by fastforce
  obtain r where o: "open_segment dir wp base = Inr r"
    and t: "takes ss xs a (replay_segment ss wp i False r (a\<lparr>rp_files := rp_files a + 1\<rparr>))"
    using replay_whole [of dir wp base xs ss "a\<lparr>rp_files := rp_files a + 1\<rparr>" i False] Cons.hyps(1) seg by auto
  let ?a = "replay_segment ss wp i False r (a\<lparr>rp_files := rp_files a + 1\<rparr>)"
  have nt: "\<not> rp_saw_tail ?a" using t Cons.prems(2) by (simp add: takes_def)
  obtain a' where "takes ss (concat xss) ?a a'"
    "replay_segments dir ss n (i + 1) (segs @ rest) ?a = replay_segments dir ss n (i + 1 + length segs) rest a'"
    using Cons.IH [of "i + 1" ?a] Cons.prems(1) nt by auto
  then show ?case using takes_trans [OF t] seg o nt Cons.prems(1) by (auto simp: Let_def)
qed

text \<open>The run over all segments.\<close>

lemma replay_all:
  assumes "list_all2 (whole_segment dir) segs xss" "torn_segment dir (wp, base) xs whole"
    and "\<not> rp_saw_tail a" "rp_truncate a = []"
  shows "\<exists>a'. replay_segments dir ss (length segs + 1) 0 (segs @ [(wp, base)]) a = Inr a'
     \<and> rp_recs a' = rp_recs a @ keyed (live ss (concat xss @ xs))
     \<and> (rp_truncate a' = [] \<and> dir wp = Some whole \<or> rp_truncate a' = [(wp, length whole)])"
proof -
  obtain a1 where a1: "takes ss (concat xss) a a1"
    "replay_segments dir ss (length segs + 1) 0 (segs @ [(wp, base)]) a
       = replay_segments dir ss (length segs + 1) (length segs) [(wp, base)] a1"
    using replay_wholes [OF assms(1), of 0 "length segs + 1" a ss "[(wp, base)]"] assms(3) by (auto simp del: replay_segments.simps)
  from replay_torn [OF assms(2), of ss "a1\<lparr>rp_files := rp_files a1 + 1\<rparr>" "length segs"]
  obtain r a' where r: "open_segment dir wp base = Inr r" and t: "takes ss xs a1 a'"
    and c: "replay_segment ss wp (length segs) True r (a1\<lparr>rp_files := rp_files a1 + 1\<rparr>) = a' \<and> dir wp = Some whole
       \<or> replay_segment ss wp (length segs) True r (a1\<lparr>rp_files := rp_files a1 + 1\<rparr>)
         = segment_tail wp (length segs) True (length whole) a'" by auto
  show ?thesis
    using a1(2) takes_trans [OF a1(1) t] r c assms(4)
    by (auto simp: Let_def takes_def segment_tail_def)
qed

subsection \<open>The plan\<close>

definition live_entry :: "real \<Rightarrow> real \<Rightarrow> amap \<Rightarrow> cache_key \<Rightarrow> cache_entry option" where
  "live_entry now pt m k = Option.bind (m k) (\<lambda>(e, _). restore_entry now pt e)"

lemma state_entry_ok: "state_ok P st \<Longrightarrow> (k, e, seq) \<in> set st \<Longrightarrow> ce_seq e = seq"
  by (auto simp: state_ok_def)

lemma map_of_entries:
  assumes "state_ok P st"
  shows "map_of (restore_entries (fst (apply_restore_policy st now pt))) = live_entry now pt (map_of st)"
proof
  fix k
  let ?es = "restore_entries (fst (apply_restore_policy st now pt))"
  have d: "distinct (map fst st)" using assms by (simp add: state_ok_def)
  then have d': "distinct (map fst ?es)" by (simp add: distinct_restore_entries policy_keys)
  have "(k, e') \<in> set ?es \<longleftrightarrow> (\<exists>e seq. (k, e, seq) \<in> set st \<and> restore_entry now pt e = Some e')" for e'
  proof -
    have "(k, e') \<in> set ?es \<longleftrightarrow> (\<exists>e seq e1. (k, e, seq) \<in> set st \<and> restore_entry now pt e = Some e1 \<and> e' = e1\<lparr>ce_seq := seq\<rparr>)"
      unfolding set_restore_entries by (auto simp: image_iff Bex_def split_paired_Ex state_entry_def policy_set)
    moreover have "e1\<lparr>ce_seq := seq\<rparr> = e1" if "(k, e, seq) \<in> set st" "restore_entry now pt e = Some e1" for e seq e1
      using state_entry_ok [OF assms that(1)] restore_entry_fresh [OF that(2)] by simp
    ultimately show ?thesis by metis
  qed
  then have "map_of ?es k = Some e' \<longleftrightarrow> live_entry now pt (map_of st) k = Some e'" for e'
    using d d' by (auto simp: live_entry_def bind_eq_Some_conv map_of_eq_Some_iff)
  then show "map_of ?es k = live_entry now pt (map_of st) k" by (metis not_Some_eq)
qed

text \<open>The files the writers leave: manifest, snapshot and segments.\<close>

definition snapshot_of :: "manifest \<Rightarrow> item list \<Rightarrow> bytes \<Rightarrow> bool" where
  "snapshot_of m items data \<longleftrightarrow> (\<exists>seq ms w meta. snap_pushes items (snap_create seq ms) = Inr w
     \<and> snap_finish w = (data, meta) \<and> m_snap_crc32c m = sm_crc meta \<and> m_snap_entries m = sm_count meta)
     \<and> (\<forall>(es, b)\<in>set items. entry_body_ok b) \<and> length items < 2 ^ 32
     \<and> length data < 2 ^ 63 \<and> m_snap_bytes m = word_of_nat (length data)"

lemma load_snapshot_of:
  assumes "snapshot_of m items data" "dir (m_snap_path m) = Some data"
  shows "\<exists>sl n. load_snapshot dir m = Inr (sl, n) \<and> map_of (sl_state sl) = abs_load items Map.empty"
proof -
  obtain seq ms w meta where w: "snap_pushes items (snap_create seq ms) = Inr w" "snap_finish w = (data, meta)"
    and m: "m_snap_crc32c m = sm_crc meta" "m_snap_entries m = sm_count meta"
    and ok: "\<forall>(es, b)\<in>set items. entry_body_ok b" "length items < 2 ^ 32" "length data < 2 ^ 63"
    and b: "m_snap_bytes m = word_of_nat (length data)"
    using assms(1) by (auto simp: snapshot_of_def)
  have u: "unat (m_snap_bytes m) = length data" using ok(3) by (simp add: b unat_of_nat)
  have l: "sm_file_len meta = length data" using w(2) by (auto simp: snap_finish_def Let_def)
  let ?s = "\<lparr>sl_state = [], sl_max_seq = max (m_snapshot_seq m) (m_seq m), sl_failed = 0\<rparr>"
  from snap_read_back [OF w(1) ok(1,2) w(2) ok(3), of load_put ?s] obtain r where
    "snap_open data = Inr r" "sr_count r = sm_count meta" "sr_file_len r = length data" "sr_body_crc r = sm_crc meta"
    "snap_for_each load_record r ?s = Inr (\<lparr>rs_ok = word_of_nat (length items), rs_failed = 0\<rparr>,
       fold (\<lambda>(es, b). load_put es (eb_key b) b) items ?s)"
    unfolding load_record_total l by blast
  then show ?thesis using assms(2) u m by (simp add: load_snapshot_def load_items)
qed

lemma not_v1: "manifest_encode m = Inr raw \<Longrightarrow>
  raw \<noteq> [] \<and> \<not> looks_like_v1_json raw \<and> take (MANIFEST_MAX_BYTES + 1) raw = raw"
  using manifest_encode_bytes [of m raw]
  by (auto simp: looks_like_v1_json_def manifest_body_def MANIFEST_MAGIC_def ascii_whitespace_def)

definition crash_state :: "u64 \<Rightarrow> item list \<Rightarrow> wal_rec list \<Rightarrow> amap" where
  "crash_state ss items xs = fold abs_apply (sort_key wal_rec_seq (live ss xs)) (abs_load items Map.empty)"

lemma insort_map: "insort_key f (g x) (map g xs) = map g (insort_key (\<lambda>x. f (g x)) x xs)"
  by (induction xs) simp_all

lemma sort_map: "sort_key f (map g xs) = map g (sort_key (\<lambda>x. f (g x)) xs)"
  by (induction xs) (simp_all add: insort_map)

lemma replay_keyed:
  assumes "distinct (map wal_rec_seq xs)"
  shows "map_of (fst (replay_sorted (keyed xs) s)) = fold abs_apply (sort_key wal_rec_seq xs) (map_of (fst s))"
proof -
  have "map fst (keyed xs) = map wal_rec_seq xs" by (simp add: keyed_def)
  moreover have "fold (\<lambda>(_, rec). abs_apply rec) (sort_key fst (keyed xs)) m = fold abs_apply (sort_key wal_rec_seq xs) m" for m
    by (simp add: keyed_def sort_map fold_map comp_def)
  ultimately show ?thesis using assms by (subst replay_sorted_map) (auto simp: keyed_def comp_def)
qed

lemma recover_writers:
  assumes raw: "manifest_encode m = Inr raw" and ok: "manifest_ok base m"
    and utf8: "\<forall>p\<in>set (m_snap_path m # m_wal_paths m). valid_utf8 p" and dir: "dir base = Some raw"
    and snap: "snapshot_of m items data" "dir (m_snap_path m) = Some data"
    and segs: "zip (m_wal_paths m) (m_wal_base_seq m) = segs @ [(wp, wbase)]"
    and whole: "list_all2 (whole_segment dir) segs xss" and torn: "torn_segment dir (wp, wbase) xs whole"
    and d: "distinct (map wal_rec_seq (live (m_snapshot_seq m) (concat xss @ xs)))"
  shows "\<exists>plan. recover_v2 dir base snap_ms pt now True = Inr (Some (plan, dir(wp \<mapsto> whole)))
     \<and> distinct (map fst (p_entries plan))
     \<and> map_of (p_entries plan)
       = live_entry now (max (safe_float pt 0) 0) (crash_state (m_snapshot_seq m) items (concat xss @ xs))"
proof -
  let ?ss = "m_snapshot_seq m" and ?xs = "concat xss @ xs" and ?pt = "max (safe_float pt 0) 0"
  have dec: "manifest_decode raw base = Inr m" by (rule manifest_decode_encode [OF raw ok utf8])
  obtain sl n where sl: "load_snapshot dir m = Inr (sl, n)" "map_of (sl_state sl) = abs_load items Map.empty"
    using load_snapshot_of [OF snap(1), of dir] snap(2) by blast
  have "length (m_wal_paths m) = length (m_wal_base_seq m)" using ok by (simp add: manifest_ok_def)
  then have len: "length (m_wal_paths m) = length segs + 1" using arg_cong [OF segs, of length] by simp
  let ?a0 = "\<lparr>rp_recs = [], rp_max_seq = sl_max_seq sl, rp_durable_seq = m_seq m,
        rp_last_commit = max (sint (m_committed_ms m)) 0, rp_failed = n, rp_tail = 0, rp_saw_tail = False,
        rp_truncate = [], rp_files = 0, rp_gap = False, rp_read_end = length segs + 1\<rparr>"
  obtain a where a: "replay_wal dir m (sl_max_seq sl) n = Inr a" "rp_recs a = keyed (live ?ss ?xs)"
    and cut: "rp_truncate a = [] \<and> dir wp = Some whole \<or> rp_truncate a = [(wp, length whole)]"
    using replay_all [OF whole torn, where a = ?a0 and ss = ?ss] unfolding replay_wal_def len segs by auto
  let ?r = "replay_sorted (rp_recs a) (sl_state sl, rp_failed a)"
  let ?plan = "restore_plan_of m a (fst ?r) (snd ?r) snap_ms True pt now"
  have "recover_v2 dir base snap_ms pt now True = Inr (Some (?plan, truncate_files (p_wal_truncate ?plan) dir))"
    using not_v1 [OF raw] by (simp add: Let_def recover_v2_def read_manifest_file_def dir dec sl a(1) split_beta)
  moreover have "truncate_files (p_wal_truncate ?plan) dir = dir(wp \<mapsto> whole)"
  proof -
    obtain t where t: "dir wp = Some (whole @ t)" using torn by (auto simp: torn_segment_def)
    have "p_wal_truncate ?plan = rp_truncate a" by (simp add: restore_plan_of_def Let_def split: prod.split)
    then show ?thesis using cut t by (auto simp: truncate_files_def set_len_def)
  qed
  moreover obtain P where st: "state_ok P (fst ?r)"
    using plan_state_ok [OF sl(1) a(1)] by blast
  have m: "map_of (fst ?r) = crash_state ?ss items ?xs"
    using replay_keyed [OF d] by (simp add: a(2) sl(2) crash_state_def)
  have "p_entries ?plan = restore_entries (fst (apply_restore_policy (fst ?r) now ?pt))"
    by (simp add: restore_plan_of_def Let_def split: prod.split)
  moreover note map_of_entries [OF st, of now ?pt]
  moreover have "distinct (map fst (restore_entries (fst (apply_restore_policy (fst ?r) now ?pt))))"
    using st by (simp add: distinct_restore_entries policy_keys state_ok_def)
  ultimately show ?thesis by (simp add: m)
qed

subsection \<open>An example\<close>

definition sample_dir :: dir where
  "sample_dir =
     [lit ''c'' \<mapsto> projr (manifest_encode sample_manifest),
      lit ''c.snap.7'' \<mapsto> fst (snap_finish (snap_create 7 0)),
      lit ''c.wal.8'' \<mapsto> segment 8 0 (projr (encode_put 8 sample_body)) @ take 3 (encode_clear 9 1)]"

lemma sample_snapshot: "snapshot_of sample_manifest [] (fst (snap_finish (snap_create 7 0)))"
  by (auto simp: snapshot_of_def snap_finish_def snap_create_def Let_def sample_manifest_def SNAP_HEADER_LEN_def
      crc32c_finalize_def)

lemma sample_to_entry: "\<exists>e. to_entry sample_body = Inr e"
proof -
  have "answer_bodies ascii_unicode (ce_answers sample_entry) = Inr (eb_answers sample_body)"
    using sample_from_entry by (auto simp: from_entry_def bindE_eq_Inr dest: arg_cong [of _ _ eb_answers] split: if_splits)
  then obtain cs where "cache_answers (eb_answers sample_body) = Inr cs"
    using cache_answers_values sample_utf8(2) by (fastforce simp: utf8_entry_def sample_body_def)
  then show ?thesis by (simp add: to_entry_def)
qed

lemma sample_put: "\<exists>f. encode_rec (Put 8 sample_body) = Inr f"
proof -
  obtain out where out: "entry_encode sample_body [] = Inr out" using sample_encode [of "[]"] by auto
  moreover have "length out \<le> 1000" using out
    by (auto simp: entry_encode_def sample_body_def sample_key_def encode_key_def bindE_eq_Inr Let_def
      MAX_RECORD_BYTES_def cache_key_new_def MAX_DOMAIN_def MAX_QTYPE_def put_bytes16_def)
  ultimately show ?thesis by (simp add: encode_put_def MAX_RECORD_BYTES_def)
qed

lemma sample_torn: "torn_segment sample_dir (lit ''c.wal.8'', 8) [Put 8 sample_body] (segment 8 0 (projr (encode_put 8 sample_body)))"
proof -
  obtain f where f: "encode_rec (Put 8 sample_body) = Inr f" using sample_put by blast
  then have "records_of [Put 8 sample_body] [f]" using sample_body_ok by simp
  moreover have "encode_rec (Clear 9 1) = Inr (encode_clear 9 1)" "rec_ok (Clear 9 1)" "3 < length (encode_clear 9 1)"
    by (simp_all add: encode_clear_def)
  moreover have "sample_dir (lit ''c.wal.8'') = Some (segment 8 0 f @ take 3 (encode_clear 9 1))"
    using f by (simp add: sample_dir_def)
  ultimately show ?thesis using f unfolding torn_segment_def prod.case
    by (intro exI [of _ 0] exI [of _ "[f]"] exI [of _ "Clear 9 1"] exI [of _ "encode_clear 9 1"] exI [of _ 3])
      (simp del: lit_Cons lit_Nil)
qed

lemma sample_files:
  "\<exists>raw. manifest_encode sample_manifest = Inr raw \<and> sample_dir (lit ''c'') = Some raw"
  "sample_dir (m_snap_path sample_manifest) = Some (fst (snap_finish (snap_create 7 0)))"
  "zip (m_wal_paths sample_manifest) (m_wal_base_seq sample_manifest) = [] @ [(lit ''c.wal.8'', 8)]"
  using sample_manifest_encode by (auto simp: sample_dir_def) (simp_all add: sample_manifest_def)

lemma sample_recovered:
  "\<exists>plan. recover_v2 sample_dir (lit ''c'') 0 (Fin 60) 1000 True
       = Inr (Some (plan, sample_dir(lit ''c.wal.8'' \<mapsto> segment 8 0 (projr (encode_put 8 sample_body)))))
     \<and> distinct (map fst (p_entries plan))
     \<and> map_of (p_entries plan) = live_entry 1000 (max (safe_float (Fin 60) 0) 0)
         (crash_state (m_snapshot_seq sample_manifest) [] (concat [] @ [Put 8 sample_body]))"
proof -
  obtain raw where "manifest_encode sample_manifest = Inr raw" "sample_dir (lit ''c'') = Some raw"
    using sample_files(1) by blast
  from recover_writers [OF this(1) sample_manifest_ok sample_manifest_utf8 this(2) sample_snapshot sample_files(2,3)
      list_all2_Nil [THEN iffD2] sample_torn] show ?thesis by (simp add: live_def sample_manifest_def)
qed

subsection \<open>What recovery promises\<close>



text \<open>
  C12: after a crash in the middle of an append, recovery returns exactly the entries of the abstract map
  that the snapshot's entries and the later log records, taken in order of their sequence numbers,
  describe, each under the time-to-live policy; and it cuts the torn record off its file and changes no
  other file.
\<close>

theorem recover_after_crash:
  assumes "manifest_encode m = Inr raw" "manifest_ok base m"
    and "\<forall>p\<in>set (m_snap_path m # m_wal_paths m). valid_utf8 p" "dir base = Some raw"
    and "snapshot_of m items data" "dir (m_snap_path m) = Some data"
    and "zip (m_wal_paths m) (m_wal_base_seq m) = segs @ [(wp, wbase)]"
    and "list_all2 (whole_segment dir) segs xss" "torn_segment dir (wp, wbase) xs whole"
    and "distinct (map wal_rec_seq (live (m_snapshot_seq m) (concat xss @ xs)))"
  shows "\<exists>plan. recover_v2 dir base snap_ms pt now True = Inr (Some (plan, dir(wp \<mapsto> whole)))
     \<and> distinct (map fst (p_entries plan))
     \<and> map_of (p_entries plan)
       = live_entry now (max (safe_float pt 0) 0) (crash_state (m_snapshot_seq m) items (concat xss @ xs))"
  using assms by (rule recover_writers)

theorem recover_after_crash_witness:
  "\<exists>plan dir' e. recover_v2 sample_dir (lit ''c'') 0 (Fin 60) 1000 True = Inr (Some (plan, dir'))
     \<and> map_of (p_entries plan) sample_key = Some e \<and> ce_expires_at e = 1060 \<and> ce_seq e = 8"
proof -
  obtain raw where raw: "manifest_encode sample_manifest = Inr raw" "sample_dir (lit ''c'') = Some raw"
    using sample_files(1) by blast
  obtain e where e: "to_entry sample_body = Inr e" using sample_to_entry by blast
  have k: "eb_key sample_body = sample_key" by (simp add: sample_body_def)
  have "live (m_snapshot_seq sample_manifest) [Put 8 sample_body] = [Put 8 sample_body]"
    by (simp add: live_def sample_manifest_def)
  then have "live_entry 1000 (max (safe_float (Fin 60) 0) 0)
      (crash_state (m_snapshot_seq sample_manifest) [] (concat [] @ [Put 8 sample_body])) sample_key
      = Some (e\<lparr>ce_seq := 8, ce_expires_at := 1060, ce_ttl := 60\<rparr>)"
    by (simp add: crash_state_def abs_put_def e k live_entry_def restore_entry_def safe_float_def)
  moreover have "distinct (map wal_rec_seq (live (m_snapshot_seq sample_manifest) (concat [] @ [Put 8 sample_body])))"
    by (simp add: live_def)
  note recover_after_crash [OF raw(1) sample_manifest_ok sample_manifest_utf8 raw(2) sample_snapshot sample_files(2,3)
      list_all2_Nil [THEN iffD2] sample_torn this, where pt = "Fin 60" and now = 1000 and snap_ms = 0]
  ultimately show ?thesis by fastforce
qed

end
