(* ===== verification/Rules.thy ===== *)
theory Rules
  imports Names Ip_Text Cache_Entry "HOL-Library.AList"
begin

text \<open>
  \<open>ebpdns-rules/src/rule.rs\<close>, \<open>wildcard.rs\<close>, \<open>index.rs\<close> and \<open>load.rs\<close>: the rules, the translation of
  wildcard patterns to regular expressions, the index and the reading of rule files.

  The crate \<open>regex\<close> is the parameter \<open>regex_lib\<close>: compiling a pattern, which may fail, and matching.
  A JSON object is its list of members; the tables of the index are maps.  Log lines are left out.
\<close>

datatype action = Allow | Block | Group | ForceIp

definition action_parse :: "str \<Rightarrow> action" where
  "action_parse s =
     (if s = lit ''allow'' then Allow else if s = lit ''block'' then Block
      else if s = lit ''group'' then Group else if s = lit ''forceIp'' then ForceIp else Block)"

fun action_str :: "action \<Rightarrow> str" where
  "action_str Allow = lit ''allow''"
| "action_str Block = lit ''block''"
| "action_str Group = lit ''group''"
| "action_str ForceIp = lit ''forceIp''"

definition is_allow :: "action \<Rightarrow> bool" where
  "is_allow a \<longleftrightarrow> a = Allow"

datatype rule_source = LocalRule | SubRule

datatype ip_addr = V4 ipv4 | V6 ipv6

definition ip_addr_parse :: "str \<Rightarrow> ip_addr option" where
  "ip_addr_parse s = (case ip4_parse s of Some a \<Rightarrow> Some (V4 a) | None \<Rightarrow> map_option V6 (ip6_parse s))"

record rule =
  ru_id :: "str option"
  ru_match :: str
  ru_action :: action
  ru_group :: "str option"
  ru_ip :: "ip_addr option"
  ru_enabled :: bool
  ru_comment :: "str option"
  ru_source :: rule_source

subsection \<open>Rules from JSON\<close>

type_synonym json_map = "(str \<times> json) list"

definition str_member :: "json_map \<Rightarrow> str \<Rightarrow> str option" where
  "str_member m k = Option.bind (map_of m k) json_as_str"

text \<open>A string member that is not empty.\<close>

definition text_member :: "json_map \<Rightarrow> str \<Rightarrow> str option" where
  "text_member m k = (case str_member m k of Some s \<Rightarrow> if s = [] then None else Some s | None \<Rightarrow> None)"

definition normalize_match :: "json_map \<Rightarrow> json_map" where
  "normalize_match m =
     (if text_member m (lit ''match'') \<noteq> None then m
      else
        let migrated = (case text_member m (lit ''match_raw'') of
                          Some s \<Rightarrow> Some s | None \<Rightarrow> text_member m (lit ''pattern''));
            m = (case migrated of Some s \<Rightarrow> AList.update (lit ''match'') (JStr s) m | None \<Rightarrow> m)
        in AList.delete (lit ''pattern'') m)"

definition normalize_value :: "json_map \<Rightarrow> json_map" where
  "normalize_value m =
     (case map_of m (lit ''value'') of
        None \<Rightarrow> m
      | Some v \<Rightarrow>
          let act = (case str_member m (lit ''action'') of Some s \<Rightarrow> s | None \<Rightarrow> []) in
          if act = lit ''group'' then
            (if text_member m (lit ''group'') \<noteq> None then m
             else let m = AList.delete (lit ''value'') m in
               if json_as_str v \<noteq> None then AList.update (lit ''group'') v m else m)
          else if map_of m (lit ''ip'') \<noteq> None then m
          else AList.update (lit ''ip'') v (AList.delete (lit ''value'') m))"

definition normalize_rule :: "json_map \<Rightarrow> json_map" where
  "normalize_rule m = normalize_value (normalize_match m)"

definition rule_from_json :: "json_map \<Rightarrow> rule_source \<Rightarrow> rule option" where
  "rule_from_json map0 src =
     (let map = normalize_rule map0;
          m_raw = (case str_member map (lit ''match'') of Some s \<Rightarrow> s | None \<Rightarrow> []);
          m = ascii_lower (trim_end_dots (trim m_raw)) in
      if m = [] then None
      else
        let action = action_parse (case str_member map (lit ''action'') of Some s \<Rightarrow> s | None \<Rightarrow> lit ''block'');
            group = text_member map (lit ''group'');
            ip = Option.bind (str_member map (lit ''ip'')) (\<lambda>s. ip_addr_parse (trim s)) in
        if action = ForceIp \<and> ip = None then None
        else Some
          \<lparr>ru_id = text_member map (lit ''id''), ru_match = m, ru_action = action, ru_group = group, ru_ip = ip,
           ru_enabled = (case map_of map (lit ''enabled'') of Some (JBool b) \<Rightarrow> b | _ \<Rightarrow> True),
           ru_comment = text_member map (lit ''comment''), ru_source = src\<rparr>)"

text \<open>The key of a rule's action in the counters.\<close>

definition action_key :: "rule \<Rightarrow> str" where
  "action_key r =
     (case ru_action r of
        Allow \<Rightarrow> lit ''allow''
      | Block \<Rightarrow> lit ''block''
      | ForceIp \<Rightarrow> lit ''forceIp''
      | Group \<Rightarrow> (if ru_group r = Some (lit ''domestic'') then lit ''domestic'' else lit ''global''))"

subsection \<open>Wildcards\<close>

definition needs_escape :: "u8 \<Rightarrow> bool" where
  "needs_escape c \<longleftrightarrow> c \<in> set (lit ''.^$+?()[]{}|'') \<or> c = 92"

definition wildcard_char :: "u8 \<Rightarrow> str" where
  "wildcard_char c = (if c = 42 then lit ''[^.]*'' else if needs_escape c then [92, c] else [c])"

definition wildcard_to_regex :: "str \<Rightarrow> str" where
  "wildcard_to_regex m =
     (if m \<noteq> [] \<and> hd m = 42 then
        (if m = [42] then lit ''^.*$''
         else let i = (if length m > 1 \<and> m ! 1 = 46 then 2 else 1) in
           lit ''^(?:.*'' @ [92] @ lit ''.)?'' @ concat (map wildcard_char (drop i m)) @ lit ''$'')
      else lit ''^'' @ concat (map wildcard_char m) @ lit ''$'')"

text \<open>The last two labels of a pattern, without the stars and dots it begins with.\<close>

definition trim_stars :: "str \<Rightarrow> str" where
  "trim_stars m = dropWhile (\<lambda>b. b = 42 \<or> b = 46) m"

definition group_suffix :: "str \<Rightarrow> str" where
  "group_suffix m =
     (let parts = split_byte 46 (trim_stars m) in
      if length parts \<ge> 2 then
        let s = intercalate [46] (drop (length parts - 2) parts) in if 42 \<in> set s then [] else s
      else [])"

text \<open>The core of \<open>*.core\<close>, when it has no star.\<close>

definition star_core :: "str \<Rightarrow> str option" where
  "star_core m = (case strip_prefix (lit ''*.'') m of
     Some rest \<Rightarrow> if 42 \<in> set rest then None else Some rest | None \<Rightarrow> None)"

definition match_kind :: "str \<Rightarrow> str" where
  "match_kind m =
     (if strip_prefix (lit ''re:'') m \<noteq> None then lit ''regex''
      else if star_core m \<noteq> None then lit ''wild_suffix''
      else if 42 \<in> set m then
        (let parts = split_byte 46 (trim_stars m);
             suffix_ok = (if length parts \<ge> 2
               then 42 \<notin> set (intercalate [46] (drop (length parts - 2) parts)) else False)
         in if suffix_ok then lit ''wild_infix'' else lit ''regex'')
      else lit ''exact'')"

subsection \<open>The index\<close>

text \<open>The crate \<open>regex\<close>: \<open>Regex::new\<close> and \<open>is_match\<close>.\<close>

record 're regex_lib =
  re_new :: "str \<Rightarrow> 're option"
  re_match :: "'re \<Rightarrow> str \<Rightarrow> bool"

record 're rule_index =
  ix_exact :: "str \<rightharpoonup> rule"
  ix_wild :: "str \<rightharpoonup> rule"
  ix_allow_exact :: "str \<rightharpoonup> rule"
  ix_allow_wild :: "str \<rightharpoonup> rule"
  ix_suffix_wild :: "str \<rightharpoonup> ('re \<times> rule) list"
  ix_regex :: "('re \<times> rule) list"
  ix_has_group :: bool
  ix_rule_count :: nat

record build_stats =
  bs_indexed :: nat
  bs_rejected :: nat

definition MATCH_MAX_BYTES :: nat where "MATCH_MAX_BYTES = 4096"

definition has_control_char :: "str \<Rightarrow> bool" where
  "has_control_char s \<longleftrightarrow> list_ex (\<lambda>b. b < 32 \<or> b = 127) s"

text \<open>\<open>entry(k).or_insert(r)\<close>: the first rule of a key stays.\<close>

definition or_insert :: "str \<Rightarrow> rule \<Rightarrow> (str \<rightharpoonup> rule) \<Rightarrow> (str \<rightharpoonup> rule)" where
  "or_insert k r t = (case t k of Some _ \<Rightarrow> t | None \<Rightarrow> t(k \<mapsto> r))"

definition trim_dots :: "str \<Rightarrow> str" where
  "trim_dots s = rev (dropWhile (\<lambda>b. b = 46) (rev (dropWhile (\<lambda>b. b = 46) s)))"

definition index_rule ::
  "'re regex_lib \<Rightarrow> rule \<Rightarrow> 're rule_index \<times> build_stats \<Rightarrow> 're rule_index \<times> build_stats" where
  "index_rule R r = (\<lambda>(ix, st).
     let ix = (if ru_action r = Group then ix\<lparr>ix_has_group := True\<rparr> else ix);
         m = ru_match r;
         indexed = st\<lparr>bs_indexed := bs_indexed st + 1\<rparr>;
         rejected = st\<lparr>bs_rejected := bs_rejected st + 1\<rparr> in
     case strip_prefix (lit ''re:'') m of
       Some pat \<Rightarrow>
         (if trim pat = [] \<or> has_control_char m \<or> length m > MATCH_MAX_BYTES then (ix, rejected)
          else case re_new R pat of
                 Some c \<Rightarrow> (ix\<lparr>ix_regex := ix_regex ix @ [(c, r)]\<rparr>, indexed)
               | None \<Rightarrow> (ix, rejected))
     | None \<Rightarrow>
     (case star_core m of
       Some core \<Rightarrow>
         (let core = trim_dots core in
          if core = [] then (ix, rejected)
          else if is_allow (ru_action r)
          then (ix\<lparr>ix_allow_wild := or_insert core r (ix_allow_wild ix)\<rparr>, indexed)
          else (ix\<lparr>ix_wild := or_insert core r (ix_wild ix)\<rparr>, indexed))
     | None \<Rightarrow>
         if 42 \<in> set m then
           (let suffix = group_suffix m in
            case re_new R (wildcard_to_regex m) of
              Some c \<Rightarrow>
                if suffix \<noteq> [] then
                  (ix\<lparr>ix_suffix_wild := (ix_suffix_wild ix)(suffix \<mapsto>
                       (case ix_suffix_wild ix suffix of Some l \<Rightarrow> l | None \<Rightarrow> []) @ [(c, r)])\<rparr>, indexed)
                else (ix\<lparr>ix_regex := ix_regex ix @ [(c, r)]\<rparr>, indexed)
            | None \<Rightarrow> (ix, rejected))
         else if is_allow (ru_action r)
         then (ix\<lparr>ix_allow_exact := or_insert m r (ix_allow_exact ix)\<rparr>, indexed)
         else (ix\<lparr>ix_exact := or_insert m r (ix_exact ix)\<rparr>, indexed)))"

definition empty_index :: "'re rule_index" where
  "empty_index = \<lparr>ix_exact = Map.empty, ix_wild = Map.empty, ix_allow_exact = Map.empty, ix_allow_wild = Map.empty,
     ix_suffix_wild = Map.empty, ix_regex = [], ix_has_group = False, ix_rule_count = 0\<rparr>"

definition index_build :: "'re regex_lib \<Rightarrow> rule list \<Rightarrow> 're rule_index \<times> build_stats" where
  "index_build R rules =
     (case fold (index_rule R) rules (empty_index, \<lparr>bs_indexed = 0, bs_rejected = 0\<rparr>) of
        (ix, st) \<Rightarrow> (ix\<lparr>ix_rule_count := bs_indexed st\<rparr>, st))"

definition has_no_regex_rules :: "'re rule_index \<Rightarrow> bool" where
  "has_no_regex_rules ix \<longleftrightarrow> ix_regex ix = [] \<and> ix_suffix_wild ix = Map.empty"

subsection \<open>Rule files\<close>

text \<open>The content of a file: \<open>None\<close> when it is missing, unreadable or not JSON.\<close>

definition load_local_rules :: "json option \<Rightarrow> rule list" where
  "load_local_rules data =
     (case data of
        None \<Rightarrow> []
      | Some d \<Rightarrow>
          let arr = (case json_as_array d of
                       Some a \<Rightarrow> a
                     | None \<Rightarrow> (case Option.bind (json_get d (lit ''rules'')) json_as_array of Some a \<Rightarrow> a | None \<Rightarrow> []))
          in List.map_filter (\<lambda>item. case item of JObj m \<Rightarrow> rule_from_json m LocalRule | _ \<Rightarrow> None) arr)"

definition or_default :: "str option \<Rightarrow> str \<Rightarrow> str" where
  "or_default s d = (case s of Some s \<Rightarrow> if trim s = [] then d else s | None \<Rightarrow> d)"

definition sub_item :: "json_map \<Rightarrow> json \<Rightarrow> rule option" where
  "sub_item sub item =
     (let action_s = (case str_member sub (lit ''action'') of Some s \<Rightarrow> s | None \<Rightarrow> lit ''block'');
          action = action_parse action_s;
          group = or_default (str_member sub (lit ''group'')) (lit ''global'');
          ip = or_default (str_member sub (lit ''ip'')) (lit ''1.2.3.4'');
          m = trim (case Option.bind (json_get item (lit ''match'')) json_as_str of Some s \<Rightarrow> s | None \<Rightarrow> []) in
      if m = [] then None
      else rule_from_json
        ([(lit ''match'', JStr m), (lit ''action'', JStr action_s)]
         @ (if action = Group then [(lit ''group'', JStr group)]
            else if action = ForceIp then [(lit ''ip'', JStr ip)] else [])) SubRule)"

definition sub_rules :: "json \<Rightarrow> rule list" where
  "sub_rules sub =
     (case sub of
        JObj m \<Rightarrow> (case Option.bind (map_of m (lit ''rules'')) json_as_array of
                     Some items \<Rightarrow> List.map_filter (sub_item m) items
                   | None \<Rightarrow> [])
      | _ \<Rightarrow> [])"

text \<open>\<open>None\<close> is the error \<open>InvalidStructure\<close>.\<close>

definition load_sub_rules :: "json option \<Rightarrow> rule list option" where
  "load_sub_rules data =
     (case data of
        None \<Rightarrow> Some []
      | Some d \<Rightarrow>
          (case Option.bind (json_get d (lit ''subscriptions'')) json_as_array of
             None \<Rightarrow> None
           | Some subs \<Rightarrow> Some (concat (map sub_rules subs))))"

end
