(* ===== verification/Rule_Engine.thy ===== *)
theory Rule_Engine
  imports Rules
begin

text \<open>
  \<open>ebpdns-rules/src/engine.rs\<close>: publishing an index, matching a name and the sharded cache of verdicts.

  The crate \<open>lru\<close> is the parameter \<open>lru_lib\<close>: the operations of an unbounded \<open>LruCache\<close> that the engine
  calls, over names and optional rules.  Their documented behaviour is the predicate \<open>lru_spec\<close>: a cache is a
  list of pairs with distinct names, the most recently used first.  \<open>H\<close> is the hash that picks a shard.
  Instants and the grace period are reals, in seconds.
\<close>

record 'c lru_lib =
  lru_new :: 'c
  lru_get_promote :: "str \<Rightarrow> 'c \<Rightarrow> rule option option \<times> 'c"
  lru_contains :: "str \<Rightarrow> 'c \<Rightarrow> bool"
  lru_set :: "str \<Rightarrow> rule option \<Rightarrow> 'c \<Rightarrow> 'c"
  lru_pop :: "'c \<Rightarrow> 'c"
  lru_count :: "'c \<Rightarrow> nat"
  lru_wipe :: "'c \<Rightarrow> 'c"

definition without :: "str \<Rightarrow> (str \<times> rule option) list \<Rightarrow> (str \<times> rule option) list" where
  "without k l = filter (\<lambda>(n, _). n \<noteq> k) l"

text \<open>What the documentation of \<open>lru\<close> says of these operations.\<close>

definition lru_spec :: "'c lru_lib \<Rightarrow> ('c \<Rightarrow> (str \<times> rule option) list) \<Rightarrow> bool" where
  "lru_spec L entries \<longleftrightarrow>
     entries (lru_new L) = []
     \<and> (\<forall>k c. fst (lru_get_promote L k c) = map_of (entries c) k
          \<and> entries (snd (lru_get_promote L k c))
            = (case map_of (entries c) k of Some v \<Rightarrow> (k, v) # without k (entries c) | None \<Rightarrow> entries c))
     \<and> (\<forall>k c. lru_contains L k c \<longleftrightarrow> map_of (entries c) k \<noteq> None)
     \<and> (\<forall>k v c. entries (lru_set L k v c) = (k, v) # without k (entries c))
     \<and> (\<forall>c. entries (lru_pop L c) = butlast (entries c))
     \<and> (\<forall>c. lru_count L c = length (entries c))
     \<and> (\<forall>c. entries (lru_wipe L c) = [])"

subsection \<open>The cache of verdicts\<close>

definition RULE_CACHE_MAX :: nat where "RULE_CACHE_MAX = 8192"
definition RULE_CACHE_SHARDS :: nat where "RULE_CACHE_SHARDS = 64"
definition RULE_GRACE_SEC :: real where "RULE_GRACE_SEC = 3"

record rule_cache_stats =
  rc_hits :: u64
  rc_misses :: u64
  rc_locks :: u64
  rc_gen_rejected :: u64
  rc_half_evictions :: u64

record 'c cache_shard =
  cs_map :: 'c
  cs_cap :: nat
  cs_stats :: rule_cache_stats

definition no_stats :: rule_cache_stats where
  "no_stats = \<lparr>rc_hits = 0, rc_misses = 0, rc_locks = 0, rc_gen_rejected = 0, rc_half_evictions = 0\<rparr>"

definition cache_shard_new :: "'c lru_lib \<Rightarrow> nat \<Rightarrow> 'c cache_shard" where
  "cache_shard_new L cap = \<lparr>cs_map = lru_new L, cs_cap = max cap 1, cs_stats = no_stats\<rparr>"

definition add_stats :: "rule_cache_stats \<Rightarrow> rule_cache_stats \<Rightarrow> rule_cache_stats" where
  "add_stats s out =
     \<lparr>rc_hits = rc_hits out + rc_hits s, rc_misses = rc_misses out + rc_misses s,
      rc_locks = rc_locks out + rc_locks s, rc_gen_rejected = rc_gen_rejected out + rc_gen_rejected s,
      rc_half_evictions = rc_half_evictions out + rc_half_evictions s\<rparr>"

text \<open>\<open>next_power_of_two\<close>.\<close>

function pow2_from :: "nat \<Rightarrow> nat \<Rightarrow> nat" where
  "pow2_from p n = (if p = 0 \<or> n \<le> p then p else pow2_from (2 * p) n)"
  by pat_completeness auto
termination by (relation "measure (\<lambda>(p, n). n - p)") auto

declare pow2_from.simps [simp del]

definition next_power_of_two :: "nat \<Rightarrow> nat" where
  "next_power_of_two n = pow2_from 1 n"

definition shard_cap :: "nat \<Rightarrow> nat \<Rightarrow> nat \<Rightarrow> nat" where
  "shard_cap total_cap n i = total_cap div n + (if i < total_cap mod n then 1 else 0)"

definition sharded_cache_new :: "'c lru_lib \<Rightarrow> nat \<Rightarrow> nat \<Rightarrow> 'c cache_shard list" where
  "sharded_cache_new L total_cap shards =
     (let n = max (next_power_of_two shards) 1 in map (\<lambda>i. cache_shard_new L (shard_cap total_cap n i)) [0..<n])"

text \<open>\<open>mask\<close> is one less than the number of shards.\<close>

definition cache_shard_index :: "(str \<Rightarrow> u64) \<Rightarrow> 'c cache_shard list \<Rightarrow> str \<Rightarrow> nat" where
  "cache_shard_index H shards n = unat (H n AND word_of_nat (length shards - 1))"

definition shards_clear :: "'c lru_lib \<Rightarrow> 'c cache_shard list \<Rightarrow> 'c cache_shard list" where
  "shards_clear L = map (\<lambda>s. s\<lparr>cs_map := lru_wipe L (cs_map s)\<rparr>)"

definition shards_len :: "'c lru_lib \<Rightarrow> 'c cache_shard list \<Rightarrow> nat" where
  "shards_len L shards = sum_list (map (\<lambda>s. lru_count L (cs_map s)) shards)"

definition shards_stats :: "'c cache_shard list \<Rightarrow> rule_cache_stats" where
  "shards_stats shards = fold (\<lambda>s. add_stats (cs_stats s)) shards no_stats"

subsection \<open>The engine\<close>

record ('re, 'c) rule_engine =
  en_index :: "'re rule_index"
  en_gen :: u64
  en_cache :: "'c cache_shard list"
  en_cache_max :: nat
  en_rebuild_ts :: real
  en_grace :: real
  en_has_group :: bool

datatype match_outcome = Hit rule | NoRule | Uncertain

record 're built_index =
  bi_index :: "'re rule_index"
  bi_stats :: build_stats
  bi_has_group :: bool
  bi_old_has_group :: bool

record build_report =
  br_gen :: u64
  br_has_group :: bool
  br_group_flip :: bool
  br_stats :: build_stats

definition engine_with_options :: "'re regex_lib \<Rightarrow> 'c lru_lib \<Rightarrow> nat \<Rightarrow> real \<Rightarrow> real \<Rightarrow> ('re, 'c) rule_engine" where
  "engine_with_options R L cache_max grace now =
     \<lparr>en_index = fst (index_build R []), en_gen = 0, en_cache = sharded_cache_new L cache_max RULE_CACHE_SHARDS,
      en_cache_max = cache_max, en_rebuild_ts = now, en_grace = grace, en_has_group = False\<rparr>"

definition engine_new :: "'re regex_lib \<Rightarrow> 'c lru_lib \<Rightarrow> real \<Rightarrow> ('re, 'c) rule_engine" where
  "engine_new R L now = engine_with_options R L RULE_CACHE_MAX RULE_GRACE_SEC now"

definition build_candidate :: "'re regex_lib \<Rightarrow> rule list \<Rightarrow> ('re, 'c) rule_engine \<Rightarrow> 're built_index" where
  "build_candidate R rules e =
     (case index_build R rules of (index, stats) \<Rightarrow>
        \<lparr>bi_index = index, bi_stats = stats, bi_has_group = ix_has_group index, bi_old_has_group = en_has_group e\<rparr>)"

text \<open>The steps of a publication: the index, the generation, the cache, then the time and the flag.\<close>

definition publish_index :: "'re rule_index \<Rightarrow> ('re, 'c) rule_engine \<Rightarrow> ('re, 'c) rule_engine" where
  "publish_index index e = e\<lparr>en_index := index\<rparr>"

definition bump_gen :: "('re, 'c) rule_engine \<Rightarrow> ('re, 'c) rule_engine" where
  "bump_gen e = e\<lparr>en_gen := en_gen e + 1\<rparr>"

definition clear_shard :: "'c lru_lib \<Rightarrow> nat \<Rightarrow> ('re, 'c) rule_engine \<Rightarrow> ('re, 'c) rule_engine" where
  "clear_shard L i e =
     e\<lparr>en_cache := (en_cache e)[i := (en_cache e ! i)\<lparr>cs_map := lru_wipe L (cs_map (en_cache e ! i))\<rparr>]\<rparr>"

definition publish_candidate ::
  "'c lru_lib \<Rightarrow> real \<Rightarrow> 're built_index \<Rightarrow> ('re, 'c) rule_engine \<Rightarrow> build_report \<times> ('re, 'c) rule_engine" where
  "publish_candidate L now cand e =
     (let e = publish_index (bi_index cand) e;
          e = bump_gen e;
          e = e\<lparr>en_cache := shards_clear L (en_cache e)\<rparr>;
          e = e\<lparr>en_rebuild_ts := now\<rparr>;
          group_flip = (bi_old_has_group cand \<noteq> bi_has_group cand);
          e = e\<lparr>en_has_group := bi_has_group cand\<rparr> in
      (\<lparr>br_gen = en_gen e, br_has_group = bi_has_group cand, br_group_flip = group_flip, br_stats = bi_stats cand\<rparr>, e))"

definition engine_rebuild ::
  "'re regex_lib \<Rightarrow> 'c lru_lib \<Rightarrow> real \<Rightarrow> rule list \<Rightarrow> ('re, 'c) rule_engine \<Rightarrow> build_report \<times> ('re, 'c) rule_engine" where
  "engine_rebuild R L now rules e = publish_candidate L now (build_candidate R rules e) e"

definition in_grace_at :: "real \<Rightarrow> ('re, 'c) rule_engine \<Rightarrow> bool" where
  "in_grace_at now e \<longleftrightarrow> max (now - en_rebuild_ts e) 0 < en_grace e"

text \<open>One access to the shard of a name, under its lock.\<close>

definition upd_shard ::
  "(str \<Rightarrow> u64) \<Rightarrow> str \<Rightarrow> ('c cache_shard \<Rightarrow> 'c cache_shard) \<Rightarrow> ('re, 'c) rule_engine \<Rightarrow> ('re, 'c) rule_engine" where
  "upd_shard H n f e = (let i = cache_shard_index H (en_cache e) n in e\<lparr>en_cache := (en_cache e)[i := f (en_cache e ! i)]\<rparr>)"

definition shard_get :: "'c lru_lib \<Rightarrow> str \<Rightarrow> 'c cache_shard \<Rightarrow> rule option option \<times> 'c cache_shard" where
  "shard_get L n s =
     (let st = (cs_stats s)\<lparr>rc_locks := rc_locks (cs_stats s) + 1\<rparr>;
          (v, m) = lru_get_promote L n (cs_map s) in
      (v, s\<lparr>cs_map := m, cs_stats := (case v of Some _ \<Rightarrow> st\<lparr>rc_hits := rc_hits st + 1\<rparr>
                                          | None \<Rightarrow> st\<lparr>rc_misses := rc_misses st + 1\<rparr>)\<rparr>))"

definition cache_get ::
  "(str \<Rightarrow> u64) \<Rightarrow> 'c lru_lib \<Rightarrow> str \<Rightarrow> ('re, 'c) rule_engine \<Rightarrow> rule option option \<times> ('re, 'c) rule_engine" where
  "cache_get H L n e =
     (fst (shard_get L n (en_cache e ! cache_shard_index H (en_cache e) n)),
      upd_shard H n (\<lambda>s. snd (shard_get L n s)) e)"

text \<open>\<open>current\<close> is the generation read under the lock.\<close>

definition verdict_put :: "'c lru_lib \<Rightarrow> u64 \<Rightarrow> str \<Rightarrow> rule option \<Rightarrow> u64 \<Rightarrow> 'c cache_shard \<Rightarrow> 'c cache_shard" where
  "verdict_put L current n value gen s =
     (let st = (cs_stats s)\<lparr>rc_locks := rc_locks (cs_stats s) + 1\<rparr> in
      if gen \<noteq> current then s\<lparr>cs_stats := st\<lparr>rc_gen_rejected := rc_gen_rejected st + 1\<rparr>\<rparr>
      else
        let m = cs_map s; replacing = lru_contains L n m in
        if \<not> replacing \<and> lru_count L m \<ge> cs_cap s then
          let m = (lru_pop L ^^ (lru_count L m div 2)) m in
          s\<lparr>cs_map := lru_set L n value m, cs_stats := st\<lparr>rc_half_evictions := rc_half_evictions st + 1\<rparr>\<rparr>
        else s\<lparr>cs_map := lru_set L n value m, cs_stats := st\<rparr>)"

definition cache_put ::
  "(str \<Rightarrow> u64) \<Rightarrow> 'c lru_lib \<Rightarrow> str \<Rightarrow> rule option \<Rightarrow> u64 \<Rightarrow> ('re, 'c) rule_engine \<Rightarrow> ('re, 'c) rule_engine" where
  "cache_put H L n value gen e = upd_shard H n (verdict_put L (en_gen e) n value gen) e"

subsection \<open>Matching\<close>

lemma split_once_shorter: "split_once c s = Some (a, b) \<Longrightarrow> length b < length s"
proof -
  assume "split_once c s = Some (a, b)"
  then have "length b = length (dropWhile (\<lambda>x. x \<noteq> c) s) - 1" "length s > 0"
    by (auto simp: split_once_def split: if_splits)
  then show ?thesis using length_dropWhile_le [of "\<lambda>x. x \<noteq> c" s] by linarith
qed

text \<open>The suffixes of a name at its dots, the longest first.\<close>

function strip_lookup :: "str \<Rightarrow> (str \<rightharpoonup> rule) \<Rightarrow> rule option" where
  "strip_lookup core table =
     (case table core of
        Some r \<Rightarrow> Some r
      | None \<Rightarrow> (case split_once 46 core of Some (_, rest) \<Rightarrow> strip_lookup rest table | None \<Rightarrow> None))"
  by pat_completeness auto
termination by (relation "measure (\<lambda>(c, _). length c)") (auto dest: split_once_shorter)

declare strip_lookup.simps [simp del]

text \<open>For each label: the name from it on, the label, the name behind it.\<close>

function label_parts :: "str \<Rightarrow> (str \<times> str \<times> str) list" where
  "label_parts n =
     (case split_once 46 n of
        None \<Rightarrow> [(n, n, [])]
      | Some (l, rest) \<Rightarrow> (n, l, rest) # label_parts rest)"
  by pat_completeness auto
termination by (relation "measure length") (auto dest: split_once_shorter)

declare label_parts.simps [simp del]

definition MAX_LABELS :: nat where "MAX_LABELS = 127"
definition KNOWN_SUFFIX_MAX :: nat where "KNOWN_SUFFIX_MAX = 64"
definition TAIL_CUTS :: "nat list" where "TAIL_CUTS = [4, 3, 2, 1]"

definition first_match :: "'re regex_lib \<Rightarrow> str \<Rightarrow> ('re \<times> rule) list \<Rightarrow> rule option" where
  "first_match R n rules = map_option snd (find (\<lambda>(c, _). re_match R c n) rules)"

definition suffix_group_lookup :: "'re regex_lib \<Rightarrow> 're rule_index \<Rightarrow> str \<Rightarrow> str \<Rightarrow> rule option" where
  "suffix_group_lookup R ix n cand = Option.bind (ix_suffix_wild ix cand) (first_match R n)"

definition suffix_group_hit ::
  "'re regex_lib \<Rightarrow> 're rule_index \<Rightarrow> str \<Rightarrow> str \<Rightarrow> str list \<Rightarrow> rule option \<times> str list" where
  "suffix_group_hit R ix n cand known =
     (if cand = [] \<or> cand \<in> set known then (None, known)
      else case ix_suffix_wild ix cand of
             None \<Rightarrow> (None, known)
           | Some rules \<Rightarrow>
               (first_match R n rules, if length known < KNOWN_SUFFIX_MAX then known @ [cand] else known))"

fun boundary_phase ::
  "'re regex_lib \<Rightarrow> 're rule_index \<Rightarrow> str \<Rightarrow> (str \<times> str \<times> str) list \<Rightarrow> str list \<Rightarrow> rule option \<times> str list" where
  "boundary_phase R ix n [] known = (None, known)"
| "boundary_phase R ix n ((cand, _, _) # parts) known =
     (case suffix_group_hit R ix n cand known of
        (Some r, known) \<Rightarrow> (Some r, known)
      | (None, known) \<Rightarrow> boundary_phase R ix n parts known)"

fun tail_cuts ::
  "'re regex_lib \<Rightarrow> 're rule_index \<Rightarrow> str \<Rightarrow> str \<Rightarrow> str \<Rightarrow> nat list \<Rightarrow> str list \<Rightarrow> rule option \<times> str list" where
  "tail_cuts R ix n lab tail [] known = (None, known)"
| "tail_cuts R ix n lab tail (k # cuts) known =
     (let cs = chars lab in
      if length cs \<le> k then tail_cuts R ix n lab tail cuts known
      else
        let pre = concat (drop (length cs - k) cs) in
        if tail = [] then
          (case suffix_group_hit R ix n pre known of
             (Some r, known) \<Rightarrow> (Some r, known)
           | (None, known) \<Rightarrow> tail_cuts R ix n lab tail cuts known)
        else
          (case suffix_group_lookup R ix n (pre @ [46] @ tail) of
             Some r \<Rightarrow> (Some r, known)
           | None \<Rightarrow> tail_cuts R ix n lab tail cuts known))"

fun tail_phase ::
  "'re regex_lib \<Rightarrow> 're rule_index \<Rightarrow> str \<Rightarrow> (str \<times> str \<times> str) list \<Rightarrow> str list \<Rightarrow> rule option" where
  "tail_phase R ix n [] known = None"
| "tail_phase R ix n ((_, lab, tail) # parts) known =
     (case tail_cuts R ix n lab tail TAIL_CUTS known of
        (Some r, known) \<Rightarrow> Some r
      | (None, known) \<Rightarrow> tail_phase R ix n parts known)"

definition match_suffix_wild :: "'re regex_lib \<Rightarrow> 're rule_index \<Rightarrow> str \<Rightarrow> rule option" where
  "match_suffix_wild R ix n =
     (let parts = label_parts n in
      if length parts > MAX_LABELS then None
      else case boundary_phase R ix n parts [] of
             (Some r, _) \<Rightarrow> Some r
           | (None, known) \<Rightarrow> tail_phase R ix n parts known)"

text \<open>The verdict of an index on a name: \<open>None\<close> when \<open>fast\<close> stops in front of the patterns.\<close>

definition verdict :: "'re regex_lib \<Rightarrow> 're rule_index \<Rightarrow> str \<Rightarrow> bool \<Rightarrow> rule option option" where
  "verdict R ix n fast =
     (case ix_allow_exact ix n of Some r \<Rightarrow> Some (Some r) | None \<Rightarrow>
     (case strip_lookup n (ix_allow_wild ix) of Some r \<Rightarrow> Some (Some r) | None \<Rightarrow>
     (case ix_exact ix n of Some r \<Rightarrow> Some (Some r) | None \<Rightarrow>
     (case strip_lookup n (ix_wild ix) of Some r \<Rightarrow> Some (Some r) | None \<Rightarrow>
        if fast then (if has_no_regex_rules ix then Some None else None)
        else case match_suffix_wild R ix n of
               Some r \<Rightarrow> Some (Some r)
             | None \<Rightarrow> Some (first_match R n (ix_regex ix))))))"

definition outcome_of :: "rule option \<Rightarrow> match_outcome" where
  "outcome_of v = (case v of Some r \<Rightarrow> Hit r | None \<Rightarrow> NoRule)"

definition match_rule ::
  "unicode_lib \<Rightarrow> (str \<Rightarrow> u64) \<Rightarrow> 're regex_lib \<Rightarrow> 'c lru_lib \<Rightarrow> str \<Rightarrow> bool \<Rightarrow> ('re, 'c) rule_engine
     \<Rightarrow> match_outcome \<times> ('re, 'c) rule_engine" where
  "match_rule U H R L domain fast e =
     (let n = name_normalize U domain; gen = en_gen e; idx = en_index e in
      case cache_get H L n e of
        (Some v, e) \<Rightarrow> (outcome_of v, e)
      | (None, e) \<Rightarrow>
          (case verdict R idx n fast of
             None \<Rightarrow> (Uncertain, e)
           | Some v \<Rightarrow> (outcome_of v, cache_put H L n v gen e)))"

end
