(* ===== verification/Rule_Index.thy ===== *)
theory Rule_Index
  imports Rule_Engine
begin

text \<open>
  What an index is for: every rule has its place in one table, and looking a name up in the tables gives
  the rule that a scan of the list of rules would pick, in the order of the engine's priorities.
\<close>

subsection \<open>The place of a rule\<close>

datatype 're slot = ExactSlot bool str | WildSlot bool str | GroupSlot str 're | RegexSlot 're | NoSlot

definition slot_of :: "'re regex_lib \<Rightarrow> rule \<Rightarrow> 're slot" where
  "slot_of R r =
     (let m = ru_match r in
      case strip_prefix (lit ''re:'') m of
        Some pat \<Rightarrow>
          (if trim pat = [] \<or> has_control_char m \<or> length m > MATCH_MAX_BYTES then NoSlot
           else case re_new R pat of Some c \<Rightarrow> RegexSlot c | None \<Rightarrow> NoSlot)
      | None \<Rightarrow>
      (case star_core m of
        Some core \<Rightarrow> if trim_dots core = [] then NoSlot else WildSlot (is_allow (ru_action r)) (trim_dots core)
      | None \<Rightarrow>
          if 42 \<in> set m then
            (case re_new R (wildcard_to_regex m) of
               Some c \<Rightarrow> if group_suffix m \<noteq> [] then GroupSlot (group_suffix m) c else RegexSlot c
             | None \<Rightarrow> NoSlot)
          else ExactSlot (is_allow (ru_action r)) m))"

definition place_all :: "'re regex_lib \<Rightarrow> rule \<Rightarrow> 're rule_index \<Rightarrow> 're rule_index" where
  "place_all R r ix =
     (let ix = (if ru_action r = Group then ix\<lparr>ix_has_group := True\<rparr> else ix) in
      case slot_of R r of
        ExactSlot True k \<Rightarrow> ix\<lparr>ix_allow_exact := or_insert k r (ix_allow_exact ix)\<rparr>
      | ExactSlot False k \<Rightarrow> ix\<lparr>ix_exact := or_insert k r (ix_exact ix)\<rparr>
      | WildSlot True k \<Rightarrow> ix\<lparr>ix_allow_wild := or_insert k r (ix_allow_wild ix)\<rparr>
      | WildSlot False k \<Rightarrow> ix\<lparr>ix_wild := or_insert k r (ix_wild ix)\<rparr>
      | GroupSlot k c \<Rightarrow> ix\<lparr>ix_suffix_wild := (ix_suffix_wild ix)(k \<mapsto>
            (case ix_suffix_wild ix k of Some l \<Rightarrow> l | None \<Rightarrow> []) @ [(c, r)])\<rparr>
      | RegexSlot c \<Rightarrow> ix\<lparr>ix_regex := ix_regex ix @ [(c, r)]\<rparr>
      | NoSlot \<Rightarrow> ix)"

lemma index_rule_place:
  "index_rule R r (ix, st) = (place_all R r ix,
     if slot_of R r = NoSlot then st\<lparr>bs_rejected := bs_rejected st + 1\<rparr> else st\<lparr>bs_indexed := bs_indexed st + 1\<rparr>)"
  by (cases "ru_action r") (simp_all add: index_rule_def place_all_def slot_of_def Let_def is_allow_def split: option.split)

lemma fold_index:
  "fold (index_rule R) rules (ix, st) = (fold (place_all R) rules ix,
     st\<lparr>bs_indexed := bs_indexed st + length (filter (\<lambda>r. slot_of R r \<noteq> NoSlot) rules),
        bs_rejected := bs_rejected st + length (filter (\<lambda>r. slot_of R r = NoSlot) rules)\<rparr>)"
  by (induction rules arbitrary: ix st) (simp_all add: index_rule_place)

subsection \<open>The tables\<close>

text \<open>The members of a group, in the order of the rules.\<close>

definition members :: "'re regex_lib \<Rightarrow> str \<Rightarrow> rule list \<Rightarrow> ('re \<times> rule) list" where
  "members R k = List.map_filter (\<lambda>r. case slot_of R r of
     GroupSlot k' c \<Rightarrow> if k' = k then Some (c, r) else None | _ \<Rightarrow> None)"

definition patterns :: "'re regex_lib \<Rightarrow> rule list \<Rightarrow> ('re \<times> rule) list" where
  "patterns R = List.map_filter (\<lambda>r. case slot_of R r of RegexSlot c \<Rightarrow> Some (c, r) | _ \<Rightarrow> None)"

lemma or_insert_apply: "or_insert k r t k' = (case t k' of Some x \<Rightarrow> Some x | None \<Rightarrow> if k' = k then Some r else None)"
  by (auto simp: or_insert_def split: option.split)

definition or_find :: "rule option \<Rightarrow> (rule \<Rightarrow> bool) \<Rightarrow> rule list \<Rightarrow> rule option" where
  "or_find x P rules = (case x of Some r \<Rightarrow> Some r | None \<Rightarrow> find P rules)"

lemma fold_place:
  fixes R :: "'re regex_lib"
  defines "f \<equiv> fold (place_all R)"
  shows "ix_exact (f rules ix) k = or_find (ix_exact ix k) (\<lambda>r. slot_of R r = ExactSlot False k) rules"
    and "ix_allow_exact (f rules ix) k = or_find (ix_allow_exact ix k) (\<lambda>r. slot_of R r = ExactSlot True k) rules"
    and "ix_wild (f rules ix) k = or_find (ix_wild ix k) (\<lambda>r. slot_of R r = WildSlot False k) rules"
    and "ix_allow_wild (f rules ix) k = or_find (ix_allow_wild ix k) (\<lambda>r. slot_of R r = WildSlot True k) rules"
    and "ix_regex (f rules ix) = ix_regex ix @ patterns R rules"
    and "ix_has_group (f rules ix) \<longleftrightarrow> ix_has_group ix \<or> (\<exists>r\<in>set rules. ru_action r = Group)"
    and "ix_suffix_wild (f rules ix) k = (case ix_suffix_wild ix k of
            Some l \<Rightarrow> Some (l @ members R k rules)
          | None \<Rightarrow> if members R k rules = [] then None else Some (members R k rules))"
  unfolding f_def
  by (induction rules arbitrary: ix)
    (auto simp: or_find_def place_all_def Let_def or_insert_apply patterns_def members_def map_filter_simps
      split: slot.split option.split bool.split if_splits)

lemma index_tables:
  fixes R :: "'re regex_lib" and rules :: "rule list"
  defines "ix \<equiv> fst (index_build R rules)"
  shows "ix_exact ix k = find (\<lambda>r. slot_of R r = ExactSlot False k) rules"
    and "ix_allow_exact ix k = find (\<lambda>r. slot_of R r = ExactSlot True k) rules"
    and "ix_wild ix k = find (\<lambda>r. slot_of R r = WildSlot False k) rules"
    and "ix_allow_wild ix k = find (\<lambda>r. slot_of R r = WildSlot True k) rules"
    and "ix_regex ix = patterns R rules"
    and "ix_has_group ix \<longleftrightarrow> (\<exists>r\<in>set rules. ru_action r = Group)"
    and "ix_suffix_wild ix k = (if members R k rules = [] then None else Some (members R k rules))"
    and "ix_rule_count ix = length (filter (\<lambda>r. slot_of R r \<noteq> NoSlot) rules)"
  unfolding ix_def index_build_def fold_index
  by (simp_all add: fold_place empty_index_def or_find_def)

subsection \<open>A scan of the rules\<close>

fun first_some :: "'a option list \<Rightarrow> 'a option" where
  "first_some [] = None"
| "first_some (Some x # xs) = Some x"
| "first_some (None # xs) = first_some xs"

lemma first_some_append: "first_some (xs @ ys) = (case first_some xs of Some x \<Rightarrow> Some x | None \<Rightarrow> first_some ys)"
  by (induction xs rule: first_some.induct) simp_all

lemma first_some_None: "first_some xs = None \<longleftrightarrow> (\<forall>x\<in>set xs. x = None)"
  by (induction xs rule: first_some.induct) simp_all

lemma first_some_Cons: "first_some (x # xs) = (case x of Some y \<Rightarrow> Some y | None \<Rightarrow> first_some xs)"
  by (cases x) simp_all

text \<open>The suffixes of a name at its dots, and the keys under which a group of patterns may be found.\<close>

definition name_suffixes :: "str \<Rightarrow> str list" where
  "name_suffixes n = map fst (label_parts n)"

definition tail_cands :: "str \<Rightarrow> str \<Rightarrow> str list" where
  "tail_cands lab tail = map (\<lambda>k. concat (drop (length (chars lab) - k) (chars lab)) @ (if tail = [] then [] else 46 # tail))
     (filter (\<lambda>k. k < length (chars lab)) TAIL_CUTS)"

definition candidates :: "str \<Rightarrow> str list" where
  "candidates n = name_suffixes n @ concat (map (\<lambda>(_, lab, tail). tail_cands lab tail) (label_parts n))"

definition group_rule :: "'re regex_lib \<Rightarrow> str \<Rightarrow> str \<Rightarrow> rule \<Rightarrow> bool" where
  "group_rule R n s r = (case slot_of R r of GroupSlot k c \<Rightarrow> k = s \<and> re_match R c n | _ \<Rightarrow> False)"

definition pattern_rule :: "'re regex_lib \<Rightarrow> str \<Rightarrow> rule \<Rightarrow> bool" where
  "pattern_rule R n r = (case slot_of R r of RegexSlot c \<Rightarrow> re_match R c n | _ \<Rightarrow> False)"

text \<open>
  The rule that decides: an exact exception, the longest exception \<open>*.core\<close>, an exact rule, the longest
  rule \<open>*.core\<close>, the wildcards in the order of the keys they are found under, the patterns; among equals
  the first in the list.
\<close>

definition priority_scan :: "'re regex_lib \<Rightarrow> rule list \<Rightarrow> str \<Rightarrow> rule option" where
  "priority_scan R rules n = first_some
     (find (\<lambda>r. slot_of R r = ExactSlot True n) rules
      # map (\<lambda>s. find (\<lambda>r. slot_of R r = WildSlot True s) rules) (name_suffixes n)
      @ find (\<lambda>r. slot_of R r = ExactSlot False n) rules
      # map (\<lambda>s. find (\<lambda>r. slot_of R r = WildSlot False s) rules) (name_suffixes n)
      @ (if length (label_parts n) > MAX_LABELS then []
         else map (\<lambda>s. find (group_rule R n s) rules) (candidates n))
      @ [find (pattern_rule R n) rules])"

lemma strip_lookup_first: "strip_lookup n t = first_some (map t (name_suffixes n))"
proof (induction n t rule: strip_lookup.induct)
  case (1 n t)
  show ?case
    using 1 by (auto simp: strip_lookup.simps [of n] label_parts.simps [of n] name_suffixes_def first_some_Cons
        split: option.split)
qed

lemma first_match_members: "first_match R n (members R k rules) = find (group_rule R n k) rules"
  by (induction rules) (auto simp: members_def map_filter_simps first_match_def group_rule_def
      split: slot.split option.split)

lemma first_match_patterns: "first_match R n (patterns R rules) = find (pattern_rule R n) rules"
  by (induction rules) (auto simp: patterns_def map_filter_simps first_match_def pattern_rule_def
      split: slot.split option.split)

subsection \<open>Looking up wildcards\<close>

definition dull :: "'re regex_lib \<Rightarrow> 're rule_index \<Rightarrow> str \<Rightarrow> str list \<Rightarrow> bool" where
  "dull R ix n known \<longleftrightarrow> (\<forall>k\<in>set known. suffix_group_lookup R ix n k = None)"

lemma group_hit:
  assumes "dull R ix n known" "ix_suffix_wild ix [] = None"
  shows "fst (suffix_group_hit R ix n s known) = suffix_group_lookup R ix n s"
    and "fst (suffix_group_hit R ix n s known) = None \<Longrightarrow> dull R ix n (snd (suffix_group_hit R ix n s known))"
  using assms by (auto simp: suffix_group_hit_def suffix_group_lookup_def dull_def split: option.splits)

lemma boundary_first:
  assumes "dull R ix n known" "ix_suffix_wild ix [] = None"
  shows "fst (boundary_phase R ix n parts known) = first_some (map (suffix_group_lookup R ix n) (map fst parts))
     \<and> (fst (boundary_phase R ix n parts known) = None \<longrightarrow> dull R ix n (snd (boundary_phase R ix n parts known)))"
  using assms(1)
proof (induction parts arbitrary: known)
  case (Cons p parts)
  obtain s x where p: "p = (s, x)" by (cases p)
  obtain v known' where h: "suffix_group_hit R ix n s known = (v, known')" by fastforce
  then show ?case using group_hit [OF Cons.prems assms(2), of s] Cons.IH p
    by (cases v; cases x) (auto simp: first_some_Cons split: option.splits)
qed simp

lemma tail_cuts_first:
  assumes "dull R ix n known" "ix_suffix_wild ix [] = None"
  shows "fst (tail_cuts R ix n lab tail ks known)
       = first_some (map (\<lambda>k. suffix_group_lookup R ix n
            (concat (drop (length (chars lab) - k) (chars lab)) @ (if tail = [] then [] else 46 # tail)))
          (filter (\<lambda>k. k < length (chars lab)) ks))
     \<and> (fst (tail_cuts R ix n lab tail ks known) = None \<longrightarrow> dull R ix n (snd (tail_cuts R ix n lab tail ks known)))"
  using assms(1)
proof (induction ks arbitrary: known)
  case (Cons k ks)
  let ?pre = "concat (drop (length (chars lab) - k) (chars lab))"
  obtain v known' where h: "suffix_group_hit R ix n ?pre known = (v, known')" by fastforce
  show ?case
    using Cons group_hit [OF Cons.prems assms(2), of ?pre] h
    by (cases v) (auto simp: Let_def first_some_Cons split: option.split)
qed simp

lemma tail_first:
  assumes "dull R ix n known" "ix_suffix_wild ix [] = None"
  shows "tail_phase R ix n parts known
     = first_some (map (suffix_group_lookup R ix n) (concat (map (\<lambda>(_, lab, tail). tail_cands lab tail) parts)))"
  using assms(1)
proof (induction parts arbitrary: known)
  case (Cons p parts)
  obtain s lab tail where p: "p = (s, lab, tail)" using prod_cases3 by blast
  obtain v known' where h: "tail_cuts R ix n lab tail TAIL_CUTS known = (v, known')" by fastforce
  from tail_cuts_first [OF Cons.prems assms(2), of lab tail TAIL_CUTS] h
  have "v = first_some (map (suffix_group_lookup R ix n) (tail_cands lab tail))" "v = None \<Longrightarrow> dull R ix n known'"
    by (auto simp: tail_cands_def comp_def)
  then show ?case using Cons.IH p h by (cases v) (auto simp: first_some_append split: option.split)
qed simp

lemma match_suffix_first:
  assumes "ix_suffix_wild ix [] = None"
  shows "match_suffix_wild R ix n = (if length (label_parts n) > MAX_LABELS then None
     else first_some (map (suffix_group_lookup R ix n) (candidates n)))"
proof -
  have d: "dull R ix n []" by (simp add: dull_def)
  obtain v known where b: "boundary_phase R ix n (label_parts n) [] = (v, known)" by fastforce
  from boundary_first [OF d assms, of "label_parts n"] b
  have "v = first_some (map (suffix_group_lookup R ix n) (name_suffixes n))" "v = None \<Longrightarrow> dull R ix n known"
    by (auto simp: name_suffixes_def)
  then show ?thesis using b tail_first [OF _ assms]
    by (cases v) (auto simp: match_suffix_wild_def candidates_def first_some_append Let_def split: option.split)
qed

subsection \<open>The verdict of an index\<close>

lemma members_Nil: "members R [] rules = []"
  by (induction rules) (auto simp: members_def map_filter_simps slot_of_def Let_def split: slot.split option.splits if_splits)

lemma lookup_members: "suffix_group_lookup R (fst (index_build R rules)) n s = find (group_rule R n s) rules"
  using first_match_members [of R n s rules]
  by (auto simp: suffix_group_lookup_def index_tables first_match_def split: if_splits)

lemma verdict_scan: "verdict R (fst (index_build R rules)) n False = Some (priority_scan R rules n)"
proof -
  let ?ix = "fst (index_build R rules)"
  have nil: "ix_suffix_wild ?ix [] = None" by (simp add: index_tables members_Nil)
  have t: "ix_exact ?ix = (\<lambda>k. find (\<lambda>r. slot_of R r = ExactSlot False k) rules)"
    "ix_allow_exact ?ix = (\<lambda>k. find (\<lambda>r. slot_of R r = ExactSlot True k) rules)"
    "ix_wild ?ix = (\<lambda>k. find (\<lambda>r. slot_of R r = WildSlot False k) rules)"
    "ix_allow_wild ?ix = (\<lambda>k. find (\<lambda>r. slot_of R r = WildSlot True k) rules)"
    by (rule ext, rule index_tables)+
  have l: "suffix_group_lookup R ?ix n = (\<lambda>s. find (group_rule R n s) rules)"
    by (rule ext) (rule lookup_members)
  show ?thesis
    unfolding verdict_def priority_scan_def match_suffix_first [OF nil] l t strip_lookup_first index_tables(5)
      first_match_patterns
    by (auto simp: first_some_append first_some_Cons split: option.split)
qed

lemma verdict_fast: "verdict R (fst (index_build R rules)) n fast = Some v \<Longrightarrow> v = priority_scan R rules n"
proof (cases fast)
  case False
  then show "verdict R (fst (index_build R rules)) n fast = Some v \<Longrightarrow> v = priority_scan R rules n"
    using verdict_scan [of R rules n] by simp
next
  case True
  let ?ix = "fst (index_build R rules)"
  assume v: "verdict R ?ix n fast = Some v"
  have "verdict R ?ix n False = Some v"
  proof (cases "has_no_regex_rules ?ix")
    case no: True
    then have "match_suffix_wild R ?ix n = None"
      by (simp add: match_suffix_first has_no_regex_rules_def first_some_None suffix_group_lookup_def)
    then have "verdict R ?ix n True = verdict R ?ix n False"
      using no by (simp add: verdict_def first_match_def has_no_regex_rules_def cong: option.case_cong)
    then show ?thesis using v True by simp
  next
    case no: False
    then have "verdict R ?ix n True = None \<or> verdict R ?ix n True = verdict R ?ix n False"
      by (cases "ix_allow_exact ?ix n"; cases "strip_lookup n (ix_allow_wild ?ix)"; cases "ix_exact ?ix n";
          cases "strip_lookup n (ix_wild ?ix)") (simp_all add: verdict_def)
    then show ?thesis using v True by auto
  qed
  then show ?thesis using verdict_scan [of R rules n] by simp
qed

end
