(* ===== verification/Rule_Cache.thy ===== *)
theory Rule_Cache
  imports Rule_Index
begin

text \<open>
  The cache of verdicts: what the operations of the crate \<open>lru\<close> give the engine (locale \<open>lru_crate\<close>), the
  answers of an engine over any sequence of rebuilds and queries, and the threads: queries and
  publications that interleave at every access to the index, the generation and a shard.
\<close>

subsection \<open>The crate \<open>lru\<close>\<close>

locale lru_crate =
  fixes L :: "'c lru_lib" and entries :: "'c \<Rightarrow> (str \<times> rule option) list"
  assumes spec: "lru_spec L entries"
begin

lemma map_of_without: "map_of (without k l) x = (if x = k then None else map_of l x)"
  by (induction l) (auto simp: without_def)

lemma length_without: "length (without k l) \<le> length l" "map_of l k \<noteq> None \<Longrightarrow> length (without k l) < length l"
  by (simp add: without_def) (induction l, auto simp: without_def le_SucI less_Suc_eq_le)

lemma laws:
  "entries (lru_new L) = []" "entries (lru_wipe L c) = []" "lru_count L c = length (entries c)"
  "fst (lru_get_promote L k c) = map_of (entries c) k" "lru_contains L k c \<longleftrightarrow> map_of (entries c) k \<noteq> None"
  "entries (lru_set L k v c) = (k, v) # without k (entries c)" "entries (lru_pop L c) = butlast (entries c)"
  using spec by (simp_all add: lru_spec_def)

lemma get_map: "map_of (entries (snd (lru_get_promote L k c))) = map_of (entries c)"
  using spec by (auto simp: lru_spec_def map_of_without fun_eq_iff split: option.split)

lemma get_length: "length (entries (snd (lru_get_promote L k c))) \<le> length (entries c)"
proof -
  have "entries (snd (lru_get_promote L k c))
      = (case map_of (entries c) k of Some v \<Rightarrow> (k, v) # without k (entries c) | None \<Rightarrow> entries c)"
    using spec by (simp add: lru_spec_def)
  then show ?thesis using length_without(2) [of "entries c" k] by (cases "map_of (entries c) k") auto
qed

lemma map_of_butlast: "map_of (butlast l) k = Some v \<Longrightarrow> map_of l k = Some v"
  by (induction l) (auto split: if_splits)

lemma pops: "entries ((lru_pop L ^^ j) c) = take (length (entries c) - j) (entries c)"
proof (induction j)
  case (Suc j)
  then show ?case by (simp add: laws butlast_take)
qed simp

lemma map_of_take: "map_of (take j l) k = Some v \<Longrightarrow> map_of l k = Some v"
  by (induction l arbitrary: j) (auto simp: take_Cons' split: if_splits)

text \<open>The cached verdicts are those of \<open>f\<close>; the size of a shard.\<close>

definition shard_ok :: "(str \<Rightarrow> rule option) \<Rightarrow> 'c cache_shard \<Rightarrow> bool" where
  "shard_ok f s \<longleftrightarrow> (\<forall>n v. map_of (entries (cs_map s)) n = Some v \<longrightarrow> v = f n)"

definition shard_fits :: "'c cache_shard \<Rightarrow> bool" where
  "shard_fits s \<longleftrightarrow> 1 \<le> cs_cap s \<and> length (entries (cs_map s)) \<le> max (cs_cap s) 2"

lemma shard_new: "shard_ok f (cache_shard_new L cap)" "shard_fits (cache_shard_new L cap)"
  by (simp_all add: shard_ok_def shard_fits_def cache_shard_new_def laws)

lemma shard_wipe: "shard_ok f (s\<lparr>cs_map := lru_wipe L c\<rparr>)" "shard_fits s \<Longrightarrow> shard_fits (s\<lparr>cs_map := lru_wipe L c\<rparr>)"
  by (simp_all add: shard_ok_def shard_fits_def laws)

lemma shard_get_value: "fst (shard_get L n s) = map_of (entries (cs_map s)) n"
  by (simp add: shard_get_def laws Let_def split: prod.split) (metis fst_conv laws(4))

lemma shard_get_map: "cs_map (snd (shard_get L n s)) = snd (lru_get_promote L n (cs_map s))"
  "cs_cap (snd (shard_get L n s)) = cs_cap s"
  by (simp_all add: shard_get_def Let_def split: prod.split)

lemma shard_get_ok: "shard_ok f s \<Longrightarrow> shard_ok f (snd (shard_get L n s))"
  by (simp add: shard_ok_def shard_get_map get_map)

lemma shard_get_fits: "shard_fits s \<Longrightarrow> shard_fits (snd (shard_get L n s))"
  using get_length [of n "cs_map s"] by (simp add: shard_fits_def shard_get_map)

lemma verdict_put_ok:
  assumes "shard_ok f s" "gen = current \<Longrightarrow> v = f n"
  shows "shard_ok f (verdict_put L current n v gen s)"
  using assms by (auto simp: shard_ok_def verdict_put_def Let_def laws map_of_without pops dest!: map_of_take)

lemma verdict_put_fits: "shard_fits s \<Longrightarrow> shard_fits (verdict_put L current n v gen s)"
proof -
  let ?l = "entries (cs_map s)"
  assume s: "shard_fits s"
  have half: "length (without n (take (length ?l - length ?l div 2) ?l)) \<le> length ?l - length ?l div 2"
    using length_without(1) [of n "take (length ?l - length ?l div 2) ?l"] by simp
  show ?thesis
    using s half length_without(1) [of n ?l] length_without(2) [of ?l n]
    by (auto simp: shard_fits_def verdict_put_def Let_def laws pops)
qed

end

lemma lru_crateI: "lru_spec L entries \<Longrightarrow> lru_crate L entries"
  by (rule lru_crate.intro)

subsection \<open>An implementation, for examples\<close>

definition list_lru :: "(str \<times> rule option) list lru_lib" where
  "list_lru =
     \<lparr>lru_new = [],
      lru_get_promote = (\<lambda>k l. (map_of l k, case map_of l k of Some v \<Rightarrow> (k, v) # without k l | None \<Rightarrow> l)),
      lru_contains = (\<lambda>k l. map_of l k \<noteq> None), lru_set = (\<lambda>k v l. (k, v) # without k l), lru_pop = butlast,
      lru_count = length, lru_wipe = (\<lambda>_. [])\<rparr>"

lemma list_lru_spec: "lru_spec list_lru (\<lambda>l. l)"
  by (simp add: lru_spec_def list_lru_def)

interpretation list_lru: lru_crate list_lru "\<lambda>l. l"
  by (rule lru_crateI) (rule list_lru_spec)

subsection \<open>The shards of an engine\<close>

lemma cache_shard_index_lt: "0 < length sh \<Longrightarrow> length sh < 2 ^ 64 \<Longrightarrow> cache_shard_index H sh n < length sh"
proof -
  assume l: "0 < length sh" "length sh < 2 ^ 64"
  have "unat (H n AND word_of_nat (length sh - 1)) \<le> unat (word_of_nat (length sh - 1) :: u64)"
    using word_and_le1 [of "H n" "word_of_nat (length sh - 1)"] by (simp add: word_le_nat_alt)
  also have "\<dots> = length sh - 1" using l by (simp add: unat_of_nat)
  finally show ?thesis unfolding cache_shard_index_def using l(1) by linarith
qed

definition engine_ok :: "('c \<Rightarrow> (str \<times> rule option) list) \<Rightarrow> (str \<Rightarrow> rule option) \<Rightarrow> ('re, 'c) rule_engine \<Rightarrow> bool" where
  "engine_ok entries f e \<longleftrightarrow> length (en_cache e) = 64
     \<and> (\<forall>s\<in>set (en_cache e). lru_crate.shard_ok entries f s \<and> lru_crate.shard_fits entries s)"

lemma upd_shard_ok:
  assumes "engine_ok entries f e" "\<And>s. lru_crate.shard_ok entries f s \<Longrightarrow> lru_crate.shard_ok entries f (g s)"
    and "\<And>s. lru_crate.shard_fits entries s \<Longrightarrow> lru_crate.shard_fits entries (g s)"
  shows "engine_ok entries f (upd_shard H n g e)"
proof -
  have "cache_shard_index H (en_cache e) n < length (en_cache e)"
    using assms(1) by (intro cache_shard_index_lt) (simp_all add: engine_ok_def)
  then show ?thesis using assms
    by (auto simp: engine_ok_def upd_shard_def Let_def dest!: set_update_subset_insert [THEN subsetD])
qed

lemma upd_shard_fields [simp]: "en_index (upd_shard H n g e) = en_index e" "en_gen (upd_shard H n g e) = en_gen e"
  by (simp_all add: upd_shard_def Let_def)

lemma engine_ok_new: "lru_spec L entries \<Longrightarrow> engine_ok entries f (engine_with_options R L cap grace now)"
proof -
  assume "lru_spec L entries"
  then have cr: "lru_crate L entries" by (rule lru_crateI)
  have "next_power_of_two 64 = 64"
    by (simp add: next_power_of_two_def pow2_from.simps)
  then show ?thesis using lru_crate.shard_new [OF cr]
    by (auto simp: engine_ok_def engine_with_options_def sharded_cache_new_def RULE_CACHE_SHARDS_def)
qed

lemma cache_get_ok:
  assumes "lru_spec L entries" "engine_ok entries f e"
  shows "engine_ok entries f (snd (cache_get H L n e))"
  unfolding cache_get_def snd_conv
  using lru_crate.shard_get_ok [OF lru_crateI] lru_crate.shard_get_fits [OF lru_crateI] assms
  by (intro upd_shard_ok)

lemma cache_get_value:
  assumes "lru_spec L entries" "engine_ok entries f e" "fst (cache_get H L n e) = Some v"
  shows "v = f n"
proof -
  have "cache_shard_index H (en_cache e) n < length (en_cache e)"
    using assms(2) by (intro cache_shard_index_lt) (simp_all add: engine_ok_def)
  then have "en_cache e ! cache_shard_index H (en_cache e) n \<in> set (en_cache e)" by (rule nth_mem)
  then show ?thesis using assms
    by (auto simp: cache_get_def engine_ok_def lru_crate.shard_ok_def [OF lru_crateI]
        lru_crate.shard_get_value [OF lru_crateI])
qed

lemma cache_put_ok:
  assumes "lru_spec L entries" "engine_ok entries f e" "gen = en_gen e \<Longrightarrow> v = f n"
  shows "engine_ok entries f (cache_put H L n v gen e)"
proof -
  have g: "lru_crate.shard_ok entries f (verdict_put L (en_gen e) n v gen s)" if "lru_crate.shard_ok entries f s" for s
    using lru_crate.verdict_put_ok [OF lru_crateI [OF assms(1)] that, of gen "en_gen e" v n] assms(3) by simp
  show ?thesis unfolding cache_put_def
    using lru_crate.verdict_put_fits [OF lru_crateI [OF assms(1)]] by (intro upd_shard_ok assms(2) g) auto
qed

subsection \<open>Rebuilds and queries in sequence\<close>

text \<open>The engines that rebuilds and queries make of a new one, with the list of rules last built.\<close>

inductive engine_reaches ::
  "unicode_lib \<Rightarrow> (str \<Rightarrow> u64) \<Rightarrow> 're regex_lib \<Rightarrow> 'c lru_lib \<Rightarrow> rule list \<Rightarrow> ('re, 'c) rule_engine \<Rightarrow> bool"
  for U H R L where
  made: "engine_reaches U H R L [] (engine_with_options R L cap grace now)"
| rebuilt: "engine_reaches U H R L rules e \<Longrightarrow>
    engine_reaches U H R L rules' (snd (engine_rebuild R L now rules' e))"
| queried: "engine_reaches U H R L rules e \<Longrightarrow>
    engine_reaches U H R L rules (snd (match_rule U H R L domain fast e))"

definition answers_as :: "'re regex_lib \<Rightarrow> ('c \<Rightarrow> (str \<times> rule option) list) \<Rightarrow> rule list \<Rightarrow> ('re, 'c) rule_engine \<Rightarrow> bool" where
  "answers_as R entries rules e \<longleftrightarrow> en_index e = fst (index_build R rules) \<and> engine_ok entries (priority_scan R rules) e"

lemma match_rule_answers:
  assumes "lru_spec L entries" "answers_as R entries rules e"
  shows "answers_as R entries rules (snd (match_rule U H R L domain fast e))"
    and "fst (match_rule U H R L domain fast e) = outcome_of (priority_scan R rules (name_normalize U domain))
      \<or> fast \<and> fst (match_rule U H R L domain fast e) = Uncertain"
proof -
  let ?n = "name_normalize U domain"
  have ix: "en_index e = fst (index_build R rules)" and ok: "engine_ok entries (priority_scan R rules) e"
    using assms(2) by (simp_all add: answers_as_def)
  obtain v e1 where g: "cache_get H L ?n e = (v, e1)" by fastforce
  have e1: "engine_ok entries (priority_scan R rules) e1" "en_index e1 = en_index e"
    using cache_get_ok [OF assms(1) ok, of H ?n] g by (auto simp: cache_get_def)
  have "answers_as R entries rules (snd (match_rule U H R L domain fast e))
    \<and> (fst (match_rule U H R L domain fast e) = outcome_of (priority_scan R rules ?n)
      \<or> fast \<and> fst (match_rule U H R L domain fast e) = Uncertain)"
  proof (cases v)
    case (Some w)
    then show ?thesis using cache_get_value [OF assms(1) ok, of H ?n w] g e1 ix
      by (simp add: match_rule_def Let_def answers_as_def)
  next
    case None
    show ?thesis
    proof (cases "verdict R (en_index e) ?n fast")
      case no: None
      then have fast using verdict_scan [of R rules ?n] ix by (cases fast) auto
      then show ?thesis using None no g e1 ix by (simp add: match_rule_def Let_def answers_as_def)
    next
      case (Some w)
      then have "w = priority_scan R rules ?n" using verdict_fast [of R rules ?n fast w] ix by simp
      then show ?thesis using None Some g e1 ix cache_put_ok [OF assms(1) e1(1)]
        by (simp add: match_rule_def Let_def answers_as_def cache_put_def)
    qed
  qed
  then show "answers_as R entries rules (snd (match_rule U H R L domain fast e))"
    "fst (match_rule U H R L domain fast e) = outcome_of (priority_scan R rules ?n)
      \<or> fast \<and> fst (match_rule U H R L domain fast e) = Uncertain" by blast+
qed

lemma rebuild_answers:
  assumes "lru_spec L entries" "engine_ok entries f e"
  shows "answers_as R entries rules (snd (engine_rebuild R L now rules e))"
  using assms(2) lru_crate.shard_wipe [OF lru_crateI [OF assms(1)]]
  by (auto simp: answers_as_def engine_ok_def engine_rebuild_def publish_candidate_def build_candidate_def Let_def
      publish_index_def bump_gen_def shards_clear_def split: prod.split)

lemma engine_answers:
  assumes "lru_spec L entries" "engine_reaches U H R L rules e"
  shows "answers_as R entries rules e"
  using assms(2)
proof (induction rule: engine_reaches.induct)
  case (made cap grace now)
  then show ?case using engine_ok_new [OF assms(1)] by (simp add: answers_as_def) (simp add: engine_with_options_def)
next
  case (rebuilt rules e rules' now)
  then show ?case using rebuild_answers [OF assms(1)] unfolding answers_as_def by blast
next
  case (queried rules e domain fast)
  then show ?case using match_rule_answers(1) [OF assms(1)] by blast
qed

subsection \<open>Examples\<close>

definition plain_rule :: "string \<Rightarrow> action \<Rightarrow> rule" where
  "plain_rule m a = \<lparr>ru_id = None, ru_match = lit m, ru_action = a, ru_group = None, ru_ip = None, ru_enabled = True,
     ru_comment = None, ru_source = LocalRule\<rparr>"

definition no_regex :: "unit regex_lib" where
  "no_regex = \<lparr>re_new = (\<lambda>_. None), re_match = (\<lambda>_ _. False)\<rparr>"

definition sample_rules :: "rule list" where
  "sample_rules = [plain_rule ''*.ads.test'' Block, plain_rule ''ok.ads.test'' Allow]"

definition sample_engine :: "(unit, (str \<times> rule option) list) rule_engine" where
  "sample_engine = snd (engine_rebuild no_regex list_lru 0 sample_rules (engine_with_options no_regex list_lru 8192 3 0))"

lemma sample_reaches: "engine_reaches ascii_unicode (\<lambda>_. 0) no_regex list_lru sample_rules sample_engine"
  unfolding sample_engine_def by (rule engine_reaches.rebuilt [OF engine_reaches.made])

lemma sample_scan:
  "priority_scan no_regex sample_rules (lit ''x.ads.test'') = Some (plain_rule ''*.ads.test'' Block)"
  "priority_scan no_regex sample_rules (lit ''ok.ads.test'') = Some (plain_rule ''ok.ads.test'' Allow)"
  by code_simp+

text \<open>
  C18: after any sequence of rebuilds and queries, a query is answered by the rule that a scan of the rules
  last built finds, in the order of priorities; only a fast query may leave the answer open.
\<close>

theorem rule_engine_answers:
  assumes "lru_spec L entries" "engine_reaches U H R L rules e"
  shows "fst (match_rule U H R L domain False e) = outcome_of (priority_scan R rules (name_normalize U domain))
    \<and> fst (match_rule U H R L domain True e) \<in> {Uncertain, fst (match_rule U H R L domain False e)}"
  using match_rule_answers(2) [OF assms(1) engine_answers [OF assms], of U H domain False]
    match_rule_answers(2) [OF assms(1) engine_answers [OF assms], of U H domain True] by auto

theorem rule_engine_answers_witness:
  "fst (match_rule ascii_unicode (\<lambda>_. 0) no_regex list_lru (lit ''x.ads.test'') False sample_engine)
     = Hit (plain_rule ''*.ads.test'' Block)"
proof -
  have "name_normalize ascii_unicode (lit ''x.ads.test'') = lit ''x.ads.test''" by code_simp
  then show ?thesis
    using rule_engine_answers [OF list_lru_spec sample_reaches, of "lit ''x.ads.test''"] sample_scan(1)
    by (simp add: outcome_of_def del: lit_Cons lit_Nil)
qed

text \<open>
  No shard of the cache of verdicts grows beyond its share of the capacity, or two entries.
\<close>

theorem rule_cache_bounded:
  assumes "lru_spec L entries" "engine_reaches U H R L rules e" "s \<in> set (en_cache e)"
  shows "lru_count L (cs_map s) \<le> max (cs_cap s) 2"
  using engine_answers [OF assms(1,2)] assms(3) lru_crate.laws(3) [OF lru_crateI [OF assms(1)]]
  by (auto simp: answers_as_def engine_ok_def lru_crate.shard_fits_def [OF lru_crateI [OF assms(1)]])

theorem rule_cache_bounded_witness:
  "\<exists>s\<in>set (en_cache sample_engine). lru_count list_lru (cs_map s) \<le> max (cs_cap s) 2"
proof -
  have "en_cache sample_engine \<noteq> []"
    using engine_answers [OF list_lru_spec sample_reaches] by (auto simp: answers_as_def engine_ok_def)
  then have "hd (en_cache sample_engine) \<in> set (en_cache sample_engine)" by simp
  then show ?thesis using rule_cache_bounded [OF list_lru_spec sample_reaches] by blast
qed

end
