(* ===== verification/Rule_Race.thy ===== *)
theory Rule_Race
  imports Rule_Cache
begin

text \<open>
  Queries and publications in many threads.  A step is one access that the code makes atomically: reading
  the generation, cloning the index, one critical section of a shard, storing the index, incrementing the
  generation, clearing one shard.  The order within a thread is the order of \<open>match_rule\<close> and of
  \<open>publish_candidate\<close>.
\<close>

datatype 're tphase =
  TIdle
| TGen str bool u64
| TIdx str bool u64 "'re rule_index"
| TMiss str bool u64 "'re rule_index"
| TPut str "rule option" u64
| TDone match_outcome

datatype 're pphase =
  PIdle
| PBuilt "'re built_index"
| PIndexed "'re built_index"
| PClear "'re built_index" nat

record ('re, 'c) world =
  w_engine :: "('re, 'c) rule_engine"
  w_threads :: "nat \<Rightarrow> 're tphase"
  w_pubs :: "nat \<Rightarrow> 're pphase"
  w_bumps :: nat

definition set_thread :: "nat \<Rightarrow> 're tphase \<Rightarrow> ('re, 'c) rule_engine \<Rightarrow> ('re, 'c) world \<Rightarrow> ('re, 'c) world" where
  "set_thread t ph e w = w\<lparr>w_threads := (w_threads w)(t := ph), w_engine := e\<rparr>"

definition set_pub :: "nat \<Rightarrow> 're pphase \<Rightarrow> ('re, 'c) rule_engine \<Rightarrow> ('re, 'c) world \<Rightarrow> ('re, 'c) world" where
  "set_pub p ph e w = w\<lparr>w_pubs := (w_pubs w)(p := ph), w_engine := e\<rparr>"

definition stamp :: "real \<Rightarrow> 're built_index \<Rightarrow> ('re, 'c) rule_engine \<Rightarrow> ('re, 'c) rule_engine" where
  "stamp now cand e = e\<lparr>en_rebuild_ts := now, en_has_group := bi_has_group cand\<rparr>"

inductive race_step ::
  "unicode_lib \<Rightarrow> (str \<Rightarrow> u64) \<Rightarrow> 're regex_lib \<Rightarrow> 'c lru_lib \<Rightarrow> ('re, 'c) world \<Rightarrow> ('re, 'c) world \<Rightarrow> bool"
  for U H R L where
  read_gen: "w_threads w t = TIdle \<or> w_threads w t = TDone x \<Longrightarrow>
    race_step U H R L w (set_thread t (TGen (name_normalize U d) fast (en_gen (w_engine w))) (w_engine w) w)"
| read_index: "w_threads w t = TGen n fast g \<Longrightarrow>
    race_step U H R L w (set_thread t (TIdx n fast g (en_index (w_engine w))) (w_engine w) w)"
| cache_hit: "w_threads w t = TIdx n fast g ix \<Longrightarrow> cache_get H L n (w_engine w) = (Some v, e) \<Longrightarrow>
    race_step U H R L w (set_thread t (TDone (outcome_of v)) e w)"
| cache_miss: "w_threads w t = TIdx n fast g ix \<Longrightarrow> cache_get H L n (w_engine w) = (None, e) \<Longrightarrow>
    race_step U H R L w (set_thread t (TMiss n fast g ix) e w)"
| undecided: "w_threads w t = TMiss n fast g ix \<Longrightarrow> verdict R ix n fast = None \<Longrightarrow>
    race_step U H R L w (set_thread t (TDone Uncertain) (w_engine w) w)"
| decided: "w_threads w t = TMiss n fast g ix \<Longrightarrow> verdict R ix n fast = Some v \<Longrightarrow>
    race_step U H R L w (set_thread t (TPut n v g) (w_engine w) w)"
| put: "w_threads w t = TPut n v g \<Longrightarrow>
    race_step U H R L w (set_thread t (TDone (outcome_of v)) (cache_put H L n v g (w_engine w)) w)"
| build: "w_pubs w p = PIdle \<Longrightarrow>
    race_step U H R L w (set_pub p (PBuilt (build_candidate R rules (w_engine w))) (w_engine w) w)"
| store_index: "w_pubs w p = PBuilt cand \<Longrightarrow>
    race_step U H R L w (set_pub p (PIndexed cand) (publish_index (bi_index cand) (w_engine w)) w)"
| bump: "w_pubs w p = PIndexed cand \<Longrightarrow>
    race_step U H R L w ((set_pub p (PClear cand 0) (bump_gen (w_engine w)) w)\<lparr>w_bumps := w_bumps w + 1\<rparr>)"
| clear: "w_pubs w p = PClear cand i \<Longrightarrow> i < length (en_cache (w_engine w)) \<Longrightarrow>
    race_step U H R L w (set_pub p (PClear cand (i + 1)) (clear_shard L i (w_engine w)) w)"
| finish: "w_pubs w p = PClear cand i \<Longrightarrow> i = length (en_cache (w_engine w)) \<Longrightarrow>
    race_step U H R L w (set_pub p PIdle (stamp now cand (w_engine w)) w)"

definition race_start :: "('re, 'c) rule_engine \<Rightarrow> ('re, 'c) world" where
  "race_start e = \<lparr>w_engine = e, w_threads = (\<lambda>_. TIdle), w_pubs = (\<lambda>_. PIdle), w_bumps = 0\<rparr>"

inductive race_reachable ::
  "unicode_lib \<Rightarrow> (str \<Rightarrow> u64) \<Rightarrow> 're regex_lib \<Rightarrow> 'c lru_lib \<Rightarrow> ('re, 'c) world \<Rightarrow> bool"
  for U H R L where
  start: "race_reachable U H R L (race_start (engine_with_options R L cap grace now))"
| step: "race_reachable U H R L w \<Longrightarrow> race_step U H R L w w' \<Longrightarrow> race_reachable U H R L w'"

subsection \<open>The invariant\<close>

text \<open>Somebody has stored an index and not yet incremented the generation, or not yet cleared shard \<open>i\<close>.\<close>

fun indexed :: "'re pphase \<Rightarrow> bool" where
  "indexed (PIndexed cand) \<longleftrightarrow> True"
| "indexed _ \<longleftrightarrow> False"

fun clearing :: "nat \<Rightarrow> 're pphase \<Rightarrow> bool" where
  "clearing i (PIndexed cand) \<longleftrightarrow> True"
| "clearing i (PClear cand j) \<longleftrightarrow> j \<le> i"
| "clearing i _ \<longleftrightarrow> False"

definition pending_bump :: "('re, 'c) world \<Rightarrow> bool" where
  "pending_bump w \<longleftrightarrow> (\<exists>p. indexed (w_pubs w p))"

definition pending_clear :: "('re, 'c) world \<Rightarrow> nat \<Rightarrow> bool" where
  "pending_clear w i \<longleftrightarrow> (\<exists>p. clearing i (w_pubs w p))"

lemma bump_then_clear: "pending_bump w \<Longrightarrow> pending_clear w i"
proof -
  have "clearing i ph" if "indexed ph" for ph :: "'re pphase" using that by (cases ph) auto
  then show "pending_bump w \<Longrightarrow> pending_clear w i" by (auto simp: pending_bump_def pending_clear_def)
qed

definition is_index :: "'re regex_lib \<Rightarrow> 're rule_index \<Rightarrow> bool" where
  "is_index R ix \<longleftrightarrow> (\<exists>rules. ix = fst (index_build R rules))"

text \<open>The verdict of the index in force.\<close>

definition current :: "'re regex_lib \<Rightarrow> ('re, 'c) world \<Rightarrow> str \<Rightarrow> rule option" where
  "current R w n = the (verdict R (en_index (w_engine w)) n False)"

text \<open>What a thread holds is from the index in force, unless a publication is under way or its generation is old.\<close>

fun thread_ok :: "'re regex_lib \<Rightarrow> ('re, 'c) world \<Rightarrow> 're tphase \<Rightarrow> bool" where
  "thread_ok R w (TGen n fast g) \<longleftrightarrow> unat g \<le> w_bumps w"
| "thread_ok R w (TIdx n fast g ix) \<longleftrightarrow> unat g \<le> w_bumps w \<and> is_index R ix
     \<and> (unat g = w_bumps w \<longrightarrow> ix = en_index (w_engine w) \<or> pending_bump w)"
| "thread_ok R w (TMiss n fast g ix) \<longleftrightarrow> unat g \<le> w_bumps w \<and> is_index R ix
     \<and> (unat g = w_bumps w \<longrightarrow> ix = en_index (w_engine w) \<or> pending_bump w)"
| "thread_ok R w (TPut n v g) \<longleftrightarrow> unat g \<le> w_bumps w
     \<and> (unat g = w_bumps w \<longrightarrow> v = current R w n \<or> pending_bump w)"
| "thread_ok R w _ \<longleftrightarrow> True"

fun pub_ok :: "'re regex_lib \<Rightarrow> 're pphase \<Rightarrow> bool" where
  "pub_ok R PIdle \<longleftrightarrow> True"
| "pub_ok R (PBuilt cand) \<longleftrightarrow> is_index R (bi_index cand)"
| "pub_ok R (PIndexed cand) \<longleftrightarrow> is_index R (bi_index cand)"
| "pub_ok R (PClear cand i) \<longleftrightarrow> True"

definition cached :: "('c \<Rightarrow> (str \<times> rule option) list) \<Rightarrow> ('re, 'c) world \<Rightarrow> nat \<Rightarrow> str \<Rightarrow> rule option option" where
  "cached entries w i n = map_of (entries (cs_map (en_cache (w_engine w) ! i))) n"

definition threads_ok :: "'re regex_lib \<Rightarrow> ('re, 'c) world \<Rightarrow> bool" where
  "threads_ok R w \<longleftrightarrow> (\<forall>t. thread_ok R w (w_threads w t))"

definition shard_current ::
  "'re regex_lib \<Rightarrow> ('c \<Rightarrow> (str \<times> rule option) list) \<Rightarrow> ('re, 'c) world \<Rightarrow> nat \<Rightarrow> bool" where
  "shard_current R entries w i \<longleftrightarrow> (\<forall>n v. cached entries w i n = Some v \<longrightarrow> v = current R w n)"

definition shards_ok :: "'re regex_lib \<Rightarrow> ('c \<Rightarrow> (str \<times> rule option) list) \<Rightarrow> ('re, 'c) world \<Rightarrow> bool" where
  "shards_ok R entries w \<longleftrightarrow>
     (\<forall>i < length (en_cache (w_engine w)). pending_clear w i \<or> shard_current R entries w i)"

definition race_inv :: "'re regex_lib \<Rightarrow> ('c \<Rightarrow> (str \<times> rule option) list) \<Rightarrow> ('re, 'c) world \<Rightarrow> bool" where
  "race_inv R entries w \<longleftrightarrow>
     is_index R (en_index (w_engine w)) \<and> (\<forall>p. pub_ok R (w_pubs w p))
     \<and> (w_bumps w < 2 ^ 64 \<longrightarrow>
          en_gen (w_engine w) = word_of_nat (w_bumps w) \<and> threads_ok R w \<and> shards_ok R entries w)"

lemma race_inv_thread: "race_inv R entries w \<Longrightarrow> w_bumps w < 2 ^ 64 \<Longrightarrow> w_threads w t = ph \<Longrightarrow> thread_ok R w ph"
  by (auto simp: race_inv_def threads_ok_def)

lemma race_inv_gen: "race_inv R entries w \<Longrightarrow> w_bumps w < 2 ^ 64 \<Longrightarrow> unat (en_gen (w_engine w)) = w_bumps w"
  by (simp add: race_inv_def unat_of_nat)

subsection \<open>Its preservation\<close>

lemma index_verdict: "is_index R ix \<Longrightarrow> verdict R ix n fast = Some v \<Longrightarrow> v = the (verdict R ix n False)"
  by (auto simp: is_index_def verdict_scan dest: verdict_fast)

lemma set_thread_fields [simp]:
  "w_engine (set_thread t ph e w) = e" "w_pubs (set_thread t ph e w) = w_pubs w"
  "w_bumps (set_thread t ph e w) = w_bumps w" "w_threads (set_thread t ph e w) = (w_threads w)(t := ph)"
  by (simp_all add: set_thread_def)

lemma set_pub_fields [simp]:
  "w_engine (set_pub p ph e w) = e" "w_pubs (set_pub p ph e w) = (w_pubs w)(p := ph)"
  "w_bumps (set_pub p ph e w) = w_bumps w" "w_threads (set_pub p ph e w) = w_threads w"
  by (simp_all add: set_pub_def)

lemma ex_upd: "P (f p) = P x \<Longrightarrow> (\<exists>q. P ((f(p := x)) q)) \<longleftrightarrow> (\<exists>q. P (f q))"
  by (metis fun_upd_apply)

lemma pending_pub:
  "indexed ph = indexed (w_pubs w p) \<Longrightarrow> pending_bump (set_pub p ph e w) = pending_bump w"
  "clearing i ph = clearing i (w_pubs w p) \<Longrightarrow> pending_clear (set_pub p ph e w) i = pending_clear w i"
  unfolding pending_bump_def pending_clear_def set_pub_fields by (rule ex_upd, simp)+

lemma pending_thread [simp]:
  "pending_bump (set_thread t ph e w) = pending_bump w" "pending_clear (set_thread t ph e w) i = pending_clear w i"
  by (simp_all add: pending_bump_def pending_clear_def)

lemma thread_ok_cong:
  "thread_ok R w ph \<Longrightarrow> w_bumps w' = w_bumps w \<Longrightarrow> en_index (w_engine w') = en_index (w_engine w) \<Longrightarrow>
     (pending_bump w \<Longrightarrow> pending_bump w') \<Longrightarrow> thread_ok R w' ph"
  by (cases ph) (auto simp: current_def)

lemma set_thread_inv:
  assumes inv: "race_inv R entries w" and e: "en_index e = en_index (w_engine w)" "en_gen e = en_gen (w_engine w)"
    and l: "length (en_cache e) = length (en_cache (w_engine w))"
    and ph: "w_bumps w < 2 ^ 64 \<Longrightarrow> thread_ok R w ph"
    and sh: "\<And>i. \<lbrakk>w_bumps w < 2 ^ 64; \<not> pending_clear w i; shard_current R entries w i\<rbrakk>
            \<Longrightarrow> shard_current R entries (set_thread t ph e w) i"
  shows "race_inv R entries (set_thread t ph e w)"
proof -
  let ?w = "set_thread t ph e w"
  have "thread_ok R ?w q" if "thread_ok R w q" for q
    using that by (rule thread_ok_cong) (simp_all add: e(1))
  then have "threads_ok R ?w" if "w_bumps w < 2 ^ 64"
    using inv ph that by (simp add: race_inv_def threads_ok_def)
  moreover have "shards_ok R entries ?w" if "w_bumps w < 2 ^ 64"
    using inv l sh that by (auto simp: race_inv_def shards_ok_def)
  ultimately show ?thesis using inv e by (simp add: race_inv_def)
qed

lemma shard_current_same: "shard_current R entries w i \<Longrightarrow> w_engine w' = w_engine w \<Longrightarrow> shard_current R entries w' i"
  by (simp add: shard_current_def cached_def current_def)

lemma shard_current_iff:
  "en_index e = en_index (w_engine w) \<Longrightarrow> shard_current R entries (set_thread t ph e w) i
     \<longleftrightarrow> (\<forall>n v. map_of (entries (cs_map (en_cache e ! i))) n = Some v \<longrightarrow> v = current R w n)"
  by (simp add: shard_current_def cached_def current_def)

lemma upd_shard_nth:
  "en_cache (upd_shard H n f e) ! i = (if i = cache_shard_index H (en_cache e) n \<and> i < length (en_cache e)
     then f (en_cache e ! i) else en_cache e ! i)"
  by (auto simp: upd_shard_def Let_def nth_list_update list_update_beyond)

lemma length_upd_shard [simp]: "length (en_cache (upd_shard H n f e)) = length (en_cache e)"
  by (simp add: upd_shard_def Let_def)

lemma get_step_inv:
  assumes "lru_spec L entries" "race_inv R entries w" "cache_get H L n (w_engine w) = (v, e)"
    and "w_bumps w < 2 ^ 64 \<Longrightarrow> thread_ok R w ph"
  shows "race_inv R entries (set_thread t ph e w)"
proof -
  have e: "e = upd_shard H n (\<lambda>s. snd (shard_get L n s)) (w_engine w)" using assms(3) by (auto simp: cache_get_def)
  have m: "map_of (entries (cs_map (en_cache e ! i))) = map_of (entries (cs_map (en_cache (w_engine w) ! i)))" for i
    by (simp add: e upd_shard_nth lru_crate.shard_get_map [OF lru_crateI [OF assms(1)]]
        lru_crate.get_map [OF lru_crateI [OF assms(1)]])
  have "shard_current R entries (set_thread t ph e w) i" if "shard_current R entries w i" for i
    using that by (simp add: shard_current_iff e) (simp add: m [unfolded e] shard_current_def cached_def)
  then show ?thesis by (intro set_thread_inv [OF assms(2)] assms(4)) (simp_all add: e)
qed

lemma put_step_inv:
  assumes "lru_spec L entries" "race_inv R entries w" "w_threads w t = TPut n v g"
  shows "race_inv R entries (set_thread t (TDone (outcome_of v)) (cache_put H L n v g (w_engine w)) w)"
proof -
  let ?e = "cache_put H L n v g (w_engine w)"
  note ok = lru_crate.shard_ok_def [OF lru_crateI [OF assms(1)]]
  have "shard_current R entries (set_thread t (TDone (outcome_of v)) ?e w) i"
    if b: "w_bumps w < 2 ^ 64" "\<not> pending_clear w i" and c: "shard_current R entries w i" for i
  proof -
    have "v = current R w n" if "g = en_gen (w_engine w)"
      using race_inv_thread [OF assms(2) b(1) assms(3)] race_inv_gen [OF assms(2) b(1)] b(2) that bump_then_clear
      by auto
    then have "lru_crate.shard_ok entries (current R w) (verdict_put L (en_gen (w_engine w)) n v g s)"
      if "lru_crate.shard_ok entries (current R w) s" for s
      using lru_crate.verdict_put_ok [OF lru_crateI [OF assms(1)] that] by blast
    moreover have "lru_crate.shard_ok entries (current R w) (en_cache (w_engine w) ! i)"
      using c by (simp add: ok shard_current_def cached_def)
    ultimately have "lru_crate.shard_ok entries (current R w) (en_cache ?e ! i)"
      by (auto simp: cache_put_def upd_shard_nth)
    then show ?thesis by (simp add: shard_current_iff cache_put_def) (simp add: ok cache_put_def)
  qed
  then show ?thesis by (intro set_thread_inv [OF assms(2)]) (simp_all add: cache_put_def)
qed

text \<open>The steps of a publication.\<close>

lemma build_step_inv:
  assumes "race_inv R entries w" "w_pubs w p = PIdle"
  shows "race_inv R entries (set_pub p (PBuilt (build_candidate R rules (w_engine w))) (w_engine w) w)"
proof -
  let ?w = "set_pub p (PBuilt (build_candidate R rules (w_engine w))) (w_engine w) w"
  have pend: "pending_bump ?w = pending_bump w" "pending_clear ?w i = pending_clear w i" for i
    using assms(2) by (simp_all add: pending_pub)
  have "is_index R (bi_index (build_candidate R rules (w_engine w)))"
    by (auto simp: build_candidate_def is_index_def intro!: exI [of _ rules] split: prod.split)
  moreover have "threads_ok R ?w" if "threads_ok R w"
    using that pend by (auto simp: threads_ok_def intro: thread_ok_cong)
  moreover have "shards_ok R entries ?w" if "shards_ok R entries w"
    using that pend by (auto simp: shards_ok_def intro: shard_current_same)
  ultimately show ?thesis using assms(1) by (simp add: race_inv_def)
qed

lemma store_step_inv:
  assumes "race_inv R entries w" "w_pubs w p = PBuilt cand"
  shows "race_inv R entries (set_pub p (PIndexed cand) (publish_index (bi_index cand) (w_engine w)) w)"
proof -
  let ?w = "set_pub p (PIndexed cand) (publish_index (bi_index cand) (w_engine w)) w"
  have pend: "pending_bump ?w" unfolding pending_bump_def by (rule exI [of _ p]) simp
  have c: "is_index R (bi_index cand)" using assms by (metis race_inv_def pub_ok.simps(2))
  have "thread_ok R ?w ph" if "thread_ok R w ph" for ph using that pend by (cases ph) auto
  then have "threads_ok R ?w" if "threads_ok R w" using that by (simp add: threads_ok_def)
  moreover have "shards_ok R entries ?w" unfolding shards_ok_def using pend bump_then_clear by blast
  ultimately show ?thesis using assms(1) c by (simp add: race_inv_def publish_index_def)
qed

lemma bump_step_inv:
  assumes "race_inv R entries w" "w_pubs w p = PIndexed cand"
  shows "race_inv R entries ((set_pub p (PClear cand 0) (bump_gen (w_engine w)) w)\<lparr>w_bumps := w_bumps w + 1\<rparr>)"
proof -
  let ?w = "(set_pub p (PClear cand 0) (bump_gen (w_engine w)) w)\<lparr>w_bumps := w_bumps w + 1\<rparr>"
  have pend: "pending_clear ?w i" for i unfolding pending_clear_def by (rule exI [of _ p]) simp
  have "thread_ok R ?w ph" if "thread_ok R w ph" for ph using that by (cases ph) auto
  then have "threads_ok R ?w" if "threads_ok R w" using that by (simp add: threads_ok_def)
  moreover have "shards_ok R entries ?w" using pend by (simp add: shards_ok_def)
  moreover have "en_gen (w_engine ?w) = word_of_nat (w_bumps ?w)" if "en_gen (w_engine w) = word_of_nat (w_bumps w)"
    using that by (simp add: bump_gen_def)
  moreover have "is_index R (en_index (w_engine ?w)) \<and> (\<forall>q. pub_ok R (w_pubs ?w q))" "w_bumps ?w < 2 ^ 64 \<Longrightarrow> w_bumps w < 2 ^ 64"
    using assms(1) by (simp_all add: race_inv_def bump_gen_def)
  ultimately show ?thesis using assms(1) unfolding race_inv_def by blast
qed

lemma clear_step_inv:
  assumes "lru_spec L entries" "race_inv R entries w" "w_pubs w p = PClear cand i" "i < length (en_cache (w_engine w))"
  shows "race_inv R entries (set_pub p (PClear cand (i + 1)) (clear_shard L i (w_engine w)) w)"
proof -
  let ?w = "set_pub p (PClear cand (i + 1)) (clear_shard L i (w_engine w)) w"
  have pend: "pending_bump ?w = pending_bump w" using assms(3) by (simp add: pending_pub)
  have later: "pending_clear ?w j" if "pending_clear w j" "j \<noteq> i" for j
    using that assms(3) by (subst pending_pub) auto
  have "threads_ok R ?w" if "threads_ok R w"
    using that pend by (auto simp: threads_ok_def clear_shard_def intro: thread_ok_cong)
  moreover have "shard_current R entries ?w j" if "shard_current R entries w j \<or> j = i" "j < length (en_cache (w_engine w))" for j
  proof (cases "j = i")
    case True
    then show ?thesis using assms(4) lru_crate.laws(2) [OF lru_crateI [OF assms(1)]]
      by (simp add: shard_current_def cached_def clear_shard_def)
  next
    case False
    then show ?thesis using that(1) by (simp add: shard_current_def cached_def current_def clear_shard_def)
  qed
  then have "shards_ok R entries ?w" if "shards_ok R entries w"
    using that later by (simp add: shards_ok_def clear_shard_def) metis
  ultimately show ?thesis using assms(2) by (simp add: race_inv_def clear_shard_def)
qed

lemma finish_step_inv:
  assumes "race_inv R entries w" "w_pubs w p = PClear cand i" "i = length (en_cache (w_engine w))"
  shows "race_inv R entries (set_pub p PIdle (stamp now cand (w_engine w)) w)"
proof -
  let ?w = "set_pub p PIdle (stamp now cand (w_engine w)) w"
  have pend: "pending_bump ?w = pending_bump w" using assms(2) by (simp add: pending_pub)
  have later: "pending_clear ?w j" if "pending_clear w j" "j < length (en_cache (w_engine w))" for j
    using that assms(2,3) by (subst pending_pub) auto
  have "threads_ok R ?w" if "threads_ok R w"
    using that pend by (auto simp: threads_ok_def stamp_def intro: thread_ok_cong)
  moreover have "shards_ok R entries ?w" if "shards_ok R entries w"
    using that later by (auto simp: shards_ok_def shard_current_def cached_def current_def stamp_def)
  ultimately show ?thesis using assms(1) by (simp add: race_inv_def stamp_def)
qed

lemma race_step_inv:
  assumes "lru_spec L entries" "race_inv R entries w" "race_step U H R L w w'"
  shows "race_inv R entries w'"
  using assms(3)
proof cases
  case (read_gen t x d fast)
  have "thread_ok R w (TGen (name_normalize U d) fast (en_gen (w_engine w)))" if "w_bumps w < 2 ^ 64"
    using race_inv_gen [OF assms(2) that] by simp
  then show ?thesis unfolding read_gen(1)
    by (intro set_thread_inv [OF assms(2)]) (auto intro: shard_current_same)
next
  case (read_index t n fast g)
  have "thread_ok R w (TIdx n fast g (en_index (w_engine w)))" if "w_bumps w < 2 ^ 64"
    using race_inv_thread [OF assms(2) that read_index(2)] assms(2) by (simp add: race_inv_def)
  then show ?thesis unfolding read_index(1)
    by (intro set_thread_inv [OF assms(2)]) (auto intro: shard_current_same)
next
  case (cache_hit t n fast g ix v e)
  then show ?thesis using get_step_inv [OF assms(1,2)] by simp
next
  case (cache_miss t n fast g ix e)
  have "thread_ok R w (TMiss n fast g ix)" if "w_bumps w < 2 ^ 64"
    using race_inv_thread [OF assms(2) that cache_miss(2)] by simp
  then show ?thesis unfolding cache_miss(1) by (rule get_step_inv [OF assms(1,2) cache_miss(3)])
next
  case (undecided t n fast g ix)
  then show ?thesis by (auto intro!: set_thread_inv [OF assms(2)] intro: shard_current_same)
next
  case (decided t n fast g ix v)
  have "thread_ok R w (TPut n v g)" if "w_bumps w < 2 ^ 64"
    using race_inv_thread [OF assms(2) that decided(2)] index_verdict [OF _ decided(3)] by (auto simp: current_def)
  then show ?thesis unfolding decided(1)
    by (intro set_thread_inv [OF assms(2)]) (auto intro: shard_current_same)
next
  case (put t n v g)
  then show ?thesis using put_step_inv [OF assms(1,2)] by simp
next
  case (build p rules)
  then show ?thesis using build_step_inv [OF assms(2)] by simp
next
  case (store_index p cand)
  then show ?thesis using store_step_inv [OF assms(2)] by simp
next
  case (bump p cand)
  then show ?thesis using bump_step_inv [OF assms(2)] by simp
next
  case (clear p cand i)
  then show ?thesis using clear_step_inv [OF assms(1,2)] by simp
next
  case (finish p cand i now)
  then show ?thesis using finish_step_inv [OF assms(2)] by simp
qed

lemma race_reachable_inv:
  assumes "lru_spec L entries" "race_reachable U H R L w"
  shows "race_inv R entries w"
  using assms(2)
proof (induction rule: race_reachable.induct)
  case (start cap grace now)
  let ?w = "race_start (engine_with_options R L cap grace now)"
  have "cached entries ?w i n = None" if "i < length (en_cache (w_engine ?w))" for i n
    using that lru_crate.laws(1) [OF lru_crateI [OF assms(1)]]
    by (auto simp: cached_def race_start_def engine_with_options_def sharded_cache_new_def cache_shard_new_def Let_def)
  then have "shards_ok R entries ?w" by (simp add: shards_ok_def shard_current_def)
  then show ?case
    by (auto simp: race_inv_def threads_ok_def race_start_def engine_with_options_def is_index_def)
next
  case (step w w')
  then show ?case using race_step_inv [OF assms(1)] by blast
qed


subsection \<open>An example\<close>

definition sample_world :: "(unit, (str \<times> rule option) list) world" where
  "sample_world = race_start (engine_with_options no_regex list_lru 8192 3 0)"

lemma sample_run:
  "\<exists>w. race_reachable ascii_unicode (\<lambda>_. 0) no_regex list_lru w \<and> w_bumps w = 0 \<and> (\<forall>p. w_pubs w p = PIdle)
     \<and> 0 < length (en_cache (w_engine w)) \<and> cached (\<lambda>l. l) w 0 [97] = Some None"
proof -
  let ?step = "race_step ascii_unicode (\<lambda>_. 0) no_regex list_lru" and ?e = "w_engine sample_world"
  let ?reach = "race_reachable ascii_unicode (\<lambda>_. 0) no_regex list_lru"
  have e: "?e = engine_with_options no_regex list_lru 8192 3 0" by (simp add: sample_world_def race_start_def)
  have len: "length (en_cache ?e) = 64"
    by (simp add: e engine_with_options_def sharded_cache_new_def RULE_CACHE_SHARDS_def next_power_of_two_def pow2_from.simps)
  then have sh: "en_cache ?e ! 0 = cache_shard_new list_lru 128"
    by (simp add: e engine_with_options_def sharded_cache_new_def RULE_CACHE_SHARDS_def next_power_of_two_def
        pow2_from.simps shard_cap_def)
  define w1 where "w1 = set_thread 0 (TGen (name_normalize ascii_unicode [97]) False (en_gen ?e)) ?e sample_world"
  have n: "name_normalize ascii_unicode [97] = [97]" by code_simp
  have r1: "?reach w1" unfolding w1_def
    by (rule race_reachable.step [OF _ race_step.read_gen]) (simp_all add: sample_world_def race_reachable.start, simp add: race_start_def)
  define w2 where "w2 = set_thread 0 (TIdx [97] False (en_gen ?e) (en_index ?e)) ?e w1"
  have r2: "?reach w2"
    by (rule race_reachable.step [OF r1]) (use race_step.read_index [of w1 0 "[97]" False "en_gen ?e"] in \<open>simp add: w2_def w1_def n\<close>)
  let ?e2 = "snd (cache_get (\<lambda>_. 0) list_lru [97] ?e)"
  have idx: "cache_shard_index (\<lambda>_. 0) (en_cache ?e) [97] = 0" by (simp add: cache_shard_index_def)
  have g: "cache_get (\<lambda>_. 0) list_lru [97] ?e = (None, ?e2)"
    by (simp add: cache_get_def idx sh shard_get_def cache_shard_new_def list_lru_def)
  define w3 where "w3 = set_thread 0 (TMiss [97] False (en_gen ?e) (en_index ?e)) ?e2 w2"
  have r3: "?reach w3"
    by (rule race_reachable.step [OF r2])
      (use race_step.cache_miss [of w2 0 "[97]" False "en_gen ?e" "en_index ?e"] g in \<open>simp add: w3_def w2_def\<close>)
  have "verdict no_regex (en_index ?e) [97] False = Some (priority_scan no_regex [] [97])"
    using verdict_scan [of no_regex "[]"] by (simp add: e engine_with_options_def)
  moreover have "priority_scan no_regex [] [97] = None" by code_simp
  ultimately have v: "verdict no_regex (en_index ?e) [97] False = Some None" by simp
  define w4 where "w4 = set_thread 0 (TPut [97] None (en_gen ?e)) ?e2 w3"
  have r4: "?reach w4"
    by (rule race_reachable.step [OF r3])
      (use race_step.decided [of w3 0 "[97]" False "en_gen ?e" "en_index ?e"] v in \<open>simp add: w4_def w3_def\<close>)
  define w5 where "w5 = set_thread 0 (TDone (outcome_of None)) (cache_put (\<lambda>_. 0) list_lru [97] None (en_gen ?e) ?e2) w4"
  have r5: "?reach w5"
    by (rule race_reachable.step [OF r4])
      (use race_step.put [of w4 0 "[97]" None "en_gen ?e"] in \<open>simp add: w5_def w4_def\<close>)
  have f: "en_gen ?e2 = en_gen ?e" "length (en_cache ?e2) = 64" using len by (simp_all add: cache_get_def)
  have "cached (\<lambda>l. l) w5 0 [97] = Some None" "0 < length (en_cache (w_engine w5))"
    using f by (simp_all add: w5_def cached_def cache_put_def upd_shard_nth cache_shard_index_def verdict_put_def Let_def list_lru_def)
  moreover have "w_bumps w5 = 0" "\<forall>p. w_pubs w5 p = PIdle"
    by (simp_all add: w5_def w4_def w3_def w2_def w1_def sample_world_def race_start_def)
  ultimately show ?thesis using r5 by blast
qed


end
