(* ===== verification/Rule_Patterns.thy ===== *)
theory Rule_Patterns
  imports Rule_Index
begin

text \<open>
  Wildcards.  What the crate \<open>regex\<close> documents of the patterns that \<open>wildcard_to_regex\<close> writes is the predicate
  \<open>documented_regex\<close>: anchored sequences of literal characters, \<open>[^.]*\<close>, \<open>.*\<close> and \<open>(?:.*\.)?\<close> over ASCII text.
  From it: what a wildcard matches, and which wildcards the grouped lookup finds.
\<close>

subsection \<open>The patterns written\<close>

datatype re_tok = Lit u8 | AnyStar | LabelStar | SubOpt

fun tok_text :: "re_tok \<Rightarrow> str" where
  "tok_text (Lit b) = (if needs_escape b \<or> b = 42 then [92, b] else [b])"
| "tok_text AnyStar = lit ''.*''"
| "tok_text LabelStar = lit ''[^.]*''"
| "tok_text SubOpt = lit ''(?:.*'' @ [92] @ lit ''.)?''"

definition re_text :: "re_tok list \<Rightarrow> str" where
  "re_text ts = lit ''^'' @ concat (map tok_text ts) @ lit ''$''"

text \<open>\<open>.\<close> is any character but a line feed.\<close>

fun star_match :: "(u8 \<Rightarrow> bool) \<Rightarrow> (str \<Rightarrow> bool) \<Rightarrow> str \<Rightarrow> bool" where
  "star_match P k [] = k []"
| "star_match P k (c # s) \<longleftrightarrow> k (c # s) \<or> P c \<and> star_match P k s"

fun toks_match :: "re_tok list \<Rightarrow> str \<Rightarrow> bool" where
  "toks_match [] s \<longleftrightarrow> s = []"
| "toks_match (Lit b # ts) s \<longleftrightarrow> s \<noteq> [] \<and> hd s = b \<and> toks_match ts (tl s)"
| "toks_match (AnyStar # ts) s \<longleftrightarrow> star_match (\<lambda>c. c \<noteq> 10) (toks_match ts) s"
| "toks_match (LabelStar # ts) s \<longleftrightarrow> star_match (\<lambda>c. c \<noteq> 46) (toks_match ts) s"
| "toks_match (SubOpt # ts) s \<longleftrightarrow> toks_match ts s
     \<or> star_match (\<lambda>c. c \<noteq> 10) (\<lambda>s. s \<noteq> [] \<and> hd s = 46 \<and> toks_match ts (tl s)) s"

definition ascii_toks :: "re_tok list \<Rightarrow> bool" where
  "ascii_toks ts \<longleftrightarrow> (\<forall>b. Lit b \<in> set ts \<longrightarrow> b < 128)"

definition documented_regex :: "'re regex_lib \<Rightarrow> bool" where
  "documented_regex R \<longleftrightarrow> (\<forall>ts. length ts \<le> 255 \<and> ascii_toks ts \<longrightarrow>
     (\<exists>c. re_new R (re_text ts) = Some c \<and> (\<forall>n. is_ascii n \<longrightarrow> re_match R c n = toks_match ts n)))"

definition tok_of :: "u8 \<Rightarrow> re_tok" where
  "tok_of c = (if c = 42 then LabelStar else Lit c)"

definition wild_body :: "str \<Rightarrow> str" where
  "wild_body m = (if hd m = 42 then drop (if length m > 1 \<and> m ! 1 = 46 then 2 else 1) m else m)"

definition wild_toks :: "str \<Rightarrow> re_tok list" where
  "wild_toks m = (if m = [42] then [AnyStar]
     else if m \<noteq> [] \<and> hd m = 42 then SubOpt # map tok_of (wild_body m) else map tok_of m)"

lemma tok_text_of: "tok_text (tok_of c) = wildcard_char c"
  by (simp add: tok_of_def wildcard_char_def)

lemma wildcard_text: "wildcard_to_regex m = re_text (wild_toks m)"
proof -
  have "concat (map tok_text (map tok_of s)) = concat (map wildcard_char s)" for s
    by (simp add: comp_def tok_text_of)
  then show ?thesis
    by (simp add: wildcard_to_regex_def re_text_def wild_toks_def wild_body_def Let_def comp_def)
qed

lemma wild_toks_ok: "is_ascii m \<Longrightarrow> length m \<le> 255 \<Longrightarrow> length (wild_toks m) \<le> 255 \<and> ascii_toks (wild_toks m)"
  by (auto simp: wild_toks_def wild_body_def ascii_toks_def tok_of_def is_ascii_def image_iff split: if_splits
      dest: in_set_dropD)

subsection \<open>What a wildcard matches\<close>

text \<open>A star stands for characters of one label.\<close>

fun glob :: "str \<Rightarrow> str \<Rightarrow> bool" where
  "glob [] n \<longleftrightarrow> n = []"
| "glob (p # m) n \<longleftrightarrow>
     (if p = 42 then list_ex (\<lambda>k. 46 \<notin> set (take k n) \<and> glob m (drop k n)) [0..<Suc (length n)]
      else n \<noteq> [] \<and> hd n = p \<and> glob m (tl n))"

lemma glob_Cons [simp]:
  "glob (p # m) n \<longleftrightarrow>
     (if p = 42 then (\<exists>k. k \<le> length n \<and> 46 \<notin> set (take k n) \<and> glob m (drop k n))
      else n \<noteq> [] \<and> hd n = p \<and> glob m (tl n))"
  by (auto simp: list_ex_iff less_Suc_eq_le simp del: upt_Suc)

declare glob.simps(2) [simp del]

text \<open>A leading star stands for any number of whole labels, none included; its dot may be left out.\<close>

definition wildcard_matches :: "str \<Rightarrow> str \<Rightarrow> bool" where
  "wildcard_matches m n \<longleftrightarrow>
     (if m = [42] then 10 \<notin> set n
      else if m \<noteq> [] \<and> hd m = 42 then
        glob (wild_body m) n
        \<or> list_ex (\<lambda>i. n ! i = 46 \<and> 10 \<notin> set (take i n) \<and> glob (wild_body m) (drop (Suc i) n)) [0..<length n]
      else glob m n)"

lemma wildcard_matches_iff:
  "wildcard_matches m n \<longleftrightarrow>
     (if m = [42] then 10 \<notin> set n
      else if m \<noteq> [] \<and> hd m = 42 then
        glob (wild_body m) n \<or> (\<exists>p q. n = p @ 46 # q \<and> 10 \<notin> set p \<and> glob (wild_body m) q)
      else glob m n)"
proof -
  have "list_ex (\<lambda>i. n ! i = 46 \<and> 10 \<notin> set (take i n) \<and> glob b (drop (Suc i) n)) [0..<length n]
      \<longleftrightarrow> (\<exists>p q. n = p @ 46 # q \<and> 10 \<notin> set p \<and> glob b q)" for b
  proof
    assume "list_ex (\<lambda>i. n ! i = 46 \<and> 10 \<notin> set (take i n) \<and> glob b (drop (Suc i) n)) [0..<length n]"
    then obtain i where i: "i < length n" "n ! i = 46" "10 \<notin> set (take i n)" "glob b (drop (Suc i) n)"
      by (auto simp: list_ex_iff)
    then have "n = take i n @ 46 # drop (Suc i) n" by (metis id_take_nth_drop)
    then show "\<exists>p q. n = p @ 46 # q \<and> 10 \<notin> set p \<and> glob b q" using i by blast
  next
    assume "\<exists>p q. n = p @ 46 # q \<and> 10 \<notin> set p \<and> glob b q"
    then obtain p q where "n = p @ 46 # q" "10 \<notin> set p" "glob b q" by blast
    then show "list_ex (\<lambda>i. n ! i = 46 \<and> 10 \<notin> set (take i n) \<and> glob b (drop (Suc i) n)) [0..<length n]"
      unfolding list_ex_iff by (intro bexI [of _ "length p"]) auto
  qed
  then show ?thesis by (simp add: wildcard_matches_def)
qed

lemma star_match_iff: "star_match P k s \<longleftrightarrow> (\<exists>j. j \<le> length s \<and> (\<forall>c\<in>set (take j s). P c) \<and> k (drop j s))"
proof (induction s)
  case (Cons c s)
  show ?case
  proof
    assume "star_match P k (c # s)"
    then consider "k (c # s)" | "P c" "star_match P k s" by auto
    then show "\<exists>j. j \<le> length (c # s) \<and> (\<forall>x\<in>set (take j (c # s)). P x) \<and> k (drop j (c # s))"
    proof cases
      case 1
      then show ?thesis by (intro exI [of _ 0]) simp
    next
      case 2
      then obtain j where "j \<le> length s" "\<forall>x\<in>set (take j s). P x" "k (drop j s)" using Cons.IH by blast
      then show ?thesis using 2 by (intro exI [of _ "Suc j"]) simp
    qed
  next
    assume "\<exists>j. j \<le> length (c # s) \<and> (\<forall>x\<in>set (take j (c # s)). P x) \<and> k (drop j (c # s))"
    then obtain j where j: "j \<le> length (c # s)" "\<forall>x\<in>set (take j (c # s)). P x" "k (drop j (c # s))" by blast
    then show "star_match P k (c # s)" using Cons.IH by (cases j) auto
  qed
qed simp

lemma tok_of_simps: "tok_of 42 = LabelStar" "c \<noteq> 42 \<Longrightarrow> tok_of c = Lit c"
  by (simp_all add: tok_of_def)

lemma toks_glob: "toks_match (map tok_of m) n \<longleftrightarrow> glob m n"
proof (induction m arbitrary: n)
  case (Cons p m)
  have *: "(\<forall>c\<in>set (take j n). c \<noteq> 46) \<longleftrightarrow> 46 \<notin> set (take j n)" for j by blast
  show ?case
  proof (cases "p = 42")
    case True
    then show ?thesis by (simp add: tok_of_simps star_match_iff Cons.IH *)
  next
    case False
    then show ?thesis by (simp add: tok_of_simps Cons.IH)
  qed
qed simp

lemma glob_star: "glob (42 # m) n \<longleftrightarrow> glob m n \<or> (n \<noteq> [] \<and> hd n \<noteq> 46 \<and> glob (42 # m) (tl n))"
proof -
  have "(\<forall>c\<in>set (take j n). c \<noteq> 46) \<longleftrightarrow> 46 \<notin> set (take j n)" for j and n :: str by blast
  then have "glob (42 # m) n \<longleftrightarrow> star_match (\<lambda>c. c \<noteq> 46) (glob m) n" for n by (simp add: star_match_iff)
  then show ?thesis by (cases n) (simp_all del: glob_Cons)
qed

lemma glob_star_simps:
  "glob (42 # m) [] \<longleftrightarrow> glob m []"
  "glob (42 # m) (b # n) \<longleftrightarrow> glob m (b # n) \<or> (b \<noteq> 46 \<and> glob (42 # m) n)"
  using glob_star [of m "[]"] glob_star [of m "b # n"] by (simp_all del: glob_Cons)

text \<open>A pattern matches label by label.\<close>

lemma glob_labels: "glob m n \<longleftrightarrow> list_all2 glob (split_byte 46 m) (split_byte 46 n)"
proof (induction m arbitrary: n)
  case Nil
  then show ?case by (cases n) (auto split: list.splits)
next
  case (Cons p m)
  obtain p0 ps where m: "split_byte 46 m = p0 # ps" by (cases "split_byte 46 m") auto
  show ?case
  proof (cases "p = 42")
    case True
    have "glob (42 # m) n \<longleftrightarrow> list_all2 glob ((42 # p0) # ps) (split_byte 46 n)"
    proof (induction n)
      case Nil
      then show ?case using Cons.IH [of "[]"] m by (simp add: glob_star_simps del: glob_Cons)
    next
      case (Cons b n)
      obtain q qs where n: "split_byte 46 n = q # qs" by (cases "split_byte 46 n") auto
      show ?case using Cons.IH \<open>\<And>n. glob m n = list_all2 glob (split_byte 46 m) (split_byte 46 n)\<close> [of "b # n"] m n
        by (cases "b = 46") (auto simp: glob_star_simps simp del: glob_Cons)
    qed
    then show ?thesis using True m by simp
  next
    case False
    show ?thesis
    proof (cases n)
      case (Cons b n')
      obtain q qs where "split_byte 46 n' = q # qs" by (cases "split_byte 46 n'") auto
      then show ?thesis using False m Cons Cons.IH [of n'] by (cases "p = 46"; cases "b = 46") auto
    qed (use False m in \<open>cases "p = 46"; simp\<close>)
  qed
qed

lemma wild_toks_match: "toks_match (wild_toks m) n \<longleftrightarrow> wildcard_matches m n"
proof -
  have sub: "star_match (\<lambda>c. c \<noteq> 10) (\<lambda>s. s \<noteq> [] \<and> hd s = 46 \<and> glob b (tl s)) n
      \<longleftrightarrow> (\<exists>p q. n = p @ 46 # q \<and> 10 \<notin> set p \<and> glob b q)" for b
  proof
    assume "star_match (\<lambda>c. c \<noteq> 10) (\<lambda>s. s \<noteq> [] \<and> hd s = 46 \<and> glob b (tl s)) n"
    then obtain j where j: "\<forall>c\<in>set (take j n). c \<noteq> 10" "drop j n \<noteq> []" "hd (drop j n) = 46" "glob b (tl (drop j n))"
      by (auto simp: star_match_iff)
    then have "n = take j n @ 46 # tl (drop j n)" by (metis append_take_drop_id list.collapse)
    then show "\<exists>p q. n = p @ 46 # q \<and> 10 \<notin> set p \<and> glob b q" using j by blast
  next
    assume "\<exists>p q. n = p @ 46 # q \<and> 10 \<notin> set p \<and> glob b q"
    then obtain p q where "n = p @ 46 # q" "10 \<notin> set p" "glob b q" by blast
    then show "star_match (\<lambda>c. c \<noteq> 10) (\<lambda>s. s \<noteq> [] \<and> hd s = 46 \<and> glob b (tl s)) n"
      unfolding star_match_iff by (intro exI [of _ "length p"]) auto
  qed
  have any: "star_match (\<lambda>c. c \<noteq> 10) (toks_match []) n \<longleftrightarrow> 10 \<notin> set n"
    by (induction n) auto
  show ?thesis
    by (auto simp: wild_toks_def wildcard_matches_iff toks_glob sub any)
qed

lemma wildcard_compiled:
  assumes "documented_regex R" "is_ascii m" "length m \<le> 255"
  shows "\<exists>c. re_new R (wildcard_to_regex m) = Some c \<and> (\<forall>n. is_ascii n \<longrightarrow> re_match R c n = wildcard_matches m n)"
  using assms(1) wild_toks_ok [OF assms(2,3)] unfolding documented_regex_def wildcard_text
  by (auto simp: wild_toks_match)

subsection \<open>The key of a wildcard is found\<close>

text \<open>
  The characters that the grouping skips and the translation does not end at a label boundary: no star but a
  leading one stands directly before the first character that is neither a star nor a dot.
\<close>

definition plain_head :: "str \<Rightarrow> bool" where
  "plain_head m \<longleftrightarrow> (let p = takeWhile (\<lambda>b. b = 42 \<or> b = 46) (wild_body m) in p = [] \<or> last p = 46)"

lemma trim_stars_body: "trim_stars (wild_body m) = trim_stars m"
proof (cases m)
  case (Cons c m')
  then show ?thesis by (cases m') (auto simp: wild_body_def trim_stars_def numeral_2_eq_2)
qed (simp add: wild_body_def trim_stars_def)

lemma glob_literal: "42 \<notin> set s \<Longrightarrow> glob s n \<longleftrightarrow> n = s"
proof (induction s arbitrary: n)
  case (Cons c s)
  then show ?case by (cases n) auto
qed simp

lemma glob_append: "42 \<notin> set s \<Longrightarrow> glob (p @ s) n \<Longrightarrow> \<exists>q. n = q @ s \<and> glob p q"
proof (induction p arbitrary: n)
  case Nil
  then show ?case using glob_literal by simp
next
  case (Cons c p)
  show ?case
  proof (cases "c = 42")
    case True
    then obtain k where k: "k \<le> length n" "46 \<notin> set (take k n)" "glob (p @ s) (drop k n)" using Cons.prems by auto
    from Cons.IH [OF Cons.prems(1) k(3)] obtain q where q: "drop k n = q @ s" "glob p q" by blast
    then have "n = (take k n @ q) @ s" by (metis append_assoc append_take_drop_id)
    moreover have "glob (c # p) (take k n @ q)"
      using True k(1,2) q(2) by (auto intro!: exI [of _ k])
    ultimately show ?thesis by blast
  next
    case False
    then have n: "n \<noteq> []" "hd n = c" "glob (p @ s) (tl n)" using Cons.prems(2) by auto
    from Cons.IH [OF Cons.prems(1) n(3)] obtain q where "tl n = q @ s" "glob p q" by blast
    then show ?thesis using n False by (intro exI [of _ "c # q"]) (cases n, auto)
  qed
qed

lemma split_once_parts: "split_once c s = Some (a, b) \<Longrightarrow> s = a @ c # b \<and> c \<notin> set a"
proof -
  assume "split_once c s = Some (a, b)"
  then have ab: "a = takeWhile (\<lambda>x. x \<noteq> c) s" "b = tl (dropWhile (\<lambda>x. x \<noteq> c) s)" "c \<in> set s"
    by (auto simp: split_once_def split: if_splits)
  then have "dropWhile (\<lambda>x. x \<noteq> c) s \<noteq> []" by simp
  then have "dropWhile (\<lambda>x. x \<noteq> c) s = c # b" using hd_dropWhile [of "\<lambda>x. x \<noteq> c" s] ab(2)
    by (cases "dropWhile (\<lambda>x. x \<noteq> c) s") simp_all
  then have "s = a @ c # b" using ab(1) by (metis takeWhile_dropWhile_id)
  moreover have "c \<notin> set a" using set_takeWhileD [of c "\<lambda>x. x \<noteq> c" s] ab(1) by blast
  ultimately show ?thesis by blast
qed

lemma intercalate_split: "intercalate [c] (split_byte c s) = s"
proof (induction s)
  case (Cons b s)
  obtain p ps where "split_byte c s = p # ps" by (cases "split_byte c s") auto
  then show ?case using Cons by (cases ps) auto
qed simp

lemma label_parts_head: "\<exists>x parts. label_parts n = (n, x) # parts"
  by (subst label_parts.simps) (auto split: option.split)

lemma whole_in: "n \<in> set (name_suffixes n)"
  using label_parts_head [of n] by (auto simp: name_suffixes_def)

lemma suffix_in: "n = x @ 46 # s \<Longrightarrow> s \<in> set (name_suffixes n)"
proof (induction n arbitrary: x rule: label_parts.induct)
  case (1 n)
  obtain l rest where sp: "split_once 46 n = Some (l, rest)"
    using 1(2) by (auto simp: split_once_def)
  then have n: "n = l @ 46 # rest" "46 \<notin> set l" using split_once_parts by blast+
  have mem: "name_suffixes n = n # name_suffixes rest"
    by (simp add: name_suffixes_def label_parts.simps [of n] sp)
  show ?case
  proof (cases "x = l")
    case True
    then have "rest = s" using 1(2) n(1) by simp
    then show ?thesis by (simp add: mem whole_in)
  next
    case False
    then obtain y where "rest = y @ 46 # s"
      using 1(2) n by (auto simp: append_eq_append_conv2 Cons_eq_append_conv append_eq_Cons_conv)
    then show ?thesis using 1(1) [OF sp refl] by (simp add: mem)
  qed
qed

lemma intercalate_last_two:
  "length ps \<ge> 2 \<Longrightarrow> \<exists>p. intercalate [46] ps = p @ intercalate [46] (drop (length ps - 2) ps) \<and> (p = [] \<or> last p = 46)"
proof (induction ps)
  case (Cons a ps)
  show ?case
  proof (cases "length ps \<ge> 2")
    case True
    then obtain p where "intercalate [46] ps = p @ intercalate [46] (drop (length ps - 2) ps)" "p = [] \<or> last p = 46"
      using Cons.IH by blast
    moreover have "drop (length (a # ps) - 2) (a # ps) = drop (length ps - 2) ps"
      using True by (simp add: drop_Cons' numeral_2_eq_2)
    moreover have "intercalate [46] (a # ps) = a @ 46 # intercalate [46] ps" using True by (cases ps) auto
    ultimately show ?thesis by (intro exI [of _ "a @ 46 # p"]) auto
  next
    case False
    then have "length (a # ps) = 2" using Cons.prems by simp
    then have "drop (length (a # ps) - 2) (a # ps) = a # ps" by simp
    then show ?thesis by (intro exI [of _ "[]"]) simp
  qed
qed simp

lemma group_suffix_split:
  assumes "group_suffix m = s" "s \<noteq> []"
  shows "42 \<notin> set s" "\<exists>p. trim_stars m = p @ s \<and> (p = [] \<or> last p = 46)"
proof -
  let ?ps = "split_byte 46 (trim_stars m)"
  have l: "length ?ps \<ge> 2" and s: "s = intercalate [46] (drop (length ?ps - 2) ?ps)" and "42 \<notin> set s"
    using assms by (auto simp: group_suffix_def Let_def split: if_splits)
  then show "42 \<notin> set s" by simp
  have "intercalate [46] ?ps = trim_stars m" by (rule intercalate_split)
  then show "\<exists>p. trim_stars m = p @ s \<and> (p = [] \<or> last p = 46)"
    using intercalate_last_two [OF l] s by auto
qed

text \<open>A grouped wildcard is among the keys looked up for every name it matches.\<close>

lemma group_key_found:
  assumes "group_suffix m = s" "s \<noteq> []" "plain_head m" "wildcard_matches m n"
  shows "s \<in> set (name_suffixes n)"
proof -
  obtain p where p: "trim_stars m = p @ s" "p = [] \<or> last p = 46" and s: "42 \<notin> set s"
    using group_suffix_split [OF assms(1,2)] by blast
  define h where "h = takeWhile (\<lambda>b. b = 42 \<or> b = 46) (wild_body m) @ p"
  have "wild_body m = takeWhile (\<lambda>b. b = 42 \<or> b = 46) (wild_body m) @ trim_stars (wild_body m)"
    by (simp add: trim_stars_def)
  then have b: "wild_body m = h @ s" using p(1) by (simp add: h_def trim_stars_body)
  have e: "h = [] \<or> last h = 46" using p(2) assms(3) 
    by (cases "p = []") (auto simp: h_def plain_head_def Let_def)
  have at: "q = s \<or> (\<exists>y. q = y @ 46 # s)" if "glob (h @ s) q" for q
  proof -
    from glob_append [OF s that] obtain q' where q': "q = q' @ s" "glob h q'" by blast
    show ?thesis
    proof (cases "h = []")
      case False
      then have "h = butlast h @ [46]" using e by (metis append_butlast_last_id)
      then have "glob (butlast h @ [46]) q'" using q'(2) by simp
      from glob_append [OF _ this] obtain z where "q' = z @ [46]" by auto
      then show ?thesis using q'(1) by simp
    qed (use q' in simp)
  qed
  have "m \<noteq> [42]" using assms(1,2) by (auto simp: group_suffix_def trim_stars_def)
  then consider "glob (h @ s) n" | x q where "n = x @ 46 # q" "glob (h @ s) q"
    using assms(4) b by (auto simp: wildcard_matches_iff wild_body_def split: if_splits)
  then show ?thesis
  proof cases
    case 1
    then show ?thesis using at [of n] whole_in suffix_in by blast
  next
    case 2
    then have "(\<exists>y. n = y @ 46 # s)" using at [of q] by (metis append.assoc append_Cons)
    then show ?thesis using suffix_in by blast
  qed
qed

subsection \<open>No wildcard is passed over\<close>

lemma label_parts_dots: "trim_dots c = c' \<Longrightarrow> c' \<noteq> [] \<Longrightarrow> c = [] \<or> last c \<noteq> 46 \<Longrightarrow>
    \<exists>d. c = d @ c' \<and> (d = [] \<or> last d = 46)"
proof -
  assume c: "trim_dots c = c'" "c' \<noteq> []" "c = [] \<or> last c \<noteq> 46"
  let ?d = "takeWhile (\<lambda>b. b = 46) c" and ?r = "dropWhile (\<lambda>b. b = 46) c"
  have app: "c = ?d @ ?r" by simp
  have ne: "?r \<noteq> []" using c(1,2) unfolding trim_dots_def by (metis dropWhile.simps(1) rev.simps(1))
  then have "last ?r \<noteq> 46" using c(3) app by (metis last_appendR append_is_Nil_conv)
  then have "dropWhile (\<lambda>b. b = 46) (rev ?r) = rev ?r" using ne by (cases "rev ?r") (auto simp: last_rev hd_rev [symmetric])
  then have "c' = ?r" using c(1) by (simp add: trim_dots_def)
  moreover have "last ?d = 46" if "?d \<noteq> []" using that set_takeWhileD [OF last_in_set [OF that]] by simp
  ultimately show ?thesis using app by blast
qed

lemma dropWhile_all: "dropWhile P (rev (dropWhile P c)) = [] \<Longrightarrow> c = [] \<or> P (last c)"
proof -
  assume "dropWhile P (rev (dropWhile P c)) = []"
  then have d: "\<forall>x\<in>set (dropWhile P c). P x" unfolding dropWhile_eq_Nil_conv set_rev .
  have "P x" if "x \<in> set c" for x
  proof (cases "x \<in> set (dropWhile P c)")
    case False
    then have "x \<in> set (takeWhile P c)" using that by (metis Un_iff set_append takeWhile_dropWhile_id)
    then show ?thesis using set_takeWhileD by metis
  qed (use d in blast)
  then show ?thesis using last_in_set by blast
qed

lemma trim_dots_Nil: "trim_dots c = [] \<Longrightarrow> c = [] \<or> last c = 46"
  using dropWhile_all [of "\<lambda>b. b = 46" c] unfolding trim_dots_def rev_is_Nil_conv .

lemma star_core_body: "star_core m = Some c \<Longrightarrow> wild_body m = c \<and> 42 \<notin> set c \<and> m = 42 # 46 # c"
  by (auto simp: star_core_def strip_prefix_def wild_body_def numeral_2_eq_2 split: if_splits option.splits;
      cases m; cases "tl m"; auto)

lemma suffix_at:
  assumes "n = d @ c" "d = [] \<or> last d = 46"
  shows "c \<in> set (name_suffixes n)"
proof (cases "d = []")
  case False
  then have "n = butlast d @ 46 # c" using assms by (metis append_butlast_last_id append.assoc append_Cons append_Nil)
  then show ?thesis by (rule suffix_in)
qed (use assms whole_in in simp)

lemma star_core_found:
  assumes "star_core m = Some c" "trim_dots c \<noteq> []" "last m \<noteq> 46" "wildcard_matches m n"
  shows "trim_dots c \<in> set (name_suffixes n)"
proof -
  note c = star_core_body [OF assms(1)]
  have "c = [] \<or> last c \<noteq> 46" using c assms(3) by (cases c) auto
  then obtain d where d: "c = d @ trim_dots c" "d = [] \<or> last d = 46"
    using label_parts_dots [OF refl assms(2)] by blast
  have "n = c \<or> (\<exists>x. n = x @ 46 # c)"
    using assms(4) c glob_literal [of c] by (auto simp: wildcard_matches_iff)
  then show ?thesis
  proof
    assume "n = c"
    then show ?thesis using suffix_at d by metis
  next
    assume "\<exists>x. n = x @ 46 # c"
    then obtain x where "n = (x @ 46 # d) @ trim_dots c" using d(1) by (metis append.assoc append_Cons)
    then show ?thesis by (rule suffix_at) (use d(2) in auto)
  qed
qed

lemma scan_found:
  assumes "r \<in> set rules" "P r" "find P rules \<in> set xs"
  shows "first_some xs \<noteq> None"
proof
  assume "first_some xs = None"
  then have "find P rules = None" using assms(3) by (simp only: first_some_None)
  then show False using assms(1,2) by (simp add: find_None_iff)
qed

lemma wildcard_scan:
  assumes "documented_regex R" "r \<in> set rules" "strip_prefix (lit ''re:'') (ru_match r) = None" "42 \<in> set (ru_match r)"
    and "last (ru_match r) \<noteq> 46" "plain_head (ru_match r)" "is_ascii (ru_match r)" "length (ru_match r) \<le> 255"
    and "is_ascii n" "length (label_parts n) \<le> MAX_LABELS" "wildcard_matches (ru_match r) n"
  shows "priority_scan R rules n \<noteq> None"
proof -
  let ?m = "ru_match r"
  obtain c where c: "re_new R (wildcard_to_regex ?m) = Some c" "re_match R c n"
    using wildcard_compiled [OF assms(1,7,8)] assms(9,11) by blast
  show ?thesis
  proof (cases "star_core ?m")
    case (Some core)
    have m: "?m = 42 # 46 # core" using star_core_body [OF Some] by blast
    show ?thesis
    proof (cases "trim_dots core = []")
      case True
      then have "core = [] \<or> last core = 46" by (rule trim_dots_Nil)
      then show ?thesis using m assms(5) by (cases core) auto
    next
      case False
      then have sl: "slot_of R r = WildSlot (is_allow (ru_action r)) (trim_dots core)"
        using assms(3) Some by (simp add: slot_of_def Let_def)
      have "trim_dots core \<in> set (name_suffixes n)"
        by (rule star_core_found [OF Some False assms(5,11)])
      then have "find (\<lambda>x. slot_of R x = WildSlot w (trim_dots core)) rules
          \<in> (\<lambda>s. find (\<lambda>x. slot_of R x = WildSlot w s) rules) ` set (name_suffixes n)" for w
        by (rule imageI)
      then show ?thesis unfolding priority_scan_def
        by (intro scan_found [OF assms(2), where P = "\<lambda>x. slot_of R x = WildSlot (is_allow (ru_action r)) (trim_dots core)"] sl)
          (cases "is_allow (ru_action r)"; simp)
    qed
  next
    case None
    show ?thesis
    proof (cases "group_suffix ?m = []")
      case True
      then have "pattern_rule R n r" using None c assms(3,4) by (simp add: pattern_rule_def slot_of_def Let_def)
      then show ?thesis unfolding priority_scan_def by (rule scan_found [OF assms(2)]) simp
    next
      case False
      then have "group_rule R n (group_suffix ?m) r" using None c assms(3,4) by (simp add: group_rule_def slot_of_def Let_def)
      moreover have "group_suffix ?m \<in> set (candidates n)"
        using group_key_found [OF refl False assms(6,11)] by (simp add: candidates_def)
      ultimately show ?thesis unfolding priority_scan_def
        by (intro scan_found [OF assms(2), of "group_rule R n (group_suffix ?m)"]) (use assms(10) in auto)
    qed
  qed
qed

subsection \<open>A matcher for these patterns\<close>

definition tok_read :: "str \<Rightarrow> (re_tok \<times> str) option" where
  "tok_read s =
     (case strip_prefix (tok_text AnyStar) s of Some t \<Rightarrow> Some (AnyStar, t) | None \<Rightarrow>
     (case strip_prefix (tok_text LabelStar) s of Some t \<Rightarrow> Some (LabelStar, t) | None \<Rightarrow>
     (case strip_prefix (tok_text SubOpt) s of Some t \<Rightarrow> Some (SubOpt, t) | None \<Rightarrow>
     (case s of
        c # t \<Rightarrow> if c = 92 then (case t of b # t \<Rightarrow> Some (Lit b, t) | [] \<Rightarrow> None) else Some (Lit c, t)
      | [] \<Rightarrow> None))))"

lemma strip_prefix_some: "strip_prefix p s = Some t \<Longrightarrow> s = p @ t"
  by (auto simp: strip_prefix_def split: if_splits) (metis append_take_drop_id)

lemma tok_read_shorter: "tok_read s = Some (k, t) \<Longrightarrow> length t < length s"
  by (auto simp: tok_read_def dest!: strip_prefix_some split: option.splits list.splits if_splits)

function toks_read :: "str \<Rightarrow> re_tok list option" where
  "toks_read s =
     (if s = [36] then Some []
      else case tok_read s of Some (k, t) \<Rightarrow> map_option ((#) k) (toks_read t) | None \<Rightarrow> None)"
  by pat_completeness auto
termination by (relation "measure length") (auto dest: tok_read_shorter)

declare toks_read.simps [simp del]

lemma tok_read_text: "tok_read (tok_text k @ s) = Some (k, s)"
  by (cases k) (auto simp: tok_read_def strip_prefix_def needs_escape_def)

lemma toks_read_text: "toks_read (concat (map tok_text ts) @ [36]) = Some ts"
proof (induction ts)
  case (Cons k ts)
  have "tok_text k @ concat (map tok_text ts) @ [36] \<noteq> [36]"
    by (cases k) (auto simp: needs_escape_def)
  then show ?case using Cons tok_read_text [of k] by (subst toks_read.simps) simp
qed (simp add: toks_read.simps)

definition frag_regex :: "re_tok list regex_lib" where
  "frag_regex = \<lparr>re_new = (\<lambda>s. Option.bind (strip_prefix (lit ''^'') s) toks_read), re_match = toks_match\<rparr>"

lemma frag_documented: "documented_regex frag_regex"
  unfolding documented_regex_def frag_regex_def re_text_def
  using toks_read_text by (auto simp: strip_prefix_append [of "[94]", simplified])

lemma group_unseen: "slot_of R r = GroupSlot k c \<Longrightarrow> k \<notin> set (candidates n) \<Longrightarrow> priority_scan R [r] n = None"
  by (auto simp: priority_scan_def first_some_None group_rule_def pattern_rule_def)

subsection \<open>Properties\<close>




definition star_rule :: "str \<Rightarrow> rule" where
  "star_rule m = \<lparr>ru_id = None, ru_match = m, ru_action = Block, ru_group = None, ru_ip = None, ru_enabled = True,
     ru_comment = None, ru_source = LocalRule\<rparr>"


text \<open>The pattern \<open>**tracker.com\<close> is passed over: its regular expression matches \<open>mytracker.com\<close>, yet the verdict
  on that name is ``no rule'', because the group is filed under \<open>tracker.com\<close> and the lookup tries no more than
  the last four characters of a label.\<close>

theorem double_star_missed:
  assumes "documented_regex R"
  shows "\<exists>c. re_new R (wildcard_to_regex (lit ''**tracker.com'')) = Some c \<and> re_match R c (lit ''mytracker.com'')
    \<and> verdict R (fst (index_build R [star_rule (lit ''**tracker.com'')])) (lit ''mytracker.com'') False = Some None"
proof -
  let ?m = "lit ''**tracker.com''" and ?n = "lit ''mytracker.com''"
  have "is_ascii ?m" "length ?m \<le> 255" "is_ascii ?n" "wildcard_matches ?m ?n" by code_simp+
  then obtain c where c: "re_new R (wildcard_to_regex ?m) = Some c" "re_match R c ?n"
    using wildcard_compiled [OF assms] by blast
  have "strip_prefix (lit ''re:'') ?m = None" "star_core ?m = None" "42 \<in> set ?m" "group_suffix ?m = lit ''tracker.com''"
    by code_simp+
  then have sl: "slot_of R (star_rule ?m) = GroupSlot (lit ''tracker.com'') c"
    using c(1) by (simp add: slot_of_def star_rule_def Let_def)
  have "lit ''tracker.com'' \<notin> set (candidates ?n)" by code_simp
  then have "priority_scan R [star_rule ?m] ?n = None" by (rule group_unseen [OF sl])
  then show ?thesis using c by (auto simp: verdict_scan)
qed

theorem double_star_missed_witness:
  "\<exists>c. re_new frag_regex (wildcard_to_regex (lit ''**tracker.com'')) = Some c"
  using double_star_missed [OF frag_documented] by blast

end
