(* ===== verification/Rule_Lists.thy ===== *)
theory Rule_Lists
  imports Rule_Index
begin

text \<open>
  \<open>ebpdns-rules/src/parse.rs\<close>: reading a list of domains in any of the formats that lists come in, and the
  normal form of the rules read from JSON (\<open>rule.rs\<close>).

  The patterns are the ones of the code; compiling and matching them, and the text of the first group, are
  the parameter \<open>pattern_lib\<close> (crate \<open>regex\<close>).  The set \<open>seen\<close> of the code is the set of what \<open>out\<close> holds.
\<close>

record 're pattern_lib = "'re regex_lib" +
  re_group :: "'re \<Rightarrow> str \<Rightarrow> str option"

text \<open>A constant pattern, compiled at its first use; one that does not compile would be a panic.\<close>

definition re_is :: "('re, 'm) pattern_lib_scheme \<Rightarrow> str \<Rightarrow> str \<Rightarrow> bool" where
  "re_is R p s = (case re_new R p of Some c \<Rightarrow> re_match R c s | None \<Rightarrow> False)"

definition re_cap :: "('re, 'm) pattern_lib_scheme \<Rightarrow> str \<Rightarrow> str \<Rightarrow> str option" where
  "re_cap R p s = Option.bind (re_new R p) (\<lambda>c. re_group R c s)"

definition RE_YAML_KEY :: str where "RE_YAML_KEY = lit ''^[a-z_]+'' @ [92] @ lit ''s*:'' @ [92] @ lit ''s*$''"
definition RE_DNSMASQ :: str where
  "RE_DNSMASQ = lit ''address'' @ [92] @ lit ''s*='' @ [92] @ lit ''s*/([^'' @ [92] @ lit ''s]+)''"
definition RE_DNSMASQ2 :: str where "RE_DNSMASQ2 = lit ''^address'' @ [92] @ lit ''s+/([^/'' @ [92] @ lit ''s]+)''"
definition RE_SURGE :: str where
  "RE_SURGE = lit ''^(?:DOMAIN-SUFFIX|DOMAIN|DOMAIN-KEYWORD|HOST-SUFFIX|HOST)'' @ [92] @ lit ''s*,'' @ [92] @ lit ''s*(.+)$''"
definition RE_CLASH :: str where "RE_CLASH = lit ''^- *['' @ [34, 39] @ lit ''+]*'' @ [92] @ lit ''.?([A-Za-z0-9_.-]+)''"
definition RE_ADBLOCK :: str where "RE_ADBLOCK = lit ''^'' @ [92, 124, 92, 124] @ lit ''([^/^]+)''"
definition RE_DOMAIN :: str where
  "RE_DOMAIN = lit ''^('' @ [92] @ lit ''*'' @ [92] @ lit ''.)?[a-z0-9_'' @ [92] @ lit ''-]+('' @ [92] @ lit ''.[a-z0-9_''
     @ [92] @ lit ''-]+)*$''"

text \<open>\<open>trim_matches\<close> of some ASCII characters.\<close>

definition trim_any :: "u8 list \<Rightarrow> str \<Rightarrow> str" where
  "trim_any cs s = rev (dropWhile (\<lambda>b. b \<in> set cs) (rev (dropWhile (\<lambda>b. b \<in> set cs) s)))"

definition push_new :: "str \<Rightarrow> str list \<Rightarrow> str list" where
  "push_new t out = (if t \<in> set out then out else out @ [t])"

definition add_tok :: "('re, 'm) pattern_lib_scheme \<Rightarrow> str \<Rightarrow> str list \<Rightarrow> str list" where
  "add_tok R tok out =
     (let tok = trim_any (lit ''[]()'') (trim tok);
          tok = ascii_lower (trim_dots tok) in
      if tok = [] then out
      else if ip_addr_parse (trim_any (lit ''[]'') tok) \<noteq> None then out
      else case strip_prefix (lit ''re:'') tok of
        Some rest \<Rightarrow>
          (if length tok > MATCH_MAX_BYTES \<or> has_control_char tok then out
           else if trim rest = [] then out
           else if re_new R rest = None then out
           else push_new tok out)
      | None \<Rightarrow>
          (let tok = hd (split_byte 47 tok); tok = hd (split_byte 58 tok); tok = trim_dots tok in
           if \<not> re_is R RE_DOMAIN tok then out else push_new tok out))"

text \<open>\<open>str::lines\<close>: a line feed ends a line, with the carriage return before it.\<close>

definition drop_cr :: "str \<Rightarrow> str" where
  "drop_cr l = (if l \<noteq> [] \<and> last l = 13 then butlast l else l)"

definition lines_of :: "str \<Rightarrow> str list" where
  "lines_of s = (let ps = split_byte 10 s in map drop_cr (butlast ps) @ (if last ps = [] then [] else [last ps]))"

definition starts_with :: "str \<Rightarrow> str \<Rightarrow> bool" where
  "starts_with p s \<longleftrightarrow> strip_prefix p s \<noteq> None"

definition list_line :: "('re, 'm) pattern_lib_scheme \<Rightarrow> str \<Rightarrow> str list \<Rightarrow> str list" where
  "list_line R line out =
     (let line = trim line in
      if line = [] then out
      else if starts_with (lit ''#'') line \<or> starts_with (lit ''!'') line \<or> starts_with (lit ''//'') line
        \<or> starts_with (lit '';'') line then out
      else if starts_with (lit ''@@'') line then out
      else if re_is R RE_YAML_KEY line then out
      else case re_cap R RE_DNSMASQ line of
        Some m \<Rightarrow> fold (add_tok R) (split_byte 47 (trim_any [47] m)) out
      | None \<Rightarrow>
      (case re_cap R RE_DNSMASQ2 line of Some m \<Rightarrow> add_tok R m out | None \<Rightarrow>
      (case re_cap R RE_SURGE line of Some m \<Rightarrow> add_tok R m out | None \<Rightarrow>
      (case re_cap R RE_CLASH line of Some m \<Rightarrow> add_tok R m out | None \<Rightarrow>
      (case re_cap R RE_ADBLOCK line of
         Some m \<Rightarrow> add_tok R (rev (dropWhile (\<lambda>b. b = 94) (rev m))) out
       | None \<Rightarrow> fold (add_tok R) (concat (map (split_byte 44) (split_whitespace line))) out)))))"

definition parse_domain_list :: "('re, 'm) pattern_lib_scheme \<Rightarrow> str \<Rightarrow> str list" where
  "parse_domain_list R text = fold (list_line R) (lines_of text) []"

subsection \<open>What a list may hold\<close>

definition list_entry :: "('re, 'm) pattern_lib_scheme \<Rightarrow> str \<Rightarrow> bool" where
  "list_entry R t \<longleftrightarrow>
     ascii_lower t = t
     \<and> (case strip_prefix (lit ''re:'') t of
          Some p \<Rightarrow> trim p \<noteq> [] \<and> re_new R p \<noteq> None \<and> \<not> has_control_char t \<and> length t \<le> MATCH_MAX_BYTES
        | None \<Rightarrow> re_is R RE_DOMAIN t)"

definition list_ok :: "('re, 'm) pattern_lib_scheme \<Rightarrow> str list \<Rightarrow> bool" where
  "list_ok R out \<longleftrightarrow> distinct out \<and> (\<forall>t\<in>set out. list_entry R t)"

lemma lower_byte_idem: "lower_byte (lower_byte b) = lower_byte b"
  unfolding lower_byte_def by (auto simp: word_le_nat_alt word_less_nat_alt unat_word_ariths split: if_splits)

lemma ascii_lower_idem [simp]: "ascii_lower (ascii_lower s) = ascii_lower s"
  by (simp add: ascii_lower_def lower_byte_idem comp_def)

lemma ascii_lower_fix: "ascii_lower s = s \<longleftrightarrow> (\<forall>b\<in>set s. lower_byte b = b)"
  by (induction s) (auto simp: ascii_lower_def)

lemma lower_sub: "ascii_lower s = s \<Longrightarrow> set t \<subseteq> set s \<Longrightarrow> ascii_lower t = t"
  by (auto simp: ascii_lower_fix)

lemma trim_dots_sub: "set (trim_dots s) \<subseteq> set s"
  by (auto simp: trim_dots_def dest!: set_dropWhileD)

lemma hd_split_sub: "set (hd (split_byte c s)) \<subseteq> set s"
  using split_byte_set [of "hd (split_byte c s)" c s] by simp

lemma push_ok: "list_ok R out \<Longrightarrow> list_entry R t \<Longrightarrow> list_ok R (push_new t out)"
  by (auto simp: list_ok_def push_new_def)

text \<open>A name of a list begins with no colon prefix: \<open>split(':')\<close> has cut it.\<close>

lemma hd_split_no_sep: "c \<notin> set (hd (split_byte c s))"
  by (induction s) (auto split: list.split)

lemma add_ok: "list_ok R out \<Longrightarrow> list_ok R (add_tok R tok out)"
proof -
  assume ok: "list_ok R out"
  define t where "t = ascii_lower (trim_dots (trim_any (lit ''[]()'') (trim tok)))"
  define u where "u = trim_dots (hd (split_byte 58 (hd (split_byte 47 t))))"
  have low: "ascii_lower t = t" by (simp add: t_def)
  have "set u \<subseteq> set t" unfolding u_def using trim_dots_sub hd_split_sub by blast
  then have lu: "ascii_lower u = u" using low lower_sub by blast
  have "58 \<notin> set u" unfolding u_def using trim_dots_sub hd_split_no_sep by blast
  then have "strip_prefix (lit ''re:'') u = None" by (auto simp: strip_prefix_def dest: arg_cong [where f = set]) (metis in_set_takeD list.set_intros)
  then have eu: "re_is R RE_DOMAIN u \<Longrightarrow> list_entry R u" using lu by (simp add: list_entry_def)
  show ?thesis
    using ok low eu unfolding add_tok_def Let_def t_def [symmetric] u_def [symmetric]
    by (auto intro!: push_ok simp: list_entry_def split: option.split)
qed

lemma fold_add_ok: "list_ok R out \<Longrightarrow> list_ok R (fold (add_tok R) ts out)"
  by (induction ts arbitrary: out) (simp_all add: add_ok)

lemma line_ok: "list_ok R out \<Longrightarrow> list_ok R (list_line R l out)"
  by (auto simp: list_line_def Let_def fold_add_ok add_ok split: option.split)

text \<open>Whatever the text of a list holds, what is read from it has no entry twice, and every entry is lower case and is
  either a name that the pattern for names accepts, or \<open>re:\<close> with a pattern that compiles, is not blank, has no
  control character and with its prefix is at most 4096 bytes long.\<close>

theorem domain_list_sound:
  "distinct (parse_domain_list R s) \<and> list_all (list_entry R) (parse_domain_list R s)"
proof -
  have "list_ok R (fold (list_line R) ls out)" if "list_ok R out" for ls out
    using that by (induction ls arbitrary: out) (simp_all add: line_ok)
  moreover have "list_ok R []" by (simp add: list_ok_def)
  ultimately have "list_ok R (parse_domain_list R s)" unfolding parse_domain_list_def by blast
  then show ?thesis by (simp add: list_ok_def list_all_iff)
qed

text \<open>A bare address is skipped, but one with a prefix length is read as a name: the address is looked for before
  the slash is cut off.\<close>

lemma cidr_no_address: "ip_addr_parse (lit ''10.0.0.0/8'') = None"
proof -
  have "read_groups 8 0 (lit ''10.0.0.0/8'') = ([2560, 0], True, lit ''/8'')"
    using read_groups.simps(2) [of 7 0 "lit ''10.0.0.0/8''"]
    by (simp add: read_sep_def read_ip4_def read_octet_def octet_ok_def dec_val_def ascii_digit_def read_char_def)
  then have "ip6_parse (lit ''10.0.0.0/8'') = None" by (simp add: ip6_parse_def)
  then show ?thesis
    by (simp add: ip_addr_parse_def ip4_parse_def octet_ok_def dec_val_def ascii_digit_def)
qed

lemma cidr_is_a_name:
  assumes "re_is R RE_DOMAIN (lit ''10.0.0.0'')"
  shows "add_tok R (lit ''10.0.0.0'') [] = []" and "add_tok R (lit ''10.0.0.0/8'') [] = [lit ''10.0.0.0'']"
proof -
  let ?a = "lit ''10.0.0.0''" and ?b = "lit ''10.0.0.0/8''"
  have "ascii_lower (trim_dots (trim_any (lit ''[]()'') (trim ?a))) = ?a"
    "ascii_lower (trim_dots (trim_any (lit ''[]()'') (trim ?b))) = ?b"
    "trim_any (lit ''[]'') ?a = ?a" "trim_any (lit ''[]'') ?b = ?b"
    "strip_prefix (lit ''re:'') ?b = None" "trim_dots (hd (split_byte 58 (hd (split_byte 47 ?b)))) = ?a"
    by code_simp+
  moreover have "ip_addr_parse ?a \<noteq> None"
    by (simp add: ip_addr_parse_def ip4_parse_def octet_ok_def dec_val_def ascii_digit_def)
  ultimately show "add_tok R ?a [] = []" "add_tok R ?b [] = [?a]"
    unfolding add_tok_def Let_def by (simp_all only: assms push_new_def cidr_no_address option.case simp_thms append_Nil empty_iff list.set) simp_all
qed

subsection \<open>The normal form of a rule\<close>

lemma trim_end_last: "trim_end_dots s = [] \<or> last (trim_end_dots s) \<noteq> 46"
  unfolding trim_end_dots_def using hd_dropWhile [of "\<lambda>b. b = 46" "rev s"]
  by (auto simp: last_rev simp del: dropWhile_eq_Nil_conv)

lemma lower_dot: "lower_byte b = 46 \<longleftrightarrow> b = 46"
  unfolding lower_byte_def by (auto simp: word_le_nat_alt unat_word_ariths word_unat_eq_iff split: if_splits)

text \<open>A rule read from JSON has a pattern that is not empty, is lower case and does not end in a dot; a rule that
  forces an address has one; the group, the id and the comment are absent or not empty; and the source is the
  file's.\<close>

theorem rule_normal_form:
  assumes "rule_from_json m src = Some r"
  shows "ru_match r \<noteq> [] \<and> ascii_lower (ru_match r) = ru_match r \<and> last (ru_match r) \<noteq> 46
    \<and> (ru_action r = ForceIp \<longrightarrow> ru_ip r \<noteq> None)
    \<and> ru_group r \<noteq> Some [] \<and> ru_id r \<noteq> Some [] \<and> ru_comment r \<noteq> Some [] \<and> ru_source r = src"
proof -
  let ?map = "normalize_rule m"
  define t where "t = trim_end_dots (trim (case str_member ?map (lit ''match'') of Some s \<Rightarrow> s | None \<Rightarrow> []))"
  have ne: "text_member x k \<noteq> Some []" for x k by (simp add: text_member_def split: option.split)
  have last: "s \<noteq> [] \<Longrightarrow> last s \<noteq> 46 \<Longrightarrow> last (ascii_lower s) \<noteq> 46" for s
    by (simp add: ascii_lower_def last_map lower_dot)
  have "t = [] \<or> last t \<noteq> 46" unfolding t_def by (rule trim_end_last)
  then have "ascii_lower t = [] \<or> last (ascii_lower t) \<noteq> 46" using last [of t] by (auto simp: ascii_lower_def)
  then show ?thesis
    using assms ne unfolding rule_from_json_def Let_def t_def [symmetric]
    by (auto split: if_splits)
qed

definition old_form :: json_map where
  "old_form = [(lit ''pattern'', JStr (lit '' Ads.Test. '')), (lit ''action'', JStr (lit ''allow''))]"

theorem rule_normal_form_witness: "\<exists>r. rule_from_json old_form LocalRule = Some r \<and> ru_source r = LocalRule"
proof -
  have "rule_from_json old_form LocalRule \<noteq> None" by code_simp
  then obtain r where "rule_from_json old_form LocalRule = Some r" by blast
  then show ?thesis using rule_normal_form by blast
qed

text \<open>The pattern behind \<open>re:\<close> is put into lower case with the rest, which turns a class into its complement.\<close>

lemma regex_class_lowered:
  "map_option ru_match (rule_from_json [(lit ''match'', JStr (lit ''re:^'' @ [92] @ lit ''D+$''))] LocalRule)
     = Some (lit ''re:^'' @ [92] @ lit ''d+$'')"
  by code_simp

subsection \<open>The kind of a rule\<close>

text \<open>The kind of a pattern that the counters use is the kind of the table that the index files the rule in.\<close>

theorem match_kind_mirrors:
  "match_kind (ru_match r) =
     (case slot_of R r of
        ExactSlot _ _ \<Rightarrow> lit ''exact''
      | WildSlot _ _ \<Rightarrow> lit ''wild_suffix''
      | GroupSlot _ _ \<Rightarrow> lit ''wild_infix''
      | RegexSlot _ \<Rightarrow> lit ''regex''
      | NoSlot \<Rightarrow> match_kind (ru_match r))"
proof -
  have "intercalate [46] (drop (length ps - 2) ps) \<noteq> []" if "length ps \<ge> 2" for ps
  proof -
    have "length (drop (length ps - 2) ps) = Suc (Suc 0)" using that by simp
    then obtain x y where "drop (length ps - 2) ps = [x, y]" by (auto simp only: length_Suc_conv length_0_conv)
    then show ?thesis by simp
  qed
  then show ?thesis
    by (auto simp: match_kind_def slot_of_def Let_def group_suffix_def split: option.split)
qed

end
