(* ===== verification/Header_Check.thy ===== *)
theory Header_Check
  imports Query
begin

text \<open>
  \<open>ebpdns-upstream/src/header_check.rs\<close>: the structural checks of an upstream's response and the controller that
  gives up the 0x20 check for an upstream that keeps breaking it.  An \<open>Instant\<close> is a real number of seconds; the
  map of the controller is a partial map from the ids of the upstreams.
\<close>

definition FAIL_LIMIT :: u32 where "FAIL_LIMIT = 3"
definition RECOVER_SECS :: real where "RECOVER_SECS = 600"

definition is_header_only :: "bytes \<Rightarrow> bool" where
  "is_header_only data \<longleftrightarrow> 12 \<le> length data \<and> be_u16 data 4 \<noteq> Some 1"

definition qid_of :: "bytes \<Rightarrow> u16 option" where
  "qid_of data = (if length data < 2 then None else be_u16 data 0)"

record x20_entry =
  x_misses :: u32
  x_disabled_since :: "real option"

type_synonym x20 = "str \<rightharpoonup> x20_entry"

definition x20_new :: x20 where "x20_new = Map.empty"
definition x20_fresh :: x20_entry where "x20_fresh = \<lparr>x_misses = 0, x_disabled_since = None\<rparr>"

definition maybe_recover :: "str \<Rightarrow> real \<Rightarrow> x20 \<Rightarrow> x20" where
  "maybe_recover up now c =
     (if up = [] then c
      else case c up of
        Some e \<Rightarrow>
          (case x_disabled_since e of
             Some since \<Rightarrow> if RECOVER_SECS \<le> now - since then c(up := None) else c
           | None \<Rightarrow> c)
      | None \<Rightarrow> c)"

definition is_disabled :: "str \<Rightarrow> x20 \<Rightarrow> bool" where
  "is_disabled up c \<longleftrightarrow> (case c up of Some e \<Rightarrow> x_disabled_since e \<noteq> None | None \<Rightarrow> False)"

text \<open>Counting a miss on an entry that is not disabled.\<close>

definition count_miss :: "real \<Rightarrow> x20_entry \<Rightarrow> x20_entry" where
  "count_miss now e =
     (let n = x_misses e + 1 in
      if FAIL_LIMIT \<le> n then \<lparr>x_misses = n, x_disabled_since = Some now\<rparr> else e\<lparr>x_misses := n\<rparr>)"

definition entry_or_new :: "str \<Rightarrow> x20 \<Rightarrow> x20_entry" where
  "entry_or_new up c = (case c up of Some e \<Rightarrow> e | None \<Rightarrow> x20_fresh)"

definition record_mismatch :: "str \<Rightarrow> real \<Rightarrow> x20 \<Rightarrow> x20" where
  "record_mismatch up now c =
     (if up = [] then c
      else let e = entry_or_new up c in
        if x_disabled_since e \<noteq> None then c(up \<mapsto> e) else c(up \<mapsto> count_miss now e))"

definition record_success :: "str \<Rightarrow> x20 \<Rightarrow> x20" where
  "record_success up c =
     (if up = [] then c else case c up of Some e \<Rightarrow> c(up \<mapsto> e\<lparr>x_misses := 0\<rparr>) | None \<Rightarrow> c)"

definition note_mismatch_accept :: "str \<Rightarrow> real \<Rightarrow> x20 \<Rightarrow> bool \<times> x20" where
  "note_mismatch_accept up now c =
     (if up = [] then (False, c)
      else let e = entry_or_new up c in
        if x_disabled_since e \<noteq> None then (True, c(up \<mapsto> e))
        else let e' = count_miss now e in (x_disabled_since e' \<noteq> None, c(up \<mapsto> e')))"

definition x20_discard :: "str \<Rightarrow> x20 \<Rightarrow> x20" where "x20_discard up c = c(up := None)"

definition evaluate_x20 :: "str \<Rightarrow> bytes \<Rightarrow> bytes \<Rightarrow> real \<Rightarrow> bool \<Rightarrow> x20 \<Rightarrow> bool \<times> bool \<times> x20" where
  "evaluate_x20 up query response now counted c =
     (if check_0x20 query response then (True, counted, record_success up c)
      else if counted then (is_disabled up c, counted, c)
      else let (ok, c) = note_mismatch_accept up now c in (ok, True, c))"

subsection \<open>The automaton of one upstream\<close>

text \<open>
  What the controller promises of one upstream: it is checked strictly until three queries in a row were answered with
  a broken question, then leniently until the recovery time has passed.
\<close>

datatype x20_mode = Strict nat | Lenient real

datatype x20_event =
  Answered str bytes bytes real bool
| Recover str real
| Mismatch str real
| Discard str

fun event_up :: "x20_event \<Rightarrow> str" where
  "event_up (Answered up _ _ _ _) = up"
| "event_up (Recover up _) = up"
| "event_up (Mismatch up _) = up"
| "event_up (Discard up) = up"

fun x20_step :: "x20_event \<Rightarrow> x20 \<Rightarrow> x20" where
  "x20_step (Answered up q r now counted) c = snd (snd (evaluate_x20 up q r now counted c))"
| "x20_step (Recover up now) c = maybe_recover up now c"
| "x20_step (Mismatch up now) c = record_mismatch up now c"
| "x20_step (Discard up) c = x20_discard up c"

fun miss_mode :: "real \<Rightarrow> x20_mode \<Rightarrow> x20_mode" where
  "miss_mode now (Strict n) = (if 3 \<le> n + 1 then Lenient now else Strict (n + 1))"
| "miss_mode now (Lenient t) = Lenient t"

fun clean_mode :: "x20_mode \<Rightarrow> x20_mode" where
  "clean_mode (Strict _) = Strict 0"
| "clean_mode (Lenient t) = Lenient t"

fun recover_mode :: "real \<Rightarrow> x20_mode \<Rightarrow> x20_mode" where
  "recover_mode now (Lenient t) = (if 600 \<le> now - t then Strict 0 else Lenient t)"
| "recover_mode now (Strict n) = Strict n"

fun mode_step :: "x20_event \<Rightarrow> x20_mode \<Rightarrow> x20_mode" where
  "mode_step (Answered up q r now counted) m =
     (if check_0x20 q r then clean_mode m else if counted then m else miss_mode now m)"
| "mode_step (Recover up now) m = recover_mode now m"
| "mode_step (Mismatch up now) m = miss_mode now m"
| "mode_step (Discard up) m = Strict 0"

definition mode_of :: "x20 \<Rightarrow> str \<Rightarrow> x20_mode" where
  "mode_of c up =
     (case c up of
        None \<Rightarrow> Strict 0
      | Some e \<Rightarrow> (case x_disabled_since e of Some t \<Rightarrow> Lenient t | None \<Rightarrow> Strict (unat (x_misses e))))"

text \<open>An enabled entry has fewer than three misses, so the counter cannot overflow.\<close>

definition x20_inv :: "x20 \<Rightarrow> bool" where
  "x20_inv c \<longleftrightarrow> (\<forall>up e. c up = Some e \<longrightarrow> x_disabled_since e = None \<longrightarrow> unat (x_misses e) < 3)"

named_theorems x20_defs \<open>operations of the 0x20 controller\<close>

lemmas x20_ops [x20_defs] =
  evaluate_x20_def maybe_recover_def record_mismatch_def record_success_def note_mismatch_accept_def x20_discard_def
  entry_or_new_def is_disabled_def Let_def

lemma count_miss_mode:
  assumes "unat (x_misses e) < 3" "x_disabled_since e = None"
  shows "unat (x_misses (count_miss now e)) = unat (x_misses e) + 1"
    "x_disabled_since (count_miss now e) = (if 3 \<le> unat (x_misses e) + 1 then Some now else None)"
proof -
  have u: "unat (x_misses e + 1) = unat (x_misses e) + 1" using assms(1) by (subst unat_add_lem [THEN iffD1]) simp_all
  then have "(3 \<le> x_misses e + 1) = (3 \<le> unat (x_misses e) + 1)" by (simp add: word_le_nat_alt)
  then show "unat (x_misses (count_miss now e)) = unat (x_misses e) + 1"
      "x_disabled_since (count_miss now e) = (if 3 \<le> unat (x_misses e) + 1 then Some now else None)"
    using u assms(2) by (simp_all add: count_miss_def FAIL_LIMIT_def Let_def)
qed

lemma x20_inv_new: "x20_inv x20_new"
  by (simp add: x20_inv_def x20_new_def)

lemma fresh_misses [simp]: "x_misses x20_fresh = 0" "x_disabled_since x20_fresh = None"
  by (simp_all add: x20_fresh_def)

lemma x20_inv_upd: "x20_inv c \<Longrightarrow> x_disabled_since e = None \<longrightarrow> unat (x_misses e) < 3 \<Longrightarrow> x20_inv (c(up \<mapsto> e))"
  by (auto simp: x20_inv_def)

lemma x20_inv_entry: "x20_inv c \<Longrightarrow> x_disabled_since (entry_or_new up c) = None \<Longrightarrow> unat (x_misses (entry_or_new up c)) < 3"
  by (auto simp: x20_inv_def entry_or_new_def split: option.splits)

lemma x20_inv_step: "x20_inv c \<Longrightarrow> x20_inv (x20_step ev c)"
proof (cases ev)
  case (Answered up q r now counted)
  assume i: "x20_inv c"
  have "x20_inv (record_success up c)" using i by (auto simp: x20_inv_def record_success_def split: option.splits)
  moreover have "x20_inv (snd (note_mismatch_accept up now c))"
    using i x20_inv_entry [OF i, of up] count_miss_mode [of "entry_or_new up c" now]
    by (auto simp: note_mismatch_accept_def Let_def intro!: x20_inv_upd split: if_splits)
  ultimately show ?thesis using i Answered by (auto simp: evaluate_x20_def split: prod.splits)
next
  case (Mismatch up now)
  assume i: "x20_inv c"
  then show ?thesis using x20_inv_entry [OF i, of up] count_miss_mode [of "entry_or_new up c" now] Mismatch
    by (auto simp: record_mismatch_def Let_def intro!: x20_inv_upd split: if_splits)
qed (auto simp: x20_inv_def maybe_recover_def x20_discard_def split: option.splits)

lemma mode_of_entry:
  "mode_of c up = (case x_disabled_since (entry_or_new up c) of
      Some t \<Rightarrow> Lenient t | None \<Rightarrow> Strict (unat (x_misses (entry_or_new up c))))"
  by (auto simp: mode_of_def entry_or_new_def split: option.splits)

lemma mode_of_upd: "mode_of (c(up \<mapsto> e)) up' = (if up' = up then (case x_disabled_since e of Some t \<Rightarrow> Lenient t
    | None \<Rightarrow> Strict (unat (x_misses e))) else mode_of c up')"
  by (simp add: mode_of_def)

lemma mode_miss:
  assumes "x20_inv c" "up \<noteq> []"
  shows "mode_of (record_mismatch up now c) up = miss_mode now (mode_of c up)"
    "mode_of (snd (note_mismatch_accept up now c)) up = miss_mode now (mode_of c up)"
    "fst (note_mismatch_accept up now c) \<longleftrightarrow> (\<exists>t. mode_of (snd (note_mismatch_accept up now c)) up = Lenient t)"
  using x20_inv_entry [OF assms(1), of up] count_miss_mode [of "entry_or_new up c" now] assms(2)
  by (auto simp: record_mismatch_def note_mismatch_accept_def Let_def mode_of_upd mode_of_entry [of c up] split: option.splits)

lemma mode_step_same:
  assumes "x20_inv c" "event_up ev \<noteq> []"
  shows "mode_of (x20_step ev c) (event_up ev) = mode_step ev (mode_of c (event_up ev))"
proof (cases ev)
  case (Answered up q r now counted)
  then show ?thesis using mode_miss [OF assms(1), of up now] assms(2)
    by (auto simp: evaluate_x20_def record_success_def mode_of_def split: prod.splits option.splits)
next
  case (Mismatch up now)
  then show ?thesis using mode_miss(1) [OF assms(1), of up now] assms(2) by simp
qed (use assms in \<open>auto simp: maybe_recover_def x20_discard_def mode_of_def RECOVER_SECS_def split: option.splits\<close>)

lemma mode_step_other: "up \<noteq> event_up ev \<Longrightarrow> mode_of (x20_step ev c) up = mode_of c up"
  by (cases ev) (auto simp: mode_of_def x20_defs split: prod.splits option.splits)

definition x20_run :: "x20_event list \<Rightarrow> x20 \<Rightarrow> x20" where "x20_run evs c = fold x20_step evs c"

text \<open>C22: Over any history the controller runs, for each upstream, the three-strikes automaton on that upstream's own
  events; a response is accepted exactly when its question is intact or the automaton is lenient after it.\<close>

theorem x20_refines:
  assumes "up \<noteq> []"
  shows "mode_of (x20_run evs x20_new) up = fold mode_step (filter (\<lambda>ev. event_up ev = up) evs) (Strict 0)
    \<and> (fst (evaluate_x20 up q r now counted (x20_run evs x20_new)) \<longleftrightarrow>
       check_0x20 q r \<or> (\<exists>t. fold mode_step (filter (\<lambda>ev. event_up ev = up) (evs @ [Answered up q r now counted])) (Strict 0) = Lenient t))"
proof -
  have g: "x20_inv c \<Longrightarrow> x20_inv (x20_run evs c)
      \<and> mode_of (x20_run evs c) up = fold mode_step (filter (\<lambda>ev. event_up ev = up) evs) (mode_of c up)" for evs c
  proof (induction evs arbitrary: c)
    case (Cons ev evs)
    then show ?case using x20_inv_step [of c ev] assms mode_step_same [of c ev] mode_step_other [of up ev c]
      by (cases "event_up ev = up") (auto simp: x20_run_def)
  qed (simp add: x20_run_def)
  have m0: "mode_of x20_new up = Strict 0" by (simp add: mode_of_def x20_new_def)
  have m: "mode_of (x20_run evs x20_new) up = fold mode_step (filter (\<lambda>ev. event_up ev = up) evs) (Strict 0)"
    using g [OF x20_inv_new, of evs] m0 by simp
  let ?c = "x20_run evs x20_new"
  have i: "x20_inv ?c" using g [OF x20_inv_new, of evs] by simp
  have d: "is_disabled up ?c \<longleftrightarrow> (\<exists>t. mode_of ?c up = Lenient t)"
    by (auto simp: is_disabled_def mode_of_def split: option.splits)
  have "fst (evaluate_x20 up q r now counted ?c) \<longleftrightarrow>
       check_0x20 q r \<or> (\<exists>t. fold mode_step (filter (\<lambda>ev. event_up ev = up) (evs @ [Answered up q r now counted])) (Strict 0) = Lenient t)"
    using mode_miss(2,3) [OF i assms, of now] d by (auto simp: evaluate_x20_def m split: prod.splits)
  with m show ?thesis by blast
qed

lemma x20_refines_witness:
  "mode_of (x20_run [Mismatch [97] 1, Mismatch [97] 2, Discard [98], Mismatch [97] 3] x20_new) [97] = Lenient 3"
  using x20_refines [of "[97]" "[Mismatch [97] 1, Mismatch [97] 2, Discard [98], Mismatch [97] 3]"] by simp

end
