(* ===== verification/Upstream_Addr.thy ===== *)
theory Upstream_Addr
  imports Names Ip_Text
begin

text \<open>
  \<open>ebpdns-upstream/src/addr.rs\<close>: the transports of an upstream, the parsing of its address, and the ranges of
  addresses that an answer must not point to.  The texts of the errors are left out; an error is its kind.
\<close>

datatype proto = Udp | Tcp | Doh | Dot | Doh3 | Doq

definition proto_from_lower :: "str \<Rightarrow> proto option" where
  "proto_from_lower s =
     (if s = lit ''udp'' then Some Udp else if s = lit ''tcp'' then Some Tcp else if s = lit ''doh'' then Some Doh
      else if s = lit ''dot'' then Some Dot else if s = lit ''doh3'' then Some Doh3
      else if s = lit ''doq'' then Some Doq else None)"

fun proto_str :: "proto \<Rightarrow> str" where
  "proto_str Udp = lit ''udp''"
| "proto_str Tcp = lit ''tcp''"
| "proto_str Doh = lit ''doh''"
| "proto_str Dot = lit ''dot''"
| "proto_str Doh3 = lit ''doh3''"
| "proto_str Doq = lit ''doq''"

definition is_encrypted :: "proto \<Rightarrow> bool" where
  "is_encrypted p \<longleftrightarrow> p = Doh \<or> p = Dot \<or> p = Doh3 \<or> p = Doq"

definition is_pooled :: "proto \<Rightarrow> bool" where "is_pooled p \<longleftrightarrow> p = Doh \<or> p = Dot"
definition is_quic :: "proto \<Rightarrow> bool" where "is_quic p \<longleftrightarrow> p = Doh3 \<or> p = Doq"

fun default_port :: "proto \<Rightarrow> nat" where
  "default_port Udp = 53"
| "default_port Tcp = 53"
| "default_port Doh = 443"
| "default_port Doh3 = 443"
| "default_port Dot = 853"
| "default_port Doq = 853"

definition request_path :: "str \<Rightarrow> bool \<Rightarrow> str" where
  "request_path raw encrypted =
     (if \<not> encrypted then []
      else let raw = trim raw in
        if raw = [] then lit ''/dns-query''
        else
          let after_scheme = (case strip_prefix (lit ''https://'') raw of
                                Some r \<Rightarrow> Some r | None \<Rightarrow> strip_prefix (lit ''http://'') raw)
          in case after_scheme of
               Some rest \<Rightarrow>
                 (case split_once 47 rest of Some (_, p) \<Rightarrow> 47 # p | None \<Rightarrow> lit ''/dns-query'')
             | None \<Rightarrow> if strip_prefix (lit ''/'') raw \<noteq> None then raw else 47 # raw)"

definition HOST_CHARS :: str where
  "HOST_CHARS = lit ''abcdefghijklmnopqrstuvwxyzABCDEFGHIJKLMNOPQRSTUVWXYZ0123456789.-_:[]''"

definition host_char_ok :: "u8 \<Rightarrow> bool" where "host_char_ok c \<longleftrightarrow> c \<in> set HOST_CHARS"

definition scope_free :: "str \<Rightarrow> str" where
  "scope_free s = (case split_once 37 s of Some (v6, _) \<Rightarrow> v6 | None \<Rightarrow> s)"

definition is_v6 :: "str \<Rightarrow> bool" where "is_v6 s \<longleftrightarrow> ip6_parse (scope_free s) \<noteq> None"

definition is_hostname :: "str \<Rightarrow> bool" where
  "is_hostname s \<longleftrightarrow>
     s \<noteq> [] \<and> ip4_parse s = None \<and> ip6_parse (scope_free s) = None \<and> strip_prefix (lit ''['') s = None"

definition byte_count :: "u8 \<Rightarrow> str \<Rightarrow> nat" where "byte_count c s = length (filter (\<lambda>b. b = c) s)"

text \<open>\<open>rsplit_once(c)\<close>: at the last \<open>c\<close>.\<close>

definition rsplit_once :: "u8 \<Rightarrow> str \<Rightarrow> (str \<times> str) option" where
  "rsplit_once c s = map_option (\<lambda>(a, b). (rev b, rev a)) (split_once c (rev s))"

definition host_port :: "str \<Rightarrow> nat option \<Rightarrow> proto \<Rightarrow> str \<times> nat" where
  "host_port addr port_override p =
     (let port = (case port_override of Some q \<Rightarrow> q | None \<Rightarrow> default_port p);
          trimmed = trim addr;
          bracket = Option.bind (strip_prefix (lit ''['') trimmed) (split_once 93) in
      case bracket of
        Some (inner, _) \<Rightarrow> (inner, port)
      | None \<Rightarrow>
          (case (if byte_count 58 trimmed = 1 then rsplit_once 58 trimmed else None) of
             Some (h, q) \<Rightarrow>
               (if h \<noteq> [] \<and> q \<noteq> [] \<and> list_all ascii_digit q
                then (case parse_uint 65535 q of Some v \<Rightarrow> (h, v) | None \<Rightarrow> (trimmed, port))
                else (trimmed, port))
           | None \<Rightarrow> (trimmed, port)))"

record parsed_addr =
  pa_proto :: proto
  pa_host :: str
  pa_port :: nat
  pa_url :: str

datatype addr_error =
  EmptyAddr | UnknownScheme | UnknownProtoSel | UnterminatedV6 | EmptyV6 | BadPort | GarbageAfterV6
| EmptyHost | HostTooLong | IllegalHost | TrailingColon | ResidualColon | PortRange

definition is_dohish :: "proto \<Rightarrow> bool" where "is_dohish p \<longleftrightarrow> p = Doh \<or> p = Doh3 \<or> p = Doq"

text \<open>The protocol, the path and whether it is plain HTTP, from a scheme.\<close>

definition scheme_proto :: "str \<Rightarrow> (proto \<times> str \<times> bool) option" where
  "scheme_proto scheme =
     (let s = ascii_lower scheme; q = lit ''/dns-query'' in
      if s = lit ''https'' then Some (Doh, q, False)
      else if s = lit ''http'' then Some (Doh, q, True)
      else if s = lit ''quic'' \<or> s = lit ''doq'' then Some (Doq, q, False)
      else if s = lit ''tls'' \<or> s = lit ''dot'' then Some (Dot, [], False)
      else if s = lit ''udp'' then Some (Udp, [], False)
      else if s = lit ''tcp'' then Some (Tcp, [], False)
      else if s = lit ''doh'' then Some (Doh, q, False)
      else if s = lit ''doh3'' then Some (Doh3, q, False)
      else if s = lit ''http3'' \<or> s = lit ''h3'' then Some (Doh3, q, False)
      else None)"

text \<open>The scheme in front, if any, and the text behind it.\<close>

definition read_scheme :: "str \<Rightarrow> addr_error + ((proto \<times> str \<times> bool) option \<times> str)" where
  "read_scheme s =
     (case split_once 58 s of
        Some (scheme, after) \<Rightarrow>
          (case strip_prefix (lit ''//'') after of
             Some rest \<Rightarrow> (case scheme_proto scheme of Some p \<Rightarrow> Inr (Some p, rest) | None \<Rightarrow> Inl UnknownScheme)
           | None \<Rightarrow> Inr (None, s))
      | None \<Rightarrow> Inr (None, s))"

definition choose_proto :: "(proto \<times> str \<times> bool) option \<Rightarrow> str option \<Rightarrow> addr_error + (proto \<times> str \<times> bool)" where
  "choose_proto found sel =
     (case found of
        Some p \<Rightarrow> Inr p
      | None \<Rightarrow>
          (case sel of
             Some s \<Rightarrow>
               (if s = lit ''auto'' then Inr (Udp, [], False)
                else case proto_from_lower s of
                  Some p \<Rightarrow> Inr (p, if is_dohish p then lit ''/dns-query'' else [], False)
                | None \<Rightarrow> Inl UnknownProtoSel)
           | None \<Rightarrow> Inr (Udp, [], False)))"

text \<open>The host and the port, from the text in front of the path.\<close>

definition split_port :: "str \<Rightarrow> nat \<Rightarrow> addr_error + (str \<times> nat)" where
  "split_port host port =
     (case strip_prefix (lit ''['') host of
        Some inner \<Rightarrow>
          (case split_once 93 inner of
             None \<Rightarrow> Inl UnterminatedV6
           | Some (v6, after) \<Rightarrow>
               if v6 = [] then Inl EmptyV6
               else if after = [] then Inr (v6, port)
               else (case strip_prefix (lit '':'') after of
                       Some num \<Rightarrow>
                         if num \<noteq> [] \<and> list_all ascii_digit num
                         then (case parse_uint 65535 num of Some v \<Rightarrow> Inr (v6, v) | None \<Rightarrow> Inl BadPort)
                         else Inl GarbageAfterV6
                     | None \<Rightarrow> Inl GarbageAfterV6))
      | None \<Rightarrow>
          if byte_count 58 host \<le> 1 then
            (case rsplit_once 58 host of
               Some (h, tail) \<Rightarrow>
                 if h \<noteq> [] \<and> tail \<noteq> [] \<and> list_all ascii_digit tail
                 then (case parse_uint 65535 tail of Some v \<Rightarrow> Inr (h, v) | None \<Rightarrow> Inl BadPort)
                 else Inr (host, port)
             | None \<Rightarrow> Inr (host, port))
          else Inr (host, port))"

definition check_host :: "str \<Rightarrow> nat \<Rightarrow> addr_error option" where
  "check_host host port =
     (if host = [] then Some EmptyHost
      else if length host > 253 then Some HostTooLong
      else if \<not> list_all host_char_ok host then Some IllegalHost
      else if strip_prefix (lit ''['') host \<noteq> None \<and> strip_suffix (lit '':'') host \<noteq> None then Some TrailingColon
      else if byte_count 58 host = 1 then Some ResidualColon
      else if \<not> (1 \<le> port \<and> port \<le> 65535) then Some PortRange
      else None)"

definition parse_upstream_addr :: "str \<Rightarrow> str option \<Rightarrow> addr_error + parsed_addr" where
  "parse_upstream_addr raw proto_sel =
     (let s = trim raw in
      if s = [] then Inl EmptyAddr
      else
        bindE (read_scheme s) (\<lambda>(found, rest).
        bindE (choose_proto found proto_sel) (\<lambda>(p, url, http_plain).
        let port = (if http_plain then 80 else default_port p);
            (host, url) =
              (case split_once 47 rest of
                 Some (h, q) \<Rightarrow> (h, if is_dohish p then 47 # q else url)
               | None \<Rightarrow> (rest, url)) in
        bindE (split_port host port) (\<lambda>(host, port).
        case check_host host port of
          Some e \<Rightarrow> Inl e
        | None \<Rightarrow>
            let url = (if is_dohish p
                       then (if url = [] then lit ''/dns-query''
                             else if strip_prefix (lit ''/'') url = None then 47 # url else url)
                       else [])
            in Inr \<lparr>pa_proto = p, pa_host = host, pa_port = port, pa_url = url\<rparr>))))"

subsection \<open>Addresses that are not public\<close>

definition is_cgnat_v4 :: "ipv4 \<Rightarrow> bool" where
  "is_cgnat_v4 v \<longleftrightarrow> (let q = ip4_octets v in q ! 0 = 100 \<and> q ! 1 AND 0xC0 = 0x40)"

definition is_v4_reserved :: "ipv4 \<Rightarrow> bool" where "is_v4_reserved v \<longleftrightarrow> 240 \<le> ip4_octets v ! 0"

definition is_v4_special :: "ipv4 \<Rightarrow> bool" where
  "is_v4_special v \<longleftrightarrow>
     (let q = ip4_octets v in
      q ! 0 = 0
      \<or> q ! 0 = 192 \<and> q ! 1 = 0 \<and> q ! 2 = 0
      \<or> q ! 0 = 192 \<and> q ! 1 = 0 \<and> q ! 2 = 2
      \<or> q ! 0 = 198 \<and> q ! 1 AND 0xFE = 18
      \<or> q ! 0 = 198 \<and> q ! 1 = 51 \<and> q ! 2 = 100
      \<or> q ! 0 = 203 \<and> q ! 1 = 0 \<and> q ! 2 = 113)"

text \<open>\<open>Ipv4Addr::is_private\<close>, \<open>is_loopback\<close>, \<open>is_link_local\<close>, \<open>is_multicast\<close>, \<open>is_unspecified\<close>.\<close>

definition is_private_v4 :: "ipv4 \<Rightarrow> bool" where
  "is_private_v4 v \<longleftrightarrow>
     (let q = ip4_octets v in
      (q ! 0 = 10 \<or> q ! 0 = 172 \<and> 16 \<le> q ! 1 \<and> q ! 1 \<le> 31 \<or> q ! 0 = 192 \<and> q ! 1 = 168)
      \<or> q ! 0 = 127
      \<or> q ! 0 = 169 \<and> q ! 1 = 254
      \<or> 224 \<le> q ! 0 \<and> q ! 0 \<le> 239)
     \<or> is_v4_reserved v \<or> v = 0 \<or> is_v4_special v"

text \<open>\<open>to_ipv4_mapped\<close>.\<close>

definition ipv4_mapped :: "ipv6 \<Rightarrow> ipv4 option" where
  "ipv4_mapped v = (if take 6 (ip6_segments v) = [0, 0, 0, 0, 0, 0xFFFF] then Some (ucast v) else None)"

definition is_private_v6 :: "ipv6 \<Rightarrow> bool" where
  "is_private_v6 v \<longleftrightarrow>
     (let s = ip6_segments v; s0 = (word_of_nat (s ! 0) :: u16) in
      if v = 1 \<or> v = 0 \<or> s0 AND 0xFF00 = 0xFF00
        \<or> s0 AND 0xFE00 = 0xFC00
        \<or> s0 AND 0xFFC0 = 0xFE80
        \<or> s ! 0 = 0x2001 \<and> s ! 1 = 0x0db8
        \<or> s ! 0 = 0x2001 \<and> s ! 1 = 0
        \<or> s ! 0 = 0x2001 \<and> s ! 1 = 0x0002
        \<or> s ! 0 = 0x0100 \<and> s ! 1 = 0
        \<or> s ! 0 = 0x0064 \<and> s ! 1 = 0xff9b
        \<or> s ! 0 = 0x2002
      then True
      else case ipv4_mapped v of
        Some v4 \<Rightarrow> is_private_v4 v4
      | None \<Rightarrow> take 6 s = [0, 0, 0, 0, 0, 0])"

definition is_private_ip :: "str \<Rightarrow> bool" where
  "is_private_ip s =
     (case ip4_parse s of
        Some v \<Rightarrow> is_private_v4 v
      | None \<Rightarrow> (case ip6_parse s of Some v \<Rightarrow> is_private_v6 v | None \<Rightarrow> False))"

definition is_non_global_for_subscription :: "str \<Rightarrow> bool" where
  "is_non_global_for_subscription s =
     (if is_private_ip s then True
      else case ip4_parse s of
        Some v \<Rightarrow> is_cgnat_v4 v
      | None \<Rightarrow>
          (case ip6_parse s of
             Some v \<Rightarrow> (case ipv4_mapped v of Some v4 \<Rightarrow> is_cgnat_v4 v4 | None \<Rightarrow> False)
           | None \<Rightarrow> False))"

subsection \<open>The ranges\<close>

text \<open>The blocks of IPv4 addresses that are not public, with the lengths of their prefixes.\<close>

definition private_blocks :: "(ipv4 \<times> nat) list" where
  "private_blocks =
     [(0x00000000, 8), (0x0A000000, 8), (0x7F000000, 8), (0xA9FE0000, 16), (0xAC100000, 12), (0xC0000000, 24),
      (0xC0000200, 24), (0xC0A80000, 16), (0xC6120000, 15), (0xC6336400, 24), (0xCB007100, 24), (0xE0000000, 4),
      (0xF0000000, 4)]"

definition in_block :: "ipv4 \<Rightarrow> ipv4 \<times> nat \<Rightarrow> bool" where
  "in_block v b \<longleftrightarrow> unat v div 2 ^ (32 - snd b) = unat (fst b) div 2 ^ (32 - snd b)"

lemma and_FE: "(b :: u8) AND 0xFE = 18 \<longleftrightarrow> unat b = 18 \<or> unat b = 19"
proof -
  have "list_all (\<lambda>n. (word_of_nat n :: u8) AND 0xFE = 18 \<longleftrightarrow> n = 18 \<or> n = 19) [0..<256]" by code_simp
  then have "(word_of_nat (unat b) :: u8) AND 0xFE = 18 \<longleftrightarrow> unat b = 18 \<or> unat b = 19"
    unfolding list_all_iff using unat_less_exp [of b] by (intro bspec [where x = "unat b"]) auto
  then show ?thesis by simp
qed

lemma le_enc_4: "le_enc 4 x = [word_of_nat x, word_of_nat (x div 256), word_of_nat (x div 65536), word_of_nat (x div 16777216)]"
proof -
  have "le_enc (Suc (Suc (Suc (Suc 0)))) x = [word_of_nat x, word_of_nat (x div 256), word_of_nat (x div 65536), word_of_nat (x div 16777216)]"
    by (simp only: le_enc.simps div_mult2_eq [symmetric]) simp
  moreover have "Suc (Suc (Suc (Suc 0))) = 4" by simp
  ultimately show ?thesis by (simp only:)
qed

lemma digit_range:
  fixes a b :: nat
  assumes "b < 256" "h < 256" and that: "l < 256"
  shows "256 * x + l \<le> 256 * a + b \<and> 256 * a + b \<le> 256 * x + h \<longleftrightarrow> a = x \<and> l \<le> b \<and> b \<le> h"
proof (cases a x rule: linorder_cases)
  case less then have "256 * a + 256 \<le> 256 * x" by linarith
  then show ?thesis using assms that less by linarith
next
  case greater then have "256 * x + 256 \<le> 256 * a" by linarith
  then show ?thesis using assms that greater by linarith
qed simp

lemma div_range: "0 < k \<Longrightarrow> (n :: nat) div k = c \<longleftrightarrow> c * k \<le> n \<and> n \<le> c * k + (k - 1)"
  using div_nat_eqI [of k c n] dividend_less_times_div [of k n] times_div_less_eq_dividend [of k n]
  by (auto simp: mult.commute)

lemma digits2:
  fixes a b :: nat
  assumes "b < 256" "y < 256"
  shows "256 * a + b = 256 * x + y \<longleftrightarrow> a = x \<and> b = y"
  using digit_range [of b y y x a] assms by auto

lemma digits3:
  fixes a b c :: nat
  assumes "b < 256" "c < 256" "y < 256" "z < 256"
  shows "65536 * a + 256 * b + c = 256 * (256 * x + y) + z \<longleftrightarrow> a = x \<and> b = y \<and> c = z"
proof -
  have e: "65536 * a + 256 * b + c = 256 * (256 * a + b) + c" by simp
  show ?thesis unfolding e digits2 [OF assms(2,4)] digits2 [OF assms(1,3)] by simp
qed

lemma octets_value:
  "\<exists>a b c d. ip4_octets v = [a, b, c, d] \<and> unat v div 16777216 = unat a \<and> unat v div 65536 = 256 * unat a + unat b
     \<and> unat v div 256 = 65536 * unat a + 256 * unat b + unat c"
proof -
  let ?x = "unat v"
  have lt: "?x < 4294967296" using unat_less_exp [of v] by simp
  have e: "le_enc 4 ?x = [word_of_nat ?x, word_of_nat (?x div 256), word_of_nat (?x div 65536), word_of_nat (?x div 16777216)]"
    by (rule le_enc_4)
  let ?a = "word_of_nat (?x div 16777216) :: u8" and ?b = "word_of_nat (?x div 65536) :: u8" and ?c = "word_of_nat (?x div 256) :: u8"
  have "?x div 16777216 < 256" using lt by (intro less_mult_imp_div_less) simp
  then have 1: "unat ?a = ?x div 16777216" by (simp only: unat_word_of_nat_u8 mod_less)
  have d: "?x div 65536 div 256 = ?x div 16777216" "?x div 256 div 256 = ?x div 65536" by (simp_all add: div_mult2_eq [symmetric])
  have 2: "256 * (?x div 16777216) + unat ?b = ?x div 65536"
    unfolding unat_word_of_nat_u8 d(1) [symmetric] by (rule mult_div_mod_eq)
  have 3: "256 * (?x div 65536) + unat ?c = ?x div 256"
    unfolding unat_word_of_nat_u8 d(2) [symmetric] by (rule mult_div_mod_eq)
  have "ip4_octets v = [?a, ?b, ?c, word_of_nat ?x]" by (simp add: ip4_octets_def be32_def e)
  moreover have "?x div 65536 = 256 * unat ?a + unat ?b" using 1 2 by simp
  moreover have "?x div 256 = 65536 * unat ?a + 256 * unat ?b + unat ?c" using 1 2 3 by simp
  ultimately show ?thesis using 1 by metis
qed

text \<open>The octet tests of the code are exactly the thirteen blocks of addresses that are private, loopback, link-local,
  multicast, reserved, unspecified or kept for documentation and benchmarks.\<close>

theorem private_v4_blocks: "is_private_v4 v \<longleftrightarrow> list_ex (in_block v) private_blocks"
proof -
  obtain a b c d where o: "ip4_octets v = [a, b, c, d]" and n: "unat v div 16777216 = unat a"
      "unat v div 65536 = 256 * unat a + unat b" "unat v div 256 = 65536 * unat a + 256 * unat b + unat c"
    using octets_value [of v] by blast
  have lt: "unat a < 256" "unat b < 256" "unat c < 256" using unat_less_exp [of a] unat_less_exp [of b] unat_less_exp [of c] by simp_all
  have z: "v = 0 \<longrightarrow> unat a = 0" using n(1) by auto
  have sh: "unat v div 1048576 = (256 * unat a + unat b) div 16" "unat v div 131072 = (256 * unat a + unat b) div 2"
    unfolding n(2) [symmetric] by (simp_all only: div_mult2_eq [symmetric]) simp_all
  have sh4: "unat v div 268435456 = unat a div 16"
    unfolding n(1) [symmetric] by (simp only: div_mult2_eq [symmetric]) simp
  have w: "x = 0 \<longleftrightarrow> unat x = 0" "(x = numeral k) \<longleftrightarrow> unat x = unat (numeral k :: u8)"
    "(numeral k \<le> x) \<longleftrightarrow> unat (numeral k :: u8) \<le> unat x" "(x \<le> numeral k) \<longleftrightarrow> unat x \<le> unat (numeral k :: u8)"
    for x :: u8 and k
    by (simp_all add: word_unat_eq_iff word_le_nat_alt)
  have fe: "unat (b AND 254) = 18 \<longleftrightarrow> unat b = 18 \<or> unat b = 19"
    unfolding and_FE [symmetric] by (simp add: word_unat_eq_iff)
  have b12: "(256 * unat a + unat b) div 16 = 2753 \<longleftrightarrow> unat a = 172 \<and> 16 \<le> unat b \<and> unat b \<le> 31"
    using digit_range [of "unat b" 31 16 172 "unat a"] lt by (simp add: div_range)
  have b15: "(256 * unat a + unat b) div 2 = 25353 \<longleftrightarrow> unat a = 198 \<and> (unat b = 18 \<or> unat b = 19)"
    using digit_range [of "unat b" 19 18 198 "unat a"] lt by (auto simp: div_range)
  have b16: "256 * unat a + unat b = 43518 \<longleftrightarrow> unat a = 169 \<and> unat b = 254"
    "256 * unat a + unat b = 49320 \<longleftrightarrow> unat a = 192 \<and> unat b = 168"
    using digits2 [of "unat b" 254 "unat a" 169] digits2 [of "unat b" 168 "unat a" 192] lt by simp_all
  have b24: "65536 * unat a + 256 * unat b + unat c = 12582912 \<longleftrightarrow> unat a = 192 \<and> unat b = 0 \<and> unat c = 0"
    "65536 * unat a + 256 * unat b + unat c = 12582914 \<longleftrightarrow> unat a = 192 \<and> unat b = 0 \<and> unat c = 2"
    "65536 * unat a + 256 * unat b + unat c = 12989284 \<longleftrightarrow> unat a = 198 \<and> unat b = 51 \<and> unat c = 100"
    "65536 * unat a + 256 * unat b + unat c = 13303921 \<longleftrightarrow> unat a = 203 \<and> unat b = 0 \<and> unat c = 113"
    using digits3 [OF lt(2,3), of 0 0 "unat a" 192] digits3 [OF lt(2,3), of 0 2 "unat a" 192]
      digits3 [OF lt(2,3), of 51 100 "unat a" 198] digits3 [OF lt(2,3), of 0 113 "unat a" 203] by simp_all
  have b4: "unat a div 16 = 14 \<longleftrightarrow> 224 \<le> unat a \<and> unat a \<le> 239" "unat a div 16 = 15 \<longleftrightarrow> 240 \<le> unat a"
    using lt(1) by (auto simp: div_range)
  have "list_ex (in_block v) private_blocks \<longleftrightarrow>
      unat a = 0 \<or> unat a = 10 \<or> unat a = 127 \<or> (unat a = 169 \<and> unat b = 254)
      \<or> (unat a = 172 \<and> 16 \<le> unat b \<and> unat b \<le> 31) \<or> (unat a = 192 \<and> unat b = 0 \<and> unat c = 0)
      \<or> (unat a = 192 \<and> unat b = 0 \<and> unat c = 2) \<or> (unat a = 192 \<and> unat b = 168)
      \<or> (unat a = 198 \<and> (unat b = 18 \<or> unat b = 19)) \<or> (unat a = 198 \<and> unat b = 51 \<and> unat c = 100)
      \<or> (unat a = 203 \<and> unat b = 0 \<and> unat c = 113) \<or> (224 \<le> unat a \<and> unat a \<le> 239) \<or> 240 \<le> unat a"
    unfolding private_blocks_def in_block_def by (simp add: n sh sh4 b12 b15 b16 b24 b4)
  moreover have "is_private_v4 v \<longleftrightarrow>
      (unat a = 10 \<or> unat a = 172 \<and> 16 \<le> unat b \<and> unat b \<le> 31 \<or> unat a = 192 \<and> unat b = 168)
      \<or> unat a = 127 \<or> unat a = 169 \<and> unat b = 254 \<or> 224 \<le> unat a \<and> unat a \<le> 239
      \<or> 240 \<le> unat a \<or> v = 0 \<or> unat a = 0 \<or> unat a = 192 \<and> unat b = 0 \<and> unat c = 0
      \<or> unat a = 192 \<and> unat b = 0 \<and> unat c = 2 \<or> unat a = 198 \<and> (unat b = 18 \<or> unat b = 19)
      \<or> unat a = 198 \<and> unat b = 51 \<and> unat c = 100 \<or> unat a = 203 \<and> unat b = 0 \<and> unat c = 113"
    unfolding is_private_v4_def is_v4_reserved_def is_v4_special_def o Let_def by (simp add: fe w disj_assoc)
  ultimately show ?thesis using z by argo
qed

subsection \<open>What a parsed address satisfies\<close>

lemma check_host_ok:
  "check_host h q = None \<Longrightarrow>
     h \<noteq> [] \<and> length h \<le> 253 \<and> list_all host_char_ok h \<and> byte_count 58 h \<noteq> 1 \<and> 1 \<le> q \<and> q \<le> 65535"
  by (auto simp: check_host_def split: if_splits)

lemma strip_prefix_slash: "strip_prefix [47] u = Some v \<Longrightarrow> \<exists>t. u = 47 # t"
  by (cases u) (auto simp: strip_prefix_def split: if_splits)

text \<open>A parsed address is one the transports accept: a host of 1 to 253 of the allowed characters that is not
  \<open>name:port\<close>, a port that fits, and a path exactly for the HTTP-like transports.\<close>

definition addr_ok :: "parsed_addr \<Rightarrow> bool" where
  "addr_ok a \<longleftrightarrow>
     pa_host a \<noteq> [] \<and> length (pa_host a) \<le> 253 \<and> list_all host_char_ok (pa_host a) \<and> byte_count 58 (pa_host a) \<noteq> 1
     \<and> 1 \<le> pa_port a \<and> pa_port a \<le> 65535
     \<and> (if is_dohish (pa_proto a) then take 1 (pa_url a) = [47] else pa_url a = [])"

text \<open>Whatever \<open>parse_upstream_addr\<close> accepts is a well-formed upstream address.\<close>

theorem upstream_addr_typed:
  assumes "parse_upstream_addr raw sel = Inr a"
  shows "addr_ok a"
proof -
  obtain p u host port where c: "check_host host port = None" "a = \<lparr>pa_proto = p, pa_host = host, pa_port = port, pa_url = u\<rparr>"
      "if is_dohish p then take 1 u = [47] else u = []"
    using assms by (auto simp: parse_upstream_addr_def bindE_eq_Inr Let_def split_beta dest!: strip_prefix_slash
      split: option.splits if_splits)
  show ?thesis using check_host_ok [OF c(1)] c(3) unfolding c(2) addr_ok_def by (auto split: if_splits)
qed

lemma upstream_addr_typed_witness:
  "parse_upstream_addr (lit ''tls://a.b:85'') None
     = Inr \<lparr>pa_proto = Dot, pa_host = lit ''a.b'', pa_port = 85, pa_url = []\<rparr>
   \<and> addr_ok \<lparr>pa_proto = Dot, pa_host = lit ''a.b'', pa_port = 85, pa_url = []\<rparr>"
proof -
  have t: "trim (lit ''tls://a.b:85'') = lit ''tls://a.b:85''" by code_simp
  have r: "read_scheme (lit ''tls://a.b:85'') = Inr (Some (Dot, [], False), lit ''a.b:85'')" by code_simp
  have q: "split_once 47 (lit ''a.b:85'') = None" by code_simp
  have o: "rsplit_once 58 (lit ''a.b:85'') = Some (lit ''a.b'', lit ''85'')" "byte_count 58 (lit ''a.b:85'') = 1"
    "strip_prefix (lit ''['') (lit ''a.b:85'') = None" "list_all ascii_digit (lit ''85'')" by code_simp+
  have u: "parse_uint 65535 (lit ''85'') = Some 85" by (simp add: parse_uint_def ascii_digit_def dec_val_def)
  have c: "check_host (lit ''a.b'') 85 = None"
  proof -
    have "list_all host_char_ok (lit ''a.b'')" "byte_count 58 (lit ''a.b'') = 0" by code_simp+
    then show ?thesis by (simp add: check_host_def strip_prefix_def)
  qed
  have "parse_upstream_addr (lit ''tls://a.b:85'') None
     = Inr \<lparr>pa_proto = Dot, pa_host = lit ''a.b'', pa_port = 85, pa_url = []\<rparr>"
    by (simp only: parse_upstream_addr_def t r Let_def bindE_Inr split_beta fst_conv snd_conv choose_proto_def q o split_port_def
        option.case default_port.simps if_False refl le_refl u)
      (use c in \<open>simp add: is_dohish_def\<close>)
  then show ?thesis using upstream_addr_typed by blast
qed

end
