(* ===== verification/Resolver_Types.thy ===== *)
theory Resolver_Types
  imports Upstream_Addr Cache_Entry "HOL-Library.AList" "HOL-Library.Multiset"
begin

text \<open>
  \<open>ebpdns-resolver/src/types.rs\<close>, \<open>helpers.rs\<close>, \<open>prefetch.rs\<close> and the eviction of \<open>lib.rs\<close>: the values the parts of the
  resolver exchange.  A \<open>HashMap\<close> is an association list with distinct keys, in the order an iteration meets them.
  The trace events and the texts of the log are left out; the display name of an answer's source is the datatype
  \<open>source\<close> instead of its text.
\<close>

subsection \<open>Helpers\<close>

definition normalize :: "str \<Rightarrow> str" where
  "normalize domain = ascii_lower (trim_end_dots (trim domain))"

definition guess_type :: "str \<Rightarrow> u16 \<Rightarrow> u16" where
  "guess_type ip qt =
     (let v = trim ip in
      if 58 \<in> set v then TYPE_AAAA
      else let digits = filter (\<lambda>b. b \<noteq> 46) v in
        if digits \<noteq> [] \<and> list_all ascii_digit digits then TYPE_A else qt)"

text \<open>\<open>clamp_ttl(ttl, ttl_min, ttl_max)\<close> of the resolver; 0 as the maximum is no limit.\<close>

definition clamp_ttl3 :: "u32 \<Rightarrow> u32 \<Rightarrow> u32 \<Rightarrow> u32" where
  "clamp_ttl3 t ttl_min ttl_max = max (if ttl_max > 0 then min t ttl_max else t) ttl_min"

text \<open>\<open>x as u32\<close> of a finite \<open>f64\<close>: toward zero, saturating.\<close>

definition f64_to_u32 :: "real \<Rightarrow> u32" where
  "f64_to_u32 x = word_of_int (max 0 (min 4294967295 \<lfloor>x\<rfloor>))"

definition u32_real :: "u32 \<Rightarrow> real" where "u32_real w = real (unat w)"

lemma f64_to_u32_real [simp]: "f64_to_u32 (u32_real w) = w"
proof -
  have "unat w < 4294967296" using unat_less_exp [of w] by simp
  then have "int (unat w) \<le> 4294967295" by linarith
  moreover have "\<lfloor>u32_real w\<rfloor> = int (unat w)" by (simp only: u32_real_def floor_of_nat)
  ultimately have "f64_to_u32 (u32_real w) = word_of_int (int (unat w))"
    by (simp only: f64_to_u32_def min_absorb2 max_absorb2 of_nat_0_le_iff)
  then show ?thesis by simp
qed

subsection \<open>Answers\<close>

record resolve_answer =
  rv_value :: str
  rv_ttl :: real
  rv_rtype :: u16
  rv_name :: "str option"

definition rv_with_name :: "str \<Rightarrow> resolve_answer \<Rightarrow> resolve_answer" where
  "rv_with_name n a = a\<lparr>rv_name := Some n\<rparr>"

record upstream_answer =
  ua_up :: str
  ua_rcode :: "u8 option"
  ua_answers :: "resolve_answer list"
  ua_cnames :: "(str \<times> u32) list"
  ua_lat :: f64
  ua_truncated :: bool
  ua_neg_ttl :: "u32 option"
  ua_allow_private :: bool
  ua_raw :: "bytes option"

definition ua_default :: upstream_answer where
  "ua_default = \<lparr>ua_up = [], ua_rcode = None, ua_answers = [], ua_cnames = [], ua_lat = Fin 0, ua_truncated = False,
     ua_neg_ttl = None, ua_allow_private = False, ua_raw = None\<rparr>"

abbreviation "RCODE_NOERROR \<equiv> (0 :: u8)"
abbreviation "RCODE_FORMERR \<equiv> (1 :: u8)"
abbreviation "RCODE_SERVFAIL \<equiv> (2 :: u8)"
abbreviation "RCODE_NXDOMAIN \<equiv> (3 :: u8)"
abbreviation "RCODE_NOTIMP \<equiv> (4 :: u8)"

text \<open>Who gave an answer: a text in the code.\<close>

datatype source =
  NoSource | Upstream str | CacheDirect | ServeStale | NoUpstreamLeft | Inferred
| EmptyName | BadName | BadType | Ipv6Off | Ipv4Preferred

datatype servfail_reason = UpstreamTimeout | UpstreamNoAnswer | NoUpstream | EncodeFailed | Panic

datatype reason = PolicyFiltered | NoUpstreamReason | NoAnswer

text \<open>The rule that decided, and how; its texts are left out.\<close>

datatype rule_effect = Allowed | Blocked | Routed | Forced | ForcedMismatch

record rule_hit =
  rh_match :: str
  rh_effect :: rule_effect
  rh_answer :: str

record resolve_result =
  rr_domain :: str
  rr_qtype :: str
  rr_answers :: "resolve_answer list"
  rr_chosen :: str
  rr_hit :: bool
  rr_error :: bool
  rr_reason :: "reason option"
  rr_rcode :: u8
  rr_truncated :: bool
  rr_latency :: real
  rr_ttl_left :: real
  rr_empty :: bool
  rr_rule :: "rule_hit option"
  rr_source :: source
  rr_servfail :: "servfail_reason option"
  rr_private_filtered :: u32

definition result0 :: "str \<Rightarrow> str \<Rightarrow> resolve_result" where
  "result0 d q =
     \<lparr>rr_domain = d, rr_qtype = q, rr_answers = [], rr_chosen = [], rr_hit = False, rr_error = False, rr_reason = None,
      rr_rcode = 0, rr_truncated = False, rr_latency = 0, rr_ttl_left = 0, rr_empty = False, rr_rule = None,
      rr_source = NoSource, rr_servfail = None, rr_private_filtered = 0\<rparr>"

definition error_result :: "str \<Rightarrow> str \<Rightarrow> reason \<Rightarrow> resolve_result" where
  "error_result d q r = (result0 d q)\<lparr>rr_error := True, rr_reason := Some r, rr_rcode := RCODE_SERVFAIL\<rparr>"

definition mark_servfail :: "servfail_reason \<Rightarrow> resolve_result \<Rightarrow> resolve_result" where
  "mark_servfail why r = r\<lparr>rr_servfail := Some why\<rparr>"

definition to_cache_answer :: "resolve_answer \<Rightarrow> cache_answer" where
  "to_cache_answer a = \<lparr>ca_value = rv_value a, ca_ttl = rv_ttl a, ca_rtype = rv_rtype a, ca_name = rv_name a\<rparr>"

text \<open>A cached answer served with a lifetime of its own.\<close>

definition serve_answer :: "real \<Rightarrow> cache_answer \<Rightarrow> resolve_answer" where
  "serve_answer t a = \<lparr>rv_value = ca_value a, rv_ttl = t, rv_rtype = ca_rtype a, rv_name = ca_name a\<rparr>"

subsection \<open>The eviction of the bounded tables\<close>

type_synonym 'v table = "(str \<times> 'v) list"

definition evict_oldest_by_ts :: "'v table \<Rightarrow> nat \<Rightarrow> ('v \<Rightarrow> real) \<Rightarrow> 'v table" where
  "evict_oldest_by_ts m target ts_of =
     (if length m \<le> target then m
      else
        let ages = sort_key fst (map (\<lambda>(k, v). (ts_of v, k)) m);
            dropped = map snd (take (length m - target) ages)
        in filter (\<lambda>(k, _). k \<notin> set dropped) m)"

lemma distinct_sorted_ages:
  "distinct (map fst m) \<Longrightarrow> distinct (map snd (sort_key fst (map (\<lambda>(k, v). (f v, k)) m)))"
proof -
  assume d: "distinct (map fst m)"
  have "mset (map snd (sort_key fst (map (\<lambda>(k, v). (f v, k)) m))) = mset (map snd (map (\<lambda>(k, v). (f v, k)) m))"
    by (simp only: mset_map mset_sort)
  also have "map snd (map (\<lambda>(k, v). (f v, k)) m) = map fst m" by (simp add: case_prod_beta comp_def)
  finally show ?thesis using d by (metis mset_eq_imp_distinct_iff)
qed

lemma evict_length:
  assumes "distinct (map fst m)"
  shows "length (evict_oldest_by_ts m n f) = min n (length m)"
proof (cases "length m \<le> n")
  case False
  let ?a = "sort_key fst (map (\<lambda>(k, v). (f v, k)) m)"
  let ?d = "map snd (take (length m - n) ?a)"
  have dd: "distinct ?d" using distinct_sorted_ages [OF assms, of f] by (metis distinct_take take_map)
  have "set ?d \<subseteq> snd ` set ?a" using set_take_subset [of "length m - n" ?a] by auto
  also have "\<dots> = fst ` set m" by (simp add: image_image case_prod_beta)
  finally have sub: "set ?d \<subseteq> fst ` set m" .
  have "card (set ?d) = length m - n" unfolding distinct_card [OF dd] by simp
  note card_d = this
  let ?F = "filter (\<lambda>(k, _). k \<notin> set ?d) m"
  have keys: "map fst ?F = filter (\<lambda>k. k \<notin> set ?d) (map fst m)" unfolding case_prod_beta by (simp add: filter_map comp_def)
  have "distinct (map fst ?F)" unfolding keys using assms by (rule distinct_filter)
  then have "length ?F = card (set (map fst ?F))" using distinct_card [of "map fst ?F"] by simp
  also have "set (map fst ?F) = set (map fst m) - set ?d" unfolding keys by auto
  also have "card \<dots> = card (set (map fst m)) - card (set ?d)" using sub by (intro card_Diff_subset) simp_all
  also have "\<dots> = length m - (length m - n)" using card_d distinct_card [OF assms] by simp
  finally have "length ?F = length m - (length m - n)" .
  then show ?thesis using False by (simp add: evict_oldest_by_ts_def Let_def)
qed (simp add: evict_oldest_by_ts_def)

lemma evict_subset: "set (evict_oldest_by_ts m n f) \<subseteq> set m"
  by (auto simp: evict_oldest_by_ts_def Let_def)

lemma evict_distinct: "distinct (map fst m) \<Longrightarrow> distinct (map fst (evict_oldest_by_ts m n f))"
  unfolding evict_oldest_by_ts_def Let_def by (cases "length m \<le> n") (simp_all only: if_True if_False distinct_map_filter)

lemma evict_map_of:
  "distinct (map fst m) \<Longrightarrow> map_of (evict_oldest_by_ts m n f) k = Some v \<Longrightarrow> map_of m k = Some v"
  by (drule map_of_SomeD, rule map_of_is_SomeI) (auto dest: evict_subset [THEN subsetD])

subsection \<open>The queue of the prefetcher\<close>

record pending_map =
  pm_order :: "str list"
  pm_data :: "(str \<times> str) table"

definition pending_new :: pending_map where "pending_new = \<lparr>pm_order = [], pm_data = []\<rparr>"

fun pending_trim :: "nat \<Rightarrow> str list \<Rightarrow> (str \<times> str) table \<Rightarrow> pending_map" where
  "pending_trim mx (old # order) data =
     (if length (old # order) > mx then pending_trim mx order (AList.delete old data)
      else \<lparr>pm_order = old # order, pm_data = data\<rparr>)"
| "pending_trim mx [] data = \<lparr>pm_order = [], pm_data = data\<rparr>"

text \<open>\<open>order.remove(pos)\<close> at the first position of the key.\<close>

definition schedule :: "str \<Rightarrow> str \<Rightarrow> str \<Rightarrow> nat \<Rightarrow> pending_map \<Rightarrow> pending_map" where
  "schedule key domain qt mx p =
     (let order = (if map_of (pm_data p) key \<noteq> None then remove1 key (pm_order p) else pm_order p);
          data = AList.update key (domain, qt) (pm_data p) in
      pending_trim mx (order @ [key]) data)"

definition pending_len :: "pending_map \<Rightarrow> nat" where "pending_len p = length (pm_data p)"

fun drain_from :: "str list \<Rightarrow> (str \<times> str) table \<Rightarrow> (str \<times> str \<times> str) list" where
  "drain_from [] data = []"
| "drain_from (key # order) data =
     (case map_of data key of
        Some (d, q) \<Rightarrow> (key, d, q) # drain_from order (AList.delete key data)
      | None \<Rightarrow> drain_from order (AList.delete key data))"

definition drain_all :: "pending_map \<Rightarrow> (str \<times> str \<times> str) list \<times> pending_map" where
  "drain_all p = (drain_from (pm_order p) (pm_data p),
     \<lparr>pm_order = [], pm_data = fold AList.delete (pm_order p) (pm_data p)\<rparr>)"

end
