(* ===== verification/Breaker.thy ===== *)
theory Breaker
  imports Resolver_Types
begin

text \<open>
  \<open>ebpdns-resolver/src/breaker.rs\<close>: the circuit breakers of the upstreams.  Times are real seconds; the lengths of the
  windows are finite, only the cap \<open>max_open_s\<close> may be a non-finite \<open>f64\<close>.  The counters are words, their additions
  saturate.
\<close>

definition OPEN_BACKOFF_MAX_SHIFT :: u32 where "OPEN_BACKOFF_MAX_SHIFT = 4"

definition sat_inc :: "'a::len word \<Rightarrow> 'a word" where
  "sat_inc w = (if w = - 1 then w else w + 1)"

definition sat_dec :: "'a::len word \<Rightarrow> 'a word" where
  "sat_dec w = (if w = 0 then 0 else w - 1)"

record circuit_state =
  ct_fails :: u32
  ct_until :: real
  ct_open_count :: u32
  ct_probe_ok :: u64
  ct_probe_fail :: u64

definition circuit0 :: circuit_state where
  "circuit0 = \<lparr>ct_fails = 0, ct_until = 0, ct_open_count = 0, ct_probe_ok = 0, ct_probe_fail = 0\<rparr>"

record cb_view =
  vw_fails :: u32
  vw_until_in_s :: real
  vw_open_count :: u32
  vw_probe_ok :: u64
  vw_probe_fail :: u64

record breaker =
  cb_map :: "circuit_state table"
  cb_all_open :: u64
  cb_last_all_open :: "str list"

definition breaker_new :: breaker where
  "breaker_new = \<lparr>cb_map = [], cb_all_open = 0, cb_last_all_open = []\<rparr>"

text \<open>\<open>entry(uid).or_default()\<close>, and the change of an entry.\<close>

definition circuit_of :: "str \<Rightarrow> breaker \<Rightarrow> circuit_state" where
  "circuit_of uid b = (case map_of (cb_map b) uid of Some s \<Rightarrow> s | None \<Rightarrow> circuit0)"

definition set_circuit :: "str \<Rightarrow> circuit_state \<Rightarrow> breaker \<Rightarrow> breaker" where
  "set_circuit uid s b = b\<lparr>cb_map := AList.update uid s (cb_map b)\<rparr>"

text \<open>The window of the next opening.\<close>

definition open_window :: "real \<Rightarrow> f64 \<Rightarrow> u32 \<Rightarrow> real" where
  "open_window open_s max_open_s open_count =
     (let shift = min (sat_dec open_count) OPEN_BACKOFF_MAX_SHIFT;
          factor = u32_real (push_bit (unat shift) 1);
          cap = (case max_open_s of Fin m \<Rightarrow> if m > 0 then max m open_s else open_s | _ \<Rightarrow> open_s);
          win = min (open_s * factor) cap in
      if win > 0 then win else open_s)"

definition fail_circuit :: "real \<Rightarrow> u32 \<Rightarrow> real \<Rightarrow> f64 \<Rightarrow> circuit_state \<Rightarrow> circuit_state" where
  "fail_circuit now threshold open_s max_open_s s =
     (let s = s\<lparr>ct_fails := sat_inc (ct_fails s)\<rparr> in
      if ct_fails s < threshold then s
      else
        let s = (if ct_until s \<le> now then s\<lparr>ct_open_count := sat_inc (ct_open_count s)\<rparr> else s) in
        s\<lparr>ct_until := now + open_window open_s max_open_s (ct_open_count s)\<rparr>)"

definition breaker_fail :: "str \<Rightarrow> real \<Rightarrow> u32 \<Rightarrow> real \<Rightarrow> f64 \<Rightarrow> breaker \<Rightarrow> breaker" where
  "breaker_fail uid now threshold open_s max_open_s b =
     set_circuit uid (fail_circuit now threshold open_s max_open_s (circuit_of uid b)) b"

definition breaker_ok :: "str \<Rightarrow> breaker \<Rightarrow> breaker" where
  "breaker_ok uid b =
     (case map_of (cb_map b) uid of
        Some s \<Rightarrow> set_circuit uid (s\<lparr>ct_fails := 0, ct_until := 0, ct_open_count := 0\<rparr>) b
      | None \<Rightarrow> b)"

definition breaker_probe_ok :: "str \<Rightarrow> breaker \<Rightarrow> bool \<times> breaker" where
  "breaker_probe_ok uid b =
     (let s = circuit_of uid b in
      (ct_until s > 0 \<or> ct_fails s > 0,
       set_circuit uid (s\<lparr>ct_probe_ok := sat_inc (ct_probe_ok s), ct_fails := 0, ct_until := 0, ct_open_count := 0\<rparr>) b))"

definition breaker_probe_fail :: "str \<Rightarrow> breaker \<Rightarrow> u64 \<times> breaker" where
  "breaker_probe_fail uid b =
     (let s = circuit_of uid b; n = sat_inc (ct_probe_fail s) in (n, set_circuit uid (s\<lparr>ct_probe_fail := n\<rparr>) b))"

definition is_open :: "str \<Rightarrow> real \<Rightarrow> breaker \<Rightarrow> bool" where
  "is_open uid now b \<longleftrightarrow> (case map_of (cb_map b) uid of Some s \<Rightarrow> ct_until s > now | None \<Rightarrow> False)"

definition breaker_view :: "str \<Rightarrow> real \<Rightarrow> breaker \<Rightarrow> cb_view" where
  "breaker_view uid now b =
     (case map_of (cb_map b) uid of
        Some s \<Rightarrow> \<lparr>vw_fails = ct_fails s, vw_until_in_s = max (ct_until s - now) 0, vw_open_count = ct_open_count s,
                   vw_probe_ok = ct_probe_ok s, vw_probe_fail = ct_probe_fail s\<rparr>
      | None \<Rightarrow> \<lparr>vw_fails = 0, vw_until_in_s = 0, vw_open_count = 0, vw_probe_ok = 0, vw_probe_fail = 0\<rparr>)"

definition note_all_open :: "str list \<Rightarrow> breaker \<Rightarrow> u64 \<times> breaker" where
  "note_all_open ids b = (cb_all_open b + 1, b\<lparr>cb_last_all_open := ids, cb_all_open := cb_all_open b + 1\<rparr>)"

text \<open>\<open>v.sort()\<close> of texts: the order of their bytes.\<close>

fun str_le :: "str \<Rightarrow> str \<Rightarrow> bool" where
  "str_le [] t = True"
| "str_le (a # s) [] = False"
| "str_le (a # s) (b # t) \<longleftrightarrow> a < b \<or> a = b \<and> str_le s t"

fun str_insert :: "str \<Rightarrow> str list \<Rightarrow> str list" where
  "str_insert s [] = [s]"
| "str_insert s (t # l) = (if str_le s t then s # t # l else t # str_insert s l)"

definition str_sort :: "str list \<Rightarrow> str list" where "str_sort l = foldr str_insert l []"

definition open_ids :: "real \<Rightarrow> breaker \<Rightarrow> str list" where
  "open_ids now b = str_sort (map fst (filter (\<lambda>(_, s). ct_until s > now) (cb_map b)))"

definition breaker_retain :: "str set \<Rightarrow> breaker \<Rightarrow> breaker" where
  "breaker_retain keep b = b\<lparr>cb_map := filter (\<lambda>(k, _). k \<in> keep) (cb_map b)\<rparr>"

definition breaker_clear :: "breaker \<Rightarrow> breaker" where
  "breaker_clear b = b\<lparr>cb_map := [], cb_last_all_open := [], cb_all_open := 0\<rparr>"

subsection \<open>Histories\<close>

datatype breaker_call =
  Fail str real
| Ok str
| ProbeOk str
| ProbeFail str
| NoteAllOpen "str list"
| Retain "str set"
| Clear

fun breaker_step :: "u32 \<Rightarrow> real \<Rightarrow> f64 \<Rightarrow> breaker_call \<Rightarrow> breaker \<Rightarrow> breaker" where
  "breaker_step th w mx (Fail uid now) b = breaker_fail uid now th w mx b"
| "breaker_step th w mx (Ok uid) b = breaker_ok uid b"
| "breaker_step th w mx (ProbeOk uid) b = snd (breaker_probe_ok uid b)"
| "breaker_step th w mx (ProbeFail uid) b = snd (breaker_probe_fail uid b)"
| "breaker_step th w mx (NoteAllOpen ids) b = snd (note_all_open ids b)"
| "breaker_step th w mx (Retain keep) b = breaker_retain keep b"
| "breaker_step th w mx Clear b = breaker_clear b"

definition breaker_run :: "u32 \<Rightarrow> real \<Rightarrow> f64 \<Rightarrow> breaker_call list \<Rightarrow> breaker" where
  "breaker_run th w mx cs = fold (breaker_step th w mx) cs breaker_new"

text \<open>What a call means for one upstream: the failures of its streak, newest first, and the openings among them.\<close>

fun streak :: "str \<Rightarrow> breaker_call \<Rightarrow> real list \<Rightarrow> real list" where
  "streak uid (Fail u now) fs = (if u = uid then now # fs else fs)"
| "streak uid (Ok u) fs = (if u = uid then [] else fs)"
| "streak uid (ProbeOk u) fs = (if u = uid then [] else fs)"
| "streak uid (Retain keep) fs = (if uid \<in> keep then fs else [])"
| "streak uid Clear fs = []"
| "streak uid _ fs = fs"

definition failures :: "str \<Rightarrow> breaker_call list \<Rightarrow> real list" where
  "failures uid cs = fold (streak uid) cs []"

lemma unat_max_u32: "unat (- 1 :: u32) = 4294967295"
  by (simp add: unsigned_minus_1_eq_mask mask_eq_exp_minus_1)

lemma sat_inc_unat: "unat (sat_inc (w :: u32)) = min (unat w + 1) 4294967295"
proof (cases "w = - 1")
  case True
  then show ?thesis by (simp add: sat_inc_def unat_max_u32)
next
  case False
  then have "unat w \<noteq> 4294967295" using unat_max_u32 by (metis word_unat_eq_iff)
  moreover have "unat w < 4294967296" using unat_less_exp [of w] by simp
  ultimately have "unat w + 1 < 4294967296" by linarith
  then have "(unat w + 1) mod 4294967296 = unat w + 1" "min (unat w + 1) 4294967295 = unat w + 1" by simp_all
  then show ?thesis using False by (simp add: sat_inc_def unat_word_ariths del: min_Suc_Suc)
qed

lemma factor_ge_1: "1 \<le> u32_real (push_bit (unat (min c OPEN_BACKOFF_MAX_SHIFT)) 1)"
proof -
  have "unat (min c OPEN_BACKOFF_MAX_SHIFT) < 5"
    by (auto simp: OPEN_BACKOFF_MAX_SHIFT_def min_def word_le_nat_alt)
  then have "unat (min c OPEN_BACKOFF_MAX_SHIFT) \<in> {0, 1, 2, 3, 4}" by auto
  then show ?thesis by (auto simp: u32_real_def push_bit_eq_mult)
qed

definition window_cap :: "real \<Rightarrow> f64 \<Rightarrow> real" where
  "window_cap open_s mx = (case mx of Fin m \<Rightarrow> max m open_s | _ \<Rightarrow> open_s)"

lemma open_window_bounds:
  assumes "0 < w"
  shows "w \<le> open_window w mx c" "open_window w mx c \<le> window_cap w mx"
proof -
  define f where "f = u32_real (push_bit (unat (min (sat_dec c) OPEN_BACKOFF_MAX_SHIFT)) 1)"
  have f: "1 \<le> f" using factor_ge_1 f_def by simp
  have wf: "w \<le> w * f" using assms f by simp
  define cap where "cap = (case mx of Fin m \<Rightarrow> if m > 0 then max m w else w | _ \<Rightarrow> w)"
  have cap: "w \<le> cap" "cap \<le> window_cap w mx" by (auto simp: cap_def window_cap_def split: f64.splits)
  have win: "open_window w mx c = (if min (w * f) cap > 0 then min (w * f) cap else w)"
    by (simp add: open_window_def Let_def f_def cap_def)
  show "w \<le> open_window w mx c" "open_window w mx c \<le> window_cap w mx"
    using wf cap assms by (simp_all add: win)
qed

subsection \<open>What a breaker knows of its history\<close>

text \<open>
  The state of one upstream after its streak of failures: the counter saturates, the circuit was opened by the latest
  failure exactly when the streak had reached the threshold.
\<close>

definition circuit_ok :: "u32 \<Rightarrow> real \<Rightarrow> f64 \<Rightarrow> real list \<Rightarrow> circuit_state \<Rightarrow> bool" where
  "circuit_ok th w mx fs s \<longleftrightarrow>
     unat (ct_fails s) = min (length fs) 4294967295
     \<and> (if fs \<noteq> [] \<and> unat th \<le> length fs
        then hd fs + w \<le> ct_until s \<and> ct_until s \<le> hd fs + window_cap w mx
        else ct_until s = 0)"

definition breaker_inv :: "u32 \<Rightarrow> real \<Rightarrow> f64 \<Rightarrow> (str \<Rightarrow> real list) \<Rightarrow> breaker \<Rightarrow> bool" where
  "breaker_inv th w mx fs b \<longleftrightarrow> (\<forall>uid. circuit_ok th w mx (fs uid) (circuit_of uid b))"

lemma circuit_of_set: "circuit_of uid (set_circuit u s b) = (if uid = u then s else circuit_of uid b)"
  by (simp add: circuit_of_def set_circuit_def update_conv')

lemma circuit_ok_0: "circuit_ok th w mx [] circuit0"
  by (simp add: circuit_ok_def circuit0_def)

lemma circuit_of_retain: "circuit_of uid (breaker_retain keep b) = (if uid \<in> keep then circuit_of uid b else circuit0)"
proof -
  have "map_of (filter (\<lambda>(k, _). k \<in> keep) l) uid = (if uid \<in> keep then map_of l uid else None)" for l :: "circuit_state table"
    by (induction l) auto
  then show ?thesis by (simp add: circuit_of_def breaker_retain_def)
qed

lemma fail_circuit_ok:
  assumes "circuit_ok th w mx fs s" "0 < w"
  shows "circuit_ok th w mx (now # fs) (fail_circuit now th w mx s)"
proof -
  let ?n = "sat_inc (ct_fails s)"
  have "unat th < 4294967296" using unat_less_exp [of th] by simp
  then have th: "unat th \<le> 4294967295" by linarith
  have n: "unat ?n = min (length (now # fs)) 4294967295" using assms(1) by (simp add: sat_inc_unat circuit_ok_def)
  have lt: "?n < th \<longleftrightarrow> length (now # fs) < unat th" using n th by (auto simp: word_less_nat_alt)
  show ?thesis
  proof (cases "?n < th")
    case True
    then have "\<not> unat th \<le> length fs" using lt by simp
    then show ?thesis using assms(1) True lt n by (auto simp: fail_circuit_def circuit_ok_def Let_def)
  next
    case False
    then show ?thesis using lt n open_window_bounds [OF assms(2), of mx]
      by (simp add: fail_circuit_def circuit_ok_def Let_def)
  qed
qed

lemma breaker_step_inv:
  assumes "breaker_inv th w mx fs b" "0 < w"
  shows "breaker_inv th w mx (\<lambda>uid. streak uid c (fs uid)) (breaker_step th w mx c b)"
proof -
  have reset: "circuit_ok th w mx [] (s\<lparr>ct_fails := 0, ct_until := 0, ct_open_count := 0\<rparr>)"
    "circuit_ok th w mx [] (s\<lparr>ct_probe_ok := p, ct_fails := 0, ct_until := 0, ct_open_count := 0\<rparr>)" for s p
    by (simp_all add: circuit_ok_def)
  have ok: "circuit_of uid (breaker_ok u b) = (if uid = u \<and> map_of (cb_map b) u \<noteq> None
      then (circuit_of u b)\<lparr>ct_fails := 0, ct_until := 0, ct_open_count := 0\<rparr> else circuit_of uid b)" for uid u
    by (auto simp: breaker_ok_def circuit_of_set split: option.split) (simp_all add: circuit_of_def)
  have none: "map_of (cb_map b) u = None \<Longrightarrow> circuit_of u b = circuit0" for u by (simp add: circuit_of_def)
  have probe: "circuit_ok th w mx f (s\<lparr>ct_probe_fail := p\<rparr>) \<longleftrightarrow> circuit_ok th w mx f s" for f s p
    by (simp add: circuit_ok_def)
  have clear: "circuit_of uid (breaker_clear b) = circuit0" for uid by (simp add: circuit_of_def breaker_clear_def)
  have all: "circuit_of uid (snd (note_all_open ids b)) = circuit_of uid b" for uid ids
    by (simp add: circuit_of_def note_all_open_def)
  show ?thesis
    using assms fail_circuit_ok [OF _ assms(2)] reset none circuit_ok_0
    by (cases c) (auto simp: breaker_inv_def breaker_fail_def circuit_of_set ok breaker_probe_ok_def breaker_probe_fail_def
        Let_def probe clear all circuit_of_retain)
qed

lemma breaker_run_inv:
  assumes "0 < w"
  shows "breaker_inv th w mx (\<lambda>uid. failures uid cs) (breaker_run th w mx cs)"
proof -
  have "breaker_inv th w mx fs b \<Longrightarrow>
      breaker_inv th w mx (\<lambda>uid. fold (streak uid) cs (fs uid)) (fold (breaker_step th w mx) cs b)" for fs b
  proof (induction cs arbitrary: fs b)
    case (Cons c cs)
    from Cons.IH [OF breaker_step_inv [OF Cons.prems assms]] show ?case by simp
  qed simp
  moreover have "breaker_inv th w mx (\<lambda>_. []) breaker_new"
    by (simp add: breaker_inv_def breaker_new_def circuit_of_def circuit_ok_0)
  ultimately show ?thesis by (simp add: breaker_run_def failures_def)
qed

lemma is_open_circuit: "0 \<le> now \<Longrightarrow> is_open uid now b \<longleftrightarrow> now < ct_until (circuit_of uid b)"
  by (auto simp: is_open_def circuit_of_def circuit0_def split: option.split)

text \<open>C23: Over any history of data-plane results, probes, reloads and resets, a breaker is open only while the upstream's
  latest uninterrupted streak of data-plane failures has reached the threshold, and then for at least the configured window
  and at most the cap after the newest failure of the streak.\<close>

theorem breaker_open_window:
  assumes "0 < w" "0 \<le> now"
  shows "(is_open uid now (breaker_run th w mx cs) \<longrightarrow>
      failures uid cs \<noteq> [] \<and> unat th \<le> length (failures uid cs) \<and> now < hd (failures uid cs) + window_cap w mx)
    \<and> (failures uid cs \<noteq> [] \<and> unat th \<le> length (failures uid cs) \<and> now < hd (failures uid cs) + w \<longrightarrow>
      is_open uid now (breaker_run th w mx cs))"
proof -
  have k: "circuit_ok th w mx (failures uid cs) (circuit_of uid (breaker_run th w mx cs))"
    using breaker_run_inv [OF assms(1), of th mx cs] by (simp add: breaker_inv_def)
  then show ?thesis
    using assms(2) unfolding is_open_circuit [OF assms(2)] by (auto simp: circuit_ok_def split: if_splits)
qed

lemma breaker_open_window_witness:
  "is_open [117] 10 (breaker_run 2 30 (Fin 120) [Fail [117] 4, ProbeFail [117], Fail [117] 5])"
proof -
  let ?cs = "[Fail [117] 4, ProbeFail [117], Fail [117] 5]"
  have "failures [117] ?cs = [5, 4]" by (simp add: failures_def)
  then show ?thesis using breaker_open_window [of 30 10 "[117]" 2 "Fin 120" ?cs] by simp
qed

end
