(* ===== verification/Nxdomain_Table.thy ===== *)
theory Nxdomain_Table
  imports Resolver_Types Rule_Index
begin

text \<open>
  The table \<open>Rfc8020Domains\<close> of \<open>ebpdns-resolver/src/rfc8020.rs\<close>: the names known not to exist, under which nothing
  exists either (RFC 8020).  Times are real seconds, \<open>expires_at\<close> of a registration may be a non-finite \<open>f64\<close>.
\<close>

definition RFC8020_MAX_ENTRIES :: nat where "RFC8020_MAX_ENTRIES = 65536"

definition label_count :: "str \<Rightarrow> nat" where
  "label_count d = length (filter (\<lambda>l. l \<noteq> []) (split_byte 46 d))"

record nx_entry =
  nx_expires_at :: real
  nx_rule_gen :: u64

record nx_hit =
  nh_ttl_left :: real
  nh_stale :: bool

type_synonym nx_table = "nx_entry table"

definition nx_register :: "real \<Rightarrow> str \<Rightarrow> f64 \<Rightarrow> u64 \<Rightarrow> nat \<Rightarrow> nx_table \<Rightarrow> bool \<times> nx_table" where
  "nx_register now name expires_at gen max_labels m =
     (case expires_at of
        Fin t \<Rightarrow>
          if name = [] \<or> t \<le> now then (False, m)
          else if label_count name > max max_labels 1 then (False, m)
          else
            let fresh = \<lparr>nx_expires_at = t, nx_rule_gen = gen\<rparr>;
                (changed, m) =
                  (case map_of m name of
                     Some slot \<Rightarrow>
                       if nx_rule_gen slot \<noteq> gen \<or> t > nx_expires_at slot then (True, AList.update name fresh m)
                       else (False, m)
                   | None \<Rightarrow> (True, AList.update name fresh m)) in
            (changed,
             if length m > RFC8020_MAX_ENTRIES
             then evict_oldest_by_ts m (RFC8020_MAX_ENTRIES * 3 div 4) nx_expires_at
             else m)
      | _ \<Rightarrow> (False, m))"

text \<open>One entry of the chain: the hit, or whether the entry is dead (expired, of another generation, too deep).\<close>

definition nx_visit :: "real \<Rightarrow> u64 \<Rightarrow> real \<Rightarrow> nat \<Rightarrow> nx_table \<Rightarrow> str \<Rightarrow> nx_hit option \<times> bool" where
  "nx_visit now gen window max_labels m cur =
     (case map_of m cur of
        None \<Rightarrow> (None, False)
      | Some e \<Rightarrow>
          if nx_rule_gen e \<noteq> gen \<or> label_count cur > max max_labels 1 then (None, True)
          else let left = nx_expires_at e - now in
            if left > 0 then (Some \<lparr>nh_ttl_left = left, nh_stale = False\<rparr>, False)
            else if window > 0 \<and> left + window > 0 then (Some \<lparr>nh_ttl_left = 0, nh_stale = True\<rparr>, False)
            else (None, True))"

text \<open>
  The walk up the name: the hit, and the last dead entry met on the way.  \<open>cur.find('.')\<close> with the rest behind it is
  \<open>split_once\<close>.
\<close>

function nx_walk :: "real \<Rightarrow> u64 \<Rightarrow> real \<Rightarrow> nat \<Rightarrow> nx_table \<Rightarrow> str \<Rightarrow> str option \<Rightarrow> nx_hit option \<times> str option" where
  "nx_walk now gen window max_labels m cur dead =
     (case nx_visit now gen window max_labels m cur of
        (Some h, _) \<Rightarrow> (Some h, dead)
      | (None, d) \<Rightarrow>
          (case split_once 46 cur of
             Some (_, rest) \<Rightarrow> nx_walk now gen window max_labels m rest (if d then Some cur else dead)
           | None \<Rightarrow> (None, if d then Some cur else dead)))"
  by pat_completeness auto
termination
  by (relation "measure (\<lambda>(_, _, _, _, _, cur, _). length cur)") (auto dest: split_once_shorter)

declare nx_walk.simps [simp del]

definition nx_lookup :: "real \<Rightarrow> str \<Rightarrow> u64 \<Rightarrow> bool \<Rightarrow> real \<Rightarrow> nat \<Rightarrow> nx_table \<Rightarrow> nx_hit option \<times> nx_table" where
  "nx_lookup now d gen serve_stale stale_ttl max_labels m =
     (if d = [] \<or> label_count d > max max_labels 1 then (None, m)
      else
        let window = (if serve_stale then max stale_ttl 0 else 0);
            (hit, dead) = nx_walk now gen window max_labels m d None in
        (hit, case dead of Some k \<Rightarrow> AList.delete k m | None \<Rightarrow> m))"

subsection \<open>The walk finds the nearest living ancestor\<close>

definition nx_live :: "real \<Rightarrow> u64 \<Rightarrow> real \<Rightarrow> nat \<Rightarrow> nx_table \<Rightarrow> str \<Rightarrow> bool" where
  "nx_live now gen window max_labels m s \<longleftrightarrow>
     (case map_of m s of
        Some e \<Rightarrow> nx_rule_gen e = gen \<and> label_count s \<le> max max_labels 1
          \<and> (now < nx_expires_at e \<or> 0 < window \<and> now < nx_expires_at e + window)
      | None \<Rightarrow> False)"

definition nx_hit_of :: "real \<Rightarrow> nx_entry \<Rightarrow> nx_hit" where
  "nx_hit_of now e =
     (if now < nx_expires_at e then \<lparr>nh_ttl_left = nx_expires_at e - now, nh_stale = False\<rparr>
      else \<lparr>nh_ttl_left = 0, nh_stale = True\<rparr>)"

lemma name_suffixes_rec:
  "name_suffixes n = n # (case split_once 46 n of Some (_, rest) \<Rightarrow> name_suffixes rest | None \<Rightarrow> [])"
  by (auto simp: name_suffixes_def label_parts.simps [of n] split: option.split)

lemma nx_visit_live:
  "nx_visit now gen window ml m s =
     (if nx_live now gen window ml m s then map_option (nx_hit_of now) (map_of m s) else None,
      map_of m s \<noteq> None \<and> \<not> nx_live now gen window ml m s)"
  by (auto simp: nx_visit_def nx_live_def nx_hit_of_def Let_def split: option.split)

lemma nx_live_present: "nx_live now gen window ml m s \<Longrightarrow> \<exists>e. map_of m s = Some e"
  by (auto simp: nx_live_def split: option.splits)

lemma nx_walk_find:
  "fst (nx_walk now gen window ml m cur dead) =
     (case find (nx_live now gen window ml m) (name_suffixes cur) of
        Some s \<Rightarrow> map_option (nx_hit_of now) (map_of m s)
      | None \<Rightarrow> None)"
proof (induction now gen window ml m cur dead rule: nx_walk.induct)
  case (1 now gen window ml m cur dead)
  show ?case
  proof (cases "nx_live now gen window ml m cur")
    case True
    then show ?thesis using nx_live_present [OF True]
      by (auto simp: nx_walk.simps [of _ _ _ _ _ cur] name_suffixes_rec [of cur] nx_visit_live)
  next
    case False
    then show ?thesis using 1 [OF nx_visit_live [symmetric]]
      by (auto simp: nx_walk.simps [of _ _ _ _ _ cur] name_suffixes_rec [of cur] nx_visit_live split: option.split)
  qed
qed

lemma nx_walk_dead:
  "snd (nx_walk now gen window ml m cur dead) = Some k \<Longrightarrow>
     dead = Some k \<or> (map_of m k \<noteq> None \<and> \<not> nx_live now gen window ml m k)"
proof (induction now gen window ml m cur dead rule: nx_walk.induct)
  case (1 now gen window ml m cur dead)
  show ?case
  proof (cases "nx_live now gen window ml m cur")
    case True
    then show ?thesis using 1(2) nx_live_present [OF True] by (auto simp: nx_walk.simps [of _ _ _ _ _ cur] nx_visit_live)
  next
    case False
    then show ?thesis using 1(1) [OF nx_visit_live [symmetric]] 1(2)
      by (fastforce simp: nx_walk.simps [of _ _ _ _ _ cur] nx_visit_live split: option.splits if_splits)
  qed
qed

subsection \<open>Histories\<close>

datatype nx_call =
  NxRegister real str f64 u64 nat
| NxLookup real str u64 bool real nat
| NxClear

fun nx_step :: "nx_call \<Rightarrow> nx_table \<Rightarrow> nx_table" where
  "nx_step (NxRegister now name t gen ml) m = snd (nx_register now name t gen ml m)"
| "nx_step (NxLookup now d gen ss st ml) m = snd (nx_lookup now d gen ss st ml m)"
| "nx_step NxClear m = []"

definition nx_run :: "nx_call list \<Rightarrow> nx_table" where "nx_run cs = fold nx_step cs []"

text \<open>Keys are distinct, the table is bounded, and every entry was registered, with its time and generation.\<close>

definition nx_inv :: "nx_call set \<Rightarrow> nx_table \<Rightarrow> bool" where
  "nx_inv S m \<longleftrightarrow>
     distinct (map fst m) \<and> length m \<le> RFC8020_MAX_ENTRIES
     \<and> (\<forall>name e. map_of m name = Some e \<longrightarrow>
          (\<exists>now ml. NxRegister now name (Fin (nx_expires_at e)) (nx_rule_gen e) ml \<in> S))"

lemma nx_invI:
  "distinct (map fst m) \<Longrightarrow> length m \<le> RFC8020_MAX_ENTRIES \<Longrightarrow>
     (\<And>name e. map_of m name = Some e \<Longrightarrow> \<exists>now ml. NxRegister now name (Fin (nx_expires_at e)) (nx_rule_gen e) ml \<in> S) \<Longrightarrow>
     nx_inv S m"
  by (simp add: nx_inv_def)

lemma nx_inv_mono: "nx_inv S m \<Longrightarrow> S \<subseteq> T \<Longrightarrow> nx_inv T m"
  unfolding nx_inv_def by blast

lemma update_length: "length (AList.update k v m) \<le> Suc (length m)"
  by (induction m) auto

lemma nx_inv_update:
  assumes "nx_inv S m"
  shows "nx_inv (insert (NxRegister now name (Fin t) gen ml) S)
     (let m' = AList.update name \<lparr>nx_expires_at = t, nx_rule_gen = gen\<rparr> m in
      if length m' > RFC8020_MAX_ENTRIES then evict_oldest_by_ts m' (RFC8020_MAX_ENTRIES * 3 div 4) nx_expires_at else m')"
proof -
  define m' where "m' = AList.update name \<lparr>nx_expires_at = t, nx_rule_gen = gen\<rparr> m"
  have d: "distinct (map fst m')" using assms by (simp add: m'_def nx_inv_def distinct_update)
  have e: "\<exists>now' ml'. NxRegister now' n (Fin (nx_expires_at e)) (nx_rule_gen e) ml' \<in> insert (NxRegister now name (Fin t) gen ml) S"
    if "map_of m' n = Some e" for n e
  proof (cases "n = name")
    case True
    then have "e = \<lparr>nx_expires_at = t, nx_rule_gen = gen\<rparr>" using that by (simp add: m'_def update_conv')
    then show ?thesis using True by (intro exI [of _ now] exI [of _ ml]) simp
  next
    case False
    then have "map_of m n = Some e" using that by (simp add: m'_def update_conv')
    then show ?thesis using assms unfolding nx_inv_def by blast
  qed
  show ?thesis
    unfolding Let_def m'_def [symmetric]
  proof (cases "length m' > RFC8020_MAX_ENTRIES")
    case True
    let ?e = "evict_oldest_by_ts m' (RFC8020_MAX_ENTRIES * 3 div 4) nx_expires_at"
    have "length ?e \<le> RFC8020_MAX_ENTRIES" unfolding evict_length [OF d] by (simp add: RFC8020_MAX_ENTRIES_def)
    then have "nx_inv (insert (NxRegister now name (Fin t) gen ml) S) ?e"
      by (intro nx_invI evict_distinct [OF d] e) (assumption, rule evict_map_of [OF d])
    then show "nx_inv (insert (NxRegister now name (Fin t) gen ml) S) (if length m' > RFC8020_MAX_ENTRIES then ?e else m')"
      using True by (simp only: if_True)
  next
    case False
    then have "nx_inv (insert (NxRegister now name (Fin t) gen ml) S) m'"
      by (intro nx_invI d e) simp_all
    then show "nx_inv (insert (NxRegister now name (Fin t) gen ml) S) (if length m' > RFC8020_MAX_ENTRIES
        then evict_oldest_by_ts m' (RFC8020_MAX_ENTRIES * 3 div 4) nx_expires_at else m')"
      using False by (simp only: if_False)
  qed
qed

lemma nx_register_cases:
  obtains (same) "snd (nx_register now name x gen ml m) = m"
  | (put) t where "x = Fin t" "snd (nx_register now name x gen ml m) =
      (let m' = AList.update name \<lparr>nx_expires_at = t, nx_rule_gen = gen\<rparr> m in
       if length m' > RFC8020_MAX_ENTRIES then evict_oldest_by_ts m' (RFC8020_MAX_ENTRIES * 3 div 4) nx_expires_at else m')"
  | (kept) t where "x = Fin t" "snd (nx_register now name x gen ml m) =
      (if length m > RFC8020_MAX_ENTRIES then evict_oldest_by_ts m (RFC8020_MAX_ENTRIES * 3 div 4) nx_expires_at else m)"
proof (cases x)
  case (Fin t)
  consider "name = [] \<or> t \<le> now \<or> max ml 1 < label_count name"
    | "\<not> (name = [] \<or> t \<le> now \<or> max ml 1 < label_count name)"
      "map_of m name = None \<or> (\<exists>e. map_of m name = Some e \<and> (nx_rule_gen e \<noteq> gen \<or> nx_expires_at e < t))"
    | e where "\<not> (name = [] \<or> t \<le> now \<or> max ml 1 < label_count name)" "map_of m name = Some e"
      "\<not> (nx_rule_gen e \<noteq> gen \<or> nx_expires_at e < t)"
    by (cases "map_of m name") auto
  then show ?thesis
  proof cases
    case 1
    then have "snd (nx_register now name x gen ml m) = m" unfolding nx_register_def Fin by auto
    then show ?thesis by (rule same)
  next
    case 2
    then show ?thesis by (intro put [OF Fin]) (auto simp: nx_register_def Fin Let_def)
  next
    case 3
    then show ?thesis by (intro kept [OF Fin]) (auto simp: nx_register_def Fin Let_def)
  qed
qed (auto simp: nx_register_def intro: same)

lemma map_of_delete_Some: "map_of (AList.delete k m) n = Some e \<Longrightarrow> map_of m n = Some e"
  by (auto simp: AList.delete_conv' split: if_splits)

lemma nx_inv_step: "nx_inv S m \<Longrightarrow> nx_inv (insert c S) (nx_step c m)"
proof (cases c)
  case (NxRegister now name x gen ml)
  assume i: "nx_inv S m"
  show ?thesis
  proof (cases rule: nx_register_cases [of now name x gen ml m])
    case same
    then show ?thesis using i NxRegister nx_inv_mono [of S m] by auto
  next
    case (put t)
    then show ?thesis using nx_inv_update [OF i, of now name t gen ml] NxRegister by simp
  next
    case (kept t)
    then have "nx_step c m = m" using i NxRegister by (simp add: nx_inv_def)
    then show ?thesis using i nx_inv_mono [of S m] by auto
  qed
next
  case (NxLookup now d gen ss st ml)
  assume i: "nx_inv S m"
  have "nx_inv S (AList.delete k m)" for k
    using i map_of_delete_Some [of k m] length_delete_le [of k m] unfolding nx_inv_def
    by (meson distinct_delete order_trans)
  moreover have "nx_step c m = m \<or> (\<exists>k. nx_step c m = AList.delete k m)"
    using NxLookup by (simp add: nx_lookup_def Let_def case_prod_beta split: option.split) blast
  ultimately have "nx_inv S (nx_step c m)" using i by auto
  then show ?thesis by (rule nx_inv_mono) blast
qed (simp add: nx_inv_def)

lemma nx_run_inv: "nx_inv (set cs) (nx_run cs)"
proof -
  have "nx_inv S m \<Longrightarrow> nx_inv (S \<union> set cs) (fold nx_step cs m)" for S m
  proof (induction cs arbitrary: S m)
    case (Cons c cs)
    from Cons.IH [OF nx_inv_step [OF Cons.prems, of c]] show ?case by simp
  qed simp
  from this [of "{}" "[]"] show ?thesis by (simp add: nx_run_def nx_inv_def)
qed

text \<open>C24: After any history, whatever the table infers for a name rests on a registration, under the current rules, of the
  name itself or of a name above it, not yet expired; the inferred lifetime is what is left of that registration; and the
  table stays within its bound.\<close>

theorem rfc8020_sound:
  assumes "fst (nx_lookup now d gen False 0 ml (nx_run cs)) = Some h"
  shows "(\<exists>name\<in>set (name_suffixes d). \<exists>now0 t ml0. NxRegister now0 name (Fin t) gen ml0 \<in> set cs \<and> now < t
      \<and> h = \<lparr>nh_ttl_left = t - now, nh_stale = False\<rparr> \<and> label_count name \<le> max ml 1)
    \<and> length (nx_run cs) \<le> RFC8020_MAX_ENTRIES"
proof -
  let ?m = "nx_run cs"
  have i: "nx_inv (set cs) ?m" by (rule nx_run_inv)
  then have len: "length ?m \<le> RFC8020_MAX_ENTRIES" by (simp add: nx_inv_def)
  have "fst (nx_walk now gen 0 ml ?m d None) = Some h"
    using assms by (auto simp: nx_lookup_def Let_def split: prod.splits if_splits)
  then obtain s where f: "find (nx_live now gen 0 ml ?m) (name_suffixes d) = Some s"
      and h: "map_option (nx_hit_of now) (map_of ?m s) = Some h"
    unfolding nx_walk_find by (auto split: option.splits)
  from f have s: "s \<in> set (name_suffixes d)" "nx_live now gen 0 ml ?m s" by (auto simp: find_Some_iff)
  then obtain e where e: "map_of ?m s = Some e" "nx_rule_gen e = gen" "label_count s \<le> max ml 1" "now < nx_expires_at e"
    by (auto simp: nx_live_def split: option.splits)
  obtain now0 ml0 where "NxRegister now0 s (Fin (nx_expires_at e)) gen ml0 \<in> set cs"
    using i e(1,2) unfolding nx_inv_def by metis
  then show ?thesis
    using s(1) e h len by (intro conjI bexI [OF _ s(1)]) (auto simp: nx_hit_of_def)
qed


lemma sample_nx:
  "label_count (lit ''b'') = 1" "label_count (lit ''a.b'') = 2" "name_suffixes (lit ''a.b'') = [lit ''a.b'', lit ''b'']"
  by (simp_all add: label_count_def name_suffixes_rec split_once_def)

lemma rfc8020_sound_witness:
  "fst (nx_lookup 10 (lit ''a.b'') 7 False 0 8 (nx_run [NxRegister 0 (lit ''b'') (Fin 60) 7 8])) = Some \<lparr>nh_ttl_left = 50, nh_stale = False\<rparr>
   \<and> length (nx_run [NxRegister 0 (lit ''b'') (Fin 60) 7 8]) \<le> RFC8020_MAX_ENTRIES"
proof -
  let ?h = "[NxRegister 0 (lit ''b'') (Fin 60) 7 8]"
  have m: "nx_run ?h = [(lit ''b'', \<lparr>nx_expires_at = 60, nx_rule_gen = 7\<rparr>)]"
    using sample_nx(1) by (simp add: nx_run_def nx_register_def RFC8020_MAX_ENTRIES_def Let_def)
  have "nx_live 10 7 0 8 (nx_run ?h) (lit ''b'')" "\<not> nx_live 10 7 0 8 (nx_run ?h) (lit ''a.b'')"
    using sample_nx(1) unfolding m nx_live_def by simp_all
  then have "fst (nx_walk 10 7 0 8 (nx_run ?h) (lit ''a.b'') None) = Some \<lparr>nh_ttl_left = 50, nh_stale = False\<rparr>"
    by (simp only: nx_walk_find sample_nx(3) find.simps if_True if_False option.case) (unfold m, simp add: nx_hit_of_def)
  then have l: "fst (nx_lookup 10 (lit ''a.b'') 7 False 0 8 (nx_run ?h)) = Some \<lparr>nh_ttl_left = 50, nh_stale = False\<rparr>"
    using sample_nx(2) by (auto simp: nx_lookup_def Let_def split: prod.splits)
  then show ?thesis using rfc8020_sound [OF l] by blast
qed


end
