(* ===== verification/Classify.thy ===== *)
theory Classify
  imports Resolver_Types Message
begin

text \<open>
  \<open>ebpdns-resolver/src/query.rs\<close>: from the bytes of an upstream's response to the answer the resolver votes on.  The
  records that count are those of the name asked for and of the targets of its aliases (the bailiwick).
\<close>

definition cname_target :: "resource_record \<Rightarrow> str option" where
  "cname_target rr = (case rr_rdata rr of CNAME t \<Rightarrow> Some t | _ \<Rightarrow> None)"

record classified =
  cl_allowed :: "str list"
  cl_cnames :: "(str \<times> u32) list"
  cl_answers :: "resolve_answer list"

definition in_bailiwick :: "str \<Rightarrow> classified \<Rightarrow> bool" where
  "in_bailiwick owner st \<longleftrightarrow> cl_allowed st = [] \<or> owner \<in> set (cl_allowed st)"

definition classify_rr :: "u16 \<Rightarrow> resource_record \<Rightarrow> classified \<Rightarrow> classified" where
  "classify_rr want rr st =
     (let owner = normalize (rr_name rr) in
      if rtype rr = TYPE_CNAME \<and> want \<noteq> TYPE_CNAME then
        (case cname_target rr of
           None \<Rightarrow> st
         | Some tgt \<Rightarrow>
             let tgt = normalize tgt in
             if \<not> in_bailiwick owner st then st
             else if tgt = [] then st
             else st\<lparr>cl_cnames := cl_cnames st @ [(tgt, ttl rr)], cl_allowed := tgt # cl_allowed st\<rparr>)
      else if rtype rr \<noteq> want then st
      else if \<not> in_bailiwick owner st then st
      else st\<lparr>cl_answers := cl_answers st
             @ [\<lparr>rv_value = as_display (rr_rdata rr), rv_ttl = u32_real (ttl rr), rv_rtype = rtype rr, rv_name = None\<rparr>]\<rparr>)"

definition soa_minimum :: "resource_record list \<Rightarrow> u32 option" where
  "soa_minimum rrs = fold (\<lambda>rr acc. case rr_rdata rr of SOA _ _ _ _ _ _ m \<Rightarrow> Some m | _ \<Rightarrow> acc) rrs None"

definition classify_one :: "str \<Rightarrow> str \<Rightarrow> bytes \<Rightarrow> u16 \<Rightarrow> f64 \<Rightarrow> upstream_answer" where
  "classify_one up qname body want lat =
     (let out = ua_default\<lparr>ua_up := up, ua_lat := lat\<rparr> in
      case parse_message body of
        Inl _ \<Rightarrow> out
      | Inr msg \<Rightarrow>
          let base = normalize qname;
              st = fold (classify_rr want) (answers msg)
                     \<lparr>cl_allowed = (if base = [] then [] else [base]), cl_cnames = [], cl_answers = []\<rparr> in
          out\<lparr>ua_rcode := Some (rcode msg), ua_truncated := truncated msg, ua_cnames := cl_cnames st,
              ua_answers := cl_answers st, ua_neg_ttl := soa_minimum (authority msg)\<rparr>)"

subsection \<open>The bailiwick\<close>

text \<open>The names an answer section leads to from the name asked for, alias by alias.\<close>

inductive chained :: "resource_record list \<Rightarrow> str \<Rightarrow> str \<Rightarrow> bool" for rrs base where
  start: "chained rrs base base"
| hop: "chained rrs base (normalize (rr_name rr)) \<Longrightarrow> rr \<in> set rrs \<Longrightarrow> rtype rr = TYPE_CNAME \<Longrightarrow>
    cname_target rr = Some t \<Longrightarrow> normalize t \<noteq> [] \<Longrightarrow> chained rrs base (normalize t)"

definition answer_from :: "resource_record list \<Rightarrow> str \<Rightarrow> u16 \<Rightarrow> resolve_answer \<Rightarrow> bool" where
  "answer_from rrs base want a \<longleftrightarrow>
     (\<exists>rr\<in>set rrs. rtype rr = want \<and> normalize (rr_name rr) \<noteq> [] \<and> chained rrs base (normalize (rr_name rr))
        \<and> a = \<lparr>rv_value = as_display (rr_rdata rr), rv_ttl = u32_real (ttl rr), rv_rtype = want, rv_name = None\<rparr>)"

definition alias_from :: "resource_record list \<Rightarrow> str \<Rightarrow> str \<times> u32 \<Rightarrow> bool" where
  "alias_from rrs base = (\<lambda>(t, l). t \<noteq> [] \<and>
     (\<exists>rr\<in>set rrs. rtype rr = TYPE_CNAME \<and> ttl rr = l \<and> normalize (rr_name rr) \<noteq> []
        \<and> chained rrs base (normalize (rr_name rr)) \<and> map_option normalize (cname_target rr) = Some t))"

definition classified_ok :: "resource_record list \<Rightarrow> str \<Rightarrow> u16 \<Rightarrow> classified \<Rightarrow> bool" where
  "classified_ok rrs base want st \<longleftrightarrow>
     base \<in> set (cl_allowed st) \<and> list_all (\<lambda>n. n \<noteq> [] \<and> chained rrs base n) (cl_allowed st)
     \<and> list_all (alias_from rrs base) (cl_cnames st) \<and> list_all (answer_from rrs base want) (cl_answers st)"

lemma classify_rr_ok:
  assumes ok: "classified_ok rrs base want st" and rr: "rr \<in> set rrs"
  shows "classified_ok rrs base want (classify_rr want rr st)"
proof (cases "in_bailiwick (normalize (rr_name rr)) st")
  case False
  then have "classify_rr want rr st = st" by (simp add: classify_rr_def Let_def split: option.split)
  then show ?thesis using ok by simp
next
  case True
  then have bail: "normalize (rr_name rr) \<noteq> []" "chained rrs base (normalize (rr_name rr))"
    using ok by (auto simp: classified_ok_def in_bailiwick_def list_all_iff)
  show ?thesis
  proof (cases "rtype rr = TYPE_CNAME \<and> want \<noteq> TYPE_CNAME")
    case link: True
    show ?thesis
    proof (cases "\<exists>t. cname_target rr = Some t \<and> normalize t \<noteq> []")
      case False
      then have "classify_rr want rr st = st" using link by (auto simp: classify_rr_def Let_def split: option.split)
      then show ?thesis using ok by simp
    next
      case True
      then obtain t where t: "cname_target rr = Some t" "normalize t \<noteq> []" by blast
      have "chained rrs base (normalize t)" using chained.hop [OF bail(2) rr _ t] link by simp
      moreover have "alias_from rrs base (normalize t, ttl rr)"
        using bail rr t link by (auto simp: alias_from_def)
      ultimately show ?thesis using ok t link True
        by (simp add: classified_ok_def classify_rr_def Let_def \<open>in_bailiwick _ _\<close>)
    qed
  next
    case plain: False
    show ?thesis
    proof (cases "rtype rr = want")
      case wanted: True
      have "answer_from rrs base want
          \<lparr>rv_value = as_display (rr_rdata rr), rv_ttl = u32_real (ttl rr), rv_rtype = want, rv_name = None\<rparr>"
        using bail rr wanted by (auto simp: answer_from_def)
      then show ?thesis using ok plain wanted True by (auto simp: classified_ok_def classify_rr_def Let_def)
    next
      case False
      then have "classify_rr want rr st = st" using plain by (auto simp: classify_rr_def Let_def)
      then show ?thesis using ok by simp
    qed
  qed
qed

lemma classify_fold_ok:
  "classified_ok rrs base want st \<Longrightarrow> set l \<subseteq> set rrs \<Longrightarrow> classified_ok rrs base want (fold (classify_rr want) l st)"
  by (induction l arbitrary: st) (auto intro: classify_rr_ok)

text \<open>C28: Whatever an upstream sends, an answer taken from its response is a record of the type asked for whose owner is the
  name asked for or is reached from it through aliases of the same response; records of other names are left out, and an
  alias is followed only from such an owner.\<close>

theorem classify_in_bailiwick:
  assumes "parse_message body = Inr msg" "normalize qname \<noteq> []"
  shows "list_all (answer_from (answers msg) (normalize qname) want) (ua_answers (classify_one up qname body want lat))
    \<and> list_all (alias_from (answers msg) (normalize qname)) (ua_cnames (classify_one up qname body want lat))"
proof -
  let ?st = "fold (classify_rr want) (answers msg)
      \<lparr>cl_allowed = [normalize qname], cl_cnames = [], cl_answers = []\<rparr>"
  have "classified_ok (answers msg) (normalize qname) want ?st"
    using assms(2) by (intro classify_fold_ok) (auto simp: classified_ok_def intro: chained.start)
  moreover have "ua_answers (classify_one up qname body want lat) = cl_answers ?st"
      "ua_cnames (classify_one up qname body want lat) = cl_cnames ?st"
    using assms by (simp_all add: classify_one_def Let_def)
  ultimately show ?thesis by (simp add: classified_ok_def)
qed

text \<open>A response with one address record, for the example.\<close>

definition sample_response :: bytes where
  "sample_response = [0,1, 0x81,0x80, 0,0, 0,1, 0,0, 0,0, 1,97,0, 0,1, 0,1, 0,0,0,60, 0,4, 1,2,3,4]"

lemma sample_response_parses:
  "\<exists>m. parse_message sample_response = Inr m
     \<and> answers m = [\<lparr>rr_name = [97], rtype = 1, rclass = 1, ttl = 60, rr_rdata = A 16909060\<rparr>]"
proof -
  have "valid_utf8 [97]" by code_simp
  then have d: "decode_name sample_response 12 = Inr ([97], 15)"
    unfolding decode_name_def sample_response_def
    by (subst decode_loop.simps, simp add: slice_def, subst decode_loop.simps, simp)
  have r: "parse_rdata sample_response 25 1 4 = Some (A 16909060)"
    by (simp add: parse_rdata_def slice_def of_be_def sample_response_def)
  have l: "length sample_response = 29" by (simp add: sample_response_def)
  have "be_u16 sample_response 15 = Some 1" "be_u16 sample_response 17 = Some 1" "be_u32 sample_response 19 = Some 60"
      "be_u16 sample_response 23 = Some 4"
    by (simp_all add: be_u16_def be_u32_def slice_def of_be_def sample_response_def)
  then have s: "parse_section sample_response 1 12
      = Inr (29, [\<lparr>rr_name = [97], rtype = 1, rclass = 1, ttl = 60, rr_rdata = A 16909060\<rparr>])"
    unfolding One_nat_def by (simp add: d r l)
  have "\<exists>i fl. be_u16 sample_response 0 = Some i \<and> be_u16 sample_response 2 = Some fl"
      "be_u16 sample_response 4 = Some 0" "be_u16 sample_response 6 = Some 1" "be_u16 sample_response 8 = Some 0"
      "be_u16 sample_response 10 = Some 0"
    by (simp_all add: be_u16_def slice_def of_be_def sample_response_def)
  then show ?thesis using l s by (auto simp: parse_message_def)
qed

lemma classify_in_bailiwick_witness:
  "\<exists>m. parse_message sample_response = Inr m
     \<and> list_all (answer_from (answers m) (normalize [97]) 1) (ua_answers (classify_one [117] [97] sample_response 1 (Fin 0)))"
proof -
  obtain m where m: "parse_message sample_response = Inr m" using sample_response_parses by blast
  have "normalize [97] \<noteq> []" by code_simp
  from classify_in_bailiwick [OF m this] m show ?thesis by blast
qed

end
