(* ===== verification/Single_Flight.thy ===== *)
theory Single_Flight
  imports Prelude
begin

text \<open>
  \<open>ebpdns-resolver/src/singleflight.rs\<close>: callers of the same key share one execution.  A call of \<open>run_tagged\<close> is a task
  that passes through the phases below; between two of its accesses to shared state any other task may run.  A shared
  \<open>Entry\<close> (an \<open>Arc\<close>) is its address, a number; the contract of \<open>tokio::sync::OnceCell\<close> is its documentation: one caller
  at a time runs the closure, its value is kept for all, and an execution that is dropped leaves the cell empty.
\<close>

datatype 'v cell = Empty | Running nat | Done 'v

text \<open>The result of a call is the value with the flag whether it ran the closure, or nothing when it was cancelled.\<close>

datatype 'v phase =
  Idle
| Looked str nat
| Waiting str nat
| Leading str nat
| Leaving str nat "('v \<times> bool) option"
| Removing str nat "('v \<times> bool) option"
| Finished "('v \<times> bool) option"

record 'v flight =
  fl_map :: "str \<rightharpoonup> nat"
  fl_next :: nat
  fl_refs :: "nat \<Rightarrow> nat"
  fl_cell :: "nat \<Rightarrow> 'v cell"
  fl_task :: "nat \<Rightarrow> 'v phase"

definition flight_new :: "'v flight" where
  "flight_new = \<lparr>fl_map = Map.empty, fl_next = 0, fl_refs = (\<lambda>_. 0), fl_cell = (\<lambda>_. Empty), fl_task = (\<lambda>_. Idle)\<rparr>"

definition to_phase :: "nat \<Rightarrow> 'v phase \<Rightarrow> 'v flight \<Rightarrow> 'v flight" where
  "to_phase t p s = s\<lparr>fl_task := (fl_task s)(t := p)\<rparr>"

text \<open>Under the lock of the map: the entry of the key, made if there is none.\<close>

definition look_up :: "nat \<Rightarrow> str \<Rightarrow> 'v flight \<Rightarrow> 'v flight" where
  "look_up t k s =
     (case fl_map s k of
        Some e \<Rightarrow> to_phase t (Looked k e) s
      | None \<Rightarrow>
          let e = fl_next s in
          to_phase t (Looked k e) (s\<lparr>fl_map := (fl_map s)(k \<mapsto> e), fl_next := e + 1, fl_refs := (fl_refs s)(e := 0),
            fl_cell := (fl_cell s)(e := Empty)\<rparr>))"

definition join_entry :: "nat \<Rightarrow> str \<Rightarrow> nat \<Rightarrow> 'v flight \<Rightarrow> 'v flight" where
  "join_entry t k e s = to_phase t (Waiting k e) (s\<lparr>fl_refs := (fl_refs s)(e := fl_refs s e + 1)\<rparr>)"

definition set_cell :: "nat \<Rightarrow> 'v cell \<Rightarrow> 'v flight \<Rightarrow> 'v flight" where
  "set_cell e c s = s\<lparr>fl_cell := (fl_cell s)(e := c)\<rparr>"

text \<open>The drop of the guard: the count, and when it was the last one the map.\<close>

definition leave_entry :: "nat \<Rightarrow> str \<Rightarrow> nat \<Rightarrow> ('v \<times> bool) option \<Rightarrow> 'v flight \<Rightarrow> 'v flight" where
  "leave_entry t k e r s =
     to_phase t (if fl_refs s e = 1 then Removing k e r else Finished r) (s\<lparr>fl_refs := (fl_refs s)(e := fl_refs s e - 1)\<rparr>)"

definition remove_entry :: "nat \<Rightarrow> str \<Rightarrow> nat \<Rightarrow> ('v \<times> bool) option \<Rightarrow> 'v flight \<Rightarrow> 'v flight" where
  "remove_entry t k e r s =
     to_phase t (Finished r) (if fl_map s k = Some e then s\<lparr>fl_map := (fl_map s)(k := None)\<rparr> else s)"

text \<open>One access of one task.  \<open>cancels\<close> says whether futures may be dropped while they wait.\<close>

inductive flight_step :: "bool \<Rightarrow> 'v flight \<Rightarrow> 'v flight \<Rightarrow> bool" for cancels where
  look: "fl_task s t = Idle \<Longrightarrow> flight_step cancels s (look_up t k s)"
| join: "fl_task s t = Looked k e \<Longrightarrow> flight_step cancels s (join_entry t k e s)"
| lead: "fl_task s t = Waiting k e \<Longrightarrow> fl_cell s e = Empty \<Longrightarrow>
    flight_step cancels s (to_phase t (Leading k e) (set_cell e (Running t) s))"
| finish: "fl_task s t = Leading k e \<Longrightarrow>
    flight_step cancels s (to_phase t (Leaving k e (Some (v, True))) (set_cell e (Done v) s))"
| follow: "fl_task s t = Waiting k e \<Longrightarrow> fl_cell s e = Done v \<Longrightarrow>
    flight_step cancels s (to_phase t (Leaving k e (Some (v, False))) s)"
| leave: "fl_task s t = Leaving k e r \<Longrightarrow> flight_step cancels s (leave_entry t k e r s)"
| remove: "fl_task s t = Removing k e r \<Longrightarrow> flight_step cancels s (remove_entry t k e r s)"
| cancel_wait: "cancels \<Longrightarrow> fl_task s t = Waiting k e \<Longrightarrow> flight_step cancels s (to_phase t (Leaving k e None) s)"
| cancel_lead: "cancels \<Longrightarrow> fl_task s t = Leading k e \<Longrightarrow>
    flight_step cancels s (to_phase t (Leaving k e None) (set_cell e Empty s))"

inductive flight_reaches :: "bool \<Rightarrow> 'v flight \<Rightarrow> bool" for cancels where
  init: "flight_reaches cancels flight_new"
| step: "flight_reaches cancels s \<Longrightarrow> flight_step cancels s s' \<Longrightarrow> flight_reaches cancels s'"

inductive_cases flight_stepE: "flight_step cancels s s'"

subsection \<open>Invariants\<close>

fun place :: "'v phase \<Rightarrow> (str \<times> nat) option" where
  "place (Looked k e) = Some (k, e)"
| "place (Waiting k e) = Some (k, e)"
| "place (Leading k e) = Some (k, e)"
| "place (Leaving k e r) = Some (k, e)"
| "place (Removing k e r) = Some (k, e)"
| "place _ = None"

text \<open>The tasks whose reference is counted.\<close>

fun joined :: "'v phase \<Rightarrow> nat \<Rightarrow> bool" where
  "joined (Waiting k e) e' \<longleftrightarrow> e = e'"
| "joined (Leading k e) e' \<longleftrightarrow> e = e'"
| "joined (Leaving k e r) e' \<longleftrightarrow> e = e'"
| "joined _ _ \<longleftrightarrow> False"

text \<open>The value a task takes away from its entry, with the flag whether it ran the closure itself.\<close>

fun result_at :: "'v phase \<Rightarrow> (nat \<times> 'v \<times> bool) option" where
  "result_at (Leaving k e r) = map_option (Pair e) r"
| "result_at (Removing k e r) = map_option (Pair e) r"
| "result_at _ = None"

definition members :: "'v flight \<Rightarrow> nat \<Rightarrow> nat set" where
  "members s e = {t. joined (fl_task s t) e}"

lemma joined_place: "joined p e \<Longrightarrow> \<exists>k. place p = Some (k, e)"
  by (cases p) auto

lemmas flight_defs = look_up_def join_entry_def leave_entry_def remove_entry_def set_cell_def to_phase_def Let_def

subsection \<open>The counts\<close>

definition count_inv :: "'v flight \<Rightarrow> bool" where
  "count_inv s \<longleftrightarrow> (\<forall>e. finite (members s e) \<and> fl_refs s e = card (members s e))"

definition fresh_inv :: "'v flight \<Rightarrow> bool" where
  "fresh_inv s \<longleftrightarrow> (\<forall>t k e. place (fl_task s t) = Some (k, e) \<longrightarrow> e < fl_next s) \<and> (\<forall>k e. fl_map s k = Some e \<longrightarrow> e < fl_next s)"

lemma members_phase:
  "members (to_phase t p s) e = (if joined p e then insert t (members s e) else members s e - {t})"
  by (auto simp: members_def to_phase_def)

lemma members_other [simp]:
  "members (s\<lparr>fl_map := m\<rparr>) = members s" "members (s\<lparr>fl_next := n\<rparr>) = members s"
  "members (s\<lparr>fl_refs := r\<rparr>) = members s" "members (s\<lparr>fl_cell := c\<rparr>) = members s" "members (set_cell e c' s) = members s"
  by (simp_all add: members_def fun_eq_iff set_cell_def)

lemma refs_phase [simp]: "fl_refs (to_phase t p s) = fl_refs s" "fl_refs (set_cell e c s) = fl_refs s"
  by (simp_all add: to_phase_def set_cell_def)

lemma members_same: "(\<And>e. joined p e \<longleftrightarrow> joined (fl_task s t) e) \<Longrightarrow> members (to_phase t p s) = members s"
  by (auto simp: members_def to_phase_def fun_eq_iff)

lemma fresh_members: "fresh_inv s \<Longrightarrow> members s (fl_next s) = {}"
  using joined_place by (fastforce simp: members_def fresh_inv_def)

lemma freshD: "fresh_inv s \<Longrightarrow> fl_task s t = p \<Longrightarrow> place p = Some (k, e) \<Longrightarrow> e < fl_next s"
  by (auto simp: fresh_inv_def)

lemma fresh_phase: "fresh_inv s \<Longrightarrow> (\<And>k e. place p = Some (k, e) \<Longrightarrow> e < fl_next s) \<Longrightarrow> fresh_inv (to_phase t p s)"
  by (auto simp: fresh_inv_def to_phase_def)

lemma fresh_other [simp]: "fresh_inv (set_cell e c s) = fresh_inv s" "fresh_inv (s\<lparr>fl_refs := r\<rparr>) = fresh_inv s"
  by (simp_all add: fresh_inv_def set_cell_def)

lemma next_other [simp]: "fl_next (set_cell e c s) = fl_next s" "fl_next (to_phase t p s) = fl_next s"
  by (simp_all add: set_cell_def to_phase_def)

lemma fresh_step: "flight_step c s s' \<Longrightarrow> fresh_inv s \<Longrightarrow> fresh_inv s'"
proof (induction rule: flight_step.induct)
  case (look s t k)
  show ?case
  proof (cases "fl_map s k")
    case None
    have "fresh_inv (s\<lparr>fl_map := (fl_map s)(k \<mapsto> fl_next s), fl_next := fl_next s + 1, fl_refs := (fl_refs s)(fl_next s := 0),
        fl_cell := (fl_cell s)(fl_next s := Empty)\<rparr>)"
      using look unfolding fresh_inv_def by (auto simp: less_Suc_eq)
    then show ?thesis using None unfolding look_up_def Let_def by (auto intro!: fresh_phase)
  next
    case (Some e)
    then show ?thesis using look by (auto simp: look_up_def fresh_inv_def to_phase_def)
  qed
next
  case (remove s t k e r)
  have "fresh_inv (s\<lparr>fl_map := (fl_map s)(k := None)\<rparr>)" using remove by (auto simp: fresh_inv_def)
  then show ?case using remove by (auto simp: remove_entry_def intro!: fresh_phase)
qed (auto simp: join_entry_def leave_entry_def intro!: fresh_phase dest: freshD)

lemma count_step: "flight_step c s s' \<Longrightarrow> fresh_inv s \<Longrightarrow> count_inv s \<Longrightarrow> count_inv s'"
proof (induction rule: flight_step.induct)
  case (look s t k)
  then have "members (look_up t k s) = members s"
    by (auto simp: members_def look_up_def to_phase_def Let_def fun_eq_iff split: option.split)
  moreover have "fl_refs (look_up t k s) = (if fl_map s k = None then (fl_refs s)(fl_next s := 0) else fl_refs s)"
    by (auto simp: look_up_def Let_def split: option.split)
  ultimately show ?case using look fresh_members [of s] by (simp add: count_inv_def)
next
  case (join s t k e)
  then have "t \<notin> members s e" by (simp add: members_def)
  moreover have "members (join_entry t k e s) e' = (if e' = e then insert t (members s e) else members s e')" for e'
    using join by (auto simp: join_entry_def members_def to_phase_def)
  moreover have "fl_refs (join_entry t k e s) e' = (if e' = e then fl_refs s e + 1 else fl_refs s e')" for e'
    by (simp add: join_entry_def)
  ultimately show ?case using join by (simp add: count_inv_def)
next
  case (leave s t k e r)
  then have "t \<in> members s e" by (simp add: members_def)
  moreover have "members (leave_entry t k e r s) e' = (if e' = e then members s e - {t} else members s e')" for e'
    using leave by (auto simp: leave_entry_def members_def to_phase_def)
  moreover have "fl_refs (leave_entry t k e r s) e' = (if e' = e then fl_refs s e - 1 else fl_refs s e')" for e'
    by (simp add: leave_entry_def)
  ultimately show ?case using leave by (simp add: count_inv_def)
qed (simp_all add: members_same count_inv_def remove_entry_def set_cell_def)

subsection \<open>The table\<close>

definition table_inv :: "'v flight \<Rightarrow> bool" where
  "table_inv s \<longleftrightarrow>
     (\<forall>k e. fl_map s k = Some e \<longrightarrow> (\<exists>t. place (fl_task s t) = Some (k, e)))
     \<and> (\<forall>t t' k k' e. place (fl_task s t) = Some (k, e) \<longrightarrow> place (fl_task s t') = Some (k', e) \<longrightarrow> k = k')"

lemma place_phase: "place (fl_task (to_phase t p s) t') = (if t' = t then place p else place (fl_task s t'))"
  by (simp add: to_phase_def)

lemma map_phase [simp]: "fl_map (to_phase t p s) = fl_map s" "fl_map (set_cell e c s) = fl_map s" "fl_task (set_cell e c s) = fl_task s"
  by (simp_all add: to_phase_def set_cell_def)

text \<open>A step that leaves the task where it was.\<close>

lemma table_stay:
  assumes "table_inv s" "place p = place (fl_task s t)"
  shows "table_inv (to_phase t p s)"
proof -
  have "place (fl_task (to_phase t p s) t') = place (fl_task s t')" for t'
    using assms(2) by (simp add: place_phase)
  then show ?thesis using assms(1) by (simp add: table_inv_def)
qed

text \<open>A step after which the task is nowhere; its key has another task, or no entry.\<close>

lemma table_leave:
  assumes "table_inv s" "place (fl_task s t) = Some (k, e)" "place p = None"
    "fl_map s k = Some e \<Longrightarrow> \<exists>t'. t' \<noteq> t \<and> place (fl_task s t') = Some (k, e)"
  shows "table_inv (to_phase t p s)"
  using assms unfolding table_inv_def by (simp add: place_phase) (metis option.inject prod.inject)

lemma table_other [simp]: "table_inv (set_cell e c s) = table_inv s" "table_inv (s\<lparr>fl_refs := r\<rparr>) = table_inv s"
  by (simp_all add: table_inv_def)

lemma table_look:
  assumes "fresh_inv s" "table_inv s" "fl_task s t = Idle"
  shows "table_inv (look_up t k s)"
proof (cases "fl_map s k")
  case None
  let ?e = "fl_next s"
  have p: "place (fl_task (look_up t k s) t') = (if t' = t then Some (k, ?e) else place (fl_task s t'))" for t'
    using None by (simp add: look_up_def Let_def to_phase_def)
  have m: "fl_map (look_up t k s) = (fl_map s)(k \<mapsto> ?e)"
    using None by (simp add: look_up_def Let_def)
  have new: "place (fl_task s t') \<noteq> Some (k', ?e)" for t' k'
    using assms(1) by (auto simp: fresh_inv_def)
  have idle: "place (fl_task s t) = None" using assms(3) by simp
  show ?thesis
    using assms(2) new idle None unfolding table_inv_def p m
    by (auto split: if_splits) (metis option.discI)+
next
  case (Some e)
  then obtain u where u: "place (fl_task s u) = Some (k, e)" using assms(2) unfolding table_inv_def by metis
  have p: "place (fl_task (look_up t k s) t') = (if t' = t then Some (k, e) else place (fl_task s t'))" for t'
    using Some by (simp add: look_up_def to_phase_def)
  have m: "fl_map (look_up t k s) = fl_map s"
    using Some by (simp add: look_up_def)
  have idle: "place (fl_task s t) = None" using assms(3) by simp
  show ?thesis
    using assms(2) u idle unfolding table_inv_def p m by (auto split: if_splits) (metis option.discI)+
qed

lemma table_step:
  assumes "flight_step c s s'" "fresh_inv s" "count_inv s" "table_inv s"
  shows "table_inv s'"
  using assms
proof (induction rule: flight_step.induct)
  case (look s t k)
  then show ?case by (simp add: table_look)
next
  case (leave s t k e r)
  show ?case
  proof (cases "fl_refs s e = 1")
    case True
    then show ?thesis using leave by (auto simp: leave_entry_def intro!: table_stay)
  next
    case False
    have "t \<in> members s e" "finite (members s e)" "card (members s e) \<noteq> 1"
      using leave False by (auto simp: members_def count_inv_def)
    then obtain t' where t': "t' \<in> members s e" "t' \<noteq> t"
      by (metis is_singletonI' is_singleton_altdef empty_iff)
    then obtain k' where "place (fl_task s t') = Some (k', e)" using joined_place by (fastforce simp: members_def)
    moreover from this have "k' = k" using leave unfolding table_inv_def by (metis place.simps(4))
    ultimately have "\<exists>t'. t' \<noteq> t \<and> place (fl_task s t') = Some (k, e)" using t'(2) by blast
    then show ?thesis using leave False by (auto simp: leave_entry_def intro!: table_leave)
  qed
next
  case (remove s t k e r)
  show ?case
  proof (cases "fl_map s k = Some e")
    case True
    have "table_inv (s\<lparr>fl_map := (fl_map s)(k := None)\<rparr>)" using remove by (auto simp: table_inv_def)
    then show ?thesis using remove True by (auto simp: remove_entry_def intro!: table_leave)
  next
    case False
    then show ?thesis using remove by (auto simp: remove_entry_def intro!: table_leave)
  qed
qed (auto simp: join_entry_def intro!: table_stay)

subsection \<open>The cells\<close>

definition cell_inv :: "'v flight \<Rightarrow> bool" where
  "cell_inv s \<longleftrightarrow>
     (\<forall>t k e. fl_task s t = Leading k e \<longrightarrow> fl_cell s e = Running t)
     \<and> (\<forall>t e. fl_cell s e = Running t \<longrightarrow> (\<exists>k. fl_task s t = Leading k e))
     \<and> (\<forall>t e v b. result_at (fl_task s t) = Some (e, v, b) \<longrightarrow> fl_cell s e = Done v)
     \<and> (\<forall>t t' e v v'. result_at (fl_task s t) = Some (e, v, True) \<longrightarrow> result_at (fl_task s t') = Some (e, v', True) \<longrightarrow> t = t')"

lemma task_phase: "fl_task (to_phase t p s) t' = (if t' = t then p else fl_task s t')"
  by (simp add: to_phase_def)

lemma cell_simps [simp]: "fl_cell (to_phase t p s) = fl_cell s" "fl_cell (set_cell e c s) = (fl_cell s)(e := c)"
  by (simp_all add: to_phase_def set_cell_def)

text \<open>A step that neither touches a cell nor starts, ends or reports an execution.\<close>

lemma cell_quiet:
  assumes "cell_inv s" "fl_cell s' = fl_cell s" "\<And>t'. t' \<noteq> t \<Longrightarrow> fl_task s' t' = fl_task s t'"
    "\<nexists>k e. fl_task s t = Leading k e" "\<nexists>k e. fl_task s' t = Leading k e"
    "result_at (fl_task s' t) \<in> {None, result_at (fl_task s t)}"
  shows "cell_inv s'"
proof -
  have r: "result_at (fl_task s' u) = Some x \<Longrightarrow> result_at (fl_task s u) = Some x" for u x
    using assms(3) [of u] assms(6) by (cases "u = t") auto
  have l: "fl_task s' u = Leading k e \<longleftrightarrow> fl_task s u = Leading k e" for u k e
    using assms(3) [of u] assms(4,5) by (cases "u = t") auto
  show ?thesis
    using assms(1) r unfolding cell_inv_def assms(2) l by blast
qed

text \<open>The leader leaves its cell with a value of its own, or empty.\<close>

lemma cell_lead_over:
  assumes inv: "cell_inv s" and t: "fl_task s t = Leading k e"
    and r: "(\<exists>v. c = Done v \<and> r = Some (v, True)) \<or> (c = Empty \<and> r = None)"
  shows "cell_inv (to_phase t (Leaving k e r) (set_cell e c s))"
proof -
  let ?s = "to_phase t (Leaving k e r) (set_cell e c s)"
  have run: "fl_cell s e = Running t" using inv t by (auto simp: cell_inv_def)
  have lead: "fl_cell s e' = Running u" if "fl_task s u = Leading k' e'" for u k' e'
    using inv that unfolding cell_inv_def by blast
  have busy: "\<exists>k. fl_task s u = Leading k e'" if "fl_cell s e' = Running u" for u e'
    using inv that unfolding cell_inv_def by blast
  have res: "fl_cell s e' = Done v" if "result_at (fl_task s u) = Some (e', v, b)" for u e' v b
    using inv that unfolding cell_inv_def by blast
  have none: "result_at (fl_task s u) \<noteq> Some (e, v, b)" for u v b using res [of u e v b] run by auto
  have c: "c \<noteq> Running u" for u using r by auto
  have "fl_cell ?s e' = Running u" if "fl_task ?s u = Leading k' e'" for u k' e'
    using that lead [of u k' e'] run by (auto simp: task_phase split: if_splits)
  moreover have "\<exists>k. fl_task ?s u = Leading k e'" if "fl_cell ?s e' = Running u" for u e'
    using that busy [of e' u] c t by (auto simp: task_phase split: if_splits)
  moreover have "fl_cell ?s e' = Done v" if "result_at (fl_task ?s u) = Some (e', v, b)" for u e' v b
    using that res [of u e' v b] none [of u v b] r by (auto simp: task_phase split: if_splits)
  moreover have "u = u'" if "result_at (fl_task ?s u) = Some (e', v, True)" "result_at (fl_task ?s u') = Some (e', v', True)"
    for u u' e' v v'
  proof -
    have "result_at (fl_task s u) = Some (e', v, True) \<Longrightarrow> result_at (fl_task s u') = Some (e', v', True) \<Longrightarrow> u = u'"
      using inv unfolding cell_inv_def by blast
    then show ?thesis
      using that none [of u v True] none [of u' v' True] by (auto simp: task_phase split: if_splits)
  qed
  ultimately show ?thesis unfolding cell_inv_def by blast
qed

lemma cell_step:
  assumes "flight_step c s s'" "fresh_inv s" "cell_inv s"
  shows "cell_inv s'"
  using assms
proof (induction rule: flight_step.induct)
  case (look s t k)
  show ?case
  proof (cases "fl_map s k")
    case None
    have fr: "fl_task s u \<noteq> Leading k' (fl_next s)" "result_at (fl_task s u) \<noteq> Some (fl_next s, v, b)" for u k' v b
      using freshD [OF look(2) refl, of u] by (cases "fl_task s u"; force)+
    have "cell_inv (s\<lparr>fl_map := (fl_map s)(k \<mapsto> fl_next s), fl_next := fl_next s + 1, fl_refs := (fl_refs s)(fl_next s := 0),
        fl_cell := (fl_cell s)(fl_next s := Empty)\<rparr>)" (is "cell_inv ?s")
      using look(3) fr unfolding cell_inv_def by auto
    moreover have "look_up t k s = to_phase t (Looked k (fl_next s)) ?s" using None by (simp add: look_up_def Let_def)
    ultimately show ?thesis using look(1) by - (rule cell_quiet [of ?s _ t], auto simp: task_phase)
  next
    case (Some e)
    then show ?thesis using look by - (rule cell_quiet [of s _ t], auto simp: task_phase look_up_def)
  qed
next
  case (lead s t k e)
  have "result_at (fl_task s u) \<noteq> Some (e, v, b)" for u v b
    using lead unfolding cell_inv_def by (metis cell.distinct(3))
  moreover have "fl_cell s e' \<noteq> Running t" for e'
    using lead unfolding cell_inv_def by (metis phase.distinct(23))
  ultimately show ?case using lead unfolding cell_inv_def by (auto simp: task_phase)
next
  case (finish s t k e v)
  then show ?case by (simp add: cell_lead_over)
next
  case (follow s t k e v)
  moreover from this have "fl_cell s e' \<noteq> Running t" for e'
    unfolding cell_inv_def by (metis phase.distinct(23))
  ultimately show ?case unfolding cell_inv_def by (auto simp: task_phase)
next
  case (cancel_lead s t k e)
  then show ?case by (simp add: cell_lead_over)
next
  case (join s t k e)
  then show ?case by - (rule cell_quiet [of s _ t], auto simp: task_phase join_entry_def)
next
  case (leave s t k e r)
  then show ?case by - (rule cell_quiet [of s _ t], auto simp: task_phase leave_entry_def)
next
  case (remove s t k e r)
  then show ?case by - (rule cell_quiet [of s _ t], auto simp: task_phase remove_entry_def)
next
  case (cancel_wait s t k e)
  then show ?case by - (rule cell_quiet [of s _ t], auto simp: task_phase)
qed

subsection \<open>Without cancellation\<close>

text \<open>Every task that leaves has a result, and an entry leaves the table only when its value is known.\<close>

definition done_inv :: "'v flight \<Rightarrow> bool" where
  "done_inv s \<longleftrightarrow>
     (\<forall>t k e r. fl_task s t = Leaving k e r \<or> fl_task s t = Removing k e r \<longrightarrow> r \<noteq> None)
     \<and> (\<forall>t k e. place (fl_task s t) = Some (k, e) \<longrightarrow> fl_map s k \<noteq> Some e \<longrightarrow> (\<exists>v. fl_cell s e = Done v))"

lemma doneD: "done_inv s \<Longrightarrow> place (fl_task s t) = Some (k, e) \<Longrightarrow> fl_map s k \<noteq> Some e \<Longrightarrow> \<exists>v. fl_cell s e = Done v"
  by (simp add: done_inv_def)

lemma done_stay:
  assumes "done_inv s" "place p = place (fl_task s t) \<or> place p = None \<or> (\<exists>k e. place p = Some (k, e) \<and> fl_map s k = Some e)"
    "\<nexists>k e. p = Leaving k e None" "\<nexists>k e. p = Removing k e None"
  shows "done_inv (to_phase t p s)"
proof -
  have "\<exists>v. fl_cell s e = Done v" if "place (fl_task (to_phase t p s) u) = Some (k, e)" "fl_map s k \<noteq> Some e" for u k e
    using that assms(2) doneD [OF assms(1), of u k e] doneD [OF assms(1), of t k e]
    by (cases "u = t") (auto simp: task_phase)
  moreover have "r \<noteq> None"
    if "fl_task (to_phase t p s) u = Leaving k e r \<or> fl_task (to_phase t p s) u = Removing k e r" for u k e r
    using that assms(1,3,4) unfolding done_inv_def by (auto simp: task_phase split: if_splits)
  ultimately show ?thesis unfolding done_inv_def by simp
qed

lemma done_cell:
  assumes "done_inv s" "\<nexists>v. fl_cell s e = Done v"
  shows "done_inv (set_cell e c s)"
  unfolding done_inv_def
proof (intro conjI allI impI)
  fix t k e' assume "place (fl_task (set_cell e c s) t) = Some (k, e')" "fl_map (set_cell e c s) k \<noteq> Some e'"
  then have "\<exists>v. fl_cell s e' = Done v" using doneD [OF assms(1), of t k e'] by simp
  then show "\<exists>v. fl_cell (set_cell e c s) e' = Done v" using assms(2) by auto
qed (use assms(1) in \<open>auto simp: done_inv_def\<close>)

lemma done_refs [simp]: "done_inv (s\<lparr>fl_refs := r\<rparr>) = done_inv s"
  by (simp add: done_inv_def)

lemma done_step:
  assumes "flight_step False s s'" "fresh_inv s" "cell_inv s" "done_inv s"
  shows "done_inv s'"
  using assms
proof (induction rule: flight_step.induct)
  case (look s t k)
  show ?case
  proof (cases "fl_map s k")
    case None
    let ?s = "s\<lparr>fl_map := (fl_map s)(k \<mapsto> fl_next s), fl_next := fl_next s + 1, fl_refs := (fl_refs s)(fl_next s := 0),
        fl_cell := (fl_cell s)(fl_next s := Empty)\<rparr>"
    have "place (fl_task s u) \<noteq> Some (k', fl_next s)" for u k'
      using look(2) by (auto simp: fresh_inv_def)
    then have "done_inv ?s" using look(4) None unfolding done_inv_def by (auto split: if_splits)
    then have "done_inv (to_phase t (Looked k (fl_next s)) ?s)" by (rule done_stay) auto
    then show ?thesis using None by (simp add: look_up_def Let_def)
  next
    case (Some e)
    then show ?thesis using look(4) by (auto simp: look_up_def intro!: done_stay)
  qed
next
  case (lead s t k e)
  then show ?case by (auto intro!: done_stay done_cell)
next
  case (finish s t k e v)
  then have "fl_cell s e = Running t" by (auto simp: cell_inv_def)
  then show ?case using finish by (auto intro!: done_stay done_cell)
next
  case (leave s t k e r)
  then have "r \<noteq> None" by (auto simp: done_inv_def)
  then show ?case using leave by (auto simp: leave_entry_def intro!: done_stay)
next
  case (remove s t k e r)
  then obtain v b where "r = Some (v, b)" by (cases r) (auto simp: done_inv_def)
  then have "result_at (fl_task s t) = Some (e, v, b)" using remove by simp
  then have "fl_cell s e = Done v" using remove unfolding cell_inv_def by blast
  then have "done_inv (s\<lparr>fl_map := (fl_map s)(k := None)\<rparr>)" if "fl_map s k = Some e"
    unfolding done_inv_def
  proof (intro conjI allI impI)
    fix u k' e' assume "place (fl_task (s\<lparr>fl_map := (fl_map s)(k := None)\<rparr>) u) = Some (k', e')"
      "fl_map (s\<lparr>fl_map := (fl_map s)(k := None)\<rparr>) k' \<noteq> Some e'"
    then show "\<exists>v. fl_cell (s\<lparr>fl_map := (fl_map s)(k := None)\<rparr>) e' = Done v"
      using that \<open>fl_cell s e = Done v\<close> doneD [OF remove(4), of u k' e'] by (cases "e' = e") (auto split: if_splits)
  qed (use remove in \<open>auto simp: done_inv_def\<close>)
  then show ?case using remove by (auto simp: remove_entry_def intro!: done_stay)
qed (auto simp: join_entry_def intro!: done_stay)

subsection \<open>Reachable states\<close>

lemma flight_start: "fresh_inv flight_new \<and> count_inv flight_new \<and> table_inv flight_new \<and> cell_inv flight_new \<and> done_inv flight_new"
  by (simp add: fresh_inv_def count_inv_def table_inv_def cell_inv_def done_inv_def flight_new_def members_def)

lemma flight_inv:
  "flight_reaches c s \<Longrightarrow> fresh_inv s \<and> count_inv s \<and> table_inv s \<and> cell_inv s \<and> (\<not> c \<longrightarrow> done_inv s)"
proof (induction rule: flight_reaches.induct)
  case init
  show ?case using flight_start by blast
next
  case (step s s')
  then show ?case using fresh_step count_step table_step cell_step done_step by (metis (full_types))
qed

text \<open>The steps of a few calls on the empty table, for the examples.\<close>

lemma reaches_look: "flight_reaches c s \<Longrightarrow> fl_task s t = Idle \<Longrightarrow> flight_reaches c (look_up t k s)"
  by (blast intro: flight_reaches.step flight_step.look)

text \<open>C26: As long as no caller is dropped while it waits, at most one execution per key is under way at any time: two callers
  that run the closure for the same key are the same caller, whatever the interleaving.\<close>

theorem flight_exclusive:
  assumes "flight_reaches False s" "fl_task s t = Leading k e" "fl_task s t' = Leading k e'"
  shows "t = t'"
proof -
  have inv: "cell_inv s" "done_inv s" using flight_inv [OF assms(1)] by auto
  have run: "fl_cell s e = Running t" "fl_cell s e' = Running t'" using inv(1) assms(2,3) unfolding cell_inv_def by blast+
  have "fl_map s k = Some e''" if "fl_task s u = Leading k e''" "fl_cell s e'' = Running u" for u e''
    using inv(2) that unfolding done_inv_def by (metis cell.distinct(5) place.simps(3))
  from this [OF assms(2) run(1)] this [OF assms(3) run(2)] show ?thesis using run by simp
qed

text \<open>Callers that share an entry get one value, and at most one of them is told that it ran the closure, also when
  callers are dropped.\<close>

theorem flight_values:
  assumes "flight_reaches c s" "result_at (fl_task s t) = Some (e, v, b)" "result_at (fl_task s t') = Some (e, v', b')"
  shows "v = v' \<and> (b \<and> b' \<longrightarrow> t = t')"
proof -
  have inv: "cell_inv s" using flight_inv [OF assms(1)] by blast
  have "fl_cell s e = Done v" "fl_cell s e = Done v'" using inv assms(2,3) unfolding cell_inv_def by blast+
  moreover have "t = t'" if "b" "b'" using inv assms(2,3) that unfolding cell_inv_def by (metis (full_types))
  ultimately show ?thesis by simp
qed

text \<open>C27: No call is ever stuck, also when callers are dropped: a call on its way can take its next step, or it waits for the
  cell of its entry while another call that is not stuck runs the closure; and a key is in the table only while a call
  for it is on its way, so the table is empty whenever nothing is in flight.\<close>

theorem flight_progress:
  assumes "flight_reaches c s"
  shows "(place (fl_task s t) = Some (k, e) \<longrightarrow>
        (\<exists>s'. flight_step False s s' \<and> fl_task s' t \<noteq> fl_task s t)
        \<or> (\<exists>u. fl_task s t = Waiting k e \<and> fl_cell s e = Running u \<and> u \<noteq> t \<and> (\<exists>k'. fl_task s u = Leading k' e)))
    \<and> (fl_map s k = Some e \<longrightarrow> (\<exists>t. place (fl_task s t) = Some (k, e)))"
proof (intro conjI impI)
  have inv: "table_inv s" "cell_inv s" using flight_inv [OF assms] by auto
  show "\<exists>t. place (fl_task s t) = Some (k, e)" if "fl_map s k = Some e" using inv(1) that unfolding table_inv_def by metis
  assume p: "place (fl_task s t) = Some (k, e)"
  have move: "\<exists>s'. flight_step False s s' \<and> fl_task s' t \<noteq> fl_task s t" if "flight_step False s (to_phase t q r)" "q \<noteq> fl_task s t"
    for q r using that by (intro exI [of _ "to_phase t q r"]) (simp add: task_phase)
  show "(\<exists>s'. flight_step False s s' \<and> fl_task s' t \<noteq> fl_task s t)
      \<or> (\<exists>u. fl_task s t = Waiting k e \<and> fl_cell s e = Running u \<and> u \<noteq> t \<and> (\<exists>k'. fl_task s u = Leading k' e))"
  proof (cases "fl_task s t")
    case (Waiting k' e')
    then have e: "k' = k" "e' = e" using p by auto
    show ?thesis
    proof (cases "fl_cell s e")
      case Empty
      then show ?thesis using move [OF flight_step.lead [of s t k e]] Waiting e by simp
    next
      case (Running u)
      moreover from this obtain k' where "fl_task s u = Leading k' e" using inv(2) unfolding cell_inv_def by blast
      ultimately show ?thesis using Waiting e by (intro disjI2 exI [of _ u]) auto
    next
      case (Done v)
      then show ?thesis using move [OF flight_step.follow [of s t k e v]] Waiting e by simp
    qed
  next
    case (Looked k' e')
    from move [OF flight_step.join [OF this, unfolded join_entry_def]] this show ?thesis by simp
  next
    case (Leading k' e')
    from move [OF flight_step.finish [OF this]] this show ?thesis by simp
  next
    case (Leaving k' e' r)
    from move [OF flight_step.leave [OF this, unfolded leave_entry_def]] this show ?thesis by (simp split: if_splits)
  next
    case (Removing k' e' r)
    from move [OF flight_step.remove [OF this, unfolded remove_entry_def]] this show ?thesis by simp
  qed (use p in auto)
qed

subsection \<open>Examples\<close>

text \<open>Two calls for the key \<open>k\<close>: the first leads, the second follows; both leave.\<close>

definition two_calls :: "str \<Rightarrow> nat flight" where
  "two_calls k =
     (let s = join_entry 1 k 0 (look_up 1 k (join_entry 0 k 0 (look_up 0 k flight_new)));
          s = to_phase 0 (Leading k 0) (set_cell 0 (Running 0) s) in
      s)"

definition two_results :: "str \<Rightarrow> nat flight" where
  "two_results k =
     (let s = to_phase 0 (Leaving k 0 (Some (7, True))) (set_cell 0 (Done 7) (two_calls k)) in
      to_phase 1 (Leaving k 0 (Some (7, False))) s)"

lemma two_calls_reached: "flight_reaches c (two_calls k)"
proof -
  note r = flight_reaches.step
  have 1: "flight_reaches c (look_up 0 k flight_new)"
    by (rule r [OF flight_reaches.init flight_step.look]) (simp add: flight_new_def)
  have 2: "flight_reaches c (join_entry 0 k 0 (look_up 0 k flight_new))"
    by (rule r [OF 1 flight_step.join]) (simp add: flight_new_def flight_defs)
  have 3: "flight_reaches c (look_up 1 k (join_entry 0 k 0 (look_up 0 k flight_new)))"
    by (rule r [OF 2 flight_step.look]) (simp add: flight_new_def flight_defs)
  have 4: "flight_reaches c (join_entry 1 k 0 (look_up 1 k (join_entry 0 k 0 (look_up 0 k flight_new))))"
    by (rule r [OF 3 flight_step.join]) (simp add: flight_new_def flight_defs)
  show ?thesis unfolding two_calls_def Let_def
    by (rule r [OF 4 flight_step.lead]) (simp_all add: flight_new_def flight_defs)
qed

lemma two_calls_at: "fl_task (two_calls k) 0 = Leading k 0" "fl_task (two_calls k) 1 = Waiting k 0"
    "fl_cell (two_calls k) 0 = Running 0" "fl_map (two_calls k) k = Some 0"
  by (simp_all add: two_calls_def flight_new_def flight_defs del: One_nat_def)

lemma two_results_reached: "flight_reaches c (two_results k)"
proof -
  have 1: "flight_reaches c (to_phase 0 (Leaving k 0 (Some (7, True))) (set_cell 0 (Done 7) (two_calls k)))"
    by (rule flight_reaches.step [OF two_calls_reached flight_step.finish]) (rule two_calls_at)
  show ?thesis unfolding two_results_def Let_def
    by (rule flight_reaches.step [OF 1 flight_step.follow]) (simp_all add: two_calls_at task_phase del: One_nat_def)
qed

lemma flight_exclusive_witness: "fl_task (two_calls [97]) 0 = Leading [97] 0 \<and> (0 :: nat) = 0"
  using flight_exclusive [OF two_calls_reached two_calls_at(1) two_calls_at(1)] two_calls_at(1) by blast

lemma flight_values_witness:
  "result_at (fl_task (two_results [97]) 0) = Some (0, 7, True) \<and> result_at (fl_task (two_results [97]) 1) = Some (0, 7, False)
    \<and> (7 :: nat) = 7"
proof -
  have r: "result_at (fl_task (two_results [97]) 0) = Some (0, 7, True)" "result_at (fl_task (two_results [97]) 1) = Some (0, 7, False)"
    by (simp_all add: two_results_def task_phase)
  from flight_values [OF two_results_reached r] r show ?thesis by simp
qed

lemma flight_progress_witness:
  "\<exists>u. fl_task (two_calls [97]) 1 = Waiting [97] 0 \<and> fl_cell (two_calls [97]) 0 = Running u \<and> u \<noteq> 1
     \<or> (\<exists>s'. flight_step False (two_calls [97]) s' \<and> fl_task s' 1 \<noteq> fl_task (two_calls [97]) 1)"
  using flight_progress [OF two_calls_reached, of "[97]" 1 "[97]" 0] two_calls_at(2) [of "[97]"] by (auto simp del: One_nat_def)

text \<open>When callers can be dropped, one key can have two executions at once: a call that found the entry but has not yet
  counted itself on it is left behind when the last counted caller takes the entry out of the table.\<close>

lemma flight_cancel_race:
  "\<exists>s :: nat flight. flight_reaches True s \<and> fl_task s 1 = Leading k 0 \<and> fl_task s 2 = Leading k 1"
proof -
  note r = flight_reaches.step and d = flight_new_def flight_defs
  define s0 where "s0 = join_entry 0 k 0 (look_up 0 k (flight_new :: nat flight))"
  define s1 where "s1 = look_up 1 k (to_phase 0 (Leaving k 0 None) s0)"
  define s2 where "s2 = remove_entry 0 k 0 None (leave_entry 0 k 0 None s1)"
  define s3 where "s3 = join_entry 1 k 0 (look_up 2 k s2)"
  define s4 where "s4 = join_entry 2 k 1 (to_phase 1 (Leading k 0) (set_cell 0 (Running 1) s3))"
  have a: "flight_reaches True (look_up 0 k (flight_new :: nat flight))"
    by (rule r [OF flight_reaches.init flight_step.look]) (simp add: d)
  have 0: "flight_reaches True s0" unfolding s0_def by (rule r [OF a flight_step.join]) (simp add: d)
  have b: "flight_reaches True (to_phase 0 (Leaving k 0 None) s0)"
    by (rule r [OF 0 flight_step.cancel_wait]) (simp_all add: d s0_def)
  have 1: "flight_reaches True s1" unfolding s1_def by (rule r [OF b flight_step.look]) (simp add: d s0_def)
  have c: "flight_reaches True (leave_entry 0 k 0 None s1)"
    by (rule r [OF 1 flight_step.leave]) (simp add: d s0_def s1_def)
  have 2: "flight_reaches True s2" unfolding s2_def
    by (rule r [OF c flight_step.remove]) (simp add: d s0_def s1_def)
  have e: "flight_reaches True (look_up 2 k s2)" by (rule r [OF 2 flight_step.look]) (simp add: d s0_def s1_def s2_def)
  have 3: "flight_reaches True s3" unfolding s3_def
    by (rule r [OF e flight_step.join]) (simp add: d s0_def s1_def s2_def)
  have f: "flight_reaches True (to_phase 1 (Leading k 0) (set_cell 0 (Running 1) s3))"
    by (rule r [OF 3 flight_step.lead]) (simp_all add: d s0_def s1_def s2_def s3_def)
  have 4: "flight_reaches True s4" unfolding s4_def
    by (rule r [OF f flight_step.join]) (simp add: d s0_def s1_def s2_def s3_def)
  have "flight_reaches True (to_phase 2 (Leading k 1) (set_cell 1 (Running 2) s4))"
    by (rule r [OF 4 flight_step.lead]) (simp_all add: d s0_def s1_def s2_def s3_def s4_def)
  then show ?thesis
    by (intro exI conjI, assumption) (simp_all add: d s0_def s1_def s2_def s3_def s4_def)
qed

end
