(* ===== verification/Querier.thy ===== *)
theory Querier
  imports Breaker
begin

text \<open>
  \<open>ebpdns-resolver/src/production.rs\<close> and \<open>ebpdns-upstream/src/health.rs\<close>: how one wave of queries is sent to the
  upstreams.  The first upstream is asked, the others follow when the hedge is due, when a negative answer needs more
  votes, or at once without adaptive parallelism; the first positive answer ends the wave, and so do enough negative ones.
  The tasks in flight are a list of upstream ids; the order in which they report, and the hedge, are the steps of a
  relation.  Sockets, and the bytes a task sends and parses, belong to other theories.
\<close>

subsection \<open>Configuration\<close>

record upstream_cfg =
  up_id :: str
  up_name :: str
  up_proto :: str
  up_host :: str
  up_port :: u16
  up_url :: str
  up_enabled :: bool
  up_latency :: u32
  up_weight :: f64
  up_group :: "str option"
  up_allow_private :: bool

text \<open>The fields of \<open>ResolverConfig\<close> that steer the queries.\<close>

record querier_cfg =
  cf_upstreams :: "upstream_cfg list"
  cf_max_parallel :: nat
  cf_timeout_ms :: u64
  cf_nxdomain_quorum :: nat
  cf_fallback :: bool
  cf_circuit_fails :: u32
  cf_circuit_open_s :: real
  cf_circuit_open_max_s :: f64
  cf_adaptive_parallel :: bool
  cf_hedge_after_ms :: u64
  cf_hedge_slowest_factor :: f64
  cf_adaptive_timeout :: bool
  cf_adaptive_timeout_k :: f64
  cf_adaptive_timeout_min_ms :: u64
  cf_rating_sr_floor :: f64

subsection \<open>Health of an upstream\<close>

record upstream_stats =
  us_ok :: u64
  us_fail :: u64
  us_lat_sum :: u64
  us_measured :: bool
  us_last_ok :: "real option"
  us_dns_ok :: u64
  us_dns_fail :: u64

definition stats_new :: upstream_stats where
  "stats_new = \<lparr>us_ok = 0, us_fail = 0, us_lat_sum = 0, us_measured = False, us_last_ok = None, us_dns_ok = 0, us_dns_fail = 0\<rparr>"

definition stats_record_ok :: "u64 \<Rightarrow> real \<Rightarrow> upstream_stats \<Rightarrow> upstream_stats" where
  "stats_record_ok lat now s =
     s\<lparr>us_ok := us_ok s + 1, us_lat_sum := us_lat_sum s + lat, us_measured := True, us_last_ok := Some now\<rparr>"

definition stats_record_fail :: "upstream_stats \<Rightarrow> upstream_stats" where
  "stats_record_fail s = s\<lparr>us_fail := us_fail s + 1\<rparr>"

definition record_dns_verdict :: "bool \<Rightarrow> upstream_stats \<Rightarrow> upstream_stats" where
  "record_dns_verdict good s =
     (if good then s\<lparr>us_dns_ok := us_dns_ok s + 1\<rparr> else s\<lparr>us_dns_fail := us_dns_fail s + 1\<rparr>)"

definition dns_total :: "upstream_stats \<Rightarrow> u64" where "dns_total s = us_dns_ok s + us_dns_fail s"

definition stats_reset :: "upstream_stats \<Rightarrow> upstream_stats" where "stats_reset s = stats_new"

definition u64_real :: "u64 \<Rightarrow> real" where "u64_real w = real (unat w)"

definition avg_latency :: "upstream_stats \<Rightarrow> real option" where
  "avg_latency s = (if us_ok s = 0 then None else Some (u64_real (us_lat_sum s) / u64_real (us_ok s)))"

definition last_ok_age_s :: "real \<Rightarrow> upstream_stats \<Rightarrow> real option" where
  "last_ok_age_s now s = map_option (\<lambda>t. now - t) (us_last_ok s)"

definition F64_MAX :: real where "F64_MAX = 2 ^ 1024 - 2 ^ 971"

definition stats_eff_lat :: "u32 \<Rightarrow> upstream_stats \<Rightarrow> real" where
  "stats_eff_lat weight s =
     (if us_ok s = 0 then F64_MAX
      else
        let total = us_ok s + us_fail s;
            avg = u64_real (us_lat_sum s) / u64_real (us_ok s);
            avg = (if total > 10 \<and> u64_real (us_fail s) / u64_real total > 1 / 2 then avg + 500 else avg) in
        avg / u32_real (max weight 1))"

type_synonym health = "upstream_stats table"

definition health_stats :: "str \<Rightarrow> health \<Rightarrow> upstream_stats \<times> health" where
  "health_stats up m =
     (case map_of m up of Some s \<Rightarrow> (s, m) | None \<Rightarrow> (stats_new, AList.update up stats_new m))"

definition health_record :: "str \<Rightarrow> bool \<Rightarrow> u64 \<Rightarrow> real \<Rightarrow> health \<Rightarrow> health" where
  "health_record up good lat now m =
     (let (s, m) = health_stats up m in
      AList.update up (if good then stats_record_ok lat now s else stats_record_fail s) m)"

definition health_discard :: "str \<Rightarrow> health \<Rightarrow> health" where "health_discard up m = AList.delete up m"

definition health_reset :: "health \<Rightarrow> health" where "health_reset m = map (\<lambda>(k, s). (k, stats_reset s)) m"

subsection \<open>Tuning\<close>

definition TIMEOUT_WINDOW :: nat where "TIMEOUT_WINDOW = 32"
definition TIMEOUT_UNLOCK_STREAK :: u32 where "TIMEOUT_UNLOCK_STREAK = 3"
definition TIMEOUT_P90_MARGIN :: real where "TIMEOUT_P90_MARGIN = 12 / 10"

record querier_tuning =
  qt_timeout_ms :: u64
  qt_adaptive_parallel :: bool
  qt_hedge_after_ms :: u64
  qt_hedge_factor_milli :: u64
  qt_adaptive_timeout :: bool
  qt_k_milli :: u64
  qt_min_ms :: u64
  qt_quorum :: u64
  qt_dispatched :: u64
  qt_early_returns :: u64
  qt_hedges :: u64
  qt_p90_decisions :: u64
  qt_quorum_aborts :: u64
  qt_lat_window :: "u64 list table"
  qt_streak :: "u32 table"
  qt_unlocks :: u64

record tuning_snapshot =
  ts_timeout_ms :: u64
  ts_adaptive_parallel :: bool
  ts_hedge_after_ms :: u64
  ts_hedge_factor :: real
  ts_adaptive_timeout :: bool
  ts_k :: real
  ts_min_ms :: u64
  ts_quorum :: nat

text \<open>\<open>x as u64\<close> of a finite \<open>f64\<close>, and \<open>f64::round\<close>: half away from zero.\<close>

definition f64_to_u64 :: "real \<Rightarrow> u64" where
  "f64_to_u64 x = word_of_int (max 0 (min 18446744073709551615 \<lfloor>x\<rfloor>))"

definition f64_round :: "real \<Rightarrow> real" where
  "f64_round x = (if x \<ge> 0 then of_int \<lfloor>x + 1 / 2\<rfloor> else - of_int \<lfloor>1 / 2 - x\<rfloor>)"

definition tuning_defaults :: "u64 \<Rightarrow> querier_tuning" where
  "tuning_defaults timeout =
     \<lparr>qt_timeout_ms = max timeout 1, qt_adaptive_parallel = False, qt_hedge_after_ms = 200, qt_hedge_factor_milli = 1000,
      qt_adaptive_timeout = False, qt_k_milli = 5000, qt_min_ms = 500, qt_quorum = 2, qt_dispatched = 0,
      qt_early_returns = 0, qt_hedges = 0, qt_p90_decisions = 0, qt_quorum_aborts = 0, qt_lat_window = [], qt_streak = [],
      qt_unlocks = 0\<rparr>"

definition pos_or :: "f64 \<Rightarrow> real \<Rightarrow> real" where
  "pos_or v d = (case v of Fin r \<Rightarrow> if r > 0 then r else d | _ \<Rightarrow> d)"

definition tuning_apply :: "'a querier_cfg_scheme \<Rightarrow> querier_tuning \<Rightarrow> querier_tuning" where
  "tuning_apply cfg t =
     (let hf = (case cf_hedge_slowest_factor cfg of
                  Fin r \<Rightarrow> if r > 0 then max (1 / 20) (min 100 r) else 1
                | _ \<Rightarrow> 1);
          k = pos_or (cf_adaptive_timeout_k cfg) 5 in
      t\<lparr>qt_timeout_ms := max (cf_timeout_ms cfg) 1,
        qt_adaptive_parallel := cf_adaptive_parallel cfg,
        qt_hedge_after_ms := max (cf_hedge_after_ms cfg) 1,
        qt_hedge_factor_milli := f64_to_u64 (f64_round (hf * 1000)),
        qt_adaptive_timeout := cf_adaptive_timeout cfg,
        qt_k_milli := f64_to_u64 (f64_round (k * 1000)),
        qt_min_ms := max 1 (min 600000 (cf_adaptive_timeout_min_ms cfg)),
        qt_quorum := word_of_nat (max (cf_nxdomain_quorum cfg) 1)\<rparr>)"

definition tuning_from_config :: "'a querier_cfg_scheme \<Rightarrow> querier_tuning" where
  "tuning_from_config cfg = tuning_apply cfg (tuning_defaults (cf_timeout_ms cfg))"

definition tuning_snapshot_of :: "querier_tuning \<Rightarrow> tuning_snapshot" where
  "tuning_snapshot_of t =
     \<lparr>ts_timeout_ms = max (qt_timeout_ms t) 1,
      ts_adaptive_parallel = qt_adaptive_parallel t,
      ts_hedge_after_ms = max (qt_hedge_after_ms t) 1,
      ts_hedge_factor = (if qt_hedge_factor_milli t = 0 then 1 else u64_real (qt_hedge_factor_milli t) / 1000),
      ts_adaptive_timeout = qt_adaptive_timeout t,
      ts_k = u64_real (qt_k_milli t) / 1000,
      ts_min_ms = max (qt_min_ms t) 1,
      ts_quorum = unat (max (qt_quorum t) 1)\<rparr>"

definition tuning_reset_counters :: "querier_tuning \<Rightarrow> querier_tuning" where
  "tuning_reset_counters t =
     t\<lparr>qt_dispatched := 0, qt_early_returns := 0, qt_hedges := 0, qt_p90_decisions := 0, qt_quorum_aborts := 0,
       qt_unlocks := 0, qt_lat_window := [], qt_streak := []\<rparr>"

text \<open>The result of one query: the window of successful latencies and the streak of timeouts.\<close>

definition push_window :: "u64 \<Rightarrow> u64 list \<Rightarrow> u64 list" where
  "push_window lat w = (let w = w @ [lat] in drop (length w - TIMEOUT_WINDOW) w)"

definition record_result :: "str \<Rightarrow> bool \<Rightarrow> bool \<Rightarrow> u64 \<Rightarrow> querier_tuning \<Rightarrow> querier_tuning" where
  "record_result up good timed_out lat t =
     (if good then
        let w = (case map_of (qt_lat_window t) up of Some w \<Rightarrow> w | None \<Rightarrow> []) in
        t\<lparr>qt_lat_window := AList.update up (push_window lat w) (qt_lat_window t), qt_streak := AList.delete up (qt_streak t)\<rparr>
      else if \<not> timed_out then t
      else
        let n = (case map_of (qt_streak t) up of Some n \<Rightarrow> n | None \<Rightarrow> 0) + 1 in
        if n \<ge> TIMEOUT_UNLOCK_STREAK then
          t\<lparr>qt_streak := AList.update up 0 (qt_streak t), qt_lat_window := AList.delete up (qt_lat_window t),
            qt_unlocks := qt_unlocks t + 1\<rparr>
        else t\<lparr>qt_streak := AList.update up n (qt_streak t)\<rparr>)"

text \<open>The 90th percentile by nearest rank.\<close>

definition p90_latency :: "str \<Rightarrow> querier_tuning \<Rightarrow> real option" where
  "p90_latency up t =
     (case map_of (qt_lat_window t) up of
        None \<Rightarrow> None
      | Some w \<Rightarrow>
          if w = [] then None
          else
            let v = sort w; n = length v; k = (n * 9 + 9) div 10 in
            Some (u64_real (v ! min (k - 1) (n - 1))))"

definition timeout_for :: "upstream_cfg \<Rightarrow> tuning_snapshot \<Rightarrow> querier_tuning \<Rightarrow> health \<Rightarrow> u64 \<times> health" where
  "timeout_for up snap t h =
     (if \<not> ts_adaptive_timeout snap then (ts_timeout_ms snap, h)
      else
        let (base, h) = (case p90_latency (up_id up) t of
                           Some p \<Rightarrow> (p, h)
                         | None \<Rightarrow>
                             (case health_stats (up_id up) h of
                                (s, h) \<Rightarrow> (case avg_latency s of Some a \<Rightarrow> a | None \<Rightarrow> u32_real (up_latency up), h))) in
        if base \<le> 0 then (ts_timeout_ms snap, h)
        else
          let want = max (base * ts_k snap) (base * TIMEOUT_P90_MARGIN);
              lo = min (ts_min_ms snap) (ts_timeout_ms snap) in
          (max lo (min (ts_timeout_ms snap) (f64_to_u64 (max (f64_round want) 0))), h))"

fun best_p90 :: "real option \<Rightarrow> upstream_cfg list \<Rightarrow> querier_tuning \<Rightarrow> real option" where
  "best_p90 best [] t = best"
| "best_p90 best (up # ups) t =
     (case p90_latency (up_id up) t of
        Some p \<Rightarrow>
          if p > 0 then best_p90 (Some (case best of Some b \<Rightarrow> max b p | None \<Rightarrow> p)) ups t
          else best_p90 best ups t
      | None \<Rightarrow> best_p90 best ups t)"

definition hedge_delay_for :: "upstream_cfg list \<Rightarrow> tuning_snapshot \<Rightarrow> querier_tuning \<Rightarrow> u64 \<times> bool" where
  "hedge_delay_for cands snap t =
     (case best_p90 None cands t of
        None \<Rightarrow> (max (ts_hedge_after_ms snap) 1, False)
      | Some base \<Rightarrow>
          let want = base * ts_hedge_factor snap;
              want = (if want > 0 then f64_round want else u64_real (ts_hedge_after_ms snap)) in
          (max 1 (min (max (ts_timeout_ms snap) 1) (f64_to_u64 want)), True))"

end
