(* ===== verification/Resolver_Config.thy ===== *)
theory Resolver_Config
  imports Querier Rules
begin

text \<open>
  \<open>ResolverConfig\<close> of \<open>ebpdns-resolver/src/config.rs\<close>: all its fields, in three records, and its defaults.  A \<open>f64\<close> that
  is only compared and added is a real; those whose code asks whether they are finite are an \<open>f64\<close>.
\<close>

record policy_cfg = querier_cfg +
  cf_rebind_protection :: bool
  cf_prefetch :: bool
  cf_prefetch_trigger :: f64
  cf_prefetch_target :: f64
  cf_prefetch_max :: nat
  cf_ipv6 :: bool
  cf_prefer_ipv4 :: bool
  cf_ipv4_first :: bool
  cf_ttl :: u32
  cf_ttl_min :: u32
  cf_ttl_max :: u32
  cf_neg_ttl_max :: u32
  cf_serve_stale :: bool
  cf_stale_ttl :: f64
  cf_rfc8020_infer :: bool
  cf_rfc8020_max_labels :: nat
  cf_single_flight :: bool
  cf_speed_test :: bool
  cf_speed_interval_ms :: u64
  cf_ip_speed_check :: bool
  cf_ip_speed_probe :: str
  cf_ip_speed_cache_ttl :: u32

record resolver_cfg = policy_cfg +
  cf_rules :: "rule list"
  cf_cache_size :: nat
  cf_cache_policy :: str
  cf_upstream_max_inflight :: nat
  cf_edns :: bool
  cf_probe_timeout_ms :: u64
  cf_edns_udp_size :: u32
  cf_edns_client_max_size :: u16
  cf_cache_direct_enabled :: bool
  cf_health_check_interval :: u64
  cf_prefetch_interval :: f64
  cf_subscriptions :: "str list"
  cf_rule_sub_interval :: u64
  cf_cache_persist :: bool
  cf_persist_ttl :: u32
  cf_cache_partitions :: "json option"
  cf_speed_timeout_ms :: u64
  cf_padding :: bool
  cf_edns_client_subnet :: "str option"
  cf_dnssec_0x20 :: bool
  cf_bootstrap_dns :: str
  cf_health_probe_domain :: str
  cf_health_probe_timeout_ms :: u64
  cf_udp_workers :: nat
  cf_config_version :: u32
  cf_warmup_enabled :: bool
  cf_warmup_queries :: nat
  cf_warmup_timeout_ms :: u64

definition DEFAULT_UPSTREAM_MAX_INFLIGHT :: nat where "DEFAULT_UPSTREAM_MAX_INFLIGHT = 32"
definition CURRENT_CONFIG_VERSION :: u32 where "CURRENT_CONFIG_VERSION = 3"

definition resolver_cfg_default :: resolver_cfg where
  "resolver_cfg_default =
     \<lparr>cf_upstreams = [], cf_max_parallel = 3, cf_timeout_ms = 1500, cf_nxdomain_quorum = 2, cf_fallback = True,
      cf_circuit_fails = 3, cf_circuit_open_s = 30, cf_circuit_open_max_s = Fin 120, cf_adaptive_parallel = True,
      cf_hedge_after_ms = 200, cf_hedge_slowest_factor = Fin 1, cf_adaptive_timeout = True, cf_adaptive_timeout_k = Fin 8,
      cf_adaptive_timeout_min_ms = 1500, cf_rating_sr_floor = Fin (1 / 2),
      cf_rebind_protection = True, cf_prefetch = True, cf_prefetch_trigger = Fin 60, cf_prefetch_target = Fin 300,
      cf_prefetch_max = 1024, cf_ipv6 = True, cf_prefer_ipv4 = False, cf_ipv4_first = True, cf_ttl = 300, cf_ttl_min = 0,
      cf_ttl_max = 0, cf_neg_ttl_max = 60, cf_serve_stale = False, cf_stale_ttl = Fin 3600, cf_rfc8020_infer = True,
      cf_rfc8020_max_labels = 8, cf_single_flight = True, cf_speed_test = True, cf_speed_interval_ms = 2000,
      cf_ip_speed_check = True, cf_ip_speed_probe = lit ''both'', cf_ip_speed_cache_ttl = 60,
      cf_rules = [], cf_cache_size = 16384, cf_cache_policy = lit ''lru'',
      cf_upstream_max_inflight = DEFAULT_UPSTREAM_MAX_INFLIGHT, cf_edns = True, cf_probe_timeout_ms = 0,
      cf_edns_udp_size = 1232, cf_edns_client_max_size = 1232, cf_cache_direct_enabled = True, cf_health_check_interval = 30,
      cf_prefetch_interval = Fin 300, cf_subscriptions = [], cf_rule_sub_interval = 3600, cf_cache_persist = True,
      cf_persist_ttl = 0, cf_cache_partitions = None, cf_speed_timeout_ms = 300, cf_padding = False,
      cf_edns_client_subnet = None, cf_dnssec_0x20 = True, cf_bootstrap_dns = lit ''223.5.5.5:53'',
      cf_health_probe_domain = lit ''www.baidu.com'', cf_health_probe_timeout_ms = 2000, cf_udp_workers = 0,
      cf_config_version = CURRENT_CONFIG_VERSION, cf_warmup_enabled = True, cf_warmup_queries = 3,
      cf_warmup_timeout_ms = 3000\<rparr>"

definition effective_probe_timeout_ms :: "resolver_cfg \<Rightarrow> u64" where
  "effective_probe_timeout_ms c =
     (if cf_probe_timeout_ms c > 0 then max 1 (min 60000 (cf_probe_timeout_ms c))
      else min (max (cf_health_probe_timeout_ms c) 1) (max (cf_timeout_ms c) 1))"

end
