(* ===== verification/Upstream_Select.thy ===== *)
theory Upstream_Select
  imports Resolver_Config
begin

text \<open>
  The choice of upstreams and the order of candidate addresses, \<open>ebpdns-resolver/src/lib.rs\<close>: ratings, the cached order,
  primary and backup upstreams, the one upstream of a prefetch, the roles shown to the operator, and the weighted random
  order of addresses.  The random generator is the parameter \<open>draw\<close>: the n-th number it returns for an upper limit.
  The signature of the cached order is the list of its parts instead of their joined text.
\<close>

definition RATING_SR_FLOOR :: real where "RATING_SR_FLOOR = 1 / 2"
definition RATING_SLOW_P90_MS :: real where "RATING_SLOW_P90_MS = 800"
definition RATING_SLOW_PENALTY :: real where "RATING_SLOW_PENALTY = 3 / 2"
definition SORTED_UPS_TTL_MS :: real where "SORTED_UPS_TTL_MS = 5000"
definition SPEED_HIST_MAX :: nat where "SPEED_HIST_MAX = 4096"
definition SPEED_HIST_TTL_S :: real where "SPEED_HIST_TTL_S = 3600"
definition IP_SPEED_MAX :: nat where "IP_SPEED_MAX = 65536"
definition IP_SPEED_EWMA_OLD :: real where "IP_SPEED_EWMA_OLD = 7 / 10"
definition IP_SPEED_SAMPLE_MAX_AGE_S :: real where "IP_SPEED_SAMPLE_MAX_AGE_S = 3600"
definition SPEED_SORT_WINDOW :: nat where "SPEED_SORT_WINDOW = 8"
definition SPEED_SORT_FALLBACK_MS :: real where "SPEED_SORT_FALLBACK_MS = 999"

record sorted_ups =
  su_ids :: "str list"
  su_ts_ms :: real
  su_key :: "(str \<times> f64 \<times> u32 \<times> str \<times> str \<times> u16 \<times> bool) list"

text \<open>The part of the resolver's state the choice depends on; \<open>st_health\<close> is missing without a runtime.\<close>

record select_state =
  st_mono :: real
  st_epoch :: real
  st_breaker :: breaker
  st_tuning :: querier_tuning
  st_health :: "health option"
  st_sorted :: "sorted_ups option"
  st_all_open :: bool
  st_degraded :: u64
  st_ip_speed :: "(real \<times> real) table"
  st_last_speed :: "real table"
  st_probes :: "(str \<times> str) list"

subsection \<open>Ratings\<close>

definition stats_of :: "str \<Rightarrow> health option \<Rightarrow> upstream_stats option" where
  "stats_of up h = map_option (\<lambda>m. fst (health_stats up m)) h"

definition touch_stats :: "str \<Rightarrow> health option \<Rightarrow> health option" where
  "touch_stats up h = map_option (\<lambda>m. snd (health_stats up m)) h"

definition upstream_eff_lat :: "upstream_cfg \<Rightarrow> 'a select_state_scheme \<Rightarrow> real" where
  "upstream_eff_lat up s =
     (case stats_of (up_id up) (st_health s) of
        None \<Rightarrow> u32_real (up_latency up)
      | Some st \<Rightarrow>
          if us_ok st > 0 then
            let avg = (case avg_latency st of Some a \<Rightarrow> a | None \<Rightarrow> u32_real (up_latency up)); total = us_ok st + us_fail st in
            if total > 10 \<and> u64_real (us_fail st) / u64_real total > 1 / 2 then avg + 500 else avg
          else u32_real (up_latency up))"

definition rating_floor :: "f64 \<Rightarrow> real" where
  "rating_floor f = (case f of Fin r \<Rightarrow> if r > 0 then max (1 / 1000) (min 1 r) else RATING_SR_FLOOR | _ \<Rightarrow> RATING_SR_FLOOR)"

definition per_weight :: "real \<Rightarrow> f64 \<Rightarrow> real" where
  "per_weight x w = (case w of Fin r \<Rightarrow> x / max r 1 | PosInf \<Rightarrow> 0 | _ \<Rightarrow> x)"

record rating =
  ra_score :: real
  ra_base :: real
  ra_sr :: "real option"
  ra_measured :: bool
  ra_slow :: real

definition upstream_rating_detail :: "'b querier_cfg_scheme \<Rightarrow> 'a select_state_scheme \<Rightarrow> upstream_cfg \<Rightarrow> rating" where
  "upstream_rating_detail cfg s up =
     (let p90 = (case p90_latency (up_id up) (st_tuning s) of Some p \<Rightarrow> if p > 0 then Some p else None | None \<Rightarrow> None);
          stats = stats_of (up_id up) (st_health s);
          sr = (case stats of
                  Some st \<Rightarrow> let total = us_ok st + us_fail st in
                    if total > 0 then Some (u64_real (us_ok st) / u64_real total) else None
                | None \<Rightarrow> None);
          mean = (case stats of
                    Some st \<Rightarrow> if us_ok st > 0 then Some (case avg_latency st of Some a \<Rightarrow> a | None \<Rightarrow> u32_real (up_latency up)) else None
                  | None \<Rightarrow> None);
          seen = (case p90 of Some p \<Rightarrow> Some p | None \<Rightarrow> mean);
          measured = (seen \<noteq> None);
          base = (case seen of Some b \<Rightarrow> b | None \<Rightarrow> u32_real (up_latency up));
          base = (if base > 0 then base else max (u32_real (up_latency up)) 1);
          floor = rating_floor (cf_rating_sr_floor cfg);
          pen = (case sr of Some r \<Rightarrow> 1 / max floor (min 1 r) | None \<Rightarrow> 1);
          slow = (if measured \<and> base > RATING_SLOW_P90_MS then RATING_SLOW_PENALTY else 1) in
      \<lparr>ra_score = per_weight (base * pen * slow) (up_weight up), ra_base = base, ra_sr = sr, ra_measured = measured,
       ra_slow = slow\<rparr>)"

definition upstream_rating :: "'b querier_cfg_scheme \<Rightarrow> 'a select_state_scheme \<Rightarrow> upstream_cfg \<Rightarrow> real" where
  "upstream_rating cfg s up = ra_score (upstream_rating_detail cfg s up)"

subsection \<open>The order\<close>

text \<open>\<open>reorder_by_ids\<close>: the first upstream of each id that is not used yet.\<close>

fun take_id :: "str \<Rightarrow> upstream_cfg list \<Rightarrow> (upstream_cfg \<times> upstream_cfg list) option" where
  "take_id i [] = None"
| "take_id i (u # us) =
     (if up_id u = i then Some (u, us) else map_option (\<lambda>(v, rest). (v, u # rest)) (take_id i us))"

fun reorder_from :: "upstream_cfg list \<Rightarrow> str list \<Rightarrow> upstream_cfg list option" where
  "reorder_from ups [] = Some []"
| "reorder_from ups (i # ids) =
     (case take_id i ups of
        None \<Rightarrow> None
      | Some (u, rest) \<Rightarrow> map_option ((#) u) (reorder_from rest ids))"

definition reorder_by_ids :: "upstream_cfg list \<Rightarrow> str list \<Rightarrow> upstream_cfg list option" where
  "reorder_by_ids ups ids = (if length ids \<noteq> length ups then None else reorder_from ups ids)"

definition sort_sig :: "upstream_cfg list \<Rightarrow> (str \<times> f64 \<times> u32 \<times> str \<times> str \<times> u16 \<times> bool) list" where
  "sort_sig ups = map (\<lambda>u. (up_id u, up_weight u, up_latency u, up_proto u, up_host u, up_port u, up_enabled u)) ups"

definition sorted_upstreams ::
  "'b querier_cfg_scheme \<Rightarrow> upstream_cfg list \<Rightarrow> 'a select_state_scheme \<Rightarrow> upstream_cfg list \<times> 'a select_state_scheme" where
  "sorted_upstreams cfg ups s =
     (if length ups \<le> 1 then (ups, s)
      else
        let key = sort_sig ups;
            cached = (case st_sorted s of
                        Some c \<Rightarrow> if su_key c = key \<and> st_mono s - su_ts_ms c \<le> SORTED_UPS_TTL_MS
                                  then reorder_by_ids ups (su_ids c) else None
                      | None \<Rightarrow> None) in
        case cached of
          Some ordered \<Rightarrow> (ordered, s)
        | None \<Rightarrow>
            let ordered = sort_key (upstream_rating cfg s) ups in
            (ordered,
             s\<lparr>st_health := fold (\<lambda>u. touch_stats (up_id u)) ups (st_health s),
               st_sorted := Some \<lparr>su_ids = map up_id ordered, su_ts_ms = st_mono s, su_key = key\<rparr>\<rparr>))"

definition cb_is_open :: "str \<Rightarrow> 'a select_state_scheme \<Rightarrow> bool" where
  "cb_is_open uid s \<longleftrightarrow> is_open uid (st_mono s / 1000) (st_breaker s)"

definition select_upstreams ::
  "'b querier_cfg_scheme \<Rightarrow> upstream_cfg list \<Rightarrow> 'a select_state_scheme
     \<Rightarrow> (upstream_cfg list \<times> upstream_cfg list) \<times> 'a select_state_scheme" where
  "select_upstreams cfg ups s =
     (if ups = [] then (([], []), s)
      else
        let (sorted, s) = sorted_upstreams cfg ups s;
            live = filter (\<lambda>u. \<not> cb_is_open (up_id u) s) sorted;
            live = (if live = [] then sorted else live) in
        if \<not> cf_fallback cfg then ((take 1 live, []), s)
        else let n = min (max (cf_max_parallel cfg) 1) (length live) in ((take n live, drop n live), s))"

definition prefetch_upstream ::
  "'b querier_cfg_scheme \<Rightarrow> upstream_cfg list \<Rightarrow> 'a select_state_scheme \<Rightarrow> upstream_cfg option \<times> 'a select_state_scheme" where
  "prefetch_upstream cfg ups s =
     (let cands = filter up_enabled ups in
      if cands = [] then (None, s)
      else
        let (sorted, s) = sorted_upstreams cfg cands s in
        case find (\<lambda>u. \<not> cb_is_open (up_id u) s) sorted of
          Some u \<Rightarrow> (Some u, s\<lparr>st_health := touch_stats (up_id u) (st_health s), st_all_open := False\<rparr>)
        | None \<Rightarrow>
            (case sorted of
               [] \<Rightarrow> (None, s)
             | u # _ \<Rightarrow>
                 (Some u, s\<lparr>st_health := touch_stats (up_id u) (st_health s), st_all_open := True,
                            st_degraded := (if st_all_open s then st_degraded s else st_degraded s + 1)\<rparr>)))"

definition query_targets ::
  "'b querier_cfg_scheme \<Rightarrow> upstream_cfg list \<Rightarrow> bool \<Rightarrow> 'a select_state_scheme \<Rightarrow> upstream_cfg list \<times> 'a select_state_scheme" where
  "query_targets cfg ups single s =
     (if \<not> single then (filter up_enabled ups, s)
      else case prefetch_upstream cfg ups s of (pick, s) \<Rightarrow> (case pick of Some u \<Rightarrow> [u] | None \<Rightarrow> [], s))"

datatype role = Primary | Backup | Idle

definition upstream_roles ::
  "'b querier_cfg_scheme \<Rightarrow> 'a select_state_scheme \<Rightarrow> role table \<times> 'a select_state_scheme" where
  "upstream_roles cfg s =
     (let ups = cf_upstreams cfg;
          out = fold (\<lambda>u. AList.update (up_id u) Idle) ups [];
          ((primary, backup), s) = select_upstreams cfg (filter up_enabled ups) s;
          out = fold (\<lambda>u. AList.update (up_id u) Backup) backup out in
      (fold (\<lambda>u. AList.update (up_id u) Primary) primary out, s))"

subsection \<open>What is chosen\<close>

lemma take_id_mset: "take_id i ups = Some (u, rest) \<Longrightarrow> mset ups = add_mset u (mset rest) \<and> up_id u = i"
  by (induction ups arbitrary: rest) (auto split: if_splits)

lemma reorder_from_mset: "reorder_from ups ids = Some r \<Longrightarrow> mset r \<subseteq># mset ups \<and> map up_id r = ids"
proof (induction ups ids arbitrary: r rule: reorder_from.induct)
  case (2 ups i ids)
  then show ?case using take_id_mset [of i ups] by (fastforce split: option.splits prod.splits)
qed simp

lemma reorder_by_ids_mset:
  assumes "reorder_by_ids ups ids = Some r"
  shows "mset r = mset ups"
proof -
  have r: "reorder_from ups ids = Some r" and l: "length ids = length ups"
    using assms by (auto simp: reorder_by_ids_def split: if_splits)
  have sub: "mset r \<subseteq># mset ups" and ids: "map up_id r = ids" using reorder_from_mset [OF r] by auto
  have "length r = length ids" using ids by (metis length_map)
  then have "size (mset r) = size (mset ups)" using l by simp
  then show ?thesis using sub by (metis mset_subset_size nless_le subset_mset.less_le)
qed

lemma sorted_upstreams_mset: "mset (fst (sorted_upstreams cfg ups s)) = mset ups"
proof -
  have "mset r = mset ups" if "(case st_sorted s of
        Some c \<Rightarrow> if su_key c = sort_sig ups \<and> st_mono s - su_ts_ms c \<le> SORTED_UPS_TTL_MS
                  then reorder_by_ids ups (su_ids c) else None
      | None \<Rightarrow> None) = Some r" for r
    using that reorder_by_ids_mset by (auto split: option.splits if_splits)
  then show ?thesis by (auto simp: sorted_upstreams_def Let_def split: option.split)
qed

lemma sorted_upstreams_open [simp]: "cb_is_open uid (snd (sorted_upstreams cfg ups s)) = cb_is_open uid s"
  by (simp add: sorted_upstreams_def Let_def cb_is_open_def split: option.split)

text \<open>The upstreams a query may use: those whose breaker is closed, or all when every breaker is open.\<close>

definition usable :: "'a select_state_scheme \<Rightarrow> upstream_cfg list \<Rightarrow> upstream_cfg multiset" where
  "usable s ups =
     (let live = filter_mset (\<lambda>u. \<not> cb_is_open (up_id u) s) (mset ups) in if live = {#} then mset ups else live)"

lemma select_live:
  assumes "ups \<noteq> []"
  shows "\<exists>live. mset live = usable s ups \<and> live \<noteq> [] \<and>
    fst (select_upstreams cfg ups s) =
      (if \<not> cf_fallback cfg then (take 1 live, [])
       else let n = min (max (cf_max_parallel cfg) 1) (length live) in (take n live, drop n live))
    \<and> (st_sorted s = None \<longrightarrow> sorted (map (upstream_rating cfg s) live))"
proof -
  let ?srt = "fst (sorted_upstreams cfg ups s)"
  let ?cl = "\<lambda>u. \<not> cb_is_open (up_id u) s"
  let ?live = "if filter ?cl ?srt = [] then ?srt else filter ?cl ?srt"
  have m: "mset ?srt = mset ups" by (rule sorted_upstreams_mset)
  have f: "mset (filter ?cl ?srt) = filter_mset ?cl (mset ups)" by (simp only: mset_filter m)
  have e: "filter ?cl ?srt = [] \<longleftrightarrow> filter_mset ?cl (mset ups) = {#}" using f by (metis mset_zero_iff)
  have 1: "mset ?live = usable s ups"
  proof (cases "filter ?cl ?srt = []")
    case True
    then have z: "filter_mset ?cl (mset ups) = {#}" using e by blast
    show ?thesis unfolding usable_def Let_def z True by (simp only: simp_thms if_True m)
  next
    case False
    then have "filter_mset ?cl (mset ups) \<noteq> {#}" using e by blast
    then show ?thesis unfolding usable_def Let_def using False by (simp only: simp_thms if_False f)
  qed
  have "?srt \<noteq> []" using m assms by (metis mset_zero_iff)
  then have 2: "?live \<noteq> []" by simp
  have 3: "fst (select_upstreams cfg ups s) =
      (if \<not> cf_fallback cfg then (take 1 ?live, [])
       else let n = min (max (cf_max_parallel cfg) 1) (length ?live) in (take n ?live, drop n ?live))"
  proof -
    obtain r s' where rs: "sorted_upstreams cfg ups s = (r, s')" by fastforce
    then have "cb_is_open uid s' = cb_is_open uid s" for uid using sorted_upstreams_open [of uid cfg ups s] by simp
    then show ?thesis using assms rs by (simp add: select_upstreams_def Let_def)
  qed
  have 4: "sorted (map (upstream_rating cfg s) ?live)" if "st_sorted s = None"
  proof -
    have "sorted (map (upstream_rating cfg s) ?srt)"
    proof (cases "length ups \<le> 1")
      case True
      then show ?thesis by (cases ups) (auto simp: sorted_upstreams_def)
    next
      case False
      then show ?thesis using that by (simp add: sorted_upstreams_def Let_def)
    qed
    then show ?thesis by (simp add: sorted_filter)
  qed
  show ?thesis by (intro exI [of _ ?live] conjI impI 1 2 3 4)
qed


subsection \<open>An example\<close>

definition sample_cfg :: resolver_cfg where
  "sample_cfg = resolver_cfg_default\<lparr>cf_max_parallel := 1\<rparr>"

definition select_new :: select_state where
  "select_new = \<lparr>st_mono = 0, st_epoch = 0, st_breaker = breaker_new, st_tuning = tuning_from_config resolver_cfg_default,
     st_health = None, st_sorted = None, st_all_open = False, st_degraded = 0, st_ip_speed = [], st_last_speed = [],
     st_probes = []\<rparr>"

definition fast_up :: "str \<Rightarrow> u32 \<Rightarrow> upstream_cfg" where
  "fast_up i lat = \<lparr>up_id = i, up_name = i, up_proto = lit ''udp'', up_host = lit ''127.0.0.1'', up_port = 53, up_url = [],
     up_enabled = True, up_latency = lat, up_weight = Fin 1, up_group = None, up_allow_private = False\<rparr>"


end
