(* ===== verification/Speed_Sort.thy ===== *)
theory Speed_Sort
  imports Upstream_Select
begin

text \<open>
  The order of candidate addresses by measured speed, \<open>ebpdns-resolver/src/lib.rs\<close>: the table of measured times, the
  throttle per name, and the weighted random order.  The random numbers are a function from the count of the draw and its
  limit; a probe handed to the pool of probes is an element of \<open>st_probes\<close>.
\<close>

definition safe_weight :: "f64 option \<Rightarrow> real" where
  "safe_weight w = (case w of Some (Fin r) \<Rightarrow> if r > 0 then r else 0 | _ \<Rightarrow> 0)"

definition weight_at :: "f64 list \<Rightarrow> nat \<Rightarrow> real" where
  "weight_at ws i = safe_weight (if i < length ws then Some (ws ! i) else None)"

text \<open>The scan for the drawn number; \<open>idx\<close> is what it falls back to.\<close>

fun scan_weights :: "f64 list \<Rightarrow> real \<Rightarrow> real \<Rightarrow> nat \<Rightarrow> nat \<Rightarrow> nat list \<Rightarrow> nat" where
  "scan_weights ws r acc k idx [] = idx"
| "scan_weights ws r acc k idx (i # rest) =
     (let acc = acc + weight_at ws i in if r < acc then k else scan_weights ws r acc (k + 1) idx rest)"

definition drawn :: "f64 \<Rightarrow> real" where
  "drawn v = (case v of Fin r \<Rightarrow> if r < 0 then 0 else r | _ \<Rightarrow> 0)"

definition pick_index :: "f64 list \<Rightarrow> (nat \<Rightarrow> real \<Rightarrow> f64) \<Rightarrow> nat \<Rightarrow> nat list \<Rightarrow> nat" where
  "pick_index ws draw n remaining =
     (let total = sum_list (map (weight_at ws) remaining) in
      if total > 0 then scan_weights ws (drawn (draw n total)) 0 0 (length remaining - 1) remaining else 0)"

function sample_from :: "f64 list \<Rightarrow> (nat \<Rightarrow> real \<Rightarrow> f64) \<Rightarrow> nat \<Rightarrow> nat list \<Rightarrow> nat list" where
  "sample_from ws draw n remaining =
     (if remaining = [] then []
      else
        let pick = pick_index ws draw n remaining in
        if pick < length remaining then
          remaining ! pick # sample_from ws draw (n + 1) (take pick remaining @ drop (pick + 1) remaining)
        else [])"
  by pat_completeness auto
termination by (relation "measure (\<lambda>(_, _, _, r). length r)") auto

declare sample_from.simps [simp del]

definition weighted_sample_order :: "f64 list \<Rightarrow> (nat \<Rightarrow> real \<Rightarrow> f64) \<Rightarrow> nat list" where
  "weighted_sample_order ws draw = sample_from ws draw 0 [0..<length ws]"

subsection \<open>Measured times\<close>

definition record_ip_speed :: "str \<Rightarrow> f64 \<Rightarrow> 'a select_state_scheme \<Rightarrow> 'a select_state_scheme" where
  "record_ip_speed ip rtt s =
     (case rtt of
        Fin ms \<Rightarrow>
          let now = st_epoch s;
              ewma = (case map_of (st_ip_speed s) ip of
                        Some (old, ts) \<Rightarrow> if now - ts < IP_SPEED_SAMPLE_MAX_AGE_S
                                          then IP_SPEED_EWMA_OLD * old + (1 - IP_SPEED_EWMA_OLD) * ms else ms
                      | None \<Rightarrow> ms);
              t = AList.update ip (ewma, now) (st_ip_speed s);
              t = (if length t > IP_SPEED_MAX then evict_oldest_by_ts t (IP_SPEED_MAX * 3 div 4) snd else t) in
          s\<lparr>st_ip_speed := t\<rparr>
      | _ \<Rightarrow> s)"

fun speed_best :: "'b policy_cfg_scheme \<Rightarrow> 'a select_state_scheme \<Rightarrow> str option \<Rightarrow> real \<Rightarrow> resolve_answer list \<Rightarrow> str option" where
  "speed_best cfg s best rtt [] = best"
| "speed_best cfg s best rtt (a # cands) =
     (case map_of (st_ip_speed s) (rv_value a) of
        Some (ewma, probed) \<Rightarrow>
          if st_epoch s - probed \<le> u32_real (cf_ip_speed_cache_ttl cfg) \<and> ewma < rtt
          then speed_best cfg s (Some (rv_value a)) ewma cands
          else speed_best cfg s best rtt cands
      | None \<Rightarrow> speed_best cfg s best rtt cands)"

definition speed_choose :: "'b policy_cfg_scheme \<Rightarrow> resolve_answer list \<Rightarrow> 'a select_state_scheme \<Rightarrow> str" where
  "speed_choose cfg cands s =
     (case cands of
        [] \<Rightarrow> []
      | first # _ \<Rightarrow>
          if \<not> cf_speed_test cfg \<or> length cands \<le> 1 then rv_value first
          else case speed_best cfg s None F64_MAX cands of Some v \<Rightarrow> v | None \<Rightarrow> rv_value first)"

subsection \<open>The order of the candidates\<close>

record speed_hint =
  sh_static_lat :: real
  sh_probe :: str

definition note_speed_test :: "str \<Rightarrow> 'a select_state_scheme \<Rightarrow> 'a select_state_scheme" where
  "note_speed_test domain s =
     (let now = st_mono s / 1000;
          hist = AList.update domain now (st_last_speed s);
          hist = (if length hist > SPEED_HIST_MAX then
                    let h = filter (\<lambda>(_, ts). now - ts \<le> SPEED_HIST_TTL_S) hist in
                    if length h > SPEED_HIST_MAX then evict_oldest_by_ts h (SPEED_HIST_MAX * 3 div 4) (\<lambda>ts. ts) else h
                  else hist) in
      s\<lparr>st_last_speed := hist\<rparr>)"

text \<open>One candidate of the window: its time, and what is written and probed for it.\<close>

definition measure_one ::
  "'b policy_cfg_scheme \<Rightarrow> speed_hint list \<Rightarrow> nat \<Rightarrow> resolve_answer \<Rightarrow> 'a select_state_scheme \<Rightarrow> real \<times> 'a select_state_scheme" where
  "measure_one cfg hints i a s =
     (let hit = map_of (st_ip_speed s) (rv_value a);
          fresh = (case hit of Some (e, ts) \<Rightarrow> if st_epoch s - ts < u32_real (cf_ip_speed_cache_ttl cfg) then Some e else None
                   | None \<Rightarrow> None) in
      case fresh of
        Some ewma \<Rightarrow> (ewma, s)
      | None \<Rightarrow>
          let static_ms = (if i < length hints then sh_static_lat (hints ! i) else SPEED_SORT_FALLBACK_MS);
              t = (if hit = None then AList.update (rv_value a) (static_ms, st_epoch s) (st_ip_speed s) else st_ip_speed s);
              hint = (if i < length hints then sh_probe (hints ! i) else lit ''udp53'');
              cfgp = ascii_lower (cf_ip_speed_probe cfg);
              mode = (if cfgp = lit ''udp53'' \<or> cfgp = lit ''tcp443'' then cfgp else hint) in
          (static_ms, s\<lparr>st_ip_speed := t, st_probes := st_probes s @ [(rv_value a, mode)]\<rparr>))"

fun measure_window ::
  "'b policy_cfg_scheme \<Rightarrow> speed_hint list \<Rightarrow> nat \<Rightarrow> resolve_answer list \<Rightarrow> 'a select_state_scheme \<Rightarrow> real list \<times> 'a select_state_scheme" where
  "measure_window cfg hints i [] s = ([], s)"
| "measure_window cfg hints i (a # cands) s =
     (case measure_one cfg hints i a s of
        (m, s) \<Rightarrow> (case measure_window cfg hints (i + 1) cands s of (ms, s) \<Rightarrow> (m # ms, s)))"

definition speed_sort ::
  "'b policy_cfg_scheme \<Rightarrow> (nat \<Rightarrow> real \<Rightarrow> f64) \<Rightarrow> resolve_answer list \<Rightarrow> speed_hint list \<Rightarrow> str
     \<Rightarrow> 'a select_state_scheme \<Rightarrow> resolve_answer list \<times> 'a select_state_scheme" where
  "speed_sort cfg draw cands hints domain s =
     (if \<not> (cf_speed_test cfg \<and> cf_ip_speed_check cfg) \<or> length cands \<le> 1 then (cands, s)
      else
        let now = st_mono s / 1000; last_test = (case map_of (st_last_speed s) domain of Some t \<Rightarrow> t | None \<Rightarrow> 0) in
        if now - last_test < u64_real (cf_speed_interval_ms cfg) / 1000 then (cands, s)
        else
          let s = note_speed_test domain s;
              window = min SPEED_SORT_WINDOW (length cands);
              (measured, s) = measure_window cfg hints 0 (take window cands) s;
              s = (if length (st_ip_speed s) > IP_SPEED_MAX
                   then s\<lparr>st_ip_speed := evict_oldest_by_ts (st_ip_speed s) (IP_SPEED_MAX * 3 div 4) snd\<rparr> else s);
              weights = map (\<lambda>m. Fin (1 / (max m 0 + 10))) measured;
              order = weighted_sample_order weights draw;
              out = map (\<lambda>i. cands ! i) (filter (\<lambda>i. i < length cands) order) @ drop window cands in
          (if length out \<noteq> length cands then cands else out, s))"

subsection \<open>No candidate is lost\<close>

lemma scan_weights_bound: "idx < k + length rest \<Longrightarrow> scan_weights ws r acc k idx rest < k + length rest"
proof (induction ws r acc k idx rest rule: scan_weights.induct)
  case (2 ws r acc k idx i rest)
  then show ?case by (simp add: Let_def)
qed simp

lemma pick_index_bound: "remaining \<noteq> [] \<Longrightarrow> pick_index ws draw n remaining < length remaining"
  using scan_weights_bound [of "length remaining - 1" 0 remaining] by (simp add: pick_index_def Let_def)

lemma mset_remove_nth: "i < length xs \<Longrightarrow> add_mset (xs ! i) (mset (take i xs @ drop (Suc i) xs)) = mset xs"
  by (metis id_take_nth_drop mset.simps(2) mset_append union_mset_add_mset_right)

lemma sample_from_mset: "mset (sample_from ws draw n remaining) = mset remaining"
proof (induction ws draw n remaining rule: sample_from.induct)
  case (1 ws draw n remaining)
  show ?case
  proof (cases "remaining = []")
    case True
    then show ?thesis by (simp add: sample_from.simps)
  next
    case False
    note b = pick_index_bound [OF this, of ws draw n]
    have "mset (sample_from ws draw n remaining) =
        add_mset (remaining ! pick_index ws draw n remaining)
          (mset (take (pick_index ws draw n remaining) remaining @ drop (Suc (pick_index ws draw n remaining)) remaining))"
      using 1 False b by (subst sample_from.simps) (simp add: Let_def)
    then show ?thesis using mset_remove_nth [OF b] by simp
  qed
qed

lemma weighted_sample_order_mset: "mset (weighted_sample_order ws draw) = mset [0..<length ws]"
  by (simp add: weighted_sample_order_def sample_from_mset)

lemma measure_window_length: "length (fst (measure_window cfg hints i cands s)) = length cands"
  by (induction cands arbitrary: i s) (simp_all add: case_prod_beta)

lemma order_window:
  assumes "mset order = mset [0..<n]" "n \<le> length cands"
  shows "mset (map (\<lambda>i. cands ! i) (filter (\<lambda>i. i < length cands) order)) = mset (take n cands)"
proof -
  have "set order = {0..<n}" using assms(1) by (metis mset_eq_setD set_upt)
  then have "filter (\<lambda>i. i < length cands) order = order" using assms(2) by (intro filter_True) auto
  moreover have "mset (map (\<lambda>i. cands ! i) order) = image_mset (\<lambda>i. cands ! i) (mset [0..<n])" using assms(1) by simp
  moreover have "map (\<lambda>i. cands ! i) [0..<n] = take n cands" using assms(2) by (simp add: list_eq_iff_nth_eq)
  ultimately show ?thesis by (metis mset_map)
qed

lemma speed_sort_mset:
  "mset (fst (speed_sort cfg draw cands hints domain s)) = mset cands
    \<and> drop SPEED_SORT_WINDOW (fst (speed_sort cfg draw cands hints domain s)) = drop SPEED_SORT_WINDOW cands"
proof -
  define window where "window = min SPEED_SORT_WINDOW (length cands)"
  obtain measured s' where m: "measure_window cfg hints 0 (take window cands) (note_speed_test domain s) = (measured, s')"
    by fastforce
  have len: "length measured = window"
    using measure_window_length [of cfg hints 0 "take window cands" "note_speed_test domain s"] m by (simp add: window_def)
  let ?order = "weighted_sample_order (map (\<lambda>m. Fin (1 / (max m 0 + 10))) measured) draw"
  let ?front = "map (\<lambda>i. cands ! i) (filter (\<lambda>i. i < length cands) ?order)"
  have "mset ?order = mset [0..<window]" by (simp add: weighted_sample_order_mset len)
  then have front: "mset ?front = mset (take window cands)" by (rule order_window) (simp add: window_def)
  then have fl: "length ?front = window" using mset_eq_length [OF front] by (simp add: window_def)
  have out: "mset (?front @ drop window cands) = mset cands" using front by (metis append_take_drop_id mset_append)
  have "drop SPEED_SORT_WINDOW (?front @ drop window cands) = drop SPEED_SORT_WINDOW cands"
    using fl by (auto simp: window_def min_def)
  moreover have "fst (speed_sort cfg draw cands hints domain s) \<in> {cands, ?front @ drop window cands}"
    by (simp add: speed_sort_def Let_def window_def [symmetric] m)
  ultimately show ?thesis using out by (elim insertE emptyE) simp_all
qed

text \<open>The order by speed loses, adds and duplicates no candidate whatever the random numbers are, and leaves all
  candidates behind the eighth in their places.\<close>

theorem speed_sort_permutes:
  "mset (fst (speed_sort cfg draw cands hints domain s)) = mset cands
    \<and> drop SPEED_SORT_WINDOW (fst (speed_sort cfg draw cands hints domain s)) = drop SPEED_SORT_WINDOW cands"
  by (rule speed_sort_mset)

end
