(* ===== verification/Resolver_State.thy ===== *)
theory Resolver_State
  imports Speed_Sort Nxdomain_Table Rule_Cache Dns_Cache
begin

text \<open>
  The state of \<open>Resolver\<close> (\<open>ebpdns-resolver/src/lib.rs\<close>) with the short operations of \<open>lib.rs\<close>, \<open>resolve.rs\<close> and
  \<open>rfc8020.rs\<close> that read or write it: breakers, the prefetch queue, the two ways into the cache, the lifetimes of negative
  answers, the table of nonexistent names.  What the code reaches through a trait object or a foreign crate is a field of
  \<open>world\<close>.  Counters of the telemetry, log lines and traces are left out; the clock is part of the state and stands still
  between two waits.
\<close>

subsection \<open>State\<close>

record ('c, 're, 'l) resolver = select_state +
  rs_cfg :: resolver_cfg
  rs_cache :: 'c
  rs_engine :: "('re, 'l) rule_engine"
  rs_gen :: u64
  rs_nx :: nx_table
  rs_prefetch :: pending_map
  rs_refreshing :: "str set"
  rs_refreshes :: "(str \<times> str) list"
  rs_single_votes :: u64
  rs_stale_dropped :: u64
  rs_nx_hits :: u64
  rs_nx_regs :: u64

text \<open>
  What the resolver calls: the tables of Unicode, the hash of names, the crates for patterns and LRU lists, the policy of
  the cache, a wave of queries, the flight of another caller for the same key (\<open>None\<close> is no such flight), and random
  numbers.  While a wave or a flight is awaited other tasks run, so both return a new state.
\<close>

record ('c, 're, 'l) world =
  wo_unicode :: unicode_lib
  wo_hash :: "str \<Rightarrow> u64"
  wo_regex :: "'re regex_lib"
  wo_lru :: "'l lru_lib"
  wo_cache :: "'c dns_cache_ops"
  wo_query :: "upstream_cfg list \<Rightarrow> str \<Rightarrow> str \<Rightarrow> nat \<Rightarrow> ('c, 're, 'l) resolver \<Rightarrow> upstream_answer list \<times> ('c, 're, 'l) resolver"
  wo_flight :: "str \<Rightarrow> ('c, 're, 'l) resolver \<Rightarrow> (upstream_answer list \<times> ('c, 're, 'l) resolver) option"
  wo_draw :: "('c, 're, 'l) resolver \<Rightarrow> nat \<Rightarrow> real \<Rightarrow> f64"

definition MAX_DEPTH :: nat where "MAX_DEPTH = 8"

subsection \<open>Rules, breakers, the prefetch queue\<close>

definition rs_match_rule ::
  "('c, 're, 'l) world \<Rightarrow> str \<Rightarrow> ('c, 're, 'l) resolver \<Rightarrow> rule option \<times> ('c, 're, 'l) resolver" where
  "rs_match_rule W domain s =
     (case match_rule (wo_unicode W) (wo_hash W) (wo_regex W) (wo_lru W) domain False (rs_engine s) of
        (Hit r, e) \<Rightarrow> (Some r, s\<lparr>rs_engine := e\<rparr>)
      | (_, e) \<Rightarrow> (None, s\<lparr>rs_engine := e\<rparr>))"

definition match_rule_fast ::
  "('c, 're, 'l) world \<Rightarrow> str \<Rightarrow> ('c, 're, 'l) resolver \<Rightarrow> match_outcome \<times> ('c, 're, 'l) resolver" where
  "match_rule_fast W domain s =
     (case match_rule (wo_unicode W) (wo_hash W) (wo_regex W) (wo_lru W) domain True (rs_engine s) of
        (v, e) \<Rightarrow> (v, s\<lparr>rs_engine := e\<rparr>))"

definition mono_s :: "('c, 're, 'l) resolver \<Rightarrow> real" where "mono_s s = st_mono s / 1000"

definition cb_fail :: "str \<Rightarrow> ('c, 're, 'l) resolver \<Rightarrow> ('c, 're, 'l) resolver" where
  "cb_fail uid s =
     s\<lparr>st_breaker := breaker_fail uid (mono_s s) (cf_circuit_fails (rs_cfg s)) (cf_circuit_open_s (rs_cfg s))
         (cf_circuit_open_max_s (rs_cfg s)) (st_breaker s)\<rparr>"

definition cb_ok :: "str \<Rightarrow> ('c, 're, 'l) resolver \<Rightarrow> ('c, 're, 'l) resolver" where
  "cb_ok uid s = s\<lparr>st_breaker := breaker_ok uid (st_breaker s)\<rparr>"

definition cb_probe_ok :: "str \<Rightarrow> ('c, 're, 'l) resolver \<Rightarrow> bool \<times> ('c, 're, 'l) resolver" where
  "cb_probe_ok uid s = (let (r, b) = breaker_probe_ok uid (st_breaker s) in (r, s\<lparr>st_breaker := b\<rparr>))"

definition cb_probe_fail :: "str \<Rightarrow> ('c, 're, 'l) resolver \<Rightarrow> u64 \<times> ('c, 're, 'l) resolver" where
  "cb_probe_fail uid s = (let (n, b) = breaker_probe_fail uid (st_breaker s) in (n, s\<lparr>st_breaker := b\<rparr>))"

text \<open>\<open>a > b\<close> on \<open>f64\<close>: false when either is not a number.\<close>

fun f64_gt :: "f64 \<Rightarrow> f64 \<Rightarrow> bool" where
  "f64_gt (Fin a) (Fin b) \<longleftrightarrow> a > b"
| "f64_gt PosInf (Fin _) \<longleftrightarrow> True"
| "f64_gt PosInf NegInf \<longleftrightarrow> True"
| "f64_gt (Fin _) NegInf \<longleftrightarrow> True"
| "f64_gt _ _ \<longleftrightarrow> False"

definition schedule_prefetch :: "str \<Rightarrow> str \<Rightarrow> f64 \<Rightarrow> ('c, 're, 'l) resolver \<Rightarrow> ('c, 're, 'l) resolver" where
  "schedule_prefetch domain qtype ttl_left s =
     (let cfg = rs_cfg s in
      if \<not> cf_prefetch cfg then s
      else if f64_gt ttl_left (cf_prefetch_trigger cfg) then s
      else s\<lparr>rs_prefetch := schedule (domain @ [124] @ qtype) domain qtype (cf_prefetch_max cfg) (rs_prefetch s)\<rparr>)"

subsection \<open>Ways into the cache\<close>

definition ckey :: "str \<Rightarrow> str \<Rightarrow> cache_key" where
  "ckey domain qtype = cache_key_new (normalize domain) (ascii_upper qtype)"

definition ckey_normalized :: "str \<Rightarrow> str \<Rightarrow> cache_key" where
  "ckey_normalized domain qtype = cache_key_new domain qtype"

definition rs_cache_get ::
  "('c, 're, 'l) world \<Rightarrow> cache_key \<Rightarrow> real \<Rightarrow> ('c, 're, 'l) resolver
     \<Rightarrow> cache_entry option \<times> ('c, 're, 'l) resolver" where
  "rs_cache_get W k now s =
     (case op_get (wo_cache W) k now (rs_cache s) of (e, c) \<Rightarrow> (e, s\<lparr>rs_cache := c\<rparr>))"

text \<open>The window of \<open>get_stale\<close> as a real: an infinite one holds every entry, one that is not a number none.\<close>

definition stale_real :: "f64 \<Rightarrow> real" where
  "stale_real w = (case w of Fin r \<Rightarrow> r | PosInf \<Rightarrow> F64_MAX | _ \<Rightarrow> - 1)"

definition rs_cache_get_stale ::
  "('c, 're, 'l) world \<Rightarrow> cache_key \<Rightarrow> real \<Rightarrow> f64 \<Rightarrow> ('c, 're, 'l) resolver
     \<Rightarrow> cache_entry option \<times> ('c, 're, 'l) resolver" where
  "rs_cache_get_stale W k now w s =
     (case op_get_stale (wo_cache W) k now (stale_real w) (rs_cache s) of (e, c) \<Rightarrow> (e, s\<lparr>rs_cache := c\<rparr>))"

definition rs_cache_delete :: "('c, 're, 'l) world \<Rightarrow> cache_key \<Rightarrow> ('c, 're, 'l) resolver \<Rightarrow> ('c, 're, 'l) resolver" where
  "rs_cache_delete W k s = s\<lparr>rs_cache := op_delete (wo_cache W) k (rs_cache s)\<rparr>"

definition note_stale_gen_dropped :: "u64 \<Rightarrow> ('c, 're, 'l) resolver \<Rightarrow> ('c, 're, 'l) resolver" where
  "note_stale_gen_dropped n s = (if n > 0 then s\<lparr>rs_stale_dropped := rs_stale_dropped s + n\<rparr> else s)"

definition put_negative ::
  "('c, 're, 'l) world \<Rightarrow> cache_key \<Rightarrow> str \<Rightarrow> str \<Rightarrow> u8 \<Rightarrow> u32 \<Rightarrow> u64 option \<Rightarrow> ('c, 're, 'l) resolver
     \<Rightarrow> ('c, 're, 'l) resolver" where
  "put_negative W key d qtype rcode t gen s =
     (let cur = rs_gen s; stamp = (case gen of Some g \<Rightarrow> g | None \<Rightarrow> cur) in
      if stamp \<noteq> cur then note_stale_gen_dropped 1 s
      else
        let now = st_epoch s;
            entry = \<lparr>ce_domain = d, ce_qtype = qtype, ce_answers = [], ce_chosen = [], ce_ttl = u32_real t,
                     ce_rcode = rcode, ce_expires_at = now + u32_real t, ce_rule_gen = stamp, ce_seq = 0\<rparr> in
        s\<lparr>rs_cache := op_put (wo_cache W) key entry now (rs_cache s)\<rparr>)"

text \<open>The lifetime, the chosen value and the entry of a positive answer.\<close>

definition fill_ttl :: "'a policy_cfg_scheme \<Rightarrow> f64 option \<Rightarrow> resolve_answer list \<Rightarrow> u32" where
  "fill_ttl cfg ttl_cap answers =
     (let ttl_default = cf_ttl cfg;
          raw = (if answers = [] then ttl_default
                 else min ttl_default (Min (set (map (\<lambda>a. f64_to_u32 (rv_ttl a)) answers))));
          raw = (case ttl_cap of Some (Fin c) \<Rightarrow> if c > 0 then min raw (f64_to_u32 (min c (u32_real (- 1)))) else raw | _ \<Rightarrow> raw) in
      clamp_ttl3 raw (cf_ttl_min cfg) (cf_ttl_max cfg))"

definition chosen_of :: "resolve_answer list \<Rightarrow> str" where
  "chosen_of answers =
     (case find (\<lambda>a. rv_rtype a = 1 \<or> rv_rtype a = 28) (rev answers) of
        Some a \<Rightarrow> rv_value a
      | None \<Rightarrow> (if answers = [] then [] else rv_value (last answers)))"

definition fill_cache_capped ::
  "('c, 're, 'l) world \<Rightarrow> cache_key \<Rightarrow> str \<Rightarrow> str \<Rightarrow> resolve_answer list \<Rightarrow> u64 option \<Rightarrow> f64 option
     \<Rightarrow> ('c, 're, 'l) resolver \<Rightarrow> ('c, 're, 'l) resolver" where
  "fill_cache_capped W key domain qtype answers gen ttl_cap s =
     (let cur = rs_gen s; stamp = (case gen of Some g \<Rightarrow> g | None \<Rightarrow> cur) in
      if stamp \<noteq> cur then note_stale_gen_dropped 1 s
      else
        let now = st_epoch s; t = fill_ttl (rs_cfg s) ttl_cap answers;
            entry = \<lparr>ce_domain = domain, ce_qtype = qtype, ce_answers = map to_cache_answer answers,
                     ce_chosen = chosen_of answers, ce_ttl = u32_real t, ce_rcode = 0,
                     ce_expires_at = now + u32_real t, ce_rule_gen = stamp, ce_seq = 0\<rparr> in
        s\<lparr>rs_cache := op_put (wo_cache W) key entry now (rs_cache s)\<rparr>)"

definition fill_cache ::
  "('c, 're, 'l) world \<Rightarrow> cache_key \<Rightarrow> str \<Rightarrow> str \<Rightarrow> resolve_answer list \<Rightarrow> u64 option \<Rightarrow> ('c, 're, 'l) resolver
     \<Rightarrow> ('c, 're, 'l) resolver" where
  "fill_cache W key domain qtype answers gen s = fill_cache_capped W key domain qtype answers gen None s"

definition is_negative_entry :: "cache_entry \<Rightarrow> bool" where
  "is_negative_entry e \<longleftrightarrow> ce_rcode e = 3 \<or> ce_answers e = []"

subsection \<open>Lifetimes of negative answers\<close>

fun best_neg :: "u32 option \<Rightarrow> upstream_answer list \<Rightarrow> u32 option" where
  "best_neg best [] = best"
| "best_neg best (r # rs) =
     (case ua_neg_ttl r of
        Some v \<Rightarrow> if v > 0 then best_neg (Some (case best of Some b \<Rightarrow> min b v | None \<Rightarrow> v)) rs else best_neg best rs
      | None \<Rightarrow> best_neg best rs)"

definition neg_ttl_of :: "'a policy_cfg_scheme \<Rightarrow> upstream_answer list \<Rightarrow> u32" where
  "neg_ttl_of cfg results =
     (let base = (case best_neg None results of Some b \<Rightarrow> b | None \<Rightarrow> min (cf_ttl cfg) 60);
          clamped = clamp_ttl3 base (cf_ttl_min cfg) (cf_ttl_max cfg);
          capped = (if cf_neg_ttl_max cfg > 0 then min clamped (cf_neg_ttl_max cfg) else clamped) in
      max capped 1)"

definition neg_ttl_cap :: "'a policy_cfg_scheme \<Rightarrow> u32 \<Rightarrow> u32" where
  "neg_ttl_cap cfg t = (if cf_neg_ttl_max cfg > 0 then min t (cf_neg_ttl_max cfg) else t)"

definition clamp_1_60 :: "u32 \<Rightarrow> u32" where "clamp_1_60 t = max 1 (min 60 t)"

definition neg_ttl_of_sub :: "'a policy_cfg_scheme \<Rightarrow> resolve_result \<Rightarrow> real" where
  "neg_ttl_of_sub cfg sub =
     (let neg = (if rr_ttl_left sub \<le> 0 then u32_real (clamp_1_60 (cf_ttl cfg)) else rr_ttl_left sub);
          neg = (if cf_neg_ttl_max cfg > 0 then min neg (u32_real (cf_neg_ttl_max cfg)) else neg) in
      max neg 1)"

subsection \<open>Judgements on the answers of upstreams\<close>

definition servfail_reason_of :: "'a querier_cfg_scheme \<Rightarrow> upstream_answer list \<Rightarrow> servfail_reason" where
  "servfail_reason_of cfg results =
     (let threshold = u64_real (max (cf_timeout_ms cfg) 1) * (95 / 100) in
      if \<exists>r\<in>set results. (case ua_lat r of Fin l \<Rightarrow> l \<ge> threshold | _ \<Rightarrow> False) then UpstreamTimeout else UpstreamNoAnswer)"

definition is_negative_answer :: "upstream_answer \<Rightarrow> bool" where
  "is_negative_answer r \<longleftrightarrow>
     ua_rcode r = Some 3 \<or> (ua_rcode r = Some 0 \<and> \<not> ua_truncated r \<and> ua_answers r = [])"

definition is_valid_vote :: "upstream_answer \<Rightarrow> bool" where
  "is_valid_vote r \<longleftrightarrow> (ua_rcode r = Some 0 \<or> ua_rcode r = Some 3) \<and> \<not> ua_truncated r"

fun push_distinct :: "resolve_answer list \<Rightarrow> resolve_answer list \<Rightarrow> resolve_answer list" where
  "push_distinct out [] = out"
| "push_distinct out (a # as) =
     push_distinct (if \<exists>c\<in>set out. rv_value c = rv_value a then out else out @ [a]) as"

definition dedup_answers :: "upstream_answer list \<Rightarrow> resolve_answer list" where
  "dedup_answers ok = fold (\<lambda>r out. push_distinct out (ua_answers r)) ok []"

definition winner_of :: "upstream_answer list \<Rightarrow> str" where
  "winner_of rs = (case rs of r # _ \<Rightarrow> ua_up r | [] \<Rightarrow> [])"

definition winner_up_name :: "upstream_answer list \<Rightarrow> str \<Rightarrow> str" where
  "winner_up_name ok chosen =
     (if chosen \<noteq> [] then
        (case find (\<lambda>r. \<exists>a\<in>set (ua_answers r). rv_value a = chosen) ok of Some r \<Rightarrow> ua_up r | None \<Rightarrow> winner_of ok)
      else winner_of ok)"

text \<open>\<open>cname_winner\<close>: the name the sub-resolution shows, unless it has none.\<close>

definition cname_winner :: "source \<Rightarrow> upstream_answer list \<Rightarrow> source" where
  "cname_winner sub_up cname_res =
     (if sub_up = NoSource \<or> sub_up = Upstream [] then Upstream (winner_of cname_res) else sub_up)"

fun label_loop :: "nat \<Rightarrow> str list \<Rightarrow> bool" where
  "label_loop wire_len [] \<longleftrightarrow> False"
| "label_loop wire_len (lab # labs) \<longleftrightarrow>
     (let wire_len = wire_len + 1 + length lab in if length lab > 63 \<or> wire_len > 255 then True else label_loop wire_len labs)"

definition label_invalid :: "str \<Rightarrow> bool" where
  "label_invalid d \<longleftrightarrow> label_loop 1 (split_byte 46 d)"

fun record_dns_verdicts :: "upstream_answer list \<Rightarrow> health \<Rightarrow> health" where
  "record_dns_verdicts [] h = h"
| "record_dns_verdicts (r # rs) h =
     (if ua_up r = [] then record_dns_verdicts rs h
      else
        let good = ((ua_rcode r = Some 0 \<or> ua_rcode r = Some 3) \<and> \<not> ua_truncated r); (st, h) = health_stats (ua_up r) h in
        record_dns_verdicts rs (AList.update (ua_up r) (record_dns_verdict good st) h))"

subsection \<open>Nonexistent names\<close>

definition rfc8020_register :: "str \<Rightarrow> u32 \<Rightarrow> ('c, 're, 'l) resolver \<Rightarrow> ('c, 're, 'l) resolver" where
  "rfc8020_register d t s =
     (let cfg = rs_cfg s in
      if \<not> cf_rfc8020_infer cfg then s
      else
        let t = neg_ttl_cap cfg t in
        if t = 0 then s
        else case nx_register (st_epoch s) d (Fin (st_epoch s + u32_real t)) (rs_gen s) (cf_rfc8020_max_labels cfg) (rs_nx s) of
               (changed, m) \<Rightarrow> s\<lparr>rs_nx := m, rs_nx_regs := (if changed then rs_nx_regs s + 1 else rs_nx_regs s)\<rparr>)"

definition rfc8020_lookup :: "str \<Rightarrow> ('c, 're, 'l) resolver \<Rightarrow> nx_hit option \<times> ('c, 're, 'l) resolver" where
  "rfc8020_lookup d s =
     (let cfg = rs_cfg s in
      if \<not> cf_rfc8020_infer cfg then (None, s)
      else case nx_lookup (st_epoch s) d (rs_gen s) False 0 (cf_rfc8020_max_labels cfg) (rs_nx s) of
             (h, m) \<Rightarrow> (h, s\<lparr>rs_nx := m\<rparr>))"

definition rfc8020_rule_bypass ::
  "('c, 're, 'l) world \<Rightarrow> str \<Rightarrow> ('c, 're, 'l) resolver \<Rightarrow> bool \<times> ('c, 're, 'l) resolver" where
  "rfc8020_rule_bypass W d s =
     (case rs_match_rule W d s of
        (m, s) \<Rightarrow> (case m of Some r \<Rightarrow> ru_action r = Block \<or> ru_action r = ForceIp | None \<Rightarrow> False, s))"

subsection \<open>Refreshing stale answers\<close>

definition trigger_stale_refresh :: "str \<Rightarrow> str \<Rightarrow> ('c, 're, 'l) resolver \<Rightarrow> ('c, 're, 'l) resolver" where
  "trigger_stale_refresh d qtype s =
     (let key = d @ [124] @ qtype in
      if key \<in> rs_refreshing s then s
      else s\<lparr>rs_refreshing := insert key (rs_refreshing s), rs_refreshes := rs_refreshes s @ [(d, qtype)]\<rparr>)"

text \<open>The guard of the spawned task clears the mark when the task ends.\<close>

definition stale_guard_drop :: "str \<Rightarrow> ('c, 're, 'l) resolver \<Rightarrow> ('c, 're, 'l) resolver" where
  "stale_guard_drop key s = s\<lparr>rs_refreshing := rs_refreshing s - {key}\<rparr>"

definition rfc8020_serve ::
  "str \<Rightarrow> str \<Rightarrow> nx_hit \<Rightarrow> ('c, 're, 'l) resolver \<Rightarrow> resolve_result \<times> ('c, 're, 'l) resolver" where
  "rfc8020_serve d qtype hit s =
     (let s = s\<lparr>rs_nx_hits := rs_nx_hits s + 1\<rparr>;
          s = (if nh_stale hit then trigger_stale_refresh d qtype s else s) in
      ((result0 d qtype)\<lparr>rr_rcode := RCODE_NXDOMAIN, rr_hit := True, rr_ttl_left := nh_ttl_left hit, rr_source := Inferred\<rparr>, s))"

subsection \<open>The local policy on AAAA\<close>

datatype aaaa_policy = Ipv6Disabled | PreferIpv4 | PreferIpv4Probe

definition aaaa_policy_cached ::
  "('c, 're, 'l) world \<Rightarrow> str \<Rightarrow> str \<Rightarrow> real \<Rightarrow> ('c, 're, 'l) resolver \<Rightarrow> aaaa_policy option \<times> ('c, 're, 'l) resolver" where
  "aaaa_policy_cached W d qtype now s =
     (let cfg = rs_cfg s in
      if qtype \<noteq> lit ''AAAA'' then (None, s)
      else if \<not> cf_ipv6 cfg then (Some Ipv6Disabled, s)
      else if cf_prefer_ipv4 cfg then
        (case rs_cache_get W (ckey_normalized d (lit ''A'')) now s of
           (Some e, s) \<Rightarrow> (if ce_rcode e = RCODE_NOERROR \<and> ce_answers e \<noteq> [] then Some PreferIpv4 else None, s)
         | (None, s) \<Rightarrow> (Some PreferIpv4Probe, s))
      else (None, s))"

end
