(* ===== verification/Resolve.thy ===== *)
theory Resolve
  imports Resolver_State
begin

text \<open>
  \<open>resolve\<close> of \<open>ebpdns-resolver/src/resolve.rs\<close>: the whole path of a query from the cache over the rules and the waves of
  queries to the verdict and what is written back.  A resolution calls itself for the target of an alias, eight levels
  deep at most, so it is a function of the number of levels that are left.
\<close>

datatype upstream_mode = Multi | Single

record resolve_opts =
  ro_force_refresh :: bool
  ro_depth :: nat
  ro_ttl_cap :: "f64 option"

definition opts0 :: resolve_opts where
  "opts0 = \<lparr>ro_force_refresh = False, ro_depth = 0, ro_ttl_cap = None\<rparr>"

definition cache_key_id :: "cache_key \<Rightarrow> str" where
  "cache_key_id k = (case key_group k of Some g \<Rightarrow> g | None \<Rightarrow> []) @ [124] @ key_domain k @ [124] @ key_qtype k"

definition single_flight_key :: "cache_key \<Rightarrow> upstream_mode \<Rightarrow> str" where
  "single_flight_key k mode = cache_key_id k @ [35] @ (if mode = Single then lit ''single'' else lit ''multi'')"

subsection \<open>Asking the upstreams\<close>

definition need_more_votes :: "nat \<Rightarrow> upstream_answer list \<Rightarrow> bool" where
  "need_more_votes q rs \<longleftrightarrow>
     \<not> (\<exists>r\<in>set rs. ua_answers r \<noteq> [] \<and> \<not> ua_truncated r) \<and> length (filter is_negative_answer rs) < max q 1"

definition all_truly_failed :: "upstream_answer list \<Rightarrow> bool" where
  "all_truly_failed rs \<longleftrightarrow> (\<forall>r\<in>set rs. ua_answers r = [] \<and> \<not> (ua_rcode r = Some 0 \<or> ua_rcode r = Some 3))"

fun extra_waves ::
  "('c, 're, 'l) world \<Rightarrow> upstream_cfg list \<Rightarrow> str \<Rightarrow> str \<Rightarrow> nat \<Rightarrow> nat \<Rightarrow> nat \<Rightarrow> nat \<Rightarrow> upstream_answer list
     \<Rightarrow> ('c, 're, 'l) resolver \<Rightarrow> upstream_answer list \<times> ('c, 're, 'l) resolver" where
  "extra_waves W ups d qtype depth max_par q 0 results s = (results, s)"
| "extra_waves W ups d qtype depth max_par q (Suc n) results s =
     (if results \<noteq> [] \<and> (\<forall>r\<in>set results. ua_answers r = [] \<and> ua_cnames r = []) \<and> need_more_votes q results then
        let wave = take max_par (filter (\<lambda>u. up_id u \<notin> ua_up ` set results) ups) in
        if wave = [] then (results, s)
        else case wo_query W wave d qtype depth s of
               (others, s) \<Rightarrow> extra_waves W ups d qtype depth max_par q n (results @ others) s
      else (results, s))"

definition fetch_upstreams ::
  "('c, 're, 'l) world \<Rightarrow> upstream_cfg list \<Rightarrow> upstream_cfg list \<Rightarrow> upstream_cfg list \<Rightarrow> str \<Rightarrow> str \<Rightarrow> nat \<Rightarrow> bool \<Rightarrow> nat \<Rightarrow> nat
     \<Rightarrow> ('c, 're, 'l) resolver \<Rightarrow> upstream_answer list \<times> ('c, 're, 'l) resolver" where
  "fetch_upstreams W primary backup ups d qtype depth single max_par q s =
     (let (results, s) = wo_query W primary d qtype depth s;
          (results, s) =
            (if results \<noteq> [] \<and> backup \<noteq> [] \<and> (all_truly_failed results \<or> need_more_votes q results) then
               case wo_query W backup d qtype depth s of (others, s) \<Rightarrow> (results @ others, s)
             else (results, s)) in
      extra_waves W ups d qtype depth max_par q (if single then 0 else 2) results s)"

subsection \<open>Serving from the cache\<close>

definition ip_text :: "ip_addr option \<Rightarrow> str" where
  "ip_text ip = (case ip of None \<Rightarrow> [] | Some (V4 v) \<Rightarrow> ip4_show v | Some (V6 v) \<Rightarrow> ip6_show v)"

definition synthesize_forceip ::
  "('c, 're, 'l) world \<Rightarrow> str \<Rightarrow> str \<Rightarrow> rule \<Rightarrow> cache_key \<Rightarrow> real \<Rightarrow> u64 \<Rightarrow> f64 option \<Rightarrow> ('c, 're, 'l) resolver
     \<Rightarrow> resolve_result \<times> ('c, 're, 'l) resolver" where
  "synthesize_forceip W d qtype rule key t0 gen ttl_cap s =
     (let ip = ip_text (ru_ip rule); cfg = rs_cfg s; r0 = (result0 d qtype)\<lparr>rr_latency := st_mono s - t0\<rparr> in
      case qtype_code qtype of
        None \<Rightarrow> (r0\<lparr>rr_rcode := RCODE_NOTIMP, rr_empty := True\<rparr>, s)
      | Some qcode \<Rightarrow>
          let rtype = guess_type ip qcode in
          if rtype \<noteq> qcode then
            let neg = neg_ttl_cap cfg (clamp_ttl3 (clamp_1_60 (cf_ttl cfg)) (cf_ttl_min cfg) (cf_ttl_max cfg)) in
            (r0\<lparr>rr_empty := True, rr_ttl_left := u32_real neg,
                rr_rule := Some \<lparr>rh_match = ru_match rule, rh_effect = ForcedMismatch, rh_answer = []\<rparr>\<rparr>,
             put_negative W key d qtype RCODE_NOERROR neg (Some gen) s)
          else
            let rttl = clamp_ttl3 (cf_ttl cfg) (cf_ttl_min cfg) (cf_ttl_max cfg);
                ans = [\<lparr>rv_value = ip, rv_ttl = u32_real rttl, rv_rtype = rtype, rv_name = None\<rparr>] in
            (r0\<lparr>rr_chosen := ip, rr_answers := ans, rr_ttl_left := u32_real rttl,
                rr_rule := Some \<lparr>rh_match = ru_match rule, rh_effect = Forced, rh_answer = ip\<rparr>\<rparr>,
             fill_cache_capped W key d qtype ans (Some gen) ttl_cap s))"

definition ttl_left_of :: "cache_entry \<Rightarrow> real \<Rightarrow> real" where
  "ttl_left_of e now = max 0 (min 2147483647 (ce_expires_at e - now))"

definition blocked_result :: "str \<Rightarrow> str \<Rightarrow> rule \<Rightarrow> real \<Rightarrow> resolve_result" where
  "blocked_result d qtype r lat =
     (result0 d qtype)\<lparr>rr_rcode := RCODE_NXDOMAIN, rr_latency := lat,
       rr_rule := Some \<lparr>rh_match = ru_match r, rh_effect = Blocked, rh_answer = []\<rparr>\<rparr>"

text \<open>The answer an entry gives: a negative one, or its answers with the lifetime \<open>left\<close>.\<close>

definition entry_result :: "str \<Rightarrow> str \<Rightarrow> cache_entry \<Rightarrow> real \<Rightarrow> real \<Rightarrow> source \<Rightarrow> resolve_result" where
  "entry_result d qtype e left lat src =
     (let r = (result0 d qtype)\<lparr>rr_hit := True, rr_latency := lat, rr_ttl_left := left, rr_source := src\<rparr> in
      if ce_rcode e = RCODE_NXDOMAIN then r\<lparr>rr_rcode := RCODE_NXDOMAIN\<rparr>
      else if ce_answers e = [] then r\<lparr>rr_empty := True\<rparr>
      else r\<lparr>rr_chosen := ce_chosen e, rr_answers := map (serve_answer left) (ce_answers e)\<rparr>)"

definition serve_from_cache ::
  "('c, 're, 'l) world \<Rightarrow> str \<Rightarrow> str \<Rightarrow> cache_entry \<Rightarrow> real \<Rightarrow> ('c, 're, 'l) resolver
     \<Rightarrow> resolve_result \<times> ('c, 're, 'l) resolver" where
  "serve_from_cache W d qtype e t0 s =
     (let (m, s) = rs_match_rule W d s;
          go = (let left = ttl_left_of e (st_epoch s);
                    s' = (if ce_rcode e \<noteq> RCODE_NXDOMAIN \<and> ce_answers e \<noteq> [] then schedule_prefetch d qtype (Fin left) s else s) in
                (entry_result d qtype e left (st_mono s - t0) CacheDirect, s')) in
      case m of
        None \<Rightarrow> go
      | Some r \<Rightarrow>
          if ru_action r = Block then (blocked_result d qtype r (st_mono s - t0), s)
          else if ru_action r = ForceIp
          then synthesize_forceip W d qtype r (ckey_normalized d qtype) t0 (rs_gen s) None s
          else go)"

definition serve_stale_from_cache ::
  "('c, 're, 'l) world \<Rightarrow> str \<Rightarrow> str \<Rightarrow> cache_entry \<Rightarrow> real \<Rightarrow> ('c, 're, 'l) resolver
     \<Rightarrow> resolve_result \<times> ('c, 're, 'l) resolver" where
  "serve_stale_from_cache W d qtype e t0 s =
     (let (m, s) = rs_match_rule W d s in
      case m of
        Some r \<Rightarrow> if ru_action r = Block then (blocked_result d qtype r (st_mono s - t0), s)
                  else (entry_result d qtype e 0 (st_mono s - t0) ServeStale, s)
      | None \<Rightarrow> (entry_result d qtype e 0 (st_mono s - t0) ServeStale, s))"

text \<open>The part of \<open>resolve_inner\<close> that may answer without the upstreams; \<open>None\<close> goes on to the rules.\<close>

definition from_stale ::
  "('c, 're, 'l) world \<Rightarrow> str \<Rightarrow> str \<Rightarrow> cache_key \<Rightarrow> real \<Rightarrow> f64 \<Rightarrow> u64 \<Rightarrow> real \<Rightarrow> ('c, 're, 'l) resolver
     \<Rightarrow> resolve_result option \<times> ('c, 're, 'l) resolver" where
  "from_stale W d qtype key now w gen_now t0 s =
     (case rs_cache_get_stale W key now w s of
        (None, s) \<Rightarrow> (None, s)
      | (Some e, s) \<Rightarrow>
          if ce_rule_gen e \<noteq> gen_now then (None, rs_cache_delete W key s)
          else if is_negative_entry e then (None, rs_cache_delete W key s)
          else case serve_stale_from_cache W d qtype e t0 (trigger_stale_refresh d qtype s) of (r, s) \<Rightarrow> (Some r, s))"

definition from_fresh ::
  "('c, 're, 'l) world \<Rightarrow> str \<Rightarrow> str \<Rightarrow> cache_key \<Rightarrow> real \<Rightarrow> u64 \<Rightarrow> real \<Rightarrow> ('c, 're, 'l) resolver
     \<Rightarrow> resolve_result option \<times> ('c, 're, 'l) resolver" where
  "from_fresh W d qtype key now gen_now t0 s =
     (case rs_cache_get W key now s of
        (None, s) \<Rightarrow> (None, s)
      | (Some e, s) \<Rightarrow>
          if ce_rule_gen e \<noteq> gen_now then (None, rs_cache_delete W key s)
          else case serve_from_cache W d qtype e t0 s of (r, s) \<Rightarrow> (Some r, s))"

definition from_inference ::
  "('c, 're, 'l) world \<Rightarrow> str \<Rightarrow> str \<Rightarrow> ('c, 're, 'l) resolver \<Rightarrow> resolve_result option \<times> ('c, 're, 'l) resolver" where
  "from_inference W d qtype s =
     (case rfc8020_lookup d s of
        (None, s) \<Rightarrow> (None, s)
      | (Some h, s) \<Rightarrow>
          (case rfc8020_rule_bypass W d s of
             (True, s) \<Rightarrow> (None, s)
           | (False, s) \<Rightarrow> (case rfc8020_serve d qtype h s of (r, s) \<Rightarrow> (Some r, s))))"

definition from_cache ::
  "('c, 're, 'l) world \<Rightarrow> str \<Rightarrow> str \<Rightarrow> cache_key \<Rightarrow> bool \<Rightarrow> f64 \<Rightarrow> real \<Rightarrow> real \<Rightarrow> ('c, 're, 'l) resolver
     \<Rightarrow> resolve_result option \<times> ('c, 're, 'l) resolver" where
  "from_cache W d qtype key serve_stale stale_ttl now t0 s =
     (let gen_now = rs_gen s in
      case (if serve_stale then from_stale W d qtype key now stale_ttl gen_now t0 s else (None, s)) of
        (Some r, s) \<Rightarrow> (Some r, s)
      | (None, s) \<Rightarrow>
          (case from_fresh W d qtype key now gen_now t0 s of
             (Some r, s) \<Rightarrow> (Some r, s)
           | (None, s) \<Rightarrow> from_inference W d qtype s))"

subsection \<open>The verdict on the answers\<close>

definition feed_breaker :: "upstream_mode \<Rightarrow> upstream_answer \<Rightarrow> ('c, 're, 'l) resolver \<Rightarrow> ('c, 're, 'l) resolver" where
  "feed_breaker mode r s =
     (let good = (ua_rcode r = Some RCODE_NOERROR \<or> ua_rcode r = Some RCODE_NXDOMAIN) in
      if mode = Single then (if good then snd (cb_probe_ok (ua_up r) s) else snd (cb_probe_fail (ua_up r) s))
      else if good then cb_ok (ua_up r) s
      else cb_fail (ua_up r) s)"

text \<open>What the resolver knows about the query while it judges the answers.\<close>

record query_ctx =
  qc_name :: str
  qc_type :: str
  qc_key :: cache_key
  qc_depth :: nat
  qc_start :: real
  qc_gen :: u64
  qc_mode :: upstream_mode
  qc_candidates :: nat
  qc_quorum :: nat
  qc_prefetch :: bool
  qc_ttl_cap :: "f64 option"

definition quorum_threshold :: "nat \<Rightarrow> nat" where "quorum_threshold q = max q 1"

text \<open>The number of different upstreams among some answers (a \<open>HashSet\<close> of their ids).\<close>

definition sources_of :: "upstream_answer list \<Rightarrow> nat" where
  "sources_of rs = length (remdups (map ua_up rs))"

definition ctx_result :: "query_ctx \<Rightarrow> ('c, 're, 'l) resolver \<Rightarrow> resolve_result" where
  "ctx_result x s = (result0 (qc_name x) (qc_type x))\<lparr>rr_latency := st_mono s - qc_start x\<rparr>"

definition note_single_vote ::
  "nat \<Rightarrow> nat \<Rightarrow> upstream_answer list \<Rightarrow> ('c, 're, 'l) resolver \<Rightarrow> ('c, 're, 'l) resolver" where
  "note_single_vote quorum votes results s =
     (if quorum = 1 \<and> votes = 1 \<and> length (filter is_valid_vote results) = 1
      then s\<lparr>rs_single_votes := rs_single_votes s + 1\<rparr> else s)"

definition confirm_nxdomain ::
  "('c, 're, 'l) world \<Rightarrow> query_ctx \<Rightarrow> upstream_answer list \<Rightarrow> upstream_answer list \<Rightarrow> ('c, 're, 'l) resolver
     \<Rightarrow> resolve_result \<times> ('c, 're, 'l) resolver" where
  "confirm_nxdomain W x nx results s =
     (let s = note_single_vote (quorum_threshold (qc_quorum x)) (sources_of nx) results s;
          neg = neg_ttl_of (rs_cfg s) nx;
          s = (if qc_prefetch x then s
               else rfc8020_register (qc_name x) neg
                      (put_negative W (qc_key x) (qc_name x) (qc_type x) RCODE_NXDOMAIN neg (Some (qc_gen x)) s)) in
      ((ctx_result x s)\<lparr>rr_rcode := RCODE_NXDOMAIN, rr_ttl_left := u32_real neg, rr_source := Upstream (winner_of nx)\<rparr>, s))"

text \<open>Along an alias: \<open>sub\<close> resolves its target; \<open>None\<close> when the result says nothing.\<close>

definition follow_cname ::
  "('c, 're, 'l) world \<Rightarrow> (str \<Rightarrow> ('c, 're, 'l) resolver \<Rightarrow> resolve_result \<times> ('c, 're, 'l) resolver) \<Rightarrow> query_ctx
     \<Rightarrow> upstream_answer list \<Rightarrow> ('c, 're, 'l) resolver \<Rightarrow> resolve_result option \<times> ('c, 're, 'l) resolver" where
  "follow_cname W sub x cname_res s =
     (let (tgt, tgt_ttl) = hd (ua_cnames (hd cname_res));
          (sr, s) = sub tgt s;
          src = cname_winner (rr_source sr) cname_res in
      if \<not> rr_error sr \<and> rr_answers sr \<noteq> [] \<and> \<not> rr_truncated sr then
        let answers = \<lparr>rv_value = tgt, rv_ttl = u32_real tgt_ttl, rv_rtype = TYPE_CNAME, rv_name = None\<rparr>
              # map (\<lambda>a. if rv_name a = None then rv_with_name tgt a else a) (rr_answers sr);
            s = fill_cache_capped W (qc_key x) (qc_name x) (qc_type x) answers (Some (qc_gen x)) (qc_ttl_cap x) s in
        (Some ((ctx_result x s)\<lparr>rr_answers := answers, rr_chosen := rv_value (last answers), rr_source := src\<rparr>), s)
      else if rr_rcode sr = RCODE_NXDOMAIN then
        let neg = neg_ttl_of_sub (rs_cfg s) sr;
            s = put_negative W (qc_key x) (qc_name x) (qc_type x) RCODE_NXDOMAIN (f64_to_u32 neg) (Some (qc_gen x)) s in
        (Some ((ctx_result x s)\<lparr>rr_rcode := RCODE_NXDOMAIN, rr_ttl_left := neg, rr_source := src\<rparr>), s)
      else if rr_truncated sr \<or> rr_error sr then
        (Some ((ctx_result x s)\<lparr>rr_rcode := rr_rcode sr, rr_error := rr_error sr, rr_truncated := rr_truncated sr,
                 rr_source := src\<rparr>), s)
      else if rr_rcode sr = RCODE_NOERROR then
        let neg = (if rr_ttl_left sr \<le> 0 then u32_real (clamp_1_60 (cf_ttl (rs_cfg s))) else rr_ttl_left sr);
            s = put_negative W (qc_key x) (qc_name x) (qc_type x) RCODE_NOERROR (f64_to_u32 neg) (Some (qc_gen x)) s in
        (Some ((ctx_result x s)\<lparr>rr_empty := True, rr_ttl_left := neg, rr_source := src\<rparr>), s)
      else (None, s))"

text \<open>The A records asked for beside an AAAA query: before it (\<open>probe_a_record\<close>) and after it (\<open>ipv4_fallback\<close>).\<close>

definition enabled_ups :: "('c, 're, 'l) resolver \<Rightarrow> upstream_cfg list" where
  "enabled_ups s = filter up_enabled (cf_upstreams (rs_cfg s))"

definition complete_answers :: "upstream_answer list \<Rightarrow> upstream_answer list" where
  "complete_answers results = filter (\<lambda>r. ua_answers r \<noteq> [] \<and> \<not> ua_truncated r) results"

definition public_answers :: "('c, 're, 'l) resolver \<Rightarrow> resolve_answer list \<Rightarrow> resolve_answer list" where
  "public_answers s ans = (if cf_rebind_protection (rs_cfg s) then filter (\<lambda>a. \<not> is_private_ip (rv_value a)) ans else ans)"

text \<open>The upstreams of such a query, and its answers.\<close>

definition query_a ::
  "('c, 're, 'l) world \<Rightarrow> str \<Rightarrow> upstream_mode \<Rightarrow> ('c, 're, 'l) resolver \<Rightarrow> resolve_answer list \<times> ('c, 're, 'l) resolver" where
  "query_a W d mode s =
     (let ups = enabled_ups s in
      if ups = [] then ([], s)
      else
        let (ups, s) = query_targets (rs_cfg s) ups (mode = Single) s in
        if ups = [] then ([], s)
        else case wo_query W ups d (lit ''A'') 0 s of
               (results, s) \<Rightarrow>
                 (let ok = complete_answers results in
                  if ok = [] then ([], s) else (public_answers s (dedup_answers ok), s)))"

definition probe_a_record ::
  "('c, 're, 'l) world \<Rightarrow> str \<Rightarrow> upstream_mode \<Rightarrow> ('c, 're, 'l) resolver \<Rightarrow> bool \<times> ('c, 're, 'l) resolver" where
  "probe_a_record W d mode s =
     (let key = ckey_normalized d (lit ''A'') in
      case rs_cache_get W key (st_epoch s) s of
        (Some e, s) \<Rightarrow> (ce_rcode e = RCODE_NOERROR \<and> ce_answers e \<noteq> [], s)
      | (None, s) \<Rightarrow>
          (case query_a W d mode s of
             (ans, s) \<Rightarrow>
               (if ans = [] then (False, s)
                else (True, fill_cache_capped W key d (lit ''A'') ans (Some (rs_gen s)) None s))))"

definition ipv4_fallback ::
  "('c, 're, 'l) world \<Rightarrow> str \<Rightarrow> u64 \<Rightarrow> upstream_mode \<Rightarrow> f64 option \<Rightarrow> ('c, 're, 'l) resolver
     \<Rightarrow> resolve_answer list option \<times> ('c, 're, 'l) resolver" where
  "ipv4_fallback W d gen mode ttl_cap s =
     (let key = ckey_normalized d (lit ''A'');
          ask = (\<lambda>s. case query_a W d mode s of
                   (ans, s) \<Rightarrow>
                     (if ans = [] then (None, s)
                      else (Some ans, fill_cache_capped W key d (lit ''A'') ans (Some gen) ttl_cap s))) in
      case rs_cache_get W key (st_epoch s) s of
        (Some e, s) \<Rightarrow>
          (if ce_answers e \<noteq> []
           then (Some (map (\<lambda>a. \<lparr>rv_value = ca_value a, rv_ttl = ca_ttl a, rv_rtype = ca_rtype a, rv_name = None\<rparr>) (ce_answers e)), s)
           else ask s)
      | (None, s) \<Rightarrow> ask s)"

subsection \<open>Negative answers and failures\<close>

definition finish_failed ::
  "query_ctx \<Rightarrow> upstream_answer list \<Rightarrow> ('c, 're, 'l) resolver \<Rightarrow> resolve_result \<times> ('c, 're, 'l) resolver" where
  "finish_failed x results s =
     ((error_result (qc_name x) (qc_type x) NoAnswer)\<lparr>rr_latency := st_mono s - qc_start x,
        rr_servfail := Some (servfail_reason_of (rs_cfg s) results), rr_source := Upstream (winner_of results)\<rparr>, s)"

definition nodata_votes :: "query_ctx \<Rightarrow> upstream_answer list \<Rightarrow> upstream_answer list" where
  "nodata_votes x results =
     (let nodata = filter (\<lambda>r. ua_rcode r = Some RCODE_NOERROR \<and> \<not> ua_truncated r \<and> ua_cnames r = []) results;
          ndq = quorum_threshold (qc_quorum x) in
      if qc_candidates x \<ge> ndq \<and> sources_of nodata \<ge> ndq then nodata else [])"

definition finish_nodata ::
  "('c, 're, 'l) world \<Rightarrow> query_ctx \<Rightarrow> upstream_answer list \<Rightarrow> ('c, 're, 'l) resolver
     \<Rightarrow> resolve_result \<times> ('c, 're, 'l) resolver" where
  "finish_nodata W x results s =
     (let nodata = nodata_votes x results in
      if nodata = [] then finish_failed x results s
      else
        let s = note_single_vote (quorum_threshold (qc_quorum x)) (length nodata) results s;
            s = (if qc_type x = lit ''AAAA'' \<and> cf_ipv4_first (rs_cfg s)
                 then snd (ipv4_fallback W (qc_name x) (qc_gen x) (qc_mode x) (qc_ttl_cap x) s) else s);
            neg = neg_ttl_of (rs_cfg s) nodata;
            s = (if qc_prefetch x then s
                 else put_negative W (qc_key x) (qc_name x) (qc_type x) RCODE_NOERROR neg (Some (qc_gen x)) s) in
        ((ctx_result x s)\<lparr>rr_empty := True, rr_ttl_left := u32_real neg, rr_source := Upstream (winner_of nodata)\<rparr>, s))"

definition nx_votes :: "upstream_answer list \<Rightarrow> upstream_answer list" where
  "nx_votes results = filter (\<lambda>r. ua_rcode r = Some RCODE_NXDOMAIN) results"

definition finish_negative ::
  "('c, 're, 'l) world \<Rightarrow> (str \<Rightarrow> ('c, 're, 'l) resolver \<Rightarrow> resolve_result \<times> ('c, 're, 'l) resolver) \<Rightarrow> query_ctx
     \<Rightarrow> upstream_answer list \<Rightarrow> ('c, 're, 'l) resolver \<Rightarrow> resolve_result \<times> ('c, 're, 'l) resolver" where
  "finish_negative W sub x results s =
     (let truncated = filter (\<lambda>r. ua_truncated r \<and> ua_answers r \<noteq> []) results in
      if truncated \<noteq> [] then
        ((ctx_result x s)\<lparr>rr_answers := dedup_answers truncated, rr_truncated := True,
            rr_source := Upstream (winner_of truncated)\<rparr>, s)
      else
        let nx = nx_votes results; nxq = quorum_threshold (qc_quorum x) in
        if qc_candidates x \<ge> nxq \<and> sources_of nx \<ge> nxq then confirm_nxdomain W x nx results s
        else
          let cname_res = filter (\<lambda>r. ua_cnames r \<noteq> []) results in
          if cname_res \<noteq> [] \<and> (qc_type x = lit ''A'' \<or> qc_type x = lit ''AAAA'') \<and> qc_depth x < MAX_DEPTH then
            (case follow_cname W sub x cname_res s of
               (Some r, s) \<Rightarrow> (r, s)
             | (None, s) \<Rightarrow> finish_nodata W x results s)
          else finish_nodata W x results s)"

subsection \<open>Complete answers\<close>

record cand_entry =
  cd_value :: str
  cd_ttl :: real
  cd_rtype :: u16
  cd_static_lat :: real
  cd_probe :: "str option"

definition add_cand :: "f64 \<Rightarrow> resolve_answer \<Rightarrow> cand_entry list \<Rightarrow> cand_entry list" where
  "add_cand lat a cands =
     (if \<exists>c\<in>set cands. cd_value c = rv_value a then
        map (\<lambda>c. if cd_value c = rv_value a then c\<lparr>cd_ttl := min (cd_ttl c) (rv_ttl a)\<rparr> else c) cands
      else cands @ [\<lparr>cd_value = rv_value a, cd_ttl = rv_ttl a, cd_rtype = rv_rtype a,
                     cd_static_lat = (case lat of Fin l \<Rightarrow> l | _ \<Rightarrow> 999), cd_probe = None\<rparr>])"

definition candidates_of :: "upstream_answer list \<Rightarrow> cand_entry list" where
  "candidates_of ok = fold (\<lambda>r. fold (add_cand (ua_lat r)) (ua_answers r)) ok []"

definition proto_probe :: "upstream_cfg \<Rightarrow> str" where
  "proto_probe u =
     (if ascii_lower (up_proto u) \<in> {lit ''doh'', lit ''dot'', lit ''doq'', lit ''doh3''} then lit ''tcp443'' else lit ''udp53'')"

text \<open>The mode of the probe an upstream's answers get: \<open>proto_of\<close> keeps the last upstream of an id.\<close>

definition probe_of :: "'a policy_cfg_scheme \<Rightarrow> str \<Rightarrow> str" where
  "probe_of cfg up =
     (let over = ascii_lower (cf_ip_speed_probe cfg) in
      if over = lit ''udp53'' \<or> over = lit ''tcp443'' then over
      else case find (\<lambda>u. up_id u = up) (rev (cf_upstreams cfg)) of Some u \<Rightarrow> proto_probe u | None \<Rightarrow> lit ''udp53'')"

definition mark_probe :: "str \<Rightarrow> resolve_answer \<Rightarrow> cand_entry list \<Rightarrow> cand_entry list" where
  "mark_probe p a cands =
     map (\<lambda>c. if cd_value c = rv_value a \<and> cd_probe c = None then c\<lparr>cd_probe := Some p\<rparr> else c) (take SPEED_SORT_WINDOW cands)
       @ drop SPEED_SORT_WINDOW cands"

definition mark_probes :: "'a policy_cfg_scheme \<Rightarrow> upstream_answer list \<Rightarrow> cand_entry list \<Rightarrow> cand_entry list" where
  "mark_probes cfg ok cands = fold (\<lambda>r. fold (mark_probe (probe_of cfg (ua_up r))) (ua_answers r)) ok cands"

definition cand_answer :: "cand_entry \<Rightarrow> resolve_answer" where
  "cand_answer c = \<lparr>rv_value = cd_value c, rv_ttl = cd_ttl c, rv_rtype = cd_rtype c, rv_name = None\<rparr>"

definition cand_hint :: "cand_entry \<Rightarrow> speed_hint" where
  "cand_hint c = \<lparr>sh_static_lat = cd_static_lat c, sh_probe = (case cd_probe c of Some p \<Rightarrow> p | None \<Rightarrow> lit ''udp53'')\<rparr>"

definition exempt :: "upstream_answer list \<Rightarrow> str \<Rightarrow> bool" where
  "exempt ok v \<longleftrightarrow> (\<exists>r\<in>set ok. ua_allow_private r \<and> (\<exists>a\<in>set (ua_answers r). rv_value a = v))"

text \<open>The candidates behind the rebind protection, and whether it is on for the query.\<close>

definition rebind_on :: "'a policy_cfg_scheme \<Rightarrow> str \<Rightarrow> rule option \<Rightarrow> bool" where
  "rebind_on cfg qtype rule \<longleftrightarrow>
     cf_rebind_protection cfg \<and> (qtype = lit ''A'' \<or> qtype = lit ''AAAA'')
     \<and> \<not> (case rule of Some r \<Rightarrow> ru_action r = ForceIp | None \<Rightarrow> False)"

definition admitted :: "upstream_answer list \<Rightarrow> cand_entry list \<Rightarrow> cand_entry list" where
  "admitted ok cands = filter (\<lambda>c. exempt ok (cd_value c) \<or> \<not> is_private_ip (cd_value c)) cands"

definition speed_gate :: "'a policy_cfg_scheme \<Rightarrow> upstream_answer list \<Rightarrow> bool" where
  "speed_gate cfg ok \<longleftrightarrow> cf_speed_test cfg \<and> cf_ip_speed_check cfg \<and> length (candidates_of ok) > 1"

definition probed_cands :: "'a policy_cfg_scheme \<Rightarrow> upstream_answer list \<Rightarrow> cand_entry list" where
  "probed_cands cfg ok = (if speed_gate cfg ok then mark_probes cfg ok (candidates_of ok) else candidates_of ok)"

definition kept_cands :: "'a policy_cfg_scheme \<Rightarrow> str \<Rightarrow> rule option \<Rightarrow> upstream_answer list \<Rightarrow> cand_entry list" where
  "kept_cands cfg qtype rule ok =
     (if rebind_on cfg qtype rule then admitted ok (probed_cands cfg ok) else probed_cands cfg ok)"

definition order_cands ::
  "('c, 're, 'l) world \<Rightarrow> str \<Rightarrow> upstream_answer list \<Rightarrow> cand_entry list \<Rightarrow> ('c, 're, 'l) resolver
     \<Rightarrow> resolve_answer list \<times> ('c, 're, 'l) resolver" where
  "order_cands W d ok kept s =
     (if speed_gate (rs_cfg s) ok \<and> length kept > 1
      then speed_sort (rs_cfg s) (wo_draw W s) (map cand_answer kept) (map cand_hint kept) d s
      else (map cand_answer kept, s))"

definition finish_positive ::
  "('c, 're, 'l) world \<Rightarrow> query_ctx \<Rightarrow> upstream_answer list \<Rightarrow> rule option \<Rightarrow> ('c, 're, 'l) resolver
     \<Rightarrow> resolve_result \<times> ('c, 're, 'l) resolver" where
  "finish_positive W x ok rule s =
     (let cfg = rs_cfg s; kept = kept_cands cfg (qc_type x) rule ok;
          filtered = word_of_nat (min (length (candidates_of ok) - length kept) 4294967295) in
      if rebind_on cfg (qc_type x) rule \<and> kept = [] then
        ((ctx_result x s)\<lparr>rr_empty := True, rr_source := Upstream (winner_of ok), rr_private_filtered := filtered\<rparr>, s)
      else
        let (answers, s) = order_cands W (qc_name x) ok kept s;
            chosen = (case answers of a # _ \<Rightarrow> rv_value a | [] \<Rightarrow> []);
            s = fill_cache_capped W (qc_key x) (qc_name x) (qc_type x) answers (Some (qc_gen x)) (qc_ttl_cap x) s;
            s = schedule_prefetch (qc_name x) (qc_type x) PosInf s in
        ((ctx_result x s)\<lparr>rr_answers := answers, rr_chosen := chosen, rr_source := Upstream (winner_up_name ok chosen),
            rr_private_filtered := filtered\<rparr>, s))"

definition finish_resolve ::
  "('c, 're, 'l) world \<Rightarrow> (str \<Rightarrow> ('c, 're, 'l) resolver \<Rightarrow> resolve_result \<times> ('c, 're, 'l) resolver) \<Rightarrow> query_ctx
     \<Rightarrow> upstream_answer list \<Rightarrow> rule option \<Rightarrow> ('c, 're, 'l) resolver \<Rightarrow> resolve_result \<times> ('c, 're, 'l) resolver" where
  "finish_resolve W sub x results rule s =
     (let s = fold (feed_breaker (qc_mode x)) results s;
          ok = complete_answers results in
      if ok = [] then finish_negative W sub x results s else finish_positive W x ok rule s)"

subsection \<open>The whole path\<close>

definition policy_result :: "str \<Rightarrow> str \<Rightarrow> real \<Rightarrow> source \<Rightarrow> resolve_result" where
  "policy_result d qtype lat src =
     (result0 d qtype)\<lparr>rr_empty := True, rr_latency := lat, rr_source := src, rr_reason := Some PolicyFiltered\<rparr>"

definition no_upstream :: "str \<Rightarrow> str \<Rightarrow> real \<Rightarrow> rule_hit option \<Rightarrow> resolve_result" where
  "no_upstream d qtype lat hit =
     (mark_servfail NoUpstream (error_result d qtype NoUpstreamReason))\<lparr>rr_latency := lat, rr_rule := hit, rr_source := NoUpstreamLeft\<rparr>"

definition group_upstreams :: "rule option \<Rightarrow> upstream_cfg list \<Rightarrow> upstream_cfg list" where
  "group_upstreams rule all_up =
     (case rule of
        Some r \<Rightarrow>
          if ru_action r = Group then
            (case ru_group r of
               Some g \<Rightarrow> let filtered = filter (\<lambda>u. up_group u = Some g) all_up in if filtered \<noteq> [] then filtered else all_up
             | None \<Rightarrow> all_up)
          else all_up
      | None \<Rightarrow> all_up)"

text \<open>The upstreams' answers with single flight: what they are, whether this caller asked, and the state then.\<close>

definition shared_fetch ::
  "('c, 're, 'l) world \<Rightarrow> query_ctx \<Rightarrow> upstream_cfg list \<Rightarrow> upstream_cfg list \<Rightarrow> upstream_cfg list \<Rightarrow> ('c, 're, 'l) resolver
     \<Rightarrow> (upstream_answer list \<times> bool) \<times> ('c, 're, 'l) resolver" where
  "shared_fetch W x primary backup ups s =
     (let fetch = (\<lambda>s. case fetch_upstreams W primary backup ups (qc_name x) (qc_type x) (qc_depth x) (qc_mode x = Single)
                         (max (cf_max_parallel (rs_cfg s)) 1) (qc_quorum x) s of (v, s) \<Rightarrow> ((v, True), s)) in
      if cf_single_flight (rs_cfg s) then
        (case wo_flight W (single_flight_key (qc_key x) (qc_mode x)) s of
           Some (v, s) \<Rightarrow> ((v, False), s)
         | None \<Rightarrow> fetch s)
      else fetch s)"

definition resolve_upstream ::
  "('c, 're, 'l) world \<Rightarrow> (str \<Rightarrow> ('c, 're, 'l) resolver \<Rightarrow> resolve_result \<times> ('c, 're, 'l) resolver) \<Rightarrow> str \<Rightarrow> str
     \<Rightarrow> resolve_opts \<Rightarrow> upstream_mode \<Rightarrow> real \<Rightarrow> u64 \<Rightarrow> rule_hit option \<Rightarrow> rule option \<Rightarrow> ('c, 're, 'l) resolver
     \<Rightarrow> resolve_result \<times> ('c, 're, 'l) resolver" where
  "resolve_upstream W sub d qtype opts mode t0 gen hit rule s =
     (let ups = group_upstreams rule (enabled_ups s) in
      if ups = [] then (no_upstream d qtype (st_mono s - t0) hit, s)
      else
        let ((primary, backup), s) =
              (if mode = Single then (case query_targets (rs_cfg s) ups True s of (p, s) \<Rightarrow> ((p, []), s))
               else select_upstreams (rs_cfg s) ups s) in
        if primary = [] then (no_upstream d qtype (st_mono s - t0) hit, s)
        else
          let quorum = (if mode = Single then 1 else max (cf_nxdomain_quorum (rs_cfg s)) 1);
              x = \<lparr>qc_name = d, qc_type = qtype, qc_key = ckey_normalized d qtype, qc_depth = ro_depth opts, qc_start = t0,
                   qc_gen = gen, qc_mode = mode, qc_candidates = 1, qc_quorum = quorum, qc_prefetch = (mode = Single),
                   qc_ttl_cap = ro_ttl_cap opts\<rparr>;
              ((results, leader), s) = shared_fetch W x primary backup ups s;
              s = (if mode \<noteq> Single \<and> leader then s\<lparr>st_health := map_option (record_dns_verdicts results) (st_health s)\<rparr> else s);
              (r, s) = finish_resolve W sub (x\<lparr>qc_candidates := max (sources_of results) 1\<rparr>) results rule s in
          (r\<lparr>rr_rule := hit\<rparr>, s))"

definition resolve_miss ::
  "('c, 're, 'l) world \<Rightarrow> (str \<Rightarrow> ('c, 're, 'l) resolver \<Rightarrow> resolve_result \<times> ('c, 're, 'l) resolver) \<Rightarrow> str \<Rightarrow> str
     \<Rightarrow> resolve_opts \<Rightarrow> upstream_mode \<Rightarrow> real \<Rightarrow> u64 \<Rightarrow> ('c, 're, 'l) resolver \<Rightarrow> resolve_result \<times> ('c, 're, 'l) resolver" where
  "resolve_miss W sub d qtype opts mode t0 gen s =
     (let key = ckey_normalized d qtype;
          (matched, s) = rs_match_rule W d s;
          hit = (case matched of
                   Some r \<Rightarrow> if ru_action r = Allow then Some \<lparr>rh_match = ru_match r, rh_effect = Allowed, rh_answer = []\<rparr>
                             else if ru_action r = Group then Some \<lparr>rh_match = ru_match r, rh_effect = Routed, rh_answer = []\<rparr>
                             else None
                 | None \<Rightarrow> None);
          rule = (case matched of Some r \<Rightarrow> if ru_action r = Allow then None else Some r | None \<Rightarrow> None) in
      case rule of
        Some r \<Rightarrow>
          if ru_action r = Block then (blocked_result d qtype r (st_mono s - t0), s)
          else if ru_action r = ForceIp then synthesize_forceip W d qtype r key t0 gen (ro_ttl_cap opts) s
          else resolve_upstream W sub d qtype opts mode t0 gen hit rule s
      | None \<Rightarrow> resolve_upstream W sub d qtype opts mode t0 gen hit rule s)"

definition resolve_inner ::
  "('c, 're, 'l) world \<Rightarrow> (str \<Rightarrow> ('c, 're, 'l) resolver \<Rightarrow> resolve_result \<times> ('c, 're, 'l) resolver) \<Rightarrow> str \<Rightarrow> str
     \<Rightarrow> resolve_opts \<Rightarrow> upstream_mode \<Rightarrow> ('c, 're, 'l) resolver \<Rightarrow> resolve_result \<times> ('c, 're, 'l) resolver" where
  "resolve_inner W sub domain qt opts mode s =
     (let d = normalize domain; qtype = ascii_upper qt; r0 = (result0 d qtype)\<lparr>rr_empty := True\<rparr> in
      if d = [] then (r0\<lparr>rr_rcode := RCODE_FORMERR, rr_source := EmptyName\<rparr>, s)
      else if label_invalid d then (r0\<lparr>rr_rcode := RCODE_FORMERR, rr_source := BadName\<rparr>, s)
      else if qtype_code qtype = None then (r0\<lparr>rr_rcode := RCODE_NOTIMP, rr_source := BadType\<rparr>, s)
      else
        let t0 = st_mono s; gen = rs_gen s; now = st_epoch s; cfg = rs_cfg s;
            (policy, s) = aaaa_policy_cached W d qtype now s in
        if policy = Some Ipv6Disabled then (policy_result d qtype (st_mono s - t0) Ipv6Off, s)
        else if policy = Some PreferIpv4 then (policy_result d qtype (st_mono s - t0) Ipv4Preferred, s)
        else
          let (dual, s) = (if qtype = lit ''AAAA'' \<and> cf_prefer_ipv4 cfg then probe_a_record W d mode s else (False, s)) in
          if dual then (policy_result d qtype (st_mono s - t0) Ipv4Preferred, s)
          else
            case (if ro_force_refresh opts then (None, s)
                  else from_cache W d qtype (ckey_normalized d qtype) (cf_serve_stale cfg) (cf_stale_ttl cfg) now t0 s) of
              (Some r, s) \<Rightarrow> (r, s)
            | (None, s) \<Rightarrow> resolve_miss W sub d qtype opts mode t0 gen s)"

text \<open>The resolution of the target of an alias, with \<open>n\<close> more levels behind it.\<close>

primrec resolve_alias ::
  "('c, 're, 'l) world \<Rightarrow> upstream_mode \<Rightarrow> f64 option \<Rightarrow> str \<Rightarrow> nat \<Rightarrow> str \<Rightarrow> ('c, 're, 'l) resolver
     \<Rightarrow> resolve_result \<times> ('c, 're, 'l) resolver" where
  "resolve_alias W mode ttl_cap qtype 0 =
     (\<lambda>tgt. resolve_inner W (\<lambda>t s. (result0 t qtype, s)) tgt qtype
        \<lparr>ro_force_refresh = False, ro_depth = MAX_DEPTH, ro_ttl_cap = ttl_cap\<rparr> mode)"
| "resolve_alias W mode ttl_cap qtype (Suc n) =
     (\<lambda>tgt. resolve_inner W (resolve_alias W mode ttl_cap qtype n) tgt qtype
        \<lparr>ro_force_refresh = False, ro_depth = MAX_DEPTH - Suc n, ro_ttl_cap = ttl_cap\<rparr> mode)"

definition resolve_in ::
  "('c, 're, 'l) world \<Rightarrow> upstream_mode \<Rightarrow> str \<Rightarrow> str \<Rightarrow> resolve_opts \<Rightarrow> ('c, 're, 'l) resolver
     \<Rightarrow> resolve_result \<times> ('c, 're, 'l) resolver" where
  "resolve_in W mode domain qtype opts s =
     resolve_inner W (resolve_alias W mode (ro_ttl_cap opts) (ascii_upper qtype) (MAX_DEPTH - (ro_depth opts + 1)))
       domain qtype opts mode s"

definition resolve ::
  "('c, 're, 'l) world \<Rightarrow> str \<Rightarrow> str \<Rightarrow> resolve_opts \<Rightarrow> ('c, 're, 'l) resolver \<Rightarrow> resolve_result \<times> ('c, 're, 'l) resolver" where
  "resolve W domain qtype opts s = resolve_in W Multi domain qtype opts s"

definition resolve_prefetch ::
  "('c, 're, 'l) world \<Rightarrow> str \<Rightarrow> str \<Rightarrow> resolve_opts \<Rightarrow> ('c, 're, 'l) resolver \<Rightarrow> resolve_result \<times> ('c, 're, 'l) resolver" where
  "resolve_prefetch W domain qtype opts s =
     resolve_in W Single domain qtype
       (if ro_ttl_cap opts = None then opts\<lparr>ro_ttl_cap := Some (cf_prefetch_target (rs_cfg s))\<rparr> else opts) s"

end
