(* ===== verification/Query_Wave.thy ===== *)
theory Query_Wave
  imports Querier
begin

text \<open>
  One wave of queries, \<open>query_parallel_code\<close> of \<open>ebpdns-resolver/src/production.rs\<close>.  The set of tasks in flight is the
  list of their upstreams; a step is what the \<open>select!\<close> of the loop meets next: a task that reports, a task that is lost,
  or the hedge.  What a wave returns is its list of answers once it is over or nothing is in flight.
\<close>

subsection \<open>The upstreams of a wave\<close>

fun pick_ups :: "(str \<Rightarrow> bool) \<Rightarrow> str list \<Rightarrow> upstream_cfg list \<Rightarrow> upstream_cfg list" where
  "pick_ups opened seen [] = []"
| "pick_ups opened seen (up # ups) =
     (if \<not> up_enabled up then pick_ups opened seen ups
      else if up_id up \<in> set seen then pick_ups opened seen ups
      else if opened (up_id up) then pick_ups opened (up_id up # seen) ups
      else up # pick_ups opened (up_id up # seen) ups)"

definition select_wave :: "upstream_cfg list \<Rightarrow> real \<Rightarrow> breaker \<Rightarrow> upstream_cfg list \<times> breaker" where
  "select_wave ups now b =
     (let selected = pick_ups (\<lambda>uid. is_open uid now b) [] ups in
      if selected \<noteq> [] then (selected, b)
      else
        let released = pick_ups (\<lambda>_. False) [] ups in
        (released, if released \<noteq> [] then snd (note_all_open (map up_id released) b) else b))"

subsection \<open>Votes\<close>

definition is_positive :: "upstream_answer \<Rightarrow> bool" where
  "is_positive a \<longleftrightarrow> ua_rcode a = Some 0 \<and> ua_answers a \<noteq> [] \<and> \<not> ua_truncated a"

definition is_negative :: "upstream_answer \<Rightarrow> bool" where
  "is_negative a \<longleftrightarrow> ua_rcode a = Some 3 \<or> (ua_rcode a = Some 0 \<and> ua_answers a = [])"

subsection \<open>The loop\<close>

record wave =
  wv_flying :: "str list"
  wv_next :: nat
  wv_out :: "upstream_answer list"
  wv_timeouts :: "u64 table"
  wv_negative :: nat
  wv_over :: bool
  wv_tuning :: querier_tuning
  wv_health :: health

definition launch :: "tuning_snapshot \<Rightarrow> upstream_cfg \<Rightarrow> wave \<Rightarrow> wave" where
  "launch snap up w =
     (let t = wv_tuning w; t = t\<lparr>qt_dispatched := qt_dispatched t + 1\<rparr>;
          (ms, h) = timeout_for up snap t (wv_health w) in
      w\<lparr>wv_flying := wv_flying w @ [up_id up], wv_next := wv_next w + 1,
        wv_timeouts := AList.update (up_id up) ms (wv_timeouts w), wv_tuning := t, wv_health := h\<rparr>)"

definition launch_rest :: "tuning_snapshot \<Rightarrow> upstream_cfg list \<Rightarrow> wave \<Rightarrow> wave" where
  "launch_rest snap selected w = fold (launch snap) (drop (wv_next w) selected) w"

definition f64_ge :: "f64 \<Rightarrow> real \<Rightarrow> bool" where
  "f64_ge v r = (case v of Fin x \<Rightarrow> x \<ge> r | PosInf \<Rightarrow> True | _ \<Rightarrow> False)"

definition lat_to_u64 :: "f64 \<Rightarrow> u64" where
  "lat_to_u64 v = (case v of Fin x \<Rightarrow> f64_to_u64 (max x 0) | PosInf \<Rightarrow> - 1 | _ \<Rightarrow> 0)"

definition note_result :: "upstream_answer \<Rightarrow> u64 \<Rightarrow> querier_tuning \<Rightarrow> querier_tuning" where
  "note_result a would t =
     (let good = (ua_rcode a \<noteq> None);
          timed_out = (\<not> good \<and> would > 0 \<and> f64_ge (ua_lat a) (u64_real would * (9 / 10))) in
      record_result (ua_up a) good timed_out (lat_to_u64 (ua_lat a)) t)"

definition wave_start :: "tuning_snapshot \<Rightarrow> upstream_cfg list \<Rightarrow> querier_tuning \<Rightarrow> health \<Rightarrow> wave" where
  "wave_start snap selected t h =
     (let (_, from_p90) = hedge_delay_for selected snap t;
          t = (if from_p90 then t\<lparr>qt_p90_decisions := qt_p90_decisions t + 1\<rparr> else t);
          w = launch snap (hd selected) \<lparr>wv_flying = [], wv_next = 0, wv_out = [], wv_timeouts = [], wv_negative = 0,
                wv_over = False, wv_tuning = t, wv_health = h\<rparr> in
      if ts_adaptive_parallel snap \<and> length selected > 1 then w else launch_rest snap selected w)"

definition on_answer :: "tuning_snapshot \<Rightarrow> upstream_cfg list \<Rightarrow> bool \<Rightarrow> upstream_answer \<Rightarrow> wave \<Rightarrow> wave" where
  "on_answer snap selected keep_raw a w =
     (let would = (case map_of (wv_timeouts w) (ua_up a) of Some ms \<Rightarrow> ms | None \<Rightarrow> 0);
          t = note_result a would (wv_tuning w);
          w = w\<lparr>wv_tuning := t\<rparr>;
          early = w\<lparr>wv_tuning := t\<lparr>qt_early_returns := qt_early_returns t + 1\<rparr>, wv_out := wv_out w @ [a], wv_over := True\<rparr> in
      if keep_raw \<and> ua_rcode a \<noteq> None then early
      else if is_positive a then early
      else
        let w = w\<lparr>wv_out := wv_out w @ [a]\<rparr> in
        if \<not> is_negative a then w
        else
          let w = w\<lparr>wv_negative := wv_negative w + 1\<rparr> in
          if wv_negative w < max (ts_quorum snap) 1 then launch_rest snap selected w
          else w\<lparr>wv_tuning := t\<lparr>qt_quorum_aborts := qt_quorum_aborts t + 1\<rparr>, wv_flying := [], wv_over := True\<rparr>)"

definition on_hedge :: "tuning_snapshot \<Rightarrow> upstream_cfg list \<Rightarrow> wave \<Rightarrow> wave" where
  "on_hedge snap selected w =
     launch_rest snap selected (w\<lparr>wv_tuning := (wv_tuning w)\<lparr>qt_hedges := qt_hedges (wv_tuning w) + 1\<rparr>\<rparr>)"

definition landed :: "str \<Rightarrow> wave \<Rightarrow> wave" where
  "landed up w = w\<lparr>wv_flying := remove1 up (wv_flying w)\<rparr>"

inductive wave_step :: "tuning_snapshot \<Rightarrow> upstream_cfg list \<Rightarrow> bool \<Rightarrow> wave \<Rightarrow> wave \<Rightarrow> bool"
  for snap selected keep_raw where
  answer: "\<not> wv_over w \<Longrightarrow> ua_up a \<in> set (wv_flying w) \<Longrightarrow>
    wave_step snap selected keep_raw w (on_answer snap selected keep_raw a (landed (ua_up a) w))"
| lost: "\<not> wv_over w \<Longrightarrow> up \<in> set (wv_flying w) \<Longrightarrow> wave_step snap selected keep_raw w (landed up w)"
| hedge: "\<not> wv_over w \<Longrightarrow> wv_flying w \<noteq> [] \<Longrightarrow> wv_next w < length selected \<Longrightarrow>
    wave_step snap selected keep_raw w (on_hedge snap selected w)"

inductive wave_reaches :: "tuning_snapshot \<Rightarrow> upstream_cfg list \<Rightarrow> bool \<Rightarrow> querier_tuning \<Rightarrow> health \<Rightarrow> wave \<Rightarrow> bool"
  for snap selected keep_raw t h where
  start: "wave_reaches snap selected keep_raw t h (wave_start snap selected t h)"
| step: "wave_reaches snap selected keep_raw t h w \<Longrightarrow> wave_step snap selected keep_raw w w' \<Longrightarrow>
    wave_reaches snap selected keep_raw t h w'"

definition wave_done :: "wave \<Rightarrow> bool" where
  "wave_done w \<longleftrightarrow> wv_over w \<or> wv_flying w = []"

subsection \<open>Launching\<close>

lemma launch_simps [simp]:
  "wv_flying (launch snap up w) = wv_flying w @ [up_id up]" "wv_next (launch snap up w) = wv_next w + 1"
  "wv_out (launch snap up w) = wv_out w" "wv_negative (launch snap up w) = wv_negative w" "wv_over (launch snap up w) = wv_over w"
  by (simp_all add: launch_def Let_def split: prod.split)

lemma fold_launch:
  "wv_flying (fold (launch snap) l w) = wv_flying w @ map up_id l \<and> wv_next (fold (launch snap) l w) = wv_next w + length l
    \<and> wv_out (fold (launch snap) l w) = wv_out w \<and> wv_negative (fold (launch snap) l w) = wv_negative w
    \<and> wv_over (fold (launch snap) l w) = wv_over w"
  by (induction l arbitrary: w) simp_all

lemma launch_rest_simps [simp]:
  "wv_flying (launch_rest snap sel w) = wv_flying w @ map up_id (drop (wv_next w) sel)"
  "wv_next (launch_rest snap sel w) = max (wv_next w) (length sel)"
  "wv_out (launch_rest snap sel w) = wv_out w" "wv_negative (launch_rest snap sel w) = wv_negative w"
  "wv_over (launch_rest snap sel w) = wv_over w"
  using fold_launch [of snap "drop (wv_next w) sel" w] by (simp_all add: launch_rest_def max_def)

subsection \<open>The candidates\<close>

lemma pick_ups_sound:
  "distinct (map up_id (pick_ups opened seen ups)) \<and> set (map up_id (pick_ups opened seen ups)) \<inter> set seen = {}
    \<and> set (pick_ups opened seen ups) \<subseteq> {u \<in> set ups. up_enabled u \<and> \<not> opened (up_id u)}"
proof (induction opened seen ups rule: pick_ups.induct)
  case (2 opened seen up ups)
  then show ?case by (auto split: if_splits)
qed simp

lemma pick_ups_all: "up \<in> set ups \<Longrightarrow> up_enabled up \<Longrightarrow> up_id up \<notin> set seen \<Longrightarrow> pick_ups (\<lambda>_. False) seen ups \<noteq> []"
  by (induction "\<lambda>_ :: str. False" seen ups rule: pick_ups.induct) auto

lemma select_wave_sound:
  "distinct (map up_id (fst (select_wave ups now b))) \<and> set (fst (select_wave ups now b)) \<subseteq> {u \<in> set ups. up_enabled u}
    \<and> ((\<exists>u\<in>set ups. up_enabled u) \<longrightarrow> fst (select_wave ups now b) \<noteq> [])"
proof -
  have "distinct (map up_id (pick_ups f [] ups)) \<and> set (pick_ups f [] ups) \<subseteq> {u \<in> set ups. up_enabled u}" for f
    using pick_ups_sound [of f "[]" ups] by auto
  moreover have "\<exists>u\<in>set ups. up_enabled u \<Longrightarrow> pick_ups (\<lambda>_. False) [] ups \<noteq> []"
    using pick_ups_all [of _ ups "[]"] by auto
  ultimately show ?thesis by (simp add: select_wave_def Let_def)
qed

subsection \<open>The votes of a wave\<close>

definition wave_inv :: "tuning_snapshot \<Rightarrow> upstream_cfg list \<Rightarrow> bool \<Rightarrow> wave \<Rightarrow> bool" where
  "wave_inv snap selected keep_raw w \<longleftrightarrow>
     distinct (wv_flying w @ map ua_up (wv_out w))
     \<and> set (wv_flying w @ map ua_up (wv_out w)) \<subseteq> set (take (wv_next w) (map up_id selected))
     \<and> wv_negative w \<le> length (filter is_negative (wv_out w))
     \<and> (wv_over w \<longrightarrow>
          wv_out w \<noteq> [] \<and> (is_positive (last (wv_out w)) \<or> keep_raw \<and> ua_rcode (last (wv_out w)) \<noteq> None)
          \<or> max (ts_quorum snap) 1 \<le> wv_negative w)
     \<and> (\<not> wv_over w \<longrightarrow> (\<exists>a\<in>set (wv_out w). is_negative a) \<longrightarrow> length selected \<le> wv_next w)"

lemma wave_inv_launch_rest:
  assumes inv: "wave_inv snap selected keep_raw w" and d: "distinct (map up_id selected)"
  shows "wave_inv snap selected keep_raw (launch_rest snap selected w)"
proof -
  let ?ids = "map up_id selected" and ?n = "wv_next w"
  have "distinct (take ?n ?ids @ drop ?n ?ids)" using d by simp
  then have "set (take ?n ?ids) \<inter> set (drop ?n ?ids) = {}" by (simp only: distinct_append)
  moreover have "set (take ?n ?ids) \<subseteq> set ?ids" by (rule set_take_subset)
  moreover have "take (max ?n (length selected)) ?ids = ?ids" by simp
  moreover have "set (drop ?n ?ids) \<subseteq> set ?ids" by (rule set_drop_subset)
  moreover have "distinct (drop ?n ?ids)" using d by (rule distinct_drop)
  ultimately show ?thesis
    using inv unfolding wave_inv_def launch_rest_simps drop_map [symmetric]
    by (simp add: Un_ac) blast
qed

lemma wave_inv_landed:
  assumes "wave_inv snap selected keep_raw w" "up \<in> set (wv_flying w)"
  shows "wave_inv snap selected keep_raw (landed up w) \<and> up \<notin> set (wv_flying (landed up w)) \<and> up \<notin> ua_up ` set (wv_out w)
    \<and> up \<in> set (take (wv_next w) (map up_id selected))"
  using assms set_remove1_subset [of up "wv_flying w"] by (auto simp: wave_inv_def landed_def)

lemma wave_inv_tuning [simp]: "wave_inv snap selected keep_raw (w\<lparr>wv_tuning := t\<rparr>) = wave_inv snap selected keep_raw w"
  by (simp add: wave_inv_def)

lemma wave_inv_start:
  assumes "selected \<noteq> []" "distinct (map up_id selected)"
  shows "wave_inv snap selected keep_raw (wave_start snap selected t h)"
proof -
  have "wave_inv snap selected keep_raw (launch snap (hd selected) \<lparr>wv_flying = [], wv_next = 0, wv_out = [], wv_timeouts = [],
      wv_negative = 0, wv_over = False, wv_tuning = t', wv_health = h\<rparr>)" for t'
    using assms(1) by (cases selected) (simp_all add: wave_inv_def)
  then show ?thesis
    using wave_inv_launch_rest [OF _ assms(2)] by (simp add: wave_start_def Let_def split: prod.split)
qed

lemma wave_inv_answer:
  assumes inv: "wave_inv snap selected keep_raw w" and d: "distinct (map up_id selected)" and o: "\<not> wv_over w"
    and a: "ua_up a \<notin> set (wv_flying w)" "ua_up a \<notin> ua_up ` set (wv_out w)" "ua_up a \<in> set (take (wv_next w) (map up_id selected))"
  shows "wave_inv snap selected keep_raw (on_answer snap selected keep_raw a w)"
proof -
  consider (early) "keep_raw \<and> ua_rcode a \<noteq> None \<or> is_positive a"
    | (plain) "\<not> (keep_raw \<and> ua_rcode a \<noteq> None \<or> is_positive a)" "\<not> is_negative a"
    | (more) "\<not> (keep_raw \<and> ua_rcode a \<noteq> None \<or> is_positive a)" "is_negative a" "wv_negative w + 1 < max (ts_quorum snap) 1"
    | (enough) "\<not> (keep_raw \<and> ua_rcode a \<noteq> None \<or> is_positive a)" "is_negative a" "max (ts_quorum snap) 1 \<le> wv_negative w + 1"
    by linarith
  then show ?thesis
  proof cases
    case early
    then show ?thesis using inv a o by (auto simp: wave_inv_def on_answer_def Let_def)
  next
    case plain
    then show ?thesis using inv a o by (auto simp: wave_inv_def on_answer_def Let_def)
  next
    case more
    let ?w = "w\<lparr>wv_tuning := note_result a (case map_of (wv_timeouts w) (ua_up a) of Some ms \<Rightarrow> ms | None \<Rightarrow> 0) (wv_tuning w),
        wv_out := wv_out w @ [a], wv_negative := wv_negative w + 1\<rparr>"
    let ?v = "launch_rest snap selected (?w\<lparr>wv_out := wv_out w, wv_negative := wv_negative w\<rparr>)"
    have "wave_inv snap selected keep_raw (?w\<lparr>wv_out := wv_out w, wv_negative := wv_negative w\<rparr>)"
      using inv by (simp add: wave_inv_def)
    then have v: "wave_inv snap selected keep_raw ?v" by (rule wave_inv_launch_rest [OF _ d])
    have "on_answer snap selected keep_raw a w = launch_rest snap selected ?w"
      using more by (auto simp: on_answer_def Let_def)
    moreover have "ua_up a \<notin> set (map up_id (drop (wv_next w) selected))"
    proof -
      have "distinct (take (wv_next w) (map up_id selected) @ drop (wv_next w) (map up_id selected))" using d by simp
      then show ?thesis using a(3) unfolding distinct_append drop_map by blast
    qed
    moreover have "set (take (wv_next w) (map up_id selected)) \<subseteq> up_id ` set selected"
      using set_take_subset [of "wv_next w" "map up_id selected"] by simp
    ultimately show ?thesis
      using v a more(2) o by (auto simp: wave_inv_def)
  next
    case enough
    then show ?thesis using inv a o by (auto simp: wave_inv_def on_answer_def Let_def)
  qed
qed

lemma wave_reaches_inv:
  assumes "selected \<noteq> []" "distinct (map up_id selected)"
  shows "wave_reaches snap selected keep_raw t h w \<Longrightarrow> wave_inv snap selected keep_raw w"
proof (induction rule: wave_reaches.induct)
  case start
  show ?case using assms by (rule wave_inv_start)
next
  case (step w w')
  from step.hyps(2) show ?case
  proof cases
    case (answer a)
    note l = wave_inv_landed [OF step.IH answer(3)]
    show ?thesis unfolding answer(1)
      by (rule wave_inv_answer) (use l assms(2) answer(2) in \<open>auto simp: landed_def\<close>)
  next
    case (lost up)
    then show ?thesis using wave_inv_landed [OF step.IH lost(3)] by simp
  next
    case hedge
    then show ?thesis using wave_inv_launch_rest [OF _ assms(2)] step.IH by (simp add: on_hedge_def)
  qed
qed

text \<open>C29: Over the upstreams chosen for a wave, in every order of answers, losses and hedges: no upstream is asked or counted
  twice; and a wave that is over either ends with a positive answer, or with negative answers of as many distinct
  upstreams as the quorum asks for, or everybody who was asked has reported, and after any negative answer everybody has
  been asked.\<close>

theorem wave_verdict:
  assumes "wave_reaches snap (fst (select_wave ups now b)) False t h w" "wave_done w" "\<exists>u\<in>set ups. up_enabled u"
  shows "distinct (map ua_up (wv_out w)) \<and> set (map ua_up (wv_out w)) \<subseteq> up_id ` {u \<in> set ups. up_enabled u}
    \<and> ((\<exists>a\<in>set (wv_out w). is_positive a)
      \<or> max (ts_quorum snap) 1 \<le> card (ua_up ` {a \<in> set (wv_out w). is_negative a})
      \<or> (wv_flying w = [] \<and> ((\<exists>a\<in>set (wv_out w). is_negative a) \<longrightarrow> length (fst (select_wave ups now b)) \<le> wv_next w)))"
proof -
  let ?sel = "fst (select_wave ups now b)"
  note s = select_wave_sound [of ups now b]
  have inv: "wave_inv snap ?sel False w" using wave_reaches_inv [OF _ _ assms(1)] s assms(3) by blast
  have d: "distinct (map ua_up (wv_out w))" using inv by (simp add: wave_inv_def)
  have "set (map ua_up (wv_out w)) \<subseteq> set (take (wv_next w) (map up_id ?sel))" using inv by (simp add: wave_inv_def)
  also have "\<dots> \<subseteq> up_id ` set ?sel" using set_take_subset [of "wv_next w" "map up_id ?sel"] by simp
  also have "\<dots> \<subseteq> up_id ` {u \<in> set ups. up_enabled u}" using s by blast
  finally have sub: "set (map ua_up (wv_out w)) \<subseteq> up_id ` {u \<in> set ups. up_enabled u}" .
  have "distinct (map ua_up (filter is_negative (wv_out w)))" using d by (rule distinct_map_filter)
  from distinct_card [OF this] have "length (filter is_negative (wv_out w)) = card (ua_up ` {a \<in> set (wv_out w). is_negative a})"
    by simp
  then have votes: "wv_negative w \<le> card (ua_up ` {a \<in> set (wv_out w). is_negative a})" using inv by (simp add: wave_inv_def)
  show ?thesis
  proof (cases "wv_over w")
    case True
    then have "wv_out w \<noteq> [] \<and> is_positive (last (wv_out w)) \<or> max (ts_quorum snap) 1 \<le> wv_negative w"
      using inv by (auto simp: wave_inv_def)
    then have "(\<exists>a\<in>set (wv_out w). is_positive a) \<or> max (ts_quorum snap) 1 \<le> card (ua_up ` {a \<in> set (wv_out w). is_negative a})"
      using votes last_in_set [of "wv_out w"] by (meson le_trans)
    then show ?thesis using d sub by blast
  next
    case False
    then show ?thesis using inv d sub assms(2) by (simp add: wave_inv_def wave_done_def)
  qed
qed

subsection \<open>Examples\<close>

definition sample_up :: "str \<Rightarrow> upstream_cfg" where
  "sample_up i = \<lparr>up_id = i, up_name = i, up_proto = lit ''udp'', up_host = lit ''127.0.0.1'', up_port = 53, up_url = [],
     up_enabled = True, up_latency = 5000, up_weight = Fin 1, up_group = None, up_allow_private = False\<rparr>"

definition sample_snap :: tuning_snapshot where
  "sample_snap = \<lparr>ts_timeout_ms = 1500, ts_adaptive_parallel = True, ts_hedge_after_ms = 200, ts_hedge_factor = 1,
     ts_adaptive_timeout = False, ts_k = 5, ts_min_ms = 500, ts_quorum = 2\<rparr>"

definition no_answer :: "str \<Rightarrow> upstream_answer" where "no_answer up = ua_default\<lparr>ua_up := up\<rparr>"

lemma sample_select: "fst (select_wave [sample_up [97], sample_up [98]] 0 breaker_new) = [sample_up [97], sample_up [98]]"
  by (simp add: select_wave_def sample_up_def is_open_def breaker_new_def)

lemma sample_start:
  "wv_flying (wave_start sample_snap [sample_up [97], sample_up [98]] t h) = [[97]]"
  "wv_next (wave_start sample_snap [sample_up [97], sample_up [98]] t h) = 1"
  "wv_out (wave_start sample_snap [sample_up [97], sample_up [98]] t h) = []"
  "\<not> wv_over (wave_start sample_snap [sample_up [97], sample_up [98]] t h)"
  by (simp_all add: wave_start_def Let_def sample_snap_def sample_up_def split: prod.split)

text \<open>With adaptive parallelism the failure of the first upstream ends the wave when it comes before the hedge: the others
  are not asked.\<close>

lemma wave_gives_up:
  "\<exists>w. wave_reaches sample_snap [sample_up [97], sample_up [98]] False t h w \<and> wave_done w \<and> wv_next w = 1
    \<and> wv_out w = [no_answer [97]]"
proof -
  let ?w = "wave_start sample_snap [sample_up [97], sample_up [98]] t h"
  let ?v = "on_answer sample_snap [sample_up [97], sample_up [98]] False (no_answer [97]) (landed [97] ?w)"
  have "wave_step sample_snap [sample_up [97], sample_up [98]] False ?w ?v"
    using wave_step.answer [of ?w "no_answer [97]"] sample_start by (simp add: no_answer_def)
  then have "wave_reaches sample_snap [sample_up [97], sample_up [98]] False t h ?v"
    by (rule wave_reaches.step [OF wave_reaches.start])
  moreover have "wave_done ?v \<and> wv_next ?v = 1 \<and> wv_out ?v = [no_answer [97]]"
    using sample_start [of t h]
    by (simp add: on_answer_def Let_def no_answer_def is_positive_def is_negative_def ua_default_def landed_def wave_done_def)
  ultimately show ?thesis by blast
qed

lemma wave_verdict_witness:
  "\<exists>w. wave_done w \<and> wv_out w = [no_answer [97]] \<and> distinct (map ua_up (wv_out w))
     \<and> set (map ua_up (wv_out w)) \<subseteq> up_id ` {u \<in> set [sample_up [97], sample_up [98]]. up_enabled u}"
proof -
  obtain w where w: "wave_reaches sample_snap [sample_up [97], sample_up [98]] False (tuning_defaults 1500) [] w" "wave_done w"
    "wv_out w = [no_answer [97]]"
    using wave_gives_up [of "tuning_defaults 1500" "[]"] by blast
  have "\<exists>u\<in>set [sample_up [97], sample_up [98]]. up_enabled u" by (simp add: sample_up_def)
  moreover have "wave_reaches sample_snap (fst (select_wave [sample_up [97], sample_up [98]] 0 breaker_new)) False
      (tuning_defaults 1500) [] w"
    using w(1) unfolding sample_select .
  ultimately show ?thesis using wave_verdict [of sample_snap "[sample_up [97], sample_up [98]]" 0 breaker_new] w by blast
qed

end
