(* ===== verification/Resolve_Props.thy ===== *)
theory Resolve_Props
  imports Resolve Query_Wave
begin

text \<open>
  What a resolution promises: no negative verdict without the configured number of different upstreams, answers that an
  upstream gave in full and no private address among them, and nothing but NXDOMAIN for a blocked name, whatever the cache
  holds and whatever runs in between.
\<close>

subsection \<open>What the small operations leave alone\<close>

lemma cb_fields [simp]:
  "rs_cache (feed_breaker mode r s) = rs_cache s" "rs_nx (feed_breaker mode r s) = rs_nx s"
  "rs_cfg (feed_breaker mode r s) = rs_cfg s" "rs_gen (feed_breaker mode r s) = rs_gen s"
  "rs_engine (feed_breaker mode r s) = rs_engine s"
  by (simp_all add: feed_breaker_def cb_probe_ok_def cb_probe_fail_def cb_ok_def cb_fail_def Let_def split: prod.split)

lemma feed_fields [simp]:
  "rs_cache (fold (feed_breaker mode) rs s) = rs_cache s" "rs_nx (fold (feed_breaker mode) rs s) = rs_nx s"
  "rs_cfg (fold (feed_breaker mode) rs s) = rs_cfg s" "rs_gen (fold (feed_breaker mode) rs s) = rs_gen s"
  "rs_engine (fold (feed_breaker mode) rs s) = rs_engine s"
  by (induction rs arbitrary: s) simp_all

lemma note_single_vote_fields [simp]:
  "rs_cache (note_single_vote q v rs s) = rs_cache s" "rs_nx (note_single_vote q v rs s) = rs_nx s"
  "rs_cfg (note_single_vote q v rs s) = rs_cfg s"
  by (simp_all add: note_single_vote_def)

lemma sources_of_card: "sources_of rs = card (ua_up ` set rs)"
  by (simp add: sources_of_def length_remdups_card_conv)

subsection \<open>Negative verdicts\<close>

lemma nodata_votes_quorum:
  "nodata_votes x results \<noteq> [] \<Longrightarrow>
     max (qc_quorum x) 1 \<le> card (ua_up ` {a \<in> set results. ua_rcode a = Some 0 \<and> \<not> ua_truncated a \<and> ua_cnames a = []})"
  by (auto simp: nodata_votes_def Let_def sources_of_card quorum_threshold_def split: if_splits)

lemma speed_fields [simp]:
  fixes s :: "('c, 're, 'l) resolver"
  shows "rs_cache (snd (speed_sort cfg draw cands hints d s)) = rs_cache s" "rs_nx (snd (speed_sort cfg draw cands hints d s)) = rs_nx s"
  "rs_cfg (snd (speed_sort cfg draw cands hints d s)) = rs_cfg s" "rs_gen (snd (speed_sort cfg draw cands hints d s)) = rs_gen s"
  "rs_engine (snd (speed_sort cfg draw cands hints d s)) = rs_engine s"
proof -
  have one: "rs_cache (snd (measure_one cfg hints i a s)) = rs_cache s
    \<and> rs_nx (snd (measure_one cfg hints i a s)) = rs_nx s \<and> rs_cfg (snd (measure_one cfg hints i a s)) = rs_cfg s
    \<and> rs_gen (snd (measure_one cfg hints i a s)) = rs_gen s \<and> rs_engine (snd (measure_one cfg hints i a s)) = rs_engine s"
    for i a and s :: "('c, 're, 'l) resolver"
    by (simp add: measure_one_def Let_def split: option.split)
  have win: "rs_cache (snd (measure_window cfg hints i cs s)) = rs_cache s
    \<and> rs_nx (snd (measure_window cfg hints i cs s)) = rs_nx s \<and> rs_cfg (snd (measure_window cfg hints i cs s)) = rs_cfg s
    \<and> rs_gen (snd (measure_window cfg hints i cs s)) = rs_gen s \<and> rs_engine (snd (measure_window cfg hints i cs s)) = rs_engine s"
    for i cs and s :: "('c, 're, 'l) resolver"
    by (induction cs arbitrary: i s) (simp_all add: case_prod_beta one)
  have throttle: "rs_cache (note_speed_test d s) = rs_cache s \<and> rs_nx (note_speed_test d s) = rs_nx s
    \<and> rs_cfg (note_speed_test d s) = rs_cfg s \<and> rs_gen (note_speed_test d s) = rs_gen s \<and> rs_engine (note_speed_test d s) = rs_engine s"
    for s :: "('c, 're, 'l) resolver"
    by (simp add: note_speed_test_def Let_def)
  show "rs_cache (snd (speed_sort cfg draw cands hints d s)) = rs_cache s" "rs_nx (snd (speed_sort cfg draw cands hints d s)) = rs_nx s"
    "rs_cfg (snd (speed_sort cfg draw cands hints d s)) = rs_cfg s" "rs_gen (snd (speed_sort cfg draw cands hints d s)) = rs_gen s"
    "rs_engine (snd (speed_sort cfg draw cands hints d s)) = rs_engine s"
    by (simp_all add: speed_sort_def Let_def case_prod_beta win throttle)
qed

lemma order_cands_fields [simp]:
  "rs_cache (snd (order_cands W d ok kept s)) = rs_cache s" "rs_nx (snd (order_cands W d ok kept s)) = rs_nx s"
  "rs_cfg (snd (order_cands W d ok kept s)) = rs_cfg s" "rs_gen (snd (order_cands W d ok kept s)) = rs_gen s"
  "rs_engine (snd (order_cands W d ok kept s)) = rs_engine s"
  by (simp_all add: order_cands_def)

lemma fill_fields [simp]:
  "rs_nx (fill_cache_capped W k d q ans gen c s) = rs_nx s" "rs_cfg (fill_cache_capped W k d q ans gen c s) = rs_cfg s"
  "rs_gen (fill_cache_capped W k d q ans gen c s) = rs_gen s" "rs_engine (fill_cache_capped W k d q ans gen c s) = rs_engine s"
  by (simp_all add: fill_cache_capped_def note_stale_gen_dropped_def Let_def)

lemma put_fields [simp]:
  "rs_nx (put_negative W k d q rc t gen s) = rs_nx s" "rs_cfg (put_negative W k d q rc t gen s) = rs_cfg s"
  "rs_gen (put_negative W k d q rc t gen s) = rs_gen s" "rs_engine (put_negative W k d q rc t gen s) = rs_engine s"
  by (simp_all add: put_negative_def note_stale_gen_dropped_def Let_def)

lemma schedule_fields [simp]:
  "rs_nx (schedule_prefetch d q t s) = rs_nx s" "rs_cfg (schedule_prefetch d q t s) = rs_cfg s"
  "rs_cache (schedule_prefetch d q t s) = rs_cache s" "rs_gen (schedule_prefetch d q t s) = rs_gen s"
  "rs_engine (schedule_prefetch d q t s) = rs_engine s"
  by (simp_all add: schedule_prefetch_def Let_def)

lemma result0_simps [simp]:
  "rr_rcode (result0 d q) = 0" "rr_answers (result0 d q) = []" "rr_empty (result0 d q) = False" "rr_hit (result0 d q) = False"
  "rr_truncated (result0 d q) = False" "rr_error (result0 d q) = False"
  by (simp_all add: result0_def)

lemma ctx_result_simps [simp]:
  "rr_rcode (ctx_result x s) = 0" "rr_answers (ctx_result x s) = []" "rr_empty (ctx_result x s) = False"
  "rr_truncated (ctx_result x s) = False" "rr_hit (ctx_result x s) = False"
  by (simp_all add: ctx_result_def)

lemma finish_failed_simps [simp]:
  "snd (finish_failed x results s) = s" "rr_rcode (fst (finish_failed x results s)) = 2"
  "rr_empty (fst (finish_failed x results s)) = False" "rr_answers (fst (finish_failed x results s)) = []"
  "rr_hit (fst (finish_failed x results s)) = False"
  by (simp_all add: finish_failed_def error_result_def)

lemma finish_positive_fields:
  "rr_rcode (fst (finish_positive W x ok rule s)) = 0" "rs_nx (snd (finish_positive W x ok rule s)) = rs_nx s"
  by (simp_all add: finish_positive_def Let_def case_prod_beta)

lemma finish_nodata_cases:
  "finish_nodata W x results s = finish_failed x results s \<and> nodata_votes x results = []
   \<or> nodata_votes x results \<noteq> [] \<and> rr_rcode (fst (finish_nodata W x results s)) = 0
     \<and> (qc_type x \<noteq> lit ''AAAA'' \<longrightarrow> rs_nx (snd (finish_nodata W x results s)) = rs_nx s)"
  by (simp add: finish_nodata_def Let_def)


subsection \<open>A sample resolver\<close>

text \<open>A world whose waves bring no answers, a cache that holds nothing, and the sample rules of the rule engine.\<close>

definition no_cache :: "unit dns_cache_ops" where
  "no_cache = \<lparr>op_get = (\<lambda>_ _ s. (None, s)), op_get_stale = (\<lambda>_ _ _ s. (None, s)), op_peek = (\<lambda>_ _ s. (None, s)),
     op_put = (\<lambda>_ _ _ s. s), op_delete = (\<lambda>_ s. s), op_clear = (\<lambda>s. s), op_len = (\<lambda>_. 0), op_keys = (\<lambda>_. []),
     op_sample_keys = (\<lambda>_ _. []), op_set_capacity = (\<lambda>_ s. s), op_set_stale_window = (\<lambda>_ s. s)\<rparr>"

definition idle_world :: "'c dns_cache_ops \<Rightarrow> ('c, unit, (str \<times> rule option) list) world" where
  "idle_world C = \<lparr>wo_unicode = ascii_unicode, wo_hash = (\<lambda>_. 0), wo_regex = no_regex, wo_lru = list_lru, wo_cache = C,
     wo_query = (\<lambda>_ _ _ _ s. ([], s)), wo_flight = (\<lambda>_ _. None), wo_draw = (\<lambda>_ _ _. Fin 0)\<rparr>"

definition idle_state :: "'c \<Rightarrow> ('c, unit, (str \<times> rule option) list) resolver" where
  "idle_state c = \<lparr>st_mono = 0, st_epoch = 0, st_breaker = breaker_new, st_tuning = tuning_from_config resolver_cfg_default,
     st_health = None, st_sorted = None, st_all_open = False, st_degraded = 0, st_ip_speed = [], st_last_speed = [],
     st_probes = [], rs_cfg = resolver_cfg_default, rs_cache = c, rs_engine = sample_engine, rs_gen = 1, rs_nx = [],
     rs_prefetch = pending_new, rs_refreshing = {}, rs_refreshes = [], rs_single_votes = 0, rs_stale_dropped = 0,
     rs_nx_hits = 0, rs_nx_regs = 0\<rparr>"

definition sample_ctx :: "str \<Rightarrow> nat \<Rightarrow> query_ctx" where
  "sample_ctx d q = \<lparr>qc_name = d, qc_type = lit ''A'', qc_key = cache_key_new d (lit ''A''), qc_depth = 0, qc_start = 0,
     qc_gen = 1, qc_mode = Multi, qc_candidates = 2, qc_quorum = q, qc_prefetch = False, qc_ttl_cap = None\<rparr>"

text \<open>A resolution of aliases that says nothing.\<close>

definition no_sub :: "str \<Rightarrow> 's \<Rightarrow> resolve_result \<times> 's" where "no_sub tgt s = (result0 tgt [], s)"

definition nx_answer :: "str \<Rightarrow> upstream_answer" where "nx_answer up = ua_default\<lparr>ua_up := up, ua_rcode := Some 3\<rparr>"

definition a_answer :: "str \<Rightarrow> str \<Rightarrow> upstream_answer" where
  "a_answer up ip = ua_default\<lparr>ua_up := up, ua_rcode := Some 0,
     ua_answers := [\<lparr>rv_value = ip, rv_ttl = 300, rv_rtype = 1, rv_name = None\<rparr>]\<rparr>"


subsection \<open>Positive answers\<close>

definition cands_ok :: "resolve_answer set \<Rightarrow> cand_entry list \<Rightarrow> bool" where
  "cands_ok S cs \<longleftrightarrow>
     distinct (map cd_value cs)
     \<and> (\<forall>c\<in>set cs. (\<exists>a\<in>S. rv_value a = cd_value c \<and> rv_rtype a = cd_rtype c)
          \<and> (\<forall>a\<in>S. rv_value a = cd_value c \<longrightarrow> cd_ttl c \<le> rv_ttl a))
     \<and> rv_value ` S \<subseteq> cd_value ` set cs"

lemma cands_okD:
  assumes "cands_ok S cs"
  shows "distinct (map cd_value cs)" "rv_value ` S \<subseteq> cd_value ` set cs"
    and "c \<in> set cs \<Longrightarrow> \<exists>a\<in>S. rv_value a = cd_value c \<and> rv_rtype a = cd_rtype c"
    and "c \<in> set cs \<Longrightarrow> a \<in> S \<Longrightarrow> rv_value a = cd_value c \<Longrightarrow> cd_ttl c \<le> rv_ttl a"
  using assms by (simp_all add: cands_ok_def)

lemma cands_okI:
  assumes "distinct (map cd_value cs)" "rv_value ` S \<subseteq> cd_value ` set cs"
    and "\<And>c. c \<in> set cs \<Longrightarrow> \<exists>a\<in>S. rv_value a = cd_value c \<and> rv_rtype a = cd_rtype c"
    and "\<And>c a. c \<in> set cs \<Longrightarrow> a \<in> S \<Longrightarrow> rv_value a = cd_value c \<Longrightarrow> cd_ttl c \<le> rv_ttl a"
  shows "cands_ok S cs"
  using assms by (simp add: cands_ok_def)

lemma cands_ok_add:
  assumes "cands_ok S cs"
  shows "cands_ok (insert a S) (add_cand lat a cs)"
proof (cases "\<exists>c\<in>set cs. cd_value c = rv_value a")
  case True
  let ?f = "\<lambda>c. if cd_value c = rv_value a then c\<lparr>cd_ttl := min (cd_ttl c) (rv_ttl a)\<rparr> else c"
  have f: "cd_value (?f c) = cd_value c" "cd_rtype (?f c) = cd_rtype c" for c by simp_all
  have vals: "map cd_value (map ?f cs) = map cd_value cs" by simp
  have "cands_ok (insert a S) (map ?f cs)"
  proof (rule cands_okI)
    show "distinct (map cd_value (map ?f cs))" unfolding vals by (rule cands_okD(1) [OF assms])
    have "rv_value ` insert a S \<subseteq> set (map cd_value cs)" using cands_okD(2) [OF assms] True by (simp add: image_iff) metis
    also have "\<dots> = cd_value ` set (map ?f cs)" unfolding vals [symmetric] by (rule set_map)
    finally show "rv_value ` insert a S \<subseteq> cd_value ` set (map ?f cs)" .
  next
    fix e assume "e \<in> set (map ?f cs)"
    then have "e \<in> ?f ` set cs" by (simp only: set_map)
    then obtain c where c: "e = ?f c" "c \<in> set cs" by (rule imageE)
    have e: "cd_value e = cd_value c" "cd_rtype e = cd_rtype c" unfolding c(1) by (rule f)+
    show "\<exists>b\<in>insert a S. rv_value b = cd_value e \<and> rv_rtype b = cd_rtype e"
      using cands_okD(3) [OF assms c(2)] unfolding e by blast
    fix b assume b: "b \<in> insert a S" "rv_value b = cd_value e"
    then show "cd_ttl e \<le> rv_ttl b" using c(1) e(1) cands_okD(4) [OF assms c(2), of b] by (auto simp: min_le_iff_disj)
  qed
  then show ?thesis unfolding add_cand_def if_P [OF True] .
next
  case False
  let ?e = "\<lparr>cd_value = rv_value a, cd_ttl = rv_ttl a, cd_rtype = rv_rtype a,
                     cd_static_lat = (case lat of Fin l \<Rightarrow> l | _ \<Rightarrow> 999), cd_probe = None\<rparr>"
  have n: "rv_value b \<noteq> rv_value a" if "b \<in> S" for b using cands_okD(2) [OF assms] that False by (metis imageE image_subset_iff)
  have "cands_ok (insert a S) (cs @ [?e])"
  proof (rule cands_okI)
    show "distinct (map cd_value (cs @ [?e]))" using cands_okD(1) [OF assms] False by auto
    show "rv_value ` insert a S \<subseteq> cd_value ` set (cs @ [?e])" using cands_okD(2) [OF assms] by auto
  next
    fix c assume "c \<in> set (cs @ [?e])"
    then consider "c \<in> set cs" | "c = ?e" by auto
    note cases = this
    from cases show "\<exists>b\<in>insert a S. rv_value b = cd_value c \<and> rv_rtype b = cd_rtype c"
      by cases (use cands_okD(3) [OF assms] in auto)
    fix b assume b: "b \<in> insert a S" "rv_value b = cd_value c"
    from cases show "cd_ttl c \<le> rv_ttl b"
    proof cases
      case 1
      then show ?thesis using b False cands_okD(4) [OF assms 1, of b] by auto
    next
      case 2
      then show ?thesis using b n by auto
    qed
  qed
  then show ?thesis unfolding add_cand_def if_not_P [OF False] .
qed

lemma cands_ok_fold: "cands_ok S cs \<Longrightarrow> cands_ok (set as \<union> S) (fold (add_cand lat) as cs)"
  by (induction as arbitrary: S cs) (auto dest: cands_ok_add simp flip: insert_is_Un Un_insert_right)

definition given :: "upstream_answer list \<Rightarrow> resolve_answer set" where
  "given ok = (\<Union>u\<in>set ok. set (ua_answers u))"

lemma candidates_ok: "cands_ok (given ok) (candidates_of ok)"
proof -
  have "cands_ok S cs \<Longrightarrow> cands_ok (given ok \<union> S) (fold (\<lambda>r. fold (add_cand (ua_lat r)) (ua_answers r)) ok cs)" for S cs
  proof (induction ok arbitrary: S cs)
    case (Cons r ok)
    from Cons.IH [OF cands_ok_fold [OF Cons.prems]] show ?case by (simp add: given_def Un_ac)
  qed (simp add: given_def)
  from this [of "{}" "[]"] show ?thesis by (simp add: candidates_of_def cands_ok_def)
qed

lemma mark_probe_answers: "map cand_answer (mark_probe p a cs) = map cand_answer cs"
proof -
  have "map cand_answer (mark_probe p a cs) = map cand_answer (take SPEED_SORT_WINDOW cs @ drop SPEED_SORT_WINDOW cs)"
    unfolding mark_probe_def map_append by (simp add: cand_answer_def)
  then show ?thesis by simp
qed

lemma mark_probes_answers: "map cand_answer (mark_probes cfg ok cs) = map cand_answer cs"
proof -
  have "map cand_answer (fold (mark_probe p) as cs) = map cand_answer cs" for p as cs
    by (induction as arbitrary: cs) (simp_all add: mark_probe_answers)
  then have "map cand_answer (fold (\<lambda>r. fold (mark_probe (probe_of cfg (ua_up r))) (ua_answers r)) ok cs) = map cand_answer cs" for cs
    by (induction ok arbitrary: cs) simp_all
  then show ?thesis by (simp add: mark_probes_def)
qed

lemma cand_value_answer [simp]: "rv_value (cand_answer c) = cd_value c" by (simp add: cand_answer_def)

definition public_for :: "upstream_answer list \<Rightarrow> resolve_answer \<Rightarrow> bool" where
  "public_for ok a \<longleftrightarrow> exempt ok (rv_value a) \<or> \<not> is_private_ip (rv_value a)"

lemma admitted_answers: "map cand_answer (admitted ok cs) = filter (public_for ok) (map cand_answer cs)"
  by (simp add: admitted_def public_for_def filter_map comp_def)

lemma kept_answers:
  "map cand_answer (kept_cands cfg qtype rule ok) =
     filter (\<lambda>a. rebind_on cfg qtype rule \<longrightarrow> public_for ok a) (map cand_answer (candidates_of ok))"
proof -
  have "map cand_answer (probed_cands cfg ok) = map cand_answer (candidates_of ok)"
    by (simp add: probed_cands_def mark_probes_answers)
  then show ?thesis by (cases "rebind_on cfg qtype rule") (simp_all only: kept_cands_def admitted_answers simp_thms if_True if_False, simp)
qed

lemma order_cands_mset: "mset (fst (order_cands W d ok kept s)) = mset (map cand_answer kept)"
  by (simp only: order_cands_def speed_sort_mset fst_conv split: if_split) simp

lemma finish_positive_answers:
  "mset (rr_answers (fst (finish_positive W x ok rule s))) =
     mset (filter (\<lambda>a. rebind_on (rs_cfg s) (qc_type x) rule \<longrightarrow> public_for ok a) (map cand_answer (candidates_of ok)))"
proof -
  let ?k = "kept_cands (rs_cfg s) (qc_type x) rule ok"
  have "mset (rr_answers (fst (finish_positive W x ok rule s))) = mset (map cand_answer ?k)"
    using order_cands_mset [of W "qc_name x" ok ?k s] by (simp add: finish_positive_def Let_def case_prod_beta)
  then show ?thesis by (simp only: kept_answers)
qed



subsection \<open>Blocked names\<close>

lemma health_engine [simp]:
  fixes s :: "('c, 're, 'l) resolver"
  shows "rs_engine (snd (sorted_upstreams cfg ups s)) = rs_engine s" "rs_engine (snd (query_targets cfg ups single s)) = rs_engine s"
proof -
  show 1: "rs_engine (snd (sorted_upstreams cfg ups s)) = rs_engine s" for ups
    by (simp add: sorted_upstreams_def Let_def split: option.split)
  have "rs_engine (snd (prefetch_upstream cfg ups s)) = rs_engine s"
    using 1 [of "filter up_enabled ups"] by (simp add: prefetch_upstream_def Let_def case_prod_beta split: option.split list.split)
  then show "rs_engine (snd (query_targets cfg ups single s)) = rs_engine s"
    by (simp add: query_targets_def case_prod_beta)
qed

lemma cache_get_fields [simp]:
  "rs_engine (snd (rs_cache_get W k now s)) = rs_engine s" "rs_engine (snd (rs_cache_get_stale W k now w s)) = rs_engine s"
  "rs_engine (rs_cache_delete W k s) = rs_engine s" "rs_engine (trigger_stale_refresh d q s) = rs_engine s"
  "rs_engine (snd (rfc8020_lookup d s)) = rs_engine s" "rs_engine (snd (aaaa_policy_cached W d q now s)) = rs_engine s"
  by (simp_all add: rs_cache_get_def rs_cache_get_stale_def rs_cache_delete_def trigger_stale_refresh_def rfc8020_lookup_def
      aaaa_policy_cached_def Let_def case_prod_beta split: option.split prod.split)

text \<open>The published rules are \<open>rules\<close>, and stay so while the resolver waits.\<close>

definition rules_are :: "('c, 're, 'l) world \<Rightarrow> ('l \<Rightarrow> (str \<times> rule option) list) \<Rightarrow> rule list \<Rightarrow> ('c, 're, 'l) resolver \<Rightarrow> bool" where
  "rules_are W entries rules s \<longleftrightarrow> answers_as (wo_regex W) entries rules (rs_engine s)"

definition keeps_rules :: "('c, 're, 'l) world \<Rightarrow> ('l \<Rightarrow> (str \<times> rule option) list) \<Rightarrow> rule list \<Rightarrow> bool" where
  "keeps_rules W entries rules \<longleftrightarrow>
     (\<forall>ups d q n s. rules_are W entries rules s \<longrightarrow> rules_are W entries rules (snd (wo_query W ups d q n s)))"

lemma rs_match_rule_scan:
  assumes "lru_spec (wo_lru W) entries" "rules_are W entries rules s"
  shows "fst (rs_match_rule W d s) = priority_scan (wo_regex W) rules (name_normalize (wo_unicode W) d)
    \<and> rules_are W entries rules (snd (rs_match_rule W d s))"
  using match_rule_answers [OF assms(1) assms(2) [unfolded rules_are_def], of "wo_unicode W" "wo_hash W" d False]
  by (auto simp: rs_match_rule_def rules_are_def outcome_of_def case_prod_beta split: option.splits match_outcome.splits)

lemma query_a_rules:
  assumes "keeps_rules W entries rules" "rules_are W entries rules s"
  shows "rules_are W entries rules (snd (query_a W d mode s))"
proof -
  have "rules_are W entries rules (snd (query_targets (rs_cfg s) ups single s))" for ups single
    using assms(2) by (simp add: rules_are_def)
  then show ?thesis using assms by (auto simp: query_a_def Let_def case_prod_beta keeps_rules_def)
qed

lemma probe_a_rules:
  assumes "keeps_rules W entries rules" "rules_are W entries rules s"
  shows "rules_are W entries rules (snd (probe_a_record W d mode s))"
proof -
  obtain e s1 where g: "rs_cache_get W (ckey_normalized d (lit ''A'')) (st_epoch s) s = (e, s1)" by fastforce
  have "rules_are W entries rules (snd (rs_cache_get W (ckey_normalized d (lit ''A'')) (st_epoch s) s))"
    using assms(2) by (simp add: rules_are_def del: lit_Cons lit_Nil)
  then have s1: "rules_are W entries rules s1" by (simp only: g snd_conv)
  obtain ans s2 where q: "query_a W d mode s1 = (ans, s2)" by fastforce
  have "rules_are W entries rules s2" using query_a_rules [OF assms(1) s1, of d mode] q by simp
  then show ?thesis using s1 q by (simp add: probe_a_record_def Let_def g rules_are_def del: lit_Cons lit_Nil split: option.split)
qed

definition refused :: "resolve_result \<Rightarrow> bool" where
  "refused r \<longleftrightarrow> rr_answers r = []
     \<and> (rr_rcode r = RCODE_NXDOMAIN \<or> rr_source r \<in> {EmptyName, BadName, BadType, Ipv6Off, Ipv4Preferred})"

lemma refused_blocked [simp]: "refused (blocked_result d q r lat)"
  by (simp add: refused_def blocked_result_def)

definition blocked_name ::
  "('c, 're, 'l) world \<Rightarrow> ('l \<Rightarrow> (str \<times> rule option) list) \<Rightarrow> rule list \<Rightarrow> str \<Rightarrow> bool" where
  "blocked_name W entries rules d \<longleftrightarrow>
     lru_spec (wo_lru W) entries
     \<and> (\<exists>r. priority_scan (wo_regex W) rules (name_normalize (wo_unicode W) d) = Some r \<and> ru_action r = Block)"

lemma blocked_match:
  assumes "blocked_name W entries rules d" "rules_are W entries rules s"
  obtains r s' where "rs_match_rule W d s = (Some r, s')" "ru_action r = Block" "rules_are W entries rules s'"
  using assms rs_match_rule_scan [of W entries rules s d] unfolding blocked_name_def by (metis prod.collapse)

lemma blocked_from_stale:
  assumes "blocked_name W entries rules d" "rules_are W entries rules s"
  shows "(case from_stale W d q key now w g t0 s of (Some r, _) \<Rightarrow> refused r | (None, s') \<Rightarrow> rules_are W entries rules s')"
proof -
  obtain e s1 where g: "rs_cache_get_stale W key now w s = (e, s1)" by fastforce
  have s1: "rs_engine s1 = rs_engine s" using cache_get_fields(2) [of W key now w s] g by simp
  have "rules_are W entries rules (trigger_stale_refresh d q s1)" using assms(2) s1 by (simp add: rules_are_def)
  from blocked_match [OF assms(1) this] obtain r s' where
    "rs_match_rule W d (trigger_stale_refresh d q s1) = (Some r, s')" "ru_action r = Block" by metis
  then show ?thesis using assms(2) s1
    by (auto simp: from_stale_def g serve_stale_from_cache_def rules_are_def split: option.split)
qed

lemma blocked_from_fresh:
  assumes "blocked_name W entries rules d" "rules_are W entries rules s"
  shows "(case from_fresh W d q key now g t0 s of (Some r, _) \<Rightarrow> refused r | (None, s') \<Rightarrow> rules_are W entries rules s')"
proof -
  obtain e s1 where g: "rs_cache_get W key now s = (e, s1)" by fastforce
  have s1: "rs_engine s1 = rs_engine s" using cache_get_fields(1) [of W key now s] g by simp
  have "rules_are W entries rules s1" using assms(2) s1 by (simp add: rules_are_def)
  from blocked_match [OF assms(1) this] obtain r s' where
    "rs_match_rule W d s1 = (Some r, s')" "ru_action r = Block" by metis
  then show ?thesis using assms(2) s1
    by (auto simp: from_fresh_def g serve_from_cache_def rules_are_def split: option.split)
qed

lemma blocked_from_inference:
  assumes "blocked_name W entries rules d" "rules_are W entries rules s"
  shows "fst (from_inference W d q s) = None \<and> rules_are W entries rules (snd (from_inference W d q s))"
proof -
  obtain h s1 where g: "rfc8020_lookup d s = (h, s1)" by fastforce
  have "rules_are W entries rules s1" using cache_get_fields(5) [of d s] g assms(2) by (simp add: rules_are_def)
  moreover from blocked_match [OF assms(1) this] obtain r s' where
    "rs_match_rule W d s1 = (Some r, s')" "ru_action r = Block" "rules_are W entries rules s'" by metis
  ultimately show ?thesis by (simp add: from_inference_def g rfc8020_rule_bypass_def split: option.split)
qed

lemma blocked_from_cache:
  assumes "blocked_name W entries rules d" "rules_are W entries rules s"
  shows "(case from_cache W d q key ss w now t0 s of (Some r, _) \<Rightarrow> refused r | (None, s') \<Rightarrow> rules_are W entries rules s')"
proof -
  let ?first = "if ss then from_stale W d q key now w (rs_gen s) t0 s else (None, s)"
  have first: "(case ?first of (Some r, _) \<Rightarrow> refused r | (None, s') \<Rightarrow> rules_are W entries rules s')"
    using blocked_from_stale [OF assms] assms(2) by simp
  obtain x s1 where x: "?first = (x, s1)" by fastforce
  show ?thesis
  proof (cases x)
    case (Some r)
    then show ?thesis using first x by (simp add: from_cache_def Let_def)
  next
    case None
    then have s1: "rules_are W entries rules s1" using first x by simp
    obtain y s2 where y: "from_fresh W d q key now (rs_gen s) t0 s1 = (y, s2)" by fastforce
    note fresh = blocked_from_fresh [OF assms(1) s1, of q key now "rs_gen s" t0, unfolded y]
    show ?thesis
    proof (cases y)
      case (Some r)
      then show ?thesis using fresh x None y by (simp add: from_cache_def Let_def)
    next
      case no: None
      then have "rules_are W entries rules s2" using fresh by simp
      from blocked_from_inference [OF assms(1) this, of q] show ?thesis using x None y no
        by (simp add: from_cache_def Let_def case_prod_beta)
    qed
  qed
qed

text \<open>
  C33: A name that the published rules block gets no answer: whatever the cache and the table of nonexistent names hold and
  whatever other tasks do while the resolver waits (as long as they publish no other rules), the resolution ends in NXDOMAIN
  or in one of the refusals that come before the rules.
\<close>

theorem blocked_name_refused:
  assumes "lru_spec (wo_lru W) entries" "rules_are W entries rules s" "keeps_rules W entries rules"
    and "priority_scan (wo_regex W) rules (name_normalize (wo_unicode W) (normalize domain)) = Some r" "ru_action r = Block"
  shows "refused (fst (resolve W domain qtype opts s))"
proof -
  let ?d = "normalize domain" and ?q = "ascii_upper qtype"
  have b: "blocked_name W entries rules ?d" using assms(1,4,5) by (auto simp: blocked_name_def)
  obtain p s1 where p: "aaaa_policy_cached W ?d ?q (st_epoch s) s = (p, s1)" by fastforce
  have s1: "rules_are W entries rules s1" using cache_get_fields(6) [of W ?d ?q "st_epoch s" s] p assms(2) by (simp add: rules_are_def)
  define dual where "dual = (if ?q = lit ''AAAA'' \<and> cf_prefer_ipv4 (rs_cfg s) then probe_a_record W ?d Multi s1 else (False, s1))"
  obtain dl s2 where d2: "dual = (dl, s2)" by fastforce
  have s2: "rules_are W entries rules s2"
    using probe_a_rules [OF assms(3) s1, of ?d Multi] s1 d2 by (simp add: dual_def split: if_splits)
  define got where "got = (if ro_force_refresh opts then (None, s2)
     else from_cache W ?d ?q (ckey_normalized ?d ?q) (cf_serve_stale (rs_cfg s)) (cf_stale_ttl (rs_cfg s)) (st_epoch s) (st_mono s) s2)"
  obtain x s3 where x: "got = (x, s3)" by fastforce
  have got: "case x of Some r \<Rightarrow> refused r | None \<Rightarrow> rules_are W entries rules s3"
    using blocked_from_cache [OF b s2, of ?q "ckey_normalized ?d ?q" "cf_serve_stale (rs_cfg s)" "cf_stale_ttl (rs_cfg s)"
        "st_epoch s" "st_mono s"] s2 x
    by (auto simp: got_def split: if_splits option.splits prod.splits)
  have miss: "refused (fst (resolve_miss W sub ?d ?q opts Multi (st_mono s) (rs_gen s) s3))" if "x = None" for sub
  proof -
    have "rules_are W entries rules s3" using got that by simp
    from blocked_match [OF b this] obtain r s4 where "rs_match_rule W ?d s3 = (Some r, s4)" "ru_action r = Block" by metis
    then show ?thesis by (simp add: resolve_miss_def Let_def)
  qed
  have "fst (resolve W domain qtype opts s) =
    (let r0 = (result0 ?d ?q)\<lparr>rr_empty := True\<rparr> in
     if ?d = [] then r0\<lparr>rr_rcode := RCODE_FORMERR, rr_source := EmptyName\<rparr>
     else if label_invalid ?d then r0\<lparr>rr_rcode := RCODE_FORMERR, rr_source := BadName\<rparr>
     else if qtype_code ?q = None then r0\<lparr>rr_rcode := RCODE_NOTIMP, rr_source := BadType\<rparr>
     else if p = Some Ipv6Disabled then policy_result ?d ?q (st_mono s1 - st_mono s) Ipv6Off
     else if p = Some PreferIpv4 then policy_result ?d ?q (st_mono s1 - st_mono s) Ipv4Preferred
     else if dl then policy_result ?d ?q (st_mono s2 - st_mono s) Ipv4Preferred
     else case x of Some r \<Rightarrow> r
     | None \<Rightarrow> fst (resolve_miss W (resolve_alias W Multi (ro_ttl_cap opts) ?q (MAX_DEPTH - (ro_depth opts + 1))) ?d ?q opts Multi
                 (st_mono s) (rs_gen s) s3))"
    using x d2 unfolding resolve_def resolve_in_def resolve_inner_def Let_def p prod.case got_def dual_def
    by (simp del: lit_Cons lit_Nil split: option.split)
  then show ?thesis using got miss
    by (auto simp: Let_def refused_def policy_result_def split: option.splits if_splits)
qed

theorem blocked_name_refused_witness:
  "refused (fst (resolve (idle_world no_cache) (lit ''x.ads.test'') (lit ''A'') opts0 (idle_state ())))"
proof -
  have "lru_spec (wo_lru (idle_world no_cache)) (\<lambda>l. l)" by (simp add: idle_world_def list_lru_spec)
  moreover have "rules_are (idle_world no_cache) (\<lambda>l. l) sample_rules (idle_state ())"
    using engine_answers [OF list_lru_spec sample_reaches] by (simp add: rules_are_def idle_world_def idle_state_def)
  moreover have "keeps_rules (idle_world no_cache) (\<lambda>l. l) sample_rules" by (simp add: keeps_rules_def idle_world_def)
  moreover have "name_normalize ascii_unicode (normalize (lit ''x.ads.test'')) = lit ''x.ads.test''" by code_simp
  then have "priority_scan (wo_regex (idle_world no_cache)) sample_rules
      (name_normalize (wo_unicode (idle_world no_cache)) (normalize (lit ''x.ads.test''))) = Some (plain_rule ''*.ads.test'' Block)"
    using sample_scan(1) by (simp add: idle_world_def del: lit_Cons lit_Nil)
  moreover have "ru_action (plain_rule ''*.ads.test'' Block) = Block" by (simp add: plain_rule_def)
  ultimately show ?thesis by (rule blocked_name_refused)
qed

subsection \<open>Lifetimes\<close>

lemma best_neg_bound: "best_neg best results = Some v \<Longrightarrow> (best = Some v \<or> 0 < v)"
proof (induction best results rule: best_neg.induct)
  case (2 best r rs)
  then show ?case by (auto split: option.splits if_splits simp: min_def)
qed simp



subsection \<open>Gaps\<close>

text \<open>An answer that is cut off and empty is a negative vote for the wave, but not for the verdict.\<close>

lemma votes_differ:
  "is_negative_answer a \<Longrightarrow> is_negative a"
  "is_negative (ua_default\<lparr>ua_rcode := Some 0, ua_truncated := True\<rparr>)"
  "\<not> is_negative_answer (ua_default\<lparr>ua_rcode := Some 0, ua_truncated := True\<rparr>)"
  by (auto simp: is_negative_answer_def is_negative_def ua_default_def)

text \<open>A prefetch along an alias writes negative entries like any query.\<close>

lemma alias_ignores_prefetch: "follow_cname W sub (x\<lparr>qc_prefetch := p\<rparr>) cs s = follow_cname W sub x cs s"
  by (simp add: follow_cname_def ctx_result_def Let_def case_prod_beta)

text \<open>NODATA behind an alias without a lifetime of its own is cached for up to a minute, whatever \<open>neg_ttl_max\<close> says.\<close>

lemma alias_nodata_uncapped:
  assumes "sub (fst (hd (ua_cnames (hd cs)))) s = (r, s1)"
    and "rr_answers r = []" "\<not> rr_error r" "\<not> rr_truncated r" "rr_rcode r = RCODE_NOERROR" "rr_ttl_left r \<le> 0"
  shows "snd (follow_cname W sub x cs s) =
    put_negative W (qc_key x) (qc_name x) (qc_type x) RCODE_NOERROR (clamp_1_60 (cf_ttl (rs_cfg s1))) (Some (qc_gen x)) s1"
proof -
  obtain t l where h: "hd (ua_cnames (hd cs)) = (t, l)" by fastforce
  then have "sub t s = (r, s1)" using assms(1) by simp
  then show ?thesis using assms(2-) h by (simp add: follow_cname_def Let_def)
qed

text \<open>When the rules change while the upstreams are asked, the cache refuses the answer, but the name is registered under the
  new rules.\<close>

lemma stale_registration:
  assumes "qc_gen x \<noteq> rs_gen s" "\<not> qc_prefetch x" "cf_rfc8020_infer (rs_cfg s)" "rs_nx s = []" "qc_name x \<noteq> []"
    and "label_count (qc_name x) \<le> cf_rfc8020_max_labels (rs_cfg s)"
  shows "rs_cache (snd (confirm_nxdomain W x nx results s)) = rs_cache s
    \<and> (\<exists>e. map_of (rs_nx (snd (confirm_nxdomain W x nx results s))) (qc_name x) = Some e \<and> nx_rule_gen e = rs_gen s)"
proof -
  let ?neg = "neg_ttl_of (rs_cfg s) nx"
  let ?s = "put_negative W (qc_key x) (qc_name x) (qc_type x) RCODE_NXDOMAIN ?neg (Some (qc_gen x))
              (note_single_vote (quorum_threshold (qc_quorum x)) (sources_of nx) results s)"
  have gen: "rs_gen (note_single_vote a b results s) = rs_gen s" "st_epoch (note_single_vote a b results s) = st_epoch s" for a b
    by (simp_all add: note_single_vote_def)
  have s: "rs_cache ?s = rs_cache s" "rs_nx ?s = []" "rs_cfg ?s = rs_cfg s" "rs_gen ?s = rs_gen s" "st_epoch ?s = st_epoch s"
    using assms(1,4) gen by (simp_all add: put_negative_def note_stale_gen_dropped_def)
  have pos: "0 < neg_ttl_cap (rs_cfg s) ?neg"
  proof -
    have "1 \<le> ?neg" by (simp add: neg_ttl_of_def Let_def)
    then have "0 < ?neg" by (auto simp: word_gt_0)
    then show ?thesis by (simp add: neg_ttl_cap_def)
  qed
  then have ttl: "neg_ttl_cap (rs_cfg s) ?neg \<noteq> 0" "0 < u32_real (neg_ttl_cap (rs_cfg s) ?neg)"
    unfolding u32_real_def by (auto simp only: word_less_nat_alt of_nat_0_less_iff unat_0)
  then have reg: "nx_register (st_epoch s) (qc_name x) (Fin (st_epoch s + u32_real (neg_ttl_cap (rs_cfg s) ?neg))) (rs_gen s)
      (cf_rfc8020_max_labels (rs_cfg s)) [] =
    (True, [(qc_name x, \<lparr>nx_expires_at = st_epoch s + u32_real (neg_ttl_cap (rs_cfg s) ?neg), nx_rule_gen = rs_gen s\<rparr>)])"
    using assms(5,6) by (simp add: nx_register_def Let_def RFC8020_MAX_ENTRIES_def)
  have "snd (confirm_nxdomain W x nx results s) = rfc8020_register (qc_name x) ?neg ?s"
    using assms(2) by (simp add: confirm_nxdomain_def Let_def)
  then show ?thesis using assms(3) s ttl(1) reg by (simp add: rfc8020_register_def Let_def)
qed

end
