(* ===== verification/Resolve_Hits.thy ===== *)
theory Resolve_Hits
  imports Resolve_Props Lru
begin

text \<open>
  Answers served from the cache, for every policy that keeps the contract \<open>dns_cache\<close>: what is served is the entry stored
  for the name and type asked for, under the rules in force, and within its lifetime or the window for stale answers.
\<close>

lemma match_clock [simp]:
  "st_epoch (snd (rs_match_rule W d s)) = st_epoch s" "st_mono (snd (rs_match_rule W d s)) = st_mono s"
  "rs_cache (snd (rs_match_rule W d s)) = rs_cache s" "rs_gen (snd (rs_match_rule W d s)) = rs_gen s"
  by (simp_all add: rs_match_rule_def case_prod_beta split: match_outcome.split)

lemma refresh_clock [simp]:
  "st_epoch (trigger_stale_refresh d q s) = st_epoch s" "st_mono (trigger_stale_refresh d q s) = st_mono s"
  by (simp_all add: trigger_stale_refresh_def Let_def)

lemma synthesize_no_hit [simp]: "\<not> rr_hit (fst (synthesize_forceip W d q r k t0 g c s))"
  by (simp add: synthesize_forceip_def Let_def split: option.split)

lemma blocked_no_hit [simp]: "\<not> rr_hit (blocked_result d q r lat)"
  by (simp add: blocked_result_def)

lemma serve_hit:
  assumes "rr_hit (fst (serve_from_cache W d q e t0 s))"
  shows "fst (serve_from_cache W d q e t0 s) = entry_result d q e (ttl_left_of e (st_epoch s)) (st_mono s - t0) CacheDirect"
proof -
  obtain m s1 where m: "rs_match_rule W d s = (m, s1)" by fastforce
  then have "st_epoch s1 = st_epoch s" "st_mono s1 = st_mono s" using match_clock(1,2) [of W d s] by simp_all
  then show ?thesis using assms by (auto simp: serve_from_cache_def m Let_def split: option.splits if_splits)
qed

lemma serve_stale_hit:
  assumes "rr_hit (fst (serve_stale_from_cache W d q e t0 s))"
  shows "fst (serve_stale_from_cache W d q e t0 s) = entry_result d q e 0 (st_mono s - t0) ServeStale"
proof -
  obtain m s1 where m: "rs_match_rule W d s = (m, s1)" by fastforce
  then have "st_mono s1 = st_mono s" using match_clock(2) [of W d s] by simp
  then show ?thesis using assms by (auto simp: serve_stale_from_cache_def m Let_def split: option.splits if_splits)
qed

lemma entry_result_eq: "cache_entry_eq e e' \<Longrightarrow> entry_result d q e left lat src = entry_result d q e' left lat src"
  unfolding entry_result_def Let_def by (simp add: cache_entry_eq_def)

text \<open>What an answer from the cache rests on: an entry \<open>e\<close> of the generation \<open>gen\<close>, fresh or stale at \<open>now\<close>.\<close>

definition served :: "str \<Rightarrow> str \<Rightarrow> real \<Rightarrow> u64 \<Rightarrow> bool \<Rightarrow> f64 \<Rightarrow> cache_entry \<Rightarrow> resolve_result \<Rightarrow> bool" where
  "served d q now gen ss w e r \<longleftrightarrow>
     ce_rule_gen e = gen \<and>
     ((now < ce_expires_at e \<and> (\<exists>lat. r = entry_result d q e (ttl_left_of e now) lat CacheDirect))
      \<or> (ss \<and> \<not> is_negative_entry e \<and> ce_expires_at e \<le> now \<and> now - ce_expires_at e \<le> stale_real w
          \<and> (\<exists>lat. r = entry_result d q e 0 lat ServeStale)))"

lemma served_eq:
  assumes "served d q now gen ss w e r" "cache_entry_eq e e'"
  shows "served d q now gen ss w e' r"
proof -
  have "ce_rule_gen e = ce_rule_gen e'" "ce_expires_at e = ce_expires_at e'" "is_negative_entry e = is_negative_entry e'"
    "ttl_left_of e now = ttl_left_of e' now"
    using assms(2) by (simp_all add: cache_entry_eq_def is_negative_entry_def ttl_left_of_def)
  then show ?thesis using assms(1) unfolding served_def entry_result_eq [OF assms(2)] by (simp only:)
qed

context dns_cache
begin

lemma from_stale_served:
  assumes "wo_cache W = C" "inv (rs_cache s)" "from_stale W d q ck now w g t0 s = (Some r, s')" "rr_hit r"
  shows "\<exists>e. content (rs_cache s) ck = Some e \<and> served d q now g True w e r"
proof -
  obtain x s1 where x: "rs_cache_get_stale W ck now w s = (x, s1)" by fastforce
  have "x = stale_answer (content (rs_cache s) ck) now (stale_real w)"
    using get_stale [OF assms(2), of ck now "stale_real w"] x assms(1) by (auto simp: rs_cache_get_stale_def split: prod.splits)
  moreover obtain e where e: "x = Some e" "ce_rule_gen e = g" "\<not> is_negative_entry e"
      "(r, s') = serve_stale_from_cache W d q e t0 (trigger_stale_refresh d q s1)"
    using assms(3) x by (auto simp: from_stale_def split: option.splits if_splits prod.splits)
  ultimately have "content (rs_cache s) ck = Some e" "ce_expires_at e \<le> now" "now - ce_expires_at e \<le> stale_real w"
    by (metis stale_answer_Some)+
  moreover have "r = entry_result d q e 0 (st_mono s1 - t0) ServeStale"
    using serve_stale_hit [of W d q e t0 "trigger_stale_refresh d q s1"] e(4) assms(4) by (metis fst_conv refresh_clock(2))
  ultimately show ?thesis using e(2,3) by (auto simp: served_def)
qed

lemma from_stale_rest:
  assumes "wo_cache W = C" "inv (rs_cache s)" "from_stale W d q ck now w g t0 s = (None, s')"
  shows "inv (rs_cache s') \<and> sub_store (content (rs_cache s')) (content (rs_cache s)) \<and> st_epoch s' = st_epoch s"
proof -
  obtain x c where x: "op_get_stale C ck now (stale_real w) (rs_cache s) = (x, c)" by fastforce
  have c: "inv c" "sub_store (content c) (content (rs_cache s))"
    using get_stale [OF assms(2), of ck now "stale_real w"] inv_step [OF assms(2), of "CGetStale ck now (stale_real w)"] x by simp_all
  have "sub_store ((content c)(ck := None)) (content (rs_cache s))"
    using c(2) by (auto simp: sub_store_def)
  then show ?thesis using assms(1,3) c inv_step [OF c(1), of "CDelete ck"] delete [OF c(1), of ck] x
    by (auto simp: from_stale_def rs_cache_get_stale_def rs_cache_delete_def split: option.splits if_splits prod.splits)
qed

lemma from_fresh_served:
  assumes "wo_cache W = C" "inv (rs_cache s)" "from_fresh W d q ck (st_epoch s) g t0 s = (Some r, s')" "rr_hit r"
  shows "\<exists>e. content (rs_cache s) ck = Some e \<and> served d q (st_epoch s) g ss w e r"
proof -
  obtain x s1 where x: "rs_cache_get W ck (st_epoch s) s = (x, s1)" by fastforce
  have "x = fresh_answer (content (rs_cache s) ck) (st_epoch s)" "st_epoch s1 = st_epoch s"
    using get [OF assms(2), of ck "st_epoch s"] x assms(1) by (auto simp: rs_cache_get_def split: prod.splits)
  moreover obtain e where e: "x = Some e" "ce_rule_gen e = g" "(r, s') = serve_from_cache W d q e t0 s1"
    using assms(3) x by (auto simp: from_fresh_def split: option.splits if_splits prod.splits)
  ultimately have "content (rs_cache s) ck = Some e" "st_epoch s < ce_expires_at e" "st_epoch s1 = st_epoch s"
    by (metis fresh_answer_Some)+
  moreover have "r = entry_result d q e (ttl_left_of e (st_epoch s1)) (st_mono s1 - t0) CacheDirect"
    using serve_hit [of W d q e t0 s1] e(3) assms(4) by (metis fst_conv)
  ultimately show ?thesis using e(2) by (auto simp: served_def)
qed

lemma from_cache_served:
  assumes "wo_cache W = C" "inv (rs_cache s)" "from_cache W d q ck ss w (st_epoch s) t0 s = (Some r, s')" "rr_hit r"
  shows "rr_source r = Inferred \<or> (\<exists>e. content (rs_cache s) ck = Some e \<and> served d q (st_epoch s) (rs_gen s) ss w e r)"
proof -
  let ?first = "if ss then from_stale W d q ck (st_epoch s) w (rs_gen s) t0 s else (None, s)"
  obtain x s1 where x: "?first = (x, s1)" by fastforce
  show ?thesis
  proof (cases x)
    case (Some r')
    then have ss: "ss = True" and f: "from_stale W d q ck (st_epoch s) w (rs_gen s) t0 s = (Some r, s1)"
      using x assms(3) by (auto simp: from_cache_def Let_def split: if_splits)
    show ?thesis unfolding ss by (rule disjI2) (rule from_stale_served [OF assms(1,2) f assms(4)])
  next
    case None
    have s1: "inv (rs_cache s1) \<and> sub_store (content (rs_cache s1)) (content (rs_cache s)) \<and> st_epoch s1 = st_epoch s"
      using from_stale_rest [OF assms(1,2), of d q ck "st_epoch s" w "rs_gen s" t0 s1] x None assms(2) by (auto split: if_splits)
    obtain y s2 where y: "from_fresh W d q ck (st_epoch s1) (rs_gen s) t0 s1 = (y, s2)" by fastforce
    show ?thesis
    proof (cases y)
      case (Some r')
      then have "y = Some r" using assms(3) x y None s1 by (auto simp: from_cache_def Let_def)
      then obtain e where e: "content (rs_cache s1) ck = Some e" "served d q (st_epoch s1) (rs_gen s) ss w e r"
        using from_fresh_served [OF assms(1), of s1 d q ck "rs_gen s" t0 r s2 ss w] s1 y assms(4) by auto
      then obtain e' where "content (rs_cache s) ck = Some e'" "cache_entry_eq e e'"
        using s1 unfolding sub_store_def by blast
      then show ?thesis using served_eq [OF e(2)] s1 by auto
    next
      case no: None
      then have "from_inference W d q s2 = (Some r, s')" using assms(3) x y None s1 by (auto simp: from_cache_def Let_def)
      then show ?thesis by (auto simp: from_inference_def rfc8020_serve_def Let_def split: option.splits prod.splits bool.splits)
    qed
  qed
qed

end

text \<open>An answer that is not served from the cache is not marked as a hit.\<close>

lemma follow_no_hit: "fst (follow_cname W sub x cs s) = Some r \<Longrightarrow> \<not> rr_hit r"
  by (auto simp: follow_cname_def Let_def case_prod_beta split: if_splits)

lemma nodata_no_hit: "\<not> rr_hit (fst (finish_nodata W x results s))"
  by (simp add: finish_nodata_def Let_def)

lemma negative_no_hit: "\<not> rr_hit (fst (finish_negative W sub x results s))"
proof -
  let ?cs = "filter (\<lambda>r. ua_cnames r \<noteq> []) results"
  obtain o' s' where f: "follow_cname W sub x ?cs s = (o', s')" by fastforce
  then have "o' = Some r \<Longrightarrow> \<not> rr_hit r" for r using follow_no_hit [of W sub x ?cs s r] by simp
  then show ?thesis
    by (simp add: nodata_no_hit finish_negative_def Let_def f confirm_nxdomain_def del: lit_Cons lit_Nil split: option.split)
qed

lemma finish_no_hit: "\<not> rr_hit (fst (finish_resolve W sub x results rule s))"
  by (simp add: negative_no_hit finish_resolve_def Let_def finish_positive_def case_prod_beta)

lemma upstream_no_hit: "\<not> rr_hit (fst (resolve_upstream W sub d q opts mode t0 g hit rule s))"
  by (simp add: resolve_upstream_def Let_def case_prod_beta finish_no_hit no_upstream_def mark_servfail_def error_result_def)

lemma miss_no_hit: "\<not> rr_hit (fst (resolve_miss W sub d q opts mode t0 g s))"
  by (simp add: resolve_miss_def Let_def case_prod_beta upstream_no_hit split: option.split)

lemma resolve_hit_from_cache:
  assumes "ascii_upper qtype \<noteq> lit ''AAAA''" "rr_hit (fst (resolve W domain qtype opts s))"
  shows "\<exists>s'. from_cache W (normalize domain) (ascii_upper qtype) (cache_key_new (normalize domain) (ascii_upper qtype))
      (cf_serve_stale (rs_cfg s)) (cf_stale_ttl (rs_cfg s)) (st_epoch s) (st_mono s) s = (Some (fst (resolve W domain qtype opts s)), s')"
proof -
  let ?d = "normalize domain" and ?q = "ascii_upper qtype"
  obtain x s1 where x: "from_cache W ?d ?q (cache_key_new ?d ?q) (cf_serve_stale (rs_cfg s)) (cf_stale_ttl (rs_cfg s))
      (st_epoch s) (st_mono s) s = (x, s1)" by fastforce
  have "aaaa_policy_cached W ?d ?q (st_epoch s) s = (None, s)" using assms(1) by (simp add: aaaa_policy_cached_def)
  then show ?thesis using assms x unfolding resolve_def resolve_in_def resolve_inner_def ckey_normalized_def
    by (auto simp: Let_def miss_no_hit simp del: lit_Cons lit_Nil split: if_splits option.splits)
qed

context dns_cache
begin

lemma hit_current:
  assumes "wo_cache W = C" "inv (rs_cache s)" "ascii_upper qtype \<noteq> lit ''AAAA''" "r = fst (resolve W domain qtype opts s)" "rr_hit r"
  shows "rr_source r = Inferred \<or> (\<exists>e. content (rs_cache s) (cache_key_new (normalize domain) (ascii_upper qtype)) = Some e
    \<and> served (normalize domain) (ascii_upper qtype) (st_epoch s) (rs_gen s) (cf_serve_stale (rs_cfg s)) (cf_stale_ttl (rs_cfg s)) e r)"
  using resolve_hit_from_cache [OF assms(3), of W domain opts s] from_cache_served [OF assms(1,2)] assms(4,5) by metis

end


subsection \<open>An example\<close>

definition sample_entry :: cache_entry where
  "sample_entry = (cache_entry_new (lit ''x.test'') (lit ''A'') 300 0)\<lparr>ce_rule_gen := 1\<rparr>"

definition sample_cache :: lru where
  "sample_cache = lru_put (\<lambda>_. 0) (cache_key_new (lit ''x.test'') (lit ''A'')) sample_entry 0 (lru_with_group 64 None)"

lemma sample_cache_inv: "lru_inv (\<lambda>_. 0) sample_cache"
proof -
  have "lru_inv (\<lambda>_. 0) (lru_with_group 64 None)" using lru_new_spec [of "\<lambda>_. 0" 64 None] by simp
  then show ?thesis
    using lru.inv_step [of "\<lambda>_. 0" "lru_with_group 64 None" "CPut (cache_key_new (lit ''x.test'') (lit ''A'')) sample_entry 0"]
    by (simp add: lru_ops_def sample_cache_def del: lit_Cons lit_Nil)
qed

lemma sample_hit:
  "rr_hit (fst (resolve (idle_world (lru_ops (\<lambda>_. 0))) (lit ''x.test'') (lit ''A'') opts0 (idle_state sample_cache)))"
proof -
  let ?W = "idle_world (lru_ops (\<lambda>_. 0))" and ?s = "idle_state sample_cache" and ?k = "cache_key_new (lit ''x.test'') (lit ''A'')"
  have i: "lru_inv (\<lambda>_. 0) (lru_with_group 64 None)" using lru_new_spec [of "\<lambda>_. 0" 64 None] by simp
  have "\<exists>e'. fst (op_get (lru_ops (\<lambda>_. 0)) ?k 0 (op_put (lru_ops (\<lambda>_. 0)) ?k sample_entry 0 (lru_with_group 64 None))) = Some e'
      \<and> cache_entry_eq e' sample_entry"
    by (rule lru.put_get [OF i]) (simp_all add: sample_entry_def cache_entry_new_def)
  moreover have "op_put (lru_ops (\<lambda>_. 0)) ?k sample_entry 0 (lru_with_group 64 None) = sample_cache"
    by (simp add: sample_cache_def lru_ops_def del: lit_Cons lit_Nil)
  ultimately obtain e where e: "fst (op_get (lru_ops (\<lambda>_. 0)) ?k 0 sample_cache) = Some e" "cache_entry_eq e sample_entry" by auto
  obtain s1 where g: "rs_cache_get ?W ?k 0 ?s = (Some e, s1)"
    using e(1) by (simp add: rs_cache_get_def idle_world_def idle_state_def case_prod_beta del: lit_Cons lit_Nil)
  then have s1: "rs_engine s1 = sample_engine"
    using cache_get_fields(1) [of ?W ?k 0 ?s] by (simp add: idle_state_def del: lit_Cons lit_Nil)
  have "priority_scan no_regex sample_rules (name_normalize ascii_unicode (lit ''x.test'')) = None" by code_simp
  moreover have "lru_spec (wo_lru ?W) (\<lambda>l. l)" by (simp add: idle_world_def list_lru_spec)
  moreover have "rules_are ?W (\<lambda>l. l) sample_rules s1"
    using engine_answers [OF list_lru_spec sample_reaches] by (simp add: rules_are_def idle_world_def s1)
  ultimately have m: "fst (rs_match_rule ?W (lit ''x.test'') s1) = None"
    using rs_match_rule_scan [of ?W "\<lambda>l. l" sample_rules s1 "lit ''x.test''"] by (simp add: idle_world_def del: lit_Cons lit_Nil)
  have n: "normalize (lit ''x.test'') = lit ''x.test''" "ascii_upper (lit ''A'') = lit ''A''" "\<not> label_invalid (lit ''x.test'')"
    "qtype_code (lit ''A'') \<noteq> None" "lit ''A'' \<noteq> lit ''AAAA''" "lit ''x.test'' \<noteq> []"
    by code_simp+
  have "rr_hit (fst (serve_from_cache ?W (lit ''x.test'') (lit ''A'') e t0 s1))" for t0
    using m by (simp add: serve_from_cache_def Let_def case_prod_beta entry_result_def del: lit_Cons lit_Nil)
  moreover have "ce_rule_gen e = 1" using e(2) by (simp add: cache_entry_eq_def sample_entry_def)
  ultimately show ?thesis using n g
    by (simp add: resolve_def resolve_in_def resolve_inner_def Let_def aaaa_policy_cached_def opts0_def from_cache_def
        ckey_normalized_def from_fresh_def case_prod_beta idle_state_def resolver_cfg_default_def del: lit_Cons lit_Nil)
qed


end
