(* ===== verification/Answer_Fast.thy ===== *)
theory Answer_Fast
  imports Resolve_Hits Response
begin

text \<open>
  The fast path of a query, \<open>ebpdns-resolver/src/answer.rs\<close>: a packet that asks for a cached name is answered from the
  cache at once; \<open>None\<close> hands it to the full resolution.
\<close>

datatype fast_kind = FastCache | FastPolicy

definition fast_udp :: "bytes \<Rightarrow> str \<Rightarrow> cache_entry \<Rightarrow> real \<Rightarrow> u32 \<Rightarrow> udp_resp" where
  "fast_udp raw d e left udp_size =
     (let info = question_edns_info raw in
      \<lparr>raw_query = raw, ur_qbytes = qbytes info,
       ur_answers = map (\<lambda>a. \<lparr>ai_rtype = ca_rtype a, ai_value = ca_value a, ai_ttl = Some (f64_to_u32 left), ai_name = ca_name a\<rparr>)
         (ce_answers e),
       ur_rcode = ce_rcode e, abody = None, abody_count = None, owner_name = Some d, fallback_type = TYPE_A,
       ttl_override = None, bufsize_cap = Some (ucast (min udp_size 65535)), force_truncated = False, enc_owner = None,
       edns_info_in = Some info\<rparr>)"

text \<open>What an entry that may be served becomes on the wire.\<close>

definition fast_answer :: "unicode_lib \<Rightarrow> bytes \<Rightarrow> str \<Rightarrow> cache_entry \<Rightarrow> real \<Rightarrow> u32 \<Rightarrow> bytes option" where
  "fast_answer U raw d e left udp_size =
     (if ce_rcode e = 3 then build_simple_response raw 3
      else if ce_answers e = [] then build_simple_response raw 0
      else build_udp_response U (fast_udp raw d e left udp_size))"

definition fast_lookup ::
  "('c, 're, 'l) world \<Rightarrow> bytes \<Rightarrow> str \<Rightarrow> str \<Rightarrow> ('c, 're, 'l) resolver \<Rightarrow> (bytes \<times> fast_kind) option \<times> ('c, 're, 'l) resolver" where
  "fast_lookup W raw d qt s =
     (let now = st_epoch s; ck = ckey_normalized d qt in
      case rs_cache_get W ck now s of
        (None, s) \<Rightarrow> (None, s)
      | (Some e, s) \<Rightarrow>
          if ce_rule_gen e \<noteq> rs_gen s then (None, rs_cache_delete W ck s)
          else
            (case match_rule_fast W d s of
               (v, s) \<Rightarrow>
                 if (case v of Uncertain \<Rightarrow> True | Hit r \<Rightarrow> ru_action r = Block | NoRule \<Rightarrow> False) then (None, s)
                 else
                   let left = ttl_left_of e now; s = schedule_prefetch d qt (Fin left) s in
                   (map_option (\<lambda>b. (b, FastCache)) (fast_answer (wo_unicode W) raw d e left (cf_edns_udp_size (rs_cfg s))), s)))"

definition answer_fast_ex ::
  "('c, 're, 'l) world \<Rightarrow> bytes \<Rightarrow> ('c, 're, 'l) resolver \<Rightarrow> (bytes \<times> fast_kind) option \<times> ('c, 're, 'l) resolver" where
  "answer_fast_ex W raw s =
     (if length raw < 12 then (None, s)
      else if raw ! 2 AND 0x80 \<noteq> 0 then (None, s)
      else if drop_bit 3 (raw ! 2) AND 0x0F \<noteq> 0 then (None, s)
      else case parse_message raw of
        Inl _ \<Rightarrow> (None, s)
      | Inr msg \<Rightarrow>
          (case questions msg of
             [] \<Rightarrow> (None, s)
           | qu # _ \<Rightarrow>
               if qclass qu \<noteq> CLASS_IN then (None, s)
               else
                 let d = ascii_lower (trim_end_dots (q_name qu)) in
                 (case qtype_name (qtype qu) of
                    None \<Rightarrow> (None, s)
                  | Some qt \<Rightarrow>
                      (case aaaa_policy_cached W d qt (st_epoch s) s of
                         (Some PreferIpv4Probe, s) \<Rightarrow> (None, s)
                       | (Some _, s) \<Rightarrow> (map_option (\<lambda>b. (b, FastPolicy)) (build_simple_response raw 0), s)
                       | (None, s) \<Rightarrow> fast_lookup W raw d qt s))))"

definition answer_fast ::
  "('c, 're, 'l) world \<Rightarrow> bytes \<Rightarrow> ('c, 're, 'l) resolver \<Rightarrow> bytes option \<times> ('c, 're, 'l) resolver" where
  "answer_fast W raw s = (case answer_fast_ex W raw s of (r, s) \<Rightarrow> (map_option fst r, s))"

text \<open>\<open>answer_raw\<close> of the TCP path is the same call.\<close>

definition answer_raw ::
  "('c, 're, 'l) world \<Rightarrow> bytes \<Rightarrow> ('c, 're, 'l) resolver \<Rightarrow> bytes option \<times> ('c, 're, 'l) resolver" where
  "answer_raw W raw s = answer_fast W raw s"

subsection \<open>What the fast path serves\<close>

lemma fast_answer_eq: "cache_entry_eq e e' \<Longrightarrow> fast_answer U raw d e left n = fast_answer U raw d e' left n"
  unfolding fast_answer_def fast_udp_def Let_def by (simp add: cache_entry_eq_def)

text \<open>A response made of an entry that is fresh and of the generation in force, for a name the rules do not block.\<close>

definition fast_from ::
  "('c, 're, 'l) world \<Rightarrow> rule list \<Rightarrow> bytes \<Rightarrow> str \<Rightarrow> ('c, 're, 'l) resolver \<Rightarrow> cache_entry \<Rightarrow> bytes \<Rightarrow> bool" where
  "fast_from W rules raw d s e b \<longleftrightarrow>
     st_epoch s < ce_expires_at e \<and> ce_rule_gen e = rs_gen s
     \<and> \<not> (\<exists>r. priority_scan (wo_regex W) rules (name_normalize (wo_unicode W) d) = Some r \<and> ru_action r = Block)
     \<and> fast_answer (wo_unicode W) raw d e (ttl_left_of e (st_epoch s)) (cf_edns_udp_size (rs_cfg s)) = Some b"

lemma fast_from_eq:
  assumes "fast_from W rules raw d s e b" "cache_entry_eq e e'"
  shows "fast_from W rules raw d s e' b"
proof -
  have "ce_rule_gen e = ce_rule_gen e'" "ce_expires_at e = ce_expires_at e'" "ttl_left_of e now = ttl_left_of e' now" for now
    using assms(2) by (simp_all add: cache_entry_eq_def ttl_left_of_def)
  then show ?thesis using assms(1) unfolding fast_from_def fast_answer_eq [OF assms(2)] by simp
qed

lemma match_fast_scan:
  assumes "lru_spec (wo_lru W) entries" "rules_are W entries rules s"
  shows "fst (match_rule_fast W d s) \<in> {Uncertain, outcome_of (priority_scan (wo_regex W) rules (name_normalize (wo_unicode W) d))}"
  using match_rule_answers(2) [OF assms(1) assms(2) [unfolded rules_are_def], of "wo_unicode W" "wo_hash W" d True]
  by (auto simp: match_rule_fast_def case_prod_beta)

lemma match_fast_clock [simp]: "rs_cfg (snd (match_rule_fast W d s)) = rs_cfg s"
  by (simp add: match_rule_fast_def case_prod_beta)

lemma cache_get_clock:
  "rs_cache_get W ck now s = (x, s1) \<Longrightarrow> st_epoch s1 = st_epoch s \<and> rs_gen s1 = rs_gen s \<and> rs_cfg s1 = rs_cfg s \<and> rs_engine s1 = rs_engine s"
  by (auto simp: rs_cache_get_def split: prod.splits)

context dns_cache
begin

lemma fast_lookup_sound:
  assumes "wo_cache W = C" "inv (rs_cache s)" "lru_spec (wo_lru W) entries" "rules_are W entries rules s"
    and "fst (fast_lookup W raw d qt s) = Some (b, k)"
  shows "k = FastCache \<and> (\<exists>e. content (rs_cache s) (cache_key_new d qt) = Some e \<and> fast_from W rules raw d s e b)"
proof -
  obtain x s1 where x: "rs_cache_get W (cache_key_new d qt) (st_epoch s) s = (x, s1)" by fastforce
  note t = cache_get_clock [OF x]
  have "x = fresh_answer (content (rs_cache s) (cache_key_new d qt)) (st_epoch s)"
    using get [OF assms(2), of "cache_key_new d qt" "st_epoch s"] x assms(1) by (auto simp: rs_cache_get_def split: prod.splits)
  moreover obtain e where e: "x = Some e" "ce_rule_gen e = rs_gen s"
    using assms(5) x t by (auto simp: fast_lookup_def ckey_normalized_def Let_def split: option.splits if_splits)
  ultimately have c: "content (rs_cache s) (cache_key_new d qt) = Some e" "st_epoch s < ce_expires_at e"
    by (metis fresh_answer_Some)+
  obtain v s2 where v: "match_rule_fast W d s1 = (v, s2)" by fastforce
  have "rules_are W entries rules s1" using assms(4) t by (simp add: rules_are_def)
  from match_fast_scan [OF assms(3) this, of d] have
    vc: "v \<in> {Uncertain, outcome_of (priority_scan (wo_regex W) rules (name_normalize (wo_unicode W) d))}" using v by simp
  have r: "fast_lookup W raw d qt s = (if (case v of Uncertain \<Rightarrow> True | Hit r \<Rightarrow> ru_action r = Block | NoRule \<Rightarrow> False) then (None, s2)
                 else let left = ttl_left_of e (st_epoch s); s = schedule_prefetch d qt (Fin left) s2 in
                   (map_option (\<lambda>b. (b, FastCache)) (fast_answer (wo_unicode W) raw d e left (cf_edns_udp_size (rs_cfg s))), s))"
    using x e t v by (simp add: fast_lookup_def ckey_normalized_def Let_def)
  have nb: "\<not> (case v of Uncertain \<Rightarrow> True | Hit r \<Rightarrow> ru_action r = Block | NoRule \<Rightarrow> False)"
    using assms(5) r by (auto split: if_splits)
  then have "\<not> (\<exists>r. priority_scan (wo_regex W) rules (name_normalize (wo_unicode W) d) = Some r \<and> ru_action r = Block)"
    using vc by (auto simp: outcome_of_def)
  moreover have "rs_cfg s2 = rs_cfg s" using match_fast_clock [of W d s1] v t by simp
  then have "k = FastCache \<and> fast_answer (wo_unicode W) raw d e (ttl_left_of e (st_epoch s)) (cf_edns_udp_size (rs_cfg s)) = Some b"
    using assms(5) r nb by (auto simp: Let_def)
  ultimately show ?thesis using c e(2) by (auto simp: fast_from_def)
qed

lemma policy_state:
  assumes "wo_cache W = C" "inv (rs_cache s)" "aaaa_policy_cached W d qt (st_epoch s) s = (p, s1)"
  shows "inv (rs_cache s1) \<and> sub_store (content (rs_cache s1)) (content (rs_cache s)) \<and> st_epoch s1 = st_epoch s \<and> rs_gen s1 = rs_gen s
    \<and> rs_cfg s1 = rs_cfg s \<and> rs_engine s1 = rs_engine s"
proof -
  obtain x s2 where x: "rs_cache_get W (ckey_normalized d (lit ''A'')) (st_epoch s) s = (x, s2)" by fastforce
  note t = cache_get_clock [OF x]
  have "inv (rs_cache s2) \<and> sub_store (content (rs_cache s2)) (content (rs_cache s))"
    using get [OF assms(2), of "ckey_normalized d (lit ''A'')" "st_epoch s"]
      inv_step [OF assms(2), of "CGet (ckey_normalized d (lit ''A'')) (st_epoch s)"] x assms(1)
    by (auto simp: rs_cache_get_def simp del: lit_Cons lit_Nil split: prod.splits)
  moreover have "s1 = s \<or> s1 = s2"
    using assms(3) x by (auto simp: aaaa_policy_cached_def Let_def simp del: lit_Cons lit_Nil split: if_splits option.splits)
  ultimately show ?thesis using t assms(2) by auto
qed

lemma fast_sound:
  assumes "wo_cache W = C" "inv (rs_cache s)" "lru_spec (wo_lru W) entries" "rules_are W entries rules s"
    and "fst (answer_fast_ex W raw s) = Some (b, FastCache)"
  shows "\<exists>msg qu rest qt e. parse_message raw = Inr msg \<and> questions msg = qu # rest \<and> qclass qu = CLASS_IN
    \<and> qtype_name (qtype qu) = Some qt
    \<and> content (rs_cache s) (cache_key_new (ascii_lower (trim_end_dots (q_name qu))) qt) = Some e
    \<and> fast_from W rules raw (ascii_lower (trim_end_dots (q_name qu))) s e b"
proof -
  obtain msg where m: "parse_message raw = Inr msg"
    using assms(5) by (auto simp: answer_fast_ex_def split: if_splits sum.splits)
  obtain qu rest where q: "questions msg = qu # rest" "qclass qu = CLASS_IN"
    using assms(5) m by (auto simp: answer_fast_ex_def split: if_splits list.splits)
  let ?d = "ascii_lower (trim_end_dots (q_name qu))"
  obtain qt where qt: "qtype_name (qtype qu) = Some qt"
    using assms(5) m q by (auto simp: answer_fast_ex_def Let_def split: if_splits option.splits)
  obtain p s1 where p: "aaaa_policy_cached W ?d qt (st_epoch s) s = (p, s1)" by fastforce
  note st = policy_state [OF assms(1,2) p]
  have "p = None \<and> fst (fast_lookup W raw ?d qt s1) = Some (b, FastCache)"
    using assms(5) m q qt p by (auto simp: answer_fast_ex_def Let_def split: if_splits option.splits aaaa_policy.splits)
  then obtain e where e: "content (rs_cache s1) (cache_key_new ?d qt) = Some e" "fast_from W rules raw ?d s1 e b"
    using fast_lookup_sound [OF assms(1) _ assms(3), of s1 rules raw ?d qt b FastCache] st assms(4) by (auto simp: rules_are_def)
  then obtain e' where e': "content (rs_cache s) (cache_key_new ?d qt) = Some e'" "cache_entry_eq e e'"
    using st unfolding sub_store_def by blast
  have "fast_from W rules raw ?d s e' b"
    using fast_from_eq [OF e(2) e'(2)] st by (simp add: fast_from_def)
  then show ?thesis using m q qt e'(1) by blast
qed

end

text \<open>
  C35: A packet the fast path answers from the LRU cache is a query of class IN with a supported type; the response is made
  of the entry stored under its name and type, which has not expired and was made under the rules in force, and the name is
  not blocked by them.
\<close>

theorem fast_answer_sound:
  assumes "wo_cache W = lru_ops H" "lru_inv H (rs_cache s)" "lru_spec (wo_lru W) entries" "rules_are W entries rules s"
    and "fst (answer_fast_ex W raw s) = Some (b, FastCache)"
  shows "\<exists>msg qu rest qt e. parse_message raw = Inr msg \<and> questions msg = qu # rest \<and> qclass qu = CLASS_IN
    \<and> qtype_name (qtype qu) = Some qt
    \<and> lru_content H (rs_cache s) (cache_key_new (ascii_lower (trim_end_dots (q_name qu))) qt) = Some e
    \<and> fast_from W rules raw (ascii_lower (trim_end_dots (q_name qu))) s e b"
  by (rule lru.fast_sound) (use assms in auto)

subsection \<open>An example\<close>

text \<open>A query for the name x, type A, which the rules allow, and a cached NXDOMAIN for it.\<close>

definition allow_rules :: "rule list" where "allow_rules = [plain_rule ''x'' Allow]"

definition allow_engine :: "(unit, (str \<times> rule option) list) rule_engine" where
  "allow_engine = snd (engine_rebuild no_regex list_lru 0 allow_rules (engine_with_options no_regex list_lru 8192 3 0))"

lemma allow_reaches: "engine_reaches ascii_unicode (\<lambda>_. 0) no_regex list_lru allow_rules allow_engine"
  unfolding allow_engine_def by (rule engine_reaches.rebuilt [OF engine_reaches.made])

lemma allow_fast: "fst (match_rule ascii_unicode (\<lambda>_. 0) no_regex list_lru [120] True allow_engine) = Hit (plain_rule ''x'' Allow)"
proof -
  have n: "name_normalize ascii_unicode [120] = [120]" by code_simp
  have v: "ix_allow_exact (en_index allow_engine) [120] = Some (plain_rule ''x'' Allow)" by code_simp
  have c: "fst (cache_get (\<lambda>_. 0) list_lru [120] allow_engine) = None" by code_simp
  obtain e1 where "cache_get (\<lambda>_. 0) list_lru [120] allow_engine = (None, e1)" using c by (metis prod.collapse)
  then show ?thesis using n v by (simp add: match_rule_def Let_def verdict_def outcome_of_def)
qed

definition fast_state :: "'c \<Rightarrow> ('c, unit, (str \<times> rule option) list) resolver" where
  "fast_state c = (idle_state c)\<lparr>rs_engine := allow_engine\<rparr>"

definition sample_query :: bytes where
  "sample_query = [0,1, 1,0, 0,1, 0,0, 0,0, 0,0, 1,120,0, 0,1, 0,1]"

definition nx_entry_x :: cache_entry where
  "nx_entry_x = (cache_entry_new [120] (lit ''A'') 300 0)\<lparr>ce_rule_gen := 1, ce_rcode := 3, ce_answers := []\<rparr>"

definition nx_cache :: lru where
  "nx_cache = lru_put (\<lambda>_. 0) (cache_key_new [120] (lit ''A'')) nx_entry_x 0 (lru_with_group 64 None)"

lemma sample_query_parses:
  "\<exists>m. parse_message sample_query = Inr m \<and> questions m = [\<lparr>q_name = [120], qtype = 1, qclass = 1\<rparr>]"
proof -
  have "valid_utf8 [120]" by code_simp
  then have d: "decode_name sample_query 12 = Inr ([120], 15)"
    unfolding decode_name_def sample_query_def
    by (subst decode_loop.simps, simp add: slice_def, subst decode_loop.simps, simp)
  have l: "length sample_query = 19" by (simp add: sample_query_def)
  have "be_u16 sample_query 15 = Some 1" "be_u16 sample_query 17 = Some 1"
    by (simp_all add: be_u16_def slice_def of_be_def sample_query_def)
  then have "parse_questions sample_query 1 12 = Inr (19, [\<lparr>q_name = [120], qtype = 1, qclass = 1\<rparr>])"
    unfolding One_nat_def by (simp add: d l)
  moreover have "\<exists>i fl. be_u16 sample_query 0 = Some i \<and> be_u16 sample_query 2 = Some fl"
      "be_u16 sample_query 4 = Some 1" "be_u16 sample_query 6 = Some 0" "be_u16 sample_query 8 = Some 0"
      "be_u16 sample_query 10 = Some 0"
    by (simp_all add: be_u16_def slice_def of_be_def sample_query_def)
  ultimately show ?thesis using l by (auto simp: parse_message_def)
qed

lemma nx_cache_inv: "lru_inv (\<lambda>_. 0) nx_cache"
proof -
  have "lru_inv (\<lambda>_. 0) (lru_with_group 64 None)" using lru_new_spec [of "\<lambda>_. 0" 64 None] by simp
  then show ?thesis
    using lru.inv_step [of "\<lambda>_. 0" "lru_with_group 64 None" "CPut (cache_key_new [120] (lit ''A'')) nx_entry_x 0"]
    by (simp add: lru_ops_def nx_cache_def del: lit_Cons lit_Nil)
qed

lemma sample_fast:
  "\<exists>b. fst (answer_fast_ex (idle_world (lru_ops (\<lambda>_. 0))) sample_query (fast_state nx_cache)) = Some (b, FastCache)"
proof -
  let ?W = "idle_world (lru_ops (\<lambda>_. 0))" and ?s = "fast_state nx_cache" and ?k = "cache_key_new [120] (lit ''A'')"
  have i: "lru_inv (\<lambda>_. 0) (lru_with_group 64 None)" using lru_new_spec [of "\<lambda>_. 0" 64 None] by simp
  have "\<exists>e'. fst (op_get (lru_ops (\<lambda>_. 0)) ?k 0 (op_put (lru_ops (\<lambda>_. 0)) ?k nx_entry_x 0 (lru_with_group 64 None))) = Some e'
      \<and> cache_entry_eq e' nx_entry_x"
    by (rule lru.put_get [OF i]) (simp_all add: nx_entry_x_def cache_entry_new_def)
  moreover have "op_put (lru_ops (\<lambda>_. 0)) ?k nx_entry_x 0 (lru_with_group 64 None) = nx_cache"
    by (simp add: nx_cache_def lru_ops_def del: lit_Cons lit_Nil)
  ultimately obtain e where e: "fst (op_get (lru_ops (\<lambda>_. 0)) ?k 0 nx_cache) = Some e" "cache_entry_eq e nx_entry_x" by auto
  obtain s1 where g: "rs_cache_get ?W ?k 0 ?s = (Some e, s1)"
    using e(1) by (simp add: rs_cache_get_def idle_world_def fast_state_def idle_state_def case_prod_beta del: lit_Cons lit_Nil)
  then have s1: "rs_engine s1 = allow_engine"
    using cache_get_fields(1) [of ?W ?k 0 ?s] by (simp add: fast_state_def idle_state_def del: lit_Cons lit_Nil)
  note t = cache_get_clock [OF g]
  have m: "fst (match_rule_fast ?W [120] s1) = Hit (plain_rule ''x'' Allow)"
    by (simp add: match_rule_fast_def idle_world_def s1 case_prod_beta allow_fast)
  have allow: "ru_action (plain_rule ''x'' Allow) = Allow" by (simp add: plain_rule_def)
  obtain b where b: "build_simple_response sample_query 3 = Some b"
    by (simp add: build_simple_response_def sample_query_def build_response_header_qd_def Let_def)
  have "ce_rule_gen e = 1" "ce_rcode e = 3" using e(2) by (simp_all add: cache_entry_eq_def nx_entry_x_def)
  moreover have "rs_gen s1 = 1" using t by (simp add: fast_state_def idle_state_def)
  ultimately have f: "fst (fast_lookup ?W sample_query [120] (lit ''A'') ?s) = Some (b, FastCache)"
    using g m b allow by (simp add: fast_lookup_def ckey_normalized_def Let_def case_prod_beta fast_state_def idle_state_def fast_answer_def del: lit_Cons lit_Nil)
  obtain msg where p: "parse_message sample_query = Inr msg" "questions msg = [\<lparr>q_name = [120], qtype = 1, qclass = 1\<rparr>]"
    using sample_query_parses by blast
  have n: "ascii_lower (trim_end_dots [120]) = [120]" "qtype_name 1 = Some (lit ''A'')" "lit ''A'' \<noteq> lit ''AAAA''"
    "length sample_query = 19" "sample_query ! 2 AND 0x80 = 0" "drop_bit 3 (sample_query ! 2) AND 0x0F = 0"
    by code_simp+
  have "aaaa_policy_cached ?W [120] (lit ''A'') (st_epoch ?s) ?s = (None, ?s)" using n(3) by (simp add: aaaa_policy_cached_def del: lit_Cons lit_Nil)
  then show ?thesis using p n f by (simp add: answer_fast_ex_def Let_def del: lit_Cons lit_Nil)
qed

theorem fast_answer_sound_witness:
  "\<exists>msg qu qt e. parse_message sample_query = Inr msg \<and> questions msg = [qu] \<and> qtype_name (qtype qu) = Some qt
    \<and> lru_content (\<lambda>_. 0) nx_cache (cache_key_new (ascii_lower (trim_end_dots (q_name qu))) qt) = Some e \<and> ce_rule_gen e = 1"
proof -
  let ?W = "idle_world (lru_ops (\<lambda>_. 0))" and ?s = "fast_state nx_cache"
  obtain b where b: "fst (answer_fast_ex ?W sample_query ?s) = Some (b, FastCache)" using sample_fast by blast
  have "lru_spec (wo_lru ?W) (\<lambda>l. l)" by (simp add: idle_world_def list_lru_spec)
  moreover have "rules_are ?W (\<lambda>l. l) allow_rules ?s"
    using engine_answers [OF list_lru_spec allow_reaches] by (simp add: rules_are_def idle_world_def fast_state_def idle_state_def)
  moreover have "wo_cache ?W = lru_ops (\<lambda>_. 0)" "lru_inv (\<lambda>_. 0) (rs_cache ?s)"
    using nx_cache_inv by (simp_all add: idle_world_def fast_state_def idle_state_def)
  ultimately obtain msg qu rest qt e where "parse_message sample_query = Inr msg" "questions msg = qu # rest" "qclass qu = CLASS_IN"
    "qtype_name (qtype qu) = Some qt"
    "lru_content (\<lambda>_. 0) (rs_cache ?s) (cache_key_new (ascii_lower (trim_end_dots (q_name qu))) qt) = Some e"
    "fast_from ?W allow_rules sample_query (ascii_lower (trim_end_dots (q_name qu))) ?s e b"
    using fast_answer_sound [OF _ _ _ _ b] by metis
  then show ?thesis using sample_query_parses by (auto simp: fast_from_def fast_state_def idle_state_def)
qed

end
