(* ===== verification/Spec2Isabelle.thy ===== *)
theory Spec2Isabelle
  imports Response_Parse Rdata_Roundtrip Lru_Props Swap_Props Recover_Crash Rule_Race Rule_Patterns Rule_Lists Header_Check Breaker Nxdomain_Table Classify Single_Flight Answer_Fast
begin

text \<open>
  A verification of the DNS resolver \<open>ebpdns\<close>, a Rust workspace under \<open>crates/\<close>.  The development is a shallow embedding: a
  function of the program is a function here, a \<open>struct\<close> is a record, an \<open>enum\<close> a datatype, and every raised error or early
  return is a branch.  Names follow the code; where a name is taken, a prefix says which component it belongs to.

  \<^bold>\<open>The program and its parts.\<close>  A packet arrives at the server.  \<open>ebpdns-proto\<close> takes the question out of its bytes.  The fast
  path (\<open>ebpdns-resolver/src/answer.rs\<close>) answers from the cache if it can.  Otherwise \<open>resolve\<close> (\<open>resolve.rs\<close>) looks at the
  cache, the rules (\<open>ebpdns-rules\<close>) and the table of nonexistent names (\<open>rfc8020.rs\<close>), joins a resolution of the same name
  that is already under way (\<open>singleflight.rs\<close>), chooses upstreams by rating (\<open>lib.rs\<close>, \<open>breaker.rs\<close>), sends waves of
  queries (\<open>production.rs\<close>) whose responses are checked (\<open>ebpdns-upstream\<close>) and classified (\<open>query.rs\<close>), votes on a verdict,
  orders addresses by measured speed, and fills the cache (\<open>ebpdns-cache\<close>).  The cache sends what it stores and drops to a
  journal; a thread writes the journal to a log and to snapshots, from which a start recovers.

  \<^bold>\<open>Theories.\<close>

  \<^item> Shared: \<open>Prelude\<close> (words, byte strings, results, generic lemmas, the collections \<open>wire_simps\<close> and \<open>len_simps\<close>),
    \<open>Text\<close> (what the code uses of \<open>str\<close>, \<open>char\<close> and UTF-8), \<open>Ip_Text\<close> (\<open>std::net\<close> addresses and their text).

  \<^item> Protocol, \<open>ebpdns-proto/src\<close>: \<open>Constants\<close> (\<open>constants.rs\<close>, \<open>error.rs\<close>), \<open>Names\<close> (\<open>name.rs\<close>), \<open>Rdata_Text\<close> and \<open>Rdata\<close>
    (\<open>rdata.rs\<close>), \<open>Message\<close> (\<open>message.rs\<close>, \<open>record.rs\<close>, \<open>tcp.rs\<close>), \<open>Edns\<close>, \<open>Query\<close>, \<open>Response\<close> (the files of these names).
    \<open>Rdata_Roundtrip\<close> and \<open>Response_Parse\<close> hold only theorems.  They show that decoding a name consumes bytes and ends
    whatever the compression pointers say; that what the parser accepts is well-formed and inside the packet; that a built
    response stays in its limit and holds a prefix of the records; that a response built for a built query is parsed as
    the same question and records; that the display text of a record is read back as the record; and that the check of the
    0x20 case accepts exactly the name that was sent.

  \<^item> Cache, \<open>ebpdns-cache/src\<close>: \<open>Ordered_Map\<close> (\<open>ordered_map.rs\<close>, the arena with its links and free list) with \<open>Ordered_Map_Abs\<close>
    (it simulates a list of pairs; locale \<open>ordered_map\<close>), \<open>Cache_Entry\<close> (\<open>entry.rs\<close>, \<open>util.rs\<close>), \<open>Journal\<close>
    (\<open>persist/journal.rs\<close>), \<open>Dns_Cache\<close> (the trait of \<open>lib.rs\<close> and its contract, locale \<open>dns_cache\<close>), \<open>Lru\<close> and
    \<open>Lru_Props\<close> (\<open>lru.rs\<close>), \<open>Sketch\<close>, \<open>Tinylfu\<close>, \<open>Tinylfu_Props\<close>, \<open>Tinylfu_History\<close> (\<open>tinylfu.rs\<close>), \<open>Partitioned\<close> and
    \<open>Partitioned_Props\<close> (\<open>partitioned.rs\<close>), \<open>Swap\<close> and \<open>Swap_Props\<close> (\<open>swap.rs\<close>; the change of the policy in \<open>reload\<close>; locale
    \<open>journalled_cache\<close>, which extends \<open>dns_cache\<close>).  Over any history of calls a cache serves only what was last stored,
    before it expires or within the window for stale answers, and stays in its capacity; unless a snapshot is due, replaying
    the events gives at least what the cache holds and at most what was stored.

  \<^item> Persistence, \<open>ebpdns-cache/src/persist\<close>: \<open>Crc32c\<close>, \<open>Entry_Codec\<close>, \<open>Wal\<close>, \<open>Snapshot\<close>, \<open>Manifest\<close>, \<open>Recover\<close> (the files of
    these names), with the theorems in \<open>Entry_Roundtrip\<close>, \<open>Wal_Props\<close>, \<open>Snapshot_Props\<close>, \<open>Manifest_Props\<close>, \<open>Recover_Props\<close> and
    \<open>Recover_Crash\<close>.  What is written is read back, damage is noticed and confined, and recovery after a write that stopped
    anywhere in a log gives exactly the entries that the snapshot and the complete records describe.

  \<^item> Rules, \<open>ebpdns-rules/src\<close>: \<open>Rules\<close> (\<open>rule.rs\<close>, \<open>wildcard.rs\<close>, \<open>index.rs\<close>, \<open>load.rs\<close>), \<open>Rule_Lists\<close> (\<open>parse.rs\<close>),
    \<open>Rule_Engine\<close> (\<open>engine.rs\<close>), \<open>Rule_Index\<close> (the tables give what a scan of the rules gives), \<open>Rule_Cache\<close> (the cache of
    verdicts never changes an answer; locale \<open>lru_crate\<close>), \<open>Rule_Race\<close> (also not when lookups and publications of many
    threads interleave at every atomic access), \<open>Rule_Patterns\<close> (a wildcard that matches is never filtered out).

  \<^item> Upstreams, \<open>ebpdns-upstream/src\<close>: \<open>Upstream_Addr\<close> (\<open>addr.rs\<close>), \<open>Header_Check\<close> (\<open>header_check.rs\<close>, with the state of the 0x20
    control refined to its specification), and the health counters of \<open>health.rs\<close> in \<open>Querier\<close>.

  \<^item> Resolver, \<open>ebpdns-resolver/src\<close>: \<open>Resolver_Types\<close> (\<open>types.rs\<close>, \<open>helpers.rs\<close>, \<open>prefetch.rs\<close>), \<open>Resolver_Config\<close>
    (\<open>config.rs\<close>), \<open>Breaker\<close>, \<open>Nxdomain_Table\<close> (\<open>rfc8020.rs\<close>), \<open>Classify\<close> (\<open>query.rs\<close>), \<open>Single_Flight\<close>, \<open>Querier\<close> and
    \<open>Query_Wave\<close> (\<open>production.rs\<close>), \<open>Upstream_Select\<close>, \<open>Speed_Sort\<close> and \<open>Resolver_State\<close> (\<open>lib.rs\<close>), \<open>Resolve\<close>
    (\<open>resolve.rs\<close>), \<open>Answer_Fast\<close> (\<open>answer.rs\<close>), with theorems on whole resolutions in \<open>Resolve_Props\<close>, \<open>Resolve_Hits\<close> and
    \<open>Answer_Fast\<close>: a negative verdict needs the configured number of different upstreams; a positive answer was given in
    full by an upstream and has no private address that the rules do not allow; a blocked name gets NXDOMAIN and no more;
    a hit is current for the rules; nothing is cached longer than configured.

  \<^bold>\<open>Contracts.\<close>  \<open>dns_cache\<close> is interpreted by the LRU cache, by W-TinyLFU, and by a policy behind the trait object; its client
  is \<open>Resolve_Hits\<close>.  \<open>ordered_map\<close> is interpreted by the arena; its clients are the caches.  \<open>journalled_cache\<close> is interpreted
  by the policy behind the trait object; its client is the exchangeable cache.  \<open>lru_crate\<close> states what the crate \<open>lru\<close>
  documents and is interpreted by an association list, since the crate is not part of the program.

  \<^bold>\<open>Numbers, time and loops.\<close>  \<open>u8\<close> to \<open>u64\<close> are words, \<open>i64\<close> is a word read with its sign, \<open>usize\<close> is a natural number, with
  its saturation written out where the code saturates.  Times and rates in \<open>f64\<close> are real numbers, so rounding is left out;
  where a value comes from outside and may be infinite or not a number it has the type \<open>f64\<close> of \<open>Cache_Entry\<close>.  Loops are
  structural recursions or functions with a measure, so every definition is total.  Where the code has a bound of its own
  (32 compression pointers in a name, eight levels of aliases) the bound is the argument that decreases.  Walks along
  the links of the ordered map have fuel: its length for \<open>iter\<close> and \<open>pop_while\<close>, and \<open>Ordered_Map\<close> shows that this reaches the
  end of the list.  Threads are the step relations of \<open>Rule_Race\<close> (one step per atomic access), \<open>Single_Flight\<close> (one per access
  to shared state) and \<open>Query_Wave\<close> (one per event of \<open>select!\<close>).  In \<open>Resolve\<close> other tasks run while a wave or a flight is
  awaited, as arbitrary changes of the state that keep what the theorem names; the clock stands still between two waits.

  \<^bold>\<open>Parameters.\<close>  Code outside the repository is an argument: Unicode lower-casing and the crate \<open>idna\<close> (\<open>unicode_lib\<close>), the
  crate \<open>regex\<close> (\<open>regex_lib\<close>), the crate \<open>lru\<close> (\<open>lru_lib\<close>), the hash function of the caches, random numbers, the deserialiser of
  entries, and the transports (the field \<open>wo_query\<close> of \<open>world\<close>).  What is assumed of them is a named premise.

  \<^bold>\<open>Not modelled.\<close>  The HTTP interface and the stores of \<open>ebpdns-server\<close>, sockets, TLS and QUIC, the pools of connections, the
  console, the load simulator, and the start of the program are input and output around the parts above.  Texts of errors and
  logs, traces and counters of the telemetry do not influence an answer and are left out, as are the JSON summaries and
  listings of the caches.  The thread that writes the journal is present only as the receiver of its events.  Reading and
  checking a configuration and the rest of \<open>reload\<close> are left out.
\<close>

end
